(* ===== verification/Prelude.thy ===== *)
theory Prelude
  imports Complex_Main "HOL-Library.Word" "HOL-Library.Char_ord"
begin

text \<open>
  What the component theories share: the names of the machine types, the collections of
  rewriting rules, and the generic lemmas on machine words, lists and C strings.

  An \<open>unsigned long\<close> of the sources is a \<open>u64\<close>, an \<open>unsigned int\<close> a \<open>u32\<close>; an \<open>int\<close> is a \<open>u32\<close>
  read in two's complement (\<open>sint\<close>). A C string is the list of its characters before the
  terminating NUL; \<open>chr_at\<close> reads it the way C does, with the NUL at the index that is its
  length. A fallible operation is a sum with the error on the left, and \<open>bindE\<close> is the sequence
  of two of them. A stream that is read is the list of the characters still to come; \<open>fgetc\<close>
  returns \<open>None\<close> for \<open>EOF\<close>.
\<close>

unbundle bit_operations_syntax

type_synonym u64 = "64 word"
type_synonym u32 = "32 word"
type_synonym u8 = "8 word"

named_theorems word_nat "operations on machine words, read as natural numbers"

named_theorems c_string "reading C strings"

section \<open>Machine words as natural numbers\<close>

declare of_nat_unat [simp del]

lemma unat_drop_bit_div [word_nat]: "unat (drop_bit n (w :: 'a::len word)) = unat w div 2 ^ n"
  by (metis drop_bit_eq_div unat_drop_bit_eq)

lemma unat_and_mask_mod: "unat ((w :: 'a::len word) AND mask n) = unat w mod 2 ^ n"
  by (metis take_bit_eq_mask take_bit_eq_mod unsigned_take_bit_eq)

lemma unat_push_bit_mod:
  "unat (push_bit n (w :: 'a::len word)) = (unat w * 2 ^ n) mod 2 ^ LENGTH('a)"
  by (metis push_bit_eq_mult take_bit_eq_mod unsigned_push_bit_eq)

lemma unat_push_bit_less:
  "unat (w :: 'a::len word) * 2 ^ n < 2 ^ LENGTH('a) \<Longrightarrow> unat (push_bit n w) = unat w * 2 ^ n"
  by (simp add: unat_push_bit_mod)

lemma unat_add_less:
  "unat a + unat b < 2 ^ LENGTH('a) \<Longrightarrow> unat ((a :: 'a::len word) + b) = unat a + unat b"
  by (simp add: unat_word_ariths)

lemma unat_mult_less:
  "unat a * unat b < 2 ^ LENGTH('a) \<Longrightarrow> unat ((a :: 'a::len word) * b) = unat a * unat b"
  by (simp add: unat_word_ariths)

lemma unat_sub_le: "b \<le> a \<Longrightarrow> unat ((a :: 'a::len word) - b) = unat a - unat b"
  by (simp add: unat_sub)

lemma unat_lt_2p: "unat (w :: 'a::len word) < 2 ^ LENGTH('a)"
  by (rule unsigned_less)

lemma unat_of_nat_small: "x < 2 ^ LENGTH('a) \<Longrightarrow> unat (of_nat x :: 'a::len word) = x"
  by (simp add: unsigned_of_nat take_bit_nat_eq_self)

lemma u64_bound: "unat (w :: u64) < 2 ^ 64"
  using unat_lt_2p [of w] by simp

lemma u32_bound: "unat (w :: u32) < 2 ^ 32"
  using unat_lt_2p [of w] by simp

lemma and_1_mod: "unat ((w :: 'a::len word) AND 1) = unat w mod 2"
  using unat_and_mask_mod [of w 1] by simp

lemma and_1_eq_0_iff: "((w :: 'a::len word) AND 1 = 0) \<longleftrightarrow> even (unat w)"
  using and_1_mod [of w] by (metis even_iff_mod_2_eq_zero unat_eq_0)

lemma and_1_neq_0_iff: "((w :: 'a::len word) AND 1 \<noteq> 0) \<longleftrightarrow> odd (unat w)"
  by (simp add: and_1_eq_0_iff)

lemma and_7_mod: "unat ((w :: u64) AND 7) = unat w mod 8"
proof -
  have "(7 :: u64) = mask 3" by (simp add: mask_eq_exp_minus_1)
  then show ?thesis using unat_and_mask_mod [of w 3] by simp
qed

lemmas and_word_mod [word_nat] = and_1_mod and_7_mod

lemma and_disjoint_nat:
  assumes "2 ^ n dvd q" and "m < 2 ^ n"
  shows "q AND m = (0::nat)"
proof -
  obtain k where "q = push_bit n k"
    using assms(1) by (auto simp: push_bit_eq_mult mult.commute elim: dvdE)
  moreover have "m = take_bit n m"
    using assms(2) by (simp add: take_bit_nat_eq_self)
  ultimately show ?thesis
    by (metis bit_and_iff bit_eqI bit_push_bit_iff bit_take_bit_iff bit_0_eq bot_apply
          linorder_not_le bot_bool_def)
qed

lemma unat_or_disjoint:
  assumes "2 ^ n dvd unat a" and "unat b < 2 ^ n"
  shows "unat ((a :: 'a::len word) OR b) = unat a + unat b"
  using and_disjoint_nat [OF assms] disjunctive_add_eq_or [of "unat a" "unat b"]
  by (simp add: unsigned_or_eq)

text \<open>The sign bit of a 32-bit integer.\<close>

lemma bit_31_iff: "bit (x :: u32) 31 \<longleftrightarrow> 2 ^ 31 \<le> unat x"
proof -
  have "unat x div 2 ^ 31 < 2" using u32_bound [of x] by (simp add: less_mult_imp_div_less)
  moreover have "bit x 31 \<longleftrightarrow> odd (unat x div 2 ^ 31)"
    by (simp only: bit_iff_odd [symmetric]) (simp add: bit_unsigned_iff)
  ultimately show ?thesis by (auto dest: less_2_cases simp: div_eq_0_iff)
qed

lemma and_sign_32: "(x :: u32) AND 0x80000000 \<noteq> 0 \<longleftrightarrow> 2 ^ 31 \<le> unat x" "0x80000000 AND x \<noteq> 0 \<longleftrightarrow> 2 ^ 31 \<le> unat x"
proof -
  have "(0x80000000 :: u32) = 2 ^ 31" by simp
  then show "x AND 0x80000000 \<noteq> 0 \<longleftrightarrow> 2 ^ 31 \<le> unat x"
    by (simp only: and_exp_eq_0_iff_not_bit bit_31_iff not_not)
  then show "0x80000000 AND x \<noteq> 0 \<longleftrightarrow> 2 ^ 31 \<le> unat x" by (simp only: and.commute)
qed

lemma unat_neg_32: "x \<noteq> 0 \<Longrightarrow> unat (- x :: u32) = 2 ^ 32 - unat x"
proof -
  assume "x \<noteq> 0"
  then have pos: "0 < unat x" by (simp add: unat_gt_0)
  have "unat (x + - x) = (unat x + unat (- x)) mod 2 ^ 32" by (simp only: unat_word_ariths) simp
  then have "(unat x + unat (- x)) mod 2 ^ 32 = 0" by simp
  then obtain k where "unat x + unat (- x) = 2 ^ 32 * k" by (auto elim: dvdE)
  moreover have "unat x + unat (- x) < 2 ^ 32 * 2" using u32_bound [of x] u32_bound [of "- x"] by simp
  ultimately have "k < 2" "k \<noteq> 0" using pos by auto
  then have "k = 1" by simp
  with \<open>unat x + unat (- x) = 2 ^ 32 * k\<close> show ?thesis by simp
qed

section \<open>Errors as values\<close>

fun bindE :: "'e + 'a \<Rightarrow> ('a \<Rightarrow> 'e + 'b) \<Rightarrow> 'e + 'b" where
  "bindE (Inl e) f = Inl e"
| "bindE (Inr x) f = f x"

lemma bindE_cong [fundef_cong]:
  "m = m' \<Longrightarrow> (\<And>x. m' = Inr x \<Longrightarrow> f x = g x) \<Longrightarrow> bindE m f = bindE m' g"
  by (cases m') auto

lemma bindE_Inr_iff [simp]: "bindE m f = Inr y \<longleftrightarrow> (\<exists>x. m = Inr x \<and> f x = Inr y)"
  by (cases m) auto

lemma bindE_Inl_iff: "bindE m f = Inl e \<longleftrightarrow> m = Inl e \<or> (\<exists>x. m = Inr x \<and> f x = Inl e)"
  by (cases m) auto

text \<open>\<open>require(b, message)\<close>: go on, or leave with the error.\<close>

definition requireE :: "bool \<Rightarrow> 'e \<Rightarrow> 'e + unit" where
  "requireE b e = (if b then Inr () else Inl e)"

lemma requireE_Inr_iff [simp]: "requireE b e = Inr u \<longleftrightarrow> b"
  by (simp add: requireE_def)

section \<open>Characters, strings and streams\<close>

abbreviation NUL :: char where "NUL \<equiv> CHR 0x00"
abbreviation TAB :: char where "TAB \<equiv> CHR 0x09"
abbreviation LF :: char where "LF \<equiv> CHR 0x0a"
abbreviation CR :: char where "CR \<equiv> CHR 0x0d"

definition chr_at :: "string \<Rightarrow> nat \<Rightarrow> char" where
  "chr_at s i = (if i < length s then s ! i else NUL)"

lemma chr_at_Nil [simp, c_string]: "chr_at [] i = NUL"
  by (simp add: chr_at_def)

lemma chr_at_Cons_0 [simp, c_string]: "chr_at (c # s) 0 = c"
  by (simp add: chr_at_def)

lemma chr_at_Cons_Suc [simp, c_string]: "chr_at (c # s) (Suc i) = chr_at s i"
  by (simp add: chr_at_def)

text \<open>A \<open>char\<close> promoted to \<open>int\<close>: signed, as on the machines the sources are built for.\<close>

definition c_char :: "char \<Rightarrow> u32" where
  "c_char c = signed_take_bit 7 (of_char c)"

fun fgetc :: "string \<Rightarrow> char option \<times> string" where
  "fgetc [] = (None, [])"
| "fgetc (c # s) = (Some c, s)"

fun in_set :: "char \<Rightarrow> string \<Rightarrow> bool" where
  "in_set c [] = False"
| "in_set c (x # s) = (if c = x then True else in_set c s)"

definition in_set_eof :: "char option \<Rightarrow> string \<Rightarrow> bool" where
  "in_set_eof c s = (case c of None \<Rightarrow> False | Some c \<Rightarrow> in_set c s)"

lemma in_set_iff: "in_set c s \<longleftrightarrow> c \<in> set s"
  by (induction s) auto

declare in_set.simps [simp del]

end
