(* ===== verification/Rounding.thy ===== *)
theory Rounding
  imports Prelude
begin

text \<open>
  The abstract specification of IEEE 754 rounding, to nearest with ties to even, that the
  integer routines of the runtime are held against.

  A binary format with \<open>p\<close> fraction bits stores a non-negative number as a natural number
  \<open>k\<close>: the exponent field above the fraction field. \<open>mag p k\<close> is the number it stands for, in
  units of the smallest subnormal; patterns and magnitudes have the same order. The pattern
  \<open>w * 2 ^ p\<close> (exponent field \<open>w\<close>, all ones) is infinity; read as a number it is the first
  power of two that is too large, which is the threshold IEEE 754 gives for overflow.

  \<open>rne p w x k\<close> says that \<open>k\<close> is the pattern nearest to the exact number \<open>x\<close>, and the even one
  of two nearest. It names no algorithm; \<open>rne_unique\<close> shows that it leaves one answer.
\<close>

section \<open>Patterns and magnitudes\<close>

definition mag :: "nat \<Rightarrow> nat \<Rightarrow> nat" where
  "mag p k = (if k div 2 ^ p = 0 then k mod 2 ^ p
              else (2 ^ p + k mod 2 ^ p) * 2 ^ (k div 2 ^ p - 1))"

definition rne :: "nat \<Rightarrow> nat \<Rightarrow> real \<Rightarrow> nat \<Rightarrow> bool" where
  "rne p w x k \<longleftrightarrow> k \<le> w * 2 ^ p \<and>
     (\<forall>j \<le> w * 2 ^ p. \<bar>x - mag p k\<bar> \<le> \<bar>x - mag p j\<bar> \<and>
        (j \<noteq> k \<and> \<bar>x - mag p k\<bar> = \<bar>x - mag p j\<bar> \<longrightarrow> even k))"

lemma mag_enc:
  assumes "low \<le> 2 ^ (p + 1)" and "n = 0 \<or> 2 ^ p \<le> low"
  shows "mag p (n * 2 ^ p + low) = low * 2 ^ n"
proof -
  consider (sub) "low < 2 ^ p" | (norm) "2 ^ p \<le> low" "low < 2 ^ (p + 1)" | (carry) "low = 2 ^ (p + 1)"
    using assms(1) by linarith
  then show ?thesis
  proof cases
    case sub
    then have "n = 0" using assms(2) by auto
    with sub show ?thesis by (simp add: mag_def)
  next
    case norm
    define f where "f = low - 2 ^ p"
    have f: "low = 2 ^ p + f" "f < 2 ^ p" using norm by (auto simp: f_def)
    have "n * 2 ^ p + low = (n + 1) * 2 ^ p + f" using f by (simp add: algebra_simps)
    moreover have "((n + 1) * 2 ^ p + f) div 2 ^ p = n + 1"
      using f(2) by (simp add: div_add1_eq)
    moreover have "((n + 1) * 2 ^ p + f) mod 2 ^ p = f" using f(2) by (simp only: mod_mult_self3 mod_less)
    ultimately show ?thesis using f by (simp add: mag_def)
  next
    case carry
    then have "n * 2 ^ p + low = (n + 2) * 2 ^ p" by (simp add: algebra_simps)
    moreover have "((n + 2) * 2 ^ p) div 2 ^ p = n + 2" by (rule nonzero_mult_div_cancel_right) simp
    moreover have "((n + 2) * 2 ^ p) mod 2 ^ p = (0::nat)" by (rule mod_mult_self2_is_0)
    ultimately show ?thesis using carry by (simp add: mag_def)
  qed
qed

lemma pattern_split:
  fixes k p :: nat
  obtains n low where "k = n * 2 ^ p + low" and "low < 2 ^ (p + 1)" and "n = 0 \<or> 2 ^ p \<le> low"
proof (cases "k div 2 ^ p")
  case 0
  then have "k < 2 ^ p" by (simp add: div_eq_0_iff)
  then show ?thesis by (intro that [of 0 k]) auto
next
  case (Suc n)
  have "k = Suc n * 2 ^ p + k mod 2 ^ p" using Suc div_mult_mod_eq [of k "2 ^ p"] by simp
  then have "k = n * 2 ^ p + (2 ^ p + k mod 2 ^ p)" by (simp add: algebra_simps)
  moreover have "2 ^ p + k mod 2 ^ p < 2 ^ (p + 1)" by simp
  ultimately show ?thesis by (intro that [of n "2 ^ p + k mod 2 ^ p"]) auto
qed

lemma mag_less_Suc: "mag p k < mag p (Suc k)"
proof -
  obtain n low where k: "k = n * 2 ^ p + low" and l: "low < 2 ^ (p + 1)" and c: "n = 0 \<or> 2 ^ p \<le> low"
    by (rule pattern_split)
  have "mag p k = low * 2 ^ n" unfolding k using l c by (intro mag_enc) auto
  moreover have "mag p (n * 2 ^ p + Suc low) = Suc low * 2 ^ n" using l c by (intro mag_enc) auto
  ultimately show ?thesis by (simp add: k)
qed

lemma mag_strict_mono: "strict_mono (mag p)"
  by (simp add: strict_mono_Suc_iff mag_less_Suc)

lemma mag_mono: "j \<le> k \<Longrightarrow> mag p j \<le> mag p k"
  using mag_strict_mono by (meson strict_mono_less_eq)

lemma mag_less_iff: "mag p j < mag p k \<longleftrightarrow> j < k"
  using mag_strict_mono by (rule strict_mono_less)

lemma mag_eq_iff: "mag p j = mag p k \<longleftrightarrow> j = k"
  using mag_strict_mono by (rule strict_mono_eq)

lemma mag_0 [simp]: "mag p 0 = 0"
  by (simp add: mag_def)

lemma mag_eq_0_iff: "mag p k = 0 \<longleftrightarrow> k = 0"
  using mag_eq_iff [of p k 0] by simp

section \<open>Rounding to the nearest pattern\<close>

lemma rne_between:
  fixes x :: real
  assumes lo: "mag p k \<le> x" and hi: "x \<le> mag p (Suc k)" and k: "Suc k \<le> w * 2 ^ p"
    and r: "r = (if x - mag p k < mag p (Suc k) - x \<or>
                    (x - mag p k = mag p (Suc k) - x \<and> even k) then k else Suc k)"
  shows "rne p w x r"
proof -
  have below: "\<bar>x - mag p j\<bar> > x - mag p k" if "j < k" for j
    using that lo mag_less_iff [of p j k] by auto
  have above: "\<bar>x - mag p j\<bar> > mag p (Suc k) - x" if "Suc k < j" for j
    using that hi mag_less_iff [of p "Suc k" j] by auto
  have "\<bar>x - mag p r\<bar> \<le> \<bar>x - mag p j\<bar> \<and>
        (j \<noteq> r \<and> \<bar>x - mag p r\<bar> = \<bar>x - mag p j\<bar> \<longrightarrow> even r)" for j
  proof -
    consider "j < k" | "j = k" | "j = Suc k" | "Suc k < j" by linarith
    then show ?thesis
    proof cases
      case 1
      with below [OF 1] lo hi show ?thesis unfolding r by auto
    next
      case 4
      with above [OF 4] lo hi show ?thesis unfolding r by auto
    qed (use lo hi in \<open>auto simp: r\<close>)
  qed
  then show ?thesis using k r by (auto simp: rne_def split: if_splits)
qed

lemma rne_top:
  fixes x :: real
  assumes "mag p (w * 2 ^ p) \<le> x"
  shows "rne p w x (w * 2 ^ p)"
  unfolding rne_def
proof (intro conjI allI impI)
  fix j assume j: "j \<le> w * 2 ^ p"
  then have m: "mag p j \<le> mag p (w * 2 ^ p)" by (rule mag_mono)
  then show "\<bar>x - mag p (w * 2 ^ p)\<bar> \<le> \<bar>x - mag p j\<bar>" using assms by linarith
  assume "j \<noteq> w * 2 ^ p \<and> \<bar>x - mag p (w * 2 ^ p)\<bar> = \<bar>x - mag p j\<bar>"
  moreover have "j < w * 2 ^ p \<Longrightarrow> mag p j < mag p (w * 2 ^ p)" by (simp add: mag_less_iff)
  ultimately show "even (w * 2 ^ p)" using j assms m by linarith
qed simp

lemma rne_exact: "k \<le> w * 2 ^ p \<Longrightarrow> rne p w (mag p k) k"
  using mag_eq_iff [of p k] by (auto simp: rne_def)

lemma rne_unique:
  assumes a: "rne p w x k" and b: "rne p w x k'"
  shows "k = k'"
proof (rule ccontr)
  assume "k \<noteq> k'"
  have ordered: False if "rne p w x k" "rne p w x k'" "k < k'" for k k'
  proof -
    have le: "k \<le> w * 2 ^ p" "k' \<le> w * 2 ^ p" using that by (auto simp: rne_def)
    have eq: "\<bar>x - mag p k\<bar> = \<bar>x - mag p k'\<bar>"
      using that(1,2) le unfolding rne_def by (blast intro: order_antisym)
    have ev: "even k" "even k'"
      using that le eq unfolding rne_def by (metis less_irrefl)+
    have "Suc k < k'" using ev that(3) by (metis Suc_lessI even_Suc)
    then have "mag p k < mag p (Suc k)" "mag p (Suc k) < mag p k'" by (auto simp: mag_less_iff)
    moreover have "\<bar>x - mag p k\<bar> \<le> \<bar>x - mag p (Suc k)\<bar>"
      using that(1) \<open>Suc k < k'\<close> le(2) unfolding rne_def
      by (meson less_le order.strict_trans2)
    ultimately show False using eq by linarith
  qed
  show False
  proof (cases "k < k'")
    case True
    show ?thesis by (rule ordered [OF a b True])
  next
    case False
    with \<open>k \<noteq> k'\<close> have "k' < k" by simp
    show ?thesis by (rule ordered [OF b a \<open>k' < k\<close>])
  qed
qed

text \<open>
  The form in which the routines meet the specification: they hold the number as a
  significand \<open>y\<close> in units of \<open>2 ^ n\<close>, cut to the integer \<open>low\<close> below it, and add one or not.
\<close>

lemma rne_round:
  assumes p: "0 < p" and n: "n = 0 \<or> 2 ^ p \<le> low" and low: "low < 2 ^ (p + 1)"
    and y: "real low \<le> y" "y < real low + 1" and k: "Suc (n * 2 ^ p + low) \<le> w * 2 ^ p"
    and up: "up \<longleftrightarrow> y - low > 1 / 2 \<or> (y - low = 1 / 2 \<and> odd low)"
  shows "rne p w (y * 2 ^ n) (n * 2 ^ p + (if up then Suc low else low))"
proof -
  let ?k = "n * 2 ^ p + low"
  have m0: "real (mag p ?k) = real low * 2 ^ n" using mag_enc [of low p n] n low by simp
  have "mag p (n * 2 ^ p + Suc low) = Suc low * 2 ^ n" using n low by (intro mag_enc) auto
  then have m1: "real (mag p (Suc ?k)) = (real low + 1) * 2 ^ n" by (simp add: algebra_simps)
  have ev: "even ?k \<longleftrightarrow> even low" using p by simp
  have u: "(0::real) < 2 ^ n" by simp
  have l: "real low * 2 ^ n \<le> y * 2 ^ n" "y * 2 ^ n \<le> (real low + 1) * 2 ^ n"
    using y by auto
  have d: "y * 2 ^ n - real low * 2 ^ n = (y - low) * 2 ^ n"
    "(real low + 1) * 2 ^ n - y * 2 ^ n = (1 - (y - low)) * 2 ^ n"
    by (auto simp: algebra_simps)
  have c: "(y * 2 ^ n - real low * 2 ^ n < (real low + 1) * 2 ^ n - y * 2 ^ n) \<longleftrightarrow> y - low < 1 / 2"
    "(y * 2 ^ n - real low * 2 ^ n = (real low + 1) * 2 ^ n - y * 2 ^ n) \<longleftrightarrow> y - low = 1 / 2"
    unfolding d using u by auto
  show ?thesis
    by (rule rne_between [where k = ?k]) (use l c m0 m1 ev k up in \<open>auto\<close>)
qed

lemma rne_overflow:
  assumes "1 \<le> w" and "w - 1 \<le> n" and "2 ^ p \<le> y"
  shows "rne p w (y * 2 ^ n) (w * 2 ^ p)"
proof (rule rne_top)
  have "mag p ((w - 1) * 2 ^ p + 2 ^ p) = 2 ^ p * 2 ^ (w - 1)" by (rule mag_enc) auto
  moreover have "(w - 1) * 2 ^ p + 2 ^ p = w * 2 ^ p" using assms(1) by (cases w) auto
  ultimately have "real (mag p (w * 2 ^ p)) = 2 ^ p * 2 ^ (w - 1)" by simp
  also have "\<dots> \<le> y * 2 ^ n" using assms by (intro mult_mono power_increasing order_trans [OF _ assms(3)]) auto
  finally show "real (mag p (w * 2 ^ p)) \<le> y * 2 ^ n" .
qed

section \<open>Sticky bits\<close>

text \<open>
  The routines do not hold the exact number \<open>y\<close> but an integer \<open>s\<close> whose last bit is set when
  anything was shifted out. What survives is the comparison with the multiples of a small
  power of two: \<open>sided j y s\<close> says that \<open>y\<close> and \<open>s\<close> lie on the same side of every multiple of
  \<open>2 ^ j\<close>. Level 0 is equality; a sticky bit gives level 1; doubling costs one level and a
  shift to the right that keeps the sticky bit costs none. Rounding off three guard bits
  needs level 2 (\<open>sided_round\<close>).
\<close>

definition sided :: "nat \<Rightarrow> real \<Rightarrow> nat \<Rightarrow> bool" where
  "sided j y s \<longleftrightarrow> (\<forall>q::nat. (y < 2 ^ j * real q \<longleftrightarrow> s < 2 ^ j * q) \<and> (y = 2 ^ j * real q \<longleftrightarrow> s = 2 ^ j * q))"

lemma sidedD:
  assumes "sided j y s"
  shows "y < 2 ^ j * real q \<longleftrightarrow> s < 2 ^ j * q" "y = 2 ^ j * real q \<longleftrightarrow> s = 2 ^ j * q"
    "2 ^ j * real q \<le> y \<longleftrightarrow> 2 ^ j * q \<le> s" "2 ^ j * real q < y \<longleftrightarrow> 2 ^ j * q < s"
proof -
  have *: "y < 2 ^ j * real q \<longleftrightarrow> s < 2 ^ j * q" "y = 2 ^ j * real q \<longleftrightarrow> s = 2 ^ j * q"
    using assms unfolding sided_def by blast+
  show "y < 2 ^ j * real q \<longleftrightarrow> s < 2 ^ j * q" "y = 2 ^ j * real q \<longleftrightarrow> s = 2 ^ j * q" by (fact *)+
  show "2 ^ j * real q \<le> y \<longleftrightarrow> 2 ^ j * q \<le> s" "2 ^ j * real q < y \<longleftrightarrow> 2 ^ j * q < s"
    using * by (auto simp: not_less [symmetric] order_le_less)
qed

lemma sidedI:
  assumes "\<And>q. y < 2 ^ j * real q \<longleftrightarrow> s < 2 ^ j * q" "\<And>q. y = 2 ^ j * real q \<longleftrightarrow> s = 2 ^ j * q"
  shows "sided j y s"
  using assms unfolding sided_def by blast

lemma sided_exact: "sided j (real s) s"
proof -
  have "2 ^ j * real q = real (2 ^ j * q)" for q by simp
  then show ?thesis by (intro sidedI) (simp_all only: of_nat_less_iff of_nat_eq_iff)
qed

lemma sided_0_iff: "sided 0 y s \<longleftrightarrow> y = s"
  using sidedD(2) [of 0 y s s] sided_exact [of 0 s] by auto

lemma sided_Suc:
  assumes "sided j y s" shows "sided (Suc j) y s"
proof (rule sidedI)
  fix q
  show "y < 2 ^ Suc j * real q \<longleftrightarrow> s < 2 ^ Suc j * q" "y = 2 ^ Suc j * real q \<longleftrightarrow> s = 2 ^ Suc j * q"
    using sidedD(1,2) [OF assms, of "2 * q"] by (simp_all add: mult.assoc mult.left_commute)
qed

lemma sided_mono: "sided i y s \<Longrightarrow> i \<le> j \<Longrightarrow> sided j y s"
  by (induction j) (auto simp: le_Suc_eq intro: sided_Suc)

lemma sided_double:
  assumes "sided j y s" shows "sided (Suc j) (2 * y) (2 * s)"
  by (rule sidedI) (use sidedD(1,2) [OF assms] in \<open>simp_all add: mult.assoc\<close>)

lemma sided_0_scale: "sided 0 y s \<Longrightarrow> sided 0 (y * 2 ^ l) (s * 2 ^ l)"
  by (simp add: sided_0_iff)

definition jam :: "nat \<Rightarrow> nat" where
  "jam s = s div 2 + of_bool (odd s \<and> even (s div 2))"

lemma jam_less_iff: "even m \<Longrightarrow> jam s < m \<longleftrightarrow> s < 2 * m"
  unfolding jam_def of_bool_def by presburger

lemma jam_eq_iff: "even m \<Longrightarrow> jam s = m \<longleftrightarrow> s = 2 * m"
  unfolding jam_def of_bool_def by presburger

lemma jam_less: "1 < s \<Longrightarrow> jam s < s"
  unfolding jam_def of_bool_def by presburger

lemma sided_jam:
  assumes "sided (Suc j) y s" shows "sided (Suc j) (y / 2) (jam s)"
proof (rule sidedI)
  fix q :: nat
  have "even (2 ^ Suc j * q)" by simp
  note j = jam_less_iff [OF this, of s] jam_eq_iff [OF this, of s]
  show "y / 2 < 2 ^ Suc j * real q \<longleftrightarrow> jam s < 2 ^ Suc j * q"
    "y / 2 = 2 ^ Suc j * real q \<longleftrightarrow> jam s = 2 ^ Suc j * q"
    using j sidedD(1,2) [OF assms, of "2 * q"] by (simp_all add: field_simps)
qed

lemma sided_sticky:
  assumes "real t \<le> y" "y < real t + 1" and s: "s = t + of_bool (y \<noteq> real t \<and> even t)"
  shows "sided (Suc 0) y s"
proof (rule sidedI)
  fix q :: nat
  have lt: "y < 2 * real q \<longleftrightarrow> t < 2 * q"
  proof
    assume "y < 2 * real q"
    with assms(1) have "real t < real (2 * q)" by simp
    then show "t < 2 * q" by linarith
  next
    assume "t < 2 * q"
    then have "real t + 1 \<le> real (2 * q)" by linarith
    with assms(2) show "y < 2 * real q" by simp
  qed
  have eq: "y = 2 * real q \<longleftrightarrow> y = real t \<and> t = 2 * q"
  proof
    assume y: "y = 2 * real q"
    with assms(1,2) have "t \<le> 2 * q" "2 * q < t + 1" by linarith+
    with y show "y = real t \<and> t = 2 * q" by simp
  qed simp
  show "y < 2 ^ Suc 0 * real q \<longleftrightarrow> s < 2 ^ Suc 0 * q" using lt s by (auto elim!: evenE)
  show "y = 2 ^ Suc 0 * real q \<longleftrightarrow> s = 2 ^ Suc 0 * q" using eq s by (auto; presburger)
qed

lemma sided_nonneg: "sided j y s \<Longrightarrow> 0 \<le> y"
  using sidedD(3) [of j y s 0] by simp

lemma sided_add:
  assumes s: "sided j y s" and m: "2 ^ j dvd m"
  shows "sided j (real m + y) (m + s)"
proof (rule sidedI)
  fix q :: nat
  obtain k where k: "m = 2 ^ j * k" using m by (rule dvdE)
  have y: "0 \<le> y" using s by (rule sided_nonneg)
  have "(real m + y < 2 ^ j * real q \<longleftrightarrow> m + s < 2 ^ j * q) \<and>
      (real m + y = 2 ^ j * real q \<longleftrightarrow> m + s = 2 ^ j * q)"
  proof (cases "k \<le> q")
    case True
    then obtain d where "q = k + d" by (auto simp: le_iff_add)
    then show ?thesis using sidedD(1,2) [OF s, of d] by (simp add: k algebra_simps)
  next
    case False
    then have lt: "2 ^ j * q < m" by (simp add: k)
    then have "2 ^ j * real q < real m"
      by (metis of_nat_less_iff of_nat_mult of_nat_numeral of_nat_power)
    with lt y show ?thesis by auto
  qed
  then show "real m + y < 2 ^ j * real q \<longleftrightarrow> m + s < 2 ^ j * q"
    "real m + y = 2 ^ j * real q \<longleftrightarrow> m + s = 2 ^ j * q" by auto
qed

lemma sided_diff:
  assumes s: "sided j y s" and m: "2 ^ j dvd m" and le: "s \<le> m"
  shows "sided j (real m - y) (m - s)"
proof (rule sidedI)
  fix q :: nat
  obtain k where k: "m = 2 ^ j * k" using m by (rule dvdE)
  have y: "0 \<le> y" using s by (rule sided_nonneg)
  have "(real m - y < 2 ^ j * real q \<longleftrightarrow> m - s < 2 ^ j * q) \<and>
      (real m - y = 2 ^ j * real q \<longleftrightarrow> m - s = 2 ^ j * q)"
  proof (cases "q \<le> k")
    case True
    then obtain d where d: "k = q + d" by (auto simp: le_iff_add)
    have "m - s < 2 ^ j * q \<longleftrightarrow> 2 ^ j * d < s" "m - s = 2 ^ j * q \<longleftrightarrow> s = 2 ^ j * d"
      using le by (auto simp: k d algebra_simps)
    then show ?thesis using sidedD(2,4) [OF s, of d] by (auto simp: k d algebra_simps)
  next
    case False
    then have lt: "m < 2 ^ j * q" by (simp add: k)
    then have "real m < 2 ^ j * real q"
      by (metis of_nat_less_iff of_nat_mult of_nat_numeral of_nat_power)
    with lt y show ?thesis by auto
  qed
  then show "real m - y < 2 ^ j * real q \<longleftrightarrow> m - s < 2 ^ j * q"
    "real m - y = 2 ^ j * real q \<longleftrightarrow> m - s = 2 ^ j * q" by auto
qed

lemma sided_round:
  assumes "sided 2 y s"
  shows "real (s div 8) \<le> y / 8" and "y / 8 < real (s div 8) + 1"
    and "(4 < s mod 8 \<or> (s mod 8 = 4 \<and> odd (s div 8))) \<longleftrightarrow>
         (y / 8 - real (s div 8) > 1 / 2 \<or> (y / 8 - real (s div 8) = 1 / 2 \<and> odd (s div 8)))"
proof -
  let ?l = "s div 8"
  have s: "s = 8 * ?l + s mod 8" "s mod 8 < 8" by auto
  have a: "8 * real ?l \<le> y" using sidedD(3) [OF assms, of "2 * ?l"] s by simp
  have b: "y < 8 * real ?l + 8" using sidedD(1) [OF assms, of "2 * ?l + 2"] s by (simp add: algebra_simps)
  have c: "8 * real ?l + 4 < y \<longleftrightarrow> 4 < s mod 8" "y = 8 * real ?l + 4 \<longleftrightarrow> s mod 8 = 4"
    using sidedD(2,4) [OF assms, of "2 * ?l + 1"] 
    by (simp_all add: algebra_simps) presburger+
  show "real ?l \<le> y / 8" "y / 8 < real ?l + 1" using a b by auto
  show "(4 < s mod 8 \<or> (s mod 8 = 4 \<and> odd ?l)) \<longleftrightarrow>
         (y / 8 - real ?l > 1 / 2 \<or> (y / 8 - real ?l = 1 / 2 \<and> odd ?l))"
    using c by (auto simp: field_simps)
qed

end
