(* ===== verification/SoftFloat.thy ===== *)
theory SoftFloat
  imports Rounding
begin

text \<open>
  IEEE 754 binary64 arithmetic in integer arithmetic
  (\<^verbatim>\<open>stages/3-micro-c/micro-c-libc/impl/libtcc1-softfloat.c\<close>; the same functions stand in
  \<^verbatim>\<open>runtime.c\<close>). A double is its bit pattern, a \<open>u64\<close>. C flags that are only 0 or 1 are
  \<open>bool\<close>, the exponents, which stay within a few thousand, are \<open>int\<close>, the significands keep
  their 64 bits.
\<close>

section \<open>The fields of a double\<close>

definition EXPMASK :: u64 where [simp]: "EXPMASK = 0x7ff"
definition MANTBITS :: nat where [simp]: "MANTBITS = 52"
definition HIDDEN :: u64 where [simp]: "HIDDEN = 0x0010000000000000"
definition MANTMASK :: u64 where [simp]: "MANTMASK = 0x000fffffffffffff"
definition SIGNBIT :: u64 where [simp]: "SIGNBIT = 0x8000000000000000"

definition sf_sign :: "u64 \<Rightarrow> bool" where
  "sf_sign a \<longleftrightarrow> drop_bit 63 a \<noteq> 0"

definition sf_exp :: "u64 \<Rightarrow> int" where
  "sf_exp a = uint (drop_bit MANTBITS a AND EXPMASK)"

definition sf_mant :: "u64 \<Rightarrow> u64" where
  "sf_mant a = a AND MANTMASK"

definition sf_isnan :: "u64 \<Rightarrow> bool" where
  "sf_isnan a \<longleftrightarrow> sf_exp a = 2047 \<and> sf_mant a \<noteq> 0"

definition sf_isinf :: "u64 \<Rightarrow> bool" where
  "sf_isinf a \<longleftrightarrow> sf_exp a = 2047 \<and> sf_mant a = 0"

definition sf_iszero :: "u64 \<Rightarrow> bool" where
  "sf_iszero a \<longleftrightarrow> a AND 0x7fffffffffffffff = 0"

section \<open>Packing: normalise, round, assemble\<close>

text \<open>
  The loop that shifts the significand up until bit 55 is set. The sources enter it only with
  a significand that is not zero, so the first conjunct of the guard is always true there; it
  is what makes the function total.
\<close>

function sf_norm_up :: "int \<Rightarrow> u64 \<Rightarrow> int \<times> u64" where
  "sf_norm_up e sig =
     (if sig \<noteq> 0 \<and> sig < 2 ^ 55 then sf_norm_up (e - 1) (push_bit 1 sig) else (e, sig))"
  by pat_completeness auto
termination
proof (relation "measure (\<lambda>(e, sig). 2 ^ 55 - unat sig)")
  fix e :: int and sig :: u64
  assume "sig \<noteq> 0 \<and> sig < 2 ^ 55"
  then have "0 < unat sig" "unat sig < 2 ^ 55"
    by (auto simp: word_less_nat_alt unat_gt_0)
  moreover from this have "unat (push_bit 1 sig) = unat sig * 2"
    using unat_push_bit_less [of sig 1] by simp
  ultimately show "((e - 1, push_bit 1 sig), e, sig) \<in> measure (\<lambda>(e, sig). 2 ^ 55 - unat sig)"
    by simp
qed simp

text \<open>One shift to the right that keeps the sticky bit: \<open>s2 = sig & 1; sig = (sig >> 1) | s2\<close>.\<close>

definition sf_shift_sticky :: "u64 \<Rightarrow> u64" where
  "sf_shift_sticky sig = (let s2 = sig AND 1 in drop_bit 1 sig OR s2)"

lemma unat_shift_sticky [word_nat]: "unat (sf_shift_sticky sig) = jam (unat sig)"
proof -
  have or1: "n OR (m mod 2) = n + of_bool (odd m \<and> even n)" for n m :: nat
    by (cases "even m") (simp_all add: or_Suc_0_eq mod_2_eq_odd)
  have "unat (sf_shift_sticky sig) = (unat sig div 2) OR (unat sig mod 2)"
    by (simp add: sf_shift_sticky_def Let_def unsigned_or_eq unat_drop_bit_div and_1_mod)
  then show ?thesis by (simp add: or1 jam_def)
qed

function sf_norm_down :: "int \<Rightarrow> u64 \<Rightarrow> int \<times> u64" where
  "sf_norm_down e sig =
     (if 2 ^ 56 \<le> sig then sf_norm_down (e + 1) (sf_shift_sticky sig) else (e, sig))"
  by pat_completeness auto
termination
proof (relation "measure (\<lambda>(e, sig). unat sig)")
  fix e :: int and sig :: u64
  assume "2 ^ 56 \<le> sig"
  then have "2 ^ 56 \<le> unat sig" by (simp add: word_le_nat_alt)
  then have "jam (unat sig) < unat sig" by (intro jam_less) simp
  then show "((e + 1, sf_shift_sticky sig), e, sig) \<in> measure (\<lambda>(e, sig). unat sig)"
    by (simp add: unat_shift_sticky)
qed simp

text \<open>The loop \<open>while (shift > 0)\<close> that makes a subnormal.\<close>

fun sf_denorm :: "nat \<Rightarrow> int \<Rightarrow> u64 \<Rightarrow> int \<times> u64" where
  "sf_denorm 0 e sig = (e, sig)"
| "sf_denorm (Suc shift) e sig = sf_denorm shift (e + 1) (sf_shift_sticky sig)"

definition sf_round_up :: "u64 \<Rightarrow> u64 \<Rightarrow> bool" where
  "sf_round_up guard low \<longleftrightarrow> 4 < guard \<or> (guard = 4 \<and> low AND 1 \<noteq> 0)"

definition sf_emit_subnormal :: "bool \<Rightarrow> u64 \<Rightarrow> u64" where
  "sf_emit_subnormal sign sig =
    (let guard = sig AND 7;
         low = drop_bit 3 sig;
         low = (if sf_round_up guard low then low + 1 else low)
     in if HIDDEN \<le> low
        then (let r = push_bit MANTBITS 1 OR (low - HIDDEN) in if sign then SIGNBIT OR r else r)
        else if sign then SIGNBIT OR low
        else low)"

definition sf_emit_normal :: "bool \<Rightarrow> int \<Rightarrow> u64 \<Rightarrow> u64" where
  "sf_emit_normal sign e sig =
    (let guard = sig AND 7;
         low = drop_bit 3 sig;
         (low, e) =
           (if sf_round_up guard low
            then (let low = low + 1
                  in if push_bit 1 HIDDEN \<le> low then (drop_bit 1 low, e + 1) else (low, e))
            else (low, e))
     in if 1023 < e
        then (let r = push_bit MANTBITS 2047 in if sign then SIGNBIT OR r else r)
        else (let r = push_bit MANTBITS (word_of_int (e + 1023)) OR (low AND MANTMASK)
              in if sign then SIGNBIT OR r else r))"

definition sf_pack :: "bool \<Rightarrow> int \<Rightarrow> u64 \<Rightarrow> u64" where
  "sf_pack sign e sig =
    (if sig = 0 then (if sign then SIGNBIT else 0)
     else (let (e, sig) = sf_norm_up e sig; (e, sig) = sf_norm_down e sig
           in if e < -1022
              then (let shift = -1022 - e
                    in if 63 < shift then (if sign then SIGNBIT else 0)
                       else (let (e, sig) = sf_denorm (nat shift) e sig
                             in sf_emit_subnormal sign sig))
              else sf_emit_normal sign e sig))"

definition sf_unpack :: "u64 \<Rightarrow> int \<times> u64" where
  "sf_unpack a =
    (let ex = sf_exp a; m = sf_mant a
     in if ex = 0
        then (if m = 0 then (0, 0)
              else (let ex = -1022; m = push_bit 3 m in sf_norm_up ex m))
        else (ex - 1023, push_bit 3 (m OR HIDDEN)))"

declare sf_norm_up.simps [simp del] sf_norm_down.simps [simp del]

section \<open>The operations\<close>

definition sf_neg :: "u64 \<Rightarrow> u64" where
  "sf_neg a = a XOR SIGNBIT"

abbreviation sf_nan :: u64 where "sf_nan \<equiv> 0x7ff8000000000000"
abbreviation sf_inf :: u64 where "sf_inf \<equiv> 0x7ff0000000000000"

text \<open>The aligned addend: what \<open>sf_add\<close> makes of \<open>mb\<close> for a shift of \<open>ea - eb\<close>.\<close>

definition sf_align :: "int \<Rightarrow> u64 \<Rightarrow> u64" where
  "sf_align shift mb =
    (if 60 < shift then (if mb \<noteq> 0 then 1 else 0)
     else (let (lost, mb) =
             (if 0 < shift
              then (mb AND (push_bit (nat shift) 1 - 1), drop_bit (nat shift) mb)
              else (0, mb))
           in if lost \<noteq> 0 then mb OR 1 else mb))"

text \<open>\<open>sf_add\<close> from the alignment on: the operand with the larger exponent comes first.\<close>

definition sf_add_ordered :: "int \<Rightarrow> u64 \<Rightarrow> bool \<Rightarrow> int \<Rightarrow> u64 \<Rightarrow> bool \<Rightarrow> u64" where
  "sf_add_ordered ea ma sa eb mb sb =
    (let mb = sf_align (ea - eb) mb; e = ea
     in if sa = sb then sf_pack sa e (ma + mb)
        else if ma = mb then 0
        else if mb < ma then sf_pack sa e (ma - mb)
        else sf_pack sb e (mb - ma))"

text \<open>\<open>sf_add\<close> once the operands are known to be finite and not zero: unpack, swap, add.\<close>

definition sf_add_finite :: "u64 \<Rightarrow> u64 \<Rightarrow> u64" where
  "sf_add_finite a b =
    (let sa = sf_sign a; sb = sf_sign b;
         (ea, ma) = sf_unpack a; (eb, mb) = sf_unpack b
     in if ea < eb then sf_add_ordered eb mb sb ea ma sa
        else sf_add_ordered ea ma sa eb mb sb)"

definition sf_add :: "u64 \<Rightarrow> u64 \<Rightarrow> u64" where
  "sf_add a b =
    (if sf_isnan a \<or> sf_isnan b then sf_nan
     else if sf_isinf a then (if sf_isinf b \<and> sf_sign a \<noteq> sf_sign b then sf_nan else a)
     else if sf_isinf b then b
     else if sf_iszero a
          then (if sf_iszero b then (if sf_sign a \<and> sf_sign b then SIGNBIT else 0) else b)
     else if sf_iszero b then a
     else sf_add_finite a b)"

definition sf_sub :: "u64 \<Rightarrow> u64 \<Rightarrow> u64" where
  "sf_sub a b = sf_add a (sf_neg b)"

text \<open>The loop that counts bits: \<open>while (t != 0) { t = t >> 1; len = len + 1; }\<close>.\<close>

function sf_bitlen :: "int \<Rightarrow> u64 \<Rightarrow> int" where
  "sf_bitlen len t = (if t \<noteq> 0 then sf_bitlen (len + 1) (drop_bit 1 t) else len)"
  by pat_completeness auto
termination
  by (relation "measure (\<lambda>(len, t). unat t)") (auto simp: unat_drop_bit_div unat_gt_0)

declare sf_bitlen.simps [simp del]

text \<open>The 128-bit product of two 53-bit significands, as the pair \<open>hi:lo\<close>.\<close>

definition sf_mul128 :: "u64 \<Rightarrow> u64 \<Rightarrow> u64 \<times> u64" where
  "sf_mul128 ma mb =
    (let ah = drop_bit 32 ma; al = ma AND 0xffffffff;
         bh = drop_bit 32 mb; bl = mb AND 0xffffffff;
         lo = al * bl; mid1 = al * bh; mid2 = ah * bl; hi = ah * bh;
         carry = drop_bit 32 lo + (mid1 AND 0xffffffff) + (mid2 AND 0xffffffff);
         lo = (lo AND 0xffffffff) OR push_bit 32 carry;
         hi = hi + drop_bit 32 mid1 + drop_bit 32 mid2 + drop_bit 32 carry
     in (hi, lo))"

text \<open>Its 56 leading bits, the rest folded into a sticky bit, and the shift \<open>k\<close> that took them.\<close>

definition sf_mul_top :: "u64 \<Rightarrow> u64 \<Rightarrow> int \<times> u64" where
  "sf_mul_top hi lo =
    (let len = (if hi \<noteq> 0 then sf_bitlen 64 hi else sf_bitlen 0 lo);
         k = len - 56;
         (st, sig) =
           (if 0 < k
            then (lo AND (push_bit (nat k) 1 - 1) \<noteq> 0,
                  push_bit (nat (64 - k)) hi OR drop_bit (nat k) lo)
            else (False, lo))
     in (k, if st then sig OR 1 else sig))"

definition sf_mul_finite :: "u64 \<Rightarrow> u64 \<Rightarrow> u64" where
  "sf_mul_finite a b =
    (let s = (sf_sign a \<noteq> sf_sign b);
         (ea, ma) = sf_unpack a; (eb, mb) = sf_unpack b;
         ma = drop_bit 3 ma; mb = drop_bit 3 mb;
         (hi, lo) = sf_mul128 ma mb;
         (k, sig) = sf_mul_top hi lo
     in sf_pack s (ea + eb + k - 49) sig)"

definition sf_mul :: "u64 \<Rightarrow> u64 \<Rightarrow> u64" where
  "sf_mul a b =
    (let s = (sf_sign a \<noteq> sf_sign b)
     in if sf_isnan a \<or> sf_isnan b then sf_nan
        else if sf_isinf a
             then (if sf_iszero b then sf_nan else (if s then SIGNBIT else 0) OR sf_inf)
        else if sf_isinf b
             then (if sf_iszero a then sf_nan else (if s then SIGNBIT else 0) OR sf_inf)
        else if sf_iszero a \<or> sf_iszero b then (if s then SIGNBIT else 0)
        else sf_mul_finite a b)"

text \<open>The schoolbook division: \<open>i\<close> is the number of quotient bits still to come.\<close>

fun sf_div_loop :: "nat \<Rightarrow> u64 \<Rightarrow> u64 \<Rightarrow> u64 \<Rightarrow> u64 \<times> u64" where
  "sf_div_loop 0 mb q rem = (q, rem)"
| "sf_div_loop (Suc i) mb q rem =
    (let q = push_bit 1 q; rem = push_bit 1 rem
     in if mb \<le> rem then sf_div_loop i mb (q OR 1) (rem - mb) else sf_div_loop i mb q rem)"

definition sf_div_finite :: "u64 \<Rightarrow> u64 \<Rightarrow> u64" where
  "sf_div_finite a b =
    (let s = (sf_sign a \<noteq> sf_sign b);
         (ea, ma) = sf_unpack a; (eb, mb) = sf_unpack b;
         ma = drop_bit 3 ma; mb = drop_bit 3 mb;
         (ma, adj) = (if ma < mb then (push_bit 1 ma, -1) else (ma, 0));
         (q, rem) = sf_div_loop 55 mb 1 (ma - mb);
         q = (if rem \<noteq> 0 then q OR 1 else q)
     in sf_pack s (ea - eb + adj) q)"

definition sf_div :: "u64 \<Rightarrow> u64 \<Rightarrow> u64" where
  "sf_div a b =
    (let s = (sf_sign a \<noteq> sf_sign b)
     in if sf_isnan a \<or> sf_isnan b then sf_nan
        else if sf_isinf a
             then (if sf_isinf b then sf_nan else (if s then SIGNBIT else 0) OR sf_inf)
        else if sf_isinf b then (if s then SIGNBIT else 0)
        else if sf_iszero b
             then (if sf_iszero a then sf_nan else (if s then SIGNBIT else 0) OR sf_inf)
        else if sf_iszero a then (if s then SIGNBIT else 0)
        else sf_div_finite a b)"

section \<open>Conversions\<close>

text \<open>A C \<open>long\<close> is a \<open>u64\<close> read in two's complement (\<open>sint\<close>).\<close>

definition sf_to_int :: "u64 \<Rightarrow> bool \<Rightarrow> u64" where
  "sf_to_int a is_unsigned =
    (let sign = sf_sign a
     in if sf_isnan a then 0
        else (let e = sf_exp a; m = sf_mant a
              in if e = 0 then 0
                 else (let e = e - 1023
                       in if e < 0 then 0
                          else if 63 < e
                          then (if is_unsigned then 0xffffffffffffffff
                                else if sign then 0x8000000000000000
                                else 0x7fffffffffffffff)
                          else (let m = m OR HIDDEN;
                                    r = (if int MANTBITS \<le> e
                                         then push_bit (nat (e - int MANTBITS)) m
                                         else drop_bit (nat (int MANTBITS - e)) m)
                                in if sign then - r else r))))"

definition sf_from_int :: "u64 \<Rightarrow> bool \<Rightarrow> u64" where
  "sf_from_int v is_unsigned =
    (let (sign, u) =
       (if is_unsigned then (False, v)
        else if sint v < 0 then (True, - v)
        else (False, v))
     in if u = 0 then 0
        else (let len = sf_bitlen 0 u;
                  sig = (if 56 < len
                         then (let k = len - 56;
                                   st = (u AND (push_bit (nat k) 1 - 1) \<noteq> 0);
                                   sig = drop_bit (nat k) u
                               in if st then sig OR 1 else sig)
                         else push_bit (nat (56 - len)) u);
                  e = len - 1
              in sf_pack sign e sig))"

text \<open>The tail of \<open>strtod_to_f32\<close>: shift by \<open>d\<close>, round to nearest even, assemble.\<close>

definition f32_round :: "nat \<Rightarrow> int \<Rightarrow> u64 \<Rightarrow> u32 \<times> int" where
  "f32_round d ex mant =
    (let rbit = (drop_bit (d - 1) mant AND 1 \<noteq> 0);
         sticky = (mant AND (push_bit (d - 1) 1 - 1) \<noteq> 0);
         m24 = ucast (drop_bit d mant) :: u32
     in if rbit \<and> (sticky \<or> m24 AND 1 \<noteq> 0)
        then (let m24 = m24 + 1
              in if m24 = 0x1000000 then (drop_bit 1 m24, ex + 1) else (m24, ex))
        else (m24, ex))"

definition f32_emit :: "u32 \<Rightarrow> u32 \<times> int \<Rightarrow> u32" where
  "f32_emit sgn32 = (\<lambda>(m24, ex).
     if 255 \<le> ex then sgn32 OR 0x7f800000
     else if ex = 0 then sgn32 OR m24
     else sgn32 OR push_bit 23 (word_of_int ex) OR (m24 AND 0x7fffff))"

definition strtod_to_f32 :: "u64 \<Rightarrow> u32" where
  "strtod_to_f32 b =
    (let sign = drop_bit 63 b AND 1;
         ex = uint (drop_bit 52 b AND 0x7ff);
         mant = b AND 0xfffffffffffff;
         sgn32 = ucast (push_bit 31 sign) :: u32
     in if ex = 0x7ff
        then (let out = sgn32 OR 0x7f800000 in if mant \<noteq> 0 then out OR 0x400000 else out)
        else if ex = 0 \<and> mant = 0 then sgn32
        else
         (let (ex, mant) = (if ex = 0 then (-1022, mant)
                            else (ex - 1023, mant OR 0x10000000000000));
              ex = ex + 127
          in if 255 \<le> ex then sgn32 OR 0x7f800000
             else if ex \<le> 0
             then (let d = 29 + (1 - ex)
                   in if 54 \<le> d then sgn32 else f32_emit sgn32 (f32_round (nat d) 0 mant))
             else f32_emit sgn32 (f32_round 29 ex mant)))"

definition sf_to_f32 :: "u64 \<Rightarrow> u32" where
  "sf_to_f32 b = strtod_to_f32 b"

text \<open>
  The loop that normalises a subnormal float: the sources enter it with a fraction that is not
  zero and has no bit above bit 22, which is what the second conjunct says.
\<close>

function sf_f32_norm :: "int \<Rightarrow> u64 \<Rightarrow> int \<times> u64" where
  "sf_f32_norm e mant =
     (if mant AND 8388608 = 0 \<and> 0 < mant \<and> mant < 8388608
      then sf_f32_norm (e - 1) (push_bit 1 mant) else (e, mant))"
  by pat_completeness auto
termination
proof (relation "measure (\<lambda>(e, m). 8388608 - unat m)")
  fix e :: int and m :: u64
  assume "m AND 8388608 = 0 \<and> 0 < m \<and> m < 8388608"
  then have "0 < unat m" "unat m < 8388608"
    by (auto simp: word_less_nat_alt)
  moreover from this have "unat (push_bit 1 m) = unat m * 2"
    using unat_push_bit_less [of m 1] by simp
  ultimately show "((e - 1, push_bit 1 m), e, m) \<in> measure (\<lambda>(e, m). 8388608 - unat m)"
    by simp
qed simp

declare sf_f32_norm.simps [simp del]

definition sf_from_f32 :: "u32 \<Rightarrow> u64" where
  "sf_from_f32 f =
    (let sign = drop_bit 31 (ucast f) :: u64;
         ex = drop_bit 23 (ucast f) AND 255 :: u64;
         mant = ucast f AND 8388607 :: u64
     in if ex = 255
        then (if mant \<noteq> 0 then 0x7ff8000000000000
              else if sign \<noteq> 0 then 0xfff0000000000000
              else 0x7ff0000000000000)
        else if ex = 0
        then (if mant = 0 then (if sign \<noteq> 0 then 0x8000000000000000 else 0)
              else (let (e, mant) = sf_f32_norm (-126) mant;
                        mant = mant AND 8388607
                    in push_bit 63 sign OR push_bit 52 (word_of_int (e + 1023)) OR push_bit 29 mant))
        else push_bit 63 sign OR push_bit 52 (ex - 127 + 1023) OR push_bit 29 mant)"

end
