(* ===== verification/SoftFloatCorrect.thy ===== *)
theory SoftFloatCorrect
  imports SoftFloat
begin

text \<open>
  The functions of \<^theory_text>\<open>SoftFloat\<close> against the specification of \<^theory_text>\<open>Rounding\<close>: a finite double
  stands for the real number \<open>dval\<close> (in units of the smallest subnormal, \<open>2 powi -1074\<close>), and
  every operation returns the correctly rounded exact result.
\<close>

section \<open>What a double stands for\<close>

definition dmag :: "u64 \<Rightarrow> nat" where
  "dmag a = mag 52 (unat a mod 2 ^ 63)"

definition dval :: "u64 \<Rightarrow> real" where
  "dval a = (if sf_sign a then - real (dmag a) else real (dmag a))"

definition dfinite :: "u64 \<Rightarrow> bool" where
  "dfinite a \<longleftrightarrow> sf_exp a \<noteq> 2047"

text \<open>\<open>r\<close> is the double of sign \<open>s\<close> nearest to the magnitude \<open>x\<close>, ties to even.\<close>

definition rounds :: "bool \<Rightarrow> real \<Rightarrow> u64 \<Rightarrow> bool" where
  "rounds s x r \<longleftrightarrow> sf_sign r = s \<and> rne 52 2047 x (unat r mod 2 ^ 63)"

lemma rounds_unique: "rounds s x r \<Longrightarrow> rounds s x r' \<Longrightarrow> r = r'"
proof -
  assume a: "rounds s x r" "rounds s x r'"
  then have "unat r mod 2 ^ 63 = unat r' mod 2 ^ 63"
    unfolding rounds_def by (blast intro: rne_unique)
  moreover have "(unat r div 2 ^ 63 = 0) = (unat r' div 2 ^ 63 = 0)"
    using a by (auto simp: rounds_def sf_sign_def unat_eq_0 [symmetric] unat_drop_bit_div)
  moreover have "unat r div 2 ^ 63 < 2" "unat r' div 2 ^ 63 < 2"
    using u64_bound [of r] u64_bound [of r'] by (auto simp: less_mult_imp_div_less)
  ultimately have "unat r = unat r'"
    by (metis div_mult_mod_eq less_2_cases)
  then show "r = r'" by (simp add: word_unat_eq_iff)
qed

section \<open>Fields\<close>

lemma sf_sign_iff: "sf_sign a \<longleftrightarrow> 2 ^ 63 \<le> unat a"
proof -
  have "sf_sign a \<longleftrightarrow> unat a div 2 ^ 63 \<noteq> 0"
    by (simp add: sf_sign_def unat_eq_0 [symmetric] unat_drop_bit_div)
  then show ?thesis by (simp add: div_eq_0_iff not_less)
qed

lemma and_all_ones: "m = mask n \<Longrightarrow> unat ((w :: u64) AND m) = unat w mod 2 ^ n"
  by (simp add: unat_and_mask_mod)

lemma sf_exp_nat: "sf_exp a = int (unat a mod 2 ^ 63 div 2 ^ 52)"
proof -
  have m: "(0x7ff :: u64) = mask 11" by (simp add: mask_eq_exp_minus_1)
  have "unat (drop_bit 52 a AND 0x7ff) = unat a div 2 ^ 52 mod 2 ^ 11"
    by (simp only: and_all_ones [OF m] unat_drop_bit_div)
  also have "\<dots> = unat a mod 2 ^ 63 div 2 ^ 52"
    using mod_mult2_eq [of "unat a" "2 ^ 52" "2 ^ 11"] by simp
  finally have "unat (drop_bit MANTBITS a AND EXPMASK) = unat a mod 2 ^ 63 div 2 ^ 52" by simp
  then show ?thesis by (simp only: sf_exp_def uint_nat)
qed

lemma sf_mant_nat: "unat (sf_mant a) = unat a mod 2 ^ 63 mod 2 ^ 52"
proof -
  have m: "(0x000fffffffffffff :: u64) = mask 52" by (simp add: mask_eq_exp_minus_1)
  have "unat (sf_mant a) = unat a mod 2 ^ 52"
    by (simp only: sf_mant_def MANTMASK_def and_all_ones [OF m])
  then show ?thesis by (simp add: mod_mod_cancel)
qed

lemma sf_iszero_nat: "sf_iszero a \<longleftrightarrow> unat a mod 2 ^ 63 = 0"
proof -
  have m: "(0x7fffffffffffffff :: u64) = mask 63" by (simp add: mask_eq_exp_minus_1)
  show ?thesis by (simp only: sf_iszero_def unat_eq_0 [symmetric] and_all_ones [OF m])
qed

lemma sf_iszero_dmag: "sf_iszero a \<longleftrightarrow> dmag a = 0"
  by (simp add: sf_iszero_nat dmag_def mag_eq_0_iff)

lemma dfinite_iff: "dfinite a \<longleftrightarrow> \<not> sf_isnan a \<and> \<not> sf_isinf a"
  by (auto simp: dfinite_def sf_isnan_def sf_isinf_def)

lemma dmag_fields:
  "dmag a = (if sf_exp a = 0 then unat (sf_mant a)
             else (2 ^ 52 + unat (sf_mant a)) * 2 ^ nat (sf_exp a - 1))"
  by (simp add: dmag_def mag_def sf_exp_nat sf_mant_nat nat_diff_distrib')

lemma unat_signbit_or: "unat r < 2 ^ 63 \<Longrightarrow> unat (SIGNBIT OR r) = 2 ^ 63 + unat r"
  using unat_or_disjoint [of 63 SIGNBIT r] by simp

lemma rounds_signed:
  assumes "rne 52 2047 x (unat r)" and "unat r < 2 ^ 63"
  shows "rounds s x (if s then SIGNBIT OR r else r)"
proof -
  have "(2 ^ 63 + unat r) mod 2 ^ 63 = unat r" using assms(2) by (simp add: mod_less)
  then show ?thesis using assms
    by (auto simp: rounds_def sf_sign_iff unat_signbit_or simp del: SIGNBIT_def)
qed

lemma rne_pattern_bound: "rne 52 2047 x k \<Longrightarrow> k < 2 ^ 63"
  by (simp add: rne_def)

section \<open>The loops\<close>

lemma unat_double: "unat s < 2 ^ 63 \<Longrightarrow> unat (push_bit 1 (s :: u64)) = unat s * 2"
  "unat s < 2 ^ 63 \<Longrightarrow> unat (s * 2) = unat s * 2"
  using unat_push_bit_less [of s 1] by simp_all

lemma sf_norm_up_scale:
  "sf_norm_up e s = (e', s') \<Longrightarrow> 0 < unat s \<Longrightarrow>
   \<exists>l. unat s' = unat s * 2 ^ l \<and> e' = e - int l \<and> 2 ^ 55 \<le> unat s' \<and>
       (0 < l \<longrightarrow> unat s' < 2 ^ 56 \<and> unat s < 2 ^ 55) \<and> (2 ^ 54 \<le> unat s \<longrightarrow> l \<le> 1)"
proof (induction e s arbitrary: e' s' rule: sf_norm_up.induct)
  case (1 e s)
  show ?case
  proof (cases "s \<noteq> 0 \<and> s < 2 ^ 55")
    case True
    then have lt: "unat s < 2 ^ 55" by (simp add: word_less_nat_alt)
    then have d: "unat (push_bit 1 s) = unat s * 2" by (simp add: unat_double)
    from 1(2) True have "sf_norm_up (e - 1) (push_bit 1 s) = (e', s')"
      by (simp add: sf_norm_up.simps [of e s])
    from 1(1) [OF True this] 1(3) d obtain l where
      l: "unat s' = unat s * 2 * 2 ^ l" "e' = e - 1 - int l" "2 ^ 55 \<le> unat s'"
        "0 < l \<longrightarrow> unat s' < 2 ^ 56 \<and> unat s * 2 < 2 ^ 55" "2 ^ 54 \<le> unat s * 2 \<longrightarrow> l \<le> 1"
      by auto
    have "unat s' < 2 ^ 56" using l(1,4) lt by (cases l) auto
    moreover have "2 ^ 54 \<le> unat s \<longrightarrow> l = 0" using l(4) by auto
    ultimately show ?thesis using l lt
      by (intro exI [of _ "Suc l"]) auto
  next
    case False
    then have "2 ^ 55 \<le> unat s" using 1(3) by (auto simp: word_less_nat_alt not_less unat_gt_0)
    then show ?thesis using 1(2) False
      by (intro exI [of _ 0]) (auto simp: sf_norm_up.simps [of e s])
  qed
qed

lemma sf_norm_down_sided:
  "sf_norm_down e s = (e', s') \<Longrightarrow> sided 2 y (unat s) \<Longrightarrow> 2 ^ 55 \<le> unat s \<Longrightarrow>
   \<exists>l. sided 2 (y / 2 ^ l) (unat s') \<and> e' = e + int l \<and> 2 ^ 55 \<le> unat s' \<and> unat s' < 2 ^ 56"
proof (induction e s arbitrary: e' s' y rule: sf_norm_down.induct)
  case (1 e s)
  show ?case
  proof (cases "2 ^ 56 \<le> s")
    case True
    then have "2 ^ 56 \<le> unat s" by (simp add: word_le_nat_alt)
    then have "2 ^ 55 \<le> jam (unat s)"
      using jam_less_iff [of "2 ^ 55" "unat s"] by (simp add: not_less [symmetric])
    moreover have "sided 2 (y / 2) (jam (unat s))"
      using sided_jam [of 1 y "unat s"] 1(3) by (simp add: numeral_2_eq_2)
    moreover from 1(2) True have "sf_norm_down (e + 1) (sf_shift_sticky s) = (e', s')"
      by (simp add: sf_norm_down.simps [of e s])
    ultimately obtain l where "sided 2 (y / 2 / 2 ^ l) (unat s')" "e' = e + 1 + int l"
      "2 ^ 55 \<le> unat s'" "unat s' < 2 ^ 56"
      using 1(1) [OF True, of e' s' "y / 2"] by (auto simp: unat_shift_sticky)
    then show ?thesis by (intro exI [of _ "Suc l"]) (simp add: field_simps)
  next
    case False
    then have "unat s < 2 ^ 56" by (simp add: word_le_nat_alt)
    then show ?thesis using 1(2,3,4) False
      by (intro exI [of _ 0]) (auto simp: sf_norm_down.simps [of e s])
  qed
qed

lemma sf_denorm_sided:
  "sf_denorm n e s = (e', s') \<Longrightarrow> sided 2 y (unat s) \<Longrightarrow> unat s < 2 ^ 56 \<Longrightarrow>
   sided 2 (y / 2 ^ n) (unat s') \<and> e' = e + int n \<and> unat s' < 2 ^ 56 \<and> (0 < n \<longrightarrow> unat s' < 2 ^ 55)"
proof (induction n e s arbitrary: y rule: sf_denorm.induct)
  case (1 e s)
  then show ?case by auto
next
  case (2 n e s)
  have "sided 2 (y / 2) (jam (unat s))"
    using sided_jam [of 1 y "unat s"] 2(3) by (simp add: numeral_2_eq_2)
  moreover have j: "jam (unat s) < 2 ^ 55"
    using 2(4) by (subst jam_less_iff) auto
  ultimately have "sided 2 (y / 2 / 2 ^ n) (unat s') \<and> e' = e + 1 + int n \<and> unat s' < 2 ^ 56 \<and>
      (0 < n \<longrightarrow> unat s' < 2 ^ 55)"
    using 2(1) [of "y / 2"] 2(2) by (simp add: unat_shift_sticky)
  moreover have "n = 0 \<longrightarrow> unat s' < 2 ^ 55"
    using j 2(2) by (auto simp: unat_shift_sticky [symmetric])
  ultimately show ?case by (auto simp: field_simps)
qed

section \<open>Packing rounds correctly\<close>

lemma sf_round_up_nat:
  "sf_round_up (sig AND 7) (drop_bit 3 sig) \<longleftrightarrow>
     4 < unat sig mod 8 \<or> (unat sig mod 8 = 4 \<and> odd (unat sig div 8))"
proof -
  have "(sig AND 7 = 4) = (unat (sig AND 7) = unat (4::u64))" by (simp only: word_unat_eq_iff)
  moreover have "(4 < sig AND 7) = (unat (4::u64) < unat (sig AND 7))" by (simp only: word_less_nat_alt)
  ultimately show ?thesis
    by (simp add: sf_round_up_def and_1_neq_0_iff and_7_mod unat_drop_bit_div)
qed

text \<open>The significand after rounding: the eighth of \<open>sig\<close>, rounded.\<close>

lemma sf_low_nat:
  assumes "unat sig < 2 ^ 56"
  shows "unat (if sf_round_up (sig AND 7) (drop_bit 3 sig) then drop_bit 3 sig + 1 else drop_bit 3 sig) =
    (if 4 < unat sig mod 8 \<or> (unat sig mod 8 = 4 \<and> odd (unat sig div 8))
     then Suc (unat sig div 8) else unat sig div 8)"
proof -
  have "unat (drop_bit 3 sig) = unat sig div 8" by (simp add: unat_drop_bit_div)
  moreover have "unat (drop_bit 3 sig + 1) = unat sig div 8 + 1"
    using assms by (subst unat_add_less) (auto simp: unat_drop_bit_div)
  ultimately show ?thesis by (simp add: sf_round_up_nat)
qed

lemma sf_emit_subnormal_rounds:
  assumes s: "sided 2 y (unat sig)" and b: "unat sig < 2 ^ 55"
  shows "rounds sign (y / 8) (sf_emit_subnormal sign sig)"
proof -
  define up where "up \<longleftrightarrow> 4 < unat sig mod 8 \<or> (unat sig mod 8 = 4 \<and> odd (unat sig div 8))"
  define low where
    "low = (if sf_round_up (sig AND 7) (drop_bit 3 sig) then drop_bit 3 sig + 1 else drop_bit 3 sig)"
  let ?l = "if up then Suc (unat sig div 8) else unat sig div 8"
  have low: "unat low = ?l" using sf_low_nat [of sig] b by (simp add: low_def up_def)
  have "rne 52 2047 (y / 8 * 2 ^ 0) (0 * 2 ^ 52 + ?l)"
    using sided_round [OF s] b by (intro rne_round) (auto simp: up_def)
  then have r: "rne 52 2047 (y / 8) (unat low)" by (simp add: low)
  have le: "unat low \<le> 2 ^ 52" using b by (auto simp: low)
  show ?thesis
  proof (cases "HIDDEN \<le> low")
    case True
    then have "2 ^ 52 \<le> unat low" by (simp add: word_le_nat_alt)
    with le have "unat low = 2 ^ 52" by simp
    then have l: "low = HIDDEN" by (simp add: word_unat_eq_iff)
    have "sf_emit_subnormal sign sig = (if sign then SIGNBIT OR low else low)"
      unfolding sf_emit_subnormal_def Let_def low_def [symmetric] by (simp add: l)
    then show ?thesis using rounds_signed [OF r] le by simp
  next
    case False
    then have "sf_emit_subnormal sign sig = (if sign then SIGNBIT OR low else low)"
      unfolding sf_emit_subnormal_def Let_def low_def [symmetric] by simp
    then show ?thesis using rounds_signed [OF r] le by simp
  qed
qed

lemma unat_field_or:
  assumes "0 \<le> x" "x < 2 ^ 11" and "unat f < 2 ^ 52"
  shows "unat (push_bit MANTBITS (word_of_int x) OR f :: u64) = nat x * 2 ^ 52 + unat f"
proof -
  have "unat (word_of_int x :: u64) = nat x"
    using assms(1,2) by (simp add: unsigned_of_int take_bit_int_eq_self)
  then have "unat (push_bit 52 (word_of_int x :: u64)) = nat x * 2 ^ 52"
    using unat_push_bit_less [of "word_of_int x :: u64" 52] assms(1,2) by simp
  then show ?thesis using unat_or_disjoint [of 52 "push_bit 52 (word_of_int x)" f] assms(3) by simp
qed

lemma sf_emit_normal_rounds:
  assumes s: "sided 2 y (unat sig)" and b: "2 ^ 55 \<le> unat sig" "unat sig < 2 ^ 56" and e: "-1022 \<le> e"
  shows "rounds sign (y / 8 * 2 ^ nat (e + 1022)) (sf_emit_normal sign e sig)"
proof -
  define up where "up \<longleftrightarrow> 4 < unat sig mod 8 \<or> (unat sig mod 8 = 4 \<and> odd (unat sig div 8))"
  define low where
    "low = (if sf_round_up (sig AND 7) (drop_bit 3 sig) then drop_bit 3 sig + 1 else drop_bit 3 sig)"
  define n where "n = nat (e + 1022)"
  let ?l = "if up then Suc (unat sig div 8) else unat sig div 8"
  have low: "unat low = ?l" using sf_low_nat [of sig] b by (simp add: low_def up_def)
  have lb: "2 ^ 52 \<le> unat low" "unat low \<le> 2 ^ 53" using b by (auto simp: low)
  let ?c = "2 ^ 53 \<le> unat low"
  let ?e = "if ?c then e + 1 else e"
  let ?low = "if ?c then drop_bit 1 low else low"
  have cc: "push_bit 1 HIDDEN \<le> low \<longleftrightarrow> ?c" by (simp add: word_le_nat_alt)
  define r where "r = (if 1023 < ?e then push_bit MANTBITS 2047
      else push_bit MANTBITS (word_of_int (?e + 1023)) OR (?low AND MANTMASK))"
  have emit: "sf_emit_normal sign e sig = (if sign then SIGNBIT OR r else r)"
  proof (cases "sf_round_up (sig AND 7) (drop_bit 3 sig)")
    case True
    then have "low = drop_bit 3 sig + 1" by (simp add: low_def)
    with True show ?thesis
      unfolding sf_emit_normal_def Let_def r_def cc [symmetric] by simp
  next
    case False
    then have l: "low = drop_bit 3 sig" by (simp add: low_def)
    then have "\<not> ?c" using b by (simp add: unat_drop_bit_div)
    with False l show ?thesis
      unfolding sf_emit_normal_def Let_def r_def by simp
  qed
  have m: "MANTMASK = mask 52" by (simp add: mask_eq_exp_minus_1)
  have f: "unat (?low AND MANTMASK) = (if ?c then 0 else unat low - 2 ^ 52)"
  proof (cases ?c)
    case True
    with lb have "unat low = 2 ^ 53" by simp
    then show ?thesis by (simp only: and_all_ones [OF m] if_True True) (simp add: unat_drop_bit_div)
  next
    case False
    then have "unat low mod 2 ^ 52 = unat low - 2 ^ 52"
      using lb by (simp add: mod_if)
    then show ?thesis using False by (simp only: and_all_ones [OF m] if_False)
  qed
  have fin: "unat r = n * 2 ^ 52 + unat low" if "e \<le> 1023"
  proof (cases "1023 < ?e")
    case True
    with that have "e = 1023" ?c by (auto split: if_splits)
    with lb have "unat low = 2 ^ 53" "n = 2045" by (auto simp: n_def)
    with True show ?thesis by (simp add: r_def)
  next
    case False
    have u: "unat (?low AND MANTMASK) < 2 ^ 52" using f lb by auto
    have "unat r = nat (?e + 1023) * 2 ^ 52 + unat (?low AND MANTMASK)"
      unfolding r_def if_not_P [OF False] using e False by (intro unat_field_or u) auto
    moreover have "nat (?e + 1023) = n + (if ?c then 2 else 1)" using e by (auto simp: n_def)
    ultimately show ?thesis using f lb by auto
  qed
  have inf: "unat r = 2047 * 2 ^ 52" if "1023 < e" using that by (auto simp: r_def)
  have "rne 52 2047 (y / 8 * 2 ^ n) (unat r)"
  proof (cases "e \<le> 1023")
    case True
    have "rne 52 2047 (y / 8 * 2 ^ n) (n * 2 ^ 52 + ?l)"
      using sided_round [OF s] b True by (intro rne_round) (auto simp: up_def n_def)
    then show ?thesis by (simp add: fin [OF True] low)
  next
    case False
    then have "2046 \<le> n" by (simp add: n_def)
    moreover have "(2::real) ^ 52 \<le> y / 8" using sidedD(3) [OF s, of "2 ^ 53"] b by simp
    ultimately have "rne 52 2047 (y / 8 * 2 ^ n) (2047 * 2 ^ 52)"
      by (intro rne_overflow) auto
    then show ?thesis using inf False by simp
  qed
  moreover from this have "unat r < 2 ^ 63" by (rule rne_pattern_bound)
  ultimately show ?thesis unfolding emit n_def [symmetric] by (rule rounds_signed)
qed

lemma rounds_zero:
  assumes "0 \<le> x" and "2 * x < 1"
  shows "rounds s x (if s then SIGNBIT else 0)"
proof -
  have "mag 52 (Suc 0) = 1" by (simp add: mag_def)
  then have "rne 52 2047 x 0" using assms by (intro rne_between [where k = 0]) auto
  then show ?thesis using rounds_signed [of x 0 s] by (auto split: if_splits)
qed

lemma powi_int_diff: "(2::real) powi (a + int n) = 2 powi a * 2 ^ n"
  by (simp add: power_int_add)

lemma powi_minus_3: "(2::real) powi (-3) = 1 / 8"
  by (simp add: power_int_minus)

lemma sf_pack_rounds:
  assumes pos: "0 < unat sig"
    and s: "sided 0 y (unat sig) \<or> (sided 1 y (unat sig) \<and> 2 ^ 54 \<le> unat sig)"
  shows "rounds sign (y * 2 powi (e + 1019)) (sf_pack sign e sig)"
proof -
  obtain e1 s1 where up: "sf_norm_up e sig = (e1, s1)" by fastforce
  from sf_norm_up_scale [OF up pos] obtain l where
    l: "unat s1 = unat sig * 2 ^ l" "e1 = e - int l" "2 ^ 55 \<le> unat s1" "2 ^ 54 \<le> unat sig \<longrightarrow> l \<le> 1"
    by blast
  have y1: "sided 2 (y * 2 ^ l) (unat s1)"
  proof (cases "sided 0 y (unat sig)")
    case True
    then have "sided 0 (y * 2 ^ l) (unat s1)" unfolding l(1) by (rule sided_0_scale)
    then show ?thesis by (rule sided_mono) simp
  next
    case False
    with s have y: "sided 1 y (unat sig)" and "l \<le> 1" using l(4) by auto
    then consider "l = 0" | "l = 1" by linarith
    then show ?thesis
    proof cases
      case 1
      with y l(1) show ?thesis using sided_mono [of 1 y "unat sig" 2] by simp
    next
      case 2
      then have "unat s1 = 2 * unat sig" using l(1) by simp
      with 2 sided_double [OF y] show ?thesis by (simp add: numeral_2_eq_2 mult.commute)
    qed
  qed
  obtain e2 s2 where dn: "sf_norm_down e1 s1 = (e2, s2)" by fastforce
  from sf_norm_down_sided [OF dn y1 l(3)] obtain m where
    m: "sided 2 (y * 2 ^ l / 2 ^ m) (unat s2)" "e2 = e1 + int m" "2 ^ 55 \<le> unat s2" "unat s2 < 2 ^ 56"
    by blast
  define y2 where "y2 = y * 2 ^ l / 2 ^ m"
  have y2: "sided 2 y2 (unat s2)" using m(1) by (simp add: y2_def)
  have x: "y * 2 powi (e + 1019) = y2 * 2 powi (e2 + 1019)"
  proof -
    have "e + 1019 + int m = e2 + 1019 + int l" using l(2) m(2) by simp
    then have "(2::real) powi (e + 1019 + int m) = 2 powi (e2 + 1019 + int l)" by (simp only:)
    then have "(2::real) powi (e + 1019) * 2 ^ m = 2 powi (e2 + 1019) * 2 ^ l" by (simp only: powi_int_diff)
    then show ?thesis by (simp add: y2_def field_simps)
  qed
  have y2b: "y2 < 2 ^ 56" using sidedD(1) [OF y2, of "2 ^ 54"] m(4) by simp
  have sig0: "sig \<noteq> 0" using pos by auto
  have pack: "sf_pack sign e sig = (if e2 < -1022
     then (let shift = -1022 - e2 in if 63 < shift then (if sign then SIGNBIT else 0)
           else (let (e, sig) = sf_denorm (nat shift) e2 s2 in sf_emit_subnormal sign sig))
     else sf_emit_normal sign e2 s2)"
    using sig0 by (simp add: sf_pack_def up dn)
  consider (normal) "-1022 \<le> e2" | (tiny) "e2 < -1085" | (sub) "-1085 \<le> e2" "e2 < -1022" by linarith
  then show ?thesis
  proof cases
    case normal
    have "e2 + 1019 = (-3) + int (nat (e2 + 1022))" using normal by simp
    then have "(2::real) powi (e2 + 1019) = 2 powi (-3) * 2 ^ nat (e2 + 1022)" by (simp only: powi_int_diff)
    also have "(2::real) powi (-3) = 1 / 8" by (rule powi_minus_3)
    finally have eq: "y2 * 2 powi (e2 + 1019) = y2 / 8 * 2 ^ nat (e2 + 1022)" by simp
    show ?thesis
      unfolding x eq pack using sf_emit_normal_rounds [OF y2 m(3,4) normal, of sign] normal by simp
  next
    case tiny
    have "(2::real) powi (e2 + 1019) \<le> 2 powi (-67)" using tiny by (intro power_int_increasing) auto
    then have "y2 * 2 powi (e2 + 1019) \<le> 2 ^ 56 * 2 powi (-67)"
      using y2b by (intro mult_mono) auto
    also have "\<dots> < 1 / 2" by (simp add: power_int_minus)
    finally have "2 * (y2 * 2 powi (e2 + 1019)) < 1" by simp
    moreover have "0 \<le> y2 * 2 powi (e2 + 1019)" using sided_nonneg [OF y2] by simp
    ultimately show ?thesis using tiny rounds_zero [of "y2 * 2 powi (e2 + 1019)" sign] by (simp add: x pack Let_def)
  next
    case sub
    define n where "n = nat (-1022 - e2)"
    obtain e3 s3 where dm: "sf_denorm n e2 s2 = (e3, s3)" by fastforce
    from sf_denorm_sided [OF dm y2 m(4)] sub have d: "sided 2 (y2 / 2 ^ n) (unat s3)" "unat s3 < 2 ^ 55"
      by (auto simp: n_def)
    have "(2::real) powi (e2 + 1019 + int n) = 2 powi (-3)" using sub by (simp add: n_def)
    then have "(2::real) powi (e2 + 1019) * 2 ^ n = 2 powi (-3)" by (simp only: powi_int_diff)
    then have "(2::real) powi (e2 + 1019) * 2 ^ n = 1 / 8" by (simp only: powi_minus_3)
    then have "y2 * 2 powi (e2 + 1019) = y2 / 2 ^ n / 8" by (simp add: field_simps)
    then show ?thesis
      using sf_emit_subnormal_rounds [OF d, of sign] sub by (simp add: x pack Let_def n_def [symmetric] dm)
  qed
qed

section \<open>The interface the operations use\<close>

text \<open>
  What addition, multiplication, division and the conversion from integers rely on: a packer
  that rounds a significand correctly, whether it is exact or carries a sticky bit under at
  least 54 bits.
\<close>

locale packer =
  fixes pack :: "bool \<Rightarrow> int \<Rightarrow> u64 \<Rightarrow> u64"
  assumes pack_exact: "0 < unat sig \<Longrightarrow> rounds s (unat sig * 2 powi (e + 1019)) (pack s e sig)"
    and pack_sticky: "2 ^ 54 \<le> unat sig \<Longrightarrow> sided 1 y (unat sig) \<Longrightarrow>
          rounds s (y * 2 powi (e + 1019)) (pack s e sig)"
begin

lemma pack_floor:
  assumes "real t \<le> y" and "y < real t + 1" and "2 ^ 54 \<le> t"
    and "unat sig = t + of_bool (y \<noteq> real t \<and> even t)"
  shows "rounds s (y * 2 powi (e + 1019)) (pack s e sig)"
  using assms sided_sticky [OF assms(1,2,4)] by (intro pack_sticky) auto

lemma pack_sum:
  assumes m: "2 ^ 55 \<le> unat m" "unat m < 2 ^ 56" "8 dvd unat m"
    and n: "sided 1 y (unat n)" "unat n < 2 ^ 56"
  shows "rounds s ((real (unat m) + y) * 2 powi (e + 1019)) (pack s e (m + n))"
proof -
  have "unat (m + n) = unat m + unat n" using m n by (intro unat_add_less) simp
  moreover have "sided 1 (real (unat m) + y) (unat m + unat n)"
    using n(1) m(3) by (intro sided_add) (auto intro: dvd_trans [of 2 8])
  ultimately show ?thesis using m by (intro pack_sticky) auto
qed

lemma pack_difference:
  assumes m: "2 ^ 55 \<le> unat m" "8 dvd unat m"
    and n: "sided 1 y (unat n)" "n < m" and x: "unat n \<le> 2 ^ 54 \<or> y = unat n"
  shows "rounds s ((real (unat m) - y) * 2 powi (e + 1019)) (pack s e (m - n))"
proof -
  have le: "unat n < unat m" using n(2) by (simp add: word_less_nat_alt)
  have u: "unat (m - n) = unat m - unat n" using n(2) by (intro unat_sub_le) simp
  show ?thesis
  proof (cases "y = unat n")
    case True
    then have "real (unat m) - y = real (unat (m - n))" using le by (simp add: u of_nat_diff)
    moreover have "0 < unat (m - n)" using le by (simp add: u)
    ultimately show ?thesis using pack_exact [of "m - n" s e] by simp
  next
    case False
    moreover have "sided 1 (real (unat m) - y) (unat m - unat n)"
      using n(1) m(2) le by (intro sided_diff) (auto intro: dvd_trans [of 2 8])
    ultimately show ?thesis using x m u by (intro pack_sticky) auto
  qed
qed

end

interpretation sfp: packer sf_pack
proof unfold_locales
  show "rounds s (real (unat sig) * 2 powi (e + 1019)) (sf_pack s e sig)" if "0 < unat sig" for sig s e
    using that by (intro sf_pack_rounds) (auto simp: sided_0_iff)
  show "rounds s (y * 2 powi (e + 1019)) (sf_pack s e sig)"
    if "2 ^ 54 \<le> unat sig" "sided 1 y (unat sig)" for sig y s e
    using that by (intro sf_pack_rounds) auto
qed

end
