(* ===== verification/SoftFloatOps.thy ===== *)
theory SoftFloatOps
  imports SoftFloatCorrect
begin

text \<open>
  The arithmetic operations and conversions of \<^theory_text>\<open>SoftFloat\<close> are correctly rounded. The proofs
  use the packer only through the facts of the locale \<open>packer\<close>.
\<close>

section \<open>Unpacking\<close>

lemma unat_and_or_hidden: "unat m < 2 ^ 52 \<Longrightarrow> unat (m OR HIDDEN) = 2 ^ 52 + unat m"
  using unat_or_disjoint [of 52 HIDDEN m] by (simp add: or.commute)

lemma sf_unpack_value:
  assumes nz: "\<not> sf_iszero a"
  obtains e m where "sf_unpack a = (e, m)" and "2 ^ 55 \<le> unat m" and "unat m < 2 ^ 56"
    and "8 dvd unat m" and "real (dmag a) = real (unat m) * 2 powi (e + 1019)"
proof -
  have mb: "unat (sf_mant a) < 2 ^ 52" by (simp add: sf_mant_nat)
  have e0: "0 \<le> sf_exp a" by (simp add: sf_exp_nat)
  show thesis
  proof (cases "sf_exp a = 0")
    case True
    then have d: "dmag a = unat (sf_mant a)" by (simp add: dmag_fields)
    then have pos: "0 < unat (sf_mant a)" using nz by (simp add: sf_iszero_dmag)
    have u: "unat (push_bit 3 (sf_mant a)) = unat (sf_mant a) * 8"
      using mb unat_push_bit_less [of "sf_mant a" 3] by simp
    obtain e m where em: "sf_norm_up (-1022) (push_bit 3 (sf_mant a)) = (e, m)" by fastforce
    then obtain l where l: "unat m = unat (sf_mant a) * 8 * 2 ^ l" "e = -1022 - int l"
      "2 ^ 55 \<le> unat m" "0 < l \<longrightarrow> unat m < 2 ^ 56"
      using sf_norm_up_scale [OF em] pos u by auto
    have "sf_unpack a = (e, m)" using True pos em by (auto simp: sf_unpack_def Let_def)
    moreover have "unat m < 2 ^ 56" using l mb by (cases "l = 0") auto
    moreover have "real (dmag a) = real (unat m) * 2 powi (e + 1019)"
    proof -
      have "(2::real) powi (e + 1019) * 2 ^ l = 2 powi (-3)"
        using l(2) by (simp flip: powi_int_diff)
      then have "(2::real) powi (e + 1019) * 2 ^ l = 1 / 8" by (simp only: powi_minus_3)
      then have "2 ^ l * (8 * (2::real) powi (e + 1019)) = 1" by (simp add: field_simps)
      then show ?thesis using l(1) d by (simp add: mult.assoc mult.left_commute)
    qed
    ultimately show thesis using l by (intro that [of e m]) auto
  next
    case False
    define m where "m = push_bit 3 (sf_mant a OR HIDDEN)"
    have m: "unat m = (2 ^ 52 + unat (sf_mant a)) * 8"
      using mb unat_push_bit_less [of "sf_mant a OR HIDDEN" 3]
      by (simp add: m_def unat_and_or_hidden del: HIDDEN_def)
    have "sf_exp a - 1023 + 1019 = -3 + int (nat (sf_exp a - 1))" using False e0 by simp
    then have "(2::real) powi (sf_exp a - 1023 + 1019) = 2 powi (-3) * 2 ^ nat (sf_exp a - 1)"
      by (simp only: powi_int_diff)
    then have "(2::real) powi (sf_exp a - 1023 + 1019) = 2 ^ nat (sf_exp a - 1) / 8"
      by (simp only: powi_minus_3)
    then have pw: "2 ^ nat (sf_exp a - 1) = 8 * (2::real) powi (sf_exp a - 1023 + 1019)"
      by simp
    have "real (dmag a) = (2 ^ 52 + real (unat (sf_mant a))) * 2 ^ nat (sf_exp a - 1)"
      using False by (simp add: dmag_fields)
    also have "\<dots> = real (unat m) * 2 powi (sf_exp a - 1023 + 1019)"
      unfolding pw m by (simp only: of_nat_mult of_nat_add of_nat_power of_nat_numeral mult.assoc)
    finally have "real (dmag a) = real (unat m) * 2 powi (sf_exp a - 1023 + 1019)" .
    moreover have "sf_unpack a = (sf_exp a - 1023, m)"
      using False by (simp add: sf_unpack_def m_def Let_def)
    ultimately show thesis using m mb by (intro that [of "sf_exp a - 1023" m]) auto
  qed
qed

lemma dval_zero_iff: "dval a = 0 \<longleftrightarrow> sf_iszero a"
  by (simp add: dval_def sf_iszero_dmag)

lemma dval_sign: "\<not> sf_iszero a \<Longrightarrow> dval a < 0 \<longleftrightarrow> sf_sign a" "\<bar>dval a\<bar> = real (dmag a)"
  by (auto simp: dval_def sf_iszero_dmag)

section \<open>Addition and subtraction\<close>

lemma unat_mask_low: "n < 64 \<Longrightarrow> unat ((w :: u64) AND (push_bit n 1 - 1)) = unat w mod 2 ^ n"
proof -
  have "push_bit n 1 - 1 = (mask n :: u64)" by (simp add: mask_eq_exp_minus_1 push_bit_eq_mult)
  then show ?thesis by (simp add: unat_and_mask_mod)
qed

lemma unat_or_1: "unat ((w :: u64) OR 1) = unat w + of_bool (even (unat w))"
  by (simp add: unsigned_or_eq or_Suc_0_eq)

lemma nat_div_real: 
  fixes s d :: nat assumes "0 < d"
  shows "real (s div d) \<le> real s / real d" "real s / real d < real (s div d) + 1"
    "real s / real d = real (s div d) \<longleftrightarrow> s mod d = 0"
proof -
  have s: "real s = real (s div d) * real d + real (s mod d)"
    by (metis div_mult_mod_eq of_nat_add of_nat_mult)
  have "real (s mod d) < real d" using assms by simp
  with s assms show "real (s div d) \<le> real s / real d" "real s / real d < real (s div d) + 1"
    "real s / real d = real (s div d) \<longleftrightarrow> s mod d = 0"
    by (auto simp: field_simps)
qed

lemma sf_align_sided:
  assumes sh: "0 \<le> sh" and m: "0 < unat m" "unat m < 2 ^ 56" "8 dvd unat m"
  shows "sided 1 (unat m / 2 ^ nat sh) (unat (sf_align sh m))" and "unat (sf_align sh m) < 2 ^ 56"
    and "unat (sf_align sh m) \<le> 2 ^ 54 \<or> unat m / 2 ^ nat sh = unat (sf_align sh m)"
    and "sh = 0 \<or> unat (sf_align sh m) < 2 ^ 55"
proof -
  let ?n = "nat sh"
  let ?t = "unat m div 2 ^ ?n"
  have t: "real ?t \<le> unat m / 2 ^ ?n" "unat m / 2 ^ ?n < real ?t + 1"
    "unat m / 2 ^ ?n = real ?t \<longleftrightarrow> unat m mod 2 ^ ?n = 0"
    using nat_div_real [of "2 ^ ?n" "unat m"] by simp_all
  have al: "unat (sf_align sh m) = ?t + of_bool (unat m / 2 ^ ?n \<noteq> real ?t \<and> even ?t)"
  proof (cases "60 < sh")
    case True
    then have "60 < ?n" by simp
    then have "(2::nat) ^ 61 \<le> 2 ^ ?n" by (intro power_increasing) auto
    moreover have "unat m < 2 ^ 61" using m(2) by simp
    ultimately have "unat m < 2 ^ ?n" by (rule order.strict_trans2 [rotated])
    then have "?t = 0" "unat m mod 2 ^ ?n \<noteq> 0" using m(1) by auto
    moreover have "unat (sf_align sh m) = 1" using True m(1) by (auto simp: sf_align_def)
    ultimately show ?thesis using t(3) by simp
  next
    case False
    then have n: "?n < 64" by simp
    have lost: "(m AND (push_bit ?n 1 - 1) \<noteq> 0) \<longleftrightarrow> unat m mod 2 ^ ?n \<noteq> 0"
      using unat_mask_low [OF n, of m] by (simp only: unat_eq_0 [symmetric])
    show ?thesis
    proof (cases "sh = 0")
      case True
      then show ?thesis by (simp add: sf_align_def)
    next
      case nz: False
      with sh have "0 < sh" by simp
      then show ?thesis using False lost t(3)
        by (auto simp: sf_align_def Let_def unat_or_1 unat_drop_bit_div)
    qed
  qed
  show "sided 1 (unat m / 2 ^ ?n) (unat (sf_align sh m))"
    using sided_sticky [OF t(1,2) al] by simp
  have le: "?t \<le> unat m div 2 ^ k" if "k \<le> ?n" for k
    using that by (intro div_le_mono2) (auto intro: power_increasing)
  have exact: "unat m / 2 ^ ?n = real ?t" if "?n \<le> 3"
  proof -
    have "(2::nat) ^ ?n dvd 2 ^ 3" using that by (rule le_imp_power_dvd)
    then have "2 ^ ?n dvd unat m" using m(3) dvd_trans by simp blast
    then show ?thesis using t(3) by simp
  qed
  show "unat (sf_align sh m) < 2 ^ 56"
  proof (cases "?n = 0")
    case True
    then show ?thesis using al m exact by simp
  next
    case False
    then have "?t \<le> unat m div 2 ^ 1" by (intro le) simp
    then show ?thesis using al m(2) by auto
  qed
  show "unat (sf_align sh m) \<le> 2 ^ 54 \<or> unat m / 2 ^ ?n = unat (sf_align sh m)"
  proof (cases "?n \<le> 3")
    case True
    then show ?thesis using al exact by simp
  next
    case False
    then have "?t \<le> unat m div 2 ^ 4" by (intro le) simp
    then show ?thesis using al m(2) by auto
  qed
  show "sh = 0 \<or> unat (sf_align sh m) < 2 ^ 55"
  proof (cases "?n \<le> 3")
    case True
    show ?thesis
    proof (cases "sh = 0")
      case False
      then have "?t \<le> unat m div 2 ^ 1" using sh by (intro le) simp
      then show ?thesis using al m(2) exact [OF True] by auto
    qed simp
  next
    case False
    then have "?t \<le> unat m div 2 ^ 4" by (intro le) simp
    then show ?thesis using al m(2) by auto
  qed
qed

lemma signed_abs:
  fixes x v :: real
  assumes "0 < x" and "v = (if s then - 1 else 1) * x"
  shows "v \<noteq> 0" and "(v < 0) = s" and "\<bar>v\<bar> = x"
  using assms by auto

lemma sf_add_ordered_rounds:
  assumes ord: "eb \<le> ea"
    and ma: "2 ^ 55 \<le> unat ma" "unat ma < 2 ^ 56" "8 dvd unat ma"
    and mb: "2 ^ 55 \<le> unat mb" "unat mb < 2 ^ 56" "8 dvd unat mb"
    and va: "va = (if sa then - 1 else 1) * (unat ma * 2 powi (ea + 1019))"
    and vb: "vb = (if sb then - 1 else 1) * (unat mb * 2 powi (eb + 1019))"
  shows "if va + vb = 0 then sf_add_ordered ea ma sa eb mb sb = 0
         else rounds (va + vb < 0) \<bar>va + vb\<bar> (sf_add_ordered ea ma sa eb mb sb)"
proof -
  define P where "P = (2::real) powi (ea + 1019)"
  define y where "y = real (unat mb) / 2 ^ nat (ea - eb)"
  define s where "s = sf_align (ea - eb) mb"
  have P: "0 < P" by (simp add: P_def)
  have B: "unat mb * 2 powi (eb + 1019) = y * P"
  proof -
    have "ea + 1019 = eb + 1019 + int (nat (ea - eb))" using ord by simp
    then have "P = 2 powi (eb + 1019) * 2 ^ nat (ea - eb)" unfolding P_def by (simp only: powi_int_diff)
    then show ?thesis by (simp add: y_def)
  qed
  have "0 \<le> ea - eb" "0 < unat mb" using ord mb by auto
  note al = sf_align_sided [OF this mb(2,3), folded y_def s_def]
  have y0: "0 \<le> y" using al(1) by (rule sided_nonneg)
  have ypos: "0 < y" unfolding y_def using \<open>0 < unat mb\<close>
    by (intro divide_pos_pos) (simp_all only: of_nat_0_less_iff zero_less_power zero_less_numeral)
  obtain k where k: "unat ma = 2 * k" using ma(3) by (auto elim!: dvdE)
  have lt: "y < unat ma \<longleftrightarrow> unat s < unat ma" using sidedD(1) [OF al(1), of k] k by simp
  have ad: "sf_add_ordered ea ma sa eb mb sb =
     (if sa = sb then sf_pack sa ea (ma + s) else if ma = s then 0
      else if s < ma then sf_pack sa ea (ma - s) else sf_pack sb ea (s - ma))"
    by (simp add: sf_add_ordered_def s_def Let_def)
  show ?thesis
  proof (cases "sa = sb")
    case True
    then have v: "va + vb = (if sa then - 1 else 1) * ((unat ma + y) * P)"
      using va vb B by (simp add: P_def [symmetric] algebra_simps)
    have "0 < (unat ma + y) * P" using ma(1) by (intro mult_pos_pos add_pos_nonneg P y0) simp
    note sg = signed_abs [OF this v]
    have "rounds sa ((unat ma + y) * P) (sf_pack sa ea (ma + s))"
      unfolding P_def by (rule sfp.pack_sum [OF ma al(1,2)])
    then show ?thesis using True unfolding ad by (simp add: sg [unfolded True] True)
  next
    case False
    then have v: "va + vb = (if sa then - 1 else 1) * ((unat ma - y) * P)"
      using va vb B by (auto simp: P_def [symmetric] algebra_simps)
    consider (less) "s < ma" | (eq) "s = ma" | (gt) "ma < s" by fastforce
    then show ?thesis
    proof cases
      case less
      then have "y < unat ma" using lt by (simp add: word_less_nat_alt)
      then have "0 < (unat ma - y) * P" using P by simp
      note sg = signed_abs [OF this v]
      have "rounds sa ((unat ma - y) * P) (sf_pack sa ea (ma - s))"
        unfolding P_def by (rule sfp.pack_difference [OF ma(1,3) al(1) less al(3)])
      then show ?thesis using False less sg unfolding ad by auto
    next
      case eq
      then have "y = unat ma" using al(3) ma(1) by auto
      then show ?thesis using False eq unfolding ad by (simp add: v)
    next
      case gt
      then have n: "unat ma < unat s" by (simp add: word_less_nat_alt)
      then have "ea - eb = 0" using al(4) ma(1) by auto
      then have "y = unat mb" by (simp add: y_def)
      moreover have "y = unat s" using al(3) n ma(1) by auto
      ultimately have s: "s = mb" "y = unat mb" by (auto simp: word_unat_eq_iff)
      have "0 < (unat mb - real (unat ma)) * P" using n s P by simp
      moreover have "va + vb = (if sb then - 1 else 1) * ((unat mb - real (unat ma)) * P)"
        using v s False by (auto simp: algebra_simps)
      ultimately have sg: "va + vb \<noteq> 0" "(va + vb < 0) = sb" "\<bar>va + vb\<bar> = (unat mb - real (unat ma)) * P"
        by (rule signed_abs)+
      have "rounds sb ((unat mb - real (unat ma)) * P) (sf_pack sb ea (mb - ma))"
        unfolding P_def using mb gt s sided_exact by (intro sfp.pack_difference) auto
      then show ?thesis using False gt s sg unfolding ad by auto
    qed
  qed
qed

lemma rounds_self: "dfinite a \<Longrightarrow> rounds (sf_sign a) (real (dmag a)) a"
proof -
  assume "dfinite a"
  then have "unat a mod 2 ^ 63 div 2 ^ 52 \<noteq> 2047" by (simp add: dfinite_def sf_exp_nat)
  moreover have "unat a mod 2 ^ 63 < 2048 * 2 ^ 52" by simp
  then have "unat a mod 2 ^ 63 div 2 ^ 52 < 2048" by (rule less_mult_imp_div_less)
  ultimately have "unat a mod 2 ^ 63 div 2 ^ 52 < 2047" by linarith
  then have "unat a mod 2 ^ 63 \<le> 2047 * 2 ^ 52" by (simp add: div_less_iff_less_mult)
  then show ?thesis by (simp add: rounds_def dmag_def rne_exact)
qed

lemma sf_add_finite_rounds:
  assumes a: "\<not> sf_iszero a" and b: "\<not> sf_iszero b"
  shows "if dval a + dval b = 0 then sf_add_finite a b = 0
         else rounds (dval a + dval b < 0) \<bar>dval a + dval b\<bar> (sf_add_finite a b)"
proof -
  obtain ea ma where ua: "sf_unpack a = (ea, ma)" "2 ^ 55 \<le> unat ma" "unat ma < 2 ^ 56" "8 dvd unat ma"
    and da: "real (dmag a) = real (unat ma) * 2 powi (ea + 1019)"
    using a by (rule sf_unpack_value)
  obtain eb mb where ub: "sf_unpack b = (eb, mb)" "2 ^ 55 \<le> unat mb" "unat mb < 2 ^ 56" "8 dvd unat mb"
    and db: "real (dmag b) = real (unat mb) * 2 powi (eb + 1019)"
    using b by (rule sf_unpack_value)
  have va: "dval a = (if sf_sign a then - 1 else 1) * (unat ma * 2 powi (ea + 1019))"
    and vb: "dval b = (if sf_sign b then - 1 else 1) * (unat mb * 2 powi (eb + 1019))"
    by (auto simp: dval_def da db)
  show ?thesis
  proof (cases "ea < eb")
    case True
    then show ?thesis
      using sf_add_ordered_rounds [OF _ ub(2-4) ua(2-4) vb va]
      unfolding add.commute [of "dval b" "dval a"]
      by (simp add: sf_add_finite_def Let_def ua(1) ub(1))
  next
    case False
    then show ?thesis
      using sf_add_ordered_rounds [OF _ ua(2-4) ub(2-4) va vb]
      by (simp add: sf_add_finite_def Let_def ua(1) ub(1))
  qed
qed

lemma sf_add_correct:
  assumes a: "dfinite a" and b: "dfinite b"
  shows "if dval a + dval b = 0 then sf_add a b = (if sf_sign a \<and> sf_sign b then SIGNBIT else 0)
         else rounds (dval a + dval b < 0) \<bar>dval a + dval b\<bar> (sf_add a b)"
proof -
  have fin: "\<not> sf_isnan a" "\<not> sf_isinf a" "\<not> sf_isnan b" "\<not> sf_isinf b"
    using a b by (auto simp: dfinite_iff)
  consider (za) "sf_iszero a" | (zb) "\<not> sf_iszero a" "sf_iszero b" | (nz) "\<not> sf_iszero a" "\<not> sf_iszero b"
    by blast
  then show ?thesis
  proof cases
    case za
    then have "dval a = 0" by (simp add: dval_zero_iff)
    moreover have "\<not> sf_iszero b \<Longrightarrow> rounds (dval b < 0) \<bar>dval b\<bar> b"
      using rounds_self [OF b] dval_sign [of b] by simp
    ultimately show ?thesis using za fin dval_zero_iff [of b] by (auto simp: sf_add_def)
  next
    case zb
    then have "rounds (dval a < 0) \<bar>dval a\<bar> a" using rounds_self [OF a] dval_sign [of a] by simp
    moreover have "dval b = 0" "dval a \<noteq> 0" using zb by (auto simp: dval_zero_iff)
    ultimately show ?thesis using zb fin by (simp add: sf_add_def)
  next
    case nz
    then have eq: "sf_add a b = sf_add_finite a b" using fin by (simp add: sf_add_def)
    have "\<not> (sf_sign a \<and> sf_sign b)" if "dval a + dval b = 0"
    proof
      assume "sf_sign a \<and> sf_sign b"
      then have "dval a < 0" "dval b < 0" using nz dval_sign by blast+
      with that show False by simp
    qed
    then show ?thesis using sf_add_finite_rounds [OF nz] by (auto simp: eq)
  qed
qed

lemma bit_SIGNBIT: "bit SIGNBIT n \<longleftrightarrow> n = 63"
proof -
  have S: "SIGNBIT = push_bit 63 1" by simp
  show ?thesis unfolding S bit_push_bit_iff bit_1_iff by auto
qed

lemma sf_sign_bit: "sf_sign a \<longleftrightarrow> bit a 63"
proof -
  have "unat a div 2 ^ 63 < 2"
    using u64_bound [of a] by (simp add: less_mult_imp_div_less)
  then have "unat a div 2 ^ 63 \<noteq> 0 \<longleftrightarrow> odd (unat a div 2 ^ 63)" by (auto dest: less_2_cases)
  moreover have "bit a 63 \<longleftrightarrow> odd (unat a div 2 ^ 63)"
    by (simp only: bit_iff_odd [symmetric]) (simp add: bit_unsigned_iff)
  ultimately show ?thesis by (simp add: sf_sign_def unat_eq_0 [symmetric] unat_drop_bit_div)
qed

lemma sf_neg_nat: "unat (sf_neg a) mod 2 ^ 63 = unat a mod 2 ^ 63" "sf_sign (sf_neg a) \<longleftrightarrow> \<not> sf_sign a"
proof -
  have m: "unat w mod 2 ^ 63 = unat (w AND mask 63)" for w :: u64 by (simp add: unat_and_mask_mod)
  have "sf_neg a AND mask 63 = a AND mask 63"
    unfolding sf_neg_def
    by (rule bit_word_eqI) (auto simp del: SIGNBIT_def simp: bit_and_iff bit_xor_iff bit_mask_iff bit_SIGNBIT)
  then show "unat (sf_neg a) mod 2 ^ 63 = unat a mod 2 ^ 63" by (simp only: m)
  show "sf_sign (sf_neg a) \<longleftrightarrow> \<not> sf_sign a"
    by (simp del: SIGNBIT_def add: sf_sign_bit sf_neg_def bit_xor_iff bit_SIGNBIT)
qed

lemma sf_neg_value: "dval (sf_neg a) = - dval a" "dfinite (sf_neg a) \<longleftrightarrow> dfinite a"
  by (simp_all only: dval_def dmag_def dfinite_def sf_exp_nat sf_neg_nat) auto

section \<open>Multiplication\<close>

lemma unat_and_32: "unat ((w :: u64) AND 0xffffffff) = unat w mod 2 ^ 32"
  by (rule and_all_ones) (simp add: mask_eq_exp_minus_1)

lemma split_32: "unat (w :: u64) = unat (drop_bit 32 w) * 2 ^ 32 + unat (w AND 0xffffffff)"
  by (simp only: unat_and_32 unat_drop_bit_div div_mult_mod_eq)

lemma regroup_carry:
  fixes K :: nat
  assumes "q0 * K + r0 = l" and m: "q1 * K + r1 = m1" "q2 * K + r2 = m2"
    and c: "qc * K + rc = q0 + r1 + r2"
  shows "(h + q1 + q2 + qc) * (K * K) + (r0 + rc * K) = h * (K * K) + m1 * K + m2 * K + l"
proof -
  have "(qc * K + rc) * K = (q0 + r1 + r2) * K" by (simp only: c)
  then show ?thesis unfolding assms(1) [symmetric] m [symmetric] by (simp add: algebra_simps)
qed

text \<open>The two words hold the whole product: no carry is lost.\<close>

lemma sf_mul128_value:
  assumes "sf_mul128 ma mb = (hi, lo)" and a: "unat ma < 2 ^ 53" and b: "unat mb < 2 ^ 53"
  shows "unat hi * 2 ^ 64 + unat lo = unat ma * unat mb"
proof -
  define ah al bh bl where "ah = drop_bit 32 ma" and "al = ma AND 0xffffffff"
    and "bh = drop_bit 32 mb" and "bl = mb AND 0xffffffff"
  have bd: "unat ah < 2 ^ 21" "unat al < 2 ^ 32" "unat bh < 2 ^ 21" "unat bl < 2 ^ 32"
    using a b by (auto simp: ah_def bh_def al_def bl_def unat_drop_bit_div unat_and_32)
  have ab: "unat ma = unat ah * 2 ^ 32 + unat al" "unat mb = unat bh * 2 ^ 32 + unat bl"
    unfolding ah_def al_def bh_def bl_def by (rule split_32)+
  have le: "unat al * unat bl \<le> (2 ^ 32 - 1) * (2 ^ 32 - 1)" "unat al * unat bh \<le> 2 ^ 32 * 2 ^ 21"
    "unat ah * unat bl \<le> 2 ^ 21 * 2 ^ 32" "unat ah * unat bh \<le> 2 ^ 21 * 2 ^ 21"
    by (rule mult_le_mono; use bd in simp)+
  define l0 m1 m2 h0 where "l0 = al * bl" and "m1 = al * bh" and "m2 = ah * bl" and "h0 = ah * bh"
  have v: "unat l0 = unat al * unat bl" "unat m1 = unat al * unat bh"
    "unat m2 = unat ah * unat bl" "unat h0 = unat ah * unat bh"
    unfolding l0_def m1_def m2_def h0_def using le by (auto intro!: unat_mult_less)
  define c where "c = drop_bit 32 l0 + (m1 AND 0xffffffff) + (m2 AND 0xffffffff)"
  define C where "C = unat l0 div 2 ^ 32 + unat m1 mod 2 ^ 32 + unat m2 mod 2 ^ 32"
  have "unat l0 div 2 ^ 32 < 2 ^ 32" using u64_bound [of l0] by (simp add: less_mult_imp_div_less)
  then have C: "C < 3 * 2 ^ 32" unfolding C_def
    using mod_less_divisor [of "2 ^ 32" "unat m1"] mod_less_divisor [of "2 ^ 32" "unat m2"] by linarith
  have c: "unat c = C"
    using C unfolding c_def C_def
    by (subst unat_add_less; (subst unat_add_less)?; simp add: unat_drop_bit_div unat_and_32)
  have lo: "lo = (l0 AND 0xffffffff) OR push_bit 32 c"
    and hi: "hi = h0 + drop_bit 32 m1 + drop_bit 32 m2 + drop_bit 32 c"
    using assms(1) by (simp_all add: sf_mul128_def Let_def l0_def m1_def m2_def h0_def c_def
        ah_def al_def bh_def bl_def)
  have "unat (push_bit 32 c) = C mod 2 ^ 32 * 2 ^ 32"
    using mult_mod_left [of C "2 ^ 32" "2 ^ 32"] by (simp add: unat_push_bit_mod c)
  then have lo': "unat lo = unat l0 mod 2 ^ 32 + C mod 2 ^ 32 * 2 ^ 32"
    using unat_or_disjoint [of 32 "push_bit 32 c" "l0 AND 0xffffffff"]
    by (simp add: lo unat_and_32 or.commute)
  have "unat h0 \<le> 2 ^ 42" "unat m1 \<le> 2 ^ 53" "unat m2 \<le> 2 ^ 53" using le v by simp_all
  then have "unat h0 + unat m1 div 2 ^ 32 + unat m2 div 2 ^ 32 + C div 2 ^ 32 < 2 ^ 64"
    using C by simp
  then have hi': "unat hi = unat h0 + unat m1 div 2 ^ 32 + unat m2 div 2 ^ 32 + C div 2 ^ 32"
    unfolding hi by (subst unat_add_less; (subst unat_add_less)?; (subst unat_add_less)?;
        simp add: unat_drop_bit_div c)
  have "unat hi * (2 ^ 32 * 2 ^ 32) + unat lo =
      unat h0 * (2 ^ 32 * 2 ^ 32) + unat m1 * 2 ^ 32 + unat m2 * 2 ^ 32 + unat l0"
    unfolding hi' lo' by (rule regroup_carry) (simp_all only: div_mult_mod_eq C_def)
  also have "\<dots> = unat ma * unat mb" by (simp add: v ab algebra_simps)
  finally show ?thesis by simp
qed

lemma sf_bitlen_value:
  "t \<noteq> 0 \<Longrightarrow> \<exists>n. sf_bitlen len t = len + int (Suc n) \<and> 2 ^ n \<le> unat t \<and> unat t < 2 ^ Suc n"
proof (induction len t rule: sf_bitlen.induct)
  case (1 len t)
  show ?case
  proof (cases "drop_bit 1 t = 0")
    case True
    then have "unat t div 2 = 0" using unat_drop_bit_div [of 1 t] by simp
    moreover have "0 < unat t" using "1.prems" by (simp add: unat_gt_0)
    ultimately have "unat t = 1" by simp
    then show ?thesis using True "1.prems" sf_bitlen.simps [of len t] sf_bitlen.simps [of "len + 1" 0]
      by (intro exI [of _ 0]) simp
  next
    case False
    from "1.IH" [OF "1.prems" False] obtain n where
      n: "sf_bitlen (len + 1) (drop_bit 1 t) = len + 1 + int (Suc n)"
      "2 ^ n \<le> unat t div 2" "unat t div 2 < 2 ^ Suc n"
      using unat_drop_bit_div [of 1 t] by auto
    then have "2 ^ Suc n \<le> unat t" "unat t < 2 ^ Suc (Suc n)" by (auto simp: less_eq_div_iff_mult_less_eq)
    then show ?thesis using n(1) "1.prems" sf_bitlen.simps [of len t] by (intro exI [of _ "Suc n"]) simp
  qed
qed

lemma pow2_bracket: "2 ^ m \<le> (x::nat) \<Longrightarrow> x < 2 ^ n \<Longrightarrow> m < n"
proof -
  assume "2 ^ m \<le> x" "x < 2 ^ n"
  then have "(2::nat) ^ m < 2 ^ n" by (rule order.strict_trans1)
  then show "m < n" by simp
qed

lemma sf_mul_top_value:
  assumes N: "unat hi * 2 ^ 64 + unat lo = N" and b: "2 ^ 104 \<le> N" "N < 2 ^ 106"
  obtains k sig where "sf_mul_top hi lo = (int k, sig)" and "2 ^ 54 \<le> N div 2 ^ k"
    and "unat sig = N div 2 ^ k + of_bool (real N / 2 ^ k \<noteq> real (N div 2 ^ k) \<and> even (N div 2 ^ k))"
proof -
  have lo: "unat lo < 2 ^ 64" by (rule u64_bound)
  have h: "2 ^ 40 \<le> unat hi" "unat hi < 2 ^ 42" using N b lo by simp_all
  then have nz: "hi \<noteq> 0" by auto
  obtain n where n: "sf_bitlen 64 hi = 64 + int (Suc n)" "2 ^ n \<le> unat hi" "unat hi < 2 ^ Suc n"
    using sf_bitlen_value [OF nz, of 64] by blast
  have n40: "n = 40 \<or> n = 41"
    using pow2_bracket [OF n(2) h(2)] pow2_bracket [OF h(1) n(3)] by linarith
  define k where "k = n + 9"
  have k: "k = 49 \<or> k = 50" "0 < k" "k < 64" "64 - int k = int (64 - k)" using n40 by (auto simp: k_def)
  have hk: "unat hi * 2 ^ (64 - k) < 2 ^ 64" using k(1) n(3) n40 by (auto simp: k_def)
  define t where "t = push_bit (64 - k) hi OR drop_bit k lo"
  have pb: "unat (push_bit (64 - k) hi) = unat hi * 2 ^ (64 - k)"
    using hk by (intro unat_push_bit_less) simp
  have "unat lo div 2 ^ k < 2 ^ (64 - k)" using lo k(1) by auto
  then have t: "unat t = unat hi * 2 ^ (64 - k) + unat lo div 2 ^ k"
    unfolding t_def using pb unat_or_disjoint [of "64 - k" "push_bit (64 - k) hi" "drop_bit k lo"]
    by (simp add: unat_drop_bit_div)
  have split: "(2::nat) ^ 64 = 2 ^ (64 - k) * 2 ^ k" using k(1) by auto
  have Nk: "N = unat lo + unat hi * 2 ^ (64 - k) * 2 ^ k"
    using N by (simp only: split mult.assoc add.commute)
  have q: "N div 2 ^ k = unat t" "N mod 2 ^ k = unat lo mod 2 ^ k"
    unfolding Nk t by simp_all
  define sig where "sig = (if lo AND (push_bit k 1 - 1) \<noteq> 0 then t OR 1 else t)"
  have eq: "sf_mul_top hi lo = (int k, sig)"
  proof -
    have "sf_bitlen 64 hi - 56 = int k" using n(1) by (simp add: k_def)
    moreover have "nat (64 - int k) = 64 - k" using k(3) by simp
    ultimately show ?thesis using nz k(2)
      unfolding sf_mul_top_def sig_def t_def Let_def
      by (simp only: if_True simp_thms prod.case of_nat_0_less_iff nat_int)
  qed
  have st: "lo AND (push_bit k 1 - 1) \<noteq> 0 \<longleftrightarrow> real N / 2 ^ k \<noteq> real (N div 2 ^ k)"
    using unat_mask_low [OF k(3), of lo] nat_div_real(3) [of "2 ^ k" N] q(2)
    by (simp add: unat_eq_0 [symmetric])
  have "unat sig = N div 2 ^ k + of_bool (real N / 2 ^ k \<noteq> real (N div 2 ^ k) \<and> even (N div 2 ^ k))"
    unfolding sig_def st q(1) by (simp add: unat_or_1)
  moreover have "2 ^ 54 \<le> N div 2 ^ k" using b(1) k(1) by auto
  ultimately show thesis using eq that by blast
qed

lemma rounds_signed_zero: "rounds s 0 (if s then SIGNBIT else 0)"
  using rounds_zero [of 0 s] by simp

lemma powi_add: "(2::real) powi (a + b) = 2 powi a * 2 powi b"
  by (simp add: power_int_add)

lemma powi_3: "(2::real) powi (e + 1022) = 2 powi (e + 1019) * 8"
  and powi_55: "(2::real) powi (e + 1074) = 2 powi (e + 1019) * 2 ^ 55"
proof -
  have "e + 1022 = e + 1019 + int 3" "e + 1074 = e + 1019 + int 55" by simp_all
  then show "(2::real) powi (e + 1022) = 2 powi (e + 1019) * 8"
    "(2::real) powi (e + 1074) = 2 powi (e + 1019) * 2 ^ 55"
    by (simp_all only: powi_int_diff) simp
qed

lemma sf_mul_finite_rounds:
  assumes a: "\<not> sf_iszero a" and b: "\<not> sf_iszero b"
  shows "rounds (sf_sign a \<noteq> sf_sign b) (real (dmag a) * real (dmag b) * 2 powi (-1074)) (sf_mul_finite a b)"
proof -
  obtain ea ma where ua: "sf_unpack a = (ea, ma)" "2 ^ 55 \<le> unat ma" "unat ma < 2 ^ 56" "8 dvd unat ma"
    and da: "real (dmag a) = real (unat ma) * 2 powi (ea + 1019)"
    using a by (rule sf_unpack_value)
  obtain eb mb where ub: "sf_unpack b = (eb, mb)" "2 ^ 55 \<le> unat mb" "unat mb < 2 ^ 56" "8 dvd unat mb"
    and db: "real (dmag b) = real (unat mb) * 2 powi (eb + 1019)"
    using b by (rule sf_unpack_value)
  define na nb where "na = unat ma div 8" and "nb = unat mb div 8"
  have n: "unat ma = na * 8" "unat mb = nb * 8" "2 ^ 52 \<le> na" "na < 2 ^ 53" "2 ^ 52 \<le> nb" "nb < 2 ^ 53"
    using ua ub by (auto simp: na_def nb_def)
  have dr: "unat (drop_bit 3 ma) = na" "unat (drop_bit 3 mb) = nb"
    by (simp_all add: unat_drop_bit_div na_def nb_def)
  obtain hi lo where hl: "sf_mul128 (drop_bit 3 ma) (drop_bit 3 mb) = (hi, lo)" by fastforce
  then have N: "unat hi * 2 ^ 64 + unat lo = na * nb"
    using sf_mul128_value [OF hl] n dr by simp
  have "2 ^ 52 * 2 ^ 52 \<le> na * nb" "na * nb < 2 ^ 53 * 2 ^ 53"
    using n by (intro mult_le_mono mult_strict_mono; simp)+
  then have "2 ^ 104 \<le> na * nb" "na * nb < 2 ^ 106" by simp_all
  from sf_mul_top_value [OF N this] obtain k sig where
    k: "sf_mul_top hi lo = (int k, sig)" and t: "2 ^ 54 \<le> na * nb div 2 ^ k"
    and sig: "unat sig = na * nb div 2 ^ k
      + of_bool (real (na * nb) / 2 ^ k \<noteq> real (na * nb div 2 ^ k) \<and> even (na * nb div 2 ^ k))" .
  define e where "e = ea + eb + int k - 49"
  have fl: "real (na * nb div 2 ^ k) \<le> real (na * nb) / 2 ^ k" "real (na * nb) / 2 ^ k < real (na * nb div 2 ^ k) + 1"
    using nat_div_real [of "2 ^ k" "na * nb"] by simp_all
  have r: "rounds (sf_sign a \<noteq> sf_sign b) (real (na * nb) / 2 ^ k * 2 powi (e + 1019))
      (sf_pack (sf_sign a \<noteq> sf_sign b) e sig)"
    by (rule sfp.pack_floor [OF fl t sig])
  have "real (na * nb) / 2 ^ k * 2 powi (e + 1019) = real (dmag a) * real (dmag b) * 2 powi (-1074)"
  proof -
    have "e + 1019 = ea + 1022 + (eb + 1022) + (-1074) + int k" by (simp add: e_def)
    then have 1: "(2::real) powi (e + 1019) = 2 powi (ea + 1022) * 2 powi (eb + 1022) * 2 powi (-1074) * 2 ^ k"
      by (simp only: powi_add power_int_of_nat)
    have 2: "real (dmag a) = real na * 2 powi (ea + 1022)" "real (dmag b) = real nb * 2 powi (eb + 1022)"
      using n(1,2) da db by (simp_all only: powi_3)
    show ?thesis unfolding 1 2 by simp
  qed
  moreover have "sf_mul_finite a b = sf_pack (sf_sign a \<noteq> sf_sign b) e sig"
    by (simp add: sf_mul_finite_def ua(1) ub(1) hl k e_def)
  ultimately show ?thesis using r by (simp only:)
qed

lemma sf_mul_correct:
  assumes a: "dfinite a" and b: "dfinite b"
  shows "rounds (sf_sign a \<noteq> sf_sign b) (\<bar>dval a * dval b\<bar> * 2 powi (-1074)) (sf_mul a b)"
proof -
  have fin: "\<not> sf_isnan a" "\<not> sf_isinf a" "\<not> sf_isnan b" "\<not> sf_isinf b"
    using a b by (auto simp: dfinite_iff)
  show ?thesis
  proof (cases "sf_iszero a \<or> sf_iszero b")
    case True
    then have "dval a * dval b = 0" using dval_zero_iff by auto
    moreover have "sf_mul a b = (if (sf_sign a \<noteq> sf_sign b) then SIGNBIT else 0)"
      using True fin by (simp add: sf_mul_def del: SIGNBIT_def)
    ultimately show ?thesis using rounds_signed_zero [of "sf_sign a \<noteq> sf_sign b"]
      by (simp only: abs_zero mult_zero_left)
  next
    case False
    then have "sf_mul a b = sf_mul_finite a b" using fin by (simp add: sf_mul_def)
    then show ?thesis using sf_mul_finite_rounds [of a b] False by (simp add: abs_mult dval_sign)
  qed
qed

section \<open>Division\<close>

text \<open>The loop is long division: it keeps \<open>ma * 2 ^ i = q * mb + rem\<close> with \<open>rem < mb\<close>.\<close>

lemma sf_div_loop_value:
  assumes "sf_div_loop i mb q rem = (q', rem')" and "unat mb < 2 ^ 53" and "unat rem < unat mb"
    and "(unat q + 1) * 2 ^ i \<le> 2 ^ 64" and "m = unat q * unat mb + unat rem"
  shows "m * 2 ^ i = unat q' * unat mb + unat rem' \<and> unat rem' < unat mb"
  using assms
proof (induction i mb q rem arbitrary: m rule: sf_div_loop.induct)
  case (1 mb q rem)
  then show ?case by simp
next
  case (2 i mb q rem)
  define q1 r1 where "q1 = push_bit 1 q" and "r1 = push_bit 1 rem"
  have b: "unat mb < 2 ^ 53" "unat rem < unat mb" "(unat q + 1) * 2 ^ Suc i \<le> 2 ^ 64"
    "sf_div_loop (Suc i) mb q rem = (q', rem')" "m = unat q * unat mb + unat rem"
    using "2.prems" by simp_all
  have "(unat q + 1) * 2 \<le> (unat q + 1) * 2 ^ Suc i" by (intro mult_le_mono2) simp
  then have "(unat q + 1) * 2 \<le> 2 ^ 64" using b(3) by (rule order.trans)
  then have q2: "unat q * 2 + 2 \<le> 2 ^ 64" by simp
  have q1: "unat q1 = unat q * 2" unfolding q1_def using q2 by (subst unat_push_bit_less) simp_all
  have r1: "unat r1 = unat rem * 2" unfolding r1_def using b(1,2) by (subst unat_push_bit_less) simp_all
  have or: "unat (q1 OR 1) = unat q * 2 + 1" using q1 by (simp add: unat_or_1)
  have st: "(unat q1 + 1) * 2 ^ i \<le> 2 ^ 64" "(unat (q1 OR 1) + 1) * 2 ^ i \<le> 2 ^ 64"
    using b(3) q1 or by (simp_all add: algebra_simps)
  show ?case
  proof (cases "mb \<le> r1")
    case True
    then have le: "unat mb \<le> unat r1" by (simp add: word_le_nat_alt)
    have d: "unat (r1 - mb) = unat rem * 2 - unat mb" using True by (simp add: unat_sub_le r1)
    have eq: "sf_div_loop i mb (q1 OR 1) (r1 - mb) = (q', rem')"
      using b(4) True by (simp add: q1_def r1_def Let_def)
    have "m * 2 = unat (q1 OR 1) * unat mb + unat (r1 - mb)"
      using le unfolding d or b(5) r1 by (simp add: algebra_simps)
    from "2.IH"(1) [OF q1_def r1_def True eq b(1) _ st(2) this] show ?thesis
      using d le b(2) r1 by (simp add: ac_simps)
  next
    case False
    then have le: "unat r1 < unat mb" by (simp only: not_le word_less_nat_alt)
    have eq: "sf_div_loop i mb q1 r1 = (q', rem')"
      using b(4) False by (simp add: q1_def r1_def Let_def)
    have "m * 2 = unat q1 * unat mb + unat r1"
      unfolding b(5) q1 r1 by (simp add: algebra_simps)
    from "2.IH"(2) [OF q1_def r1_def False eq b(1) le st(1) this] show ?thesis
      by (simp add: ac_simps)
  qed
qed

lemma sf_div_core:
  assumes ma: "unat ma < 2 ^ 54" and mb: "unat mb \<le> unat ma" "unat ma < 2 * unat mb" "unat mb < 2 ^ 53"
    and loop: "sf_div_loop 55 mb 1 (ma - mb) = (q, rem)"
  defines "sig \<equiv> if rem \<noteq> 0 then q OR 1 else q"
  shows "rounds s (real (unat ma) / real (unat mb) * 2 powi (e + 1074)) (sf_pack s e sig)"
proof -
  have pos: "0 < unat mb" using mb by simp
  have sub: "unat (ma - mb) = unat ma - unat mb" using mb(1) by (simp add: unat_sub_le word_le_nat_alt)
  have "unat ma = unat (1::u64) * unat mb + unat (ma - mb)" using mb(1) sub by simp
  note d = sf_div_loop_value [OF loop mb(3) _ _ this]
  have m: "unat ma * 2 ^ 55 = unat q * unat mb + unat rem" "unat rem < unat mb"
    using d mb(2) sub by simp_all
  define N where "N = unat ma * 2 ^ 55"
  have q: "N div unat mb = unat q" "N mod unat mb = unat rem"
    unfolding N_def m(1) using m(2) by simp_all
  have nz: "rem \<noteq> 0 \<longleftrightarrow> real N / real (unat mb) \<noteq> real (N div unat mb)"
    using nat_div_real(3) [OF pos, of N] q(2) by (simp add: unat_eq_0 [symmetric])
  have sig: "unat sig = N div unat mb + of_bool (real N / real (unat mb) \<noteq> real (N div unat mb) \<and> even (N div unat mb))"
    unfolding sig_def nz q(1) by (simp add: unat_or_1)
  have "2 ^ 55 * unat mb \<le> N" using mb(1) by (simp add: N_def)
  then have "2 ^ 55 \<le> N div unat mb" using pos by (simp add: less_eq_div_iff_mult_less_eq)
  then have t: "2 ^ 54 \<le> N div unat mb" by simp
  have "rounds s (real N / real (unat mb) * 2 powi (e + 1019)) (sf_pack s e sig)"
    by (rule sfp.pack_floor [OF nat_div_real(1,2) [OF pos] t sig])
  then show ?thesis by (simp add: N_def powi_55 mult.commute mult.left_commute)
qed

lemma sf_div_finite_rounds:
  assumes a: "\<not> sf_iszero a" and b: "\<not> sf_iszero b"
  shows "rounds (sf_sign a \<noteq> sf_sign b) (real (dmag a) / real (dmag b) * 2 powi 1074) (sf_div_finite a b)"
proof -
  obtain ea ma where ua: "sf_unpack a = (ea, ma)" "2 ^ 55 \<le> unat ma" "unat ma < 2 ^ 56" "8 dvd unat ma"
    and da: "real (dmag a) = real (unat ma) * 2 powi (ea + 1019)"
    using a by (rule sf_unpack_value)
  obtain eb mb where ub: "sf_unpack b = (eb, mb)" "2 ^ 55 \<le> unat mb" "unat mb < 2 ^ 56" "8 dvd unat mb"
    and db: "real (dmag b) = real (unat mb) * 2 powi (eb + 1019)"
    using b by (rule sf_unpack_value)
  define ma' mb' where "ma' = drop_bit 3 ma" and "mb' = drop_bit 3 mb"
  have n: "unat ma = unat ma' * 8" "unat mb = unat mb' * 8" "2 ^ 52 \<le> unat ma'" "unat ma' < 2 ^ 53"
    "2 ^ 52 \<le> unat mb'" "unat mb' < 2 ^ 53"
    using ua ub by (auto simp: ma'_def mb'_def unat_drop_bit_div)
  have v: "real (dmag a) / real (dmag b) * 2 powi 1074
      = real (unat ma') / real (unat mb') * 2 powi (ea - eb + 1074)"
  proof -
    have "ea + 1019 + 1074 = ea - eb + 1074 + (eb + 1019)" by simp
    then have "(2::real) powi (ea + 1019) * 2 powi 1074 = 2 powi (ea - eb + 1074) * 2 powi (eb + 1019)"
      by (simp only: powi_add [symmetric])
    then show ?thesis unfolding da db n(1,2) using n(5) by (simp add: field_simps)
  qed
  show ?thesis
  proof (cases "ma' < mb'")
    case True
    define m2 where "m2 = push_bit 1 ma'"
    have m2: "unat m2 = unat ma' * 2" unfolding m2_def using n by (subst unat_push_bit_less) simp_all
    obtain q rem where lp: "sf_div_loop 55 mb' 1 (m2 - mb') = (q, rem)" by fastforce
    have eq: "sf_div_finite a b =
        sf_pack (sf_sign a \<noteq> sf_sign b) (ea - eb + -1) (if rem \<noteq> 0 then q OR 1 else q)"
      by (simp only: sf_div_finite_def Let_def ua(1) ub(1) prod.case ma'_def [symmetric] mb'_def [symmetric]
          m2_def [symmetric] True if_True lp)
    have "unat ma' < unat mb'" using True by (simp add: word_less_nat_alt)
    then have "rounds s (real (unat m2) / real (unat mb') * 2 powi (ea - eb + -1 + 1074))
      (sf_pack s (ea - eb + -1) (if rem \<noteq> 0 then q OR 1 else q))" for s
      using n m2 by (intro sf_div_core [OF _ _ _ _ lp]) simp_all
    moreover have "real (unat m2) / real (unat mb') * 2 powi (ea - eb + -1 + 1074)
        = real (unat ma') / real (unat mb') * 2 powi (ea - eb + 1074)"
    proof -
      have "ea - eb + 1074 = ea - eb + -1 + 1074 + int 1" by simp
      then have "(2::real) powi (ea - eb + 1074) = 2 powi (ea - eb + -1 + 1074) * 2 ^ 1"
        by (simp only: powi_int_diff)
      then show ?thesis by (simp add: m2)
    qed
    ultimately show ?thesis unfolding v eq by (simp only:)
  next
    case False
    obtain q rem where lp: "sf_div_loop 55 mb' 1 (ma' - mb') = (q, rem)" by fastforce
    have eq: "sf_div_finite a b =
        sf_pack (sf_sign a \<noteq> sf_sign b) (ea - eb) (if rem \<noteq> 0 then q OR 1 else q)"
      by (simp only: sf_div_finite_def Let_def ua(1) ub(1) prod.case ma'_def [symmetric] mb'_def [symmetric]
          False if_False lp add_0_right)
    have "unat mb' \<le> unat ma'" using False by (simp add: word_less_nat_alt)
    then show ?thesis unfolding v eq using n by (intro sf_div_core [OF _ _ _ _ lp]) simp_all
  qed
qed

lemma sf_div_correct:
  assumes a: "dfinite a" and b: "dfinite b" and nz: "dval b \<noteq> 0"
  shows "rounds (sf_sign a \<noteq> sf_sign b) (\<bar>dval a / dval b\<bar> * 2 powi 1074) (sf_div a b)"
proof -
  have fin: "\<not> sf_isnan a" "\<not> sf_isinf a" "\<not> sf_isnan b" "\<not> sf_isinf b" "\<not> sf_iszero b"
    using a b nz by (auto simp: dfinite_iff dval_zero_iff)
  show ?thesis
  proof (cases "sf_iszero a")
    case True
    then have "dval a = 0" by (simp add: dval_zero_iff)
    moreover have "sf_div a b = (if (sf_sign a \<noteq> sf_sign b) then SIGNBIT else 0)"
      using True fin by (simp add: sf_div_def del: SIGNBIT_def)
    ultimately show ?thesis using rounds_signed_zero [of "sf_sign a \<noteq> sf_sign b"]
      by (simp only: abs_zero div_0 mult_zero_left)
  next
    case False
    then have "sf_div a b = sf_div_finite a b" using fin by (simp add: sf_div_def)
    then show ?thesis using sf_div_finite_rounds [of a b] False fin by (simp add: abs_divide dval_sign)
  qed
qed

end
