(* ===== verification/SoftFloatConv.thy ===== *)
theory SoftFloatConv
  imports SoftFloatOps
begin

text \<open>
  The conversions of \<^theory_text>\<open>SoftFloat\<close>: integers to doubles (correctly rounded), doubles to integers
  (truncated), floats to doubles (exact) and doubles to floats (correctly rounded).
\<close>

section \<open>Integers to doubles\<close>

lemma sf_from_mag_rounds:
  assumes u: "u \<noteq> 0"
  defines "len \<equiv> sf_bitlen 0 u"
  defines "sig \<equiv> if 56 < len
                 then (let k = len - 56; st = (u AND (push_bit (nat k) 1 - 1) \<noteq> 0);
                           sig = drop_bit (nat k) u
                       in if st then sig OR 1 else sig)
                 else push_bit (nat (56 - len)) u"
  shows "rounds s (unat u * 2 powi 1074) (sf_pack s (len - 1) sig)"
proof -
  obtain n where n: "sf_bitlen 0 u = 0 + int (Suc n)" "2 ^ n \<le> unat u" "unat u < 2 ^ Suc n"
    using sf_bitlen_value [OF u] by blast
  have len: "len = int n + 1" using n(1) by (simp add: len_def)
  have n64: "n < 64" using pow2_bracket [OF n(2) u64_bound] .
  show ?thesis
  proof (cases "56 < len")
    case False
    define j where "j = nat (56 - len)"
    have j: "int j = 56 - len" "int (Suc n + j) = 56" "Suc n + j = 56" using False len by (auto simp: j_def)
    have "unat u * 2 ^ j < 2 ^ Suc n * 2 ^ j" using n(3) by simp
    then have ub: "unat u * 2 ^ j < 2 ^ 56" using j(3) by (simp only: power_add [symmetric])
    have sig: "unat sig = unat u * 2 ^ j"
      using False ub unat_push_bit_less [of u j] by (simp add: sig_def j_def)
    have "0 < unat sig" using u by (simp add: sig unat_gt_0)
    from sfp.pack_exact [OF this, of s "len - 1"]
    have "rounds s (real (unat sig) * 2 powi (len - 1 + 1019)) (sf_pack s (len - 1) sig)" .
    moreover have "(2::real) powi 1074 = 2 powi (len - 1 + 1019) * 2 ^ j"
    proof -
      have "1074 = len - 1 + 1019 + int j" using j by simp
      then show ?thesis by (simp only: powi_int_diff)
    qed
    ultimately show ?thesis by (simp only: sig of_nat_mult of_nat_power of_nat_numeral mult.assoc mult.commute)
  next
    case True
    define k where "k = nat (len - 56)"
    have k: "int k = len - 56" "k < 64" "Suc n = k + 56" using True len n64 by (auto simp: k_def)
    have st: "u AND (push_bit k 1 - 1) \<noteq> 0 \<longleftrightarrow> real (unat u) / 2 ^ k \<noteq> real (unat u div 2 ^ k)"
      using unat_mask_low [OF k(2), of u] nat_div_real(3) [of "2 ^ k" "unat u"]
      by (simp add: unat_eq_0 [symmetric])
    have sig: "unat sig = unat u div 2 ^ k
        + of_bool (real (unat u) / 2 ^ k \<noteq> real (unat u div 2 ^ k) \<and> even (unat u div 2 ^ k))"
      using True unfolding sig_def Let_def k_def [symmetric] st by (simp add: unat_or_1 unat_drop_bit_div)
    have "n = k + 55" using k(3) by simp
    then have "2 ^ 55 * 2 ^ k \<le> unat u" using n(2) by (simp add: power_add mult.commute)
    then have "2 ^ 55 \<le> unat u div 2 ^ k" by (simp add: less_eq_div_iff_mult_less_eq)
    then have t: "2 ^ 54 \<le> unat u div 2 ^ k" by simp
    have fl: "real (unat u div 2 ^ k) \<le> real (unat u) / 2 ^ k" "real (unat u) / 2 ^ k < real (unat u div 2 ^ k) + 1"
      using nat_div_real [of "2 ^ k" "unat u"] by simp_all
    have "rounds s (real (unat u) / 2 ^ k * 2 powi (len - 1 + 1019)) (sf_pack s (len - 1) sig)"
      by (rule sfp.pack_floor [OF fl t sig])
    moreover have "real (unat u) / 2 ^ k * 2 powi (len - 1 + 1019) = real (unat u) * 2 powi 1074"
    proof -
      have "len - 1 + 1019 = 1074 + int k" using k by simp
      then have pw: "(2::real) powi (len - 1 + 1019) = 2 powi 1074 * 2 ^ k" by (simp only: powi_int_diff)
      show ?thesis unfolding pw by simp
    qed
    ultimately show ?thesis by (simp only:)
  qed
qed

lemma sint_uint_64: "sint (v :: u64) = (if uint v < 2 ^ 63 then uint v else uint v - 2 ^ 64)"
proof -
  have b: "- (2 ^ 63) \<le> sint v" "sint v < 2 ^ 63" using sint_ge [of v] sint_lt [of v] by simp_all
  have u: "uint v = sint v mod 2 ^ 64" by (simp add: uint_sint take_bit_eq_mod)
  show ?thesis
  proof (cases "sint v < 0")
    case True
    have "sint v mod 2 ^ 64 = (sint v + 2 ^ 64) mod 2 ^ 64" by simp
    also have "\<dots> = sint v + 2 ^ 64" using True b by (intro mod_pos_pos_trivial) auto
    finally show ?thesis using u b True by simp
  next
    case False
    then have "sint v mod 2 ^ 64 = sint v" using b by (intro mod_pos_pos_trivial) auto
    then show ?thesis using u b False by simp
  qed
qed

lemma uint_neg_64: "v \<noteq> 0 \<Longrightarrow> uint (- v :: u64) = 2 ^ 64 - uint v"
proof -
  assume "v \<noteq> 0"
  then have "0 < uint v" by (simp add: order.strict_iff_order uint_0_iff)
  moreover have "uint v < 2 ^ 64" using uint_lt2p [of v] by simp
  moreover have "uint (- v) = (- uint v) mod 2 ^ 64" by (simp add: uint_word_ariths)
  moreover have "(- uint v) mod 2 ^ 64 = (2 ^ 64 - uint v) mod 2 ^ 64" by (simp add: mod_diff_left_eq)
  ultimately show ?thesis by (simp only: mod_pos_pos_trivial)
qed

lemma unat_neg_sint: "sint (v :: u64) < 0 \<Longrightarrow> real (unat (- v)) = - real_of_int (sint v)"
proof -
  assume neg: "sint v < 0"
  then have "v \<noteq> 0" by auto
  then have "uint (- v) = - sint v" using neg by (simp add: sint_uint_64 uint_neg_64 split: if_splits)
  then have "int (unat (- v)) = - sint v" by (simp only: uint_nat)
  then show ?thesis by (metis of_int_minus of_int_of_nat_eq)
qed

lemma unat_pos_sint: "\<not> sint (v :: u64) < 0 \<Longrightarrow> real (unat v) = real_of_int (sint v)"
proof -
  assume "\<not> sint v < 0"
  moreover have "uint v < 2 ^ 64" using uint_lt2p [of v] by simp
  ultimately have "uint v = sint v" by (simp add: sint_uint_64 split: if_splits)
  then have "int (unat v) = sint v" by (simp only: uint_nat)
  then show ?thesis by (metis of_int_of_nat_eq)
qed

lemma sf_from_int_correct:
  "(if v = 0 then sf_from_int v is_unsigned = 0
    else rounds (\<not> is_unsigned \<and> sint v < 0)
      (\<bar>if is_unsigned then real (unat v) else real_of_int (sint v)\<bar> * 2 powi 1074)
      (sf_from_int v is_unsigned))"
proof (cases "\<not> is_unsigned \<and> sint v < 0")
  case True
  then have nz: "v \<noteq> 0" "- v \<noteq> 0" by auto
  have "sf_from_int v is_unsigned = sf_pack True (sf_bitlen 0 (- v) - 1)
      (if 56 < sf_bitlen 0 (- v)
       then (let k = sf_bitlen 0 (- v) - 56; st = (- v AND (push_bit (nat k) 1 - 1) \<noteq> 0);
                 sig = drop_bit (nat k) (- v)
             in if st then sig OR 1 else sig)
       else push_bit (nat (56 - sf_bitlen 0 (- v))) (- v))"
    using True nz(2) unfolding sf_from_int_def Let_def by simp
  then show ?thesis using True nz sf_from_mag_rounds [OF nz(2), of True] unat_neg_sint [of v]
    by (simp del: power_int_numeral_neg_numeral)
next
  case False
  show ?thesis
  proof (cases "v = 0")
    case True
    then show ?thesis by (simp add: sf_from_int_def)
  next
    case nz: False
    have "sf_from_int v is_unsigned = sf_pack False (sf_bitlen 0 v - 1)
      (if 56 < sf_bitlen 0 v
       then (let k = sf_bitlen 0 v - 56; st = (v AND (push_bit (nat k) 1 - 1) \<noteq> 0);
                 sig = drop_bit (nat k) v
             in if st then sig OR 1 else sig)
       else push_bit (nat (56 - sf_bitlen 0 v)) v)"
      using False nz unfolding sf_from_int_def Let_def by auto
    moreover have "\<bar>if is_unsigned then real (unat v) else real_of_int (sint v)\<bar> = real (unat v)"
      using False unat_pos_sint [of v] by auto
    ultimately show ?thesis using False nz sf_from_mag_rounds [OF nz, of False] by auto
  qed
qed

section \<open>Doubles to integers\<close>

text \<open>The number a double stands for, and the cut towards zero of the C conversions.\<close>

definition dreal :: "u64 \<Rightarrow> real" where
  "dreal a = dval a * 2 powi (-1074)"

definition cut :: "real \<Rightarrow> int" where
  "cut x = (if x < 0 then - \<lfloor>- x\<rfloor> else \<lfloor>x\<rfloor>)"

lemma floor_nat_div: "0 < d \<Longrightarrow> \<lfloor>real n / real d\<rfloor> = int (n div d)"
  by (metis floor_divide_of_nat_eq of_int_of_nat_eq zdiv_int)

text \<open>The magnitude that \<open>sf_to_int\<close> computes for an exponent in range.\<close>

definition sf_int_mag :: "u64 \<Rightarrow> u64" where
  "sf_int_mag a =
    (if sf_exp a < 1023 then 0
     else if int MANTBITS \<le> sf_exp a - 1023
          then push_bit (nat (sf_exp a - 1023 - int MANTBITS)) (sf_mant a OR HIDDEN)
          else drop_bit (nat (int MANTBITS - (sf_exp a - 1023))) (sf_mant a OR HIDDEN))"

lemma powi_minus_1074: "(2::real) powi (-1074) = 1 / 2 ^ 1074"
  by (simp only: power_int_minus power_int_numeral inverse_eq_divide)

lemma sf_int_mag_floor:
  assumes "sf_exp a \<le> 1086"
  shows "int (unat (sf_int_mag a)) = \<lfloor>real (dmag a) * 2 powi (-1074)\<rfloor>"
proof -
  define M where "M = 2 ^ 52 + unat (sf_mant a)"
  have mb: "unat (sf_mant a) < 2 ^ 52" unfolding sf_mant_nat by (rule mod_less_divisor) simp
  have M: "unat (sf_mant a OR HIDDEN) = M" "M < 2 ^ 53"
    using unat_and_or_hidden [OF mb] mb by (simp_all only: M_def) simp
  note pn = powi_minus_1074
  show ?thesis
  proof (cases "sf_exp a < 1023")
    case True
    have "dmag a < 2 ^ 1074"
    proof (cases "sf_exp a = 0")
      case True
      then have "dmag a < 2 ^ 52" using sf_mant_nat [of a] by (simp add: dmag_fields)
      then show ?thesis by simp
    next
      case nz: False
      then have "dmag a = M * 2 ^ nat (sf_exp a - 1)" by (simp add: dmag_fields M_def)
      also have "\<dots> \<le> M * 2 ^ 1021" using True by (intro mult_le_mono2 power_increasing) auto
      also have "\<dots> < 2 ^ 53 * 2 ^ 1021" using M(2) by simp
      finally show ?thesis by simp
    qed
    then have "dmag a div 2 ^ 1074 = 0" by (rule div_less)
    moreover have "\<lfloor>real (dmag a) / real (2 ^ 1074)\<rfloor> = int (dmag a div 2 ^ 1074)" by (rule floor_nat_div) simp
    ultimately show ?thesis using True by (simp only: sf_int_mag_def pn of_nat_power of_nat_numeral) simp
  next
    case False
    define e where "e = nat (sf_exp a - 1023)"
    have e: "sf_exp a = 1023 + int e" "e \<le> 63" using False assms by (auto simp: e_def)
    have "sf_exp a \<noteq> 0" "nat (sf_exp a - 1) = e + 1022" using e by auto
    then have d: "dmag a = M * 2 ^ (e + 1022)" by (simp add: dmag_fields M_def)
    have x: "real (dmag a) * 2 powi (-1074) = real M * 2 ^ e / 2 ^ 52"
      unfolding pn d by (simp add: power_add)
    show ?thesis
    proof (cases "52 \<le> e")
      case True
      define j where "j = e - 52"
      have j: "e = 52 + j" "j \<le> 11" using True e by (auto simp: j_def)
      have "M * 2 ^ j < 2 ^ 53 * 2 ^ 11"
        using M(2) j(2) by (intro mult_less_le_imp_less power_increasing) auto
      then have "unat (push_bit j (sf_mant a OR HIDDEN)) = M * 2 ^ j"
        using unat_push_bit_less [of "sf_mant a OR HIDDEN" j] M by simp
      moreover have "sf_int_mag a = push_bit j (sf_mant a OR HIDDEN)"
        using e j by (simp add: sf_int_mag_def)
      moreover have "real M * 2 ^ e / 2 ^ 52 = real (M * 2 ^ j)" by (simp add: j power_add)
      ultimately show ?thesis unfolding x by (simp only: floor_of_nat)
    next
      case False
      define j where "j = 52 - e"
      have j: "e + j = 52" using False by (auto simp: j_def)
      have "sf_int_mag a = drop_bit j (sf_mant a OR HIDDEN)"
        using e False by (simp add: sf_int_mag_def j_def nat_diff_distrib')
      then have "unat (sf_int_mag a) = M div 2 ^ j" by (simp only: unat_drop_bit_div M(1))
      moreover have "real M * 2 ^ e / 2 ^ 52 = real M / real (2 ^ j)"
        by (simp add: power_add flip: j)
      ultimately show ?thesis unfolding x by (simp only: floor_nat_div zero_less_power zero_less_numeral)
    qed
  qed
qed

lemma sf_to_int_mag:
  assumes "dfinite a" and "sf_exp a \<le> 1086"
  shows "sf_to_int a is_unsigned = (if sf_sign a then - sf_int_mag a else sf_int_mag a)"
proof -
  have "\<not> sf_isnan a" "0 \<le> sf_exp a" using assms by (auto simp: dfinite_iff sf_exp_nat)
  then show ?thesis using assms(2)
    unfolding sf_to_int_def sf_int_mag_def Let_def by auto
qed

lemma dmag_ge_exp:
  assumes "sf_exp a = 1023 + int n"
  shows "2 ^ n \<le> real (dmag a) * 2 powi (-1074)"
proof -
  have "sf_exp a \<noteq> 0" "nat (sf_exp a - 1) = n + 1022" using assms by auto
  then have "dmag a = (2 ^ 52 + unat (sf_mant a)) * 2 ^ (n + 1022)"
    by (simp only: dmag_fields if_False)
  then have "2 ^ 52 * 2 ^ (n + 1022) \<le> dmag a" by (simp only: mult_le_mono1 le_add1)
  then have "(2::real) ^ 52 * 2 ^ (n + 1022) \<le> real (dmag a)"
    by (simp only: of_nat_le_iff [where ?'a = real, symmetric] of_nat_mult of_nat_numeral of_nat_power)
  moreover have "(2::real) ^ 52 * 2 ^ (n + 1022) = 2 ^ n * 2 ^ 1074"
  proof -
    have "52 + (n + 1022) = n + 1074" by simp
    then show ?thesis by (simp only: power_add [symmetric])
  qed
  ultimately have "(2::real) ^ n * 2 ^ 1074 \<le> real (dmag a)" by (simp only:)
  then have "(2::real) ^ n \<le> real (dmag a) / 2 ^ 1074"
    by (simp only: pos_le_divide_eq zero_less_power zero_less_numeral)
  then show ?thesis by (simp only: powi_minus_1074 times_divide_eq_right mult_1_right)
qed

lemma dreal_abs: "\<bar>dreal a\<bar> = real (dmag a) * 2 powi (-1074)"
  unfolding dreal_def abs_mult dval_sign by simp

lemma exp_bound_of_abs:
  assumes "\<bar>dreal a\<bar> < 2 ^ n"
  shows "sf_exp a < 1023 + int n"
proof (rule ccontr)
  assume "\<not> sf_exp a < 1023 + int n"
  then have "sf_exp a = 1023 + int (nat (sf_exp a - 1023))" "n \<le> nat (sf_exp a - 1023)" by auto
  from dmag_ge_exp [OF this(1)] have "2 ^ nat (sf_exp a - 1023) \<le> \<bar>dreal a\<bar>" by (simp only: dreal_abs)
  moreover have "(2::real) ^ n \<le> 2 ^ nat (sf_exp a - 1023)"
    using \<open>n \<le> _\<close> by (intro power_increasing) auto
  ultimately show False using assms by linarith
qed

lemma cut_signed: "cut (dreal a) = (if sf_sign a then - \<lfloor>\<bar>dreal a\<bar>\<rfloor> else \<lfloor>\<bar>dreal a\<bar>\<rfloor>)"
proof -
  have "dreal a = (if sf_sign a then - 1 else 1) * \<bar>dreal a\<bar>"
    unfolding dreal_abs by (simp add: dreal_def dval_def)
  then show ?thesis by (cases "sf_sign a") (auto simp: cut_def)
qed

lemma sf_to_int_value:
  assumes f: "dfinite a" and b: "\<bar>dreal a\<bar> < 2 ^ 64"
  shows "uint (sf_int_mag a) = \<lfloor>\<bar>dreal a\<bar>\<rfloor>"
    and "sf_to_int a is_unsigned = (if sf_sign a then - sf_int_mag a else sf_int_mag a)"
proof -
  have e: "sf_exp a \<le> 1086" using exp_bound_of_abs [OF b] by simp
  show "uint (sf_int_mag a) = \<lfloor>\<bar>dreal a\<bar>\<rfloor>"
    using sf_int_mag_floor [OF e] by (simp only: dreal_abs uint_nat)
  show "sf_to_int a is_unsigned = (if sf_sign a then - sf_int_mag a else sf_int_mag a)"
    by (rule sf_to_int_mag [OF f e])
qed

text \<open>The range conditions are on the integral part, so \<open>- 2 ^ 63\<close> and the fractions above
  \<open>- 1\<close> are in range, as C has it.\<close>

lemma abs_cut: "\<bar>cut (dreal a)\<bar> = \<lfloor>\<bar>dreal a\<bar>\<rfloor>"
  by (simp add: cut_signed)

lemma sf_to_int_bits:
  assumes f: "dfinite a" and b: "\<bar>cut (dreal a)\<bar> < 2 ^ 64"
  shows "uint (sf_int_mag a) = \<bar>cut (dreal a)\<bar>"
    and "sf_to_int a is_unsigned = (if sf_sign a then - sf_int_mag a else sf_int_mag a)"
proof -
  have "\<bar>dreal a\<bar> < 2 ^ 64" using b unfolding abs_cut floor_less_iff by simp
  then show "uint (sf_int_mag a) = \<bar>cut (dreal a)\<bar>"
    "sf_to_int a is_unsigned = (if sf_sign a then - sf_int_mag a else sf_int_mag a)"
    using sf_to_int_value [OF f] unfolding abs_cut by blast+
qed

lemma cut_sign: "sf_sign a \<Longrightarrow> cut (dreal a) \<le> 0" "\<not> sf_sign a \<Longrightarrow> 0 \<le> cut (dreal a)"
  by (simp_all add: cut_signed)

lemma sf_to_int_signed:
  assumes f: "dfinite a" and b: "- (2 ^ 63) \<le> cut (dreal a)" "cut (dreal a) < 2 ^ 63"
  shows "sint (sf_to_int a False) = cut (dreal a)"
proof -
  have "\<bar>cut (dreal a)\<bar> < 2 ^ 64" using b by simp
  note v = sf_to_int_bits [OF f this]
  show ?thesis
  proof (cases "sf_sign a \<and> sf_int_mag a \<noteq> 0")
    case True
    then have "0 < uint (sf_int_mag a)" by (simp add: order.strict_iff_order uint_0_iff)
    then show ?thesis using True v b cut_sign(1) [of a] by (simp add: sint_uint_64 uint_neg_64)
  next
    case False
    then show ?thesis using v b cut_sign [of a] by (auto simp: sint_uint_64)
  qed
qed

lemma sf_to_int_unsigned:
  assumes f: "dfinite a" and b: "0 \<le> cut (dreal a)" "cut (dreal a) < 2 ^ 64"
  shows "uint (sf_to_int a True) = cut (dreal a)"
proof -
  have "\<bar>cut (dreal a)\<bar> < 2 ^ 64" using b by simp
  note v = sf_to_int_bits [OF f this]
  have "sf_int_mag a = 0" if "sf_sign a"
    using v(1) b cut_sign(1) [OF that] by (simp add: uint_0_iff)
  then show ?thesis using v b by (cases "sf_sign a") simp_all
qed

section \<open>Single precision\<close>

text \<open>A float stands for \<open>fmag\<close> in units of its smallest subnormal, \<open>2 powi -149\<close>.\<close>

definition fsign :: "u32 \<Rightarrow> bool" where
  "fsign f \<longleftrightarrow> 2 ^ 31 \<le> unat f"

definition fmag :: "u32 \<Rightarrow> nat" where
  "fmag f = mag 23 (unat f mod 2 ^ 31)"

definition ffinite :: "u32 \<Rightarrow> bool" where
  "ffinite f \<longleftrightarrow> unat f mod 2 ^ 31 div 2 ^ 23 \<noteq> 255"

definition rounds32 :: "bool \<Rightarrow> real \<Rightarrow> u32 \<Rightarrow> bool" where
  "rounds32 s x r \<longleftrightarrow> fsign r = s \<and> rne 23 255 x (unat r mod 2 ^ 31)"

definition f32_top :: "u64 \<Rightarrow> u32" where
  "f32_top b = ucast (push_bit 31 (drop_bit 63 b AND 1))"

lemma f32_top_nat: "unat (f32_top b) = (if sf_sign b then 2 ^ 31 else 0)"
proof -
  have "unat b div 2 ^ 63 < 2" using u64_bound [of b] by (simp add: less_mult_imp_div_less)
  then have "unat (drop_bit 63 b AND 1) = (if sf_sign b then 1 else 0)"
    by (auto simp: and_1_mod unat_drop_bit_div sf_sign_def unat_eq_0 [symmetric] dest: less_2_cases)
  then have "drop_bit 63 b AND 1 = (if sf_sign b then 1 else 0)"
    by (metis unat_0 unat_1 word_unat_eq_iff)
  then show ?thesis by (simp add: f32_top_def)
qed

lemma rounds32_signed:
  assumes "rne 23 255 x (unat r)"
  shows "rounds32 (sf_sign b) x (f32_top b OR r)"
proof -
  have r: "unat r < 2 ^ 31" using assms by (simp add: rne_def)
  have "2 ^ 31 dvd unat (f32_top b)" by (simp add: f32_top_nat)
  then have "unat (f32_top b OR r) = unat (f32_top b) + unat r" using r by (rule unat_or_disjoint)
  then show ?thesis using assms r by (simp add: rounds32_def fsign_def f32_top_nat)
qed

lemma rounds32_top: "0 \<le> x \<Longrightarrow> 2 * x < 1 \<Longrightarrow> rounds32 (sf_sign b) x (f32_top b)"
proof -
  assume "0 \<le> x" "2 * x < 1"
  moreover have "mag 23 (Suc 0) = 1" by (simp add: mag_def)
  ultimately have "rne 23 255 x 0" by (intro rne_between [where k = 0]) auto
  then show ?thesis using rounds32_signed [of x 0 b] by simp
qed

lemma strtod_to_f32_finite:
  assumes "dfinite b"
  shows "strtod_to_f32 b =
    (if sf_exp b = 0 then f32_top b
     else (let ex = sf_exp b - 896; mant = sf_mant b OR HIDDEN
           in if 255 \<le> ex then f32_top b OR 0x7f800000
              else if ex \<le> -24 then f32_top b
              else if ex \<le> 0 then f32_emit (f32_top b) (f32_round (nat (30 - ex)) 0 mant)
              else f32_emit (f32_top b) (f32_round 29 ex mant)))"
proof -
  have e: "uint (drop_bit 52 b AND 0x7ff) = sf_exp b" by (simp add: sf_exp_def)
  have m: "b AND 0xfffffffffffff = sf_mant b" by (simp add: sf_mant_def)
  have h: "(0x10000000000000 :: u64) = HIDDEN" by simp
  have "sf_exp b \<noteq> 2047" using assms by (simp add: dfinite_def)
  then show ?thesis
    unfolding strtod_to_f32_def e m h f32_top_def [symmetric] Let_def by simp
qed

text \<open>The guard and the sticky bit of the shift, as the rounding condition.\<close>

lemma round_condition:
  fixes M d :: nat
  shows "odd (M div 2 ^ d) \<and> (M mod 2 ^ d \<noteq> 0 \<or> odd (M div 2 ^ Suc d)) \<longleftrightarrow>
    (real M / 2 ^ Suc d - real (M div 2 ^ Suc d) > 1 / 2 \<or>
     (real M / 2 ^ Suc d - real (M div 2 ^ Suc d) = 1 / 2 \<and> odd (M div 2 ^ Suc d)))"
proof -
  define q r b where "q = M div 2 ^ Suc d" and "r = M mod 2 ^ d" and "b = (M div 2 ^ d) mod 2"
  have q: "q = M div 2 ^ d div 2" by (simp add: q_def div_mult2_eq [symmetric] mult.commute)
  have "M = M div 2 ^ d * 2 ^ d + r" by (simp only: r_def div_mult_mod_eq)
  moreover have "M div 2 ^ d = q * 2 + b" by (simp add: q b_def)
  ultimately have M: "M = (q * 2 + b) * 2 ^ d + r" by (simp only:)
  have rb: "r < 2 ^ d" "b < 2" "odd (M div 2 ^ d) \<longleftrightarrow> b = 1"
    by (auto simp: r_def b_def odd_iff_mod_2_eq_one)
  define z where "z = real r / 2 ^ d"
  have x: "real M / 2 ^ Suc d - real q = (real b + z) / 2"
    unfolding z_def by (subst M) (simp add: field_simps)
  have z: "0 \<le> z" "z < 1" "z = 0 \<longleftrightarrow> r = 0" using rb(1) by (simp_all add: z_def)
  have "b = 1 \<and> (r \<noteq> 0 \<or> odd q) \<longleftrightarrow> (real b + z) / 2 > 1 / 2 \<or> ((real b + z) / 2 = 1 / 2 \<and> odd q)"
  proof (cases "b = 1")
    case True
    then show ?thesis using z by auto
  next
    case False
    then have "b = 0" using rb(2) by simp
    then show ?thesis using z by simp
  qed
  then show ?thesis unfolding x [symmetric] unfolding q_def r_def rb(3) [symmetric] .
qed

lemma f32_round_nat:
  assumes d: "29 \<le> d" "d \<le> 53" and M: "unat mant < 2 ^ 53"
  defines "low \<equiv> unat mant div 2 ^ d"
  obtains up where "up \<longleftrightarrow> real (unat mant) / 2 ^ d - low > 1 / 2 \<or>
      (real (unat mant) / 2 ^ d - low = 1 / 2 \<and> odd low)"
    and "f32_round d ex mant = (if (if up then Suc low else low) = 2 ^ 24 then (2 ^ 23, ex + 1)
         else (of_nat (if up then Suc low else low), ex))"
proof -
  obtain d' where d': "d = Suc d'" using d(1) by (cases d) auto
  have low: "low < 2 ^ 24"
  proof -
    have "low \<le> unat mant div 2 ^ 29" unfolding low_def using d(1)
      by (intro div_le_mono2 power_increasing) auto
    then show ?thesis using M by simp
  qed
  define m24 where "m24 = (ucast (drop_bit d mant) :: u32)"
  have u: "unat m24 = low" using low unfolding m24_def
    by (simp add: unsigned_ucast_eq take_bit_nat_eq_self unat_drop_bit_div low_def)
  have m: "m24 = of_nat low" by (simp add: u [symmetric] of_nat_unat)
  define up where "up \<longleftrightarrow> drop_bit (d - 1) mant AND 1 \<noteq> 0 \<and>
      (mant AND (push_bit (d - 1) 1 - 1) \<noteq> 0 \<or> m24 AND 1 \<noteq> 0)"
  have "d' < 64" using d d' by simp
  then have "up \<longleftrightarrow> odd (unat mant div 2 ^ d') \<and> (unat mant mod 2 ^ d' \<noteq> 0 \<or> odd low)"
    unfolding up_def and_1_neq_0_iff u using unat_mask_low [of d' mant]
    by (simp add: d' unat_drop_bit_div unat_eq_0 [symmetric])
  then have c: "up \<longleftrightarrow> real (unat mant) / 2 ^ d - low > 1 / 2 \<or>
      (real (unat mant) / 2 ^ d - low = 1 / 2 \<and> odd low)"
    unfolding low_def d' round_condition [symmetric] .
  have "unat (m24 + 1) = Suc low" using low u by (subst unat_add_less) simp_all
  then have s: "m24 + 1 = of_nat (Suc low)" "m24 + 1 = 0x1000000 \<longleftrightarrow> Suc low = 2 ^ 24"
    by (simp add: m, simp add: word_unat_eq_iff)
  have "f32_round d ex mant = (if up then if m24 + 1 = 0x1000000 then (drop_bit 1 (m24 + 1), ex + 1)
      else (m24 + 1, ex) else (m24, ex))"
    unfolding f32_round_def Let_def m24_def [symmetric] up_def [symmetric] ..
  moreover have "drop_bit 1 (0x1000000 :: u32) = 2 ^ 23" by simp
  ultimately have "f32_round d ex mant = (if (if up then Suc low else low) = 2 ^ 24 then (2 ^ 23, ex + 1)
         else (of_nat (if up then Suc low else low), ex))"
    using s low m by auto
  with c show thesis by (rule that)
qed

lemma unat_f32_field:
  assumes "0 \<le> x" "x < 255" and "unat (f :: u32) < 2 ^ 23"
  shows "unat (push_bit 23 (word_of_int x) OR f) = nat x * 2 ^ 23 + unat f"
proof -
  have "unat (word_of_int x :: u32) = nat x"
    using assms(1,2) by (simp add: unsigned_of_int take_bit_int_eq_self)
  then have "unat (push_bit 23 (word_of_int x :: u32)) = nat x * 2 ^ 23"
    using unat_push_bit_less [of "word_of_int x :: u32" 23] assms(1,2) by simp
  then show ?thesis using unat_or_disjoint [of 23 "push_bit 23 (word_of_int x)" f] assms(3) by simp
qed

lemma f32_emit_normal:
  assumes ex: "1 \<le> ex" "ex \<le> 254" and l: "2 ^ 23 \<le> l" "l \<le> 2 ^ 24"
  obtains r where "f32_emit sgn32 (if l = 2 ^ 24 then (2 ^ 23, ex + 1) else (of_nat l, ex)) = sgn32 OR r"
    and "unat r = nat (ex - 1) * 2 ^ 23 + l"
proof -
  define x m :: _ where "x = (if l = 2 ^ 24 then ex + 1 else ex)" and "m = (if l = 2 ^ 24 then 2 ^ 23 else of_nat l :: u32)"
  have e: "f32_emit sgn32 (if l = 2 ^ 24 then (2 ^ 23, ex + 1) else (of_nat l, ex)) = f32_emit sgn32 (m, x)"
    by (simp add: x_def m_def)
  have um: "unat m = (if l = 2 ^ 24 then 2 ^ 23 else l)"
    using l by (auto simp: m_def unat_of_nat_small)
  have "unat (m AND mask 23) = (if l = 2 ^ 24 then 0 else l - 2 ^ 23)"
    using l by (simp only: unat_and_mask_mod um) (auto simp: mod_if)
  moreover have "(0x7fffff :: u32) = mask 23" by (simp add: mask_eq_exp_minus_1)
  ultimately have um': "unat (m AND 0x7fffff) = (if l = 2 ^ 24 then 0 else l - 2 ^ 23)" by (simp only:)
  show thesis
  proof (cases "255 \<le> x")
    case True
    then have "l = 2 ^ 24" "ex = 254" using ex by (auto simp: x_def split: if_splits)
    then show thesis using True e by (intro that [of "0x7f800000"]) (simp_all add: f32_emit_def)
  next
    case False
    have "unat (push_bit 23 (word_of_int x) OR (m AND 0x7fffff)) = nat x * 2 ^ 23 + unat (m AND 0x7fffff)"
      using False ex um' l by (intro unat_f32_field) (auto simp: x_def)
    also have "\<dots> = nat (ex - 1) * 2 ^ 23 + l"
      using ex l unfolding um' by (auto simp: x_def nat_diff_distrib' nat_add_distrib algebra_simps)
    finally show thesis using e False ex
      by (intro that [of "push_bit 23 (word_of_int x) OR (m AND 0x7fffff)"])
        (auto simp: f32_emit_def x_def or.assoc)
  qed
qed

lemma sf_to_f32_correct:
  assumes b: "dfinite b"
  shows "rounds32 (sf_sign b) (real (dmag b) / 2 ^ 925) (sf_to_f32 b)"
  unfolding sf_to_f32_def
proof (cases "sf_exp b = 0")
  case True
  then have "dmag b < 2 ^ 52" using sf_mant_nat [of b] by (simp add: dmag_fields)
  then have "real (dmag b) < 2 ^ 52" by simp
  then have "2 * (real (dmag b) / 2 ^ 925) < 1" by simp
  then show "rounds32 (sf_sign b) (real (dmag b) / 2 ^ 925) (strtod_to_f32 b)"
    using True rounds32_top [of "real (dmag b) / 2 ^ 925" b] by (simp add: strtod_to_f32_finite [OF b])
next
  case False
  define mant where "mant = sf_mant b OR HIDDEN"
  define M where "M = unat mant"
  have mb: "unat (sf_mant b) < 2 ^ 52" unfolding sf_mant_nat by (rule mod_less_divisor) simp
  have M: "M = 2 ^ 52 + unat (sf_mant b)" unfolding M_def mant_def using mb by (rule unat_and_or_hidden)
  have Mb: "2 ^ 52 \<le> M" "M < 2 ^ 53" using M mb by simp_all
  define ex where "ex = sf_exp b - 896"
  have e0: "0 < sf_exp b" using False sf_exp_nat [of b] by simp
  have dm: "real (dmag b) = real M * 2 ^ nat (sf_exp b - 1)" using False by (simp add: dmag_fields M)
  have eq: "strtod_to_f32 b = (if 255 \<le> ex then f32_top b OR 0x7f800000
              else if ex \<le> -24 then f32_top b
              else if ex \<le> 0 then f32_emit (f32_top b) (f32_round (nat (30 - ex)) 0 mant)
              else f32_emit (f32_top b) (f32_round 29 ex mant))"
    using False by (simp only: strtod_to_f32_finite [OF b] if_False Let_def ex_def mant_def)
  consider (inf) "255 \<le> ex" | (tiny) "ex \<le> -24" | (sub) "-24 < ex" "ex \<le> 0" | (norm) "0 < ex" "ex < 255"
    by linarith
  then show "rounds32 (sf_sign b) (real (dmag b) / 2 ^ 925) (strtod_to_f32 b)"
  proof cases
    case inf
    then have n: "nat (sf_exp b - 1) = nat (ex - 1) + 896" "254 \<le> nat (ex - 1)" by (auto simp: ex_def)
    have "real (dmag b) / 2 ^ 925 = real M / 2 ^ 29 * 2 ^ nat (ex - 1)"
      unfolding dm n(1) by (simp add: power_add)
    moreover have "(2::real) ^ 23 \<le> real M / 2 ^ 29" using Mb(1) by simp
    then have "rne 23 255 (real M / 2 ^ 29 * 2 ^ nat (ex - 1)) (255 * 2 ^ 23)"
      using n(2) by (intro rne_overflow) auto
    ultimately have "rne 23 255 (real (dmag b) / 2 ^ 925) (unat (0x7f800000 :: u32))" by simp
    then show ?thesis using inf by (simp only: eq if_True rounds32_signed)
  next
    case tiny
    have "real (dmag b) \<le> real M * 2 ^ 871" unfolding dm
      using tiny by (intro mult_left_mono power_increasing) (auto simp: ex_def)
    also have "\<dots> < 2 ^ 53 * 2 ^ 871" using Mb(2) by simp
    finally have "2 * (real (dmag b) / 2 ^ 925) < 1" by simp
    then show ?thesis using tiny rounds32_top [of "real (dmag b) / 2 ^ 925" b] by (simp add: eq)
  next
    case sub
    define d where "d = nat (30 - ex)"
    have d: "29 \<le> d" "d \<le> 53" "30 \<le> d" "nat (sf_exp b - 1) + d = 925"
      using sub e0 by (auto simp: d_def ex_def)
    define low where "low = M div 2 ^ d"
    obtain up where up: "up \<longleftrightarrow> real M / 2 ^ d - low > 1 / 2 \<or> (real M / 2 ^ d - low = 1 / 2 \<and> odd low)"
      and r: "f32_round d 0 mant = (if (if up then Suc low else low) = 2 ^ 24 then (2 ^ 23, 0 + 1)
         else (of_nat (if up then Suc low else low), 0))"
      using f32_round_nat [OF d(1,2), of mant 0] Mb unfolding M_def low_def by blast
    have "low \<le> M div 2 ^ 30" unfolding low_def using d(3) by (intro div_le_mono2 power_increasing) auto
    then have low: "low < 2 ^ 23" using Mb by simp
    have "rne 23 255 (real M / 2 ^ d * 2 ^ 0) (0 * 2 ^ 23 + (if up then Suc low else low))"
      using low nat_div_real(1,2) [of "2 ^ d" M] up by (intro rne_round) (auto simp: low_def)
    moreover have "real (dmag b) / 2 ^ 925 = real M / 2 ^ d"
      unfolding dm d(4) [symmetric] power_add by simp
    ultimately have "rne 23 255 (real (dmag b) / 2 ^ 925) (if up then Suc low else low)"
      by (simp only: power_0 mult_1_right mult_0 add_0)
    moreover have "strtod_to_f32 b = f32_top b OR of_nat (if up then Suc low else low)"
      using sub low by (auto simp: eq d_def [symmetric] r f32_emit_def)
    moreover have "unat (of_nat (if up then Suc low else low) :: u32) = (if up then Suc low else low)"
      using low by (intro unat_of_nat_small) auto
    ultimately show ?thesis by (simp only: rounds32_signed)
  next
    case norm
    define low where "low = M div 2 ^ 29"
    obtain up where up: "up \<longleftrightarrow> real M / 2 ^ 29 - low > 1 / 2 \<or> (real M / 2 ^ 29 - low = 1 / 2 \<and> odd low)"
      and r: "f32_round 29 ex mant = (if (if up then Suc low else low) = 2 ^ 24 then (2 ^ 23, ex + 1)
         else (of_nat (if up then Suc low else low), ex))"
      using f32_round_nat [of 29 mant ex] Mb unfolding M_def low_def by auto
    have low: "2 ^ 23 \<le> low" "low < 2 ^ 24" using Mb unfolding low_def by simp_all
    have "2 ^ 23 \<le> (if up then Suc low else low)" "(if up then Suc low else low) \<le> 2 ^ 24"
      using low by auto
    moreover have "1 \<le> ex" "ex \<le> 254" using norm by auto
    ultimately obtain w where w: "f32_emit (f32_top b) (f32_round 29 ex mant) = f32_top b OR w"
      "unat w = nat (ex - 1) * 2 ^ 23 + (if up then Suc low else low)"
      unfolding r using f32_emit_normal [of ex "if up then Suc low else low" "f32_top b"] by blast
    have "rne 23 255 (real M / 2 ^ 29 * 2 ^ nat (ex - 1)) (nat (ex - 1) * 2 ^ 23 + (if up then Suc low else low))"
      using low nat_div_real(1,2) [of "2 ^ 29" M] up norm by (intro rne_round) (auto simp: low_def)
    moreover have "real (dmag b) / 2 ^ 925 = real M / 2 ^ 29 * 2 ^ nat (ex - 1)"
    proof -
      have "nat (sf_exp b - 1) = nat (ex - 1) + 896" using norm by (auto simp: ex_def)
      then show ?thesis unfolding dm by (simp add: power_add)
    qed
    ultimately have "rne 23 255 (real (dmag b) / 2 ^ 925) (unat w)" by (simp only: w)
    then show ?thesis using norm w(1) rounds32_signed [of _ w b] by (simp add: eq)
  qed
qed

text \<open>Widening is exact.\<close>

lemma sf_f32_norm_scale:
  assumes "sf_f32_norm e m = (e', m')" and "0 < unat m" and "unat m < 2 ^ 24"
  shows "\<exists>l. unat m' = unat m * 2 ^ l \<and> e' = e - int l \<and> 2 ^ 23 \<le> unat m' \<and> unat m' < 2 ^ 24"
  using assms
proof (induction e m rule: sf_f32_norm.induct)
  case (1 e m)
  have bit: "m AND 8388608 = 0 \<longleftrightarrow> unat m < 2 ^ 23"
  proof -
    have h: "(8388608 :: u64) = push_bit 23 1" by simp
    have "m AND 8388608 = push_bit 23 (drop_bit 23 m AND 1)"
      unfolding h
      by (rule bit_word_eqI, simp only: bit_and_iff bit_push_bit_iff bit_1_iff bit_drop_bit_eq o_def) auto
    then have "unat (m AND 8388608) = unat (push_bit 23 (drop_bit 23 m AND 1))" by simp
    also have "\<dots> = (unat m div 2 ^ 23 mod 2) * 2 ^ 23"
      by (subst unat_push_bit_less) (simp_all add: and_1_mod unat_drop_bit_div)
    finally have u: "unat (m AND 8388608) = (unat m div 2 ^ 23 mod 2) * 2 ^ 23" .
    have "unat m div 2 ^ 23 < 2" using "1.prems"(3) by (simp add: less_mult_imp_div_less)
    then have "unat m div 2 ^ 23 mod 2 = 0 \<longleftrightarrow> unat m div 2 ^ 23 = 0" by simp
    then show ?thesis using u by (simp add: unat_eq_0 [symmetric] div_eq_0_iff)
  qed
  have gt: "0 < m \<longleftrightarrow> 0 < unat m" "m < 8388608 \<longleftrightarrow> unat m < 2 ^ 23" by (simp_all add: word_less_nat_alt)
  show ?case
  proof (cases "unat m < 2 ^ 23")
    case True
    then have c: "m AND 8388608 = 0 \<and> 0 < m \<and> m < 8388608" using bit gt "1.prems" by simp
    have u: "unat (push_bit 1 m) = unat m * 2" using True unat_push_bit_less [of m 1] by simp
    have "sf_f32_norm (e - 1) (push_bit 1 m) = (e', m')" using c "1.prems"(1) by (simp add: sf_f32_norm.simps [of e m])
    from "1.IH" [OF c this] obtain l where "unat m' = unat m * 2 * 2 ^ l" "e' = e - 1 - int l"
      "2 ^ 23 \<le> unat m'" "unat m' < 2 ^ 24"
      using "1.prems" True u by auto
    then show ?thesis by (intro exI [of _ "Suc l"]) simp
  next
    case False
    then have "e' = e" "m' = m" using bit "1.prems"(1) by (auto simp: sf_f32_norm.simps [of e m] split: if_splits)
    then show ?thesis using False "1.prems"(3) by (intro exI [of _ 0]) simp
  qed
qed

lemma f32_fields:
  "unat (drop_bit 31 (ucast (f :: u32) :: u64)) = unat f div 2 ^ 31"
  "unat (drop_bit 23 (ucast f :: u64) AND 255) = unat f mod 2 ^ 31 div 2 ^ 23"
  "unat (ucast f AND (8388607 :: u64)) = unat f mod 2 ^ 31 mod 2 ^ 23"
proof -
  have u: "unat (ucast f :: u64) = unat f"
    using u32_bound [of f] by (simp add: unsigned_ucast_eq take_bit_nat_eq_self)
  show "unat (drop_bit 31 (ucast f :: u64)) = unat f div 2 ^ 31" by (simp add: unat_drop_bit_div u)
  have "unat (drop_bit 23 (ucast f :: u64) AND 255) = unat f div 2 ^ 23 mod 2 ^ 8"
    using and_all_ones [of 255 8 "drop_bit 23 (ucast f :: u64)"]
    by (simp add: unat_drop_bit_div u mask_eq_exp_minus_1)
  also have "\<dots> = unat f mod 2 ^ 31 div 2 ^ 23"
    using div_exp_mod_exp_eq [of "unat f" 23 8] by simp
  finally show "unat (drop_bit 23 (ucast f :: u64) AND 255) = unat f mod 2 ^ 31 div 2 ^ 23" .
  show "unat (ucast f AND (8388607 :: u64)) = unat f mod 2 ^ 31 mod 2 ^ 23"
    using and_all_ones [of 8388607 23 "ucast f :: u64"]
    by (simp add: u mask_eq_exp_minus_1 mod_mod_cancel)
qed

lemma unat_double_fields:
  assumes "s < 2" and "0 \<le> x" "x < 2 ^ 11" and "unat f < 2 ^ 23" and u: "unat sw = s"
  shows "unat (push_bit 63 sw OR push_bit 52 (word_of_int x) OR push_bit 29 f :: u64)
    = s * 2 ^ 63 + (nat x * 2 ^ 52 + unat f * 2 ^ 29)"
proof -
  have f: "unat (push_bit 29 f) = unat f * 2 ^ 29" using assms(4) by (intro unat_push_bit_less) simp
  then have r: "unat (push_bit 52 (word_of_int x) OR push_bit 29 f) = nat x * 2 ^ 52 + unat f * 2 ^ 29"
    using unat_field_or [OF assms(2,3), of "push_bit 29 f"] assms(4) by simp
  have "nat x * 2 ^ 52 + unat f * 2 ^ 29 < 2 ^ 63" using assms(2-4) by (simp add: nat_less_iff)
  moreover have "unat (push_bit 63 sw) = s * 2 ^ 63" using assms(1) u by (intro trans [OF unat_push_bit_less]) simp_all
  ultimately show ?thesis
    using unat_or_disjoint [of 63 "push_bit 63 sw" "push_bit 52 (word_of_int x) OR push_bit 29 f"] r
    by (simp add: or.assoc)
qed

end
