(* ===== verification/SoftFloatProps.thy ===== *)
theory SoftFloatProps
  imports SoftFloatConv
begin

text \<open>
  The contract of the soft-float library, one theorem per operation, with concrete instances.
  Finite operands: \<open>rounds\<close>, the unique double nearest to the exact real result, ties to even.
  Special operands: the table of IEEE 754.
\<close>

section \<open>Widening a float\<close>

lemma sf_from_f32_finite:
  assumes f: "ffinite f"
  shows "unat (sf_from_f32 f) div 2 ^ 63 = unat f div 2 ^ 31"
    and "dmag (sf_from_f32 f) = fmag f * 2 ^ 925" and "dfinite (sf_from_f32 f)"
proof -
  define P where "P = unat f mod 2 ^ 31"
  define ex where "ex = (drop_bit 23 (ucast f) AND 255 :: u64)"
  define mant where "mant = (ucast f AND 8388607 :: u64)"
  define sign where "sign = (drop_bit 31 (ucast f) :: u64)"
  have ue: "unat ex = P div 2 ^ 23" and um: "unat mant = P mod 2 ^ 23"
    and us: "unat sign = unat f div 2 ^ 31"
    unfolding ex_def mant_def sign_def P_def by (rule f32_fields)+
  have s2: "unat f div 2 ^ 31 < 2" using u32_bound [of f] by (simp add: less_mult_imp_div_less)
  have eb: "unat ex < 255"
  proof -
    have "P < 2 ^ 31" by (simp add: P_def)
    then have "P div 2 ^ 23 < 256" by (simp add: less_mult_imp_div_less)
    then show ?thesis using f by (simp add: ue ffinite_def P_def)
  qed
  have mb: "unat mant < 2 ^ 23" by (simp add: um)
  have def1: "sf_from_f32 f =
     (if ex = 0
      then (if mant = 0 then (if sign \<noteq> 0 then 0x8000000000000000 else 0)
            else (let (e, mant) = sf_f32_norm (-126) mant; mant = mant AND 8388607
                  in push_bit 63 sign OR push_bit 52 (word_of_int (e + 1023)) OR push_bit 29 mant))
      else push_bit 63 sign OR push_bit 52 (ex - 127 + 1023) OR push_bit 29 mant)"
  proof -
    have "ex \<noteq> 255" using eb by auto
    then show ?thesis unfolding sf_from_f32_def ex_def [symmetric] mant_def [symmetric] sign_def [symmetric] Let_def
      by simp
  qed
  have fm: "fmag f = (if unat ex = 0 then unat mant else (2 ^ 23 + unat mant) * 2 ^ (unat ex - 1))"
    by (simp add: fmag_def mag_def ue um P_def)
  have main: "unat (sf_from_f32 f) = unat f div 2 ^ 31 * 2 ^ 63 + p \<Longrightarrow> p < 2047 * 2 ^ 52 \<Longrightarrow>
      mag 52 p = fmag f * 2 ^ 925 \<Longrightarrow>
      unat (sf_from_f32 f) div 2 ^ 63 = unat f div 2 ^ 31 \<and> dmag (sf_from_f32 f) = fmag f * 2 ^ 925 \<and>
      dfinite (sf_from_f32 f)" for p
  proof -
    assume u: "unat (sf_from_f32 f) = unat f div 2 ^ 31 * 2 ^ 63 + p" and p: "p < 2047 * 2 ^ 52"
      and m: "mag 52 p = fmag f * 2 ^ 925"
    have "p div 2 ^ 52 < 2047" using p by (rule less_mult_imp_div_less)
    then show ?thesis using u p m by (simp add: dmag_def dfinite_def sf_exp_nat)
  qed
  have "\<exists>p. unat (sf_from_f32 f) = unat f div 2 ^ 31 * 2 ^ 63 + p \<and> p < 2047 * 2 ^ 52 \<and>
      mag 52 p = fmag f * 2 ^ 925"
  proof (cases "ex = 0")
    case False
    then have ex0: "0 < unat ex" by (simp add: unat_gt_0)
    have x: "ex - 127 + 1023 = word_of_int (int (unat ex) + 896)"
      by (simp add: uint_nat [symmetric] word_of_int_uint)
    have "unat (sf_from_f32 f) = unat f div 2 ^ 31 * 2 ^ 63
        + (nat (int (unat ex) + 896) * 2 ^ 52 + unat mant * 2 ^ 29)"
      unfolding def1 x using False eb mb us s2 by (simp only: if_False unat_double_fields) (rule unat_double_fields; simp)
    moreover have "nat (int (unat ex) + 896) = unat ex + 895 + 1" by simp
    ultimately have u: "unat (sf_from_f32 f) = unat f div 2 ^ 31 * 2 ^ 63
        + ((unat ex + 895) * 2 ^ 52 + (2 ^ 23 + unat mant) * 2 ^ 29)"
      by (simp add: algebra_simps)
    have "mag 52 ((unat ex + 895) * 2 ^ 52 + (2 ^ 23 + unat mant) * 2 ^ 29) =
        (2 ^ 23 + unat mant) * 2 ^ 29 * 2 ^ (unat ex + 895)"
      using mb by (intro mag_enc) simp_all
    also have "\<dots> = (2 ^ 23 + unat mant) * 2 ^ (unat ex - 1) * 2 ^ 925"
    proof -
      have "29 + (unat ex + 895) = unat ex - 1 + 925" using ex0 by simp
      then show ?thesis by (simp only: mult.assoc power_add [symmetric])
    qed
    also have "\<dots> = fmag f * 2 ^ 925" using ex0 by (simp only: fm) simp
    finally show ?thesis using u eb mb by (intro exI [of _ "(unat ex + 895) * 2 ^ 52 + (2 ^ 23 + unat mant) * 2 ^ 29"]) simp
  next
    case True
    then have fm0: "fmag f = unat mant" by (simp add: fm)
    show ?thesis
    proof (cases "mant = 0")
      case m0: True
      then have "unat (sf_from_f32 f) = unat f div 2 ^ 31 * 2 ^ 63"
        using True s2 us by (auto simp: def1 unat_eq_0 [symmetric] dest: less_2_cases)
      then show ?thesis using fm0 m0 by (intro exI [of _ 0]) simp
    next
      case nz: False
      obtain e' m' where nm: "sf_f32_norm (-126) mant = (e', m')" by fastforce
      have "0 < unat mant" "unat mant < 2 ^ 24" using nz mb by (simp_all add: unat_gt_0)
      from sf_f32_norm_scale [OF nm this] obtain l where
        l: "unat m' = unat mant * 2 ^ l" "e' = -126 - int l" "2 ^ 23 \<le> unat m'" "unat m' < 2 ^ 24" by blast
      have "l < 24"
      proof -
        have "1 * 2 ^ l \<le> unat mant * 2 ^ l" using nz by (intro mult_le_mono1) (simp add: unat_gt_0 Suc_leI)
        then show ?thesis using l(1,4) pow2_bracket [of l "unat m'" 24] by simp
      qed
      have mk: "(8388607 :: u64) = mask 23" by (simp add: mask_eq_exp_minus_1)
      have um': "unat (m' AND 8388607) = unat m' - 2 ^ 23"
        using l(3,4) by (simp add: mk unat_and_mask_mod mod_if)
      have eq: "sf_from_f32 f =
          push_bit 63 sign OR push_bit 52 (word_of_int (e' + 1023)) OR push_bit 29 (m' AND 8388607)"
        unfolding def1 using True nz by (simp only: nm if_True if_False Let_def prod.case simp_thms)
      have "unat (sf_from_f32 f) = unat f div 2 ^ 31 * 2 ^ 63
        + (nat (e' + 1023) * 2 ^ 52 + unat (m' AND 8388607) * 2 ^ 29)"
        unfolding eq using l(2-4) \<open>l < 24\<close> by (intro unat_double_fields us s2) (auto simp: um')
      moreover have "nat (e' + 1023) = 896 - l + 1" using l(2) \<open>l < 24\<close> by simp
      ultimately have u: "unat (sf_from_f32 f) = unat f div 2 ^ 31 * 2 ^ 63
        + ((896 - l) * 2 ^ 52 + unat m' * 2 ^ 29)"
        using l(3) by (simp add: um' algebra_simps)
      have "mag 52 ((896 - l) * 2 ^ 52 + unat m' * 2 ^ 29) = unat m' * 2 ^ 29 * 2 ^ (896 - l)"
        using l(3,4) by (intro mag_enc) simp_all
      also have "\<dots> = unat mant * 2 ^ 925"
      proof -
        have "l + (29 + (896 - l)) = 925" using \<open>l < 24\<close> by simp
        then show ?thesis by (simp only: l(1) mult.assoc power_add [symmetric] add.assoc)
      qed
      finally show ?thesis using u fm0 l(4) by (intro exI [of _ "(896 - l) * 2 ^ 52 + unat m' * 2 ^ 29"]) simp
    qed
  qed
  then show "unat (sf_from_f32 f) div 2 ^ 63 = unat f div 2 ^ 31" "dmag (sf_from_f32 f) = fmag f * 2 ^ 925"
    "dfinite (sf_from_f32 f)" using main by blast+
qed

lemma sf_sign_div: "sf_sign a \<longleftrightarrow> unat a div 2 ^ 63 \<noteq> 0"
  by (simp add: sf_sign_def unat_eq_0 [symmetric] unat_drop_bit_div)

lemma fsign_div: "fsign f \<longleftrightarrow> unat f div 2 ^ 31 \<noteq> 0"
  by (simp add: fsign_def div_eq_0_iff not_less)

lemma rounds32_unique: "rounds32 s x r \<Longrightarrow> rounds32 s x r' \<Longrightarrow> r = r'"
proof -
  assume a: "rounds32 s x r" "rounds32 s x r'"
  then have "unat r mod 2 ^ 31 = unat r' mod 2 ^ 31"
    unfolding rounds32_def by (blast intro: rne_unique)
  moreover have "unat r div 2 ^ 31 = unat r' div 2 ^ 31"
  proof -
    have "unat w div 2 ^ 31 < 2" for w :: u32 using u32_bound [of w] by (simp add: less_mult_imp_div_less)
    moreover have "(unat r div 2 ^ 31 \<noteq> 0) = (unat r' div 2 ^ 31 \<noteq> 0)"
      using a by (simp add: rounds32_def fsign_div)
    ultimately show ?thesis by (metis less_2_cases)
  qed
  ultimately have "unat r = unat r'" by (metis div_mult_mod_eq)
  then show ?thesis by (simp add: word_unat_eq_iff)
qed

lemma rounds32_self: "ffinite f \<Longrightarrow> rounds32 (fsign f) (real (fmag f)) f"
proof -
  assume f: "ffinite f"
  define P where "P = unat f mod 2 ^ 31"
  have "P < 256 * 2 ^ 23" by (simp add: P_def)
  then have "P div 2 ^ 23 < 256" by (rule less_mult_imp_div_less)
  moreover have "P div 2 ^ 23 \<noteq> 255" using f by (simp add: ffinite_def P_def)
  ultimately have "P div 2 ^ 23 < 255" by linarith
  then have "P \<le> 255 * 2 ^ 23" by (simp add: div_less_iff_less_mult)
  then show ?thesis unfolding rounds32_def fmag_def P_def [symmetric] by (simp only: rne_exact simp_thms)
qed

section \<open>Not a number\<close>

lemma isnan_nat: "sf_isnan a \<longleftrightarrow> 2047 * 2 ^ 52 < unat a mod 2 ^ 63"
proof -
  define P where "P = unat a mod 2 ^ 63"
  define q r where "q = P div 2 ^ 52" and "r = P mod 2 ^ 52"
  have "P < 2048 * 2 ^ 52" by (simp add: P_def)
  then have "q < 2048" unfolding q_def by (rule less_mult_imp_div_less)
  moreover have "r < 2 ^ 52" by (simp add: r_def)
  moreover have "P = q * 2 ^ 52 + r" by (simp only: q_def r_def div_mult_mod_eq)
  ultimately have "2047 * 2 ^ 52 < P \<longleftrightarrow> q = 2047 \<and> r \<noteq> 0" by auto
  moreover have "sf_isnan a \<longleftrightarrow> q = 2047 \<and> r \<noteq> 0"
    using sf_exp_nat [of a] sf_mant_nat [of a] unfolding P_def [symmetric] q_def [symmetric] r_def [symmetric]
    by (simp add: sf_isnan_def unat_eq_0 [symmetric])
  ultimately show ?thesis by (simp only: P_def)
qed

lemma rounds_not_nan: "rounds s x r \<Longrightarrow> \<not> sf_isnan r"
  by (simp add: rounds_def rne_def isnan_nat)

lemma special_not_nan: "\<not> sf_isnan 0" "\<not> sf_isnan SIGNBIT" "\<not> sf_isnan sf_inf" "\<not> sf_isnan (SIGNBIT OR sf_inf)"
  "sf_isnan sf_nan"
  by (simp_all add: isnan_nat)

lemma isnan_neg: "sf_isnan (sf_neg a) \<longleftrightarrow> sf_isnan a" "sf_isinf (sf_neg a) \<longleftrightarrow> sf_isinf a"
  "sf_iszero (sf_neg a) \<longleftrightarrow> sf_iszero a"
proof -
  show "sf_isnan (sf_neg a) \<longleftrightarrow> sf_isnan a" "sf_iszero (sf_neg a) \<longleftrightarrow> sf_iszero a"
    by (simp_all only: isnan_nat sf_iszero_nat sf_neg_nat)
  then show "sf_isinf (sf_neg a) \<longleftrightarrow> sf_isinf a" using sf_neg_value(2) [of a] dfinite_iff by (auto simp: sf_isinf_def sf_isnan_def)
qed

lemma sf_add_nan_iff:
  "sf_isnan (sf_add a b) \<longleftrightarrow>
     sf_isnan a \<or> sf_isnan b \<or> (sf_isinf a \<and> sf_isinf b \<and> sf_sign a \<noteq> sf_sign b)"
proof (cases "dfinite a \<and> dfinite b")
  case True
  then have "\<not> sf_isnan (sf_add a b)"
    using sf_add_correct [of a b] rounds_not_nan special_not_nan by (auto split: if_splits)
  then show ?thesis using True by (auto simp: dfinite_iff)
next
  case False
  then show ?thesis using special_not_nan by (auto simp: sf_add_def dfinite_iff)
qed

lemma sf_mul_nan_iff:
  "sf_isnan (sf_mul a b) \<longleftrightarrow>
     sf_isnan a \<or> sf_isnan b \<or> (sf_isinf a \<and> sf_iszero b) \<or> (sf_iszero a \<and> sf_isinf b)"
proof (cases "dfinite a \<and> dfinite b")
  case True
  then have "\<not> sf_isnan (sf_mul a b)" using sf_mul_correct [of a b] rounds_not_nan by blast
  then show ?thesis using True by (auto simp: dfinite_iff)
next
  case False
  moreover have "\<not> (sf_isinf x \<and> sf_iszero x)" for x by (auto simp: sf_isinf_def sf_iszero_nat sf_exp_nat)
  ultimately show ?thesis using special_not_nan by (auto simp: sf_mul_def Let_def dfinite_iff)
qed

lemma sf_div_nan_iff:
  "sf_isnan (sf_div a b) \<longleftrightarrow>
     sf_isnan a \<or> sf_isnan b \<or> (sf_isinf a \<and> sf_isinf b) \<or> (sf_iszero a \<and> sf_iszero b)"
proof (cases "dfinite a \<and> dfinite b \<and> dval b \<noteq> 0")
  case True
  then have "\<not> sf_isnan (sf_div a b)" using sf_div_correct [of a b] rounds_not_nan by blast
  then show ?thesis using True by (auto simp: dfinite_iff dval_zero_iff)
next
  case False
  moreover have "\<not> (sf_isinf x \<and> sf_iszero x)" for x by (auto simp: sf_isinf_def sf_iszero_nat sf_exp_nat)
  ultimately show ?thesis using special_not_nan by (auto simp: sf_div_def Let_def dfinite_iff dval_zero_iff)
qed

section \<open>The contract\<close>

text \<open>
  C1. The sum of two finite doubles is the exact sum, correctly rounded (to nearest, ties to
  even, gradual underflow and overflow to infinity included); an exact zero is \<open>+0\<close> unless
  both operands are negative.
\<close>

theorem sf_add_rounds:
  assumes "dfinite a" and "dfinite b"
  shows "if dval a + dval b = 0 then sf_add a b = (if sf_sign a \<and> sf_sign b then SIGNBIT else 0)
         else rounds (dval a + dval b < 0) \<bar>dval a + dval b\<bar> (sf_add a b)"
  using assms by (rule sf_add_correct)

theorem sf_add_rounds_witness:
  "dfinite 0x3ff0000000000000 \<and> dfinite 0x3fd5555555555555 \<and>
   (if dval 0x3ff0000000000000 + dval 0x3fd5555555555555 = 0
    then sf_add 0x3ff0000000000000 0x3fd5555555555555 =
      (if sf_sign 0x3ff0000000000000 \<and> sf_sign 0x3fd5555555555555 then SIGNBIT else 0)
    else rounds (dval 0x3ff0000000000000 + dval 0x3fd5555555555555 < 0)
      \<bar>dval 0x3ff0000000000000 + dval 0x3fd5555555555555\<bar>
      (sf_add 0x3ff0000000000000 0x3fd5555555555555))"
proof -
  have "dfinite 0x3ff0000000000000" "dfinite 0x3fd5555555555555"
    by (simp_all add: dfinite_def sf_exp_def)
  then show ?thesis using sf_add_rounds by blast
qed

text \<open>
  The difference of two finite doubles is the exact difference, correctly rounded; an exact
  zero is \<open>+0\<close> except for \<open>-0 - +0\<close>.
\<close>

lemma sf_sub_rounds:
  assumes "dfinite a" and "dfinite b"
  shows "if dval a - dval b = 0 then sf_sub a b = (if sf_sign a \<and> \<not> sf_sign b then SIGNBIT else 0)
         else rounds (dval a - dval b < 0) \<bar>dval a - dval b\<bar> (sf_sub a b)"
  using sf_add_correct [OF assms(1), of "sf_neg b"] assms(2)
  by (simp only: sf_sub_def sf_neg_value sf_neg_nat diff_conv_add_uminus simp_thms True_implies_equals)

theorem sf_sub_rounds_witness:
  "dfinite 0x3ff0000000000000 \<and> dfinite 0x3fefffffffffffff \<and>
   (if dval 0x3ff0000000000000 - dval 0x3fefffffffffffff = 0
    then sf_sub 0x3ff0000000000000 0x3fefffffffffffff =
      (if sf_sign 0x3ff0000000000000 \<and> \<not> sf_sign 0x3fefffffffffffff then SIGNBIT else 0)
    else rounds (dval 0x3ff0000000000000 - dval 0x3fefffffffffffff < 0)
      \<bar>dval 0x3ff0000000000000 - dval 0x3fefffffffffffff\<bar>
      (sf_sub 0x3ff0000000000000 0x3fefffffffffffff))"
proof -
  have "dfinite 0x3ff0000000000000" "dfinite 0x3fefffffffffffff"
    by (simp_all add: dfinite_def sf_exp_def)
  then show ?thesis using sf_sub_rounds by blast
qed

text \<open>
  C2. The product of two finite doubles is the exact product, correctly rounded, with the
  exclusive or of the signs (a zero product included). \<open>dval\<close> counts units of \<open>2 powi -1074\<close>,
  hence the factor.
\<close>

theorem sf_mul_rounds:
  assumes "dfinite a" and "dfinite b"
  shows "rounds (sf_sign a \<noteq> sf_sign b) (\<bar>dval a * dval b\<bar> * 2 powi (-1074)) (sf_mul a b)"
  using assms by (rule sf_mul_correct)

theorem sf_mul_rounds_witness:
  "dfinite 0x3fb999999999999a \<and> dfinite 0xc024000000000000 \<and>
   rounds (sf_sign 0x3fb999999999999a \<noteq> sf_sign 0xc024000000000000)
     (\<bar>dval 0x3fb999999999999a * dval 0xc024000000000000\<bar> * 2 powi (-1074))
     (sf_mul 0x3fb999999999999a 0xc024000000000000)"
proof -
  have "dfinite 0x3fb999999999999a" "dfinite 0xc024000000000000"
    by (simp_all add: dfinite_def sf_exp_def)
  then show ?thesis using sf_mul_rounds by blast
qed

text \<open>
  C3. The quotient of two finite doubles, the divisor not zero, is the exact quotient, correctly
  rounded, with the exclusive or of the signs.
\<close>

theorem sf_div_rounds:
  assumes "dfinite a" and "dfinite b" and "dval b \<noteq> 0"
  shows "rounds (sf_sign a \<noteq> sf_sign b) (\<bar>dval a / dval b\<bar> * 2 powi 1074) (sf_div a b)"
  using assms by (rule sf_div_correct)

theorem sf_div_rounds_witness:
  "dfinite 0x3ff0000000000000 \<and> dfinite 0x4008000000000000 \<and> dval 0x4008000000000000 \<noteq> 0 \<and>
   rounds (sf_sign 0x3ff0000000000000 \<noteq> sf_sign 0x4008000000000000)
     (\<bar>dval 0x3ff0000000000000 / dval 0x4008000000000000\<bar> * 2 powi 1074)
     (sf_div 0x3ff0000000000000 0x4008000000000000)"
proof -
  have "dfinite 0x3ff0000000000000" "dfinite 0x4008000000000000" "dval 0x4008000000000000 \<noteq> 0"
    by (simp_all add: dfinite_def sf_exp_def dval_zero_iff sf_iszero_def)
  then show ?thesis using sf_div_rounds by blast
qed

text \<open>
  C8. An operation returns NaN exactly when IEEE 754 says so: on a NaN operand, on the sum of
  opposite infinities, on zero times infinity, on zero by zero and on infinity by infinity.
  No finite computation makes a NaN.
\<close>

theorem sf_nan_iff:
  "(sf_isnan (sf_add a b) \<longleftrightarrow>
      sf_isnan a \<or> sf_isnan b \<or> (sf_isinf a \<and> sf_isinf b \<and> sf_sign a \<noteq> sf_sign b)) \<and>
   (sf_isnan (sf_sub a b) \<longleftrightarrow>
      sf_isnan a \<or> sf_isnan b \<or> (sf_isinf a \<and> sf_isinf b \<and> sf_sign a = sf_sign b)) \<and>
   (sf_isnan (sf_mul a b) \<longleftrightarrow>
      sf_isnan a \<or> sf_isnan b \<or> (sf_isinf a \<and> sf_iszero b) \<or> (sf_iszero a \<and> sf_isinf b)) \<and>
   (sf_isnan (sf_div a b) \<longleftrightarrow>
      sf_isnan a \<or> sf_isnan b \<or> (sf_isinf a \<and> sf_isinf b) \<or> (sf_iszero a \<and> sf_iszero b))"
  using sf_add_nan_iff [of a "sf_neg b"]
  by (simp add: sf_add_nan_iff sf_mul_nan_iff sf_div_nan_iff sf_sub_def isnan_neg sf_neg_nat)

text \<open>
  C6. The conversion of a 64-bit integer, signed or unsigned, is correctly rounded.
\<close>

theorem sf_from_int_rounds:
  "if v = 0 then sf_from_int v is_unsigned = 0
   else rounds (\<not> is_unsigned \<and> sint v < 0)
      (\<bar>if is_unsigned then real (unat v) else real_of_int (sint v)\<bar> * 2 powi 1074)
      (sf_from_int v is_unsigned)"
  by (rule sf_from_int_correct)

text \<open>
  C7. The conversion to an integer cuts towards zero, for every finite double whose integral part
  the integer type holds: from \<open>- 2 ^ 63\<close> to \<open>2 ^ 63 - 1\<close> for the signed result, and from 0 (so
  from above \<open>- 1\<close>) to \<open>2 ^ 64 - 1\<close> for the unsigned one (\<open>dreal\<close> is the real number a double
  stands for, \<open>cut\<close> its integral part).
\<close>

theorem sf_to_int_truncates:
  assumes "dfinite a"
  shows "(- (2 ^ 63) \<le> cut (dreal a) \<and> cut (dreal a) < 2 ^ 63 \<longrightarrow>
      sint (sf_to_int a False) = cut (dreal a)) \<and>
    (0 \<le> cut (dreal a) \<and> cut (dreal a) < 2 ^ 64 \<longrightarrow>
      uint (sf_to_int a True) = cut (dreal a))"
  using sf_to_int_signed [OF assms] sf_to_int_unsigned [OF assms] by blast

theorem sf_to_int_truncates_witness:
  "dfinite 0xc3e0000000000000 \<and> cut (dreal 0xc3e0000000000000) = - (2 ^ 63) \<and>
   sint (sf_to_int 0xc3e0000000000000 False) = cut (dreal 0xc3e0000000000000)"
proof -
  have f: "dfinite 0xc3e0000000000000" by (simp add: dfinite_def sf_exp_def)
  have m: "dmag 0xc3e0000000000000 = 2 ^ 1137" by (simp add: dmag_def mag_def)
  have "\<bar>dreal 0xc3e0000000000000\<bar> = real (2 ^ 1137) * (1 / 2 ^ 1074)"
    by (simp only: dreal_abs powi_minus_1074 m)
  also have "\<dots> = real_of_int (2 ^ 63)" by simp
  finally have "cut (dreal 0xc3e0000000000000) = - (2 ^ 63)"
    by (simp only: cut_signed floor_of_int) (simp add: sf_sign_def)
  then show ?thesis using f sf_to_int_truncates [OF f] by simp
qed

text \<open>
  C4. Narrowing a finite double to single precision is correctly rounded, into the subnormal
  floats and up to infinity included.
\<close>

theorem sf_to_f32_rounds:
  assumes "dfinite b"
  shows "rounds32 (sf_sign b) (real (dmag b) / 2 ^ 925) (sf_to_f32 b)"
  using assms by (rule sf_to_f32_correct)

theorem sf_to_f32_rounds_witness:
  "dfinite 0x3fb999999999999a \<and>
   rounds32 (sf_sign 0x3fb999999999999a) (real (dmag 0x3fb999999999999a) / 2 ^ 925)
     (sf_to_f32 0x3fb999999999999a)"
proof -
  have "dfinite 0x3fb999999999999a" by (simp add: dfinite_def sf_exp_def)
  then show ?thesis using sf_to_f32_rounds by blast
qed

text \<open>
  C5. Widening a finite float keeps sign and value, and narrowing the result gives the float
  back, bit for bit.
\<close>

theorem sf_f32_roundtrip:
  assumes f: "ffinite f"
  shows "sf_sign (sf_from_f32 f) = fsign f \<and> dmag (sf_from_f32 f) = fmag f * 2 ^ 925 \<and>
    sf_to_f32 (sf_from_f32 f) = f"
proof -
  note w = sf_from_f32_finite [OF f]
  have s: "sf_sign (sf_from_f32 f) = fsign f" by (simp only: sf_sign_div fsign_div w(1))
  have "real (dmag (sf_from_f32 f)) / 2 ^ 925 = real (fmag f)" unfolding w(2) by simp
  then have r: "rounds32 (fsign f) (real (fmag f)) (sf_to_f32 (sf_from_f32 f))"
    using sf_to_f32_correct [OF w(3)] by (simp only: s)
  have "rounds32 (fsign f) (real (fmag f)) f" using f by (rule rounds32_self)
  then show ?thesis using s w(2) rounds32_unique [OF r] by simp
qed

theorem sf_f32_roundtrip_witness:
  "ffinite 0x00000003 \<and> sf_sign (sf_from_f32 0x00000003) = fsign 0x00000003 \<and>
   dmag (sf_from_f32 0x00000003) = fmag 0x00000003 * 2 ^ 925 \<and>
   sf_to_f32 (sf_from_f32 0x00000003) = 0x00000003"
proof -
  have "ffinite 0x00000003" by (simp add: ffinite_def)
  then show ?thesis using sf_f32_roundtrip by blast
qed

end
