(* ===== verification/Strtod.thy ===== *)
theory Strtod
  imports Prelude
begin

text \<open>
  \<open>strtod\<close> of the C library (\<^verbatim>\<open>stages/3-micro-c/micro-c-libc/impl/runtime.c\<close>): the text of a
  floating literal to the pattern of the nearest double, in integer arithmetic. A decimal literal
  is a quotient of two big numbers, arrays of \<open>NLIMB\<close> limbs of 32 bits; a store outside an array is
  an error. A big number is its array and the number of its limbs. A pointer into the text is what
  is left of it, and \<open>end\<close> is returned with the pattern. Counters of type \<open>int\<close> are integers, which
  is exact for texts shorter than \<open>2 ^ 31\<close> characters.
\<close>

section \<open>Big numbers\<close>

definition NLIMB :: nat where "NLIMB = 160"
definition NDIG :: nat where "NDIG = 800"

datatype strtod_error = Out_Of_Bounds

type_synonym big = "u32 list \<times> nat"

definition put :: "u32 list \<Rightarrow> nat \<Rightarrow> u32 \<Rightarrow> strtod_error + u32 list" where
  "put a i v = (if i < length a then Inr (a[i := v]) else Inl Out_Of_Bounds)"

text \<open>The loop that drops the zero limbs at the top.\<close>

fun trim :: "u32 list \<Rightarrow> nat \<Rightarrow> nat" where
  "trim a n = (if 1 < n \<and> a ! (n - 1) = 0 then trim a (n - 1) else n)"

declare trim.simps [simp del]

definition bset :: "u64 \<Rightarrow> big" where
  "bset v =
    (let a = replicate NLIMB 0;
         a = a[0 := ucast (v AND 0xffffffff)];
         a = a[1 := ucast (drop_bit 32 v AND 0xffffffff)]
     in (a, trim a 2))"

text \<open>The loop of \<open>bmul\<close> over the limbs, and the one that stores what is carried out of the last.\<close>

fun bmul_loop :: "u64 \<Rightarrow> u64 \<Rightarrow> u32 list \<Rightarrow> u32 list \<times> u64" where
  "bmul_loop m carry [] = ([], carry)"
| "bmul_loop m carry (x # a) =
    (let cur = ucast x * m + carry;
         (a, carry) = bmul_loop m (drop_bit 32 cur) a
     in (ucast (cur AND 0xffffffff) # a, carry))"

lemma drop_bit_32_less: "(w :: u64) \<noteq> 0 \<Longrightarrow> unat (drop_bit 32 w) < unat w"
  by (simp add: unat_drop_bit_div unat_eq_0 div_less_dividend unat_gt_0)

function bmul_carry :: "u32 list \<Rightarrow> nat \<Rightarrow> nat \<Rightarrow> u64 \<Rightarrow> strtod_error + big" where
  "bmul_carry a i n carry =
    (if carry \<noteq> 0
     then bindE (put a i (ucast (carry AND 0xffffffff))) (\<lambda>a. bmul_carry a (i + 1) (i + 1) (drop_bit 32 carry))
     else Inr (a, n))"
  by pat_completeness auto
termination
  by (relation "measure (\<lambda>(a, i, n, carry). unat carry)") (simp_all add: drop_bit_32_less)

declare bmul_carry.simps [simp del]

definition bmul :: "big \<Rightarrow> u64 \<Rightarrow> strtod_error + big" where
  "bmul b m =
    (case b of (a, n) \<Rightarrow>
       let (lo, carry) = bmul_loop m 0 (take n a) in bmul_carry (lo @ drop n a) n n carry)"

function badd_loop :: "u32 list \<Rightarrow> nat \<Rightarrow> nat \<Rightarrow> u64 \<Rightarrow> strtod_error + big" where
  "badd_loop a i n carry =
    (if carry \<noteq> 0
     then bindE (if i \<ge> n then map_sum id (\<lambda>a. (a, i + 1)) (put a i 0) else Inr (a, n)) (\<lambda>(a, n).
          let cur = ucast (a ! i) + carry
          in bindE (put a i (ucast (cur AND 0xffffffff))) (\<lambda>a. badd_loop a (i + 1) n (drop_bit 32 cur)))
     else Inr (a, n))"
  by pat_completeness auto
termination
  by (relation "measure (\<lambda>(a, i, n, carry). length a - i)")
    (auto simp: put_def split: if_splits)

declare badd_loop.simps [simp del]

definition badd :: "big \<Rightarrow> u64 \<Rightarrow> strtod_error + big" where
  "badd b v = (case b of (a, n) \<Rightarrow> badd_loop a 0 n v)"

text \<open>\<open>bshl\<close> moves whole limbs up, the highest first, and then shifts the rest of the way.\<close>

fun move_up :: "nat \<Rightarrow> nat \<Rightarrow> u32 list \<Rightarrow> strtod_error + u32 list" where
  "move_up words 0 a = Inr a"
| "move_up words (Suc i) a = bindE (put a (i + words) (a ! i)) (move_up words i)"

fun clear_low :: "nat \<Rightarrow> nat \<Rightarrow> u32 list \<Rightarrow> strtod_error + u32 list" where
  "clear_low i 0 a = Inr a"
| "clear_low i (Suc k) a = bindE (put a i 0) (clear_low (i + 1) k)"

fun bshl_loop :: "nat \<Rightarrow> u64 \<Rightarrow> u32 list \<Rightarrow> u32 list \<times> u64" where
  "bshl_loop bits carry [] = ([], carry)"
| "bshl_loop bits carry (x # a) =
    (let cur = push_bit bits (ucast x) OR carry;
         (a, carry) = bshl_loop bits (drop_bit 32 cur) a
     in (ucast (cur AND 0xffffffff) # a, carry))"

definition bshl :: "big \<Rightarrow> nat \<Rightarrow> strtod_error + big" where
  "bshl b k =
    (case b of (a, n) \<Rightarrow>
       let words = k div 32; bits = k mod 32
       in bindE (if words > 0
                 then bindE (move_up words n a) (\<lambda>a. bindE (clear_low 0 words a) (\<lambda>a. Inr (a, n + words)))
                 else Inr (a, n)) (\<lambda>(a, n).
          if bits > 0
          then (let (lo, carry) = bshl_loop bits 0 (take n a); a = lo @ drop n a
                in if carry \<noteq> 0 then map_sum id (\<lambda>a. (a, n + 1)) (put a n (ucast carry)) else Inr (a, n))
          else Inr (a, n)))"

text \<open>The highest limb that is not zero, and the number of its bits.\<close>

fun top_limb :: "u32 list \<Rightarrow> nat \<Rightarrow> nat" where
  "top_limb a i = (if i > 0 \<and> a ! i = 0 then top_limb a (i - 1) else i)"

declare top_limb.simps [simp del]

lemma drop_bit_1_less: "(w :: 'a :: len word) \<noteq> 0 \<Longrightarrow> unat (drop_bit 1 w) < unat w"
  by (simp add: unat_drop_bit_div unat_eq_0 div_less_dividend unat_gt_0)

function count_bits :: "u64 \<Rightarrow> nat \<Rightarrow> nat" where
  "count_bits t b = (if t \<noteq> 0 then count_bits (drop_bit 1 t) (b + 1) else b)"
  by pat_completeness auto
termination
  by (relation "measure (\<lambda>(t, b). unat t)") (simp_all add: drop_bit_1_less [unfolded One_nat_def])

declare count_bits.simps [simp del]

definition bbits :: "big \<Rightarrow> nat" where
  "bbits b =
    (case b of (a, n) \<Rightarrow>
       let i = top_limb a (n - 1) in if a ! i = 0 then 0 else i * 32 + count_bits (ucast (a ! i)) 0)"

fun bcmp_loop :: "big \<Rightarrow> big \<Rightarrow> nat \<Rightarrow> int" where
  "bcmp_loop a b 0 = 0"
| "bcmp_loop a b (Suc i) =
    (let x = (if i < snd a then fst a ! i else 0); y = (if i < snd b then fst b ! i else 0)
     in if x \<noteq> y then (if x > y then 1 else - 1) else bcmp_loop a b i)"

definition bcmp :: "big \<Rightarrow> big \<Rightarrow> int" where
  "bcmp a b = bcmp_loop a b NLIMB"

fun bsub_loop :: "big \<Rightarrow> nat \<Rightarrow> u64 \<Rightarrow> u32 list \<Rightarrow> u32 list" where
  "bsub_loop b i borrow [] = []"
| "bsub_loop b i borrow (x # a) =
    (let x = ucast x :: u64;
         y = (if i < snd b then ucast (fst b ! i) else 0) + borrow
     in if x \<ge> y then ucast (x - y) # bsub_loop b (i + 1) 0 a
        else ucast (x + 0x100000000 - y) # bsub_loop b (i + 1) 1 a)"

definition bsub :: "big \<Rightarrow> big \<Rightarrow> big" where
  "bsub a b = (let d = bsub_loop b 0 0 (fst a) in (d, trim d (snd a)))"

definition bzero :: "big \<Rightarrow> bool" where
  "bzero b = list_all (\<lambda>x. x = 0) (take (snd b) (fst b))"

definition bit_at :: "u32 list \<Rightarrow> nat \<Rightarrow> u32" where
  "bit_at a i = drop_bit (i mod 32) (a ! (i div 32)) AND 1"

text \<open>The bits below \<open>i\<close> down to \<open>lo\<close>, shifted into \<open>v\<close>; and whether any bit below \<open>i\<close> is set.\<close>

fun top_bits :: "u32 list \<Rightarrow> nat \<Rightarrow> nat \<Rightarrow> u64 \<Rightarrow> u64" where
  "top_bits a lo 0 v = v"
| "top_bits a lo (Suc i) v = (if i \<ge> lo then top_bits a lo i (push_bit 1 v OR ucast (bit_at a i)) else v)"

fun any_bit :: "u32 list \<Rightarrow> nat \<Rightarrow> bool" where
  "any_bit a 0 = False"
| "any_bit a (Suc i) = (if bit_at a i \<noteq> 0 then True else any_bit a i)"

text \<open>The top bits and the sticky bit; the shift that \<open>btop\<close> also stores is read by no caller.\<close>

definition btop :: "big \<Rightarrow> nat \<Rightarrow> u64 \<times> bool" where
  "btop b want =
    (case b of (a, n) \<Rightarrow>
       let b = bbits (a, n); drop = b - want
       in if b \<le> want then (top_bits a 0 b 0, False)
          else (top_bits a drop b 0, any_bit a drop))"

section \<open>Assembling the pattern\<close>

text \<open>The result with its sign.\<close>

definition with_sign :: "bool \<Rightarrow> u64 \<Rightarrow> u64" where
  "with_sign neg out = (if neg then out OR 0x8000000000000000 else out)"

definition round_significand :: "u64 \<Rightarrow> bool \<Rightarrow> int \<Rightarrow> u64 \<times> int" where
  "round_significand sig54 sticky e =
    (let mant = drop_bit 1 sig54; rbit = sig54 AND 1
     in if rbit \<noteq> 0 \<and> (sticky \<or> mant AND 1 \<noteq> 0)
        then (let mant = mant + 1 in if mant = 0x20000000000000 then (drop_bit 1 mant, e + 1) else (mant, e))
        else (mant, e))"

definition assemble_rest :: "bool \<Rightarrow> bool \<Rightarrow> u64 \<Rightarrow> bool \<Rightarrow> int \<Rightarrow> u64" where
  "assemble_rest neg sub sig54 sticky topexp =
    (let (mant, e) = round_significand sig54 sticky topexp;
         e = e + 1023;
         e = (if sub then 0 else e)
     in if e \<ge> 2047 then with_sign neg 0x7ff0000000000000
        else if e \<le> 0 then with_sign neg mant
        else with_sign neg (push_bit 52 (word_of_int e) OR (mant AND 0xfffffffffffff)))"

definition assemble :: "bool \<Rightarrow> u64 \<Rightarrow> bool \<Rightarrow> int \<Rightarrow> u64" where
  "assemble neg sig54 sticky topexp =
    (if sig54 = 0 then with_sign neg 0
     else if topexp < - 1022
     then (let drop = - 1022 - topexp
           in if drop \<ge> 54 then with_sign neg 0
              else (let sticky = (if sig54 AND (push_bit (nat drop) 1 - 1) \<noteq> 0 then True else sticky);
                        sig54 = drop_bit (nat drop) sig54;
                        topexp = topexp + drop
                    in if sig54 = 0 then with_sign neg (if sticky then 1 else 0)
                       else assemble_rest neg True sig54 sticky topexp))
     else assemble_rest neg False sig54 sticky topexp)"

section \<open>Reading the text\<close>

definition skip_space :: "string \<Rightarrow> string" where
  "skip_space p = dropWhile (\<lambda>c. c \<in> {CHR '' '', TAB, LF, CR}) p"

definition read_sign :: "string \<Rightarrow> bool \<times> string" where
  "read_sign p =
    (if chr_at p 0 = CHR ''-'' then (True, drop 1 p)
     else if chr_at p 0 = CHR ''+'' then (False, drop 1 p) else (False, p))"

definition is_dec :: "char \<Rightarrow> bool" where
  "is_dec c \<longleftrightarrow> 48 \<le> (of_char c :: nat) \<and> (of_char c :: nat) \<le> 57"

definition dec_val :: "char \<Rightarrow> nat" where
  "dec_val c = of_char c - 48"

definition ishex :: "char \<Rightarrow> bool" where
  "ishex c \<longleftrightarrow> (let c = of_char c :: nat in 48 \<le> c \<and> c \<le> 57 \<or> 97 \<le> c \<and> c \<le> 102 \<or> 65 \<le> c \<and> c \<le> 70)"

definition hexval :: "char \<Rightarrow> nat" where
  "hexval c =
    (let c = of_char c :: nat
     in if 48 \<le> c \<and> c \<le> 57 then c - 48 else if 97 \<le> c \<and> c \<le> 102 then c - 97 + 10 else c - 65 + 10)"

text \<open>The digits of an exponent, and an exponent with its sign: of no use if no digit follows.\<close>

fun exp_loop :: "int \<Rightarrow> string \<Rightarrow> int \<times> string" where
  "exp_loop ex [] = (ex, [])"
| "exp_loop ex (c # p) =
    (if is_dec c then exp_loop (if ex < 100000 then ex * 10 + int (dec_val c) else ex) p else (ex, c # p))"

definition read_exp :: "string \<Rightarrow> string \<Rightarrow> int \<times> string" where
  "read_exp letters p =
    (if in_set (chr_at p 0) letters
     then (let (eneg, q) = read_sign (drop 1 p)
           in if is_dec (chr_at q 0)
              then (let (ex, q) = exp_loop 0 q in (if eneg then - ex else ex, q))
              else (0, p))
     else (0, p))"

subsection \<open>Hexadecimal\<close>

text \<open>The digits before the point, and those after it: significand, exponent, sticky bit, the rest.\<close>

fun hex_int :: "u64 \<Rightarrow> int \<Rightarrow> bool \<Rightarrow> string \<Rightarrow> u64 \<times> int \<times> bool \<times> string" where
  "hex_int m bexp st [] = (m, bexp, st, [])"
| "hex_int m bexp st (c # p) =
    (if ishex c
     then (if m < 0x1000000000000000 then hex_int (push_bit 4 m OR word_of_nat (hexval c)) bexp st p
           else hex_int m (bexp + 4) (hexval c \<noteq> 0 \<or> st) p)
     else (m, bexp, st, c # p))"

fun hex_frac :: "u64 \<Rightarrow> int \<Rightarrow> bool \<Rightarrow> string \<Rightarrow> u64 \<times> int \<times> bool \<times> string" where
  "hex_frac m bexp st [] = (m, bexp, st, [])"
| "hex_frac m bexp st (c # p) =
    (if ishex c
     then (if m < 0x1000000000000000 then hex_frac (push_bit 4 m OR word_of_nat (hexval c)) (bexp - 4) st p
           else hex_frac m bexp (hexval c \<noteq> 0 \<or> st) p)
     else (m, bexp, st, c # p))"

text \<open>The significand brought to 54 bits.\<close>

definition hex_assemble :: "bool \<Rightarrow> u64 \<Rightarrow> int \<Rightarrow> bool \<Rightarrow> u64" where
  "hex_assemble neg m bexp st =
    (if m = 0 then with_sign neg 0
     else
       (let b = count_bits m 0;
            (m, bexp, st) =
              (if b > 54 then (drop_bit (b - 54) m, bexp + int (b - 54), m AND (push_bit (b - 54) 1 - 1) \<noteq> 0 \<or> st)
               else if b < 54 then (push_bit (54 - b) m, bexp - int (54 - b), st)
               else (m, bexp, st))
        in assemble neg m st (bexp + 53)))"

definition strtod_hex :: "bool \<Rightarrow> string \<Rightarrow> u64 \<times> string" where
  "strtod_hex neg p =
    (let (m, bexp, st, p) = hex_int 0 0 False p;
         (m, bexp, st, p) = (if chr_at p 0 = CHR ''.'' then hex_frac m bexp st (drop 1 p) else (m, bexp, st, p));
         (ex, p) = read_exp ''pP'' p
     in (hex_assemble neg m (bexp + ex) st, p))"

subsection \<open>Decimal\<close>

text \<open>What the loops over the digits carry: the digits kept, the exponent, and if a digit was dropped that is not zero.\<close>

type_synonym digits = "nat list \<times> int \<times> bool"

fun zero_loop :: "int \<Rightarrow> string \<Rightarrow> int \<times> string" where
  "zero_loop n [] = (n, [])"
| "zero_loop n (c # p) = (if c = CHR ''0'' then zero_loop (n + 1) p else (n, c # p))"

fun int_loop :: "digits \<Rightarrow> string \<Rightarrow> digits \<times> string" where
  "int_loop st [] = (st, [])"
| "int_loop st (c # p) =
    (if is_dec c
     then (case st of (dig, dexp, extra) \<Rightarrow>
             int_loop (if length dig < NDIG then (dig @ [dec_val c], dexp, extra)
                       else (dig, dexp + 1, c \<noteq> CHR ''0'' \<or> extra)) p)
     else (st, c # p))"

fun frac_loop :: "digits \<Rightarrow> string \<Rightarrow> digits \<times> string" where
  "frac_loop st [] = (st, [])"
| "frac_loop st (c # p) =
    (if is_dec c
     then (case st of (dig, dexp, extra) \<Rightarrow>
             frac_loop (if length dig < NDIG then (dig @ [dec_val c], dexp - 1, extra)
                        else (dig, dexp, c \<noteq> CHR ''0'' \<or> extra)) p)
     else (st, c # p))"

text \<open>\<open>seen\<close> is set by every turn of these loops: it says that they read something.\<close>

definition read_digits :: "string \<Rightarrow> bool \<times> digits \<times> string" where
  "read_digits p =
    (let (_, p1) = zero_loop 0 p;
         ((dig, dexp, extra), p2) = int_loop ([], 0, False) p1;
         seen = (p2 \<noteq> p)
     in if chr_at p2 0 = CHR ''.''
        then (let p3 = drop 1 p2;
                  (z, p4) = (if dig = [] then zero_loop 0 p3 else (0, p3));
                  (st, p5) = frac_loop (dig, dexp - z, extra) p4
              in (seen \<or> p5 \<noteq> p3, st, p5))
        else (seen, (dig, dexp, extra), p2))"

fun load_digits :: "big \<Rightarrow> nat list \<Rightarrow> strtod_error + big" where
  "load_digits b [] = Inr b"
| "load_digits b (d # ds) = bindE (bmul b 10) (\<lambda>b. bindE (badd b (word_of_nat d)) (\<lambda>b. load_digits b ds))"

fun mul10 :: "nat \<Rightarrow> big \<Rightarrow> strtod_error + big" where
  "mul10 0 b = Inr b"
| "mul10 (Suc k) b = bindE (bmul b 10) (mul10 k)"

text \<open>The long division, bit by bit: the remainder and the quotient.\<close>

fun divide_loop :: "nat \<Rightarrow> big \<Rightarrow> big \<Rightarrow> u32 list \<Rightarrow> strtod_error + big \<times> u32 list" where
  "divide_loop 0 num den quo = Inr (num, quo)"
| "divide_loop (Suc j) num den quo =
    bindE (bshl (take (snd den) (fst den) @ replicate (NLIMB - snd den) 0, snd den) j) (\<lambda>t.
      if bcmp num t \<ge> 0
      then bindE (put quo (j div 32) (quo ! (j div 32) OR push_bit (j mod 32) 1))
             (divide_loop j (bsub num t) den)
      else divide_loop j num den quo)"

definition assemble_big :: "bool \<Rightarrow> big \<Rightarrow> bool \<Rightarrow> int \<Rightarrow> u64" where
  "assemble_big neg b sticky shiftby =
    (let n = bbits b;
         (sig, st) = btop b 54;
         sig = (if n < 54 then push_bit (54 - n) sig else sig)
     in assemble neg sig (st \<or> sticky) (int n - 1 - shiftby))"

definition decimal_value :: "bool \<Rightarrow> digits \<Rightarrow> strtod_error + u64" where
  "decimal_value neg st =
    (case st of (dig, dexp, extra) \<Rightarrow>
       if dig = [] then Inr (with_sign neg 0)
       else if int (length dig) + dexp > 320 then Inr (with_sign neg 0x7ff0000000000000)
       else if int (length dig) + dexp < - 350 then Inr (with_sign neg 0)
       else
         bindE (load_digits (bset 0) dig) (\<lambda>num.
         if dexp \<ge> 0
         then bindE (mul10 (nat dexp) num) (\<lambda>num. Inr (assemble_big neg num extra 0))
         else
           bindE (mul10 (nat (- dexp)) (bset 1)) (\<lambda>den.
           let shiftby = bbits den + 60 - bbits num
           in bindE (bshl num shiftby) (\<lambda>num.
              let qbits = max 1 (int (bbits num) - int (bbits den) + 1)
              in bindE (divide_loop (nat qbits) num den (replicate NLIMB 0)) (\<lambda>(num, quo).
                 Inr (assemble_big neg (quo, NLIMB) (\<not> bzero num \<or> extra) (int shiftby)))))))"

text \<open>The whole: the pattern, and where the text was read to.\<close>

definition strtod_bits :: "string \<Rightarrow> strtod_error + u64 \<times> string" where
  "strtod_bits s =
    (let (neg, p) = read_sign (skip_space s)
     in if chr_at p 0 = CHR ''0'' \<and> in_set (chr_at p 1) ''xX'' \<and>
          (ishex (chr_at p 2) \<or> chr_at p 2 = CHR ''.'' \<and> ishex (chr_at p 3))
        then Inr (strtod_hex neg (drop 2 p))
        else
          (let (seen, (dig, dexp, extra), p) = read_digits p
           in if \<not> seen then Inr (0, s)
              else (let (ex, p) = read_exp ''eE'' p
                    in bindE (decimal_value neg (dig, dexp + ex, extra)) (\<lambda>r. Inr (r, p)))))"

end
