(* ===== verification/StrtodBig.thy ===== *)
theory StrtodBig
  imports Strtod
begin

text \<open>
  The big numbers of \<open>strtod\<close> are natural numbers: every operation computes what its name says, on
  every number that fits, and stores nothing outside the arrays.
\<close>

section \<open>The value of an array of limbs\<close>

fun limbs :: "u32 list \<Rightarrow> nat" where
  "limbs [] = 0"
| "limbs (x # xs) = unat x + 2 ^ 32 * limbs xs"

lemma limbs_append: "limbs (xs @ ys) = limbs xs + 2 ^ (32 * length xs) * limbs ys"
  by (induction xs) (simp_all add: algebra_simps power_add)

lemma limbs_less: "limbs xs < 2 ^ (32 * length xs)"
proof (induction xs)
  case (Cons x xs)
  then have "limbs xs + 1 \<le> 2 ^ (32 * length xs)" by simp
  then have "2 ^ 32 * (limbs xs + 1) \<le> 2 ^ 32 * 2 ^ (32 * length xs)" by (rule mult_le_mono2)
  moreover have "unat x < 2 ^ 32" by (rule u32_bound)
  ultimately show ?case by (simp add: power_add)
qed simp

lemma limbs_replicate_0 [simp]: "limbs (replicate n 0) = 0"
  by (induction n) auto

lemma limbs_split: "n \<le> length a \<Longrightarrow> limbs a = limbs (take n a) + 2 ^ (32 * n) * limbs (drop n a)"
  using limbs_append [of "take n a" "drop n a"] by simp

lemma limbs_take: "n \<le> length a \<Longrightarrow> limbs (take n a) = limbs a mod 2 ^ (32 * n)"
  using limbs_split [of n a] limbs_less [of "take n a"] by simp

lemma limbs_drop: "n \<le> length a \<Longrightarrow> limbs (drop n a) = limbs a div 2 ^ (32 * n)"
  using limbs_split [of n a] limbs_less [of "take n a"] by simp

lemma limbs_nth: "i < length a \<Longrightarrow> unat (a ! i) = limbs a div 2 ^ (32 * i) mod 2 ^ 32"
proof -
  assume i: "i < length a"
  then have "limbs a div 2 ^ (32 * i) = unat (a ! i) + 2 ^ 32 * limbs (drop (Suc i) a)"
    using limbs_drop [of i a] by (simp add: Cons_nth_drop_Suc [symmetric])
  then show ?thesis using u32_bound [of "a ! i"] by simp
qed

lemma limbs_update_0:
  assumes "i < length a" "a ! i = 0" shows "limbs (a[i := x]) = limbs a + unat x * 2 ^ (32 * i)"
proof -
  have "limbs (take i a @ y # drop (Suc i) a) =
      limbs (take i a) + 2 ^ (32 * i) * (unat y + 2 ^ 32 * limbs (drop (Suc i) a))" for y
    using assms(1) by (simp add: limbs_append)
  from this [of x] this [of 0] assms show ?thesis
    using id_take_nth_drop [OF assms(1)] upd_conv_take_nth_drop [OF assms(1), of x]
    by (simp add: algebra_simps)
qed

lemma limbs_above: "limbs a < 2 ^ (32 * n) \<Longrightarrow> n \<le> i \<Longrightarrow> i < length a \<Longrightarrow> a ! i = 0"
proof -
  assume *: "limbs a < 2 ^ (32 * n)" "n \<le> i" "i < length a"
  have "limbs a < 2 ^ (32 * i)"
    by (rule order_less_le_trans [OF *(1)]) (use *(2) in simp)
  then show ?thesis using limbs_nth [OF *(3)] by (simp add: unat_eq_0)
qed

lemma limbs_drop_0: "limbs a < 2 ^ (32 * n) \<Longrightarrow> n \<le> length a \<Longrightarrow> limbs (drop n a) = 0"
  by (simp add: limbs_drop)

lemma limbs_inject: "limbs a = limbs b \<Longrightarrow> length a = length b \<Longrightarrow> a = b"
proof (induction a b rule: list_induct2')
  case (4 x xs y ys)
  have "unat x = unat y" "limbs xs = limbs ys"
    using arg_cong [OF 4(2), of "\<lambda>v. v mod 2 ^ 32"] arg_cong [OF 4(2), of "\<lambda>v. v div 2 ^ 32"]
      u32_bound [of x] u32_bound [of y] by simp_all
  with 4 show ?case by (simp add: word_unat_eq_iff)
qed auto

section \<open>Numbers in normal form\<close>

text \<open>A number whose top limb is not zero, unless it is the only one, in an array of full length.\<close>

definition holds :: "big \<Rightarrow> nat \<Rightarrow> bool" where
  "holds b v \<longleftrightarrow> (case b of (a, n) \<Rightarrow>
     length a = NLIMB \<and> 1 \<le> n \<and> n \<le> NLIMB \<and> limbs a = v \<and> v < 2 ^ (32 * n) \<and> (n = 1 \<or> 2 ^ (32 * (n - 1)) \<le> v))"

definition cap :: nat where "cap = 2 ^ (32 * NLIMB)"

lemma fits: "2 ^ (32 * n) \<le> v \<Longrightarrow> v < cap \<Longrightarrow> n < NLIMB"
proof -
  assume "2 ^ (32 * n) \<le> v" "v < cap"
  then have "(2 :: nat) ^ (32 * n) < 2 ^ (32 * NLIMB)" unfolding cap_def by (rule order_le_less_trans)
  then show ?thesis by simp
qed

lemma holds_less_cap: "holds b v \<Longrightarrow> v < cap"
  using limbs_less [of "fst b"] by (auto simp: holds_def cap_def split: prod.splits)

lemma trim_holds:
  "length a = NLIMB \<Longrightarrow> 1 \<le> n \<Longrightarrow> n \<le> NLIMB \<Longrightarrow> limbs a < 2 ^ (32 * n) \<Longrightarrow> holds (a, trim a n) (limbs a)"
proof (induction a n rule: trim.induct)
  case (1 a n)
  show ?case
  proof (cases "1 < n \<and> a ! (n - 1) = 0")
    case True
    then obtain k where n: "n = Suc k" by (cases n) auto
    have "limbs a = limbs (take n a)" using 1(2-5) by (simp add: limbs_take)
    also have "take n a = take k a @ [a ! k]" using 1(2,4) n by (simp add: take_Suc_conv_app_nth)
    also have "limbs \<dots> = limbs (take k a)" using True n by (simp add: limbs_append)
    also have "\<dots> < 2 ^ (32 * k)" using limbs_less [of "take k a"] 1(2,4) n by simp
    finally have "limbs a < 2 ^ (32 * k)" .
    then show ?thesis using 1(1) [OF True] 1(2-4) True n by (simp add: trim.simps [of a "Suc k"])
  next
    case False
    then have t: "trim a n = n" by (simp only: trim.simps [of a n] if_False)
    have "n = 1 \<or> 2 ^ (32 * (n - 1)) \<le> limbs a"
    proof (cases "n = 1")
      case F: False
      with False 1(3) have "a ! (n - 1) \<noteq> 0" by simp
      with limbs_above [of a "n - 1" "n - 1"] 1(2-4) show ?thesis by force
    qed simp
    with t 1(2-5) show ?thesis by (simp add: holds_def)
  qed
qed

lemma unat_split_64: "unat (v :: u64) = unat (ucast (v AND 0xffffffff) :: u32) + 2 ^ 32 * unat (drop_bit 32 v)"
  "unat (ucast (v AND 0xffffffff) :: u32) = unat v mod 2 ^ 32"
  "unat (drop_bit 32 v) = unat v div 2 ^ 32"
proof -
  have m: "(0xffffffff :: u64) = mask 32" by (simp add: mask_eq_exp_minus_1)
  show l: "unat (ucast (v AND 0xffffffff) :: u32) = unat v mod 2 ^ 32"
    by (simp add: m unsigned_ucast_eq take_bit_eq_mod unat_and_mask_mod del: mask_numeral)
  show h: "unat (drop_bit 32 v) = unat v div 2 ^ 32" by (rule unat_drop_bit_div)
  show "unat v = unat (ucast (v AND 0xffffffff) :: u32) + 2 ^ 32 * unat (drop_bit 32 v)"
    by (simp only: l h mod_mult_div_eq)
qed

lemma bset_holds: "holds (bset v) (unat v)"
proof -
  let ?a = "(replicate NLIMB 0) [0 := ucast (v AND 0xffffffff), 1 := ucast (drop_bit 32 v AND 0xffffffff)] :: u32 list"
  have h: "unat (ucast (drop_bit 32 v AND 0xffffffff) :: u32) = unat (drop_bit 32 v)"
    using u64_bound [of v] by (simp add: unat_split_64(2) unat_split_64(3) less_mult_imp_div_less)
  have "limbs ?a = unat v"
    by (simp add: limbs_update_0 h unat_split_64(1) [of v] NLIMB_def mult.commute)
  moreover have "length ?a = NLIMB" by simp
  ultimately show ?thesis
    using trim_holds [of ?a 2] u64_bound [of v] by (simp add: bset_def NLIMB_def Let_def)
qed

section \<open>Multiplication, addition, shift\<close>

lemma bmul_loop_limbs:
  "bmul_loop m carry a = (a', carry') \<Longrightarrow> unat m < 2 ^ 32 \<Longrightarrow> unat carry < 2 ^ 32 \<Longrightarrow>
   limbs a' + 2 ^ (32 * length a) * unat carry' = limbs a * unat m + unat carry \<and>
   length a' = length a \<and> unat carry' < 2 ^ 32"
proof (induction m carry a arbitrary: a' carry' rule: bmul_loop.induct)
  case (2 m carry x a)
  let ?cur = "ucast x * m + carry :: u64"
  have ux: "unat (ucast x :: u64) = unat x"
    using u32_bound [of x] by (simp add: unsigned_ucast_eq take_bit_nat_eq_self)
  have "unat x * unat m \<le> (2 ^ 32 - 1) * (2 ^ 32 - 1)"
    using u32_bound [of x] 2(3) by (intro mult_le_mono) auto
  then have cur: "unat ?cur = unat x * unat m + unat carry" "unat ?cur < 2 ^ 64"
    using 2(4) by (simp_all add: unat_add_less unat_mult_less ux)
  obtain b c where b: "bmul_loop m (drop_bit 32 ?cur) a = (b, c)" by force
  from 2(2) b have a': "a' = ucast (?cur AND 0xffffffff) # b" "carry' = c" by (simp_all add: Let_def)
  have "unat (drop_bit 32 ?cur) < 2 ^ 32" using cur(2) by (simp add: unat_split_64(3) less_mult_imp_div_less)
  from 2(1) [OF refl b 2(3) this]
  have ih: "limbs b + 2 ^ (32 * length a) * unat c = limbs a * unat m + unat (drop_bit 32 ?cur)"
    "length b = length a" "unat c < 2 ^ 32" by auto
  have "limbs a' + 2 ^ (32 * length (x # a)) * unat carry' =
      unat (ucast (?cur AND 0xffffffff) :: u32) + 2 ^ 32 * (limbs b + 2 ^ (32 * length a) * unat c)"
    by (simp add: a' power_add algebra_simps)
  also have "\<dots> = unat ?cur + 2 ^ 32 * limbs a * unat m"
    unfolding ih unat_split_64(1) [of ?cur] by (simp add: algebra_simps)
  also have "\<dots> = limbs (x # a) * unat m + unat carry" unfolding cur(1) by (simp add: algebra_simps)
  finally show ?case using ih by (simp add: a')
qed simp

lemma holds_le_1: "holds b 0 \<Longrightarrow> snd b = 1"
  by (auto simp: holds_def split: prod.splits)

lemma holdsI:
  assumes "length a = NLIMB" "1 \<le> n" "limbs a = v" "v < 2 ^ (32 * n)" "n = 1 \<or> 2 ^ (32 * (n - 1)) \<le> v" "v < cap"
  shows "holds (a, n) v"
proof -
  have "n \<le> NLIMB"
    using fits [of "n - 1" v] assms by (auto simp: NLIMB_def)
  with assms show ?thesis by (simp add: holds_def)
qed

lemma put_Inr: "i < length a \<Longrightarrow> put a i v = Inr (a[i := v])"
  by (simp add: put_def)

lemma less_power_64: "(x :: nat) < 2 ^ (32 * n) \<Longrightarrow> y < 2 ^ 32 \<Longrightarrow> x + y * 2 ^ (32 * n) < 2 ^ (32 * (n + 1))"
proof -
  assume "x < 2 ^ (32 * n)" "y < 2 ^ 32"
  then have "x + y * 2 ^ (32 * n) < (y + 1) * 2 ^ (32 * n)" "y + 1 \<le> 2 ^ 32" by auto
  then have "x + y * 2 ^ (32 * n) < 2 ^ 32 * 2 ^ (32 * n)"
    by (meson mult_le_mono1 order_less_le_trans)
  then show ?thesis by (simp add: power_add)
qed

text \<open>Storing what was carried out of the top limb, in all three operations.\<close>

lemma carry_out:
  assumes a: "length a = NLIMB" "1 \<le> n" "n \<le> NLIMB" "limbs (drop n a) = 0"
    and v: "limbs (take n a) + c * 2 ^ (32 * n) = v" "v < cap" "n = 1 \<or> 2 ^ (32 * (n - 1)) \<le> v"
    and c: "c < 2 ^ 32"
  shows "c = 0 \<Longrightarrow> holds (a, n) v"
    "c > 0 \<Longrightarrow> n < NLIMB" "c > 0 \<Longrightarrow> unat x = c \<Longrightarrow> holds (a[n := x], n + 1) v"
proof -
  have la: "limbs a = limbs (take n a)" using limbs_split [of n a] a by simp
  have lt: "limbs (take n a) < 2 ^ (32 * n)" using limbs_less [of "take n a"] a by simp
  show "c = 0 \<Longrightarrow> holds (a, n) v" using a v la lt by (intro holdsI) auto
  show n: "n < NLIMB" if "c > 0"
  proof (rule fits [OF _ v(2)])
    have "2 ^ (32 * n) \<le> c * 2 ^ (32 * n)" using that by simp
    with v(1) show "2 ^ (32 * n) \<le> v" by linarith
  qed
  show "holds (a[n := x], n + 1) v" if "c > 0" "unat x = c"
  proof -
    have "a ! n = 0" using limbs_above [of a n n] n [OF that(1)] lt la a by simp
    then have "limbs (a[n := x]) = v" using limbs_update_0 [of n a x] n [OF that(1)] a v(1) la that(2) by simp
    moreover have "2 ^ (32 * n) \<le> c * 2 ^ (32 * n)" using that by simp
    then have "2 ^ (32 * n) \<le> v" using v(1) by linarith
    ultimately show ?thesis
      using a v less_power_64 [OF lt c] by (intro holdsI) auto
  qed
qed

lemma bmul_holds:
  assumes b: "holds b v" and m: "0 < unat m" "unat m < 2 ^ 32" and cap: "v * unat m < cap"
  shows "\<exists>b'. bmul b m = Inr b' \<and> holds b' (v * unat m)"
proof -
  obtain a n where an: "b = (a, n)" by force
  have a: "length a = NLIMB" "1 \<le> n" "n \<le> NLIMB" "limbs a = v" "v < 2 ^ (32 * n)" "n = 1 \<or> 2 ^ (32 * (n - 1)) \<le> v"
    using b by (auto simp: an holds_def)
  obtain lo c where lc: "bmul_loop m 0 (take n a) = (lo, c)" by force
  have t: "limbs (take n a) = v" using a by (simp add: limbs_take)
  have lo: "limbs lo + 2 ^ (32 * n) * unat c = v * unat m" "length lo = n" "unat c < 2 ^ 32"
    using bmul_loop_limbs [OF lc m(2)] a by (auto simp: t)
  let ?a = "lo @ drop n a"
  have c32: "unat (ucast (c AND 0xffffffff) :: u32) = unat c" "unat (drop_bit 32 c) = 0"
    using lo(3) by (simp_all add: unat_split_64(2,3))
  have "n = 1 \<or> 2 ^ (32 * (n - 1)) \<le> v * unat m"
    using a(6) m(1) by (metis One_nat_def Suc_leI mult_le_mono mult.right_neutral)
  note co = carry_out [of ?a n "unat c" "v * unat m", OF _ a(2,3) _ _ cap this lo(3)]
  have pre: "length ?a = NLIMB" "limbs (drop n ?a) = 0" "limbs (take n ?a) + unat c * 2 ^ (32 * n) = v * unat m"
    using lo a limbs_drop_0 [of a n] by (simp_all add: mult.commute)
  note co = co [OF pre]
  have b': "bmul b m = bmul_carry ?a n n c" by (simp add: bmul_def an lc)
  show ?thesis
  proof (cases "c = 0")
    case True
    then have "bmul_carry ?a n n c = Inr (?a, n)" by (simp add: bmul_carry.simps [of ?a n n 0])
    with True co(1) b' show ?thesis by auto
  next
    case False
    then have c: "unat c > 0" by (simp add: unat_gt_0)
    have z: "drop_bit 32 c = 0" using c32(2) by (simp add: unat_eq_0)
    let ?b = "(?a[n := ucast (c AND 0xffffffff)], n + 1)"
    have "put ?a n (ucast (c AND 0xffffffff)) = Inr (fst ?b)"
      using co(2) [OF c] lo(2) a by (simp add: put_def)
    then have "bmul_carry ?a n n c = Inr ?b"
      using False z by (simp add: bmul_carry.simps [of ?a n n c] bmul_carry.simps [of _ "Suc n" "Suc n" 0])
    then show ?thesis using co(3) [OF c c32(1)] b' by auto
  qed
qed

lemma badd_loop_holds:
  assumes "length a = NLIMB" "i \<le> n" "1 \<le> n" "n \<le> NLIMB" "limbs a < 2 ^ (32 * n)" "unat c < 2 ^ 32"
    "limbs a + unat c * 2 ^ (32 * i) = v" "v < cap" "n = 1 \<or> 2 ^ (32 * (n - 1)) \<le> v"
  shows "\<exists>b'. badd_loop a i n c = Inr b' \<and> holds b' v"
  using assms
proof (induction "NLIMB - i" arbitrary: a i n c rule: less_induct)
  case less
  show ?case
  proof (cases "c = 0")
    case True
    then have "badd_loop a i n c = Inr (a, n)" by (simp add: badd_loop.simps [of a i n 0])
    moreover have "holds (a, n) v" using less.prems True by (intro holdsI) auto
    ultimately show ?thesis by blast
  next
    case False
    then have c: "1 \<le> unat c" by (simp add: Suc_le_eq unat_gt_0)
    then have "2 ^ (32 * i) \<le> unat c * 2 ^ (32 * i)" by simp
    with less.prems(7) have iv: "2 ^ (32 * i) \<le> v" by linarith
    then have i: "i < NLIMB" using less.prems(8) by (rule fits)
    define n' where "n' = (if n \<le> i then i + 1 else n)"
    have n': "i < n'" "1 \<le> n'" "n' \<le> NLIMB" "n' = 1 \<or> 2 ^ (32 * (n' - 1)) \<le> v" "n \<le> n'"
      using less.prems i iv by (auto simp: n'_def)
    have an: "limbs a < 2 ^ (32 * n')"
      by (rule order_less_le_trans [OF less.prems(5)]) (use n'(5) in simp)
    have a0: "a[i := 0] = a" if "n \<le> i"
      using limbs_above [OF less.prems(5) that] i less.prems(1) by (metis list_update_id)
    let ?cur = "ucast (a ! i) + c :: u64"
    have ux: "unat (ucast (a ! i) :: u64) = unat (a ! i)"
      using u32_bound [of "a ! i"] by (simp add: unsigned_ucast_eq take_bit_nat_eq_self)
    have cur: "unat ?cur = unat (a ! i) + unat c" using u32_bound [of "a ! i"] less.prems(6)
      by (simp add: unat_add_less ux)
    let ?x = "ucast (?cur AND 0xffffffff) :: u32" let ?c = "drop_bit 32 ?cur" let ?a = "a[i := ?x]"
    have step: "badd_loop a i n c = badd_loop ?a (i + 1) n' ?c"
      using False i less.prems(1) a0 by (simp add: badd_loop.simps [of a i n c] put_def n'_def Let_def)
    have upd: "limbs ?a + unat ?c * 2 ^ (32 * (i + 1)) = v" "limbs ?a < 2 ^ (32 * n')"
    proof -
      let ?z = "a[i := 0]"
      have z: "?z ! i = 0" "i < length ?z" using i less.prems(1) by auto
      have "a = ?z[i := a ! i]" "?a = ?z[i := ?x]" by simp_all
      then have e: "limbs a = limbs ?z + unat (a ! i) * 2 ^ (32 * i)" "limbs ?a = limbs ?z + unat ?x * 2 ^ (32 * i)"
        using limbs_update_0 [OF z(2,1)] by metis+
      have "limbs ?a + unat ?c * 2 ^ (32 * (i + 1)) = limbs ?z + (unat ?x + 2 ^ 32 * unat ?c) * 2 ^ (32 * i)"
        unfolding e by (simp add: algebra_simps power_add)
      also have "\<dots> = limbs ?z + unat ?cur * 2 ^ (32 * i)" by (simp only: unat_split_64(1) [of ?cur])
      also have "\<dots> = limbs a + unat c * 2 ^ (32 * i)" unfolding e cur by (simp add: algebra_simps)
      finally show "limbs ?a + unat ?c * 2 ^ (32 * (i + 1)) = v" using less.prems(7) by simp
      have "drop n' ?a = drop n' a" using n'(1) by simp
      then have "limbs (drop n' ?a) = 0" using limbs_drop_0 [OF an] n'(3) less.prems(1) by simp
      then have "limbs ?a = limbs (take n' ?a)" using limbs_split [of n' ?a] n'(3) less.prems(1) by simp
      then show "limbs ?a < 2 ^ (32 * n')" using limbs_less [of "take n' ?a"] n'(3) less.prems(1) by simp
    qed
    have c': "unat ?c < 2 ^ 32" using u64_bound [of ?cur] by (simp add: unat_split_64(3) less_mult_imp_div_less)
    have "NLIMB - (i + 1) < NLIMB - i" using i by simp
    from less.hyps [OF this _ _ _ _ upd(2) c' upd(1) less.prems(8)] show ?thesis
      unfolding step using n' less.prems(1) by auto
  qed
qed

lemma badd_holds: "holds b v \<Longrightarrow> unat w < 2 ^ 32 \<Longrightarrow> v + unat w < cap \<Longrightarrow> \<exists>b'. badd b w = Inr b' \<and> holds b' (v + unat w)"
  using badd_loop_holds [of "fst b" 0 "snd b" w "v + unat w"]
  by (auto simp: badd_def holds_def split: prod.splits)

end
