(* ===== verification/StrtodDiv.thy ===== *)
theory StrtodDiv
  imports StrtodBig
begin

text \<open>
  Shifting, comparing, subtracting and dividing the big numbers of \<open>strtod\<close>, and the bits it reads
  off the top of the quotient.
\<close>

section \<open>Shifting to the left\<close>

lemma unat_2p: "k < 64 \<Longrightarrow> unat (2 ^ k :: u64) = 2 ^ k"
proof -
  assume "k < 64"
  then have "(2 :: nat) ^ k < 2 ^ 64" by (intro power_strict_increasing) auto
  then show ?thesis using unat_push_bit_less [of "1 :: u64" k] by (simp add: push_bit_eq_mult)
qed

lemma move_up_Inr:
  "i + words \<le> length a \<Longrightarrow>
   move_up words i a = Inr (take words a @ take i a @ drop (i + words) a)"
proof (induction words i a rule: move_up.induct)
  case (2 words i a)
  let ?a = "a[i + words := a ! i]"
  have "move_up words (Suc i) a = move_up words i ?a" using 2(2) by (simp add: put_def)
  also have "\<dots> = Inr (take words ?a @ take i ?a @ drop (i + words) ?a)"
    using 2(1) [of ?a] 2(2) by (simp add: put_def)
  also have "take words ?a = take words a" by simp
  also have "take i ?a = take i a" by simp
  also have "drop (i + words) ?a = a ! i # drop (Suc i + words) a"
    using 2(2) by (simp add: Cons_nth_drop_Suc [symmetric])
  finally show ?case using 2(2) by (simp add: take_Suc_conv_app_nth)
qed simp

lemma clear_low_Inr: "i + k \<le> length a \<Longrightarrow> clear_low i k a = Inr (take i a @ replicate k 0 @ drop (i + k) a)"
proof (induction i k a rule: clear_low.induct)
  case (2 i k a)
  let ?a = "a[i := 0]"
  have "clear_low i (Suc k) a = clear_low (i + 1) k ?a" using 2(2) by (simp add: put_def)
  also have "\<dots> = Inr (take (i + 1) ?a @ replicate k 0 @ drop (i + 1 + k) ?a)"
    using 2(1) [of ?a] 2(2) by (simp add: put_def)
  also have "take (i + 1) ?a = take i a @ [0]" using 2(2) by (simp add: take_Suc_conv_app_nth)
  also have "drop (i + 1 + k) ?a = drop (i + Suc k) a" using 2(2) by simp
  finally show ?case by simp
qed simp

lemma bshl_loop_is_bmul_loop:
  "bits < 32 \<Longrightarrow> unat carry < 2 ^ bits \<Longrightarrow> bshl_loop bits carry a = bmul_loop (2 ^ bits) carry a"
proof (induction bits carry a rule: bshl_loop.induct)
  case (2 bits carry x a)
  have p: "(2 :: nat) ^ bits < 2 ^ 32" using 2(2) by (intro power_strict_increasing) auto
  have u2: "unat (2 ^ bits :: u64) = 2 ^ bits" using 2(2) by (simp add: unat_2p)
  have ux: "unat (ucast x :: u64) = unat x"
    using u32_bound [of x] by (simp add: unsigned_ucast_eq take_bit_nat_eq_self)
  have xs: "unat x * 2 ^ bits < 2 ^ 64"
  proof -
    have "unat x * 2 ^ bits \<le> (2 ^ 32 - 1) * 2 ^ 32" using u32_bound [of x] p by (intro mult_le_mono) auto
    then show ?thesis by simp
  qed
  have sum: "unat x * 2 ^ bits + unat carry < 2 ^ 32 * 2 ^ bits"
  proof -
    have "unat x * 2 ^ bits + unat carry < (unat x + 1) * 2 ^ bits" using 2(3) by simp
    also have "\<dots> \<le> 2 ^ 32 * 2 ^ bits" using u32_bound [of x] by (intro mult_le_mono1) simp
    finally show ?thesis .
  qed
  have sum64: "unat x * 2 ^ bits + unat carry < 2 ^ 64"
    by (rule order_less_trans [OF sum]) (use p in simp)
  have "unat (push_bit bits (ucast x) OR carry :: u64) = unat x * 2 ^ bits + unat carry"
    using unat_or_disjoint [of bits "push_bit bits (ucast x)" carry] 2(3) xs
    by (simp add: unat_push_bit_less ux)
  moreover have "unat (ucast x * 2 ^ bits + carry :: u64) = unat x * 2 ^ bits + unat carry"
    using xs sum64 by (simp add: unat_add_less unat_mult_less ux u2)
  ultimately have cur: "push_bit bits (ucast x) OR carry = (ucast x * 2 ^ bits + carry :: u64)"
    by (simp only: word_unat_eq_iff)
  have "unat (drop_bit 32 (push_bit bits (ucast x) OR carry)) < 2 ^ bits"
    using sum unfolding cur
    by (simp add: unat_split_64(3) \<open>unat (ucast x * 2 ^ bits + carry) = _\<close> less_mult_imp_div_less mult.commute)
  from 2(1) [OF refl 2(2) this] show ?case by (simp only: bshl_loop.simps bmul_loop.simps cur Let_def)
qed simp

lemma bshl_holds:
  assumes b: "holds b v" and v: "0 < v" "v * 2 ^ k < cap"
  shows "\<exists>b'. bshl b k = Inr b' \<and> holds b' (v * 2 ^ k)"
proof -
  obtain a n where an: "b = (a, n)" by force
  have a: "length a = NLIMB" "1 \<le> n" "n \<le> NLIMB" "limbs a = v" "v < 2 ^ (32 * n)" "n = 1 \<or> 2 ^ (32 * (n - 1)) \<le> v"
    using b by (auto simp: an holds_def)
  define w where "w = k div 32"
  define r where "r = k mod 32"
  have k: "k = 32 * w + r" "r < 32" by (simp_all add: w_def r_def)
  have low: "2 ^ (32 * (n - 1)) \<le> v" using a(6) v(1) by auto
  have vw: "v * 2 ^ (32 * w) \<le> v * 2 ^ k" using k(1) by simp
  have top: "2 ^ (32 * (n - 1 + w)) \<le> v * 2 ^ (32 * w)"
    using mult_le_mono1 [OF low, of "2 ^ (32 * w)"] by (simp add: power_add algebra_simps)
  have nw: "n + w \<le> NLIMB"
    using fits [OF top] vw v(2) a(2) by simp
  let ?a = "replicate w 0 @ take n a @ drop (n + w) a"
  have up: "(if w > 0 then bindE (move_up w n a) (\<lambda>a. bindE (clear_low 0 w a) (\<lambda>a. Inr (a, n + w))) else Inr (a, n))
      = Inr (?a, n + w)" (is "?up = _")
    using nw a by (simp add: move_up_Inr clear_low_Inr)
  have dz: "limbs (drop (n + w) a) = 0"
  proof (rule limbs_drop_0)
    show "limbs a < 2 ^ (32 * (n + w))" using a(4,5) by (rule_tac order_less_le_trans [of _ "2 ^ (32 * n)"]) simp_all
  qed (use nw a in simp)
  have ta: "limbs (take n a) = v" using a by (simp add: limbs_take)
  have la: "limbs ?a = v * 2 ^ (32 * w)" by (simp add: limbs_append ta dz)
  have len: "length ?a = NLIMB" using nw a by simp
  have tk: "limbs (take (n + w) ?a) = v * 2 ^ (32 * w)" "limbs (drop (n + w) ?a) = 0"
    using nw a ta by (simp_all add: limbs_append dz)
  have bound: "v * 2 ^ (32 * w) < 2 ^ (32 * (n + w))"
    using a(5) by (simp add: power_add)
  have n1: "n + w = 1 \<or> 2 ^ (32 * (n + w - 1)) \<le> v * 2 ^ k"
  proof -
    have "n + w - 1 = n - 1 + w" using a(2) by simp
    then show ?thesis using order_trans [OF top vw] by (simp only: simp_thms)
  qed
  show ?thesis
  proof (cases "r = 0")
    case True
    then have "bshl b k = Inr (?a, n + w)" using up by (simp only: bshl_def an prod.case Let_def w_def [symmetric] r_def [symmetric] bindE.simps) simp
    moreover have "holds (?a, n + w) (v * 2 ^ k)"
      using len la bound n1 v(2) a(2) k True by (intro holdsI) auto
    ultimately show ?thesis by blast
  next
    case False
    obtain lo c where lc: "bshl_loop r 0 (take (n + w) ?a) = (lo, c)" by force
    then have lc': "bmul_loop (2 ^ r) 0 (take (n + w) ?a) = (lo, c)"
      using k(2) by (simp add: bshl_loop_is_bmul_loop)
    have "(2 :: nat) ^ r < 2 ^ 32" using k(2) by (intro power_strict_increasing) auto
    then have u2: "unat (2 ^ r :: u64) = 2 ^ r" "(2 :: nat) ^ r < 2 ^ 32" using k(2) by (simp_all add: unat_2p)
    have lk: "length (take (n + w) ?a) = n + w" using nw a by simp
    have lo: "limbs lo + 2 ^ (32 * (n + w)) * unat c = v * 2 ^ (32 * w) * 2 ^ r" "length lo = n + w" "unat c < 2 ^ 32"
      using bmul_loop_limbs [OF lc', unfolded lk tk(1) u2(1)] u2(2) by simp_all
    let ?b = "lo @ drop (n + w) ?a"
    have vk: "v * 2 ^ (32 * w) * 2 ^ r = v * 2 ^ k" by (simp add: k(1) power_add)
    have pre: "length ?b = NLIMB" "limbs (drop (n + w) ?b) = 0" "limbs (take (n + w) ?b) + unat c * 2 ^ (32 * (n + w)) = v * 2 ^ k"
      using lo nw a len tk(2) vk by (simp_all add: mult.commute)
    note co = carry_out [of ?b "n + w" "unat c" "v * 2 ^ k", OF pre(1) _ nw pre(2,3) v(2) n1 lo(3)]
    have sh: "bshl b k = (if c \<noteq> 0 then map_sum id (\<lambda>a. (a, n + w + 1)) (put ?b (n + w) (ucast c)) else Inr (?b, n + w))"
      using up lc False by (simp only: bshl_def an prod.case Let_def w_def [symmetric] r_def [symmetric] bindE.simps) simp
    show ?thesis
    proof (cases "c = 0")
      case True
      then show ?thesis using sh co(1) a(2) by auto
    next
      case F: False
      then have c: "unat c > 0" by (simp add: unat_gt_0)
      have "unat (ucast c :: u32) = unat c" using lo(3) by (simp add: unsigned_ucast_eq take_bit_nat_eq_self)
      then show ?thesis using sh co(2) [OF _ c] co(3) [OF _ c] F a(2) pre(1) by (simp add: put_def)
    qed
  qed
qed

section \<open>The number of bits\<close>

fun blen :: "nat \<Rightarrow> nat" where
  "blen v = (if v = 0 then 0 else Suc (blen (v div 2)))"

declare blen.simps [simp del]

lemma blen_0 [simp]: "blen 0 = 0"
  by (simp add: blen.simps [of 0])

lemma blen_bounds: "v < 2 ^ blen v" "0 < v \<Longrightarrow> 2 ^ (blen v - 1) \<le> v"
proof -
  have "v < 2 ^ blen v \<and> (0 < v \<longrightarrow> 2 ^ (blen v - 1) \<le> v)"
  proof (induction v rule: blen.induct)
    case (1 v)
    show ?case
    proof (cases "v = 0")
      case False
      then have b: "blen v = Suc (blen (v div 2))" by (simp add: blen.simps [of v])
      have "v div 2 < 2 ^ blen (v div 2)" and lo: "0 < v div 2 \<longrightarrow> 2 ^ (blen (v div 2) - 1) \<le> v div 2"
        using 1 [OF False] by auto
      then have "v < 2 * 2 ^ blen (v div 2)" by linarith
      moreover have "2 ^ blen (v div 2) \<le> v"
      proof (cases "v div 2 = 0")
        case F: False
        then have "blen (v div 2) = Suc (blen (v div 2) - 1)" by (simp add: blen.simps [of "v div 2"])
        then have "2 ^ blen (v div 2) = 2 * (2 :: nat) ^ (blen (v div 2) - 1)" by (metis power_Suc)
        then show ?thesis using lo F by linarith
      qed (use False in simp)
      ultimately show ?thesis by (simp add: b)
    qed simp
  qed
  then show "v < 2 ^ blen v" "0 < v \<Longrightarrow> 2 ^ (blen v - 1) \<le> v" by auto
qed

lemma blen_pos: "0 < v \<Longrightarrow> 1 \<le> blen v"
  by (simp add: blen.simps [of v])

lemma blen_le_iff: "blen v \<le> k \<longleftrightarrow> v < 2 ^ k"
proof
  assume "blen v \<le> k"
  then have "(2 :: nat) ^ blen v \<le> 2 ^ k" by simp
  then show "v < 2 ^ k" using blen_bounds(1) [of v] by linarith
next
  assume k: "v < 2 ^ k"
  show "blen v \<le> k"
  proof (cases "v = 0")
    case False
    then have "(2 :: nat) ^ (blen v - 1) < 2 ^ k" using blen_bounds(2) [of v] k by (meson gr_zeroI order_le_less_trans)
    then show ?thesis by simp
  qed simp
qed

lemma blen_shift: "0 < v \<Longrightarrow> blen (v * 2 ^ k) = blen v + k"
proof -
  assume v: "0 < v"
  have "blen (v * 2 ^ k) \<le> j \<longleftrightarrow> blen v + k \<le> j" for j
  proof (cases "k \<le> j")
    case True
    then have "(2 :: nat) ^ j = 2 ^ (j - k) * 2 ^ k" by (simp flip: power_add)
    then have "v * 2 ^ k < 2 ^ j \<longleftrightarrow> v < 2 ^ (j - k)" by simp
    then show ?thesis using True by (simp add: blen_le_iff [symmetric]) linarith
  next
    case False
    then have "(2 :: nat) ^ j < 2 ^ k" by simp
    also have "\<dots> \<le> v * 2 ^ k" using v by simp
    finally show ?thesis using False by (simp add: blen_le_iff)
  qed
  then show ?thesis by (metis order_antisym order_refl)
qed

lemma blen_unique: "2 ^ (k - 1) \<le> v \<Longrightarrow> v < 2 ^ k \<Longrightarrow> 0 < k \<Longrightarrow> blen v = k"
proof -
  assume *: "2 ^ (k - 1) \<le> v" "v < 2 ^ k" "0 < k"
  then have "blen v \<le> k" "\<not> blen v \<le> k - 1" by (simp_all add: blen_le_iff)
  then show ?thesis by simp
qed

lemma count_bits_blen: "count_bits t b = b + blen (unat t)"
proof (induction t b rule: count_bits.induct)
  case (1 t b)
  have "unat (drop_bit 1 t) = unat t div 2" by (simp add: unat_drop_bit_div)
  then show ?case using 1 by (simp add: count_bits.simps [of t b] blen.simps [of "unat t"] unat_eq_0)
qed

lemma top_limb_le: "top_limb a i \<le> i"
proof (induction a i rule: top_limb.induct)
  case (1 a i)
  then show ?case by (cases "i > 0 \<and> a ! i = 0") (auto simp: top_limb.simps [of a i])
qed

lemma top_limb_spec:
  "limbs a < 2 ^ (32 * (i + 1)) \<Longrightarrow> i < length a \<Longrightarrow>
   limbs a < 2 ^ (32 * (top_limb a i + 1)) \<and> (top_limb a i = 0 \<or> a ! top_limb a i \<noteq> 0)"
proof (induction a i rule: top_limb.induct)
  case (1 a i)
  show ?case
  proof (cases "i > 0 \<and> a ! i = 0")
    case True
    then obtain j where j: "i = Suc j" by (cases i) auto
    have "limbs (take i a) = limbs a"
    proof -
      have "limbs (drop i a) = unat (a ! i) + 2 ^ 32 * limbs (drop (Suc i) a)"
        using 1(3) by (simp add: Cons_nth_drop_Suc [symmetric])
      moreover have "limbs (drop (Suc i) a) = 0" using limbs_drop_0 [of a "i + 1"] 1(2,3) by simp
      ultimately show ?thesis using limbs_split [of i a] 1(3) True by simp
    qed
    then have "limbs a < 2 ^ (32 * (j + 1))" using limbs_less [of "take i a"] 1(3) j by simp
    moreover have "top_limb a i = top_limb a j" using True j by (simp add: top_limb.simps [of a "Suc j"])
    ultimately show ?thesis using 1(1) [OF True] 1(3) j by simp
  next
    case False
    then have "top_limb a i = i" by (simp only: top_limb.simps [of a i] if_False)
    with False 1(2) show ?thesis by auto
  qed
qed

lemma bbits_blen:
  assumes "limbs a < 2 ^ (32 * n)" "1 \<le> n" "n \<le> length a"
  shows "bbits (a, n) = blen (limbs a)"
proof -
  define i where "i = top_limb a (n - 1)"
  have i: "limbs a < 2 ^ (32 * (i + 1))" "i = 0 \<or> a ! i \<noteq> 0" "i \<le> n - 1"
    using top_limb_spec [of a "n - 1"] top_limb_le [of a "n - 1"] assms by (auto simp: i_def)
  then have il: "i < length a" using assms by simp
  have dz: "limbs (drop (i + 1) a) = 0" using limbs_drop_0 [OF i(1)] il by simp
  have "limbs (drop i a) = unat (a ! i) + 2 ^ 32 * limbs (drop (Suc i) a)"
    using il by (simp add: Cons_nth_drop_Suc [symmetric])
  then have v: "limbs a = limbs (take i a) + 2 ^ (32 * i) * unat (a ! i)"
    using limbs_split [of i a] il dz by simp
  have t: "limbs (take i a) < 2 ^ (32 * i)" using limbs_less [of "take i a"] il by simp
  show ?thesis
  proof (cases "a ! i = 0")
    case True
    then show ?thesis using i(2) v by (simp add: bbits_def i_def [unfolded One_nat_def, symmetric] Let_def)
  next
    case False
    let ?x = "unat (a ! i)" let ?k = "i * 32 + blen ?x"
    have x: "0 < ?x" using False by (simp add: unat_gt_0)
    have b: "bbits (a, n) = ?k"
    proof -
      have "unat (ucast (a ! i) :: u64) = ?x"
        using u32_bound [of "a ! i"] by (simp add: unsigned_ucast_eq take_bit_nat_eq_self)
      then show ?thesis using False by (simp add: bbits_def i_def [unfolded One_nat_def, symmetric] Let_def count_bits_blen)
    qed
    have "blen (limbs a) = ?k"
    proof (rule blen_unique)
      have "2 ^ (blen ?x - 1) * 2 ^ (32 * i) \<le> ?x * 2 ^ (32 * i)" using blen_bounds(2) [OF x] by (rule mult_le_mono1)
      moreover have "?k - 1 = (blen ?x - 1) + 32 * i" using blen_pos [OF x] by simp
      ultimately show "2 ^ (?k - 1) \<le> limbs a" unfolding v by (simp only: power_add) (simp only: mult.commute trans_le_add2)
      have "limbs a < (?x + 1) * 2 ^ (32 * i)" using v t by (simp add: algebra_simps)
      also have "\<dots> \<le> 2 ^ blen ?x * 2 ^ (32 * i)" using blen_bounds(1) [of ?x] by (intro mult_le_mono1) simp
      finally show "limbs a < 2 ^ ?k" by (simp add: power_add algebra_simps)
      show "0 < ?k" using blen_pos [OF x] by simp
    qed
    with b show ?thesis by simp
  qed
qed

lemma bbits_holds: "holds b v \<Longrightarrow> bbits b = blen v"
  by (cases b) (auto simp: holds_def intro: bbits_blen)

section \<open>The top bits\<close>

lemma bit_at_nat:
  assumes "i < 32 * length a" shows "unat (bit_at a i) = limbs a div 2 ^ i mod 2"
proof -
  have i: "i div 32 < length a" using assms by (simp add: less_mult_imp_div_less mult.commute)
  have "unat (bit_at a i) = unat (a ! (i div 32)) div 2 ^ (i mod 32) mod 2"
    by (simp add: bit_at_def and_1_mod unat_drop_bit_div)
  also have "\<dots> = limbs a div 2 ^ (32 * (i div 32)) mod 2 ^ 32 div 2 ^ (i mod 32) mod 2"
    by (simp only: limbs_nth [OF i])
  also have "\<dots> = limbs a div 2 ^ (32 * (i div 32)) div 2 ^ (i mod 32) mod 2"
  proof -
    have split: "(2 :: nat) ^ 32 = 2 ^ (i mod 32) * 2 ^ (32 - i mod 32)" by (simp flip: power_add)
    have ev: "(2 :: nat) dvd 2 ^ (32 - i mod 32)" by (simp add: less_imp_le_nat)
    have "x mod (2 ^ (i mod 32) * 2 ^ (32 - i mod 32)) div 2 ^ (i mod 32) = x div 2 ^ (i mod 32) mod 2 ^ (32 - i mod 32)" for x :: nat
      by (simp add: mod_mult2_eq)
    then show ?thesis unfolding split by (simp add: mod_mod_cancel [OF ev])
  qed
  also have "\<dots> = limbs a div 2 ^ (32 * (i div 32) + i mod 32) mod 2"
    by (simp only: div_mult2_eq [symmetric] power_add)
  finally show ?thesis by simp
qed

lemma div_step_2: "v mod 2 ^ Suc i div 2 ^ lo = (v div 2 ^ i mod 2) * 2 ^ (i - lo) + v mod 2 ^ i div 2 ^ lo"
  if "lo \<le> i" for v :: nat
proof -
  have "(2 :: nat) ^ i = 2 ^ (i - lo) * 2 ^ lo" using that by (simp flip: power_add)
  moreover have "v mod 2 ^ Suc i = 2 ^ i * (v div 2 ^ i mod 2) + v mod 2 ^ i"
    using mod_mult2_eq [of v "2 ^ i" 2] by (simp add: mult.commute)
  ultimately have "v mod 2 ^ Suc i = ((v div 2 ^ i mod 2) * 2 ^ (i - lo)) * 2 ^ lo + v mod 2 ^ i"
    by (simp only: mult.assoc mult.commute mult.left_commute)
  moreover have "(c * 2 ^ lo + r) div 2 ^ lo = c + r div 2 ^ lo" for c r :: nat by (rule div_mult_self3) simp
  ultimately show ?thesis by (simp only:)
qed

lemma top_bits_nat:
  assumes "i \<le> 32 * length a" "lo \<le> i" "unat w * 2 ^ (i - lo) + limbs a mod 2 ^ i div 2 ^ lo < 2 ^ 64"
  shows "unat (top_bits a lo i w) = unat w * 2 ^ (i - lo) + limbs a mod 2 ^ i div 2 ^ lo"
  using assms
proof (induction a lo i w rule: top_bits.induct)
  case (2 a lo i v)
  let ?b = "limbs a div 2 ^ i mod 2"
  show ?case
  proof (cases "lo \<le> i")
    case True
    have b: "unat (bit_at a i) = ?b" using 2(2) by (simp add: bit_at_nat)
    then have ub: "unat (ucast (bit_at a i) :: u64) = ?b"
      by (simp add: unsigned_ucast_eq take_bit_nat_eq_self order_less_trans [OF mod_less_divisor])
    have e: "unat v * 2 ^ (Suc i - lo) + limbs a mod 2 ^ Suc i div 2 ^ lo =
        (unat v * 2 + ?b) * 2 ^ (i - lo) + limbs a mod 2 ^ i div 2 ^ lo"
      using True by (simp only: div_step_2 [OF True] Suc_diff_le [OF True]) (simp add: algebra_simps)
    have "unat v * 2 + ?b \<le> (unat v * 2 + ?b) * 2 ^ (i - lo)" by simp
    then have small: "unat v * 2 + ?b < 2 ^ 64" using 2(4) e by linarith
    then have "unat (push_bit 1 v OR ucast (bit_at a i)) = unat v * 2 + ?b"
      using unat_or_disjoint [of 1 "push_bit 1 v" "ucast (bit_at a i)"] unat_push_bit_less [of v 1]
      by (simp add: ub)
    with 2(1) [OF True] 2(2,4) True e show ?thesis by simp
  next
    case False
    then have "lo = Suc i" using 2(3) by simp
    then show ?thesis by simp
  qed
qed (simp)

lemma any_bit_iff: "i \<le> 32 * length a \<Longrightarrow> any_bit a i \<longleftrightarrow> limbs a mod 2 ^ i \<noteq> 0"
proof (induction a i rule: any_bit.induct)
  case (2 a i)
  have "bit_at a i \<noteq> 0 \<longleftrightarrow> limbs a div 2 ^ i mod 2 \<noteq> 0"
    using bit_at_nat [of i a] 2(2) by (simp flip: unat_eq_0)
  moreover have "limbs a mod 2 ^ Suc i = 2 ^ i * (limbs a div 2 ^ i mod 2) + limbs a mod 2 ^ i"
    using mod_mult2_eq [of "limbs a" "2 ^ i" 2] by (simp add: mult.commute)
  ultimately show ?case using 2 by auto
qed simp

lemma btop_nat:
  assumes "limbs a < 2 ^ (32 * n)" "1 \<le> n" "n \<le> length a" "want \<le> 64"
  shows "btop (a, n) want = (word_of_nat (limbs a div 2 ^ (blen (limbs a) - want)), limbs a mod 2 ^ (blen (limbs a) - want) \<noteq> 0)"
    "limbs a div 2 ^ (blen (limbs a) - want) < 2 ^ want"
proof -
  let ?v = "limbs a" let ?b = "blen ?v"
  have b: "bbits (a, n) = ?b" using assms by (intro bbits_blen)
  have "?b \<le> 32 * n" using assms(1) by (simp add: blen_le_iff)
  then have bl: "?b \<le> 32 * length a" using assms(3) by simp
  have vb: "?v < 2 ^ ?b" by (rule blen_bounds)
  show lt: "?v div 2 ^ (?b - want) < 2 ^ want"
  proof -
    have "(2 :: nat) ^ ?b \<le> 2 ^ want * 2 ^ (?b - want)" by (simp flip: power_add)
    then show ?thesis using vb by (simp add: less_mult_imp_div_less order_less_le_trans)
  qed
  have "(2 :: nat) ^ want \<le> 2 ^ 64" using assms(4) by (intro power_increasing) auto
  with lt have lt64: "?v div 2 ^ (?b - want) < 2 ^ 64" by simp
  have "unat (top_bits a (?b - want) ?b 0) = ?v div 2 ^ (?b - want)"
    using top_bits_nat [OF bl, of "?b - want" 0] vb lt64 by simp
  then have tb: "top_bits a (?b - want) ?b 0 = word_of_nat (?v div 2 ^ (?b - want))"
    using lt64 by (simp add: word_unat_eq_iff unat_of_nat_small)
  have "any_bit a (?b - want) \<longleftrightarrow> ?v mod 2 ^ (?b - want) \<noteq> 0"
    using bl by (intro any_bit_iff) simp
  then show "btop (a, n) want = (word_of_nat (?v div 2 ^ (?b - want)), ?v mod 2 ^ (?b - want) \<noteq> 0)"
    using tb by (auto simp: btop_def b Let_def)
qed

section \<open>Comparing and subtracting\<close>

lemma mod_limb: "i < length a \<Longrightarrow> limbs a mod 2 ^ (32 * Suc i) = unat (a ! i) * 2 ^ (32 * i) + limbs a mod 2 ^ (32 * i)"
  by (simp add: limbs_take [symmetric] take_Suc_conv_app_nth limbs_append del: mult_Suc_right)

lemma limb_or_0:
  "holds (a, n) v \<Longrightarrow> i < NLIMB \<Longrightarrow> (if i < n then a ! i else 0) = a ! i"
  using limbs_above [of a n i] by (auto simp: holds_def)

lemma lex_less: "x < y \<Longrightarrow> r < B \<Longrightarrow> x * B + r < y * B + s" for x y r s B :: nat
proof -
  assume "x < y" "r < B"
  then have "(x + 1) * B \<le> y * B" by (intro mult_le_mono1) simp
  moreover note \<open>r < B\<close>
  ultimately show ?thesis by simp
qed

lemma bcmp_loop_ge:
  assumes a: "holds a v" and b: "holds b w"
  shows "i \<le> NLIMB \<Longrightarrow> bcmp_loop a b i \<ge> 0 \<longleftrightarrow> w mod 2 ^ (32 * i) \<le> v mod 2 ^ (32 * i)"
proof (induction i)
  case (Suc i)
  let ?x = "fst a ! i" let ?y = "fst b ! i"
  have i: "i < NLIMB" using Suc.prems by simp
  have x: "(if i < snd a then fst a ! i else 0) = ?x" "(if i < snd b then fst b ! i else 0) = ?y"
    using limb_or_0 [OF _ i, of "fst a" "snd a" v] limb_or_0 [OF _ i, of "fst b" "snd b" w] a b by simp_all
  have len: "length (fst a) = NLIMB" "length (fst b) = NLIMB" "limbs (fst a) = v" "limbs (fst b) = w"
    using a b by (auto simp: holds_def split: prod.splits)
  have m: "v mod 2 ^ (32 * Suc i) = unat ?x * 2 ^ (32 * i) + v mod 2 ^ (32 * i)"
    "w mod 2 ^ (32 * Suc i) = unat ?y * 2 ^ (32 * i) + w mod 2 ^ (32 * i)"
    using mod_limb [of i "fst a"] mod_limb [of i "fst b"] i len by simp_all
  have r: "v mod 2 ^ (32 * i) < 2 ^ (32 * i)" "w mod 2 ^ (32 * i) < 2 ^ (32 * i)" by simp_all
  consider "unat ?x = unat ?y" | "unat ?y < unat ?x" | "unat ?x < unat ?y" by linarith
  then show ?case
  proof cases
    case 1
    then have "?x = ?y" by (simp add: word_unat_eq_iff)
    then show ?thesis using Suc x m 1 by (simp add: Let_def del: mult_Suc_right)
  next
    case 2
    then show ?thesis using lex_less [OF 2 r(2), of "v mod 2 ^ (32 * i)"] x
      unfolding m by (auto simp: Let_def word_less_nat_alt)
  next
    case 3
    then show ?thesis using lex_less [OF 3 r(1), of "w mod 2 ^ (32 * i)"] x
      unfolding m by (auto simp: Let_def word_less_nat_alt)
  qed
qed simp

lemma bcmp_ge: "holds a v \<Longrightarrow> holds b w \<Longrightarrow> bcmp a b \<ge> 0 \<longleftrightarrow> w \<le> v"
  using bcmp_loop_ge [of a v b w NLIMB] holds_less_cap [of a v] holds_less_cap [of b w]
  by (simp add: bcmp_def cap_def)

lemma bsub_loop_limbs:
  assumes b: "holds b w"
  shows "i + length xs = NLIMB \<Longrightarrow> unat borrow \<le> 1 \<Longrightarrow>
    \<exists>o'. limbs (bsub_loop b i borrow xs) + limbs (drop i (fst b)) + unat borrow = limbs xs + 2 ^ (32 * length xs) * o' \<and> o' \<le> 1"
proof (induction xs arbitrary: i borrow)
  case (Cons x xs)
  have i: "i < NLIMB" using Cons.prems by simp
  have len: "length (fst b) = NLIMB" using b by (auto simp: holds_def split: prod.splits)
  let ?x = "ucast x :: u64" let ?y = "(if i < snd b then ucast (fst b ! i) else 0) + borrow :: u64"
  have c: "unat (ucast z :: u64) = unat z" "unat z < 2 ^ 32" for z :: u32
    using u32_bound [of z] by (simp_all add: unsigned_ucast_eq take_bit_nat_eq_self)
  have "(if i < snd b then ucast (fst b ! i) else 0 :: u64) = ucast (if i < snd b then fst b ! i else 0)" by simp
  then have y: "unat ?y = unat (fst b ! i) + unat borrow"
    using limb_or_0 [OF _ i, of "fst b" "snd b" w] b c(2) [of "fst b ! i"] Cons.prems(2) by (simp add: unat_add_less c(1))
  have d: "limbs (drop i (fst b)) = unat (fst b ! i) + 2 ^ 32 * limbs (drop (Suc i) (fst b))"
    using i len by (simp add: Cons_nth_drop_Suc [symmetric])
  have u: "unat (ucast z :: u32) = unat z" if "unat z < 2 ^ 32" for z :: u64
    using that by (simp add: unsigned_ucast_eq take_bit_nat_eq_self)
  show ?case
  proof (cases "?x \<ge> ?y")
    case True
    have "unat ?y \<le> unat ?x" using True by (simp only: word_le_nat_alt)
    then have s: "unat (ucast (?x - ?y) :: u32) = unat x - unat ?y" "unat ?y \<le> unat x"
      using c(2) [of x] unat_sub_le [OF True] \<open>unat ?y \<le> unat ?x\<close> unfolding c(1) by (simp_all only: u less_imp_diff_less)
    from Cons.IH [of "Suc i" 0] Cons.prems obtain o' where
      "limbs (bsub_loop b (Suc i) 0 xs) + limbs (drop (Suc i) (fst b)) = limbs xs + 2 ^ (32 * length xs) * o'" "o' \<le> 1"
      by auto
    then have "limbs (bsub_loop b i borrow (x # xs)) + limbs (drop i (fst b)) + unat borrow =
        unat x + 2 ^ 32 * (limbs xs + 2 ^ (32 * length xs) * o')"
      using s True d y by (simp add: Let_def)
    then show ?thesis using \<open>o' \<le> 1\<close> by (intro exI [of _ o']) (simp add: algebra_simps power_add)
  next
    case False
    have lt: "unat x < unat ?y" using False by (simp add: word_le_nat_alt c(1))
    have yl: "unat ?y \<le> 2 ^ 32" using y c(2) [of "fst b ! i"] Cons.prems(2) by simp
    have "unat (?x + 0x100000000) = unat x + 2 ^ 32" using c(2) [of x] by (subst unat_add_less) (simp_all add: c(1))
    then have "unat (?x + 0x100000000 - ?y) = unat x + 2 ^ 32 - unat ?y"
      using yl by (subst unat_sub_le) (simp_all add: word_le_nat_alt)
    then have s: "unat (ucast (?x + 0x100000000 - ?y) :: u32) = unat x + 2 ^ 32 - unat ?y"
      using lt by (subst u) simp_all
    from Cons.IH [of "Suc i" 1] Cons.prems obtain o' where
      o: "limbs (bsub_loop b (Suc i) 1 xs) + limbs (drop (Suc i) (fst b)) + 1 = limbs xs + 2 ^ (32 * length xs) * o'" "o' \<le> 1"
      by auto
    have "limbs (bsub_loop b i borrow (x # xs)) = unat x + 2 ^ 32 - unat ?y + 2 ^ 32 * limbs (bsub_loop b (Suc i) 1 xs)"
      using s False by (simp add: Let_def)
    then have "limbs (bsub_loop b i borrow (x # xs)) + limbs (drop i (fst b)) + unat borrow =
        unat x + 2 ^ 32 * (limbs (bsub_loop b (Suc i) 1 xs) + limbs (drop (Suc i) (fst b)) + 1)"
      using d y yl by simp
    then show ?thesis using o by (intro exI [of _ o']) (simp add: algebra_simps power_add)
  qed
qed (use b in \<open>auto simp: holds_def NLIMB_def split: prod.splits\<close>)

lemma length_bsub_loop [simp]: "length (bsub_loop b i borrow xs) = length xs"
  by (induction b i borrow xs rule: bsub_loop.induct) (simp_all add: Let_def)

lemma bsub_holds:
  assumes a: "holds a v" and b: "holds b w" and le: "w \<le> v"
  shows "holds (bsub a b) (v - w)"
proof -
  obtain x n where x: "a = (x, n)" by force
  let ?d = "bsub_loop b 0 0 x"
  have l: "length x = NLIMB" "limbs x = v" "limbs (fst b) = w" "1 \<le> n" "n \<le> NLIMB" "v < 2 ^ (32 * n)"
    using a b x by (auto simp: holds_def split: prod.splits)
  obtain o' where o: "limbs ?d + w = v + 2 ^ (32 * NLIMB) * o'" "o' \<le> 1"
    using bsub_loop_limbs [OF b, of 0 x 0] l by auto
  have "limbs ?d < 2 ^ (32 * NLIMB)" using limbs_less [of ?d] l by simp
  then have "o' = 0" using o le by (cases o') auto
  then have d: "limbs ?d = v - w" using o by simp
  then show ?thesis
    using trim_holds [of ?d n] l x by (simp add: bsub_def Let_def)
qed

lemma bzero_iff: "holds b v \<Longrightarrow> bzero b \<longleftrightarrow> v = 0"
proof -
  assume b: "holds b v"
  obtain a n where an: "b = (a, n)" by force
  have "list_all (\<lambda>x. x = 0) xs \<longleftrightarrow> limbs xs = 0" for xs
    by (induction xs) (auto simp: unat_eq_0)
  moreover have "limbs (take n a) = v" using b by (simp add: an holds_def limbs_take)
  ultimately show ?thesis by (simp add: bzero_def an)
qed

section \<open>Division\<close>

lemma limbs_or_bit:
  assumes "j < 32 * length q" "limbs q mod 2 ^ Suc j = 0"
  shows "limbs (q[j div 32 := q ! (j div 32) OR push_bit (j mod 32) 1]) = limbs q + 2 ^ j"
proof -
  let ?i = "j div 32" let ?r = "j mod 32" let ?x = "q ! ?i"
  have i: "?i < length q" using assms(1) by (simp add: less_mult_imp_div_less mult.commute)
  have dv: "2 ^ Suc j dvd limbs q" using assms(2) by (simp add: mod_eq_0_iff_dvd)
  have jr: "j = 32 * ?i + ?r" by simp
  have "2 ^ Suc ?r dvd unat ?x"
  proof -
    have "(2 :: nat) ^ Suc j = 2 ^ (32 * ?i + Suc ?r)" by (simp only: add_Suc_right jr [symmetric])
    then have "(2 :: nat) ^ Suc j = 2 ^ (32 * ?i) * 2 ^ Suc ?r" by (simp only: power_add)
    then obtain k where "limbs q = 2 ^ (32 * ?i) * 2 ^ Suc ?r * k" using dv by (auto elim: dvdE)
    then have "limbs q div 2 ^ (32 * ?i) = 2 ^ Suc ?r * k" by simp
    moreover have "(2 :: nat) ^ Suc ?r dvd 2 ^ 32" by (rule le_imp_power_dvd) (simp add: Suc_le_eq)
    ultimately show ?thesis unfolding limbs_nth [OF i] by (simp only: dvd_mod dvd_triv_left)
  qed
  moreover have p: "unat (push_bit ?r 1 :: u32) = 2 ^ ?r"
  proof -
    have "(2 :: nat) ^ ?r < 2 ^ 32" by (intro power_strict_increasing) auto
    then show ?thesis using unat_push_bit_less [of "1 :: u32" ?r] by simp
  qed
  ultimately have u: "unat (?x OR push_bit ?r 1) = unat ?x + 2 ^ ?r"
    using unat_or_disjoint [of "Suc ?r" ?x "push_bit ?r 1"] by simp
  let ?z = "q[?i := 0]"
  have z: "?z ! ?i = 0" "?i < length ?z" using i by auto
  have "q = ?z[?i := ?x]" "q[?i := y] = ?z[?i := y]" for y by simp_all
  then have "limbs q = limbs ?z + unat ?x * 2 ^ (32 * ?i)"
    "limbs (q[?i := ?x OR push_bit ?r 1]) = limbs ?z + (unat ?x + 2 ^ ?r) * 2 ^ (32 * ?i)"
    using limbs_update_0 [OF z(2,1)] u by metis+
  moreover have "2 ^ ?r * 2 ^ (32 * ?i) = (2 :: nat) ^ (?r + 32 * ?i)" by (simp only: power_add)
  moreover have "?r + 32 * ?i = j" by simp
  ultimately show ?thesis by (simp add: algebra_simps)
qed

lemma divide_loop_holds:
  "holds num v \<Longrightarrow> holds den d \<Longrightarrow> 0 < d \<Longrightarrow> v < d * 2 ^ j \<Longrightarrow> length quo = NLIMB \<Longrightarrow> limbs quo mod 2 ^ j = 0 \<Longrightarrow>
   (j > 0 \<Longrightarrow> d * 2 ^ (j - 1) < cap) \<Longrightarrow>
   \<exists>num' quo'. divide_loop j num den quo = Inr (num', quo') \<and> holds num' (v mod d) \<and>
     length quo' = NLIMB \<and> limbs quo' = limbs quo + v div d"
proof (induction j num den quo arbitrary: v rule: divide_loop.induct)
  case (2 j num den quo)
  have den: "length (fst den) = NLIMB" "snd den \<le> NLIMB" "d < 2 ^ (32 * snd den)" "limbs (fst den) = d"
    using 2(4) by (auto simp: holds_def split: prod.splits)
  have "drop (snd den) (fst den) = replicate (NLIMB - snd den) 0"
    by (rule nth_equalityI) (use den limbs_above [of "fst den" "snd den"] in auto)
  then have de: "(take (snd den) (fst den) @ replicate (NLIMB - snd den) 0, snd den) = den"
    by (metis append_take_drop_id prod.collapse)
  note ih = 2(1,2) [unfolded de]
  obtain t where t: "bshl den j = Inr t" "holds t (d * 2 ^ j)"
    using bshl_holds [OF 2(4,5), of j] 2(9) by auto
  from t(1) have e: "divide_loop (Suc j) num den quo =
      (if bcmp num t \<ge> 0
       then bindE (put quo (j div 32) (quo ! (j div 32) OR push_bit (j mod 32) 1)) (divide_loop j (bsub num t) den)
       else divide_loop j num den quo)" by (simp only: divide_loop.simps de bindE.simps)
  have dj: "j > 0 \<Longrightarrow> d * 2 ^ (j - 1) < cap"
    using 2(9) by (cases j) (auto simp: algebra_simps)
  have q0: "limbs quo mod 2 ^ j = 0" "2 ^ Suc j dvd limbs quo"
    using 2(8) by (auto simp: mod_eq_0_iff_dvd intro: dvd_trans [of _ "2 ^ Suc j"])
  have jb: "j < 32 * NLIMB"
  proof -
    have "2 ^ j \<le> d * 2 ^ j" using 2(5) by simp
    also have "\<dots> < cap" using 2(9) by simp
    finally have "(2 :: nat) ^ j < 2 ^ (32 * NLIMB)" unfolding cap_def .
    then show ?thesis by simp
  qed
  show ?case
  proof (cases "d * 2 ^ j \<le> v")
    case True
    let ?q = "quo[j div 32 := quo ! (j div 32) OR push_bit (j mod 32) 1]" let ?v = "v - d * 2 ^ j"
    have lq: "limbs ?q = limbs quo + 2 ^ j" using limbs_or_bit [of j quo] 2(7,8) jb by simp
    have p: "put quo (j div 32) (quo ! (j div 32) OR push_bit (j mod 32) 1) = Inr ?q"
      using jb 2(7) by (simp add: put_def less_mult_imp_div_less mult.commute)
    have g: "bcmp num t \<ge> 0" using bcmp_ge [OF 2(3) t(2)] True by simp
    have h: "holds (bsub num t) ?v" using bsub_holds [OF 2(3) t(2) True] .
    have small: "?v < d * 2 ^ j" using 2(6) True by (simp add: algebra_simps less_diff_conv2)
    have q: "length ?q = NLIMB" "limbs ?q mod 2 ^ j = 0" using 2(7) lq q0(1) by simp_all
    have vd: "v = 2 ^ j * d + ?v" using True by (simp add: mult.commute)
    have "(2 ^ j * d + r) mod d = r mod d" "(2 ^ j * d + r) div d = 2 ^ j + r div d" for r
      using 2(5) by simp_all
    from this [of ?v] have "v mod d = ?v mod d" "v div d = 2 ^ j + ?v div d" unfolding vd [symmetric] by simp_all
    moreover have s: "divide_loop (Suc j) num den quo = divide_loop j (bsub num t) den ?q"
      using g by (simp only: e p bindE.simps if_True)
    ultimately show ?thesis unfolding s using ih(1) [OF t(1) g p h 2(4,5) small q dj] lq by (simp add: add.assoc)
  next
    case False
    then have g: "\<not> bcmp num t \<ge> 0" using bcmp_ge [OF 2(3) t(2)] by simp
    then have s: "divide_loop (Suc j) num den quo = divide_loop j num den quo" by (simp only: e if_False)
    show ?thesis unfolding s using ih(2) [OF t(1) g 2(3-5) _ 2(7) q0(1) dj] False by simp
  qed
qed auto

end
