(* ===== verification/StrtodRound.thy ===== *)
theory StrtodRound
  imports StrtodDiv SoftFloatCorrect
begin

text \<open>
  \<open>assemble\<close> rounds correctly: the 54 bits and the sticky bit decide the double nearest to the number
  they were cut from, subnormal doubles and overflow included.
\<close>

section \<open>The significand\<close>

text \<open>\<open>rounds_down y s st\<close>: \<open>s\<close> is \<open>y\<close> rounded down, and \<open>st\<close> says if anything was lost.\<close>

definition rounds_down :: "real \<Rightarrow> nat \<Rightarrow> bool \<Rightarrow> bool" where
  "rounds_down y s st \<longleftrightarrow> real s \<le> y \<and> y < real s + 1 \<and> (st \<longleftrightarrow> y \<noteq> real s)"

lemma rounds_down_div:
  assumes "rounds_down y s st"
  shows "rounds_down (y / 2 ^ d) (s div 2 ^ d) (s mod 2 ^ d \<noteq> 0 \<or> st)"
proof -
  have "real s = real (2 ^ d * (s div 2 ^ d) + s mod 2 ^ d)" by (simp only: mult_div_mod_eq)
  then have s: "real s = 2 ^ d * real (s div 2 ^ d) + real (s mod 2 ^ d)"
    by (simp only: of_nat_add of_nat_mult of_nat_power of_nat_numeral)
  have "s mod 2 ^ d + 1 \<le> 2 ^ d" by (simp add: Suc_le_eq)
  then have "real (s mod 2 ^ d + 1) \<le> real (2 ^ d)" by (simp only: of_nat_le_iff)
  then have r: "real (s mod 2 ^ d) + 1 \<le> 2 ^ d" by simp
  have y: "real s \<le> y" "y < real s + 1" "st \<longleftrightarrow> y \<noteq> real s" using assms by (auto simp: rounds_down_def)
  have "2 ^ d * real (s div 2 ^ d) \<le> y" "y < 2 ^ d * (real (s div 2 ^ d) + 1)"
    using s y(1,2) r by (simp_all add: algebra_simps)
  then have "real (s div 2 ^ d) \<le> y / 2 ^ d" "y / 2 ^ d < real (s div 2 ^ d) + 1"
    by (simp_all add: field_simps)
  moreover have "y / 2 ^ d = real (s div 2 ^ d) \<longleftrightarrow> y = 2 ^ d * real (s div 2 ^ d)" by (simp add: field_simps)
  then have "y / 2 ^ d = real (s div 2 ^ d) \<longleftrightarrow> s mod 2 ^ d = 0 \<and> y = real s"
    using s y(1) by (auto simp: algebra_simps)
  ultimately show ?thesis using y(3) by (auto simp: rounds_down_def)
qed

definition goes_up :: "nat \<Rightarrow> bool \<Rightarrow> bool" where
  "goes_up s st \<longleftrightarrow> odd s \<and> (st \<or> odd (s div 2))"

lemma rounds_down_half:
  assumes "rounds_down y s st"
  shows "real (s div 2) \<le> y / 2" "y / 2 < real (s div 2) + 1"
    "goes_up s st \<longleftrightarrow> y / 2 - real (s div 2) > 1 / 2 \<or> (y / 2 - real (s div 2) = 1 / 2 \<and> odd (s div 2))"
proof -
  have y: "real s \<le> y" "y < real s + 1" "st \<longleftrightarrow> y \<noteq> real s" using assms by (auto simp: rounds_down_def)
  have h: "rounds_down (y / 2) (s div 2) (s mod 2 \<noteq> 0 \<or> st)" using rounds_down_div [OF assms, of 1] by simp
  then show "real (s div 2) \<le> y / 2" "y / 2 < real (s div 2) + 1" by (auto simp: rounds_down_def)
  show "goes_up s st \<longleftrightarrow> y / 2 - real (s div 2) > 1 / 2 \<or> (y / 2 - real (s div 2) = 1 / 2 \<and> odd (s div 2))"
  proof (cases "odd s")
    case True
    then have "real s = 2 * real (s div 2) + 1" by (metis odd_two_times_div_two_succ of_nat_1 of_nat_add of_nat_mult of_nat_numeral)
    then show ?thesis using True y by (auto simp: goes_up_def field_simps)
  next
    case False
    then have "real s = 2 * real (s div 2)" by (metis dvd_mult_div_cancel of_nat_mult of_nat_numeral)
    then show ?thesis using False y by (auto simp: goes_up_def field_simps)
  qed
qed

lemma unat_half: "unat (drop_bit 1 (w :: u64)) = unat w div 2"
  by (simp add: unat_drop_bit_div)

lemma goes_up_word:
  "w AND 1 \<noteq> 0 \<and> (st \<or> drop_bit 1 w AND 1 \<noteq> 0) \<longleftrightarrow> goes_up (unat (w :: u64)) st"
  by (simp add: goes_up_def and_1_neq_0_iff unat_drop_bit_div)

text \<open>The significand after rounding, and the carry into the exponent.\<close>

lemma round_significand_nat:
  assumes "unat w < 2 ^ 54"
  obtains mant e where "round_significand w st t = (mant, e)"
    "unat mant = unat w div 2 + of_bool (goes_up (unat w) st) \<and> e = t \<and> unat mant < 2 ^ 53 \<or>
     unat mant = 2 ^ 52 \<and> e = t + 1 \<and> unat w div 2 + of_bool (goes_up (unat w) st) = 2 ^ 53"
proof -
  let ?m = "drop_bit 1 w"
  have m: "unat ?m < 2 ^ 53" using assms by (simp add: unat_drop_bit_div less_mult_imp_div_less)
  then have m1: "unat (?m + 1) = unat ?m + 1" by (subst unat_add_less) auto
  have eq: "?m + 1 = 0x20000000000000 \<longleftrightarrow> unat ?m + 1 = 2 ^ 53"
    using m1 by (simp add: word_unat_eq_iff)
  have d: "unat (drop_bit 1 (?m + 1)) = (unat ?m + 1) div 2" by (simp only: unat_half m1)
  show ?thesis
  proof (cases "goes_up (unat w) st")
    case True
    then have c: "w AND 1 \<noteq> 0 \<and> (st \<or> drop_bit 1 w AND 1 \<noteq> 0)" by (simp only: goes_up_word)
    show ?thesis
    proof (cases "?m + 1 = 0x20000000000000")
      case t: True
      have "round_significand w st t = (drop_bit 1 (?m + 1), t + 1)"
        unfolding round_significand_def Let_def if_P [OF c] if_P [OF t] ..
      moreover have "unat ?m + 1 = 2 ^ 53" using t eq by simp
      ultimately show ?thesis using that [of "drop_bit 1 (?m + 1)" "t + 1"] d True unat_half [of w] by simp
    next
      case f: False
      have "round_significand w st t = (?m + 1, t)"
        unfolding round_significand_def Let_def if_P [OF c] if_not_P [OF f] ..
      moreover have "unat (?m + 1) < 2 ^ 53" using m m1 f eq by linarith
      ultimately show ?thesis using that [of "?m + 1" t] True m1 by (simp add: unat_drop_bit_div)
    qed
  next
    case False
    then have c: "\<not> (w AND 1 \<noteq> 0 \<and> (st \<or> drop_bit 1 w AND 1 \<noteq> 0))" by (simp only: goes_up_word) simp
    have "round_significand w st t = (?m, t)"
      unfolding round_significand_def Let_def if_not_P [OF c] ..
    then show ?thesis using that [of ?m t] False m by (simp add: unat_drop_bit_div)
  qed
qed

section \<open>The pattern\<close>

lemma with_sign_rounds: "rne 52 2047 x (unat r) \<Longrightarrow> rounds s x (with_sign s r)"
proof -
  assume r: "rne 52 2047 x (unat r)"
  have "with_sign s r = (if s then SIGNBIT OR r else r)" by (simp add: with_sign_def or.commute)
  then show ?thesis using rounds_signed [OF r rne_pattern_bound [OF r]] by (simp only:)
qed

lemma assemble_normal:
  assumes y: "rounds_down y (unat w) st" and w: "2 ^ 53 \<le> unat w" "unat w < 2 ^ 54" and t: "- 1022 \<le> t"
  shows "rounds neg (y / 2 * 2 ^ nat (t + 1022)) (assemble_rest neg False w st t)"
proof -
  let ?l = "unat w div 2" let ?up = "goes_up (unat w) st"
  define n where "n = nat (t + 1022)"
  have tn: "t = int n - 1022" using t by (simp add: n_def)
  have l: "2 ^ 52 \<le> ?l" "?l < 2 ^ 53" using w by simp_all
  obtain mant e where me: "round_significand w st t = (mant, e)"
    "unat mant = ?l + of_bool ?up \<and> e = t \<and> unat mant < 2 ^ 53 \<or> unat mant = 2 ^ 52 \<and> e = t + 1 \<and> ?l + of_bool ?up = 2 ^ 53"
    using round_significand_nat [OF w(2)] by blast
  have mm: "2 ^ 52 \<le> unat mant" "unat mant < 2 ^ 53" using me(2) l by auto
  have ar: "assemble_rest neg False w st t = with_sign neg (if e \<ge> 1024 then 0x7ff0000000000000
      else push_bit 52 (word_of_int (e + 1023)) OR (mant AND 0xfffffffffffff))"
    using me t by (auto simp: assemble_rest_def)
  show ?thesis
  proof (cases "t \<le> 1023")
    case False
    then have "2046 \<le> n" by (simp add: n_def)
    moreover have "(2 :: real) ^ 52 \<le> y / 2"
      using rounds_down_half(1) [OF y] l(1) by (meson numeral_power_le_of_nat_cancel_iff order_trans)
    ultimately have "rne 52 2047 (y / 2 * 2 ^ n) (2047 * 2 ^ 52)" by (intro rne_overflow) auto
    moreover have "e \<ge> 1024" using me(2) False by auto
    ultimately show ?thesis unfolding ar n_def [symmetric] by (intro with_sign_rounds) simp
  next
    case True
    then have n: "n \<le> 2045" by (simp add: n_def)
    have r: "rne 52 2047 (y / 2 * 2 ^ n) (n * 2 ^ 52 + (if ?up then Suc ?l else ?l))"
      using l n by (intro rne_round rounds_down_half [OF y]) auto
    have "(0xfffffffffffff :: u64) = mask 52" by (simp add: mask_eq_exp_minus_1)
    then have f: "unat (mant AND 0xfffffffffffff) = unat mant - 2 ^ 52"
      using mm by (simp only: and_all_ones) (simp add: mod_if)
    have "unat (if e \<ge> 1024 then 0x7ff0000000000000 else push_bit 52 (word_of_int (e + 1023)) OR (mant AND 0xfffffffffffff) :: u64)
        = n * 2 ^ 52 + (if ?up then Suc ?l else ?l)"
    proof (cases "e \<ge> 1024")
      case inf: True
      then have "e = 1024" "?l + of_bool ?up = 2 ^ 53" "n = 2045" using me(2) True tn by auto
      then show ?thesis by (auto simp: of_bool_def split: if_splits)
    next
      case fin: False
      have "unat (push_bit 52 (word_of_int (e + 1023)) OR (mant AND 0xfffffffffffff) :: u64) = nat (e + 1023) * 2 ^ 52 + unat (mant AND 0xfffffffffffff)"
        using fin me(2) t f mm unat_field_or [of "e + 1023" "mant AND 0xfffffffffffff"] by auto
      moreover have "e = t \<Longrightarrow> nat (e + 1023) = n + 1" "e = t + 1 \<Longrightarrow> nat (e + 1023) = n + 2" using tn by auto
      ultimately show ?thesis using fin f mm me(2) by (elim disjE conjE) (simp_all add: algebra_simps of_bool_def split: if_splits)
    qed
    with r show ?thesis unfolding ar n_def [symmetric] by (intro with_sign_rounds) simp
  qed
qed

lemma assemble_sub:
  assumes y: "rounds_down y (unat w) st" and w: "unat w < 2 ^ 53"
  shows "rounds neg (y / 2) (assemble_rest neg True w st t)"
proof -
  let ?l = "unat w div 2" let ?up = "goes_up (unat w) st"
  have w': "unat w < 2 ^ 54" using w by simp
  obtain mant e where me: "round_significand w st t = (mant, e)"
    "unat mant = ?l + of_bool ?up \<and> e = t \<and> unat mant < 2 ^ 53 \<or> unat mant = 2 ^ 52 \<and> e = t + 1 \<and> ?l + of_bool ?up = 2 ^ 53"
    using round_significand_nat [OF w'] by blast
  have l: "?l < 2 ^ 52" using w by simp
  then have m: "unat mant = (if ?up then Suc ?l else ?l)" using me(2) by (auto simp: of_bool_def split: if_splits)
  have "rne 52 2047 (y / 2 * 2 ^ 0) (0 * 2 ^ 52 + (if ?up then Suc ?l else ?l))"
    using l by (intro rne_round rounds_down_half [OF y]) auto
  then have "rne 52 2047 (y / 2) (unat mant)" by (simp only: m) simp
  moreover have "assemble_rest neg True w st t = with_sign neg mant" using me(1) by (simp add: assemble_rest_def)
  ultimately show ?thesis by (simp add: with_sign_rounds)
qed

lemma assemble_rounds:
  assumes y: "rounds_down y (unat w) st" and w: "2 ^ 53 \<le> unat w" "unat w < 2 ^ 54"
  shows "rounds neg (y * 2 powi (t + 1021)) (assemble neg w st t)"
proof -
  have w0: "w \<noteq> 0" using w(1) by auto
  consider (normal) "- 1022 \<le> t" | (sub) "t < - 1022" "- 1022 - t < 54" | (tiny) "- 1022 - t \<ge> 54" by linarith
  then show ?thesis
  proof cases
    case normal
    have "t + 1021 = (- 1) + int (nat (t + 1022))" using normal by simp
    then have "(2 :: real) powi (t + 1021) = 2 powi (- 1) * 2 ^ nat (t + 1022)" by (simp only: powi_int_diff)
    then have eq: "y * 2 powi (t + 1021) = y / 2 * 2 ^ nat (t + 1022)" by (simp add: power_int_minus)
    have "assemble neg w st t = assemble_rest neg False w st t" using w0 normal by (simp add: assemble_def)
    then show ?thesis unfolding eq using assemble_normal [OF y w normal, of neg] by simp
  next
    case tiny
    have yb: "0 \<le> y" "y < 2 ^ 54"
    proof -
      have "real (unat w) + 1 \<le> 2 ^ 54"
        using w(2) by (metis Suc_eq_plus1 Suc_leI of_nat_1 of_nat_add of_nat_le_iff of_nat_numeral of_nat_power)
      then show "0 \<le> y" "y < 2 ^ 54" using y by (auto simp: rounds_down_def intro: order_trans [OF of_nat_0_le_iff])
    qed
    have "(2 :: real) powi (t + 1021) \<le> 2 powi (- 55)" using tiny by (intro power_int_increasing) auto
    then have "y * 2 powi (t + 1021) \<le> y * 2 powi (- 55)" using yb by (intro mult_left_mono) auto
    also have "\<dots> < 2 ^ 54 * 2 powi (- 55)" using yb by (intro mult_strict_right_mono) auto
    finally have "2 * (y * 2 powi (t + 1021)) < 1" by (simp add: power_int_minus)
    moreover have "0 \<le> y * 2 powi (t + 1021)" using yb by simp
    moreover have "assemble neg w st t = (if neg then SIGNBIT else 0)"
      using w0 tiny by (simp add: assemble_def with_sign_def Let_def)
    ultimately show ?thesis using rounds_zero [of "y * 2 powi (t + 1021)" neg] by (simp only:)
  next
    case sub
    define d where "d = nat (- 1022 - t)"
    have d: "1 \<le> d" "d < 54" "t = - 1022 - int d" using sub by (auto simp: d_def)
    have wd: "unat (drop_bit d w) = unat w div 2 ^ d" by (rule unat_drop_bit_div)
    have "(push_bit d 1 - 1 :: u64) = mask d" by (simp add: mask_eq_exp_minus_1 push_bit_eq_mult)
    then have lost: "w AND (push_bit d 1 - 1) \<noteq> 0 \<longleftrightarrow> unat w mod 2 ^ d \<noteq> 0"
      using unat_and_mask_mod [of w d] by (simp flip: unat_eq_0)
    have c: "rounds_down (y / 2 ^ d) (unat (drop_bit d w)) (unat w mod 2 ^ d \<noteq> 0 \<or> st)"
      unfolding wd by (rule rounds_down_div [OF y])
    have "(2 :: nat) ^ d \<le> 2 ^ 53" using d(2) by (intro power_increasing) auto
    then have "1 \<le> unat w div 2 ^ d" using w(1) by (simp add: Suc_le_eq div_greater_zero_iff)
    then have nz: "drop_bit d w \<noteq> 0" using wd by auto
    have "unat w div 2 ^ d \<le> unat w div 2 ^ 1" using d(1) by (intro div_le_mono2 power_increasing) auto
    then have small: "unat (drop_bit d w) < 2 ^ 53" using w(2) wd by simp
    have "assemble neg w st t = assemble_rest neg True (drop_bit d w) (unat w mod 2 ^ d \<noteq> 0 \<or> st) (- 1022)"
      using w0 sub nz d lost by (simp add: assemble_def d_def [symmetric] Let_def del: push_bit_eq_0_iff)
    moreover have "y * 2 powi (t + 1021) = y / 2 ^ d / 2"
    proof -
      have "t + 1021 + int d = - 1" using d by simp
      then have "(2 :: real) powi (t + 1021) * 2 ^ d = 2 powi (- 1)" by (simp only: powi_int_diff [symmetric])
      then show ?thesis by (simp add: power_int_minus field_simps)
    qed
    ultimately show ?thesis using assemble_sub [OF c small, of neg "- 1022"] by simp
  qed
qed

end
