(* ===== verification/StrtodDecimal.thy ===== *)
theory StrtodDecimal
  imports StrtodRound
begin

text \<open>
  The decimal branch of \<open>strtod\<close>: the big numbers hold the quotient exactly enough, and the digits
  beyond the 800 that are kept cannot matter.
\<close>

section \<open>A number of more than 54 bits\<close>

lemma assemble_big_rounds:
  assumes a: "limbs a = v" "v < 2 ^ (32 * n)" "1 \<le> n" "n \<le> length a" and v: "0 < v"
    and x: "rounds_down x v st" and big: "st \<Longrightarrow> 54 \<le> blen v"
  shows "rounds neg (x * 2 powi (1074 - shiftby)) (assemble_big neg (a, n) st shiftby)"
proof -
  let ?b = "blen v"
  have bb: "bbits (a, n) = ?b" using a by (intro bbits_blen [of a n, unfolded a(1)]) auto
  have bt: "btop (a, n) 54 = (word_of_nat (v div 2 ^ (?b - 54)), v mod 2 ^ (?b - 54) \<noteq> 0)"
    "v div 2 ^ (?b - 54) < 2 ^ 54"
    using btop_nat [of a n 54] a by simp_all
  show ?thesis
  proof (cases "54 \<le> ?b")
    case True
    define d where "d = ?b - 54"
    have w: "unat (word_of_nat (v div 2 ^ d) :: u64) = v div 2 ^ d"
      using bt(2) by (intro unat_of_nat_small) (simp add: d_def)
    have "53 + d = ?b - 1" using True by (simp add: d_def)
    then have "2 ^ 53 * 2 ^ d \<le> v"
      using blen_bounds(2) [OF v] by (simp only: power_add [symmetric])
    then have lo: "2 ^ 53 \<le> v div 2 ^ d" by (simp add: less_eq_div_iff_mult_less_eq)
    have c: "rounds_down (x / 2 ^ d) (unat (word_of_nat (v div 2 ^ d) :: u64)) (v mod 2 ^ d \<noteq> 0 \<or> st)"
      unfolding w by (rule rounds_down_div [OF x])
    have e: "assemble_big neg (a, n) st shiftby =
        assemble neg (word_of_nat (v div 2 ^ d)) (v mod 2 ^ d \<noteq> 0 \<or> st) (int ?b - 1 - shiftby)"
      using True by (simp add: assemble_big_def bb bt(1) d_def Let_def)
    have "int ?b - 1 - shiftby + 1021 = 1074 - shiftby + int d" using True by (simp add: d_def)
    then have "x / 2 ^ d * 2 powi (int ?b - 1 - shiftby + 1021) = x * 2 powi (1074 - shiftby)"
      by (simp only: powi_int_diff) simp
    then show ?thesis
      using assemble_rounds [OF c, of neg "int ?b - 1 - shiftby"] lo bt(2) unfolding w e by (simp add: d_def)
  next
    case False
    then have st: "\<not> st" using big by blast
    then have xv: "x = real v" using x by (simp add: rounds_down_def)
    define d where "d = 54 - ?b"
    have db: "?b + d = 54" using False by (simp add: d_def)
    have lt: "v * 2 ^ d < 2 ^ 54"
    proof -
      have "v * 2 ^ d < 2 ^ ?b * 2 ^ d" using blen_bounds(1) [of v] by simp
      then show ?thesis by (simp only: power_add [symmetric] db)
    qed
    have ge: "2 ^ 53 \<le> v * 2 ^ d"
    proof -
      have "2 ^ (?b - 1) * 2 ^ d \<le> v * 2 ^ d" using blen_bounds(2) [OF v] by (rule mult_le_mono1)
      moreover have "?b - 1 + d = 53" using db blen_pos [OF v] by simp
      ultimately show ?thesis by (simp only: power_add [symmetric])
    qed
    have uv: "unat (word_of_nat v :: u64) = v"
      using blen_bounds(1) [of v] False by (intro unat_of_nat_small order_less_le_trans [OF blen_bounds(1)] power_increasing) auto
    have w: "unat (push_bit d (word_of_nat v) :: u64) = v * 2 ^ d"
      using lt by (subst unat_push_bit_less) (simp_all add: uv)
    have c: "rounds_down (x * 2 ^ d) (unat (push_bit d (word_of_nat v) :: u64)) False"
      unfolding w xv by (simp add: rounds_down_def)
    have e: "assemble_big neg (a, n) st shiftby = assemble neg (push_bit d (word_of_nat v)) False (int ?b - 1 - shiftby)"
      using False st by (simp add: assemble_big_def bb bt(1) d_def Let_def)
    have "int ?b - 1 - shiftby + 1021 + int d = 1074 - shiftby" using db by simp
    then have "2 powi (int ?b - 1 - shiftby + 1021) * 2 ^ d = (2 :: real) powi (1074 - shiftby)"
      by (simp only: powi_int_diff [symmetric])
    then have "x * 2 ^ d * 2 powi (int ?b - 1 - shiftby + 1021) = x * 2 powi (1074 - shiftby)"
      by (simp only: mult.assoc mult.commute)
    then show ?thesis
      using assemble_rounds [OF c, of neg "int ?b - 1 - shiftby"] lt ge unfolding w e by (simp only:)
  qed
qed

section \<open>Digits that are not kept\<close>

text \<open>Two numbers with no midpoint of neighbouring doubles between them round alike.\<close>

lemma rne_same:
  assumes x: "rne p w x k" and in_x: "lo < x" "x < hi" and in_y: "lo < y" "y < hi"
    and none: "\<And>j. \<not> (lo < (real (mag p j) + real (mag p (Suc j))) / 2 \<and> (real (mag p j) + real (mag p (Suc j))) / 2 < hi)"
  shows "rne p w y k"
proof -
  have strict: "\<bar>y - mag p k\<bar> < \<bar>y - mag p j\<bar>" if j: "j \<le> w * 2 ^ p" "j \<noteq> k" for j
  proof (cases "k < j")
    case True
    let ?m = "(real (mag p k) + real (mag p (Suc k))) / 2"
    have k1: "Suc k \<le> w * 2 ^ p" "mag p k < mag p (Suc k)" using True j by (auto simp: mag_less_Suc)
    then have "\<bar>x - mag p k\<bar> \<le> \<bar>x - mag p (Suc k)\<bar>" using x by (simp only: rne_def)
    then have "x \<le> ?m" using k1(2) by (auto simp: field_simps)
    then have "y < ?m" using none [of k] in_x in_y by (metis not_less order.strict_trans1 order_less_le)
    moreover have "mag p (Suc k) \<le> mag p j" using True by (simp add: mag_mono)
    ultimately show ?thesis using k1(2) by (auto simp: field_simps)
  next
    case False
    then obtain i where i: "k = Suc i" "j \<le> i" using j(2) by (metis Suc_lessD gr0_implies_Suc less_Suc_eq_le linorder_neqE_nat not_less0 zero_less_iff_neq_zero)
    let ?m = "(real (mag p i) + real (mag p (Suc i))) / 2"
    have k1: "i \<le> w * 2 ^ p" "mag p i < mag p (Suc i)" using i x by (auto simp: mag_less_Suc rne_def)
    then have "\<bar>x - mag p k\<bar> \<le> \<bar>x - mag p i\<bar>" using x by (simp only: rne_def)
    then have "?m \<le> x" using k1(2) i by (auto simp: field_simps)
    then have "?m < y" using none [of i] in_x in_y by (metis not_less order.strict_trans2 order_less_le)
    moreover have "mag p j \<le> mag p i" using i by (simp add: mag_mono)
    ultimately show ?thesis using k1(2) i by (auto simp: field_simps)
  qed
  show ?thesis using x strict by (force simp: rne_def)
qed

text \<open>Between a number of 800 digits and the next there is no such midpoint.\<close>

lemma mag_midpoint:
  obtains m n where "m < 2 ^ 54" "mag 52 j + mag 52 (Suc j) = m * 2 ^ n"
proof -
  define n where "n = j div 2 ^ 52 - 1"
  define low where "low = j - n * 2 ^ 52"
  have j: "j = n * 2 ^ 52 + low" "n = 0 \<or> 2 ^ 52 \<le> low" "low < 2 ^ 53"
    unfolding low_def n_def by auto
  have "mag 52 j = low * 2 ^ n" unfolding j(1) by (rule mag_enc) (use j in auto)
  moreover have "mag 52 (Suc j) = Suc low * 2 ^ n"
    unfolding j(1) add_Suc_right [symmetric] by (rule mag_enc) (use j in auto)
  ultimately have "mag 52 j + mag 52 (Suc j) = (2 * low + 1) * 2 ^ n" by (simp add: algebra_simps)
  then show ?thesis using that [of "2 * low + 1" n] j(3) by simp
qed

lemma many_digits: "(2 :: nat) ^ 54 * 5 ^ 1075 < 10 ^ 799"
proof -
  have "(5 :: nat) ^ 12 < 2 ^ 28" by simp
  then have "((5 :: nat) ^ 12) ^ 23 < (2 ^ 28) ^ 23" by (rule power_strict_mono) simp_all
  moreover have "12 * 23 = (276 :: nat)" "28 * 23 = (644 :: nat)" by simp_all
  ultimately have a: "(5 :: nat) ^ 276 < 2 ^ 644" by (simp only: power_mult [symmetric])
  have pos: "0 < (5 :: nat) ^ 799" "0 < (2 :: nat) ^ 54" by (simp_all only: zero_less_power zero_less_numeral)
  have "(2 :: nat) ^ 54 * 5 ^ (276 + 799) = 2 ^ 54 * 5 ^ 276 * 5 ^ 799" by (simp only: power_add mult.assoc)
  also have "\<dots> < 2 ^ 54 * 2 ^ 644 * 5 ^ 799" 
    by (intro mult_strict_right_mono mult_strict_left_mono a pos)
  also have "\<dots> \<le> 2 ^ 799 * 5 ^ 799" 
    by (simp only: power_add [symmetric]) (rule mult_le_mono1, rule power_increasing, simp_all)
  also have "\<dots> = (2 * 5) ^ 799" by (simp only: power_mult_distrib)
  finally have "(2 :: nat) ^ 54 * 5 ^ (276 + 799) < (2 * 5) ^ 799" .
  moreover have "276 + 799 = (1075 :: nat)" "2 * 5 = (10 :: nat)" by simp_all
  ultimately show ?thesis by (simp only:)
qed

lemma no_midpoint:
  assumes d: "10 ^ 799 \<le> d"
  shows "\<not> (d * 2 ^ 1075 < (mag 52 j + mag 52 (Suc j)) * 10 ^ t \<and> (mag 52 j + mag 52 (Suc j)) * 10 ^ t < (d + 1) * 2 ^ 1075)"
proof
  assume b: "d * 2 ^ 1075 < (mag 52 j + mag 52 (Suc j)) * 10 ^ t \<and> (mag 52 j + mag 52 (Suc j)) * 10 ^ t < (d + 1) * 2 ^ 1075"
  obtain m n where m: "m < 2 ^ 54" "mag 52 j + mag 52 (Suc j) = m * 2 ^ n" by (rule mag_midpoint)
  have "(10 :: nat) ^ t = 2 ^ t * 5 ^ t" by (simp flip: power_mult_distrib)
  then have e: "(mag 52 j + mag 52 (Suc j)) * 10 ^ t = m * 5 ^ t * 2 ^ (n + t)"
    unfolding m by (simp add: power_add)
  show False
  proof (cases "1075 \<le> n + t")
    case True
    then have "(2 :: nat) ^ (n + t) = 2 ^ (n + t - 1075) * 2 ^ 1075" by (simp only: power_add [symmetric] le_add_diff_inverse2)
    then have "(mag 52 j + mag 52 (Suc j)) * 10 ^ t = (m * 5 ^ t * 2 ^ (n + t - 1075)) * 2 ^ 1075"
      unfolding e by (simp only: mult.assoc)
    then obtain q where "(mag 52 j + mag 52 (Suc j)) * 10 ^ t = q * 2 ^ 1075" by blast
    with b have "d < q" "q < d + 1" by (metis mult_less_cancel2)+
    then show False by simp
  next
    case False
    then have le: "t \<le> 1075" "n + t \<le> 1075" by simp_all
    have "1 \<le> (5 :: nat)" "1 \<le> (2 :: nat)" by simp_all
    note t = power_increasing [OF le(1) this(1)] power_increasing [OF le(2) this(2)]
    have "m * 5 ^ t \<le> 2 ^ 54 * 5 ^ 1075" by (rule mult_le_mono [OF less_imp_le [OF m(1)] t(1)])
    also have "\<dots> < 10 ^ 799" by (rule many_digits)
    also have "\<dots> \<le> d" by (rule d)
    finally have "m * 5 ^ t * 2 ^ (n + t) \<le> d * 2 ^ 1075" by (rule mult_le_mono [OF less_imp_le t(2)])
    then show False using b e by linarith
  qed
qed

section \<open>The value of the digits\<close>

definition dnum :: "nat \<Rightarrow> nat list \<Rightarrow> nat" where
  "dnum v ds = foldl (\<lambda>v d. v * 10 + d) v ds"

lemma dnum_simps [simp]: "dnum v [] = v" "dnum v (d # ds) = dnum (v * 10 + d) ds"
  by (simp_all add: dnum_def)

lemma dnum_append: "dnum v (xs @ ys) = dnum (dnum v xs) ys"
  by (simp add: dnum_def)

lemma dnum_shift: "dnum v ds = v * 10 ^ length ds + dnum 0 ds"
proof (induction ds arbitrary: v)
  case (Cons d ds)
  show ?case using Cons [of "v * 10 + d"] Cons [of d] by (simp add: algebra_simps)
qed simp

lemma dnum_less: "\<forall>d \<in> set ds. d < 10 \<Longrightarrow> dnum 0 ds < 10 ^ length ds"
proof (induction ds)
  case (Cons d ds)
  then have "dnum 0 ds < 10 ^ length ds" "d + 1 \<le> 10" by auto
  then have "dnum 0 (d # ds) < (d + 1) * 10 ^ length ds" using dnum_shift [of d ds] by simp
  also have "\<dots> \<le> 10 * 10 ^ length ds" using \<open>d + 1 \<le> 10\<close> by (rule mult_le_mono1)
  finally show ?case by simp
qed simp

lemma dnum_ge: "ds \<noteq> [] \<Longrightarrow> hd ds \<noteq> 0 \<Longrightarrow> 10 ^ (length ds - 1) \<le> dnum 0 ds"
  using dnum_shift [of "hd ds" "tl ds"] by (cases ds) (auto intro: trans_le_add1)

lemma dnum_eq_0_iff: "dnum 0 ds = 0 \<longleftrightarrow> (\<forall>d \<in> set ds. d = 0)"
proof (induction ds)
  case (Cons d ds)
  then show ?case using dnum_shift [of d ds] by auto
qed simp

lemma unat_digit: "d < 10 \<Longrightarrow> unat (word_of_nat d :: u64) = d"
  by (intro unat_of_nat_small) auto

lemma load_digits_holds:
  "holds b v \<Longrightarrow> \<forall>d \<in> set ds. d < 10 \<Longrightarrow> dnum v ds < cap \<Longrightarrow> \<exists>b'. load_digits b ds = Inr b' \<and> holds b' (dnum v ds)"
proof (induction ds arbitrary: b v)
  case (Cons d ds)
  have "v * 10 + d \<le> dnum v (d # ds)"
  proof -
    have "v * 10 + d \<le> (v * 10 + d) * 10 ^ length ds" by simp
    then show ?thesis unfolding dnum_simps dnum_shift [of "v * 10 + d" ds] by (rule trans_le_add1)
  qed
  then have c: "v * unat (10 :: u64) < cap" "v * 10 + d < cap" using Cons.prems(3) by simp_all
  have d: "d < 10" using Cons.prems(2) by simp
  obtain b1 where b1: "bmul b 10 = Inr b1" "holds b1 (v * 10)"
    using bmul_holds [OF Cons.prems(1) _ _ c(1)] by auto
  have "unat (word_of_nat d :: u64) < 2 ^ 32" "v * 10 + unat (word_of_nat d :: u64) < cap"
    using d c(2) by (simp_all add: unat_digit)
  then obtain b2 where b2: "badd b1 (word_of_nat d) = Inr b2" "holds b2 (v * 10 + d)"
    using badd_holds [OF b1(2), of "word_of_nat d"] unfolding unat_digit [OF d] by blast
  show ?case using Cons.IH [OF b2(2)] Cons.prems b1(1) b2(1) by simp
qed simp

lemma mul10_holds: "holds b v \<Longrightarrow> v * 10 ^ k < cap \<Longrightarrow> \<exists>b'. mul10 k b = Inr b' \<and> holds b' (v * 10 ^ k)"
proof (induction k arbitrary: b v)
  case (Suc k)
  have "v * unat (10 :: u64) \<le> v * 10 * 10 ^ k" by simp
  also have "\<dots> = v * 10 ^ Suc k" by simp
  also have "\<dots> < cap" by (rule Suc.prems(2))
  finally have c: "v * unat (10 :: u64) < cap" .
  obtain b1 where b1: "bmul b 10 = Inr b1" "holds b1 (v * 10)"
    using bmul_holds [OF Suc.prems(1) _ _ c] by auto
  show ?case using Suc.IH [OF b1(2)] Suc.prems(2) b1(1) by (simp add: algebra_simps)
qed simp

section \<open>Very large and very small\<close>

lemma rounds_infinity: "2 ^ 2098 \<le> x \<Longrightarrow> rounds neg x (with_sign neg 0x7ff0000000000000)"
proof -
  assume x: "2 ^ 2098 \<le> x"
  have "(2 :: real) ^ 52 * 2 ^ 2046 = 2 ^ 2098" by (simp only: power_add [symmetric]) simp
  then have "(2 :: real) ^ 52 \<le> x / 2 ^ 2046" using x by (simp only: pos_le_divide_eq zero_less_power zero_less_numeral)
  then have "rne 52 2047 (x / 2 ^ 2046 * 2 ^ 2046) (2047 * 2 ^ 52)" by (intro rne_overflow) auto
  then show ?thesis by (intro with_sign_rounds) simp
qed

lemma rounds_none: "0 \<le> x \<Longrightarrow> 2 * x < 1 \<Longrightarrow> rounds neg x (with_sign neg 0)"
  using rounds_zero [of x neg] by (simp add: with_sign_def split: if_splits)

end
