(* ===== verification/StrtodValue.thy ===== *)
theory StrtodValue
  imports StrtodDecimal
begin

text \<open>
  From the digits and the exponent of a decimal literal to the double nearest to it.
\<close>

section \<open>Bounds\<close>

lemma power_10_le: "(10 :: nat) ^ k \<le> 2 ^ (4 * k)"
proof -
  have "(10 :: nat) ^ k \<le> 16 ^ k" by (rule power_mono) simp_all
  also have "\<dots> = (2 ^ 4) ^ k" by simp
  finally show ?thesis by (simp only: power_mult)
qed

lemma blen_less_10: "v < 10 ^ k \<Longrightarrow> blen v \<le> 4 * k"
  using power_10_le [of k] by (simp add: blen_le_iff)

lemma less_capI: "v < 2 ^ k \<Longrightarrow> k \<le> 5120 \<Longrightarrow> v < cap"
proof -
  assume v: "v < 2 ^ k" "k \<le> 5120"
  have "32 * NLIMB = 5120" by (simp add: NLIMB_def)
  moreover have "(2 :: nat) ^ k \<le> 2 ^ 5120" by (rule power_increasing [OF v(2)]) simp
  ultimately show ?thesis using v(1) by (simp only: cap_def)
qed

lemma less_10_cap: "v < 10 ^ k \<Longrightarrow> k \<le> 1280 \<Longrightarrow> v < cap"
  using power_10_le [of k] by (intro less_capI [of v "4 * k"]) auto

lemma ten_ten: "(2 :: real) ^ (33 * k) \<le> 10 ^ (10 * k)"
proof -
  have "((2 :: real) ^ 33) ^ k \<le> (10 ^ 10) ^ k" by (rule power_mono) simp_all
  then show ?thesis by (simp only: power_mult)
qed

section \<open>The quotient\<close>

lemma quotient_bits:
  assumes d: "0 < d" and v: "0 < v" and k: "blen d + 60 \<le> blen v"
  shows "2 ^ 59 \<le> v div d" "v < d * 2 ^ (blen v - blen d + 1)" "d * 2 ^ (blen v - blen d) < 2 ^ blen v"
proof -
  have dl: "d < 2 ^ blen d" "2 ^ (blen d - 1) \<le> d" using blen_bounds [of d] d by auto
  have vl: "v < 2 ^ blen v" "2 ^ (blen v - 1) \<le> v" using blen_bounds [of v] v by auto
  have d1: "1 \<le> blen d" using blen_pos [OF d] .
  have "2 ^ 59 * d \<le> 2 ^ 59 * 2 ^ blen d" using dl(1) by simp
  also have "\<dots> = 2 ^ (59 + blen d)" by (simp only: power_add)
  also have "\<dots> \<le> 2 ^ (blen v - 1)" by (rule power_increasing) (use k in simp_all)
  finally have "2 ^ 59 * d \<le> v" using vl(2) by (rule order_trans)
  then show "2 ^ 59 \<le> v div d" using d by (simp only: less_eq_div_iff_mult_less_eq)
  have "2 ^ blen v = (2 :: nat) ^ ((blen d - 1) + (blen v - blen d + 1))" using k d1 by simp
  also have "\<dots> = 2 ^ (blen d - 1) * 2 ^ (blen v - blen d + 1)" by (rule power_add)
  also have "\<dots> \<le> d * 2 ^ (blen v - blen d + 1)" using dl(2) by (rule mult_le_mono1)
  finally show "v < d * 2 ^ (blen v - blen d + 1)" using vl(1) by (rule order_less_le_trans [rotated])
  have "d * 2 ^ (blen v - blen d) < 2 ^ blen d * 2 ^ (blen v - blen d)" using dl(1) by simp
  also have "\<dots> = 2 ^ (blen d + (blen v - blen d))" by (simp only: power_add)
  finally show "d * 2 ^ (blen v - blen d) < 2 ^ blen v" using k by simp
qed

lemma long_division:
  assumes num: "holds num v" "0 < v" "blen v \<le> 3200" and den: "holds den d" "0 < d" "blen d \<le> 4600"
  defines "sh \<equiv> bbits den + 60 - bbits num"
  shows "\<exists>num1 num2 quo. bshl num sh = Inr num1 \<and>
     divide_loop (nat (max 1 (int (bbits num1) - int (bbits den) + 1))) num1 den (replicate NLIMB 0) = Inr (num2, quo) \<and>
     holds num2 (v * 2 ^ sh mod d) \<and> length quo = NLIMB \<and> limbs quo = v * 2 ^ sh div d \<and> 2 ^ 59 \<le> v * 2 ^ sh div d"
proof -
  let ?v = "v * 2 ^ sh"
  have sh: "sh = blen d + 60 - blen v" using num(1) den(1) by (simp add: sh_def bbits_holds)
  have bv: "blen ?v = blen v + sh" by (rule blen_shift [OF num(2)])
  have k: "blen d + 60 \<le> blen ?v" "blen ?v \<le> 4660" using num(3) den(3) unfolding bv unfolding sh by auto
  have vpos: "0 < ?v" using num(2) by simp
  note q = quotient_bits [OF den(2) vpos k(1)]
  have cap: "?v < cap" by (rule less_capI [OF blen_bounds(1)]) (use k in simp)
  have capd: "d * 2 ^ (blen ?v - blen d) < cap" by (rule less_capI [OF q(3)]) (use k in simp)
  obtain num1 where n1: "bshl num sh = Inr num1" "holds num1 ?v"
    using bshl_holds [OF num(1,2) cap] by blast
  have qb: "nat (max 1 (int (bbits num1) - int (bbits den) + 1)) = blen ?v - blen d + 1"
    using k(1) by (simp add: bbits_holds [OF n1(2)] bbits_holds [OF den(1)])
  have "\<exists>num' quo'. divide_loop (blen ?v - blen d + 1) num1 den (replicate NLIMB 0) = Inr (num', quo') \<and>
      holds num' (?v mod d) \<and> length quo' = NLIMB \<and> limbs quo' = limbs (replicate NLIMB 0) + ?v div d"
    using capd by (intro divide_loop_holds [OF n1(2) den(1,2) q(2)]) simp_all
  then obtain num2 quo where "divide_loop (blen ?v - blen d + 1) num1 den (replicate NLIMB 0) = Inr (num2, quo)"
    "holds num2 (?v mod d)" "length quo = NLIMB" "limbs quo = ?v div d" by (auto simp del: divide_loop.simps)
  with n1(1) q(1) show ?thesis
    by (intro exI [of _ num1] exI [of _ num2] exI [of _ quo]) (simp only: qb simp_thms)
qed

text \<open>The quotient rounds as any number that has it as its integer part.\<close>

lemma rounds_down_quotient:
  assumes d: "0 < d" and e: "0 \<le> e" "e * 2 ^ sh < 1" and st: "st \<longleftrightarrow> e \<noteq> 0"
  shows "rounds_down ((real v + e) * 2 ^ sh / real d) (v * 2 ^ sh div d) (v * 2 ^ sh mod d \<noteq> 0 \<or> st)"
proof -
  let ?n = "v * 2 ^ sh"
  define Q where "Q = ?n div d"
  define R where "R = ?n mod d"
  have "?n = d * Q + R" by (simp add: Q_def R_def)
  then have n: "real v * 2 ^ sh = real d * real Q + real R"
    by (metis of_nat_add of_nat_mult of_nat_numeral of_nat_power)
  have "R + 1 \<le> d" using d by (simp add: R_def Suc_le_eq)
  then have r: "real R + 1 \<le> real d" by (metis of_nat_1 of_nat_add of_nat_le_iff)
  have d': "0 < real d" using d by simp
  let ?e = "e * 2 ^ sh"
  have eq: "(real v + e) * 2 ^ sh = real d * real Q + real R + ?e" by (simp add: distrib_right n)
  have e0: "0 \<le> ?e" "?e = 0 \<longleftrightarrow> e = 0" using e by simp_all
  have "real d * real Q \<le> (real v + e) * 2 ^ sh" "(real v + e) * 2 ^ sh < real d * (real Q + 1)"
    unfolding eq using e0 e r by (simp_all add: distrib_left)
  moreover have "(real v + e) * 2 ^ sh = real d * real Q \<longleftrightarrow> R = 0 \<and> e = 0"
    unfolding eq using e0 by (auto simp: add_nonneg_eq_0_iff)
  ultimately show ?thesis
    using d' st by (auto simp: rounds_down_def Q_def [symmetric] R_def [symmetric] field_simps)
qed

section \<open>The decimal value\<close>

lemma power_int_nat: "0 \<le> e \<Longrightarrow> (10 :: real) powi e = 10 ^ nat e"
  by (simp add: power_int_def)

lemma power_int_neg: "e < 0 \<Longrightarrow> (10 :: real) powi e = 1 / 10 ^ nat (- e)"
  by (simp add: power_int_def field_simps)

lemma real_power_less: "m < 10 ^ k \<Longrightarrow> real m + 1 \<le> 10 ^ k"
proof -
  assume "m < 10 ^ k"
  then have "real (m + 1) \<le> real (10 ^ k)" by (simp only: of_nat_le_iff Suc_eq_plus1 [symmetric] Suc_le_eq)
  then show ?thesis by simp
qed

lemma pow_1074: "2 ^ 1075 = 2 * (2 :: real) ^ 1074"
  by (simp only: power_Suc [symmetric] eval_nat_numeral)

lemma too_large:
  assumes d: "10 ^ (n - 1) \<le> d" "0 < n" and e: "0 \<le> \<delta>" and big: "320 < int n + dexp"
  shows "2 ^ 2098 \<le> (real d + \<delta>) * 10 powi dexp * 2 ^ 1074"
proof -
  have "real (10 ^ (n - 1)) \<le> real d" using d(1) by (simp only: of_nat_le_iff)
  then have "10 ^ (n - 1) \<le> real d" by (simp only: of_nat_power of_nat_numeral)
  then have d': "10 ^ (n - 1) \<le> real d + \<delta>" using e by linarith
  have "(10 :: real) ^ 320 \<le> 10 powi (int (n - 1) + dexp)"
    using big d(2) by (subst power_int_of_nat [symmetric]) (intro power_int_increasing, auto)
  also have "\<dots> = 10 ^ (n - 1) * 10 powi dexp" by (simp add: power_int_add)
  also have "\<dots> \<le> (real d + \<delta>) * 10 powi dexp" using d' by (intro mult_right_mono) simp_all
  finally have a: "(10 :: real) ^ 320 \<le> (real d + \<delta>) * 10 powi dexp" .
  have "(2 :: real) ^ 2098 \<le> 2 ^ (33 * 32 + 1074)" by (rule power_increasing) simp_all
  also have "\<dots> = 2 ^ (33 * 32) * 2 ^ 1074" by (rule power_add)
  also have "\<dots> \<le> 10 ^ (10 * 32) * 2 ^ 1074" by (rule mult_right_mono [OF ten_ten]) simp
  also have "\<dots> = 10 ^ 320 * 2 ^ 1074" by (simp only: arith_simps)
  also have "\<dots> \<le> (real d + \<delta>) * 10 powi dexp * 2 ^ 1074" by (rule mult_right_mono [OF a]) simp
  finally show ?thesis .
qed

lemma too_small:
  assumes d: "d < 10 ^ n" and e: "0 \<le> \<delta>" "\<delta> < 1" and small: "int n + dexp < - 350"
  shows "0 \<le> (real d + \<delta>) * 10 powi dexp * 2 ^ 1074" "2 * ((real d + \<delta>) * 10 powi dexp * 2 ^ 1074) < 1"
proof -
  show "0 \<le> (real d + \<delta>) * 10 powi dexp * 2 ^ 1074" using e by simp
  have d': "real d + \<delta> \<le> 10 ^ n" using real_power_less [OF d] e by linarith
  have "(real d + \<delta>) * 10 powi dexp \<le> 10 ^ n * 10 powi dexp" using d' by (intro mult_right_mono) simp_all
  also have "\<dots> = 10 powi (int n + dexp)" by (simp add: power_int_add)
  also have "\<dots> \<le> 10 powi (- 350)" using small by (intro power_int_increasing) simp_all
  also have "\<dots> = 1 / 10 ^ (10 * 35)" by (subst power_int_neg) simp_all
  also have "\<dots> \<le> 1 / 2 ^ (33 * 35)" by (rule divide_left_mono [OF ten_ten]) simp_all
  finally have a: "(real d + \<delta>) * 10 powi dexp \<le> 1 / 2 ^ (33 * 35)" .
  have "2 * ((real d + \<delta>) * 10 powi dexp * 2 ^ 1074) = (real d + \<delta>) * 10 powi dexp * 2 ^ 1075"
    unfolding pow_1074 by simp
  also have "\<dots> \<le> 1 / 2 ^ (33 * 35) * 2 ^ 1075" by (rule mult_right_mono [OF a]) simp
  also have "\<dots> < 1 / 2 ^ (33 * 35) * 2 ^ (33 * 35)"
    by (rule mult_strict_left_mono, rule power_strict_increasing) simp_all
  also have "\<dots> = 1" by simp
  finally show "2 * ((real d + \<delta>) * 10 powi dexp * 2 ^ 1074) < 1" .
qed

lemma extra_digits:
  assumes d: "10 ^ 799 \<le> d" and r: "rne 52 2047 ((real d + e) / 10 ^ t * 2 ^ 1074) k"
    and e: "0 < e" "e < 1" and f: "0 < f" "f < 1"
  shows "rne 52 2047 ((real d + f) / 10 ^ t * 2 ^ 1074) k"
proof -
  define B where "B = (2 :: real) ^ 1074"
  have B: "0 < B" "2 ^ 1075 = 2 * B" by (simp_all only: B_def pow_1074 zero_less_power zero_less_numeral)
  let ?T = "(10 :: real) ^ t"
  have T: "0 < ?T" by simp
  show ?thesis
  proof (rule rne_same [OF r, of "real d / ?T * 2 ^ 1074" "(real d + 1) / ?T * 2 ^ 1074"], unfold B_def [symmetric])
    show "real d / ?T * B < (real d + e) / ?T * B" "(real d + e) / ?T * B < (real d + 1) / ?T * B"
      "real d / ?T * B < (real d + f) / ?T * B" "(real d + f) / ?T * B < (real d + 1) / ?T * B"
      using e f T B(1) by (simp_all add: divide_strict_right_mono)
    fix j
    define S where "S = mag 52 j + mag 52 (Suc j)"
    have c: "real (a * 2 ^ 1075) = real a * (2 * B)" for a
      by (simp only: of_nat_mult of_nat_power of_nat_numeral B(2))
    have "\<not> (real (d * 2 ^ 1075) < real (S * 10 ^ t) \<and> real (S * 10 ^ t) < real ((d + 1) * 2 ^ 1075))"
      using no_midpoint [OF d, of j t] by (simp only: of_nat_less_iff S_def simp_thms)
    then have n: "\<not> (real d * (2 * B) < real S * ?T \<and> real S * ?T < (real d + 1) * (2 * B))"
      unfolding c by (simp only: of_nat_mult of_nat_power of_nat_numeral of_nat_add of_nat_1 simp_thms)
    have e: "real d / ?T * B < real S / 2 \<longleftrightarrow> real d * (2 * B) < real S * ?T"
      "real S / 2 < (real d + 1) / ?T * B \<longleftrightarrow> real S * ?T < (real d + 1) * (2 * B)"
      using T by (simp_all add: field_simps)
    have s: "real (mag 52 j) + real (mag 52 (Suc j)) = real S" by (simp add: S_def)
    show "\<not> (real d / ?T * B < (real (mag 52 j) + real (mag 52 (Suc j))) / 2 \<and>
        (real (mag 52 j) + real (mag 52 (Suc j))) / 2 < (real d + 1) / ?T * B)"
      unfolding s e by (rule n)
  qed
qed

text \<open>
  \<open>d + \<delta>\<close> is the number the literal has before its exponent, all digits counted: \<open>\<delta>\<close> is what the digits
  beyond those kept are worth.
\<close>

lemma decimal_value_rounds:
  assumes dig: "dig \<noteq> []" "hd dig \<noteq> 0" "\<forall>d \<in> set dig. d < 10" "length dig \<le> NDIG"
    and \<delta>: "0 \<le> \<delta>" "\<delta> < 1" "extra \<longleftrightarrow> \<delta> \<noteq> 0" "extra \<Longrightarrow> length dig = NDIG"
  shows "\<exists>r. decimal_value neg (dig, dexp, extra) = Inr r \<and>
    rounds neg ((real (dnum 0 dig) + \<delta>) * 10 powi dexp * 2 ^ 1074) r"
proof -
  let ?n = "length dig" and ?d = "dnum 0 dig"
  have d: "?d < 10 ^ ?n" "10 ^ (?n - 1) \<le> ?d" "0 < ?n" using dnum_less [OF dig(3)] dnum_ge [OF dig(1,2)] dig(1) by simp_all
  then have d0: "0 < ?d" by (meson order_less_le_trans zero_less_numeral zero_less_power)
  have nd: "?n \<le> 800" "extra \<Longrightarrow> ?n = 800" using dig(4) \<delta>(4) by (simp_all add: NDIG_def)
  consider (large) "int ?n + dexp > 320" | (small) "int ?n + dexp < - 350"
    | (whole) "- 350 \<le> int ?n + dexp" "int ?n + dexp \<le> 320" "0 \<le> dexp"
    | (frac) "- 350 \<le> int ?n + dexp" "int ?n + dexp \<le> 320" "dexp < 0" by linarith
  then show ?thesis
  proof cases
    case large
    have "rounds neg ((real ?d + \<delta>) * 10 powi dexp * 2 ^ 1074) (with_sign neg 0x7ff0000000000000)"
      by (rule rounds_infinity [OF too_large [OF d(2,3) \<delta>(1) large]])
    then show ?thesis using dig(1) large by (simp add: decimal_value_def)
  next
    case small
    have "rounds neg ((real ?d + \<delta>) * 10 powi dexp * 2 ^ 1074) (with_sign neg 0)"
      by (rule rounds_none [OF too_small [OF d(1) \<delta>(1,2) small]])
    then show ?thesis using dig(1) small by (simp add: decimal_value_def)
  next
    case whole
    have ne: "\<not> extra" using nd(2) whole by auto
    then have \<delta>0: "\<delta> = 0" using \<delta>(3) by simp
    let ?k = "nat dexp"
    have "?d * 10 ^ ?k < 10 ^ ?n * 10 ^ ?k" using d(1) by simp
    then have lt: "?d * 10 ^ ?k < 10 ^ (?n + ?k)" by (simp only: power_add)
    have cap: "?d < cap" "?d * 10 ^ ?k < cap"
      by (rule less_10_cap [OF d(1)], use nd(1) in simp, rule less_10_cap [OF lt], use whole in simp)
    obtain num where num: "load_digits (bset 0) dig = Inr num" "holds num ?d"
      using load_digits_holds [OF bset_holds [of 0] dig(3)] cap(1) by auto
    obtain num2 where num2: "mul10 ?k num = Inr num2" "holds num2 (?d * 10 ^ ?k)"
      using mul10_holds [OF num(2) cap(2)] by blast
    obtain a n where an: "num2 = (a, n)" by force
    have h: "limbs a = ?d * 10 ^ ?k" "?d * 10 ^ ?k < 2 ^ (32 * n)" "1 \<le> n" "n \<le> length a"
      using num2(2) by (auto simp: an holds_def)
    have "decimal_value neg (dig, dexp, extra) = Inr (assemble_big neg (a, n) False 0)"
      using dig(1) whole num(1) num2(1) ne by (simp add: decimal_value_def an)
    moreover have "rounds neg (real (?d * 10 ^ ?k) * 2 powi (1074 - 0)) (assemble_big neg (a, n) False 0)"
      by (rule assemble_big_rounds [OF h]) (use d0 in \<open>simp_all add: rounds_down_def\<close>)
    moreover have "real (?d * 10 ^ ?k) * 2 powi (1074 - 0) = (real ?d + \<delta>) * 10 powi dexp * 2 ^ 1074"
      by (simp only: \<delta>0 power_int_nat [OF whole(3)] diff_zero power_int_numeral of_nat_mult of_nat_power of_nat_numeral add_0_right)
    ultimately show ?thesis by metis
  next
    case frac
    define t where "t = nat (- dexp)"
    have t: "t \<le> 1150" "(10 :: real) powi dexp = 1 / 10 ^ t" using frac nd(1) by (simp_all add: t_def power_int_neg)
    have cap: "?d < cap" by (rule less_10_cap [OF d(1)]) (use nd(1) in simp)
    have "(10 :: nat) ^ t < 10 ^ Suc t" by simp
    then have capt: "1 * (10 :: nat) ^ t < cap" by (subst mult_1) (rule less_10_cap [of _ "Suc t"], use t in simp_all)
    obtain num where num: "load_digits (bset 0) dig = Inr num" "holds num ?d"
      using load_digits_holds [OF bset_holds [of 0] dig(3)] cap(1) by auto
    have "holds (bset 1) 1" using bset_holds [of 1] by simp
    from mul10_holds [OF this capt] obtain den where den: "mul10 t (bset 1) = Inr den" "holds den (10 ^ t)"
      by (auto simp del: One_nat_def)
    have bd: "blen ?d \<le> 3200" using blen_less_10 [OF d(1)] nd(1) by simp
    have bt: "blen (10 ^ t) \<le> 4600"
    proof -
      have "(10 :: nat) ^ t < 16 ^ t \<or> t = 0" using power_strict_mono [of "10 :: nat" 16 t] by (cases "t = 0") simp_all
      moreover have "(16 :: nat) ^ t = 2 ^ (4 * t)" by (simp add: power_mult)
      ultimately have "blen (10 ^ t) \<le> 4 * t \<or> t = 0" by (auto simp: blen_le_iff)
      then show ?thesis using t(1) blen_le_iff [of 1 1] by auto
    qed
    have pt: "0 < (10 :: nat) ^ t" by simp
    define sh where "sh = bbits den + 60 - bbits num"
    obtain num1 num2 quo where div: "bshl num sh = Inr num1"
      "divide_loop (nat (max 1 (int (bbits num1) - int (bbits den) + 1))) num1 den (replicate NLIMB 0) = Inr (num2, quo)"
      "holds num2 (?d * 2 ^ sh mod 10 ^ t)" "length quo = NLIMB" "limbs quo = ?d * 2 ^ sh div 10 ^ t"
      "2 ^ 59 \<le> ?d * 2 ^ sh div 10 ^ t"
      using long_division [OF num(2) d0 bd den(2) pt bt] unfolding sh_def by blast
    define st where "st \<longleftrightarrow> ?d * 2 ^ sh mod 10 ^ t \<noteq> 0 \<or> extra"
    have stb: "st \<longleftrightarrow> \<not> bzero num2 \<or> extra" by (simp add: st_def bzero_iff [OF div(3)])
    let ?r = "assemble_big neg (quo, NLIMB) st (int sh)"
    have val: "decimal_value neg (dig, dexp, extra) = Inr ?r"
      using dig(1) frac num(1) den(1) div(1,2)
      by (simp add: decimal_value_def t_def [symmetric] sh_def [symmetric] Let_def stb del: divide_loop.simps)
    define e where "e = (if extra then 1 / (2 * 2 ^ sh) else 0 :: real)"
    have e: "0 \<le> e" "e * 2 ^ sh < 1" "extra \<longleftrightarrow> e \<noteq> 0" by (auto simp: e_def)
    have c: "rounds_down ((real ?d + e) * 2 ^ sh / real (10 ^ t)) (?d * 2 ^ sh div 10 ^ t) st"
      unfolding st_def by (rule rounds_down_quotient [OF pt e])
    have q: "?d * 2 ^ sh div 10 ^ t < 2 ^ (32 * NLIMB)" using limbs_less [of quo] div(4,5) by simp
    have "(1 :: nat) < 2 ^ 59" "(2 :: nat) ^ 53 < 2 ^ 59" by simp_all
    then have q0: "0 < ?d * 2 ^ sh div 10 ^ t" "54 \<le> blen (?d * 2 ^ sh div 10 ^ t)"
      using div(6) blen_le_iff [of "?d * 2 ^ sh div 10 ^ t" 53] by linarith+
    have r: "rounds neg ((real ?d + e) * 2 ^ sh / real (10 ^ t) * 2 powi (1074 - int sh)) ?r"
      by (rule assemble_big_rounds [OF div(5) q _ _ q0(1) c]) (use q0(2) div(4) in \<open>simp_all add: NLIMB_def\<close>)
    have "(2 :: real) powi (1074 - int sh) * 2 ^ sh = 2 ^ 1074"
      by (simp only: powi_int_diff [symmetric] diff_add_cancel power_int_numeral)
    moreover have "x * 2 ^ sh / y * p = x / y * (p * 2 ^ sh)" for x y p :: real by simp
    ultimately have "(real ?d + e) * 2 ^ sh / real (10 ^ t) * 2 powi (1074 - int sh) = (real ?d + e) / 10 ^ t * 2 ^ 1074"
      by (simp only: of_nat_power of_nat_numeral)
    with r have r: "rounds neg ((real ?d + e) / 10 ^ t * 2 ^ 1074) ?r" by (simp only:)
    have "rounds neg ((real ?d + \<delta>) / 10 ^ t * 2 ^ 1074) ?r"
    proof (cases extra)
      case True
      have "1 \<le> (2 :: real) ^ sh" by simp
      then have "1 < 2 * (2 :: real) ^ sh" by linarith
      then have "0 < e" "e < 1" "0 < \<delta>" using True \<delta> by (simp_all add: e_def)
      have "?n - 1 = 799" using nd(2) [OF True] by simp
      with d(2) have "10 ^ 799 \<le> ?d" by (simp only:)
      then show ?thesis using r extra_digits [OF \<open>10 ^ 799 \<le> ?d\<close> _ \<open>0 < e\<close> \<open>e < 1\<close> \<open>0 < \<delta>\<close> \<delta>(2)]
        unfolding rounds_def by blast
    next
      case False
      then have "e = \<delta>" using \<delta>(3) by (simp add: e_def)
      with r show ?thesis by (simp only:)
    qed
    moreover have "(real ?d + \<delta>) / 10 ^ t = (real ?d + \<delta>) * 10 powi dexp" by (simp add: t)
    ultimately show ?thesis using val by metis
  qed
qed

end
