(* ===== verification/StrtodText.thy ===== *)
theory StrtodText
  imports StrtodValue
begin

text \<open>
  The text of a decimal literal, and the theorem that \<open>strtod\<close> returns the double nearest to what it
  says and the end of it.
\<close>

section \<open>Reading digits\<close>

lemma is_dec_val: "is_dec c \<Longrightarrow> dec_val c < 10"
  unfolding is_dec_def dec_val_def by linarith

lemma dec_val_0_iff: "is_dec c \<Longrightarrow> dec_val c = 0 \<longleftrightarrow> c = CHR ''0''"
proof -
  assume "is_dec c"
  then have "dec_val c = 0 \<longleftrightarrow> (of_char c :: nat) = of_char CHR ''0''" by (auto simp: is_dec_def dec_val_def)
  then show ?thesis by (simp only: of_char_eq_iff)
qed

lemma is_dec_0 [simp]: "is_dec CHR ''0''"
  by (simp add: is_dec_def)

lemma zero_loop_dropWhile:
  "zero_loop n p = (n + int (length (takeWhile (\<lambda>c. c = CHR ''0'') p)), dropWhile (\<lambda>c. c = CHR ''0'') p)"
  by (induction n p rule: zero_loop.induct) auto

text \<open>What the loops carry after the significant digits \<open>xs\<close>, \<open>f\<close> digits of them behind the point.\<close>

definition keep :: "nat list \<Rightarrow> int \<Rightarrow> digits" where
  "keep xs f = (take NDIG xs, int (length xs - NDIG) - f, \<exists>d \<in> set (drop NDIG xs). d \<noteq> 0)"

lemma keep_Nil: "keep [] f = ([], - f, False)"
  by (simp add: keep_def)

lemma keep_snoc:
  "keep (xs @ [d]) f =
    (case keep xs f of (dig, dexp, extra) \<Rightarrow>
       if length dig < NDIG then (dig @ [d], dexp, extra) else (dig, dexp + 1, d \<noteq> 0 \<or> extra))"
proof (cases "length xs < NDIG")
  case False
  then have "Suc (length xs) - NDIG = Suc (length xs - NDIG)" by simp
  then show ?thesis using False by (auto simp: keep_def)
qed (auto simp: keep_def)

lemma keep_shift: "keep xs (f + g) = (case keep xs f of (dig, dexp, extra) \<Rightarrow> (dig, dexp - g, extra))"
  by (simp add: keep_def)

lemma int_loop_digits:
  "list_all is_dec ds \<Longrightarrow> \<not> is_dec (chr_at q 0) \<Longrightarrow> int_loop (keep xs f) (ds @ q) = (keep (xs @ map dec_val ds) f, q)"
proof (induction ds arbitrary: xs)
  case Nil
  then show ?case by (cases q) (simp_all add: keep_def)
next
  case (Cons c ds)
  have e: "c \<noteq> CHR ''0'' \<longleftrightarrow> dec_val c \<noteq> 0" using Cons.prems by (simp add: dec_val_0_iff)
  have "int_loop (keep xs f) ((c # ds) @ q) = int_loop (keep (xs @ [dec_val c]) f) (ds @ q)"
    using Cons.prems(1) by (simp add: keep_snoc e split: prod.splits)
  then show ?case using Cons by simp
qed

lemma frac_loop_digits:
  "list_all is_dec ds \<Longrightarrow> \<not> is_dec (chr_at q 0) \<Longrightarrow>
   frac_loop (keep xs f) (ds @ q) = (keep (xs @ map dec_val ds) (f + int (length ds)), q)"
proof (induction ds arbitrary: xs f)
  case Nil
  then show ?case by (cases q) (simp_all add: keep_def)
next
  case (Cons c ds)
  have e: "c \<noteq> CHR ''0'' \<longleftrightarrow> dec_val c \<noteq> 0" using Cons.prems by (simp add: dec_val_0_iff)
  have "frac_loop (keep xs f) ((c # ds) @ q) = frac_loop (keep (xs @ [dec_val c]) (f + 1)) (ds @ q)"
    using Cons.prems(1) by (simp add: keep_snoc keep_shift e split: prod.splits)
  then show ?case using Cons by (simp add: algebra_simps)
qed

definition zero_run :: "string \<Rightarrow> string" where
  "zero_run = takeWhile (\<lambda>c. c = CHR ''0'')"

definition signif :: "string \<Rightarrow> string" where
  "signif = dropWhile (\<lambda>c. c = CHR ''0'')"

lemma zero_signif: "zero_run p @ signif p = p" "signif p \<noteq> [] \<Longrightarrow> hd (signif p) \<noteq> CHR ''0''"
  using hd_dropWhile [of "\<lambda>c. c = CHR ''0''" p] by (simp_all add: zero_run_def signif_def)

lemma zero_loop_append:
  "\<not> is_dec (chr_at q 0) \<Longrightarrow> zero_loop n (ds @ q) = (n + int (length (zero_run ds)), signif ds @ q)"
proof -
  assume q: "\<not> is_dec (chr_at q 0)"
  have "q = [] \<or> hd q \<noteq> CHR ''0''" using q by (cases q) auto
  then have "takeWhile (\<lambda>c. c = CHR ''0'') (ds @ q) = zero_run ds" "dropWhile (\<lambda>c. c = CHR ''0'') (ds @ q) = signif ds @ q"
    unfolding zero_run_def signif_def by (induction ds) (cases q; auto)+
  then show ?thesis by (simp add: zero_loop_dropWhile)
qed

lemma list_all_signif: "list_all P p \<Longrightarrow> list_all P (signif p)"
  by (auto simp: list_all_iff signif_def dest: set_dropWhileD)

lemma signif_append: "signif (xs @ ys) = (if signif xs = [] then signif ys else signif xs @ ys)"
  by (induction xs) (auto simp: signif_def)

lemma signif_Nil_iff: "signif p = [] \<longleftrightarrow> zero_run p = p"
  using zero_signif(1) [of p] by (metis append_Nil2 append_self_conv)

lemma read_digits_literal:
  assumes ip: "list_all is_dec ip" and fp: "list_all is_dec fp" and ne: "ip @ fp \<noteq> []"
    and dot: "dot = [] \<and> fp = [] \<or> dot = ''.''" and q: "\<not> is_dec (chr_at q 0)" "chr_at q 0 \<noteq> CHR ''.''"
  shows "read_digits (ip @ dot @ fp @ q) = (True, keep (map dec_val (signif (ip @ fp))) (int (length fp)), q)"
proof -
  let ?t = "dot @ fp @ q"
  have t: "\<not> is_dec (chr_at ?t 0)" using dot q by (auto simp: is_dec_def)
  have z: "zero_loop 0 (ip @ ?t) = (int (length (zero_run ip)), signif ip @ ?t)"
    using zero_loop_append [OF t] by simp
  have sip: "list_all is_dec (signif ip)" "list_all is_dec (signif fp)"
    using ip fp by (auto intro: list_all_signif)
  have i: "int_loop ([], 0, False) (signif ip @ ?t) = (keep (map dec_val (signif ip)) 0, ?t)"
    using int_loop_digits [OF sip(1) t, of "[]" 0] by (simp add: keep_Nil)
  have ne1: "?t \<noteq> ip @ ?t \<longleftrightarrow> ip \<noteq> []" by simp
  show ?thesis
  proof (cases "dot = []")
    case True
    then have "fp = []" "ip \<noteq> []" using dot ne by auto
    then show ?thesis using z i q True by (simp add: read_digits_def keep_def)
  next
    case False
    then have d: "dot = ''.''" using dot by simp
    let ?k = "keep (map dec_val (signif ip)) 0"
    have fr: "frac_loop (case ?k of (dig, dexp, extra) \<Rightarrow> (dig, dexp - (if dig = [] then int (length (zero_run fp)) else 0), extra))
        (if signif ip = [] then signif fp @ q else fp @ q) = (keep (map dec_val (signif (ip @ fp))) (int (length fp)), q)"
    proof (cases "signif ip = []")
      case True
      have "length (zero_run fp) + length (signif fp) = length fp"
        using arg_cong [OF zero_signif(1) [of fp], of length] by simp
      then show ?thesis
        using True frac_loop_digits [OF sip(2) q(1), of "[]" "int (length (zero_run fp))"]
        by (simp add: keep_Nil signif_append del: of_nat_add flip: of_nat_add)
    next
      case F: False
      then have "fst ?k \<noteq> []" by (simp add: keep_def NDIG_def)
      then have "(case ?k of (dig, dexp, extra) \<Rightarrow> (dig, dexp - (if dig = [] then int (length (zero_run fp)) else 0), extra)) = ?k"
        by (auto split: prod.splits)
      then show ?thesis
        using F frac_loop_digits [OF fp q(1), of "map dec_val (signif ip)" 0] by (simp add: signif_append)
    qed
    have k: "fst ?k = [] \<longleftrightarrow> signif ip = []" by (simp add: keep_def NDIG_def)
    obtain dig dexp extra where kk: "?k = (dig, dexp, extra)" using prod_cases3 by blast
    have "(if dig = [] then zero_loop 0 (fp @ q) else (0, fp @ q)) =
        (if dig = [] then int (length (zero_run fp)) else 0, if signif ip = [] then signif fp @ q else fp @ q)"
      using k kk zero_loop_append [OF q(1), of 0 fp] by auto
    then have "read_digits (ip @ ?t) =
        (ip \<noteq> [] \<or> q \<noteq> fp @ q, keep (map dec_val (signif (ip @ fp))) (int (length fp)), q)"
      using z i d fr by (simp add: read_digits_def kk)
    moreover have "ip \<noteq> [] \<or> q \<noteq> fp @ q" using ne by auto
    ultimately show ?thesis by simp
  qed
qed

section \<open>Reading the exponent\<close>

lemma exp_loop_digits:
  "list_all is_dec ds \<Longrightarrow> \<not> is_dec (chr_at q 0) \<Longrightarrow> \<exists>m. exp_loop (int e) (ds @ q) = (int m, q) \<and>
     (m = dnum e (map dec_val ds) \<or> 100000 \<le> m \<and> 100000 \<le> dnum e (map dec_val ds))"
proof (induction ds arbitrary: e)
  case Nil
  then show ?case by (cases q) simp_all
next
  case (Cons c ds)
  show ?case
  proof (cases "e < 100000")
    case True
    have "int (e * 10 + dec_val c) = int e * 10 + int (dec_val c)" by simp
    with Cons.IH [of "e * 10 + dec_val c"] Cons.prems True show ?thesis by (simp del: of_nat_add of_nat_mult)
  next
    case False
    have "e * 1 \<le> dnum e (map dec_val (c # ds))"
      unfolding dnum_shift [of e] by (rule trans_le_add1 [OF mult_le_mono2]) simp
    moreover have "e * 1 \<le> dnum e (map dec_val ds)"
      unfolding dnum_shift [of e] by (rule trans_le_add1 [OF mult_le_mono2]) simp
    moreover obtain m where "exp_loop (int e) (ds @ q) = (int m, q)"
      "m = dnum e (map dec_val ds) \<or> 100000 \<le> m \<and> 100000 \<le> dnum e (map dec_val ds)"
      using Cons by auto
    ultimately show ?thesis using False Cons.prems by auto
  qed
qed

text \<open>\<open>exponent letters es E\<close>: the text \<open>es\<close> is an exponent of value \<open>E\<close> with one of the letters, or empty.\<close>

definition exponent :: "string \<Rightarrow> string \<Rightarrow> int \<Rightarrow> bool" where
  "exponent letters es E \<longleftrightarrow> es = [] \<and> E = 0 \<or>
     (\<exists>l sn ds. es = l # sn @ ds \<and> l \<in> set letters \<and> sn \<in> {[], ''+'', ''-''} \<and> ds \<noteq> [] \<and>
        list_all is_dec ds \<and> E = (if sn = ''-'' then - int (dnum 0 (map dec_val ds)) else int (dnum 0 (map dec_val ds))))"

lemma is_dec_not_sign: "is_dec c \<Longrightarrow> c \<noteq> CHR ''-'' \<and> c \<noteq> CHR ''+'' \<and> c \<noteq> CHR ''.'' \<and> c \<noteq> CHR ''x'' \<and> c \<noteq> CHR ''X'' \<and> c \<notin> {CHR '' '', TAB, LF, CR}"
  by (auto simp: is_dec_def)

lemma read_sign_append:
  "sn \<in> {[], ''+'', ''-''} \<Longrightarrow> chr_at q 0 \<noteq> CHR ''+'' \<Longrightarrow> chr_at q 0 \<noteq> CHR ''-'' \<Longrightarrow> read_sign (sn @ q) = (sn = ''-'', q)"
  by (auto simp: read_sign_def)

text \<open>The exponent is right, or both it and what is read are beyond every double.\<close>

definition same_exponent :: "int \<Rightarrow> int \<Rightarrow> bool" where
  "same_exponent a b \<longleftrightarrow> a = b \<or> 100000 \<le> a \<and> 100000 \<le> b \<or> a \<le> - 100000 \<and> b \<le> - 100000"

lemma read_exp_literal:
  assumes e: "exponent letters es E" and q: "\<not> is_dec (chr_at q 0)" "chr_at q 0 \<notin> set letters"
  shows "\<exists>e. read_exp letters (es @ q) = (e, q) \<and> same_exponent e E"
proof (cases "es = []")
  case True
  then show ?thesis using e q(2) by (auto simp: read_exp_def in_set_iff exponent_def same_exponent_def)
next
  case False
  then obtain l sn ds where es: "es = l # sn @ ds" "l \<in> set letters" "sn \<in> {[], ''+'', ''-''}" "ds \<noteq> []"
    "list_all is_dec ds" "E = (if sn = ''-'' then - int (dnum 0 (map dec_val ds)) else int (dnum 0 (map dec_val ds)))"
    using e unfolding exponent_def by blast
  obtain d ds' where d: "ds = d # ds'" "is_dec d" using es(4,5) by (cases ds) auto
  have s: "read_sign (sn @ ds @ q) = (sn = ''-'', ds @ q)"
    by (rule read_sign_append [OF es(3)]) (use d is_dec_not_sign [OF d(2)] in auto)
  obtain m where m: "exp_loop 0 (ds @ q) = (int m, q)"
    "m = dnum 0 (map dec_val ds) \<or> 100000 \<le> m \<and> 100000 \<le> dnum 0 (map dec_val ds)"
    using exp_loop_digits [OF es(5) q(1), of 0] by auto
  have "read_exp letters (es @ q) = (if sn = ''-'' then - int m else int m, q)"
    using es(2) s m(1) d by (auto simp: read_exp_def in_set_iff es(1))
  moreover have "same_exponent (if sn = ''-'' then - int m else int m) E"
    using m(2) es(6) by (auto simp: same_exponent_def)
  ultimately show ?thesis by blast
qed

section \<open>The whole literal\<close>

lemma decimal_value_same:
  assumes "same_exponent a b" and "0 \<le> f" "f \<le> 90000" "length xs \<le> 90000"
  shows "decimal_value neg (case keep xs f of (dig, dexp, extra) \<Rightarrow> (dig, dexp + a, extra)) =
    decimal_value neg (case keep xs f of (dig, dexp, extra) \<Rightarrow> (dig, dexp + b, extra))"
proof (cases "a = b \<or> xs = []")
  case False
  have l: "int (length (take NDIG xs)) + (int (length xs - NDIG) - f) = int (length xs) - f" by simp
  have "(a \<ge> 100000 \<and> b \<ge> 100000) \<or> (a \<le> - 100000 \<and> b \<le> - 100000)"
    using assms(1) False by (auto simp: same_exponent_def)
  then show ?thesis using assms(2-) False l by (auto simp: keep_def decimal_value_def)
qed (auto simp: keep_def decimal_value_def)

lemma keep_value:
  assumes d: "list_all (\<lambda>d. d < 10) xs" and hd: "xs \<noteq> [] \<Longrightarrow> hd xs \<noteq> 0"
  shows "\<exists>r. decimal_value neg (case keep xs f of (dig, dexp, extra) \<Rightarrow> (dig, dexp + E, extra)) = Inr r \<and>
    rounds neg (real (dnum 0 xs) * 10 powi (E - f) * 2 ^ 1074) r"
proof (cases "xs = []")
  case True
  then show ?thesis using rounds_none [of 0 neg] by (auto simp: keep_def decimal_value_def)
next
  case False
  define m where "m = length xs - NDIG"
  define lo where "lo = dnum 0 (drop NDIG xs)"
  define \<delta> where "\<delta> = real lo / 10 ^ m"
  let ?dig = "take NDIG xs"
  have ds: "\<forall>d \<in> set (drop NDIG xs). d < 10" "\<forall>d \<in> set ?dig. d < 10"
    using d by (auto simp: list_all_iff dest: in_set_dropD in_set_takeD)
  have lm: "length (drop NDIG xs) = m" by (simp add: m_def)
  have "dnum 0 xs = dnum 0 (?dig @ drop NDIG xs)" by simp
  also have "\<dots> = dnum 0 ?dig * 10 ^ m + lo" unfolding dnum_append dnum_shift [of "dnum 0 ?dig"] lm lo_def ..
  finally have "real (dnum 0 xs) = (real (dnum 0 ?dig) + \<delta>) * 10 ^ m" by (simp add: \<delta>_def field_simps)
  then have "real (dnum 0 xs) * 10 powi (E - f) = (real (dnum 0 ?dig) + \<delta>) * (10 powi (E - f) * 10 ^ m)" by simp
  moreover have "10 powi (E - f + int m) = 10 powi (E - f) * (10 :: real) ^ m" by (simp add: power_int_add)
  moreover have "E - f + int m = int m - f + E" by simp
  ultimately have x: "real (dnum 0 xs) * 10 powi (E - f) = (real (dnum 0 ?dig) + \<delta>) * 10 powi (int m - f + E)"
    by (simp only:)
  have "real lo + 1 \<le> 10 ^ m" using real_power_less [OF dnum_less [OF ds(1)]] by (simp only: lo_def lm)
  then have "real lo < 10 ^ m" by linarith
  then have "0 \<le> \<delta>" "\<delta> < 1" by (simp_all add: \<delta>_def)
  moreover have e: "(\<exists>d \<in> set (drop NDIG xs). d \<noteq> 0) \<longleftrightarrow> \<delta> \<noteq> 0" by (auto simp: \<delta>_def lo_def dnum_eq_0_iff)
  moreover have "length ?dig = NDIG" if "\<exists>d \<in> set (drop NDIG xs). d \<noteq> 0" using that by (cases "NDIG \<le> length xs") auto
  ultimately show ?thesis
    using decimal_value_rounds [of ?dig \<delta> "\<exists>d \<in> set (drop NDIG xs). d \<noteq> 0" neg "int m - f + E"] False hd ds(2)
    unfolding x by (simp add: keep_def m_def NDIG_def hd_take)
qed

lemma skip_space_append: "set ws \<subseteq> {CHR '' '', TAB, LF, CR} \<Longrightarrow> chr_at q 0 \<notin> {CHR '' '', TAB, LF, CR} \<Longrightarrow> skip_space (ws @ q) = q"
  by (induction ws) (auto simp: skip_space_def split: list.splits, cases q, auto)

lemma strtod_literal:
  assumes ws: "set ws \<subseteq> {CHR '' '', TAB, LF, CR}" and sn: "sn \<in> {[], ''+'', ''-''}"
    and ip: "list_all is_dec ip" and fp: "list_all is_dec fp" and ne: "ip @ fp \<noteq> []"
    and dot: "dot = [] \<and> fp = [] \<or> dot = ''.''" and es: "exponent ''eE'' es E"
    and q: "\<not> is_dec (chr_at q 0)" "chr_at q 0 \<notin> set ''.eExX''" and len: "length ip + length fp \<le> 90000"
  shows "\<exists>r. strtod_bits (ws @ sn @ ip @ dot @ fp @ es @ q) = Inr (r, q) \<and>
    rounds (sn = ''-'') (real (dnum 0 (map dec_val (ip @ fp))) * 10 powi (E - int (length fp)) * 2 ^ 1074) r"
proof -
  let ?eq = "es @ q" and ?p = "ip @ dot @ fp @ es @ q"
  have eq: "\<not> is_dec (chr_at ?eq 0)" "chr_at ?eq 0 \<noteq> CHR ''.''" "chr_at ?eq 0 \<notin> {CHR ''x'', CHR ''X''}"
    using es q by (auto simp: exponent_def is_dec_def)
  have p0: "is_dec (chr_at ?p 0) \<or> chr_at ?p 0 = CHR ''.''"
    using ip fp ne dot by (cases ip) (auto simp: list_all_iff)
  then have p1: "chr_at ?p 0 \<notin> {CHR '' '', TAB, LF, CR}" "chr_at ?p 0 \<noteq> CHR ''+''" "chr_at ?p 0 \<noteq> CHR ''-''"
    using is_dec_not_sign by auto
  have "chr_at (sn @ ?p) 0 \<notin> {CHR '' '', TAB, LF, CR}" using sn p1(1) by auto
  then have a: "skip_space (ws @ sn @ ?p) = sn @ ?p" by (rule skip_space_append [OF ws])
  have b: "read_sign (sn @ ?p) = (sn = ''-'', ?p)" by (rule read_sign_append [OF sn p1(2,3)])
  have x: "\<not> (chr_at ?p 0 = CHR ''0'' \<and> in_set (chr_at ?p 1) ''xX'')"
  proof (cases ip)
    case Nil
    then show ?thesis using dot ne by auto
  next
    case (Cons c ip')
    have "chr_at (ip' @ dot @ fp @ es @ q) 0 \<notin> {CHR ''x'', CHR ''X''}"
    proof (cases ip')
      case Nil
      then show ?thesis using dot eq(3) by auto
    next
      case (Cons c' r)
      then have "is_dec c'" using ip \<open>ip = c # ip'\<close> by simp
      from is_dec_not_sign [OF this] show ?thesis by (simp add: Cons)
    qed
    then show ?thesis using Cons by (simp add: in_set_iff)
  qed
  let ?xs = "map dec_val (signif (ip @ fp))" and ?f = "int (length fp)"
  have c: "read_digits ?p = (True, keep ?xs ?f, ?eq)" by (rule read_digits_literal [OF ip fp ne dot eq(1,2)])
  obtain e where e: "read_exp ''eE'' ?eq = (e, q)" "same_exponent e E"
    using read_exp_literal [OF es q(1)] q(2) by auto
  obtain dig dexp extra where kk: "keep ?xs ?f = (dig, dexp, extra)" using prod_cases3 by blast
  have s: "strtod_bits (ws @ sn @ ?p) = bindE (decimal_value (sn = ''-'') (dig, dexp + e, extra)) (\<lambda>r. Inr (r, q))"
    unfolding strtod_bits_def a b using x c e(1) by (auto simp: kk Let_def)
  have all: "list_all is_dec (signif (ip @ fp))" using ip fp by (intro list_all_signif) simp
  have lx: "list_all (\<lambda>d. d < 10) ?xs" using all by (auto simp: list_all_iff is_dec_val)
  have hx: "?xs \<noteq> [] \<Longrightarrow> hd ?xs \<noteq> 0"
  proof -
    assume "?xs \<noteq> []"
    then have n: "signif (ip @ fp) \<noteq> []" by simp
    then have "hd ?xs = dec_val (hd (signif (ip @ fp)))" by (simp add: hd_map)
    moreover have "is_dec (hd (signif (ip @ fp)))" using all n by (cases "signif (ip @ fp)") auto
    ultimately show ?thesis using zero_signif(2) [OF n] dec_val_0_iff by simp
  qed
  have "length (signif (ip @ fp)) \<le> length (ip @ fp)" by (simp only: signif_def length_dropWhile_le)
  then have d: "decimal_value (sn = ''-'') (dig, dexp + e, extra) = decimal_value (sn = ''-'') (dig, dexp + E, extra)"
    using decimal_value_same [OF e(2), of ?f ?xs "sn = ''-''"] len by (simp add: kk)
  have "dnum 0 (map dec_val (zero_run (ip @ fp))) = 0"
    by (auto simp: dnum_eq_0_iff zero_run_def dec_val_def dest: set_takeWhileD)
  then have v: "dnum 0 (map dec_val (ip @ fp)) = dnum 0 ?xs"
    using zero_signif(1) [of "ip @ fp"] by (metis dnum_append map_append)
  obtain r where r: "decimal_value (sn = ''-'') (case keep ?xs ?f of (dig, dexp, extra) \<Rightarrow> (dig, dexp + E, extra)) = Inr r"
    "rounds (sn = ''-'') (real (dnum 0 ?xs) * 10 powi (E - ?f) * 2 ^ 1074) r"
    using keep_value [OF lx hx, where neg = "sn = ''-''" and f = ?f and E = E] by blast
  show ?thesis
  proof (intro exI conjI)
    show "strtod_bits (ws @ sn @ ?p) = Inr (r, q)" unfolding s d using r(1) by (simp add: kk)
  qed (unfold v, rule r(2))
qed

end
