(* ===== verification/StrtodProps.thy ===== *)
theory StrtodProps
  imports StrtodText
begin

text \<open>
  The contract of \<open>strtod\<close>: decimal and hexadecimal literals give the double nearest to what they say,
  and no text makes it write outside its arrays.
\<close>

section \<open>Hexadecimal digits\<close>

lemma hexval_less: "ishex c \<Longrightarrow> hexval c < 16"
  unfolding ishex_def hexval_def Let_def by (auto split: if_splits)

definition hnum :: "nat \<Rightarrow> string \<Rightarrow> nat" where
  "hnum v p = foldl (\<lambda>v c. v * 16 + hexval c) v p"

lemma hnum_simps [simp]: "hnum v [] = v" "hnum v (c # p) = hnum (v * 16 + hexval c) p"
  by (simp_all add: hnum_def)

lemma hnum_append: "hnum v (p @ q) = hnum (hnum v p) q"
  by (simp add: hnum_def)

text \<open>
  What the loops hold of the digits read so far, whose number is \<open>h\<close>, \<open>f\<close> of them behind the point: all
  but the last \<open>k\<close>, and if one of these is not zero.
\<close>

definition hex_inv :: "nat \<Rightarrow> nat \<Rightarrow> nat \<Rightarrow> u64 \<times> int \<times> bool \<Rightarrow> bool" where
  "hex_inv h f k s \<longleftrightarrow> (case s of (m, bexp, st) \<Rightarrow>
     unat m = h div 16 ^ k \<and> (st \<longleftrightarrow> h mod 16 ^ k \<noteq> 0) \<and> bexp = 4 * int k - 4 * int f \<and> (k = 0 \<or> 2 ^ 60 \<le> unat m) \<and> k \<le> 90000)"

lemma hex_digit_in:
  assumes m: "m < 0x1000000000000000" and c: "ishex c"
  shows "unat (push_bit 4 m OR word_of_nat (hexval c) :: u64) = unat m * 16 + hexval c"
proof -
  have l: "unat m < 2 ^ 60" using m by (simp add: word_less_nat_alt)
  have h: "hexval c < 2 ^ 4" using hexval_less [OF c] by simp
  then have w: "unat (word_of_nat (hexval c) :: u64) = hexval c" by (intro unat_of_nat_small) simp
  have "unat (push_bit 4 m) = unat m * 2 ^ 4" using l by (intro unat_push_bit_less) simp
  then show ?thesis using unat_or_disjoint [of 4 "push_bit 4 m" "word_of_nat (hexval c)"] h w by simp
qed

lemma hex_step_keep:
  assumes "hex_inv h f k (m, bexp, st)" "m < 0x1000000000000000" "ishex c"
  shows "k = 0" "hex_inv (h * 16 + hexval c) g 0 (push_bit 4 m OR word_of_nat (hexval c), - 4 * int g, st)"
proof -
  have "unat m < 2 ^ 60" using assms(2) by (simp add: word_less_nat_alt)
  then show k: "k = 0" using assms(1) by (auto simp: hex_inv_def)
  then show "hex_inv (h * 16 + hexval c) g 0 (push_bit 4 m OR word_of_nat (hexval c), - 4 * int g, st)"
    using assms by (auto simp: hex_inv_def hex_digit_in)
qed

lemma hex_step_drop:
  assumes "hex_inv h f k (m, bexp, st)" "\<not> m < 0x1000000000000000" "ishex c" "k < 90000"
  shows "hex_inv (h * 16 + hexval c) g (Suc k) (m, 4 * int (Suc k) - 4 * int g, hexval c \<noteq> 0 \<or> st)"
proof -
  have "2 ^ 60 \<le> unat m" using assms(2) by (simp add: word_less_nat_alt)
  moreover have c: "hexval c < 16" using hexval_less [OF assms(3)] .
  then have q: "(h * 16 + hexval c) div 16 = h" "(h * 16 + hexval c) mod 16 = hexval c" by simp_all
  have "(h * 16 + hexval c) div 16 ^ Suc k = h div 16 ^ k" by (simp only: power_Suc div_mult2_eq q)
  moreover have "(h * 16 + hexval c) mod 16 ^ Suc k = 16 * (h mod 16 ^ k) + hexval c"
    by (simp only: power_Suc mod_mult2_eq q)
  ultimately show ?thesis using assms(1,4) by (auto simp: hex_inv_def)
qed

lemma hex_int_digits:
  "hex_inv h 0 k (m, bexp, st) \<Longrightarrow> list_all ishex p \<Longrightarrow> \<not> ishex (chr_at q 0) \<Longrightarrow> k + length p \<le> 90000 \<Longrightarrow>
   \<exists>m' bexp' st' k'. hex_int m bexp st (p @ q) = (m', bexp', st', q) \<and> hex_inv (hnum h p) 0 k' (m', bexp', st') \<and> k' \<le> k + length p"
proof (induction p arbitrary: h k m bexp st)
  case Nil
  then show ?case by (cases q) auto
next
  case (Cons c p)
  have c: "ishex c" using Cons.prems by simp
  have b: "bexp = 4 * int k" using Cons.prems(1) by (simp add: hex_inv_def)
  show ?case
  proof (cases "m < 0x1000000000000000")
    case True
    note s = hex_step_keep [OF Cons.prems(1) True c]
    have "bexp = 0" using b s(1) by simp
    then have "hex_inv (h * 16 + hexval c) 0 0 (push_bit 4 m OR word_of_nat (hexval c), bexp, st)" using s(2) [of 0] by simp
    from Cons.IH [OF this] Cons.prems True s(1) show ?thesis by (fastforce intro: le_SucI)
  next
    case False
    have "hex_inv (h * 16 + hexval c) 0 (Suc k) (m, bexp + 4, hexval c \<noteq> 0 \<or> st)"
      using hex_step_drop [OF Cons.prems(1) False c, of 0] Cons.prems(4) b by (simp add: algebra_simps)
    from Cons.IH [OF this] Cons.prems False show ?thesis by simp
  qed
qed

lemma hex_frac_digits:
  "hex_inv h f k (m, bexp, st) \<Longrightarrow> list_all ishex p \<Longrightarrow> \<not> ishex (chr_at q 0) \<Longrightarrow> k + length p \<le> 90000 \<Longrightarrow>
   \<exists>m' bexp' st' k'. hex_frac m bexp st (p @ q) = (m', bexp', st', q) \<and> hex_inv (hnum h p) (f + length p) k' (m', bexp', st') \<and> k' \<le> k + length p"
proof (induction p arbitrary: h f k m bexp st)
  case Nil
  then show ?case by (cases q) auto
next
  case (Cons c p)
  have c: "ishex c" using Cons.prems by simp
  have b: "bexp = 4 * int k - 4 * int f" using Cons.prems(1) by (simp add: hex_inv_def)
  show ?case
  proof (cases "m < 0x1000000000000000")
    case True
    note s = hex_step_keep [OF Cons.prems(1) True c]
    have "bexp - 4 = - 4 * int (Suc f)" using b s(1) by simp
    then have "hex_inv (h * 16 + hexval c) (Suc f) 0 (push_bit 4 m OR word_of_nat (hexval c), bexp - 4, st)" using s(2) [of "Suc f"] by (simp only:)
    from Cons.IH [OF this] Cons.prems True s(1) show ?thesis by (fastforce intro: le_SucI)
  next
    case False
    have "bexp = 4 * int (Suc k) - 4 * int (Suc f)" "k < 90000" using b Cons.prems(4) by simp_all
    then have "hex_inv (h * 16 + hexval c) (Suc f) (Suc k) (m, bexp, hexval c \<noteq> 0 \<or> st)"
      using hex_step_drop [OF Cons.prems(1) False c, of "Suc f"] by (simp only:)
    from Cons.IH [OF this] Cons.prems False show ?thesis by simp
  qed
qed

section \<open>Rounding a hexadecimal literal\<close>

lemma powi_shift: "x * 2 powi (a + int d) = x * 2 ^ d * (2 :: real) powi a"
  by (simp add: power_int_add)

lemma hex_assemble_rounds:
  assumes x: "rounds_down x (unat m) st" and big: "st \<Longrightarrow> 2 ^ 60 \<le> unat m" and m: "m \<noteq> 0"
  shows "rounds neg (x * 2 powi (bexp + 1074)) (hex_assemble neg m bexp st)"
proof -
  let ?b = "blen (unat m)"
  have m0: "0 < unat m" using m by (simp add: unat_gt_0)
  have c: "count_bits m 0 = ?b" by (simp add: count_bits_blen)
  note bl = blen_bounds(1) [of "unat m"] blen_bounds(2) [OF m0]
  consider (more) "54 < ?b" | (fits) "?b = 54" | (less) "?b < 54" by linarith
  then show ?thesis
  proof cases
    case more
    define d where "d = ?b - 54"
    have mk: "m AND (push_bit d 1 - 1) \<noteq> 0 \<longleftrightarrow> unat m mod 2 ^ d \<noteq> 0"
    proof -
      have "(push_bit d 1 - 1 :: u64) = mask d" by (simp add: mask_eq_exp_minus_1 push_bit_eq_mult)
      then show ?thesis using unat_and_mask_mod [of m d] by (simp flip: unat_eq_0)
    qed
    have w: "unat (drop_bit d m) = unat m div 2 ^ d" by (rule unat_drop_bit_div)
    have y: "rounds_down (x / 2 ^ d) (unat (drop_bit d m)) (unat m mod 2 ^ d \<noteq> 0 \<or> st)" unfolding w by (rule rounds_down_div [OF x])
    have "54 + d = ?b" "53 + d = ?b - 1" using more by (simp_all add: d_def)
    then have "2 ^ 53 * 2 ^ d \<le> unat m" "unat m < 2 ^ 54 * 2 ^ d" using bl by (simp_all only: power_add [symmetric])
    then have r: "2 ^ 53 \<le> unat (drop_bit d m)" "unat (drop_bit d m) < 2 ^ 54"
      unfolding w by (simp_all add: less_eq_div_iff_mult_less_eq less_mult_imp_div_less)
    have e: "hex_assemble neg m bexp st = assemble neg (drop_bit d m) (unat m mod 2 ^ d \<noteq> 0 \<or> st) (bexp + int d + 53)"
      using m more mk by (simp add: hex_assemble_def c d_def Let_def)
    have "bexp + int d + 53 + 1021 = bexp + 1074 + int d" by simp
    then have "x / 2 ^ d * 2 powi (bexp + int d + 53 + 1021) = x * 2 powi (bexp + 1074)"
      by (simp only: powi_shift) simp
    then show ?thesis using assemble_rounds [OF y r, of neg "bexp + int d + 53"] by (simp only: e)
  next
    case fits
    have r: "2 ^ 53 \<le> unat m" "unat m < 2 ^ 54" using bl by (simp_all only: fits) simp_all
    have e: "hex_assemble neg m bexp st = assemble neg m st (bexp + 53)"
      using m fits by (simp add: hex_assemble_def c)
    have "bexp + 53 + 1021 = bexp + 1074" by simp
    then show ?thesis using assemble_rounds [OF x r, of neg "bexp + 53"] by (simp only: e)
  next
    case less
    define d where "d = 54 - ?b"
    have small: "unat m < 2 ^ 54" using less blen_le_iff [of "unat m" 54] by simp
    then have st: "\<not> st" using big by auto
    have "?b + d = 54" "?b - 1 + d = 53" using less blen_pos [OF m0] by (simp_all add: d_def)
    then have r': "unat m * 2 ^ d < 2 ^ 54" "2 ^ 53 \<le> unat m * 2 ^ d"
      using mult_less_mono1 [OF bl(1), of "2 ^ d"] mult_le_mono1 [OF bl(2), of "2 ^ d"] by (simp_all only: power_add [symmetric]) simp_all
    then have w: "unat (push_bit d m) = unat m * 2 ^ d" by (intro unat_push_bit_less) simp
    have y: "rounds_down (x * 2 ^ d) (unat (push_bit d m)) st" using x st unfolding w by (simp add: rounds_down_def)
    have e: "hex_assemble neg m bexp st = assemble neg (push_bit d m) st (bexp - int d + 53)"
      using m less by (simp add: hex_assemble_def c d_def Let_def)
    have "bexp + 1074 = bexp - int d + 53 + 1021 + int d" by simp
    then have "x * 2 powi (bexp + 1074) = x * 2 ^ d * 2 powi (bexp - int d + 53 + 1021)"
      by (simp only: powi_shift)
    then show ?thesis using assemble_rounds [OF y, of neg "bexp - int d + 53"] r' w by (simp only: e)
  qed
qed

lemma assemble_far:
  assumes "1023 < t \<and> 1023 < t' \<or> t < - 1075 \<and> t' < - 1075"
  shows "assemble neg w st t = assemble neg w st t'"
proof -
  have r: "assemble neg w st t = (if w = 0 then with_sign neg 0 else with_sign neg 0x7ff0000000000000)" if "1023 < t" for t
  proof -
    obtain mant e where me: "round_significand w st t = (mant, e)" by force
    then have "e = t \<or> e = t + 1" by (auto simp: round_significand_def Let_def split: if_splits)
    then show ?thesis using me that by (auto simp: assemble_def assemble_rest_def)
  qed
  have z: "assemble neg w st t = with_sign neg 0" if "t < - 1075" for t
    using that by (simp add: assemble_def Let_def)
  from assms show ?thesis using r z by auto
qed

lemma hex_assemble_far:
  assumes "1100 < b \<and> 1100 < b' \<or> b < - 1200 \<and> b' < - 1200"
  shows "hex_assemble neg m b st = hex_assemble neg m b' st"
proof -
  have "unat m < 2 ^ 64" by (rule u64_bound)
  then have "blen (unat m) \<le> 64" by (simp only: blen_le_iff)
  then have b: "int (blen (unat m) - 54) \<le> 10" "int (54 - blen (unat m)) \<le> 54" by simp_all
  have "assemble neg (drop_bit (blen (unat m) - 54) m) st' (b + int (blen (unat m) - 54) + 53)
      = assemble neg (drop_bit (blen (unat m) - 54) m) st' (b' + int (blen (unat m) - 54) + 53)" for st'
    by (rule assemble_far) (use assms b in linarith)
  moreover have "assemble neg (push_bit (54 - blen (unat m)) m) st (b - int (54 - blen (unat m)) + 53)
      = assemble neg (push_bit (54 - blen (unat m)) m) st (b' - int (54 - blen (unat m)) + 53)"
    by (rule assemble_far) (use assms b in linarith)
  moreover have "assemble neg m st (b + 53) = assemble neg m st (b' + 53)"
    by (rule assemble_far) (use assms in linarith)
  ultimately show ?thesis by (simp add: hex_assemble_def count_bits_blen Let_def del: of_nat_diff)
qed

lemma hex_value:
  assumes i: "hex_inv h f k (m, bexp, st)"
  shows "rounds neg (real h * 2 powi (E - 4 * int f) * 2 ^ 1074) (hex_assemble neg m (bexp + E) st)"
proof -
  have inv: "unat m = h div 16 ^ k" "st \<longleftrightarrow> h mod 16 ^ k \<noteq> 0" "bexp = 4 * int k - 4 * int f" "k = 0 \<or> 2 ^ 60 \<le> unat m"
    using i unfolding hex_inv_def prod.case by blast+
  show ?thesis
  proof (cases "m = 0")
    case True
    then have "k = 0" using inv(4) by auto
    then have "h = 0" using inv(1) True by simp
    then have "real h * 2 powi (E - 4 * int f) * 2 ^ 1074 = 0" by simp
    moreover have "hex_assemble neg m (bexp + E) st = with_sign neg 0" using True by (simp add: hex_assemble_def)
    ultimately show ?thesis using rounds_none [of 0 neg] by simp
  next
    case False
    have p: "(16 :: nat) ^ k = 2 ^ (4 * k)" by (simp add: power_mult)
    have "rounds_down (real h) h False" by (simp add: rounds_down_def)
    from rounds_down_div [OF this, of "4 * k"] have x: "rounds_down (real h / 2 ^ (4 * k)) (unat m) st"
      unfolding inv(1,2) p by simp
    have big: "st \<Longrightarrow> 2 ^ 60 \<le> unat m" using inv(2,4) by auto
    have e: "bexp + E + 1074 = E - 4 * int f + 1074 + int (4 * k)" using inv(3) by simp
    have "real h / 2 ^ (4 * k) * 2 powi (bexp + E + 1074) = real h * 2 powi (E - 4 * int f + 1074)"
      unfolding e powi_shift by simp
    also have "\<dots> = real h * (2 powi (E - 4 * int f) * 2 ^ 1074)"
      using powi_int_diff [of "E - 4 * int f" 1074] by (simp only: of_nat_numeral)
    finally show ?thesis using hex_assemble_rounds [OF x big False, of neg "bexp + E"] by (simp only: mult.assoc)
  qed
qed

lemma strtod_hex_text:
  assumes ip: "list_all ishex ip" and fp: "list_all ishex fp" and dot: "dot = [] \<and> fp = [] \<or> dot = ''.''"
    and es: "exponent ''pP'' es E" and q: "\<not> ishex (chr_at q 0)" "chr_at q 0 \<notin> set ''.pP''"
    and len: "length ip + length fp \<le> 20000"
  shows "\<exists>r. strtod_hex neg (ip @ dot @ fp @ es @ q) = (r, q) \<and>
    rounds neg (real (hnum 0 (ip @ fp)) * 2 powi (E - 4 * int (length fp)) * 2 ^ 1074) r"
proof -
  let ?eq = "es @ q"
  have eq: "\<not> ishex (chr_at ?eq 0)" "chr_at ?eq 0 \<noteq> CHR ''.''"
    using es q by (auto simp: exponent_def ishex_def)
  have t: "\<not> ishex (chr_at (dot @ fp @ ?eq) 0)" using dot eq by (auto simp: ishex_def)
  have i0: "hex_inv 0 0 0 (0, 0, False)" by (simp add: hex_inv_def)
  obtain m1 b1 s1 k1 where h1: "hex_int 0 0 False (ip @ dot @ fp @ ?eq) = (m1, b1, s1, dot @ fp @ ?eq)"
    "hex_inv (hnum 0 ip) 0 k1 (m1, b1, s1)" "k1 \<le> length ip"
    using hex_int_digits [OF i0 ip t] len by auto
  have "\<exists>m b s k. (if chr_at (dot @ fp @ ?eq) 0 = CHR ''.'' then hex_frac m1 b1 s1 (drop 1 (dot @ fp @ ?eq)) else (m1, b1, s1, dot @ fp @ ?eq))
      = (m, b, s, ?eq) \<and> hex_inv (hnum 0 (ip @ fp)) (length fp) k (m, b, s) \<and> k \<le> length ip + length fp"
  proof (cases "dot = []")
    case True
    then show ?thesis using dot h1 eq by auto
  next
    case False
    then have "dot = ''.''" using dot by simp
    then show ?thesis using hex_frac_digits [OF h1(2) fp eq(1)] h1(3) len by (fastforce simp: hnum_append)
  qed
  then obtain m b s k where h2:
    "(if chr_at (dot @ fp @ ?eq) 0 = CHR ''.'' then hex_frac m1 b1 s1 (drop 1 (dot @ fp @ ?eq)) else (m1, b1, s1, dot @ fp @ ?eq)) = (m, b, s, ?eq)"
    "hex_inv (hnum 0 (ip @ fp)) (length fp) k (m, b, s)" "k \<le> length ip + length fp" by blast
  have nd: "\<not> is_dec (chr_at q 0)" using q(1) by (auto simp: is_dec_def ishex_def)
  obtain e where e: "read_exp ''pP'' ?eq = (e, q)" "same_exponent e E"
    using read_exp_literal [OF es nd] q(2) by auto
  have r: "strtod_hex neg (ip @ dot @ fp @ ?eq) = (hex_assemble neg m (b + e) s, q)"
    unfolding strtod_hex_def h1(1) Let_def prod.case h2(1) e(1) ..
  have "b = 4 * int k - 4 * int (length fp)" using h2(2) by (simp add: hex_inv_def)
  then have "hex_assemble neg m (b + e) s = hex_assemble neg m (b + E) s"
    using e(2) h2(3) len by (cases "e = E") (auto simp: same_exponent_def intro!: hex_assemble_far)
  then show ?thesis using r hex_value [OF h2(2), of neg E] by (simp only: prod.inject simp_thms ex_simps)
qed

section \<open>Nothing outside the arrays\<close>

text \<open>What the loops over the digits keep, whatever text they read.\<close>

definition digits_ok :: "digits \<Rightarrow> bool" where
  "digits_ok st \<longleftrightarrow> (case st of (dig, dexp, extra) \<Rightarrow>
     length dig \<le> NDIG \<and> (\<forall>d \<in> set dig. d < 10) \<and> (dig \<noteq> [] \<longrightarrow> hd dig \<noteq> 0) \<and> (extra \<longrightarrow> length dig = NDIG))"

lemma digit_ok:
  assumes "is_dec c" "digits_ok (dig, dexp, extra)" "dig \<noteq> [] \<or> c \<noteq> CHR ''0''"
  shows "digits_ok (if length dig < NDIG then (dig @ [dec_val c], e1, extra) else (dig, e2, c \<noteq> CHR ''0'' \<or> extra))"
    "fst (if length dig < NDIG then (dig @ [dec_val c], e1, extra) else (dig, e2, c \<noteq> CHR ''0'' \<or> extra)) \<noteq> []"
  using assms is_dec_val [of c] dec_val_0_iff [of c]
  by (auto simp: digits_ok_def hd_append NDIG_def)

lemma int_loop_ok:
  "digits_ok st \<Longrightarrow> fst st \<noteq> [] \<or> chr_at p 0 \<noteq> CHR ''0'' \<Longrightarrow> digits_ok (fst (int_loop st p))"
proof (induction st p rule: int_loop.induct)
  case (2 st c p)
  obtain dig dexp extra where st: "st = (dig, dexp, extra)" using prod_cases3 by blast
  show ?case
  proof (cases "is_dec c")
    case True
    note d = digit_ok [OF True, of dig dexp extra]
    show ?thesis using 2(1) [OF True st [symmetric] refl] 2(2,3) d True by (simp add: st)
  qed (use 2 in simp)
qed simp

lemma frac_loop_ok:
  "digits_ok st \<Longrightarrow> fst st \<noteq> [] \<or> chr_at p 0 \<noteq> CHR ''0'' \<Longrightarrow> digits_ok (fst (frac_loop st p))"
proof (induction st p rule: frac_loop.induct)
  case (2 st c p)
  obtain dig dexp extra where st: "st = (dig, dexp, extra)" using prod_cases3 by blast
  show ?case
  proof (cases "is_dec c")
    case True
    note d = digit_ok [OF True, of dig dexp extra]
    show ?thesis using 2(1) [OF True st [symmetric] refl] 2(2,3) d True by (simp add: st)
  qed (use 2 in simp)
qed simp

lemma zero_loop_head: "chr_at (snd (zero_loop n p)) 0 \<noteq> CHR ''0''"
  by (induction n p rule: zero_loop.induct) auto

lemma digits_ok_exp: "digits_ok (dig, e, extra) = digits_ok (dig, e', extra)"
  by (simp add: digits_ok_def)

lemma read_digits_ok: "digits_ok (fst (snd (read_digits p)))"
proof -
  obtain z p1 where z: "zero_loop 0 p = (z, p1)" by force
  obtain st p2 where "int_loop ([], 0, False) p1 = (st, p2)" by (cases "int_loop ([], 0, False) p1")
  moreover obtain dig dexp extra where "st = (dig, dexp, extra)" using prod_cases3 by blast
  ultimately have i: "int_loop ([], 0, False) p1 = ((dig, dexp, extra), p2)" by simp
  have "digits_ok ([], 0, False)" by (simp add: digits_ok_def)
  then have ok: "digits_ok (dig, dexp, extra)"
    using int_loop_ok [of "([], 0, False)" p1] zero_loop_head [of 0 p] by (simp add: z i)
  show ?thesis
  proof (cases "chr_at p2 0 = CHR ''.''")
    case True
    obtain y p4 where y: "(if dig = [] then zero_loop 0 (drop 1 p2) else (0, drop 1 p2)) = (y, p4)" by force
    have "dig \<noteq> [] \<or> chr_at p4 0 \<noteq> CHR ''0''"
      using zero_loop_head [of 0 "drop 1 p2"] y by (cases "dig = []") auto
    then have "digits_ok (fst (frac_loop (dig, dexp - y, extra) p4))"
      using ok by (intro frac_loop_ok) (simp_all add: digits_ok_exp [of dig "dexp - y" _ dexp])
    then show ?thesis
      unfolding read_digits_def z i Let_def prod.case if_P [OF True] y by (auto split: prod.splits)
  qed (simp add: read_digits_def z i ok)
qed

text \<open>
  C32. Whatever text it is given, decimal, hexadecimal or no number at all and however long, \<open>strtod\<close>
  stores nothing outside the arrays of its big numbers, and it returns.
\<close>

theorem strtod_in_bounds: "\<exists>r rest. strtod_bits s = Inr (r, rest)"
proof -
  obtain neg p where p: "read_sign (skip_space s) = (neg, p)" by force
  obtain seen st q where "read_digits p = (seen, st, q)" using prod_cases3 by blast
  moreover obtain dig dexp extra where "st = (dig, dexp, extra)" using prod_cases3 by blast
  ultimately have r: "read_digits p = (seen, (dig, dexp, extra), q)" by simp
  obtain e q' where e: "read_exp ''eE'' q = (e, q')" by force
  have ok: "digits_ok (dig, dexp, extra)" using read_digits_ok [of p] by (simp add: r)
  have "\<exists>v. decimal_value neg (dig, dexp + e, extra) = Inr v"
  proof (cases "dig = []")
    case False
    then show ?thesis
      using ok decimal_value_rounds [of dig "1 / 2" True neg "dexp + e"] decimal_value_rounds [of dig 0 False neg "dexp + e"]
      unfolding digits_ok_def prod.case by (cases extra) (simp, blast)+
  qed (simp add: decimal_value_def)
  then show ?thesis unfolding strtod_bits_def p by (auto simp: r e Let_def)
qed

section \<open>Correct rounding\<close>

text \<open>
  C30. \<open>strtod\<close> reads every decimal literal, with blanks, sign, point and exponent in any of the forms of
  C, up to its end, and returns the double nearest to the number it says, ties to even: however many
  digits it has, subnormal doubles, overflow to infinity and the sign of zero included. (The number of
  digits is at most 90000, because an exponent is capped at 100000 and more.)
\<close>

theorem strtod_decimal:
  assumes "set ws \<subseteq> {CHR '' '', TAB, LF, CR}" and "sn \<in> {[], ''+'', ''-''}"
    and "list_all is_dec ip" and "list_all is_dec fp" and "ip @ fp \<noteq> []"
    and "dot = [] \<and> fp = [] \<or> dot = ''.''" and "exponent ''eE'' es E"
    and "\<not> is_dec (chr_at rest 0)" and "chr_at rest 0 \<notin> set ''.eExX''" and "length ip + length fp \<le> 90000"
  shows "\<exists>r. strtod_bits (ws @ sn @ ip @ dot @ fp @ es @ rest) = Inr (r, rest) \<and>
    rounds (sn = ''-'') (real (dnum 0 (map dec_val (ip @ fp))) * 10 powi (E - int (length fp)) * 2 ^ 1074) r"
  using assms by (rule strtod_literal)

text \<open>
  C31. The same for hexadecimal literals of at most 20000 digits: \<open>strtod\<close> returns the double nearest
  to the number its digits and its power of two say, and the end of the literal. (An exponent is
  capped at 100000 and more, so with more digits that make up for it the value can be wrong.)
\<close>

theorem strtod_hexadecimal:
  assumes "set ws \<subseteq> {CHR '' '', TAB, LF, CR}" and "sn \<in> {[], ''+'', ''-''}" and "x \<in> {CHR ''x'', CHR ''X''}"
    and "list_all ishex ip" and "list_all ishex fp" and "ip @ fp \<noteq> []"
    and "dot = [] \<and> fp = [] \<or> dot = ''.''" and "exponent ''pP'' es E"
    and "\<not> ishex (chr_at rest 0)" and "chr_at rest 0 \<notin> set ''.pP''" and "length ip + length fp \<le> 20000"
  shows "\<exists>r. strtod_bits (ws @ sn @ CHR ''0'' # x # ip @ dot @ fp @ es @ rest) = Inr (r, rest) \<and>
    rounds (sn = ''-'') (real (hnum 0 (ip @ fp)) * 2 powi (E - 4 * int (length fp)) * 2 ^ 1074) r"
proof -
  let ?t = "ip @ dot @ fp @ es @ rest" and ?p = "CHR ''0'' # x # ip @ dot @ fp @ es @ rest"
  have "chr_at (sn @ ?p) 0 \<notin> {CHR '' '', TAB, LF, CR}" using assms(2) by auto
  then have a: "skip_space (ws @ sn @ ?p) = sn @ ?p" by (rule skip_space_append [OF assms(1)])
  have b: "read_sign (sn @ ?p) = (sn = ''-'', ?p)" by (rule read_sign_append [OF assms(2)]) simp_all
  have h: "ishex (chr_at ?t 0) \<or> chr_at ?t 0 = CHR ''.'' \<and> ishex (chr_at ?t 1)"
    using assms(4-7) by (cases ip; cases fp) auto
  then have h: "ishex (chr_at ?p 2) \<or> chr_at ?p 2 = CHR ''.'' \<and> ishex (chr_at ?p 3)"
    by (simp add: numeral_2_eq_2 numeral_3_eq_3)
  have x: "in_set (chr_at ?p 1) ''xX''" using assms(3) by (auto simp: in_set_iff)
  have "strtod_bits (ws @ sn @ ?p) = Inr (strtod_hex (sn = ''-'') (drop 2 ?p))"
    unfolding strtod_bits_def a b using x h by (simp add: Let_def)
  moreover have "drop 2 ?p = ?t" by (simp add: numeral_2_eq_2)
  ultimately show ?thesis using strtod_hex_text [OF assms(4,5,7-11), of "sn = ''-''"] by simp
qed

text \<open>\<open>-12.50e+3\<close> and \<open>0x1.8p28\<close>.\<close>

theorem strtod_decimal_witness:
  "\<exists>r. strtod_bits '' -12.50e+3;'' = Inr (r, '';'') \<and> rounds True (real 1250 * 10 powi 1 * 2 ^ 1074) r"
proof -
  have e: "exponent ''eE'' ''e+3'' 3"
    unfolding exponent_def by (intro disjI2 exI [of _ "CHR ''e''"] exI [of _ "''+''"] exI [of _ "''3''"]) (simp add: is_dec_def dec_val_def)
  show ?thesis
    using strtod_decimal [of "'' ''" "''-''" "''12''" "''50''" "''.''" "''e+3''" 3 "'';''"] e
    by (simp add: is_dec_def dec_val_def del: power_numeral)
qed

theorem strtod_hexadecimal_witness:
  "\<exists>r. strtod_bits ''0x1.8p28'' = Inr (r, []) \<and> rounds False (real 24 * 2 powi 24 * 2 ^ 1074) r"
proof -
  have e: "exponent ''pP'' ''p28'' 28"
    unfolding exponent_def by (intro disjI2 exI [of _ "CHR ''p''"] exI [of _ "[]"] exI [of _ "''28''"]) (simp add: is_dec_def dec_val_def)
  show ?thesis
    using strtod_hexadecimal [of "[]" "[]" "CHR ''x''" "''1''" "''8''" "''.''" "''p28''" 28 "[]"] e
    by (simp add: ishex_def hexval_def)
qed

end
