(* ===== verification/Qsort.thy ===== *)
theory Qsort
  imports Prelude "HOL-Library.Sorting_Algorithms"
begin

text \<open>
  \<open>qsort\<close> of the C library (\<^verbatim>\<open>stages/3-micro-c/micro-c-libc/impl/runtime.c\<close>): an insertion sort over
  elements of \<open>sz\<close> bytes (\<open>size\<close> in the code) each. The array is its bytes; a copy from or to bytes outside it is an error.
  The comparison function is a parameter, a function of the contents of its two elements; \<open>ok\<close> says that
  \<open>malloc\<close> gave the room for one element.
\<close>

section \<open>The code\<close>

datatype qsort_error = Outside_Array

definition read_block :: "nat \<Rightarrow> u8 list \<Rightarrow> nat \<Rightarrow> qsort_error + u8 list" where
  "read_block sz a i = (if i * sz + sz \<le> length a then Inr (take sz (drop (i * sz) a)) else Inl Outside_Array)"

definition write_block :: "nat \<Rightarrow> u8 list \<Rightarrow> nat \<Rightarrow> u8 list \<Rightarrow> qsort_error + u8 list" where
  "write_block sz a i x =
    (if i * sz + sz \<le> length a then Inr (take (i * sz) a @ x @ drop (i * sz + sz) a) else Inl Outside_Array)"

text \<open>The inner loop: larger elements move up by one; the place that is left for the new one.\<close>

fun shift_loop :: "(u8 list \<Rightarrow> u8 list \<Rightarrow> int) \<Rightarrow> nat \<Rightarrow> u8 list \<Rightarrow> nat \<Rightarrow> u8 list \<Rightarrow> qsort_error + nat \<times> u8 list" where
  "shift_loop compar sz tmp 0 a = Inr (0, a)"
| "shift_loop compar sz tmp (Suc j) a =
    bindE (read_block sz a j) (\<lambda>x.
      if compar x tmp \<le> 0 then Inr (Suc j, a)
      else bindE (write_block sz a (Suc j) x) (shift_loop compar sz tmp j))"

function sort_loop :: "(u8 list \<Rightarrow> u8 list \<Rightarrow> int) \<Rightarrow> nat \<Rightarrow> nat \<Rightarrow> nat \<Rightarrow> u8 list \<Rightarrow> qsort_error + u8 list" where
  "sort_loop compar nmemb sz i a =
    (if i < nmemb
     then bindE (read_block sz a i) (\<lambda>tmp.
          bindE (shift_loop compar sz tmp i a) (\<lambda>(j, a).
          bindE (write_block sz a j tmp) (sort_loop compar nmemb sz (i + 1))))
     else Inr a)"
  by pat_completeness auto
termination
  by (relation "measure (\<lambda>(compar, nmemb, sz, i, a). nmemb - i)") auto

declare sort_loop.simps [simp del]

definition qsort :: "bool \<Rightarrow> u8 list \<Rightarrow> nat \<Rightarrow> nat \<Rightarrow> (u8 list \<Rightarrow> u8 list \<Rightarrow> int) \<Rightarrow> qsort_error + u8 list" where
  "qsort ok base nmemb sz compar =
    (if nmemb < 2 then Inr base
     else if sz = 0 then Inr base
     else if \<not> ok then Inr base
     else sort_loop compar nmemb sz 1 base)"

section \<open>The array as a list of elements\<close>

definition elements :: "nat \<Rightarrow> nat \<Rightarrow> u8 list \<Rightarrow> u8 list list" where
  "elements sz n a = map (\<lambda>i. take sz (drop (i * sz) a)) [0..<n]"

lemma concat_elements: "length a = n * sz \<Longrightarrow> concat (elements sz n a) = a"
proof (induction n arbitrary: a)
  case (Suc n)
  have "elements sz (Suc n) a = take sz a # elements sz n (drop sz a)"
    unfolding elements_def by (simp only: upt_conv_Cons [OF zero_less_Suc] map_Suc_upt [symmetric] list.map map_map)
      (simp add: o_def add.commute)
  then show ?case using Suc by simp
qed (simp add: elements_def)

lemma length_elements [simp]: "length (elements sz n a) = n"
  by (simp add: elements_def)

lemma elements_length: "length a = n * sz \<Longrightarrow> x \<in> set (elements sz n a) \<Longrightarrow> length x = sz"
proof -
  assume a: "length a = n * sz" "x \<in> set (elements sz n a)"
  then obtain i where i: "i < n" "x = take sz (drop (i * sz) a)" by (auto simp: elements_def)
  then have "Suc i * sz \<le> n * sz" by (intro mult_le_mono1) simp
  with a(1) i(2) show ?thesis by simp
qed

lemma length_concat_const: "\<forall>x \<in> set bs. length x = sz \<Longrightarrow> length (concat bs) = length bs * sz"
  by (induction bs) auto

lemma read_block_concat:
  assumes "\<forall>x \<in> set (l @ x # r). length x = sz"
  shows "read_block sz (concat (l @ x # r)) (length l) = Inr x"
  using assms length_concat_const [of l sz] by (simp add: read_block_def)

lemma write_block_concat:
  assumes "\<forall>x \<in> set (l @ x # r). length x = sz"
  shows "write_block sz (concat (l @ x # r)) (length l) y = Inr (concat (l @ y # r))"
  using assms length_concat_const [of l sz] by (simp add: write_block_def)

section \<open>Insertion\<close>

lemma shift_loop_splits:
  assumes "\<forall>x \<in> set (ys @ w # zs). length x = sz"
  shows "\<exists>l r v. ys = l @ r \<and> length v = sz \<and> (\<forall>y \<in> set r. \<not> compar y tmp \<le> 0) \<and> (l = [] \<or> compar (last l) tmp \<le> 0) \<and>
    shift_loop compar sz tmp (length ys) (concat (ys @ w # zs)) = Inr (length l, concat (l @ v # r @ zs))"
  using assms
proof (induction ys arbitrary: w zs rule: rev_induct)
  case Nil
  then show ?case by (intro exI [of _ "[]"] exI [of _ w]) simp
next
  case (snoc y ys)
  have r: "read_block sz (concat ((ys @ [y]) @ w # zs)) (length ys) = Inr y"
    using read_block_concat [of ys y "w # zs" sz] snoc.prems by simp
  show ?case
  proof (cases "compar y tmp \<le> 0")
    case True
    then show ?thesis using r snoc.prems
      by (intro exI [of _ "ys @ [y]"] exI [of _ "[]"] exI [of _ w]) simp
  next
    case False
    have w: "write_block sz (concat ((ys @ [y]) @ w # zs)) (Suc (length ys)) y = Inr (concat ((ys @ [y]) @ y # zs))"
      using write_block_concat [of "ys @ [y]" w zs sz y] snoc.prems by simp
    have "\<forall>x \<in> set (ys @ y # y # zs). length x = sz" using snoc.prems by simp
    from snoc.IH [OF this] obtain l r v where ih: "ys = l @ r" "length v = sz" "\<forall>y \<in> set r. \<not> compar y tmp \<le> 0"
      "l = [] \<or> compar (last l) tmp \<le> 0"
      "shift_loop compar sz tmp (length ys) (concat (ys @ y # y # zs)) = Inr (length l, concat (l @ v # r @ y # zs))" by blast
    have "shift_loop compar sz tmp (length (ys @ [y])) (concat ((ys @ [y]) @ w # zs)) = Inr (length l, concat (l @ v # (r @ [y]) @ zs))"
      using r w False ih(5) by simp
    then show ?thesis using ih(1-4) False by (intro exI [of _ l] exI [of _ "r @ [y]"] exI [of _ v]) simp
  qed
qed

text \<open>What the outer loop keeps: the elements before \<open>i\<close> are sorted, and equal ones are in their old order.\<close>

definition agrees :: "(u8 list \<Rightarrow> u8 list \<Rightarrow> int) \<Rightarrow> u8 list comparator \<Rightarrow> bool" where
  "agrees compar C \<longleftrightarrow> (\<forall>x y. compar x y \<le> 0 \<longleftrightarrow> compare C x y \<noteq> Greater)"

lemma insert_sorted:
  assumes c: "agrees compar C" and s: "Sorting_Algorithms.sorted C (l @ r)"
    and r: "\<forall>y \<in> set r. \<not> compar y tmp \<le> 0" and l: "l = [] \<or> compar (last l) tmp \<le> 0"
  shows "Sorting_Algorithms.sorted C (l @ tmp # r)"
    "stable_segment C y (l @ tmp # r @ zs) = stable_segment C y (l @ r @ tmp # zs)"
proof -
  have gr: "compare C x tmp = Greater" if "x \<in> set r" for x using r c that by (auto simp: agrees_def)
  have le: "compare C x tmp \<noteq> Greater" if "x \<in> set l" for x
  proof -
    have ne: "l \<noteq> []" using that by auto
    then have lt: "compare C (last l) tmp \<noteq> Greater" using l c by (auto simp: agrees_def)
    show ?thesis
    proof (cases "x = last l")
      case False
      obtain k m where km: "l = k @ [m]" using ne by (cases l rule: rev_cases) auto
      then have "Sorting_Algorithms.sorted C (k @ [m] @ r)" "x \<in> set k" "last l = m" using s that False by auto
      then have "compare C x (last l) \<noteq> Greater" by (simp add: sorted_append_iff)
      then show ?thesis using lt by (auto dest: compare.trans_not_greater)
    qed (use lt in simp)
  qed
  have "compare C tmp x \<noteq> Greater" if "x \<in> set r" for x
    using gr [OF that] by (auto simp: compare.greater_iff_sym_less dest: compare.asym_less)
  moreover have "Sorting_Algorithms.sorted C l" "Sorting_Algorithms.sorted C r"
    "\<forall>x \<in> set l. \<forall>y \<in> set r. compare C x y \<noteq> Greater"
    using s by (simp_all add: sorted_append_iff)
  ultimately show "Sorting_Algorithms.sorted C (l @ tmp # r)"
    using le sorted_append_iff [of C "[tmp]" r] by (auto simp: sorted_append_iff)
  have "filter (\<lambda>x. compare C y x = Equiv) r = []" if "compare C y tmp = Equiv"
  proof -
    have "compare C y x \<noteq> Equiv" if "x \<in> set r" for x
      using gr [OF that] \<open>compare C y tmp = Equiv\<close>
      by (metis comp.distinct(3) comp.distinct(5) compare.sym compare.trans_equiv comp.simps(6))
    then show ?thesis by (simp add: filter_empty_conv)
  qed
  then show "stable_segment C y (l @ tmp # r @ zs) = stable_segment C y (l @ r @ tmp # zs)" by simp
qed

lemma sort_loop_sorts:
  assumes c: "agrees compar C"
  shows "1 \<le> i \<Longrightarrow> i \<le> length bs \<Longrightarrow> \<forall>x \<in> set bs. length x = sz \<Longrightarrow> Sorting_Algorithms.sorted C (take i bs) \<Longrightarrow>
    \<exists>bs'. sort_loop compar (length bs) sz i (concat bs) = Inr (concat bs') \<and> mset bs' = mset bs \<and>
      Sorting_Algorithms.sorted C bs' \<and> (\<forall>y. stable_segment C y bs' = stable_segment C y bs)"
proof (induction "length bs - i" arbitrary: i bs rule: less_induct)
  case less
  show ?case
  proof (cases "i < length bs")
    case False
    then show ?thesis using less.prems by (intro exI [of _ bs]) (simp add: sort_loop.simps [of compar "length bs"])
  next
    case True
    define ys where "ys = take i bs"
    define tmp where "tmp = bs ! i"
    define zs where "zs = drop (Suc i) bs"
    have bs: "bs = ys @ tmp # zs" "length ys = i" using True by (simp_all add: ys_def tmp_def zs_def id_take_nth_drop [symmetric])
    have len: "\<forall>x \<in> set (ys @ tmp # zs). length x = sz" using less.prems(3) by (simp only: bs(1) [symmetric])
    have rd: "read_block sz (concat bs) i = Inr tmp" using read_block_concat [OF len] by (simp only: bs)
    obtain l r v where lr: "ys = l @ r" "length v = sz" "\<forall>y \<in> set r. \<not> compar y tmp \<le> 0" "l = [] \<or> compar (last l) tmp \<le> 0"
      "shift_loop compar sz tmp i (concat bs) = Inr (length l, concat (l @ v # r @ zs))"
      using shift_loop_splits [OF len, of compar tmp] unfolding bs(1) [symmetric] bs(2) by blast
    let ?bs = "l @ tmp # r @ zs"
    have "\<forall>x \<in> set (l @ v # r @ zs). length x = sz" using len lr(1,2) by auto
    then have wr: "write_block sz (concat (l @ v # r @ zs)) (length l) tmp = Inr (concat ?bs)" by (rule write_block_concat)
    have lb: "length ?bs = length bs" by (simp add: bs lr(1))
    have step: "sort_loop compar (length bs) sz i (concat bs) = sort_loop compar (length ?bs) sz (i + 1) (concat ?bs)"
      unfolding lb using True rd lr(5) wr by (simp add: sort_loop.simps [of compar "length bs" sz i])
    have "Sorting_Algorithms.sorted C (l @ r)" using less.prems(4) by (simp only: ys_def [symmetric] lr(1))
    note ins = insert_sorted [OF c this lr(3,4)]
    have "length (l @ tmp # r) = i + 1" using bs(2) lr(1) by simp
    then have tk: "take (i + 1) ?bs = l @ tmp # r" by (metis append.assoc append_Cons append_eq_conv_conj)
    have "\<exists>bs'. sort_loop compar (length ?bs) sz (i + 1) (concat ?bs) = Inr (concat bs') \<and> mset bs' = mset ?bs \<and>
        Sorting_Algorithms.sorted C bs' \<and> (\<forall>y. stable_segment C y bs' = stable_segment C y ?bs)"
    proof (rule less.hyps)
      show "length ?bs - (i + 1) < length bs - i" "i + 1 \<le> length ?bs" unfolding lb using True by auto
      show "\<forall>x \<in> set ?bs. length x = sz" using len lr(1) by auto
      show "Sorting_Algorithms.sorted C (take (i + 1) ?bs)" unfolding tk by (rule ins(1))
    qed simp
    moreover have "mset ?bs = mset bs" "stable_segment C y ?bs = stable_segment C y bs" for y
      using ins(2) [of y zs] by (simp_all add: bs lr(1))
    ultimately show ?thesis unfolding step by simp
  qed
qed

section \<open>The contract\<close>

lemma concat_const_Nil: "(\<forall>x \<in> set xs. x = []) \<Longrightarrow> concat xs = []"
  by (induction xs) auto

text \<open>
  C33. \<open>qsort\<close> is the stable sort of the library: whenever its comparison function is that of a total
  quasi-order, the array holds the elements it held, sorted, equal ones in the order they had, for every
  number and size of elements, none included; and nothing outside the array is touched.
\<close>

theorem qsort_is_stable_sort:
  assumes "length a = nmemb * sz" and "agrees compar C"
  shows "qsort True a nmemb sz compar = Inr (concat (Sorting_Algorithms.sort C (elements sz nmemb a)))"
proof -
  let ?es = "elements sz nmemb a"
  have a: "concat ?es = a" by (rule concat_elements [OF assms(1)])
  have len: "\<forall>x \<in> set ?es. length x = sz" using elements_length [OF assms(1)] by blast
  consider "nmemb < 2" | "sz = 0" | "2 \<le> nmemb" "sz \<noteq> 0" by linarith
  then show ?thesis
  proof cases
    case 1
    then have "Sorting_Algorithms.sort C ?es = ?es" using length_elements [of sz nmemb a] by (cases ?es; cases "tl ?es") auto
    then show ?thesis using 1 a by (simp add: qsort_def)
  next
    case 2
    then have "concat (Sorting_Algorithms.sort C ?es) = []" using len by (intro concat_const_Nil) simp
    then show ?thesis using 2 assms(1) by (simp add: qsort_def)
  next
    case 3
    have "Sorting_Algorithms.sorted C (take 1 ?es)" by (cases ?es) auto
    from sort_loop_sorts [OF assms(2) order_refl _ len this] 3(1) obtain bs where bs: "sort_loop compar nmemb sz 1 (concat ?es) = Inr (concat bs)" "mset bs = mset ?es"
      "Sorting_Algorithms.sorted C bs" "\<forall>y. stable_segment C y bs = stable_segment C y ?es"
      by auto
    have "Sorting_Algorithms.sort C ?es = bs"
      using bs(2,4) by (intro sort_eqI [OF _ bs(3)]) auto
    then show ?thesis using 3 bs(1) a by (simp add: qsort_def)
  qed
qed

text \<open>Three elements of two bytes, compared by the first: the two with a 3 keep their order.\<close>

theorem qsort_is_stable_sort_witness:
  "qsort True [3, 0, 1, 1, 3, 2] 3 2 (\<lambda>x y. uint (hd x) - uint (hd y)) = Inr [1, 1, 3, 0, 3, 2]"
proof -
  let ?C = "key (\<lambda>x :: u8 list. uint (hd x)) default"
  have "agrees (\<lambda>x y. uint (hd x) - uint (hd y)) ?C"
    by (auto simp: agrees_def compare_key_apply compare_default_eq_Greater_iff)
  moreover have "elements 2 3 [3, 0, 1, 1, 3, 2] = [[3, 0], [1, 1], [3, 2]]"
    by (simp add: elements_def upt_rec)
  ultimately show ?thesis
    using qsort_is_stable_sort [of "[3, 0, 1, 1, 3, 2]" 3 2 "\<lambda>x y. uint (hd x) - uint (hd y)" ?C]
    by (simp add: compare_key_apply compare_default_eq_Greater_iff)
qed

end
