(* ===== verification/Malloc.thy ===== *)
theory Malloc
  imports Prelude
begin

text \<open>
  The memory allocator of the C library (\<^verbatim>\<open>stages/3-micro-c/m2libc/stdlib.c\<close>): \<open>malloc\<close>, \<open>free\<close>,
  \<open>realloc\<close> and \<open>calloc\<close> over two lists of nodes, the blocks in use and the blocks given back.

  The system call \<open>brk\<close> is a parameter, a function of its argument and the state of the kernel. A
  linked list is the list of its nodes, a node the record of its fields and of its own address; the
  bytes of the blocks are the function \<open>memory\<close>. Addresses are integers: they are positive and far below
  \<open>2 ^ 63\<close>. \<open>exit\<close> with a message (\<open>_malloc_die\<close>) is the error \<open>Malloc_Die\<close>. The list checker
  \<open>_malloc_check_lists\<close> is off in the code and left out; what it would check is part of the invariant.
\<close>

section \<open>State\<close>

datatype malloc_error = Malloc_Die

definition IN_USE :: int where "IN_USE = 1"
definition NOT_IN_USE :: int where "NOT_IN_USE = 0"

text \<open>\<open>sizeof (struct _malloc_node)\<close>: three words and an \<open>int\<close>, padded.\<close>

definition node_bytes :: int where "node_bytes = 32"

record malloc_node =
  node_addr :: int
  block :: int
  node_size :: int
  used :: int

record heap =
  allocated_list :: "malloc_node list"
  free_list :: "malloc_node list"
  malloc_nodes_created :: int
  malloc_ptr :: int
  brk_ptr :: int
  memory :: "int \<Rightarrow> u8"

type_synonym 'k brk = "int \<Rightarrow> 'k \<Rightarrow> int \<times> 'k"

section \<open>Getting memory from the kernel\<close>

definition malloc_brk :: "'k brk \<Rightarrow> int \<Rightarrow> heap \<times> 'k \<Rightarrow> int \<times> heap \<times> 'k" where
  "malloc_brk brk sz s =
    (let (h, k) = s;
         (h, k) = (if brk_ptr h = 0
                   then (let (b, k) = brk 0 k in (h\<lparr>brk_ptr := b, malloc_ptr := b\<rparr>, k))
                   else (h, k))
     in if brk_ptr h < malloc_ptr h + sz
        then (let old_brk = brk_ptr h;
                  (b, k) = brk (malloc_ptr h + sz) k;
                  h = h\<lparr>brk_ptr := b\<rparr>
              in if b = - 1 then (0, h, k)
                 else if b = old_brk then (0, h, k)
                 else if b < malloc_ptr h + sz then (0, h, k)
                 else (malloc_ptr h, h\<lparr>malloc_ptr := malloc_ptr h + sz\<rparr>, k))
        else (malloc_ptr h, h\<lparr>malloc_ptr := malloc_ptr h + sz\<rparr>, k))"

section \<open>The two lists\<close>

text \<open>The loop that finds the place of a block in the free list, smallest first.\<close>

fun insert_free :: "malloc_node \<Rightarrow> malloc_node list \<Rightarrow> malloc_node list" where
  "insert_free n [] = [n]"
| "insert_free n (i # is) = (if node_size n \<le> node_size i then n # i # is else i # insert_free n is)"

definition malloc_insert_block :: "malloc_node \<Rightarrow> int \<Rightarrow> heap \<Rightarrow> malloc_error + heap" where
  "malloc_insert_block n u h =
    (if u = IN_USE then Inr (h\<lparr>allocated_list := n # allocated_list h\<rparr>)
     else if u \<noteq> NOT_IN_USE then Inl Malloc_Die
     else if used n \<noteq> NOT_IN_USE then Inl Malloc_Die
     else Inr (h\<lparr>free_list := insert_free n (free_list h)\<rparr>))"

text \<open>The walk that takes the first node with a property out of a list.\<close>

fun take_node :: "(malloc_node \<Rightarrow> bool) \<Rightarrow> malloc_node list \<Rightarrow> (malloc_node \<times> malloc_node list) option" where
  "take_node P [] = None"
| "take_node P (i # is) = (if P i then Some (i, is) else map_option (\<lambda>(n, is). (n, i # is)) (take_node P is))"

definition free :: "int \<Rightarrow> heap \<Rightarrow> malloc_error + heap" where
  "free ptr h =
    (if ptr = 0 then Inr h
     else case take_node (\<lambda>i. block i = ptr) (allocated_list h) of
       None \<Rightarrow> Inl Malloc_Die
     | Some (i, rest) \<Rightarrow> malloc_insert_block (i\<lparr>used := NOT_IN_USE\<rparr>) NOT_IN_USE (h\<lparr>allocated_list := rest\<rparr>))"

definition malloc_find_free :: "int \<Rightarrow> heap \<Rightarrow> malloc_error + int \<times> heap" where
  "malloc_find_free sz h =
    (case take_node (\<lambda>i. used i = NOT_IN_USE \<and> node_size i \<ge> sz) (free_list h) of
       None \<Rightarrow> Inr (0, h)
     | Some (i, rest) \<Rightarrow>
         bindE (malloc_insert_block (i\<lparr>used := IN_USE\<rparr>) IN_USE (h\<lparr>free_list := rest\<rparr>)) (\<lambda>h. Inr (block i, h)))"

definition malloc_add_new :: "'k brk \<Rightarrow> int \<Rightarrow> heap \<times> 'k \<Rightarrow> malloc_error + int \<times> heap \<times> 'k" where
  "malloc_add_new brk sz s =
    (let (n, s) = malloc_brk brk node_bytes s
     in if n = 0 then Inr (0, s)
        else let (b, h, k) = malloc_brk brk sz s
             in if b = 0 then Inr (0, h, k)
                else let h = h\<lparr>malloc_nodes_created := malloc_nodes_created h + 1\<rparr>;
                         node = \<lparr>node_addr = n, block = b, node_size = sz, used = IN_USE\<rparr>
                     in bindE (malloc_insert_block node IN_USE h) (\<lambda>h. Inr (b, h, k)))"

section \<open>The functions of the library\<close>

text \<open>The local \<open>used\<close> is 256 shifted \<open>k\<close> times; sizes above \<open>2 ^ 30\<close> are refused.\<close>

function used_loop :: "int \<Rightarrow> nat \<Rightarrow> int option" where
  "used_loop sz k =
    (if 256 * 2 ^ k < sz
     then if 256 * 2 ^ Suc k > (2 ^ 30 :: int) then None else used_loop sz (Suc k)
     else Some (256 * 2 ^ k))"
  by pat_completeness auto
termination
proof (relation "measure (\<lambda>(sz, k). 30 - k)")
  fix sz :: int and k
  assume "\<not> 256 * 2 ^ Suc k > (2 ^ 30 :: int)"
  then have "(2 :: int) ^ (8 + Suc k) \<le> 2 ^ 30" by (simp add: power_add)
  then have "8 + Suc k \<le> 30" by (rule power_le_imp_le_exp [rotated]) simp
  then show "((sz, Suc k), (sz, k)) \<in> measure (\<lambda>(sz, k). 30 - k)" by simp
qed simp

declare used_loop.simps [simp del]

definition malloc :: "'k brk \<Rightarrow> u32 \<Rightarrow> heap \<times> 'k \<Rightarrow> malloc_error + int \<times> heap \<times> 'k" where
  "malloc brk sz s =
    (if sz = 0 then Inr (0, s)
     else case used_loop (uint sz) 0 of
       None \<Rightarrow> Inr (0, s)
     | Some want \<Rightarrow>
         let (h, k) = s
         in bindE (malloc_find_free want h) (\<lambda>(ptr, h).
            if ptr = 0 then malloc_add_new brk want (h, k) else Inr (ptr, h, k)))"

text \<open>The size of the block a pointer belongs to: the first node in use that has it.\<close>

definition block_size :: "int \<Rightarrow> heap \<Rightarrow> int option" where
  "block_size ptr h = map_option node_size (find (\<lambda>i. block i = ptr) (allocated_list h))"

definition copy_bytes :: "int \<Rightarrow> int \<Rightarrow> int \<Rightarrow> (int \<Rightarrow> u8) \<Rightarrow> int \<Rightarrow> u8" where
  "copy_bytes dest src n m = fold (\<lambda>i m. m(dest + int i := m (src + int i))) [0..<nat n] m"

text \<open>The end of \<open>realloc\<close>: the bytes move to the new block and the old one is given back.\<close>

definition move_block :: "int \<Rightarrow> int \<Rightarrow> u32 \<Rightarrow> int \<Rightarrow> heap \<Rightarrow> malloc_error + heap" where
  "move_block new_alloc ptr sz old_alloc_size h =
    (let copy_size = (if uint sz < old_alloc_size then uint sz else old_alloc_size)
     in free ptr (h\<lparr>memory := copy_bytes new_alloc ptr copy_size (memory h)\<rparr>))"

definition realloc :: "'k brk \<Rightarrow> int \<Rightarrow> u32 \<Rightarrow> heap \<times> 'k \<Rightarrow> malloc_error + int \<times> heap \<times> 'k" where
  "realloc brk ptr sz s =
    (if sz = 0
     then (if ptr \<noteq> 0 then (let (h, k) = s in bindE (free ptr h) (\<lambda>h. Inr (0, h, k))) else Inr (0, s))
     else if ptr \<noteq> 0 \<and> (case block_size ptr (fst s) of None \<Rightarrow> False | Some have_size \<Rightarrow> have_size \<ge> uint sz)
     then Inr (ptr, s)
     else bindE (malloc brk sz s) (\<lambda>(new_alloc, h, k).
       if ptr = 0 \<or> new_alloc = 0 then Inr (new_alloc, h, k)
       else
         let old_alloc_size = (case block_size ptr h of None \<Rightarrow> 0 | Some n \<Rightarrow> n)
         in if old_alloc_size = 0 then Inl Malloc_Die
            else bindE (move_block new_alloc ptr sz old_alloc_size h) (\<lambda>h. Inr (new_alloc, h, k))))"

definition memset :: "int \<Rightarrow> u8 \<Rightarrow> int \<Rightarrow> (int \<Rightarrow> u8) \<Rightarrow> int \<Rightarrow> u8" where
  "memset ptr v num m = fold (\<lambda>i m. m(ptr + int i := v)) [0..<nat num] m"

definition calloc :: "'k brk \<Rightarrow> u32 \<Rightarrow> u32 \<Rightarrow> heap \<times> 'k \<Rightarrow> malloc_error + int \<times> heap \<times> 'k" where
  "calloc brk count sz s =
    bindE (malloc brk (count * sz) s) (\<lambda>(ret, h, k).
      if ret = 0 then Inr (0, h, k)
      else Inr (ret, h\<lparr>memory := memset ret 0 (sint (count * sz)) (memory h)\<rparr>, k))"

definition init_malloc :: "heap \<Rightarrow> heap" where
  "init_malloc h = h\<lparr>free_list := [], allocated_list := []\<rparr>"

end
