(* ===== verification/MallocProps.thy ===== *)
theory MallocProps
  imports Malloc "HOL-Library.Multiset"
begin

text \<open>
  The allocator against what its callers rely on: the blocks in use are a finite map from addresses to
  sizes, they never overlap, and their bytes are their own.
\<close>

section \<open>The invariant\<close>

text \<open>A node and its block are one span of memory: the address of its first byte, and its length.\<close>

definition apart :: "int \<times> int \<Rightarrow> int \<times> int \<Rightarrow> bool" where
  "apart s t \<longleftrightarrow> fst s + snd s \<le> fst t \<or> fst t + snd t \<le> fst s"

definition span :: "malloc_node \<Rightarrow> int \<times> int" where
  "span n = (node_addr n, node_bytes + node_size n)"

definition nodes :: "heap \<Rightarrow> malloc_node list" where
  "nodes h = allocated_list h @ free_list h"

definition node_ok :: "int \<Rightarrow> malloc_node \<Rightarrow> bool" where
  "node_ok stop n \<longleftrightarrow> 0 < node_addr n \<and> block n = node_addr n + node_bytes \<and> 0 < node_size n \<and> block n + node_size n \<le> stop"

definition heap_ok :: "heap \<Rightarrow> bool" where
  "heap_ok h \<longleftrightarrow>
     sorted_wrt (\<lambda>m n. apart (span m) (span n)) (nodes h) \<and>
     (\<forall>n \<in> set (nodes h). node_ok (malloc_ptr h) n) \<and>
     (\<forall>n \<in> set (allocated_list h). used n = IN_USE) \<and>
     (\<forall>n \<in> set (free_list h). used n = NOT_IN_USE) \<and>
     sorted (map node_size (free_list h)) \<and>
     malloc_nodes_created h = int (length (nodes h)) \<and>
     (brk_ptr h = 0 \<longrightarrow> nodes h = []) \<and> (brk_ptr h \<noteq> 0 \<longrightarrow> 0 < malloc_ptr h)"

text \<open>
  What Linux promises of \<open>brk\<close>: it returns an address, and never zero. Whether it grants the request is
  left open.
\<close>

definition kernel_ok :: "'k brk \<Rightarrow> bool" where
  "kernel_ok brk \<longleftrightarrow> (\<forall>p k. fst (brk p k) \<noteq> 0) \<and> (\<forall>k. 0 < fst (brk 0 k))"

lemma apart_sym: "apart s t \<longleftrightarrow> apart t s"
  by (auto simp: apart_def)

text \<open>The invariant does not depend on the order of the nodes.\<close>

lemma sorted_wrt_mset:
  assumes sym: "\<And>x y. P x y \<longleftrightarrow> P y x"
  shows "mset xs = mset ys \<Longrightarrow> sorted_wrt P xs \<longleftrightarrow> sorted_wrt P ys"
proof (induction xs arbitrary: ys)
  case (Cons x xs)
  then have "x \<in> set ys" by (metis list.set_intros(1) set_mset_mset)
  then obtain as bs where ys: "ys = as @ x # bs" by (auto dest: split_list)
  then have m: "mset xs = mset (as @ bs)" using Cons.prems by simp
  then have "set xs = set (as @ bs)" by (rule mset_eq_setD)
  then show ?case using Cons.IH [OF m] sym by (auto simp: ys sorted_wrt_append)
qed simp

section \<open>Getting memory\<close>

definition heap_same :: "heap \<Rightarrow> heap \<Rightarrow> bool" where
  "heap_same h h' \<longleftrightarrow> allocated_list h' = allocated_list h \<and> free_list h' = free_list h \<and>
     malloc_nodes_created h' = malloc_nodes_created h \<and> memory h' = memory h"

lemma malloc_brk_fresh:
  assumes k: "kernel_ok brk" and h: "brk_ptr h \<noteq> 0 \<longrightarrow> 0 < malloc_ptr h" and n: "0 < n"
    and b: "malloc_brk brk n (h, k) = (p, h', k')"
  shows "heap_same h h'" "brk_ptr h' \<noteq> 0" "0 < malloc_ptr h'" "brk_ptr h \<noteq> 0 \<Longrightarrow> malloc_ptr h \<le> malloc_ptr h'"
    "p = 0 \<or> 0 < p \<and> malloc_ptr h' = p + n \<and> (brk_ptr h \<noteq> 0 \<longrightarrow> p = malloc_ptr h)"
proof -
  have pos: "0 < b" if "brk 0 k = (b, k')" for b k k' using k that by (metis kernel_ok_def fst_conv)
  have nz: "b \<noteq> 0" if "brk p k = (b, k')" for b p k k' using k that by (metis kernel_ok_def fst_conv)
  have "heap_same h h' \<and> brk_ptr h' \<noteq> 0 \<and> 0 < malloc_ptr h' \<and> (brk_ptr h \<noteq> 0 \<longrightarrow> malloc_ptr h \<le> malloc_ptr h') \<and>
      (p = 0 \<or> 0 < p \<and> malloc_ptr h' = p + n \<and> (brk_ptr h \<noteq> 0 \<longrightarrow> p = malloc_ptr h))"
    using h n b by (auto simp: malloc_brk_def heap_same_def Let_def split: prod.splits if_splits dest: pos nz)
  then show "heap_same h h'" "brk_ptr h' \<noteq> 0" "0 < malloc_ptr h'" "brk_ptr h \<noteq> 0 \<Longrightarrow> malloc_ptr h \<le> malloc_ptr h'"
    "p = 0 \<or> 0 < p \<and> malloc_ptr h' = p + n \<and> (brk_ptr h \<noteq> 0 \<longrightarrow> p = malloc_ptr h)" by auto
qed

section \<open>Taking nodes out and putting them in\<close>

lemma take_node_Some:
  "take_node P xs = Some (n, r) \<Longrightarrow> \<exists>as bs. xs = as @ n # bs \<and> r = as @ bs \<and> P n \<and> (\<forall>x \<in> set as. \<not> P x)"
proof (induction xs arbitrary: r)
  case (Cons i xs)
  show ?case
  proof (cases "P i")
    case False
    then obtain r' where r: "take_node P xs = Some (n, r')" "r = i # r'" using Cons.prems by auto
    from Cons.IH [OF r(1)] obtain as bs where "xs = as @ n # bs" "r' = as @ bs" "P n" "\<forall>x \<in> set as. \<not> P x" by blast
    then show ?thesis using r(2) False by (intro exI [of _ "i # as"] exI [of _ bs]) simp
  qed (use Cons.prems in \<open>auto intro: exI [of _ "[]"]\<close>)
qed simp

lemma take_node_None: "take_node P xs = None \<longleftrightarrow> (\<forall>x \<in> set xs. \<not> P x)"
  by (induction xs) auto

lemma insert_free_mset [simp]: "mset (insert_free n xs) = add_mset n (mset xs)"
  by (induction xs) auto

lemma set_insert_free [simp]: "set (insert_free n xs) = insert n (set xs)"
  by (induction xs) force+

lemma length_insert_free [simp]: "length (insert_free n xs) = Suc (length xs)"
  by (induction xs) auto

lemma insert_free_sorted: "sorted (map node_size xs) \<Longrightarrow> sorted (map node_size (insert_free n xs))"
  by (induction xs) auto

lemma nodes_apart_mset:
  "mset (map span xs) = mset (map span ys) \<Longrightarrow>
   sorted_wrt (\<lambda>m n. apart (span m) (span n)) xs \<longleftrightarrow> sorted_wrt (\<lambda>m n. apart (span m) (span n)) ys"
  using sorted_wrt_mset [of apart, of "map span xs" "map span ys"] apart_sym by (simp add: sorted_wrt_map)

lemma span_update [simp]: "span (n\<lparr>used := u\<rparr>) = span n"
  by (simp add: span_def)

lemma node_ok_update [simp]: "node_ok stop (n\<lparr>used := u\<rparr>) = node_ok stop n"
  by (simp add: node_ok_def)

text \<open>A node moves from one list to the other.\<close>

lemma heap_ok_to_free:
  assumes h: "heap_ok h" and a: "allocated_list h = as @ n # bs"
  shows "heap_ok (h\<lparr>allocated_list := as @ bs, free_list := insert_free (n\<lparr>used := NOT_IN_USE\<rparr>) (free_list h)\<rparr>)" (is "heap_ok ?h")
proof -
  have m: "mset (map span (nodes ?h)) = mset (map span (nodes h))"
    by (simp add: nodes_def a image_mset.compositionality [symmetric] mset_map [symmetric] del: mset_map) (simp add: o_def)
  show ?thesis using h nodes_apart_mset [OF m] insert_free_sorted [of "free_list h"]
    by (auto simp: heap_ok_def nodes_def a)
qed

lemma heap_ok_from_free:
  assumes h: "heap_ok h" and f: "free_list h = as @ n # bs"
  shows "heap_ok (h\<lparr>free_list := as @ bs, allocated_list := n\<lparr>used := IN_USE\<rparr> # allocated_list h\<rparr>)" (is "heap_ok ?h")
proof -
  have m: "mset (map span (nodes ?h)) = mset (map span (nodes h))"
    by (simp add: nodes_def f)
  show ?thesis using h nodes_apart_mset [OF m]
    by (auto simp: heap_ok_def nodes_def f sorted_append)
qed

lemma heap_ok_new:
  assumes h: "heap_ok h" and n: "node_ok stop n" "used n = IN_USE" and fresh: "nodes h \<noteq> [] \<Longrightarrow> malloc_ptr h \<le> node_addr n"
    and stop: "nodes h \<noteq> [] \<Longrightarrow> malloc_ptr h \<le> stop" and b: "b \<noteq> 0"
  shows "heap_ok (h\<lparr>allocated_list := n # allocated_list h, malloc_nodes_created := malloc_nodes_created h + 1, malloc_ptr := stop, brk_ptr := b\<rparr>)"
proof -
  have "apart (span n) (span m)" if "m \<in> set (nodes h)" for m
  proof -
    have "nodes h \<noteq> []" using that by auto
    then have "malloc_ptr h \<le> node_addr n" by (rule fresh)
    moreover have "node_ok (malloc_ptr h) m" using h that by (simp add: heap_ok_def)
    ultimately show ?thesis by (simp add: apart_def span_def node_ok_def node_bytes_def)
  qed
  moreover have "node_ok stop m" if "m \<in> set (nodes h)" for m
  proof -
    have "nodes h \<noteq> []" using that by auto
    then have "malloc_ptr h \<le> stop" by (rule stop)
    moreover have "node_ok (malloc_ptr h) m" using h that by (simp add: heap_ok_def)
    ultimately show ?thesis by (simp add: node_ok_def)
  qed
  moreover have "0 < stop" using n(1) by (simp add: node_ok_def node_bytes_def)
  ultimately show ?thesis using h n b by (auto simp: heap_ok_def nodes_def)
qed

lemma heap_ok_same:
  assumes "heap_ok h" "heap_same h h'" "nodes h \<noteq> [] \<Longrightarrow> malloc_ptr h \<le> malloc_ptr h'" "brk_ptr h' \<noteq> 0" "0 < malloc_ptr h'"
  shows "heap_ok h'"
proof -
  have "node_ok (malloc_ptr h') m" if "m \<in> set (nodes h)" for m
  proof -
    have "nodes h \<noteq> []" using that by auto
    then have "malloc_ptr h \<le> malloc_ptr h'" by (rule assms(3))
    moreover have "node_ok (malloc_ptr h) m" using assms(1) that by (simp add: heap_ok_def)
    ultimately show ?thesis by (simp add: node_ok_def)
  qed
  moreover have "nodes h' = nodes h" using assms(2) by (simp add: heap_same_def nodes_def)
  ultimately show ?thesis using assms by (simp add: heap_ok_def heap_same_def)
qed

lemma heap_ok_memory [simp]: "heap_ok (h\<lparr>memory := m\<rparr>) = heap_ok h"
  by (simp add: heap_ok_def nodes_def)

section \<open>The blocks in use\<close>

definition live :: "heap \<Rightarrow> int \<rightharpoonup> int" where
  "live h = map_of (map (\<lambda>n. (block n, node_size n)) (allocated_list h))"

lemma find_map_of: "map_option node_size (find (\<lambda>i. block i = p) xs) = map_of (map (\<lambda>n. (block n, node_size n)) xs) p"
  by (induction xs) auto

lemma block_size_live: "block_size p h = live h p"
  by (simp add: block_size_def live_def find_map_of)

lemma heap_ok_node: "heap_ok h \<Longrightarrow> n \<in> set (nodes h) \<Longrightarrow> node_ok (malloc_ptr h) n"
  by (simp add: heap_ok_def)

lemma blocks_distinct: "heap_ok h \<Longrightarrow> distinct (map block (nodes h))"
proof -
  assume h: "heap_ok h"
  have "sorted_wrt (\<lambda>m n. apart (span m) (span n)) xs \<Longrightarrow> \<forall>n \<in> set xs. node_ok (malloc_ptr h) n \<Longrightarrow> distinct (map block xs)" for xs
  proof (induction xs)
    case (Cons a xs)
    then have "distinct (map block xs)" by simp
    moreover have "block a \<noteq> block x" if "x \<in> set xs" for x
      using Cons.prems that by (fastforce simp: apart_def span_def node_ok_def node_bytes_def)
    ultimately show ?case by auto
  qed simp
  then show ?thesis using h by (simp add: heap_ok_def)
qed

lemma live_iff:
  assumes "heap_ok h"
  shows "live h p = Some n \<longleftrightarrow> (\<exists>m \<in> set (allocated_list h). block m = p \<and> node_size m = n)"
proof -
  have "distinct (map block (allocated_list h))" using blocks_distinct [OF assms] by (simp add: nodes_def)
  then have "distinct (map fst (map (\<lambda>n. (block n, node_size n)) (allocated_list h)))" by (simp add: o_def)
  then show ?thesis unfolding live_def by (auto simp: map_of_eq_Some_iff)
qed

lemma live_None: "live h p = None \<longleftrightarrow> (\<forall>m \<in> set (allocated_list h). block m \<noteq> p)"
  by (force simp: live_def map_of_eq_None_iff)

lemma sorted_wrt_both: "sorted_wrt P xs \<Longrightarrow> x \<in> set xs \<Longrightarrow> y \<in> set xs \<Longrightarrow> x = y \<or> P x y \<or> P y x"
  by (induction xs) auto

lemma node_apart:
  assumes h: "heap_ok h" and m: "m \<in> set (nodes h)" and n: "n \<in> set (nodes h)" and ne: "block m \<noteq> block n"
  shows "apart (block m, node_size m) (block n, node_size n)"
proof -
  have "apart (span m) (span n)"
    using sorted_wrt_both [of "\<lambda>m n. apart (span m) (span n)" "nodes h" m n] h m n ne
    by (auto simp: heap_ok_def apart_sym)
  then show ?thesis using heap_ok_node [OF h m] heap_ok_node [OF h n]
    by (auto simp: apart_def span_def node_ok_def node_bytes_def)
qed

lemma live_apart:
  assumes h: "heap_ok h" and "live h p = Some m" "live h q = Some n" "p \<noteq> q"
  shows "apart (p, m) (q, n)"
  using assms(2-) node_apart [OF h] unfolding live_iff [OF h] nodes_def by auto

lemma live_pos: "heap_ok h \<Longrightarrow> live h p = Some n \<Longrightarrow> 0 < p \<and> 0 < n \<and> p + n \<le> malloc_ptr h"
  using heap_ok_node unfolding live_iff by (force simp: nodes_def node_ok_def node_bytes_def)

section \<open>free\<close>

lemma map_of_remove:
  "distinct (map block (as @ n # bs)) \<Longrightarrow>
   map_of (map (\<lambda>n. (block n, node_size n)) (as @ bs)) = (map_of (map (\<lambda>n. (block n, node_size n)) (as @ n # bs)))(block n := None)"
proof (induction as)
  case Nil
  then have "map_of (map (\<lambda>n. (block n, node_size n)) bs) (block n) = None" by (force simp: map_of_eq_None_iff)
  then show ?case by (auto simp: fun_eq_iff)
qed (auto simp: fun_upd_twist)

lemma free_live:
  assumes h: "heap_ok h" and p: "live h p = Some n"
  shows "\<exists>h'. free p h = Inr h' \<and> heap_ok h' \<and> live h' = (live h)(p := None) \<and> memory h' = memory h"
proof -
  have p0: "p \<noteq> 0" using live_pos [OF h p] by simp
  obtain i rest where t: "take_node (\<lambda>i. block i = p) (allocated_list h) = Some (i, rest)"
    using p take_node_None [of "\<lambda>i. block i = p" "allocated_list h"] live_None [of h p] by (cases "take_node (\<lambda>i. block i = p) (allocated_list h)") auto
  from take_node_Some [OF t] obtain as bs where a: "allocated_list h = as @ i # bs" "rest = as @ bs" "block i = p" by blast
  let ?h = "h\<lparr>allocated_list := as @ bs, free_list := insert_free (i\<lparr>used := NOT_IN_USE\<rparr>) (free_list h)\<rparr>"
  have "free p h = Inr ?h"
    using p0 t a by (simp add: free_def malloc_insert_block_def IN_USE_def NOT_IN_USE_def)
  moreover have d: "distinct (map block (as @ i # bs))" using blocks_distinct [OF h] by (auto simp: nodes_def a)
  have "allocated_list ?h = as @ bs" by simp
  then have "live ?h = (live h)(p := None)" by (simp only: live_def map_of_remove [OF d] a(1,3))
  ultimately show ?thesis using heap_ok_to_free [OF h a(1)] by simp
qed

lemma free_other: "p \<noteq> 0 \<Longrightarrow> live h p = None \<Longrightarrow> free p h = Inl Malloc_Die"
  using take_node_None [of "\<lambda>i. block i = p" "allocated_list h"] by (simp add: free_def live_None)

section \<open>malloc\<close>

definition rounded :: "int \<Rightarrow> int \<Rightarrow> bool" where
  "rounded sz n \<longleftrightarrow> (\<exists>k. n = 256 * 2 ^ k) \<and> sz \<le> n \<and> n \<le> 2 ^ 30 \<and> (n = 256 \<or> n < 2 * sz)"

lemma used_loop_Some:
  "used_loop sz k = Some n \<Longrightarrow> 256 * 2 ^ k \<le> (2 ^ 30 :: int) \<Longrightarrow> (k = 0 \<or> 256 * 2 ^ k < 2 * sz) \<Longrightarrow> rounded sz n"
proof (induction sz k rule: used_loop.induct)
  case (1 sz k)
  show ?case
  proof (cases "256 * 2 ^ k < sz")
    case True
    then have le: "\<not> 256 * 2 ^ Suc k > (2 ^ 30 :: int)" and u: "used_loop sz (Suc k) = Some n"
      using 1(2) by (auto simp: used_loop.simps [of sz k] split: if_splits)
    show ?thesis by (rule 1(1) [OF True le u]) (use le True in auto)
  next
    case False
    then have n: "n = 256 * 2 ^ k" using 1(2) by (simp add: used_loop.simps [of sz k])
    then show ?thesis using 1(3,4) False by (auto simp: rounded_def)
  qed
qed

lemma used_loop_None: "used_loop sz k = None \<Longrightarrow> 2 ^ 30 < sz"
proof (induction sz k rule: used_loop.induct)
  case (1 sz k)
  show ?case
  proof (cases "256 * 2 ^ k < sz")
    case True
    show ?thesis
    proof (cases "256 * 2 ^ Suc k > (2 ^ 30 :: int)")
      case t: True
      have "256 * 2 ^ Suc k = (2 :: int) ^ (9 + k)" "256 * 2 ^ k = (2 :: int) ^ (8 + k)" by (simp_all add: power_add)
      then have "(2 :: int) ^ 30 < 2 ^ (9 + k)" using t by simp
      then have "30 < 9 + k" by (rule power_less_imp_less_exp [rotated]) simp
      then have "(2 :: int) ^ 30 \<le> 2 ^ (8 + k)" by (intro power_increasing) auto
      then show ?thesis using True \<open>256 * 2 ^ k = (2 :: int) ^ (8 + k)\<close> by linarith
    next
      case False
      then show ?thesis using 1 True by (simp add: used_loop.simps [of sz k])
    qed
  qed (use 1(2) in \<open>simp add: used_loop.simps [of sz k]\<close>)
qed

text \<open>\<open>obtained h p n h'\<close>: the block \<open>p\<close> of \<open>n\<close> bytes has become live, apart from all that were.\<close>

definition obtained :: "heap \<Rightarrow> int \<Rightarrow> int \<Rightarrow> heap \<Rightarrow> bool" where
  "obtained h p n h' \<longleftrightarrow> 0 < p \<and> live h p = None \<and> live h' = (live h)(p \<mapsto> n) \<and>
     (\<forall>q m. live h q = Some m \<longrightarrow> apart (p, n) (q, m))"

lemma obtained_fresh:
  assumes "heap_ok h'" "live h' = (live h)(p \<mapsto> n)" "live h p = None"
  shows "obtained h p n h'"
  unfolding obtained_def
proof (intro conjI allI impI)
  show "0 < p" using live_pos [OF assms(1), of p n] assms(2) by simp
  fix q m assume q: "live h q = Some m"
  then have "q \<noteq> p" using assms(3) by auto
  then show "apart (p, n) (q, m)" using live_apart [OF assms(1), of p n q m] q assms(2) by simp
qed (use assms in simp_all)

lemma find_free_live:
  assumes h: "heap_ok h" and f: "malloc_find_free n h = r"
  shows "(r = Inr (0, h) \<and> (\<forall>i \<in> set (free_list h). node_size i < n)) \<or>
    (\<exists>p m h'. r = Inr (p, h') \<and> heap_ok h' \<and> memory h' = memory h \<and> n \<le> m \<and> obtained h p m h' \<and>
      (\<forall>i \<in> set (free_list h). n \<le> node_size i \<longrightarrow> m \<le> node_size i))"
proof (cases "take_node (\<lambda>i. used i = NOT_IN_USE \<and> node_size i \<ge> n) (free_list h)")
  case None
  then have "\<forall>i \<in> set (free_list h). node_size i < n" using take_node_None h by (fastforce simp: heap_ok_def)
  then show ?thesis using None f by (simp add: malloc_find_free_def)
next
  case (Some ir)
  obtain i rest where t: "ir = (i, rest)" by force
  obtain as bs where a: "free_list h = as @ i # bs" "rest = as @ bs" "node_size i \<ge> n"
    "\<forall>x \<in> set as. \<not> (used x = NOT_IN_USE \<and> node_size x \<ge> n)"
    using take_node_Some [OF Some [unfolded t]] by blast
  let ?h = "h\<lparr>free_list := as @ bs, allocated_list := i\<lparr>used := IN_USE\<rparr> # allocated_list h\<rparr>"
  have ok: "heap_ok ?h" by (rule heap_ok_from_free [OF h a(1)])
  have "live ?h = (live h)(block i \<mapsto> node_size i)" by (simp add: live_def)
  moreover have "block i \<notin> block ` set (allocated_list h)" using blocks_distinct [OF h] by (simp add: nodes_def a)
  then have "live h (block i) = None" by (metis live_None image_eqI)
  ultimately have "obtained h (block i) (node_size i) ?h" using ok by (intro obtained_fresh)
  moreover have "r = Inr (block i, ?h)"
    using f Some t a(2) by (simp add: malloc_find_free_def malloc_insert_block_def)
  moreover have "\<forall>x \<in> set (free_list h). n \<le> node_size x \<longrightarrow> node_size i \<le> node_size x"
    using h a(1,4) by (auto simp: heap_ok_def sorted_append)
  ultimately show ?thesis using ok a(3) by auto
qed

lemma add_new_live:
  assumes k: "kernel_ok brk" and h: "heap_ok h" and n: "0 < n" and r: "malloc_add_new brk n (h, k) = r"
  shows "\<exists>p h' k'. r = Inr (p, h', k') \<and> heap_ok h' \<and> memory h' = memory h \<and>
    (p = 0 \<and> live h' = live h \<or> obtained h p n h')"
proof -
  obtain a h1 k1 where b1: "malloc_brk brk node_bytes (h, k) = (a, h1, k1)" using prod_cases3 by blast
  have "0 < node_bytes" by (simp add: node_bytes_def)
  note f1 = malloc_brk_fresh [OF k _ this b1]
  have pre: "brk_ptr h \<noteq> 0 \<longrightarrow> 0 < malloc_ptr h" and ne: "nodes h \<noteq> [] \<Longrightarrow> brk_ptr h \<noteq> 0" using h by (auto simp: heap_ok_def)
  note f1 = f1 [OF pre]
  have same: "heap_same h h1" "nodes h1 = nodes h" using f1(1) by (simp_all add: heap_same_def nodes_def)
  have ok1: "heap_ok h1" by (rule heap_ok_same [OF h f1(1) _ f1(2,3)]) (use ne f1(4) in blast)
  have live1: "live h1 = live h" "memory h1 = memory h" using f1(1) by (simp_all add: heap_same_def live_def)
  show ?thesis
  proof (cases "a = 0")
    case True
    then show ?thesis using r b1 ok1 live1 by (auto simp: malloc_add_new_def)
  next
    case False
    obtain b h2 k2 where b2: "malloc_brk brk n (h1, k1) = (b, h2, k2)" using prod_cases3 by blast
    note f2 = malloc_brk_fresh [OF k _ n b2]
    have "brk_ptr h1 \<noteq> 0 \<longrightarrow> 0 < malloc_ptr h1" using f1(3) by simp
    note f2 = f2 [OF this]
    have le2: "malloc_ptr h1 \<le> malloc_ptr h2" using f2(4) f1(2) by simp
    have ok2: "heap_ok h2" by (rule heap_ok_same [OF ok1 f2(1) _ f2(2,3)]) (use le2 in simp)
    have live2: "live h2 = live h" "memory h2 = memory h" using f2(1) live1 by (simp_all add: heap_same_def live_def)
    show ?thesis
    proof (cases "b = 0")
      case True
      then show ?thesis using r b1 b2 False ok2 live2 by (auto simp: malloc_add_new_def)
    next
      case F: False
      let ?n = "\<lparr>node_addr = a, block = b, node_size = n, used = IN_USE\<rparr>"
      let ?h = "h2\<lparr>malloc_nodes_created := malloc_nodes_created h2 + 1, allocated_list := ?n # allocated_list h2\<rparr>"
      have a: "0 < a" "malloc_ptr h1 = a + node_bytes" "brk_ptr h \<noteq> 0 \<longrightarrow> a = malloc_ptr h"
        using f1(5) False by auto
      have b: "b = malloc_ptr h1" "malloc_ptr h2 = b + n" using f2(5) F f1(2) by auto
      have nodes2: "nodes h2 = nodes h" using f2(1) same by (simp add: heap_same_def nodes_def)
      have same2: "heap_same h h2" using f1(1) f2(1) by (simp add: heap_same_def)
      have ok: "heap_ok (h\<lparr>allocated_list := ?n # allocated_list h, malloc_nodes_created := malloc_nodes_created h + 1,
          malloc_ptr := malloc_ptr h2, brk_ptr := brk_ptr h2\<rparr>)" (is "heap_ok ?h'")
      proof (rule heap_ok_new [OF h _ _ _ _ f2(2)])
        show "node_ok (malloc_ptr h2) ?n" using a b n by (simp add: node_ok_def)
        show "malloc_ptr h \<le> node_addr ?n" "malloc_ptr h \<le> malloc_ptr h2" if "nodes h \<noteq> []"
          using a(2,3) b n ne [OF that] by (simp_all add: node_bytes_def)
      qed simp
      have "?h' = ?h" using same2 by (intro heap.equality) (simp_all add: heap_same_def)
      with ok have ok: "heap_ok ?h" by (simp only:)
      have "live ?h = (live h)(b \<mapsto> n)" using live2 by (simp add: live_def)
      moreover have "live h b = None"
      proof (cases "live h b")
        case (Some m)
        then have "b + m \<le> malloc_ptr h" "0 < m" using live_pos [OF h] by simp_all
        moreover have "nodes h \<noteq> []" using Some by (auto simp: live_def nodes_def)
        ultimately show ?thesis using a b ne by (simp add: node_bytes_def)
      qed
      ultimately have "obtained h b n ?h" using ok by (intro obtained_fresh)
      moreover have "r = Inr (b, ?h, k2)"
        using r b1 b2 False F by (simp add: malloc_add_new_def malloc_insert_block_def)
      ultimately show ?thesis using ok live2 by auto
    qed
  qed
qed

lemma malloc_live:
  assumes k: "kernel_ok brk" and h: "heap_ok h"
  shows "\<exists>p h' k'. malloc brk sz (h, k) = Inr (p, h', k') \<and> heap_ok h' \<and> memory h' = memory h \<and>
    (p = 0 \<and> live h' = live h \<or> (\<exists>n. uint sz \<le> n \<and> sz \<noteq> 0 \<and> obtained h p n h'))"
proof (cases "sz = 0 \<or> used_loop (uint sz) 0 = None")
  case True
  then show ?thesis using h by (auto simp: malloc_def)
next
  case False
  then obtain want where w: "used_loop (uint sz) 0 = Some want" and sz: "sz \<noteq> 0" by auto
  have r: "rounded (uint sz) want" using used_loop_Some [OF w] by simp
  then have w0: "0 < want" "uint sz \<le> want" by (auto simp: rounded_def)
  define f where "f = malloc_find_free want h"
  have m: "malloc brk sz (h, k) = bindE f (\<lambda>(ptr, h). if ptr = 0 then malloc_add_new brk want (h, k) else Inr (ptr, h, k))"
    using sz w by (simp add: malloc_def f_def)
  consider "f = Inr (0, h)" | p m h' where "f = Inr (p, h')" "heap_ok h'" "memory h' = memory h" "want \<le> m" "obtained h p m h'"
    using find_free_live [OF h f_def [symmetric]] by blast
  then show ?thesis
  proof cases
    case 1
    then show ?thesis using m add_new_live [OF k h w0(1) refl, of k] w0(2) sz by auto
  next
    case 2
    then have "p \<noteq> 0" by (auto simp: obtained_def)
    then show ?thesis using m 2 w0(2) sz by (intro exI [of _ p] exI [of _ h'] exI [of _ k]) (auto intro: order_trans)
  qed
qed

section \<open>Bytes\<close>

lemma fold_upd:
  "fold (\<lambda>i m. m(p + int i := f i m)) [0..<n] m a = m a" if "a < p \<or> p + int n \<le> a" for f :: "nat \<Rightarrow> (int \<Rightarrow> u8) \<Rightarrow> u8"
  using that by (induction n) auto

lemma memset_at: "memset p v n m a = (if p \<le> a \<and> a < p + n then v else m a)"
proof -
  have "fold (\<lambda>i m. m(p + int i := v)) [0..<k] m a = (if p \<le> a \<and> a < p + int k then v else m a)" for k
    by (induction k) auto
  then show ?thesis by (auto simp: memset_def)
qed

lemma copy_bytes_at:
  assumes "apart (d, n) (s, n)"
  shows "copy_bytes d s n m a = (if d \<le> a \<and> a < d + n then m (s + (a - d)) else m a)"
proof -
  define step where "step = (\<lambda>i (m :: int \<Rightarrow> u8). m(d + int i := m (s + int i)))"
  have st: "step i g a = (if a = d + int i then g (s + int i) else g a)" for i g a by (simp add: step_def)
  have "k \<le> nat n \<Longrightarrow> fold step [0..<k] m a = (if d \<le> a \<and> a < d + int k then m (s + (a - d)) else m a)" for k
  proof (induction k arbitrary: a)
    case (Suc k)
    then have "int k < n" by simp
    then have "\<not> (d \<le> s + int k \<and> s + int k < d + int k)" using assms by (auto simp: apart_def)
    then have "fold step [0..<k] m (s + int k) = m (s + int k)" using Suc.IH [of "s + int k"] Suc.prems by auto
    moreover have "fold step [0..<Suc k] m a = step k (fold step [0..<k] m) a" by simp
    ultimately have "fold step [0..<Suc k] m a = (if a = d + int k then m (s + int k) else fold step [0..<k] m a)"
      by (simp only: st)
    then show ?case using Suc.IH [of a] Suc.prems by auto
  qed auto
  from this [of "nat n"] show ?thesis by (cases "0 \<le> n") (auto simp: copy_bytes_def step_def [symmetric])
qed

section \<open>The contract\<close>

datatype request = Malloc u32 | Calloc u32 u32 | Free int | Realloc int u32

text \<open>The call of the library that a request is. \<open>free\<close> returns nothing.\<close>

fun perform :: "'k brk \<Rightarrow> request \<Rightarrow> heap \<times> 'k \<Rightarrow> malloc_error + int \<times> heap \<times> 'k" where
  "perform brk (Malloc sz) s = malloc brk sz s"
| "perform brk (Calloc c sz) s = calloc brk c sz s"
| "perform brk (Free p) (h, k) = bindE (free p h) (\<lambda>h. Inr (0, h, k))"
| "perform brk (Realloc p sz) s = realloc brk p sz s"

text \<open>What a caller may pass: null, or a block in use.\<close>

fun allowed :: "request \<Rightarrow> heap \<Rightarrow> bool" where
  "allowed (Free p) h = (p = 0 \<or> live h p \<noteq> None)"
| "allowed (Realloc p sz) h = (p = 0 \<or> live h p \<noteq> None)"
| "allowed r h = True"

definition unchanged :: "heap \<Rightarrow> heap \<Rightarrow> bool" where
  "unchanged h h' \<longleftrightarrow> live h' = live h \<and> memory h' = memory h"

text \<open>A new block of at least \<open>m\<close> bytes whose first \<open>m\<close> are zero, or null.\<close>

definition zeroed :: "heap \<Rightarrow> int \<Rightarrow> int \<Rightarrow> heap \<Rightarrow> bool" where
  "zeroed h p m h' \<longleftrightarrow>
    p = 0 \<and> unchanged h h' \<or>
    (\<exists>n \<ge> m. obtained h p n h' \<and> (\<forall>a. memory h' a = (if p \<le> a \<and> a < p + m then 0 else memory h a)))"

text \<open>
  What each call promises of its result and of the blocks in use. \<open>calloc\<close> promises what C
  says, a block for the product of its arguments, when the product fits 32 bits; when it does not,
  the code takes it modulo \<open>2 ^ 32\<close> and promises no more than a block for that.
\<close>

fun meets :: "request \<Rightarrow> heap \<Rightarrow> int \<Rightarrow> heap \<Rightarrow> bool" where
  "meets (Malloc sz) h p h' =
    (p = 0 \<and> unchanged h h' \<or> (\<exists>n \<ge> uint sz. obtained h p n h' \<and> memory h' = memory h))"
| "meets (Calloc c sz) h p h' =
    (if uint c * uint sz < 2 ^ 32 then zeroed h p (uint c * uint sz) h'
     else zeroed h p (uint c * uint sz mod 2 ^ 32) h')"
| "meets (Free q) h p h' = (live h' = (live h)(q := None) \<and> memory h' = memory h)"
| "meets (Realloc q sz) h p h' =
    (if sz = 0 then p = 0 \<and> live h' = (live h)(q := None) \<and> memory h' = memory h
     else p = 0 \<and> unchanged h h' \<or>
       p = q \<and> unchanged h h' \<and> (\<exists>n \<ge> uint sz. live h q = Some n) \<or>
       (\<exists>n \<ge> uint sz. 0 < p \<and> live h p = None \<and> live h' = (live h)(q := None, p \<mapsto> n) \<and>
          (\<forall>r m. live h r = Some m \<longrightarrow> apart (p, n) (r, m)) \<and>
          (\<forall>m i. live h q = Some m \<and> 0 \<le> i \<and> i < m \<and> i < uint sz \<longrightarrow> memory h' (p + i) = memory h (q + i)) \<and>
          (\<forall>r m i. live h r = Some m \<and> 0 \<le> i \<and> i < m \<longrightarrow> memory h' (r + i) = memory h (r + i))))"

lemma calloc_zeroed:
  assumes "kernel_ok brk" "heap_ok h"
  shows "\<exists>p h' k'. calloc brk c sz (h, k) = Inr (p, h', k') \<and> heap_ok h' \<and> zeroed h p (uint (c * sz)) h'"
proof -
  obtain p h' k' where m: "malloc brk (c * sz) (h, k) = Inr (p, h', k')" "heap_ok h'" "memory h' = memory h"
    "p = 0 \<and> live h' = live h \<or> (\<exists>n. uint (c * sz) \<le> n \<and> c * sz \<noteq> 0 \<and> obtained h p n h')"
    using malloc_live [OF assms] by blast
  show ?thesis
  proof (cases "p = 0")
    case True
    then show ?thesis using m by (auto simp: calloc_def unchanged_def obtained_def zeroed_def)
  next
    case False
    then obtain n where n: "uint (c * sz) \<le> n" "c * sz \<noteq> 0" "obtained h p n h'" using m(4) by blast
    have "uint (c * sz) \<le> 2 ^ 30"
    proof (rule ccontr)
      assume "\<not> uint (c * sz) \<le> 2 ^ 30"
      moreover have "used_loop (uint (c * sz)) 0 = Some v \<Longrightarrow> uint (c * sz) \<le> 2 ^ 30" for v
        using used_loop_Some [of "uint (c * sz)" 0 v] by (auto simp: rounded_def)
      ultimately have "used_loop (uint (c * sz)) 0 = None" by (cases "used_loop (uint (c * sz)) 0") auto
      then show False using m(1) False n(2) by (simp add: malloc_def)
    qed
    then have "uint (c * sz) < 2 ^ 31" by simp
    moreover have z: "0 \<le> uint (c * sz)" by simp
    have "- (2 ^ 31) \<le> uint (c * sz)" by (rule order_trans [OF _ z]) simp
    ultimately have s: "sint (c * sz) = uint (c * sz)"
      using signed_take_bit_int_eq_self [of 31 "uint (c * sz)"] by (simp add: sint_uint)
    let ?h = "h'\<lparr>memory := memset p 0 (sint (c * sz)) (memory h')\<rparr>"
    have "calloc brk c sz (h, k) = Inr (p, ?h, k')" using m(1) False by (simp add: calloc_def)
    moreover have "obtained h p n ?h" using n(3) by (simp add: obtained_def live_def)
    ultimately show ?thesis using m(2,3) n(1) s by (auto simp: memset_at zeroed_def)
  qed
qed

lemma uint_product: "uint (c * sz :: u32) = uint c * uint sz mod 2 ^ 32"
  by (simp add: uint_word_ariths)

lemma calloc_meets:
  assumes "kernel_ok brk" "heap_ok h"
  shows "\<exists>p h' k'. calloc brk c sz (h, k) = Inr (p, h', k') \<and> heap_ok h' \<and> meets (Calloc c sz) h p h'"
proof -
  have "uint c * uint sz mod 2 ^ 32 = uint c * uint sz" if "uint c * uint sz < 2 ^ 32"
    by (rule mod_pos_pos_trivial) (use that in simp_all)
  then have "meets (Calloc c sz) h p h' \<longleftrightarrow> zeroed h p (uint (c * sz)) h'" for p h'
    by (simp add: uint_product)
  then show ?thesis using calloc_zeroed [OF assms, of c sz k] by simp
qed

lemma live_0: "heap_ok h \<Longrightarrow> live h 0 = None"
  using live_pos [of h 0] by (cases "live h 0") auto

lemma free_meets:
  assumes h: "heap_ok h" and p: "p = 0 \<or> live h p \<noteq> None"
  shows "\<exists>h'. free p h = Inr h' \<and> heap_ok h' \<and> live h' = (live h)(p := None) \<and> memory h' = memory h"
proof (cases "p = 0")
  case True
  then show ?thesis using h live_0 [OF h] by (simp add: free_def fun_upd_idem)
qed (use p free_live [OF h] in auto)

lemma live_memory [simp]: "live (h\<lparr>memory := m\<rparr>) = live h"
  by (simp add: live_def)

lemma realloc_meets:
  assumes k: "kernel_ok brk" and h: "heap_ok h" and q: "q = 0 \<or> live h q \<noteq> None"
  shows "\<exists>p h' k'. realloc brk q sz (h, k) = Inr (p, h', k') \<and> heap_ok h' \<and> meets (Realloc q sz) h p h'"
proof -
  consider (none) "sz = 0" | (stay) n where "sz \<noteq> 0" "q \<noteq> 0" "live h q = Some n" "uint sz \<le> n"
    | (move) "sz \<noteq> 0" "\<not> (q \<noteq> 0 \<and> (case live h q of None \<Rightarrow> False | Some n \<Rightarrow> n \<ge> uint sz))"
    by (cases "live h q") auto
  then show ?thesis
  proof cases
    case none
    then show ?thesis using free_meets [OF h q] live_0 [OF h] h
      by (cases "q = 0") (auto simp: realloc_def fun_upd_idem)
  next
    case stay
    then show ?thesis using h by (simp add: realloc_def block_size_live unchanged_def)
  next
    case move
    obtain p h1 k1 where m: "malloc brk sz (h, k) = Inr (p, h1, k1)" "heap_ok h1" "memory h1 = memory h"
      "p = 0 \<and> live h1 = live h \<or> (\<exists>n. uint sz \<le> n \<and> sz \<noteq> 0 \<and> obtained h p n h1)"
      using malloc_live [OF k h] by blast
    have r: "realloc brk q sz (h, k) =
      (if q = 0 \<or> p = 0 then Inr (p, h1, k1)
       else let old = (case live h1 q of None \<Rightarrow> 0 | Some n \<Rightarrow> n)
            in if old = 0 then Inl Malloc_Die
               else bindE (free q (h1\<lparr>memory := copy_bytes p q (if uint sz < old then uint sz else old) (memory h1)\<rparr>)) (\<lambda>h. Inr (p, h, k1)))"
      unfolding realloc_def move_block_def fst_conv block_size_live if_not_P [OF move(1)] if_not_P [OF move(2)] m(1) bindE.simps prod.case Let_def
      by auto
    show ?thesis
    proof (cases "p = 0")
      case True
      then show ?thesis using r m move(1) by (auto simp: unchanged_def obtained_def)
    next
      case False
      then obtain n where n: "uint sz \<le> n" "obtained h p n h1" using m(4) by blast
      then have ob: "0 < p" "live h p = None" "live h1 = (live h)(p \<mapsto> n)" "\<forall>r m. live h r = Some m \<longrightarrow> apart (p, n) (r, m)"
        by (simp_all add: obtained_def)
      show ?thesis
      proof (cases "q = 0")
        case True
        then have "meets (Realloc q sz) h p h1"
          using move(1) n(1) ob m(3) live_0 [OF h] by (auto simp: fun_upd_idem intro!: exI [of _ n])
        then show ?thesis using r m(2) True by auto
      next
        case F: False
        then obtain old where old: "live h q = Some old" using q by auto
        then have qp: "q \<noteq> p" using ob(2) by auto
        have o: "live h1 q = Some old" "0 < old" using old qp ob(3) live_pos [OF h old] by simp_all
        define c where "c = (if uint sz < old then uint sz else old)"
        let ?h = "h1\<lparr>memory := copy_bytes p q c (memory h1)\<rparr>"
        have "heap_ok ?h" using m(2) by simp
        then obtain h' where f: "free q ?h = Inr h'" "heap_ok h'" "live h' = (live h1)(q := None)" "memory h' = copy_bytes p q c (memory h)"
          using free_live [of ?h q old] o(1) m(3) by auto
        have c: "c \<le> n" "c \<le> old" "\<And>i. i < old \<Longrightarrow> i < uint sz \<Longrightarrow> i < c" using n(1) by (auto simp: c_def)
        have "apart (p, n) (q, old)" using ob(4) old by blast
        then have "apart (p, c) (q, c)" using c by (auto simp: apart_def)
        then have mem: "memory h' a = (if p \<le> a \<and> a < p + c then memory h (q + (a - p)) else memory h a)" for a
          using f(4) by (simp add: copy_bytes_at)
        have "memory h' (r + i) = memory h (r + i)" if "live h r = Some m" "0 \<le> i" "i < m" for r m i
          using ob(4) that c(1) by (force simp: mem apart_def)
        moreover have "memory h' (p + i) = memory h (q + i)" if "0 \<le> i" "i < old" "i < uint sz" for i
          using that c(3) [OF that(2,3)] by (simp add: mem)
        moreover have "live h' = (live h)(q := None, p \<mapsto> n)" using f(3) ob(3) qp by (simp add: fun_upd_twist)
        ultimately have "meets (Realloc q sz) h p h'"
          using move(1) n(1) ob old by (auto intro!: exI [of _ n])
        moreover have "realloc brk q sz (h, k) = Inr (p, h', k1)"
          using r False F o f(1) by (simp add: c_def Let_def)
        ultimately show ?thesis using f(2) by blast
      qed
    qed
  qed
qed

section \<open>Every run of a program\<close>

definition empty_heap :: "(int \<Rightarrow> u8) \<Rightarrow> heap" where
  "empty_heap m = \<lparr>allocated_list = [], free_list = [], malloc_nodes_created = 0, malloc_ptr = 0, brk_ptr = 0, memory = m\<rparr>"

lemma heap_ok_empty: "heap_ok (empty_heap m)"
  by (simp add: empty_heap_def heap_ok_def nodes_def)

lemma perform_meets:
  assumes "kernel_ok brk" "heap_ok h" "allowed r h"
  shows "\<exists>p h' k'. perform brk r (h, k) = Inr (p, h', k') \<and> heap_ok h' \<and> meets r h p h'"
proof (cases r)
  case (Malloc sz)
  then show ?thesis using malloc_live [OF assms(1,2), of sz k] by (fastforce simp: unchanged_def)
next
  case (Calloc c sz)
  then show ?thesis using calloc_meets [OF assms(1,2)] by simp
next
  case (Free p)
  then show ?thesis using free_meets [OF assms(2), of p] assms(3) by auto
next
  case (Realloc p sz)
  then have "p = 0 \<or> live h p \<noteq> None" using assms(3) by simp
  then show ?thesis using realloc_meets [OF assms(1,2)] Realloc by simp
qed

text \<open>
  A program starts with the empty heap, calls the library with pointers it may pass, and writes into its
  blocks.
\<close>

inductive reaches :: "'k brk \<Rightarrow> 'k \<Rightarrow> heap \<Rightarrow> 'k \<Rightarrow> bool" for brk :: "'k brk" and k0 :: 'k where
  start: "reaches brk k0 (empty_heap m) k0"
| call: "reaches brk k0 h k \<Longrightarrow> allowed r h \<Longrightarrow> perform brk r (h, k) = Inr (p, h', k') \<Longrightarrow> reaches brk k0 h' k'"
| store: "reaches brk k0 h k \<Longrightarrow> live h p = Some n \<Longrightarrow> 0 \<le> i \<Longrightarrow> i < n \<Longrightarrow>
    reaches brk k0 (h\<lparr>memory := (memory h)(p + i := v)\<rparr>) k"

lemma reaches_heap_ok:
  assumes "kernel_ok brk" and "reaches brk k0 h k" shows "heap_ok h"
  using assms(2)
proof (induction rule: reaches.induct)
  case (call h k r p h' k')
  then show ?case using perform_meets [OF assms(1) call.IH, of r k] by auto
qed (simp_all add: heap_ok_empty)

text \<open>
  C34. However a program calls \<open>malloc\<close>, \<open>calloc\<close>, \<open>realloc\<close> and \<open>free\<close>: blocks in use never overlap, none of
  them overlaps the node of any block in use or free, so what a program writes into its blocks cannot
  break the lists; no node is lost (the count that \<open>_malloc_check_lists\<close> compares), and the free list is
  sorted by size.
\<close>

theorem heap_invariant:
  assumes "kernel_ok brk" and "reaches brk k0 h k"
  shows "(\<forall>p q m n. live h p = Some m \<and> live h q = Some n \<and> p \<noteq> q \<longrightarrow> apart (p, m) (q, n)) \<and>
    (\<forall>p m. live h p = Some m \<longrightarrow> 0 < p \<and> 0 < m \<and> (\<forall>n \<in> set (nodes h). apart (p, m) (node_addr n, node_bytes))) \<and>
    malloc_nodes_created h = int (length (allocated_list h) + length (free_list h)) \<and>
    sorted (map node_size (free_list h))"
proof -
  have h: "heap_ok h" by (rule reaches_heap_ok [OF assms])
  have "apart (p, m) (node_addr n, node_bytes)" if p: "live h p = Some m" and n: "n \<in> set (nodes h)" for p m n
  proof -
    obtain i where i: "i \<in> set (nodes h)" "block i = p" "node_size i = m" using p live_iff [OF h] by (auto simp: nodes_def)
    note ok = heap_ok_node [OF h i(1)] heap_ok_node [OF h n]
    have "i = n \<or> apart (span i) (span n)"
      using sorted_wrt_both [of "\<lambda>m n. apart (span m) (span n)" "nodes h" i n] h i(1) n by (auto simp: heap_ok_def apart_sym)
    then show ?thesis using ok i by (auto simp: apart_def span_def node_ok_def node_bytes_def)
  qed
  then show ?thesis using h live_apart [OF h] live_pos [OF h] by (auto simp: heap_ok_def nodes_def)
qed

text \<open>
  C35. The allocator implements the abstract heap, a finite map from the blocks in use to their sizes: a
  call with a pointer it may be given returns, and is what \<open>meets\<close> says. \<open>malloc\<close> and \<open>calloc\<close> return null and
  change nothing, or a new block, apart from all others, of at least the size asked for, zeroed by
  \<open>calloc\<close> (for \<open>calloc\<close> the size is the product of its arguments when that fits 32 bits, and the
  product modulo \<open>2 ^ 32\<close> when it does not); \<open>free\<close> takes its block out and touches no byte; \<open>realloc\<close> keeps the block or moves it with its
  bytes, and never changes another.
\<close>

theorem heap_refines:
  assumes "kernel_ok brk" and "reaches brk k0 h k" and "allowed r h"
  shows "\<exists>p h' k'. perform brk r (h, k) = Inr (p, h', k') \<and> reaches brk k0 h' k' \<and> meets r h p h'"
  using perform_meets [OF assms(1) reaches_heap_ok [OF assms(1,2)] assms(3), of k] reaches.call [OF assms(2,3)]
  by blast

text \<open>A kernel that grants everything; one block, its reallocation.\<close>

lemma kernel_ok_example: "kernel_ok (\<lambda>p k :: int. if p \<le> 0 then (4096, k) else (p, p))"
  by (simp add: kernel_ok_def)

theorem heap_invariant_witness:
  "apart (4128, 256) (4416, 512) \<and>
   (\<exists>h k. reaches (\<lambda>p k :: int. if p \<le> 0 then (4096, k) else (p, p)) 0 h k \<and> live h 4128 = Some 256 \<and> live h 4416 = Some 512)"
proof -
  let ?brk = "\<lambda>p k :: int. if p \<le> 0 then (4096, k) else (p, p)"
  have s: "reaches ?brk 0 (empty_heap (\<lambda>_. 0)) 0" by (rule reaches.start)
  obtain h1 k1 where m1: "perform ?brk (Malloc 100) (empty_heap (\<lambda>_. 0), 0) = Inr (4128, h1, k1)"
      "live h1 4128 = Some 256" "free_list h1 = []" "malloc_ptr h1 = 4384" "brk_ptr h1 = 4384"
    by (simp add: malloc_def used_loop.simps [of 100 0] malloc_find_free_def empty_heap_def malloc_add_new_def
        malloc_brk_def node_bytes_def Let_def malloc_insert_block_def live_def)
  have r1: "reaches ?brk 0 h1 k1" by (rule reaches.call [OF s _ m1(1)]) simp
  obtain h2 k2 where m2: "perform ?brk (Malloc 300) (h1, k1) = Inr (4416, h2, k2)" "live h2 = (live h1)(4416 \<mapsto> 512)"
    using m1(3-5) by (simp add: malloc_def used_loop.simps [of 300 0] used_loop.simps [of 300 "Suc 0"] malloc_find_free_def malloc_add_new_def
        malloc_brk_def node_bytes_def Let_def malloc_insert_block_def live_def)
  have r2: "reaches ?brk 0 h2 k2" by (rule reaches.call [OF r1 _ m2(1)]) simp
  have l: "live h2 4128 = Some 256" "live h2 4416 = Some 512" using m1(2) m2(2) by simp_all
  with heap_invariant [OF kernel_ok_example r2] have "apart (4128, 256) (4416, 512)" by fastforce
  with r2 l show ?thesis by blast
qed

theorem heap_refines_witness:
  "\<exists>p h' k'. perform (\<lambda>p k :: int. if p \<le> 0 then (4096, k) else (p, p)) (Malloc 100) (empty_heap (\<lambda>_. 0), 0) = Inr (p, h', k') \<and>
     meets (Malloc 100) (empty_heap (\<lambda>_. 0)) p h'"
  using heap_refines [OF kernel_ok_example reaches.start [of "\<lambda>p k :: int. if p \<le> 0 then (4096, k) else (p, p)" 0 "\<lambda>_. 0"], of "Malloc 100"]
  by auto

end
