(* ===== verification/Bootstrappable.thy ===== *)
theory Bootstrappable
  imports Prelude
begin

text \<open>
  The helpers of \<^verbatim>\<open>stages/3-micro-c/micro-c/bootstrappable.c\<close> that the compiler, the macro
  assembler and the linker share: string comparison, sets of characters (\<open>in_set\<close> stands in the
  prelude), and the conversions between 32-bit integers and their spellings.
\<close>

section \<open>Comparison\<close>

text \<open>\<open>match\<close> for two strings that are not \<open>NULL\<close>, character by character.\<close>

fun match_loop :: "string \<Rightarrow> string \<Rightarrow> bool" where
  "match_loop a b =
    (if chr_at a 0 \<noteq> chr_at b 0 then False
     else case (a, b) of
       (_ # a', _ # b') \<Rightarrow> match_loop a' b'
     | _ \<Rightarrow> True)"

fun match :: "string option \<Rightarrow> string option \<Rightarrow> bool" where
  "match None None = True"
| "match None (Some b) = False"
| "match (Some a) None = False"
| "match (Some a) (Some b) = match_loop a b"

declare match_loop.simps [simp del]

text \<open>A C string holds no NUL.\<close>

definition c_str :: "string \<Rightarrow> bool" where
  "c_str s \<longleftrightarrow> NUL \<notin> set s"

lemma c_str_simps [simp]: "c_str []" "c_str (c # s) \<longleftrightarrow> c \<noteq> NUL \<and> c_str s" "c_str (s @ t) \<longleftrightarrow> c_str s \<and> c_str t"
  by (auto simp: c_str_def)

lemma match_loop_iff: "c_str a \<Longrightarrow> c_str b \<Longrightarrow> match_loop a b \<longleftrightarrow> a = b"
proof (induction a b rule: match_loop.induct)
  case (1 a b)
  show ?case using 1 by (subst match_loop.simps) (cases a; cases b; auto)
qed

section \<open>Reading integers\<close>

text \<open>
  \<open>__index_number\<close>: the index of a character in a table, -1 when it is not there. The tables are
  not empty, so the read of index 1 is in bounds.
\<close>

fun index_number :: "string \<Rightarrow> char \<Rightarrow> nat option" where
  "index_number [] c = None"
| "index_number (x # s) c =
    (if x = c then Some 0
     else if s = [] then None
     else map_option Suc (index_number s c))"

definition c_toupper :: "char \<Rightarrow> char" where
  "c_toupper c = (if in_set c ''abcdefghijklmnopqrstuvwxyz'' then char_of (of_char c AND 0xDF :: nat) else c)"

text \<open>The loop of \<open>__set_reader\<close>: the accumulated number, or \<open>None\<close> where the function returns 0.\<close>

fun set_reader_loop :: "string \<Rightarrow> u32 \<Rightarrow> string \<Rightarrow> u32 \<Rightarrow> u32 option" where
  "set_reader_loop tab mult [] n = Some n"
| "set_reader_loop tab mult (c # input) n =
    (if in_set c tab
     then if c = CHR ''_'' then set_reader_loop tab mult input n
          else (case index_number tab (c_toupper c) of
                  None \<Rightarrow> None
                | Some h \<Rightarrow> set_reader_loop tab mult input (n * mult + of_nat h))
     else None)"

definition set_reader :: "string \<Rightarrow> u32 \<Rightarrow> string \<Rightarrow> u32" where
  "set_reader tab mult input =
    (let negative_p = (chr_at input 0 = CHR ''-'');
         input = (if negative_p then tl input else input)
     in case set_reader_loop tab mult input 0 of
          None \<Rightarrow> 0
        | Some n \<Rightarrow> if negative_p then 0 - n else n)"

definition strtoint :: "string \<Rightarrow> u32" where
  "strtoint a =
    (let result =
       (if a = [] then 0
        else if chr_at a 0 = CHR ''0'' \<and> chr_at a 1 = CHR ''b'' then set_reader ''01_'' 2 (drop 2 a)
        else if chr_at a 0 = CHR ''0'' \<and> chr_at a 1 = CHR ''x''
             then set_reader ''0123456789ABCDEFabcdef_'' 16 (drop 2 a)
        else if chr_at a 0 = CHR ''0'' then set_reader ''01234567_'' 8 (drop 1 a)
        else set_reader ''0123456789_'' 10 a)
     in if 0x80000000 AND result \<noteq> 0 then push_bit 31 0xFFFFFFFF OR result else result)"

section \<open>Printing integers\<close>

abbreviation digit_table :: string where
  "digit_table \<equiv> ''0123456789ABCDEFGHIJKLMNOPQRSTUVWXYZ''"

text \<open>The loop of \<open>int2str\<close> fills its buffer from the end: \<open>acc\<close> is what is already there.\<close>

function int2str_loop :: "u32 \<Rightarrow> u32 \<Rightarrow> string \<Rightarrow> string" where
  "int2str_loop base i acc =
    (let acc = chr_at digit_table (unat (i mod base)) # acc; i' = i div base
     in if 1 < base \<and> 0 < i' then int2str_loop base i' acc else acc)"
  by pat_completeness auto
termination
proof (relation "measure (\<lambda>(base, i, acc). unat i)")
  fix base i :: u32 and x xa acc :: "_"
  assume "xa = i div base" "1 < base \<and> 0 < xa"
  then have "1 < unat base" "0 < unat i div unat base"
    by (auto simp: word_less_nat_alt unat_div)
  then have "unat i div unat base < unat i" by (intro div_less_dividend) (auto intro: gr0I)
  then show "((base, xa, x), base, i, acc) \<in> measure (\<lambda>(base, i, acc). unat i)"
    using \<open>xa = i div base\<close> by (simp add: unat_div)
qed simp

declare int2str_loop.simps [simp del]

datatype int2str_error = Base_Too_Small | Base_Too_Large

definition int2str :: "u32 \<Rightarrow> u32 \<Rightarrow> bool \<Rightarrow> int2str_error + string" where
  "int2str x base signed_p =
    bindE (requireE (1 < sint base) Base_Too_Small) (\<lambda>_.
    bindE (requireE (sint base < 37) Base_Too_Large) (\<lambda>_.
      if signed_p \<and> base = 10 \<and> x AND 0x80000000 \<noteq> 0
      then (let i = - x AND 0x7FFFFFFF
            in if i = 0 then Inr ''-2147483648''
               else Inr (CHR ''-'' # int2str_loop base i []))
      else Inr (int2str_loop base (x AND (0x7FFFFFFF + 0x80000000)) [])))"

section \<open>Printing and reading are inverse\<close>

text \<open>A reader table that knows the digits the printer writes in a base.\<close>

definition reads_base :: "string \<Rightarrow> nat \<Rightarrow> bool" where
  "reads_base tab b \<longleftrightarrow> (\<forall>d \<in> set [0..<b].
     in_set (chr_at digit_table d) tab \<and> chr_at digit_table d \<noteq> CHR ''_'' \<and>
     index_number tab (c_toupper (chr_at digit_table d)) = Some d)"

lemma reads_base_decimal: "reads_base ''0123456789_'' 10" by code_simp

lemma reads_base_hex: "reads_base ''0123456789ABCDEFabcdef_'' 16" by code_simp

lemma digit_table_not: "d < 36 \<Longrightarrow> chr_at digit_table d \<noteq> CHR ''-'' \<and> (chr_at digit_table d = CHR ''0'' \<longleftrightarrow> d = 0)"
proof -
  have "\<forall>d \<in> set [0..<36]. chr_at digit_table d \<noteq> CHR ''-'' \<and> (chr_at digit_table d = CHR ''0'' \<longleftrightarrow> d = 0)"
    by code_simp
  then show "d < 36 \<Longrightarrow> ?thesis" by simp
qed

lemma set_reader_digit:
  assumes "reads_base tab b" and "d < b"
  shows "set_reader_loop tab m (chr_at digit_table d # acc) n = set_reader_loop tab m acc (n * m + of_nat d)"
  using assms by (simp add: reads_base_def)

lemma set_reader_int2str_loop:
  assumes "reads_base tab (unat base)" and "1 < base"
  shows "set_reader_loop tab base (int2str_loop base i acc) 0 = set_reader_loop tab base acc i"
  using assms
proof (induction base i acc rule: int2str_loop.induct)
  case (1 base i acc)
  define d where "d = i mod base"
  have "unat d < unat base" using "1.prems"(2)
    by (simp add: d_def unat_mod word_less_nat_alt)
  note dig = set_reader_digit [OF "1.prems"(1) this]
  have i: "i div base * base + d = i" unfolding d_def by (rule div_mult_mod_eq)
  have od: "of_nat (unat d) = d" by (simp add: of_nat_unat)
  show ?case
  proof (cases "0 < i div base")
    case True
    then have "int2str_loop base i acc = int2str_loop base (i div base) (chr_at digit_table (unat d) # acc)"
      using "1.prems"(2) by (simp add: int2str_loop.simps [of base i acc] d_def Let_def)
    then show ?thesis using "1.IH" [OF refl refl] True "1.prems" dig od i
      by (simp add: d_def [symmetric])
  next
    case False
    then have "int2str_loop base i acc = chr_at digit_table (unat d) # acc"
      by (simp add: int2str_loop.simps [of base i acc] d_def Let_def)
    moreover have "i = d" using False i by (simp add: word_gt_0)
    ultimately show ?thesis using dig od by simp
  qed
qed

lemma int2str_loop_head:
  assumes "1 < base" and "unat base \<le> 36"
  shows "\<exists>c s. int2str_loop base i acc = c # s \<and> c \<noteq> CHR ''-'' \<and> (c = CHR ''0'' \<longleftrightarrow> i = 0)"
  using assms
proof (induction base i acc rule: int2str_loop.induct)
  case (1 base i acc)
  have b: "0 < unat base" using "1.prems"(1) by (simp add: word_less_nat_alt)
  then have "unat (i mod base) < unat base" by (simp add: unat_mod)
  then have d: "unat (i mod base) < 36" using "1.prems"(2) by linarith
  show ?case
  proof (cases "0 < i div base")
    case True
    then have "i \<noteq> 0" by auto
    then show ?thesis using True "1.IH" [OF refl refl] "1.prems"
      by (auto simp: int2str_loop.simps [of base i acc] Let_def)
  next
    case False
    then have z: "i div base = 0" by (simp add: word_gt_0)
    have "i = i div base * base + i mod base" by (rule div_mult_mod_eq [symmetric])
    then have "i = i mod base" by (simp add: z)
    then have "unat (i mod base) = 0 \<longleftrightarrow> i = 0" by (metis unat_eq_0)
    then show ?thesis using False digit_table_not [OF d] by (auto simp: int2str_loop.simps [of base i acc] Let_def)
  qed
qed

lemma int2str_loop_zero: "1 < base \<Longrightarrow> int2str_loop base 0 acc = CHR ''0'' # acc"
  by (simp add: int2str_loop.simps)

lemma sign_extension: "(if 0x80000000 AND r \<noteq> 0 then push_bit 31 0xFFFFFFFF OR r else r) = (r :: u32)"
proof -
  have "push_bit 31 0xFFFFFFFF OR r = r" if "2 ^ 31 \<le> unat r"
  proof -
    have p: "push_bit 31 (0xFFFFFFFF :: u32) = push_bit 31 1" by simp
    have "bit r 31" using that by (simp only: bit_31_iff)
    then have "31 \<le> n \<Longrightarrow> n < 32 \<Longrightarrow> bit r n" for n by (cases "n = 31") auto
    then show ?thesis
      unfolding p by (intro bit_word_eqI, simp only: bit_or_iff bit_push_bit_iff bit_1_iff) auto
  qed
  then show ?thesis by (simp only: and_sign_32 split: if_split) simp
qed

lemma strtoint_decimal:
  assumes "s = c # s'" and "c \<noteq> CHR ''0''"
  shows "strtoint s = set_reader ''0123456789_'' 10 s"
  using assms by (simp only: strtoint_def sign_extension Let_def) simp

lemma set_reader_positive:
  assumes "reads_base tab (unat base)" and "1 < base" and "unat base \<le> 36"
  shows "set_reader tab base (int2str_loop base i []) = i"
    and "set_reader tab base (CHR ''-'' # int2str_loop base i []) = - i"
  using int2str_loop_head [OF assms(2,3), of i "[]"] set_reader_int2str_loop [OF assms(1,2), of i "[]"]
  by (auto simp: set_reader_def Let_def)

lemma and_7fffffff_neg:
  assumes "2 ^ 31 \<le> unat (x :: u32)"
  shows "- x AND 0x7FFFFFFF = (if unat x = 2 ^ 31 then 0 else - x)"
proof -
  have m: "(0x7FFFFFFF :: u32) = mask 31" by (simp add: mask_eq_exp_minus_1)
  have "x \<noteq> 0" using assms by auto
  then have u: "unat (- x) = 2 ^ 32 - unat x" by (rule unat_neg_32)
  have "unat (- x AND 0x7FFFFFFF) = unat (if unat x = 2 ^ 31 then 0 else - x)"
    unfolding m unat_and_mask_mod using assms u32_bound [of x] by (simp add: u)
  then show ?thesis by (simp only: word_unat_eq_iff)
qed

text \<open>
  C9. Printing a 32-bit integer in decimal, with its sign, and reading it back gives the same
  integer, for all of them; so does printing in hexadecimal behind \<open>0x\<close>.
\<close>

theorem strtoint_int2str:
  "map_sum id strtoint (int2str x 10 True) = Inr x \<and>
   map_sum id (\<lambda>s. strtoint (''0x'' @ s)) (int2str x 16 False) = Inr x"
proof
  have m: "(0x7FFFFFFF + 0x80000000 :: u32) = mask 32" by (simp add: mask_eq_exp_minus_1)
  have "unat (x AND mask 32) = unat x" using u32_bound [of x] by (simp add: unat_and_mask_mod)
  then have all: "x AND (0x7FFFFFFF + 0x80000000) = x" unfolding m by (simp only: word_unat_eq_iff)
  have dec: "reads_base ''0123456789_'' (unat (10 :: u32))" "(1 :: u32) < 10" "unat (10 :: u32) \<le> 36"
    using reads_base_decimal by simp_all
  show "map_sum id strtoint (int2str x 10 True) = Inr x"
  proof (cases "2 ^ 31 \<le> unat x")
    case True
    show ?thesis
    proof (cases "unat x = 2 ^ 31")
      case min: True
      then have "x = 0x80000000" by (simp add: word_unat_eq_iff)
      then show ?thesis by (simp add: int2str_def) code_simp
    next
      case False
      have "- x \<noteq> 0" using True by auto
      then have "int2str x 10 True = Inr (CHR ''-'' # int2str_loop 10 (- x) [])"
        unfolding int2str_def and_sign_32 and_7fffffff_neg [OF True] using True False
        by (simp add: requireE_def Let_def)
      then show ?thesis using strtoint_decimal set_reader_positive(2) [OF dec, of "- x"] by simp
    qed
  next
    case False
    then have eq: "int2str x 10 True = Inr (int2str_loop 10 x [])"
      unfolding int2str_def and_sign_32 all by (simp add: requireE_def)
    show ?thesis
    proof (cases "x = 0")
      case True
      then show ?thesis by (simp add: eq int2str_loop_zero) code_simp
    next
      case nz: False
      obtain c s where "int2str_loop 10 x [] = c # s" "c \<noteq> CHR ''0''"
        using int2str_loop_head [OF dec(2,3), of x "[]"] nz by blast
      then have "strtoint (int2str_loop 10 x []) = set_reader ''0123456789_'' 10 (int2str_loop 10 x [])"
        by (rule strtoint_decimal)
      then show ?thesis using set_reader_positive(1) [OF dec, of x] by (simp add: eq)
    qed
  qed
  have hexa: "reads_base ''0123456789ABCDEFabcdef_'' (unat (16 :: u32))" "(1 :: u32) < 16" "unat (16 :: u32) \<le> 36"
    using reads_base_hex by simp_all
  have "int2str x 16 False = Inr (int2str_loop 16 x [])"
    unfolding int2str_def all by (simp add: requireE_def)
  moreover have "strtoint (''0x'' @ s) = set_reader ''0123456789ABCDEFabcdef_'' 16 s" for s
    by (simp only: strtoint_def sign_extension Let_def) simp
  ultimately show "map_sum id (\<lambda>s. strtoint (''0x'' @ s)) (int2str x 16 False) = Inr x"
    using set_reader_positive(1) [OF hexa, of x] by simp
qed

end
