(* ===== verification/Hex2.thy ===== *)
theory Hex2
  imports Bootstrappable
begin

text \<open>
  The linker (\<^verbatim>\<open>stages/3-micro-c/linker-tools/hex2_linker.c\<close>): the globals are the record \<open>hex2\<close>,
  the input file is the list of characters still to be read, the output file the list of bytes
  written. Every \<open>exit(EXIT_FAILURE)\<close> is a value of \<open>hex2_error\<close>. Allocation succeeds.

  The buffer \<open>scratch\<close> is the list of its characters, all NUL from the end of the list on. The
  table of labels is a function from the hash to the chain of its entries.
\<close>

section \<open>State\<close>

datatype arch = KNIGHT | X86 | AMD64 | ARMV7L | AARM64 | PPC64LE | RISCV32 | RISCV64

datatype bytemode = HEX | OCTAL | BINARY

datatype hex2_error =
    Token_Too_Long
  | Target_Not_Valid string
  | Does_Not_Fit u32 nat bool
  | Invalid_Number_Of_Bytes
  | Unaligned_Branch_Target
  | Unknown_Pointer char
  | Out_Of_Range char u32
  | Cannot_Open string
  | Never_Returns
  | No_Input

record entry =
  target :: u32
  name :: string

record hex2 =
  BigEndian :: bool
  Architecture :: arch
  ByteMode :: bytemode
  ip :: u32
  scratch :: string
  linenumber :: u32
  ALIGNED :: bool
  hold :: u32
  toggle :: nat
  jump_tables :: "u32 \<Rightarrow> entry list"
  out_file :: "u8 list"
  shiftregister :: u32
  tempword :: u32
  updates :: nat

definition max_string :: nat where "max_string = 4096"

definition fputc :: "u32 \<Rightarrow> hex2 \<Rightarrow> hex2" where
  "fputc b s = s\<lparr>out_file := out_file s @ [ucast b]\<rparr>"

section \<open>Tokens\<close>

abbreviation token_end :: string where "token_end \<equiv> [CHR '' '', TAB, LF, CHR ''>'']"

text \<open>
  The loop of \<open>consume_token\<close>, entered with the character \<open>c\<close> just read and \<open>i\<close> characters
  stored: the characters it stores, the delimiter it stops at (\<open>None\<close> for \<open>EOF\<close>) and what is left.
  \<open>EOF\<close> as the first character is stored, as the byte 255, before the loop sees it.
\<close>

fun consume_loop :: "nat \<Rightarrow> char \<Rightarrow> string \<Rightarrow> hex2_error + string \<times> char option \<times> string" where
  "consume_loop i c rest =
    (if in_set c token_end then Inr ([], Some c, rest)
     else if \<not> i + 1 < max_string then Inl Token_Too_Long
     else (case rest of
             [] \<Rightarrow> Inr ([c], None, [])
           | c' # rest' \<Rightarrow>
               bindE (consume_loop (i + 1) c' rest') (\<lambda>(tok, e, r). Inr (c # tok, e, r))))"

declare consume_loop.simps [simp del]

text \<open>The characters are written over the buffer from its start; nothing is written after them.\<close>

definition consume_token :: "string \<Rightarrow> hex2 \<Rightarrow> hex2_error + char option \<times> string \<times> hex2" where
  "consume_token src s =
    (case src of
       [] \<Rightarrow> Inr (None, [], s\<lparr>scratch := CHR 0xFF # drop 1 (scratch s)\<rparr>)
     | c # rest \<Rightarrow>
         bindE (consume_loop 0 c rest) (\<lambda>(tok, e, r).
           Inr (e, r, s\<lparr>scratch := tok @ drop (length tok) (scratch s)\<rparr>)))"

fun Throwaway_token :: "string \<Rightarrow> char option \<times> string" where
  "Throwaway_token [] = (None, [])"
| "Throwaway_token (c # rest) = (if in_set c token_end then (Some c, rest) else Throwaway_token rest)"

text \<open>The C string a buffer holds, and its length.\<close>

definition buffer_str :: "string \<Rightarrow> string" where
  "buffer_str b = takeWhile (\<lambda>c. c \<noteq> NUL) b"

definition length_str :: "string \<Rightarrow> nat" where
  "length_str b = length (buffer_str b)"

fun Clear_Scratch_loop :: "string \<Rightarrow> string" where
  "Clear_Scratch_loop [] = []"
| "Clear_Scratch_loop (c # b) = (if c \<noteq> NUL then NUL # Clear_Scratch_loop b else c # b)"

definition Clear_Scratch :: "string \<Rightarrow> string" where
  "Clear_Scratch b = (case b of [] \<Rightarrow> [] | _ # b' \<Rightarrow> NUL # Clear_Scratch_loop b')"

text \<open>\<open>Copy_String\<close> into a fresh, zeroed buffer leaves the C string of the source there.\<close>

definition Copy_String :: "string \<Rightarrow> string" where
  "Copy_String a = buffer_str a"

section \<open>Labels\<close>

fun GetHash_loop :: "u32 \<Rightarrow> string \<Rightarrow> u32" where
  "GetHash_loop i [] = i"
| "GetHash_loop i (c # s) = GetHash_loop (i * 31 + c_char c) s"

definition GetHash :: "string \<Rightarrow> u32" where
  "GetHash s = GetHash_loop 5381 s AND 0xFFFF"

fun find_entry :: "string \<Rightarrow> entry list \<Rightarrow> u32 option" where
  "find_entry c [] = None"
| "find_entry c (i # es) = (if match_loop c (name i) then Some (target i) else find_entry c es)"

definition GetTarget :: "(u32 \<Rightarrow> entry list) \<Rightarrow> string \<Rightarrow> hex2_error + u32" where
  "GetTarget tab c =
    (case find_entry c (tab (GetHash c)) of None \<Rightarrow> Inl (Target_Not_Valid c) | Some t \<Rightarrow> Inr t)"

definition add_entry :: "string \<Rightarrow> u32 \<Rightarrow> (u32 \<Rightarrow> entry list) \<Rightarrow> (u32 \<Rightarrow> entry list)" where
  "add_entry nm t tab =
    (let h = GetHash nm in tab(h := \<lparr>target = t, name = nm\<rparr> # tab h))"

definition storeLabel :: "string \<Rightarrow> hex2 \<Rightarrow> hex2_error + char option \<times> string \<times> hex2" where
  "storeLabel src s =
    bindE (consume_token src s) (\<lambda>(c, rest, s).
      let nm = Copy_String (scratch s)
      in Inr (c, rest, s\<lparr>scratch := Clear_Scratch (scratch s),
                          jump_tables := add_entry nm (ip s) (jump_tables s)\<rparr>))"

section \<open>Pointers\<close>

definition range_check :: "u32 \<Rightarrow> nat \<Rightarrow> bool \<Rightarrow> hex2_error + unit" where
  "range_check displacement number_of_bytes absolute =
    (let d = sint displacement; bad = Inl (Does_Not_Fit displacement number_of_bytes absolute)
     in if number_of_bytes = 4 then Inr ()
        else if absolute \<and> number_of_bytes = 3 then (if 16777215 < d \<or> d < 0 then bad else Inr ())
        else if number_of_bytes = 3 then (if 8388607 < d \<or> d < -8388608 then bad else Inr ())
        else if absolute \<and> number_of_bytes = 2 then (if 65535 < d \<or> d < 0 then bad else Inr ())
        else if number_of_bytes = 2 then (if 32767 < d \<or> d < -32768 then bad else Inr ())
        else if absolute \<and> number_of_bytes = 1 then (if 255 < d \<or> d < 0 then bad else Inr ())
        else if number_of_bytes = 1 then (if 127 < d \<or> d < -128 then bad else Inr ())
        else Inl Invalid_Number_Of_Bytes)"

fun little_endian_loop :: "nat \<Rightarrow> u32 \<Rightarrow> hex2 \<Rightarrow> hex2" where
  "little_endian_loop 0 v s = s"
| "little_endian_loop (Suc n) v s = little_endian_loop n (v div 256) (fputc (v mod 256) s)"

definition outputPointer :: "u32 \<Rightarrow> nat \<Rightarrow> bool \<Rightarrow> hex2 \<Rightarrow> hex2_error + hex2" where
  "outputPointer displacement number_of_bytes absolute s =
    bindE (range_check displacement number_of_bytes absolute) (\<lambda>_.
      let v = displacement
      in if BigEndian s
         then (let s = (if number_of_bytes = 4 then fputc (drop_bit 24 v) s else s);
                   s = (if 3 \<le> number_of_bytes then fputc (drop_bit 16 v mod 256) s else s);
                   s = (if 2 \<le> number_of_bytes then fputc (drop_bit 8 v mod 256) s else s);
                   s = (if 1 \<le> number_of_bytes then fputc (v mod 256) s else s)
               in Inr s)
         else Inr (little_endian_loop number_of_bytes v s))"

text \<open>\<open>x >> 2\<close> of a signed \<open>int\<close> is arithmetic.\<close>

definition Architectural_displacement :: "u32 \<Rightarrow> u32 \<Rightarrow> hex2 \<Rightarrow> hex2_error + u32 \<times> hex2" where
  "Architectural_displacement tgt bas s =
    (case Architecture s of
       KNIGHT \<Rightarrow> Inr (tgt - bas, s)
     | X86 \<Rightarrow> Inr (tgt - bas, s)
     | AMD64 \<Rightarrow> Inr (tgt - bas, s)
     | ARMV7L \<Rightarrow>
         if ALIGNED s
         then (let s = s\<lparr>ALIGNED := False\<rparr>
               in if tgt AND 3 \<noteq> 0 then Inl Unaligned_Branch_Target
                  else Inr (signed_drop_bit 2 (tgt - bas + (bas AND 3)) - 2, s))
         else Inr (tgt - bas - 8 + (3 AND bas), s)
     | AARM64 \<Rightarrow>
         if ALIGNED s
         then Inr (signed_drop_bit 2 (tgt - (NOT 3 AND bas)), s\<lparr>ALIGNED := False\<rparr>)
         else Inr (tgt - bas - 8 + (3 AND bas), s)
     | PPC64LE \<Rightarrow>
         if ALIGNED s
         then Inr ((tgt - (bas AND 0xFFFFFFFC)) OR 1, s\<lparr>ALIGNED := False\<rparr>)
         else Inr (tgt - (bas AND 0xFFFFFFFC), s)
     | RISCV32 \<Rightarrow> Inr (tgt - bas, s)
     | RISCV64 \<Rightarrow> Inr (tgt - bas, s))"

definition Update_Pointer :: "char \<Rightarrow> hex2 \<Rightarrow> hex2_error + hex2" where
  "Update_Pointer ch s =
    (if in_set ch ''%&'' then Inr (s\<lparr>ip := ip s + 4\<rparr>)
     else if in_set ch ''@$'' then Inr (s\<lparr>ip := ip s + 2\<rparr>)
     else if ch = CHR ''~'' then Inr (s\<lparr>ip := ip s + 3\<rparr>)
     else if ch = CHR ''!'' then Inr (s\<lparr>ip := ip s + 1\<rparr>)
     else Inl (Unknown_Pointer ch))"

text \<open>The part of \<open>storePointer\<close> that finds the displacement: the base is another label or \<open>ip\<close>.\<close>

definition pointer_displacement ::
  "u32 \<Rightarrow> char option \<Rightarrow> string \<Rightarrow> hex2 \<Rightarrow> hex2_error + u32 \<times> string \<times> hex2" where
  "pointer_displacement tgt base_sep_p src s =
    (if base_sep_p = Some (CHR ''>'')
     then bindE (consume_token src (s\<lparr>scratch := Clear_Scratch (scratch s)\<rparr>)) (\<lambda>(_, src, s).
          bindE (GetTarget (jump_tables s) (buffer_str (scratch s))) (\<lambda>bas.
            Inr (tgt - bas, src, s)))
     else bindE (Architectural_displacement tgt (ip s) s) (\<lambda>(d, s). Inr (d, src, s)))"

text \<open>Its last part: the value and the width the pointer character asks for.\<close>

definition put_pointer :: "char \<Rightarrow> u32 \<Rightarrow> u32 \<Rightarrow> hex2 \<Rightarrow> hex2_error + hex2" where
  "put_pointer ch displacement tgt s =
    (if ch = CHR ''!'' then outputPointer displacement 1 False s
     else if ch = CHR ''$'' then outputPointer tgt 2 True s
     else if ch = CHR ''@'' then outputPointer displacement 2 False s
     else if ch = CHR ''~'' then outputPointer displacement 3 False s
     else if ch = CHR ''&'' then outputPointer tgt 4 True s
     else if ch = CHR ''%'' then outputPointer displacement 4 False s
     else Inl (Unknown_Pointer ch))"

definition storePointer :: "char \<Rightarrow> string \<Rightarrow> hex2 \<Rightarrow> hex2_error + string \<times> hex2" where
  "storePointer ch src s =
    bindE (Update_Pointer ch (s\<lparr>scratch := Clear_Scratch (scratch s)\<rparr>)) (\<lambda>s.
    bindE (consume_token src s) (\<lambda>(base_sep_p, src, s).
    bindE (GetTarget (jump_tables s) (buffer_str (scratch s))) (\<lambda>tgt.
    bindE (pointer_displacement tgt base_sep_p src s) (\<lambda>(displacement, src, s).
    bindE (put_pointer ch displacement tgt s) (\<lambda>s. Inr (src, s))))))"

section \<open>Bytes\<close>

fun line_Comment_loop :: "string \<Rightarrow> string" where
  "line_Comment_loop [] = []"
| "line_Comment_loop (c # rest) = (if in_set c [LF, CR] then rest else line_Comment_loop rest)"

definition line_Comment :: "string \<Rightarrow> hex2 \<Rightarrow> string \<times> hex2" where
  "line_Comment src s = (line_Comment_loop src, s\<lparr>linenumber := linenumber s + 1\<rparr>)"

text \<open>
  A digit reader returns the digit (\<open>None\<close> for -1) and may skip a comment. It leaves source and
  state alone on a digit, so the sources call it again for the same digit; here it is called once.
\<close>

type_synonym digit_reader = "char option \<Rightarrow> string \<Rightarrow> hex2 \<Rightarrow> u32 option \<times> string \<times> hex2"

definition not_digit :: digit_reader where
  "not_digit c src s =
    (if in_set_eof c ''#;'' then (let (src, s) = line_Comment src s in (None, src, s))
     else if c = Some LF then (None, src, s\<lparr>linenumber := linenumber s + 1\<rparr>)
     else (None, src, s))"

definition hex :: digit_reader where
  "hex c src s =
    (if in_set_eof c ''0123456789'' then (Some (c_char (the c) - 48), src, s)
     else if in_set_eof c ''abcdef'' then (Some (c_char (the c) - 87), src, s)
     else if in_set_eof c ''ABCDEF'' then (Some (c_char (the c) - 55), src, s)
     else not_digit c src s)"

definition octal :: digit_reader where
  "octal c src s =
    (if in_set_eof c ''01234567'' then (Some (c_char (the c) - 48), src, s)
     else not_digit c src s)"

definition binary :: digit_reader where
  "binary c src s =
    (if in_set_eof c ''01'' then (Some (c_char (the c) - 48), src, s)
     else not_digit c src s)"

definition emit_byte :: "bool \<Rightarrow> u32 \<Rightarrow> hex2 \<Rightarrow> hex2" where
  "emit_byte write b s =
    (let s = (if write then fputc b s else s) in s\<lparr>ip := ip s + 1, hold := 0\<rparr>)"

definition process_byte :: "char option \<Rightarrow> string \<Rightarrow> bool \<Rightarrow> hex2 \<Rightarrow> string \<times> hex2" where
  "process_byte c src write s =
    (case ByteMode s of
       HEX \<Rightarrow>
         (case hex c src s of
            (None, src, s) \<Rightarrow> (src, s)
          | (Some d, src, s) \<Rightarrow>
              (src, if toggle s \<noteq> 0 then (emit_byte write (hold s * 16 + d) s)\<lparr>toggle := 0\<rparr>
                    else s\<lparr>hold := d, toggle := 1\<rparr>))
     | OCTAL \<Rightarrow>
         (case octal c src s of
            (None, src, s) \<Rightarrow> (src, s)
          | (Some d, src, s) \<Rightarrow>
              (src, if toggle s = 2 then (emit_byte write (hold s * 8 + d) s)\<lparr>toggle := 0\<rparr>
                    else if toggle s = 1 then s\<lparr>hold := hold s * 8 + d, toggle := 2\<rparr>
                    else s\<lparr>hold := d, toggle := 1\<rparr>))
     | BINARY \<Rightarrow>
         (case binary c src s of
            (None, src, s) \<Rightarrow> (src, s)
          | (Some d, src, s) \<Rightarrow>
              (src, if toggle s = 7 then (emit_byte write (hold s * 2 + d) s)\<lparr>toggle := 0\<rparr>
                    else s\<lparr>hold := hold s * 2 + d, toggle := toggle s + 1\<rparr>)))"

definition pad_to_align :: "bool \<Rightarrow> hex2 \<Rightarrow> hex2" where
  "pad_to_align write s =
    (if Architecture s \<in> {ARMV7L, AARM64, RISCV32, RISCV64}
     then (let s = (if ip s AND 1 = 1
                    then (let s = s\<lparr>ip := ip s + 1\<rparr> in if write then fputc 0 s else s) else s)
           in if ip s AND 2 = 2
              then (let s = s\<lparr>ip := ip s + 2\<rparr> in if write then fputc 0 (fputc 0 s) else s) else s)
     else s)"

section \<open>What is left of the source\<close>

text \<open>No operation gives characters back: the loops over a file end.\<close>

named_theorems hex2_rest "operations that read leave at most what they were given"

lemma consume_loop_rest: "consume_loop i c rest = Inr (tok, e, r) \<Longrightarrow> length r \<le> length rest"
proof (induction i c rest arbitrary: tok e r rule: consume_loop.induct)
  case (1 i c rest)
  show ?case
  proof (cases "in_set c token_end \<or> \<not> i + 1 < max_string \<or> rest = []")
    case True
    then show ?thesis using "1.prems" by (auto simp: consume_loop.simps [of i c rest] split: if_splits list.splits)
  next
    case False
    then obtain c' rest' where r: "rest = c' # rest'" by (cases rest) auto
    then obtain tok' where "consume_loop (i + 1) c' rest' = Inr (tok', e, r)"
      using "1.prems" False unfolding consume_loop.simps [of i c rest] by auto
    then have "length r \<le> length rest'" using "1.IH" [OF _ _ r] False by auto
    then show ?thesis by (simp add: r)
  qed
qed

lemma consume_token_rest [hex2_rest]: "consume_token src s = Inr (e, r, s') \<Longrightarrow> length r \<le> length src"
  by (auto simp: consume_token_def split: list.splits dest!: consume_loop_rest)

lemma Throwaway_token_rest [hex2_rest]: "length (snd (Throwaway_token src)) \<le> length src"
  by (induction src) auto

lemma line_Comment_loop_rest: "length (line_Comment_loop src) \<le> length src"
  by (induction src) auto

lemma not_digit_rest: "not_digit c src s = (d, r, s') \<Longrightarrow> length r \<le> length src"
  using line_Comment_loop_rest [of src] by (auto simp: not_digit_def line_Comment_def split: if_splits)

lemma digit_rest:
  "hex c src s = (d, r, s') \<Longrightarrow> length r \<le> length src"
  "octal c src s = (d, r, s') \<Longrightarrow> length r \<le> length src"
  "binary c src s = (d, r, s') \<Longrightarrow> length r \<le> length src"
  by (auto simp: hex_def octal_def binary_def split: if_splits dest: not_digit_rest)

lemma process_byte_rest [hex2_rest]: "process_byte c src w s = (r, s') \<Longrightarrow> length r \<le> length src"
  by (auto simp: process_byte_def split: bytemode.splits prod.splits option.splits dest: digit_rest)

lemma storeLabel_rest [hex2_rest]: "storeLabel src s = Inr (c, r, s') \<Longrightarrow> length r \<le> length src"
  by (auto simp: storeLabel_def dest: consume_token_rest)

lemma pointer_displacement_rest [hex2_rest]:
  "pointer_displacement tgt sep src s = Inr (d, r, s') \<Longrightarrow> length r \<le> length src"
  by (auto simp: pointer_displacement_def split: if_splits dest: consume_token_rest)

lemma storePointer_rest [hex2_rest]: "storePointer ch src s = Inr (r, s') \<Longrightarrow> length r \<le> length src"
  by (fastforce simp: storePointer_def dest: consume_token_rest pointer_displacement_rest)

section \<open>The passes\<close>

abbreviation pointer_chars :: string where "pointer_chars \<equiv> ''!@$~%&''"

text \<open>What \<open>first_pass\<close> skips of a pointer: a label, and the base behind \<open>>\<close>.\<close>

definition skip_pointer :: "string \<Rightarrow> string" where
  "skip_pointer src =
    (let (c, src) = Throwaway_token src in if c = Some (CHR ''>'') then snd (Throwaway_token src) else src)"

text \<open>One turn of the loop of \<open>first_pass\<close>, for the character \<open>c\<close> just read.\<close>

definition first_step :: "char \<Rightarrow> string \<Rightarrow> hex2 \<Rightarrow> hex2_error + string \<times> hex2" where
  "first_step c src s =
    bindE (if c = CHR '':'' then storeLabel src s else Inr (Some c, src, s)) (\<lambda>(c, src, s).
      if in_set_eof c pointer_chars
      then bindE (Update_Pointer (the c) s) (\<lambda>s. Inr (skip_pointer src, s))
      else if c = Some (CHR ''<'') then Inr (src, pad_to_align False s)
      else if c = Some (CHR ''^'') then Inr (src, s)
      else Inr (process_byte c src False s))"

definition second_step :: "char \<Rightarrow> string \<Rightarrow> hex2 \<Rightarrow> hex2_error + string \<times> hex2" where
  "second_step c src s =
    (if c = CHR '':'' then Inr (snd (Throwaway_token src), s)
     else if in_set c pointer_chars then storePointer c src s
     else if c = CHR ''<'' then Inr (src, pad_to_align True s)
     else if c = CHR ''^'' then Inr (src, s\<lparr>ALIGNED := True\<rparr>)
     else Inr (process_byte (Some c) src True s))"

lemma skip_pointer_rest: "length (skip_pointer src) \<le> length src"
proof -
  obtain c r where "Throwaway_token src = (c, r)" by fastforce
  then show ?thesis using Throwaway_token_rest [of src] Throwaway_token_rest [of r]
    by (simp add: skip_pointer_def)
qed

lemma first_step_rest [hex2_rest]:
  assumes "first_step c src s = Inr (r, s')"
  shows "length r \<le> length src"
proof -
  obtain c1 src1 s1 where
    1: "(if c = CHR '':'' then storeLabel src s else Inr (Some c, src, s)) = Inr (c1, src1, s1)"
    and 2: "(if in_set_eof c1 pointer_chars
      then bindE (Update_Pointer (the c1) s1) (\<lambda>s. Inr (skip_pointer src1, s))
      else if c1 = Some (CHR ''<'') then Inr (src1, pad_to_align False s1)
      else if c1 = Some (CHR ''^'') then Inr (src1, s1)
      else Inr (process_byte c1 src1 False s1)) = Inr (r, s')"
    using assms unfolding first_step_def bindE_Inr_iff by auto
  have "length src1 \<le> length src" using 1 by (auto split: if_splits dest: storeLabel_rest)
  moreover have "length r \<le> length src1"
    using 2 skip_pointer_rest [of src1] by (auto split: if_splits dest: process_byte_rest)
  ultimately show ?thesis by simp
qed

lemma second_step_rest [hex2_rest]: "second_step c src s = Inr (r, s') \<Longrightarrow> length r \<le> length src"
  using Throwaway_token_rest [of src]
  by (auto simp: second_step_def split: if_splits dest: storePointer_rest process_byte_rest)

function first_loop :: "string \<Rightarrow> hex2 \<Rightarrow> hex2_error + hex2" where
  "first_loop [] s = Inr s"
| "first_loop (c # src) s = bindE (first_step c src s) (\<lambda>(src, s). first_loop src s)"
  by pat_completeness auto
termination
  by (relation "measure (\<lambda>(src, s). length src)") (auto dest: first_step_rest)

function second_loop :: "string \<Rightarrow> hex2 \<Rightarrow> hex2_error + hex2" where
  "second_loop [] s = Inr s"
| "second_loop (c # src) s = bindE (second_step c src s) (\<lambda>(src, s). second_loop src s)"
  by pat_completeness auto
termination
  by (relation "measure (\<lambda>(src, s). length src)") (auto dest: second_step_rest)

text \<open>
  The list of input files is the chain \<open>input\<close>, newest first; the files are processed from its
  end. \<open>files\<close> is what \<open>fopen\<close> finds.
\<close>

fun first_pass :: "(string \<Rightarrow> string option) \<Rightarrow> string list \<Rightarrow> hex2 \<Rightarrow> hex2_error + hex2" where
  "first_pass files [] s = Inr s"
| "first_pass files (f # input) s =
    bindE (first_pass files input s) (\<lambda>s.
      case files f of
        None \<Rightarrow> Inl (Cannot_Open f)
      | Some src \<Rightarrow> first_loop src (s\<lparr>linenumber := 1, toggle := 0\<rparr>))"

fun second_pass :: "(string \<Rightarrow> string option) \<Rightarrow> string list \<Rightarrow> hex2 \<Rightarrow> hex2_error + hex2" where
  "second_pass files [] s = Inr s"
| "second_pass files (f # input) s =
    bindE (second_pass files input s) (\<lambda>s.
      case files f of
        None \<Rightarrow> Inl (Cannot_Open f)
      | Some src \<Rightarrow> second_loop src (s\<lparr>linenumber := 1, toggle := 0, hold := 0\<rparr>))"

end
