(* ===== verification/Hex2Word.thy ===== *)
theory Hex2Word
  imports Hex2
begin

text \<open>
  The word mode of the linker, for RISC-V (\<^verbatim>\<open>linker-tools/hex2_word.c\<close>), and its main program
  (\<^verbatim>\<open>hex2.c\<close>). An immediate is scattered over the fields of the instruction that follows it: it
  is kept in \<open>shiftregister\<close> and combined with the next four bytes. \<open>int\<close> and \<open>unsigned\<close> are both
  \<open>u32\<close>; masks and shifts do not depend on the sign.
\<close>

section \<open>Immediates\<close>

definition all_ones :: u32 where "all_ones = push_bit 16 0xFFFF OR 0xFFFF"

definition swap_word :: "u32 \<Rightarrow> u32" where
  "swap_word v = (drop_bit 24 v AND 0xFF) OR (push_bit 8 v AND 0xFF0000) OR
     (drop_bit 8 v AND 0xFF00) OR push_bit 24 (v AND 0xFF)"

definition imm_I :: "u32 \<Rightarrow> u32" where
  "imm_I v = push_bit 20 (v AND 0xFFF)"

definition imm_B :: "u32 \<Rightarrow> u32" where
  "imm_B v = push_bit 7 (v AND 0x1E) OR push_bit (31 - 11) (v AND 0x7E0) OR
     drop_bit 4 (v AND 0x800) OR push_bit (31 - 12) (v AND 0x1000)"

definition imm_J :: "u32 \<Rightarrow> u32" where
  "imm_J v = push_bit (30 - 10) (v AND 0x7FE) OR push_bit (20 - 11) (v AND 0x800) OR
     (v AND 0xFF000) OR push_bit (31 - 20) (v AND 0x100000)"

definition imm_U :: "u32 \<Rightarrow> u32" where
  "imm_U v = (if v AND 0xFFF < 0x800 then v AND push_bit 12 0xFFFFF
              else (v AND push_bit 12 0xFFFFF) + 0x1000)"

definition xor_shiftregister :: "u32 \<Rightarrow> hex2 \<Rightarrow> hex2" where
  "xor_shiftregister w s = s\<lparr>tempword := w AND all_ones, shiftregister := shiftregister s XOR (w AND all_ones)\<rparr>"

definition UpdateShiftRegister :: "char \<Rightarrow> u32 \<Rightarrow> hex2 \<Rightarrow> hex2_error + hex2" where
  "UpdateShiftRegister ch v s =
    (if ch = CHR ''.''
     then (let swap = (if \<not> BigEndian s then swap_word v else v)
           in Inr (s\<lparr>shiftregister := shiftregister s XOR (swap AND all_ones)\<rparr>))
     else if ch = CHR ''!'' then Inr (xor_shiftregister (imm_I (v + 4)) s)
     else if ch = CHR ''@''
     then (if (sint v < -0x1000 \<or> 0xFFF < sint v) \<or> v AND 1 \<noteq> 0 then Inl (Out_Of_Range (CHR ''B'') v)
           else Inr (xor_shiftregister (imm_B v) s))
     else if ch = CHR ''$''
     then (if (sint v < -0x100000 \<or> 0xFFFFF < sint v) \<or> v AND 1 \<noteq> 0 then Inl (Out_Of_Range (CHR ''J'') v)
           else Inr (xor_shiftregister (imm_J v) s))
     else if ch = CHR ''~'' then Inr (xor_shiftregister (imm_U v) s)
     else Inl (Unknown_Pointer ch))"

section \<open>Words and bytes\<close>

definition WordStorePointer :: "char \<Rightarrow> string \<Rightarrow> hex2 \<Rightarrow> hex2_error + string \<times> hex2" where
  "WordStorePointer ch src s =
    bindE (consume_token src (s\<lparr>ip := ip s + 4, scratch := Clear_Scratch (scratch s)\<rparr>))
      (\<lambda>(base_sep_p, src, s).
    bindE (GetTarget (jump_tables s) (buffer_str (scratch s))) (\<lambda>tgt.
    bindE (pointer_displacement tgt base_sep_p src s) (\<lambda>(displacement, src, s).
    bindE (if ch = CHR ''&'' then outputPointer tgt 4 True s
           else if ch = CHR ''%'' then outputPointer displacement 4 False s
           else Inl (Unknown_Pointer ch)) (\<lambda>s. Inr (src, s)))))"

definition sr_nextb :: "hex2 \<Rightarrow> u32 \<times> hex2" where
  "sr_nextb s = (shiftregister s AND 0xff, s\<lparr>shiftregister := drop_bit 8 (shiftregister s)\<rparr>)"

text \<open>What \<open>DoByte\<close> does with a complete byte \<open>b\<close>.\<close>

definition do_byte :: "bool \<Rightarrow> bool \<Rightarrow> u32 \<Rightarrow> hex2 \<Rightarrow> hex2" where
  "do_byte write update b s =
    (let s = (if write then (let (r, s) = sr_nextb s in fputc (b XOR r) s) else s);
         s = s\<lparr>ip := ip s + 1\<rparr>;
         s = (if update then s\<lparr>tempword := push_bit 8 (tempword s) XOR b, updates := updates s + 1\<rparr> else s)
     in s\<lparr>hold := 0\<rparr>)"

definition DoByte :: "char option \<Rightarrow> string \<Rightarrow> bool \<Rightarrow> bool \<Rightarrow> hex2 \<Rightarrow> string \<times> hex2" where
  "DoByte c src write update s =
    (case ByteMode s of
       HEX \<Rightarrow>
         (case hex c src s of
            (None, src, s) \<Rightarrow> (src, s)
          | (Some d, src, s) \<Rightarrow>
              (src, if toggle s \<noteq> 0 then (do_byte write update (hold s * 16 + d) s)\<lparr>toggle := 0\<rparr>
                    else s\<lparr>hold := d, toggle := 1\<rparr>))
     | OCTAL \<Rightarrow>
         (case octal c src s of
            (None, src, s) \<Rightarrow> (src, s)
          | (Some d, src, s) \<Rightarrow>
              (src, if toggle s = 2 then (do_byte write update (hold s * 8 + d) s)\<lparr>toggle := 0\<rparr>
                    else if toggle s = 1 then s\<lparr>hold := hold s * 8 + d, toggle := 2\<rparr>
                    else s\<lparr>hold := d, toggle := 1\<rparr>))
     | BINARY \<Rightarrow>
         (case binary c src s of
            (None, src, s) \<Rightarrow> (src, s)
          | (Some d, src, s) \<Rightarrow>
              (src, if toggle s = 7 then (do_byte write update (hold s * 2 + d) s)\<lparr>toggle := 0\<rparr>
                    else s\<lparr>hold := hold s * 2 + d, toggle := toggle s + 1\<rparr>)))"

lemma DoByte_rest [hex2_rest]: "DoByte c src w u s = (r, s') \<Longrightarrow> length r \<le> length src"
  by (auto simp: DoByte_def split: bytemode.splits prod.splits option.splits dest: digit_rest)

text \<open>
  The loop \<open>while (updates < 4) { c = fgetc(source_file); DoByte(...); }\<close>. At the end of the file it
  reads \<open>EOF\<close> for ever: \<open>DoByte\<close> does nothing with it (\<open>DoByte_EOF\<close>), so the loop does not
  return.
\<close>

function read_word :: "string \<Rightarrow> hex2 \<Rightarrow> hex2_error + string \<times> hex2" where
  "read_word src s =
    (if updates s < 4
     then (case src of
             [] \<Rightarrow> Inl Never_Returns
           | c # src \<Rightarrow> (case DoByte (Some c) src False True s of (src, s) \<Rightarrow> read_word src s))
     else Inr (src, s))"
  by pat_completeness auto
termination
  by (relation "measure (\<lambda>(src, s). length src)")
    (auto split: prod.split dest: DoByte_rest)

declare read_word.simps [simp del]

lemma DoByte_EOF: "DoByte None [] w u s = ([], s)"
  by (simp add: DoByte_def hex_def octal_def binary_def not_digit_def in_set_eof_def split: bytemode.splits)

lemma read_word_rest [hex2_rest]: "read_word src s = Inr (r, s') \<Longrightarrow> length r \<le> length src"
proof (induction src s arbitrary: r s' rule: read_word.induct)
  case (1 src s)
  show ?case
  proof (cases "updates s < 4")
    case False
    then show ?thesis using "1.prems" by (simp add: read_word.simps [of src s])
  next
    case True
    then obtain c src1 where src: "src = c # src1" using "1.prems"
      by (cases src) (auto simp: read_word.simps [of "[]" s])
    obtain src2 s2 where b: "DoByte (Some c) src1 False True s = (src2, s2)" by fastforce
    have "read_word src2 s2 = Inr (r, s')" using "1.prems" True src b
      by (simp add: read_word.simps [of "c # src1" s])
    from "1.IH" [OF True src b [symmetric] this] show ?thesis using DoByte_rest [OF b] src by simp
  qed
qed

section \<open>The passes\<close>

definition word_at_dot :: "string \<Rightarrow> hex2 \<Rightarrow> hex2_error + string \<times> hex2" where
  "word_at_dot src s = read_word src (s\<lparr>updates := 0, tempword := 0\<rparr>)"

definition WordFirst_step :: "char \<Rightarrow> string \<Rightarrow> hex2 \<Rightarrow> hex2_error + string \<times> hex2" where
  "WordFirst_step c src s =
    bindE (if c = CHR '':'' then storeLabel src s else Inr (Some c, src, s)) (\<lambda>(c, src, s).
      if c = Some (CHR ''.'')
      then bindE (word_at_dot src s) (\<lambda>(src, s). Inr (src, s\<lparr>ip := ip s - 4\<rparr>))
      else if in_set_eof c ''!@$~'' then Inr (snd (Throwaway_token src), s)
      else if in_set_eof c ''%&'' then Inr (skip_pointer src, s\<lparr>ip := ip s + 4\<rparr>)
      else if c = Some (CHR ''<'') then Inr (src, pad_to_align False s)
      else if c = Some (CHR ''^'') then Inr (src, s)
      else Inr (DoByte c src False False s))"

definition WordSecond_step :: "char \<Rightarrow> string \<Rightarrow> hex2 \<Rightarrow> hex2_error + string \<times> hex2" where
  "WordSecond_step c src s =
    (if c = CHR '':'' then Inr (snd (Throwaway_token src), s)
     else if c = CHR ''.''
     then bindE (word_at_dot src s) (\<lambda>(src, s).
          bindE (UpdateShiftRegister (CHR ''.'') (tempword s) s) (\<lambda>s. Inr (src, s\<lparr>ip := ip s - 4\<rparr>)))
     else if in_set c ''%&'' then WordStorePointer c src s
     else if in_set c ''!@$~''
     then bindE (consume_token src (s\<lparr>scratch := Clear_Scratch (scratch s)\<rparr>)) (\<lambda>(_, src, s).
          bindE (GetTarget (jump_tables s) (buffer_str (scratch s))) (\<lambda>tgt.
          bindE (Architectural_displacement tgt (ip s) s) (\<lambda>(d, s).
          bindE (UpdateShiftRegister c d s) (\<lambda>s. Inr (src, s)))))
     else if c = CHR ''<'' then Inr (src, pad_to_align True s)
     else if c = CHR ''^'' then Inr (src, s\<lparr>ALIGNED := True\<rparr>)
     else Inr (DoByte (Some c) src True False s))"

lemma WordStorePointer_rest [hex2_rest]: "WordStorePointer ch src s = Inr (r, s') \<Longrightarrow> length r \<le> length src"
  by (fastforce simp: WordStorePointer_def dest: consume_token_rest pointer_displacement_rest)

lemma word_at_dot_rest [hex2_rest]: "word_at_dot src s = Inr (r, s') \<Longrightarrow> length r \<le> length src"
  by (auto simp: word_at_dot_def dest: read_word_rest)

lemma WordFirst_step_rest [hex2_rest]:
  assumes "WordFirst_step c src s = Inr (r, s')"
  shows "length r \<le> length src"
proof -
  obtain c1 src1 s1 where
    1: "(if c = CHR '':'' then storeLabel src s else Inr (Some c, src, s)) = Inr (c1, src1, s1)"
    and 2: "(if c1 = Some (CHR ''.'')
      then bindE (word_at_dot src1 s1) (\<lambda>(src, s). Inr (src, s\<lparr>ip := ip s - 4\<rparr>))
      else if in_set_eof c1 ''!@$~'' then Inr (snd (Throwaway_token src1), s1)
      else if in_set_eof c1 ''%&'' then Inr (skip_pointer src1, s1\<lparr>ip := ip s1 + 4\<rparr>)
      else if c1 = Some (CHR ''<'') then Inr (src1, pad_to_align False s1)
      else if c1 = Some (CHR ''^'') then Inr (src1, s1)
      else Inr (DoByte c1 src1 False False s1)) = Inr (r, s')"
    using assms unfolding WordFirst_step_def bindE_Inr_iff by auto
  have "length src1 \<le> length src" using 1 by (auto split: if_splits dest: storeLabel_rest)
  moreover have "length r \<le> length src1"
    using 2 skip_pointer_rest [of src1] Throwaway_token_rest [of src1]
    by (auto split: if_splits dest: DoByte_rest word_at_dot_rest)
  ultimately show ?thesis by simp
qed

lemma WordSecond_step_rest [hex2_rest]: "WordSecond_step c src s = Inr (r, s') \<Longrightarrow> length r \<le> length src"
  using Throwaway_token_rest [of src]
  by (auto simp: WordSecond_step_def split: if_splits
      dest: WordStorePointer_rest DoByte_rest word_at_dot_rest consume_token_rest)

function WordFirst_loop :: "string \<Rightarrow> hex2 \<Rightarrow> hex2_error + hex2" where
  "WordFirst_loop [] s = Inr s"
| "WordFirst_loop (c # src) s = bindE (WordFirst_step c src s) (\<lambda>(src, s). WordFirst_loop src s)"
  by pat_completeness auto
termination
  by (relation "measure (\<lambda>(src, s). length src)") (auto dest: WordFirst_step_rest)

function WordSecond_loop :: "string \<Rightarrow> hex2 \<Rightarrow> hex2_error + hex2" where
  "WordSecond_loop [] s = Inr s"
| "WordSecond_loop (c # src) s = bindE (WordSecond_step c src s) (\<lambda>(src, s). WordSecond_loop src s)"
  by pat_completeness auto
termination
  by (relation "measure (\<lambda>(src, s). length src)") (auto dest: WordSecond_step_rest)

fun WordFirstPass :: "(string \<Rightarrow> string option) \<Rightarrow> string list \<Rightarrow> hex2 \<Rightarrow> hex2_error + hex2" where
  "WordFirstPass files [] s = Inr s"
| "WordFirstPass files (f # input) s =
    bindE (WordFirstPass files input s) (\<lambda>s.
      case files f of
        None \<Rightarrow> Inl (Cannot_Open f)
      | Some src \<Rightarrow> WordFirst_loop src (s\<lparr>linenumber := 1, toggle := 0\<rparr>))"

text \<open>The shift register is cleared on the way down the chain of files, before any is processed.\<close>

fun WordSecondPass :: "(string \<Rightarrow> string option) \<Rightarrow> string list \<Rightarrow> hex2 \<Rightarrow> hex2_error + hex2" where
  "WordSecondPass files [] s = Inr (s\<lparr>shiftregister := 0, tempword := 0\<rparr>)"
| "WordSecondPass files (f # input) s =
    bindE (WordSecondPass files input (s\<lparr>shiftregister := 0, tempword := 0\<rparr>)) (\<lambda>s.
      case files f of
        None \<Rightarrow> Inl (Cannot_Open f)
      | Some src \<Rightarrow> WordSecond_loop src (s\<lparr>linenumber := 1, toggle := 0, hold := 0\<rparr>))"

section \<open>The main program\<close>

text \<open>
  \<open>main\<close> from the end of the options on: \<open>arch\<close>, \<open>big\<close>, \<open>mode\<close> and \<open>Base_Address\<close> are what the
  options set, \<open>input\<close> the chain of \<open>-f\<close> files. The result is the bytes of the output file.
\<close>

definition hex2_init :: "arch \<Rightarrow> bool \<Rightarrow> bytemode \<Rightarrow> u32 \<Rightarrow> hex2" where
  "hex2_init arc big mode Base_Address =
    \<lparr>BigEndian = big, Architecture = arc, ByteMode = mode, ip = Base_Address, scratch = [],
     linenumber = 0, ALIGNED = False, hold = 0, toggle = 0, jump_tables = (\<lambda>_. []),
     out_file = [], shiftregister = 0, tempword = 0, updates = 0\<rparr>"

definition hex2_main ::
  "(string \<Rightarrow> string option) \<Rightarrow> arch \<Rightarrow> bool \<Rightarrow> bytemode \<Rightarrow> u32 \<Rightarrow> string list \<Rightarrow> hex2_error + u8 list" where
  "hex2_main files arc big mode Base_Address input =
    (let InsaneArchitecture = (arc = RISCV32 \<or> arc = RISCV64);
         s = hex2_init arc big mode Base_Address
     in if input = [] then Inl No_Input
        else bindE (if InsaneArchitecture then WordFirstPass files input s else first_pass files input s) (\<lambda>s.
          map_sum id out_file
           (let s = s\<lparr>ip := Base_Address\<rparr>
            in if InsaneArchitecture then WordSecondPass files input s else second_pass files input s)))"

text \<open>
  The options of \<open>main\<close>. \<open>argv\<close> is the list of arguments; reading beyond it gives \<open>NULL\<close>, which the
  loop skips. An option that takes a value reads the next argument; \<open>Missing_Value\<close> stands for the
  runs where that is the \<open>NULL\<close> that ends \<open>argv\<close>, which the program goes on to read from or to
  open. \<open>-o\<close> opens its file at once; that is left to the caller here.
\<close>

record hex2_options =
  opt_BigEndian :: bool
  opt_Architecture :: arch
  opt_ByteMode :: bytemode
  opt_Base_Address :: u32
  opt_exec_enable :: bool
  opt_input :: "string list"
  opt_output :: "string option"

datatype hex2_cmd = Run hex2_options | Exit_Success | Exit_Failure | Missing_Value

definition hex2_defaults :: hex2_options where
  "hex2_defaults = \<lparr>opt_BigEndian = True, opt_Architecture = KNIGHT, opt_ByteMode = HEX,
     opt_Base_Address = 0, opt_exec_enable = True, opt_input = [], opt_output = None\<rparr>"

definition arch_option :: "string \<Rightarrow> arch \<Rightarrow> arch" where
  "arch_option a old =
    (if a = ''knight-native'' \<or> a = ''knight-posix'' then KNIGHT
     else if a = ''x86'' then X86 else if a = ''amd64'' then AMD64
     else if a = ''armv7l'' then ARMV7L else if a = ''aarch64'' then AARM64
     else if a = ''ppc64le'' then PPC64LE else if a = ''riscv32'' then RISCV32
     else if a = ''riscv64'' then RISCV64 else old)"

fun hex2_parse :: "string list \<Rightarrow> hex2_options \<Rightarrow> hex2_cmd" where
  "hex2_parse [] p = Run p"
| "hex2_parse (a # rest) p =
    (if a = ''--big-endian'' then hex2_parse rest (p\<lparr>opt_BigEndian := True\<rparr>)
     else if a = ''--little-endian'' then hex2_parse rest (p\<lparr>opt_BigEndian := False\<rparr>)
     else if a = ''--non-executable'' then hex2_parse rest (p\<lparr>opt_exec_enable := False\<rparr>)
     else if a = ''-A'' \<or> a = ''--architecture''
     then (case rest of
             [] \<Rightarrow> Missing_Value
           | v # rest \<Rightarrow> hex2_parse rest (p\<lparr>opt_Architecture := arch_option v (opt_Architecture p)\<rparr>))
     else if a = ''-b'' \<or> a = ''--binary'' then hex2_parse rest (p\<lparr>opt_ByteMode := BINARY\<rparr>)
     else if a = ''-B'' \<or> a = ''--base-address''
     then (case rest of
             [] \<Rightarrow> Missing_Value
           | v # rest \<Rightarrow> hex2_parse rest (p\<lparr>opt_Base_Address := strtoint v\<rparr>))
     else if a = ''-h'' \<or> a = ''--help'' then Exit_Success
     else if a = ''-f'' \<or> a = ''--file''
     then (case rest of
             [] \<Rightarrow> Missing_Value
           | v # rest \<Rightarrow> hex2_parse rest (p\<lparr>opt_input := v # opt_input p\<rparr>))
     else if a = ''-o'' \<or> a = ''--output''
     then (case rest of
             [] \<Rightarrow> Missing_Value
           | v # rest \<Rightarrow> hex2_parse rest (p\<lparr>opt_output := Some v\<rparr>))
     else if a = ''-O'' \<or> a = ''--octal'' then hex2_parse rest (p\<lparr>opt_ByteMode := OCTAL\<rparr>)
     else if a = ''-V'' \<or> a = ''--version'' then Exit_Success
     else Exit_Failure)"

end
