(* ===== verification/Hex2Layout.thy ===== *)
theory Hex2Layout
  imports Hex2Correct
begin

text \<open>
  The two passes agree on the layout. The first pass gives every label an address without
  writing anything; the second writes the bytes. They read the same file side by side: \<open>agree\<close>
  relates their states, \<open>two_pass\<close> is the contract of a pair of steps, proved here for the byte
  mode and for the word mode, and from it follows once and for all that a label has the address
  of the byte that is written after it.
\<close>

section \<open>The relation between the passes\<close>

definition agree :: "hex2 \<Rightarrow> hex2 \<Rightarrow> bool" where
  "agree s1 s2 \<longleftrightarrow> ip s1 = ip s2 \<and> toggle s1 = toggle s2 \<and> ByteMode s1 = ByteMode s2 \<and>
     Architecture s1 = Architecture s2"

text \<open>The buffer \<open>scratch\<close> is clear.\<close>

definition clean :: "hex2 \<Rightarrow> bool" where
  "clean s \<longleftrightarrow> set (scratch s) \<subseteq> {NUL}"

text \<open>What was written moved \<open>ip\<close> by as many bytes, and the labels were not touched.\<close>

definition wrote :: "hex2 \<Rightarrow> hex2 \<Rightarrow> bool" where
  "wrote s s' \<longleftrightarrow> (\<exists>bs. out_file s' = out_file s @ bs \<and> ip s' = ip s + of_nat (length bs)) \<and>
     jump_tables s' = jump_tables s"

lemma wrote_refl [intro, simp]: "wrote s s"
  by (auto simp: wrote_def intro: exI [of _ "[]"])

lemma wrote_trans [trans]: "wrote s s' \<Longrightarrow> wrote s' s'' \<Longrightarrow> wrote s s''"
proof -
  assume "wrote s s'" "wrote s' s''"
  then obtain bs cs where "out_file s' = out_file s @ bs" "ip s' = ip s + of_nat (length bs)"
    "out_file s'' = out_file s' @ cs" "ip s'' = ip s' + of_nat (length cs)"
    "jump_tables s'' = jump_tables s"
    by (auto simp: wrote_def)
  then show ?thesis by (auto simp: wrote_def intro!: exI [of _ "bs @ cs"])
qed

lemma wrote_length: "wrote s s' \<Longrightarrow> length (out_file s) \<le> length (out_file s')"
  by (auto simp: wrote_def)

text \<open>The label that stands at the start of \<open>src\<close>.\<close>

definition label_at :: "string \<Rightarrow> string" where
  "label_at src = (if src = [] then [CHR 0xFF] else takeWhile (\<lambda>c. \<not> in_set c token_end) src)"

section \<open>Tokens\<close>

lemma consume_loop_value:
  "consume_loop i c rest = Inr (tok, e, r) \<Longrightarrow>
     tok = takeWhile (\<lambda>c. \<not> in_set c token_end) (c # rest) \<and> Throwaway_token (c # rest) = (e, r)"
proof (induction i c rest arbitrary: tok e r rule: consume_loop.induct)
  case (1 i c rest)
  show ?case
  proof (cases "in_set c token_end \<or> \<not> i + 1 < max_string \<or> rest = []")
    case True
    then show ?thesis using "1.prems" unfolding consume_loop.simps [of i c rest]
      by (auto split: if_splits list.splits)
  next
    case False
    then obtain c' rest' where r: "rest = c' # rest'" by (cases rest) auto
    then obtain tok' where t: "consume_loop (i + 1) c' rest' = Inr (tok', e, r)" "tok = c # tok'"
      using "1.prems" False unfolding consume_loop.simps [of i c rest] by auto
    then show ?thesis using "1.IH" [OF _ _ r t(1)] False by (simp add: r)
  qed
qed

lemma consume_token_value:
  assumes "consume_token src s = Inr (e, r, s')"
  shows "Throwaway_token src = (e, r)"
    and "s' = s\<lparr>scratch := label_at src @ drop (length (label_at src)) (scratch s)\<rparr>"
  using assms by (cases src; auto simp: consume_token_def label_at_def dest!: consume_loop_value)+

lemma Throwaway_end: "Throwaway_token src = (e, r) \<Longrightarrow> e = None \<or> (\<exists>c. e = Some c \<and> in_set c token_end)"
  by (induction src) (auto split: if_splits)

lemma Throwaway_suffix: "\<exists>p. src = p @ snd (Throwaway_token src)"
proof (induction src)
  case (Cons c src)
  then obtain p where "src = p @ snd (Throwaway_token src)" ..
  then show ?case by (auto intro: exI [of _ "[c]"] exI [of _ "c # p"])
qed simp

lemma Throwaway_c_str: "c_str src \<Longrightarrow> c_str (snd (Throwaway_token src))"
  by (metis Throwaway_suffix c_str_simps(3))

lemma label_at_c_str: "c_str src \<Longrightarrow> c_str (label_at src)"
  by (auto simp: label_at_def c_str_def dest: set_takeWhileD)

lemma buffer_str_clean:
  assumes "c_str tok" and "set b \<subseteq> {NUL}"
  shows "buffer_str (tok @ b) = tok"
proof -
  have "takeWhile (\<lambda>c. c \<noteq> NUL) b = []" using assms(2) by (cases b) auto
  moreover have "\<forall>c \<in> set tok. c \<noteq> NUL" using assms(1) by (auto simp: c_str_def)
  ultimately show ?thesis by (simp add: buffer_str_def takeWhile_append2)
qed

lemma Clear_Scratch_loop_clean:
  "c_str tok \<Longrightarrow> set b \<subseteq> {NUL} \<Longrightarrow> set (Clear_Scratch_loop (tok @ b)) \<subseteq> {NUL}"
proof (induction tok)
  case Nil
  then show ?case by (cases b) auto
qed auto

lemma Clear_Scratch_clean:
  assumes "c_str tok" and "set b \<subseteq> {NUL}"
  shows "set (Clear_Scratch (tok @ b)) \<subseteq> {NUL}"
proof (cases tok)
  case Nil
  then show ?thesis using assms Clear_Scratch_loop_clean [of "[]" "tl b"]
    by (cases b) (auto simp: Clear_Scratch_def)
next
  case (Cons c tok')
  then show ?thesis using assms Clear_Scratch_loop_clean [of tok' b] by (simp add: Clear_Scratch_def)
qed

lemma storeLabel_value:
  assumes "storeLabel src s = Inr (e, r, s')" and "clean s" and "c_str src"
  shows "Throwaway_token src = (e, r)" and "clean s'"
    and "ip s' = ip s" and "toggle s' = toggle s" and "ByteMode s' = ByteMode s"
    and "Architecture s' = Architecture s"
    and "jump_tables s' = add_entry (label_at src) (ip s) (jump_tables s)"
proof -
  obtain s1 where c: "consume_token src s = Inr (e, r, s1)"
    and s': "s' = s1\<lparr>scratch := Clear_Scratch (scratch s1),
                     jump_tables := add_entry (Copy_String (scratch s1)) (ip s1) (jump_tables s1)\<rparr>"
    using assms(1) by (auto simp: storeLabel_def Let_def)
  note v = consume_token_value [OF c]
  have n: "set (drop (length (label_at src)) (scratch s)) \<subseteq> {NUL}"
    using assms(2) by (auto simp: clean_def dest: in_set_dropD)
  have l: "c_str (label_at src)" using assms(3) by (rule label_at_c_str)
  show "Throwaway_token src = (e, r)" by (rule v(1))
  show "clean s'" using Clear_Scratch_clean [OF l n] by (simp add: clean_def s' v(2))
  show "ip s' = ip s" "toggle s' = toggle s" "ByteMode s' = ByteMode s" "Architecture s' = Architecture s"
    "jump_tables s' = add_entry (label_at src) (ip s) (jump_tables s)"
    using buffer_str_clean [OF l n] by (simp_all add: s' v(2) Copy_String_def)
qed

section \<open>The parts of a step, side by side\<close>

lemma digit_lock:
  assumes "f \<in> {hex, octal, binary}" and "f c src s1 = (d1, r1, s1')" and "f c src s2 = (d2, r2, s2')"
  shows "d1 = d2 \<and> r1 = r2 \<and> (\<exists>n. s1' = s1\<lparr>linenumber := n\<rparr>) \<and> (\<exists>n. s2' = s2\<lparr>linenumber := n\<rparr>)"
proof -
  have keep: "\<exists>n. s = s\<lparr>linenumber := n\<rparr>" for s :: hex2 by (rule exI [of _ "linenumber s"]) simp
  show ?thesis using assms
    by (auto simp: hex_def octal_def binary_def not_digit_def line_Comment_def split: if_splits intro: keep)
qed

lemma in_set_delim: "in_set c token_end \<Longrightarrow>
  \<not> in_set c ''0123456789'' \<and> \<not> in_set c ''abcdef'' \<and> \<not> in_set c ''ABCDEF'' \<and> \<not> in_set c ''#;'' \<and>
  \<not> in_set c ''01234567'' \<and> \<not> in_set c ''01'' \<and> \<not> in_set c pointer_chars \<and> c \<noteq> CHR ''<'' \<and> c \<noteq> CHR ''^'' \<and>
  c \<noteq> CHR ''.'' \<and> \<not> in_set c ''!@$~'' \<and> \<not> in_set c ''%&''"
  by (auto simp: in_set_iff)

text \<open>A delimiter, or the end of the file, is no digit and no comment.\<close>

lemma digit_delim:
  assumes "e = None \<or> (\<exists>c. e = Some c \<and> in_set c token_end)" and "f \<in> {hex, octal, binary}"
  shows "\<exists>n. f e r s = (None, r, s\<lparr>linenumber := n\<rparr>)"
proof -
  have keep: "\<exists>n. s = s\<lparr>linenumber := n\<rparr>" by (rule exI [of _ "linenumber s"]) simp
  show ?thesis using assms in_set_delim
    by (auto simp: hex_def octal_def binary_def not_digit_def in_set_eof_def intro: keep)
qed

lemma process_byte_delim:
  assumes "e = None \<or> (\<exists>c. e = Some c \<and> in_set c token_end)"
  shows "\<exists>n. process_byte e r w s = (r, s\<lparr>linenumber := n\<rparr>)"
  using digit_delim [OF assms, of hex r s] digit_delim [OF assms, of octal r s] digit_delim [OF assms, of binary r s]
  by (cases "ByteMode s") (auto simp: process_byte_def)

lemma DoByte_delim:
  assumes "e = None \<or> (\<exists>c. e = Some c \<and> in_set c token_end)"
  shows "\<exists>n. DoByte e r w u s = (r, s\<lparr>linenumber := n\<rparr>)"
  using digit_delim [OF assms, of hex r s] digit_delim [OF assms, of octal r s] digit_delim [OF assms, of binary r s]
  by (cases "ByteMode s") (auto simp: DoByte_def)

text \<open>What one part of a step does to the two states, if it stores no label.\<close>

definition lock :: "hex2 \<Rightarrow> hex2 \<Rightarrow> hex2 \<Rightarrow> hex2 \<Rightarrow> bool" where
  "lock s1 s2 s1' s2' \<longleftrightarrow> agree s1' s2' \<and> scratch s1' = scratch s1 \<and> jump_tables s1' = jump_tables s1 \<and> wrote s2 s2'"

lemma line_Comment_suffix: "\<exists>p. src = p @ line_Comment_loop src"
proof (induction src)
  case (Cons c src)
  then obtain p where "src = p @ line_Comment_loop src" ..
  then show ?case by (auto intro: exI [of _ "[c]"] exI [of _ "c # p"])
qed simp

lemma line_Comment_c_str: "c_str src \<Longrightarrow> c_str (line_Comment_loop src)"
  by (metis line_Comment_suffix c_str_simps(3))

lemma digit_c_str:
  "hex c src s = (d, r, s') \<Longrightarrow> c_str src \<Longrightarrow> c_str r" "octal c src s = (d, r, s') \<Longrightarrow> c_str src \<Longrightarrow> c_str r"
  "binary c src s = (d, r, s') \<Longrightarrow> c_str src \<Longrightarrow> c_str r"
  by (auto simp: hex_def octal_def binary_def not_digit_def line_Comment_def line_Comment_c_str split: if_splits)

lemma process_byte_lock:
  assumes a: "agree s1 s2" and 1: "process_byte c src False s1 = (r1, s1')" and 2: "process_byte c src True s2 = (r2, s2')"
  shows "r1 = r2 \<and> lock s1 s2 s1' s2' \<and> (c_str src \<longrightarrow> c_str r1)"
proof -
  note [simp] = lock_def agree_def wrote_def emit_byte_def fputc_def Let_def
  have m: "ByteMode s2 = ByteMode s1" using a by simp
  have one: "\<exists>bs. [b] = bs \<and> (1::u32) = of_nat (length bs)" for b :: u8 by auto
  show ?thesis
  proof (cases "ByteMode s1")
    case HEX
    obtain d r t1 t2 where "hex c src s1 = (d, r, t1)" "hex c src s2 = (d, r, t2)"
      "\<exists>n. t1 = s1\<lparr>linenumber := n\<rparr>" "\<exists>n. t2 = s2\<lparr>linenumber := n\<rparr>" "c_str src \<longrightarrow> c_str r"
      using digit_lock [of hex c src s1 _ _ _ s2] digit_c_str(1) by (metis insertI1 prod_cases3)
    then show ?thesis using 1 2 a m HEX one
      by (cases d) (auto simp: process_byte_def split: if_splits)
  next
    case OCTAL
    obtain d r t1 t2 where "octal c src s1 = (d, r, t1)" "octal c src s2 = (d, r, t2)"
      "\<exists>n. t1 = s1\<lparr>linenumber := n\<rparr>" "\<exists>n. t2 = s2\<lparr>linenumber := n\<rparr>" "c_str src \<longrightarrow> c_str r"
      using digit_lock [of octal c src s1 _ _ _ s2] digit_c_str(2) by (metis insertI1 insertI2 prod_cases3)
    then show ?thesis using 1 2 a m OCTAL one
      by (cases d) (auto simp: process_byte_def split: if_splits)
  next
    case BINARY
    obtain d r t1 t2 where "binary c src s1 = (d, r, t1)" "binary c src s2 = (d, r, t2)"
      "\<exists>n. t1 = s1\<lparr>linenumber := n\<rparr>" "\<exists>n. t2 = s2\<lparr>linenumber := n\<rparr>" "c_str src \<longrightarrow> c_str r"
      using digit_lock [of binary c src s1 _ _ _ s2] digit_c_str(3) by (metis insertI1 insertI2 prod_cases3)
    then show ?thesis using 1 2 a m BINARY one
      by (cases d) (auto simp: process_byte_def split: if_splits)
  qed
qed

lemma pad_to_align_lock:
  assumes "agree s1 s2"
  shows "lock s1 s2 (pad_to_align False s1) (pad_to_align True s2)"
  using assms
  by (auto simp: lock_def agree_def wrote_def pad_to_align_def fputc_def Let_def)

text \<open>The width of a pointer.\<close>

definition pointer_width :: "char \<Rightarrow> nat" where
  "pointer_width ch = (if in_set ch ''%&'' then 4 else if in_set ch ''@$'' then 2 else if ch = CHR ''~'' then 3 else 1)"

lemma Update_Pointer_value:
  "Update_Pointer ch s = Inr s' \<Longrightarrow> s' = s\<lparr>ip := ip s + of_nat (pointer_width ch)\<rparr>"
  by (auto simp: Update_Pointer_def pointer_width_def split: if_splits)

lemma put_pointer_value:
  assumes "put_pointer ch d tgt s = Inr s'"
  obtains bs where "s' = adds_bytes s bs" and "length bs = pointer_width ch"
proof -
  obtain v a where o: "outputPointer v (pointer_width ch) a s = Inr s'"
    using assms unfolding put_pointer_def pointer_width_def in_set_iff
    by (auto split: if_splits)
  show thesis using o by (rule outputPointer_bytes) (rule that)
qed

text \<open>Parts that change only the buffer and the alignment flag.\<close>

definition quiet :: "hex2 \<Rightarrow> hex2 \<Rightarrow> bool" where
  "quiet s s' \<longleftrightarrow> ip s' = ip s \<and> toggle s' = toggle s \<and> ByteMode s' = ByteMode s \<and>
     Architecture s' = Architecture s \<and> out_file s' = out_file s \<and> jump_tables s' = jump_tables s"

lemma quiet_simps [simp]: "quiet s s" "quiet s (s\<lparr>scratch := x\<rparr>)" "quiet s (s\<lparr>ALIGNED := b\<rparr>)"
  by (simp_all add: quiet_def)

lemma quiet_trans: "quiet s s' \<Longrightarrow> quiet s' s'' \<Longrightarrow> quiet s s''"
  by (simp add: quiet_def)

lemma consume_token_quiet: "consume_token src s = Inr (e, r, s') \<Longrightarrow> quiet s s'"
  by (drule consume_token_value(2)) simp

lemma displacement_quiet: "Architectural_displacement tgt bas s = Inr (d, s') \<Longrightarrow> quiet s s'"
  by (auto simp: Architectural_displacement_def Let_def split: arch.splits if_splits)

lemma pointer_displacement_value:
  assumes "pointer_displacement tgt sep src s = Inr (d, r, s')"
  shows "r = (if sep = Some (CHR ''>'') then snd (Throwaway_token src) else src)" and "quiet s s'"
proof -
  show "r = (if sep = Some (CHR ''>'') then snd (Throwaway_token src) else src)"
    using assms by (auto simp: pointer_displacement_def split: if_splits dest: consume_token_value(1))
  show "quiet s s'" using assms
    by (auto simp: pointer_displacement_def split: if_splits
        dest: consume_token_quiet displacement_quiet intro: quiet_trans [OF quiet_simps(2)])
qed

lemma skip_pointer_c_str: "c_str src \<Longrightarrow> c_str (skip_pointer src)"
  using Throwaway_c_str [of src] Throwaway_c_str [of "snd (Throwaway_token src)"]
  by (cases "Throwaway_token src") (simp add: skip_pointer_def)

lemma wrote_width:
  assumes "quiet (s\<lparr>ip := ip s + of_nat (length bs)\<rparr>) t"
  shows "wrote s (adds_bytes t bs)"
  using assms by (auto simp: quiet_def wrote_def adds_bytes_def)

lemma storePointer_value:
  assumes "storePointer ch src s = Inr (r, s')"
  shows "r = skip_pointer src" and "wrote s s'" and "ip s' = ip s + of_nat (pointer_width ch)"
    and "toggle s' = toggle s" and "ByteMode s' = ByteMode s" and "Architecture s' = Architecture s"
proof -
  let ?s0 = "s\<lparr>scratch := Clear_Scratch (scratch s)\<rparr>"
  obtain s1 e src2 s2 tgt d s3 where
    1: "Update_Pointer ch ?s0 = Inr s1" and 2: "consume_token src s1 = Inr (e, src2, s2)"
    and 3: "pointer_displacement tgt e src2 s2 = Inr (d, r, s3)" and 4: "put_pointer ch d tgt s3 = Inr s'"
    using assms unfolding storePointer_def by auto
  obtain bs where bs: "s' = adds_bytes s3 bs" "length bs = pointer_width ch" using 4 by (rule put_pointer_value)
  have s1: "quiet (s\<lparr>ip := ip s + of_nat (pointer_width ch)\<rparr>) s1"
    using Update_Pointer_value [OF 1] by (simp add: quiet_def)
  have q: "quiet (s\<lparr>ip := ip s + of_nat (length bs)\<rparr>) s3"
    unfolding bs(2) using s1 consume_token_quiet [OF 2] pointer_displacement_value(2) [OF 3] by (blast intro: quiet_trans)
  show "r = skip_pointer src"
    using pointer_displacement_value(1) [OF 3] consume_token_value(1) [OF 2] by (simp add: skip_pointer_def)
  show "wrote s s'" unfolding bs(1) using q by (rule wrote_width)
  show "ip s' = ip s + of_nat (pointer_width ch)" "toggle s' = toggle s" "ByteMode s' = ByteMode s"
    "Architecture s' = Architecture s"
    using q bs by (simp_all add: quiet_def adds_bytes_def)
qed

section \<open>The contract of a pair of steps\<close>

text \<open>
  \<open>runs step src s ls t\<close>: reading \<open>src\<close> step by step leads from \<open>s\<close> to \<open>t\<close>, past the labels \<open>ls\<close>, each with
  the length of the output file where it stands.
\<close>

type_synonym hex2_step = "char \<Rightarrow> string \<Rightarrow> hex2 \<Rightarrow> hex2_error + string \<times> hex2"

inductive runs :: "hex2_step \<Rightarrow> string \<Rightarrow> hex2 \<Rightarrow> (string \<times> nat) list \<Rightarrow> hex2 \<Rightarrow> bool" for step where
  runs_end: "runs step [] s [] s"
| runs_step: "step c src s = Inr (src', s') \<Longrightarrow> runs step src' s' ls t \<Longrightarrow>
    runs step (c # src) s ((if c = CHR '':'' then [(label_at src, length (out_file s))] else []) @ ls) t"

inductive_cases runs_NilE: "runs step [] s ls t"
inductive_cases runs_ConsE: "runs step (c # src) s ls t"
inductive_simps runs_Nil: "runs step [] s ls t"
inductive_simps runs_Cons: "runs step (c # src) s ls t"

lemma runs_ex:
  "(\<exists>ls. runs step [] s ls t) \<longleftrightarrow> s = t"
  "(\<exists>ls. runs step (c # src) s ls t) \<longleftrightarrow>
     (\<exists>src' s'. step c src s = Inr (src', s') \<and> (\<exists>ls. runs step src' s' ls t))"
  unfolding runs_Nil runs_Cons by blast+

locale two_pass =
  fixes step1 step2 :: hex2_step
  assumes in_step: "agree s1 s2 \<Longrightarrow> clean s1 \<Longrightarrow> c_str src \<Longrightarrow> step1 c src s1 = Inr (r1, s1') \<Longrightarrow>
      step2 c src s2 = Inr (r2, s2') \<Longrightarrow>
      r1 = r2 \<and> c_str r1 \<and> agree s1' s2' \<and> clean s1' \<and> wrote s2 s2' \<and>
      jump_tables s1' = (if c = CHR '':'' then add_entry (label_at src) (ip s1) (jump_tables s1) else jump_tables s1)"
    and silent: "step1 c src s = Inr (r, s') \<Longrightarrow>
      ByteMode s' = ByteMode s \<and> Architecture s' = Architecture s \<and> out_file s' = out_file s"
begin

text \<open>
  Side by side over a whole file: the passes end at the same address, and the first pass has
  stored exactly the labels the second pass comes across, each with its place in the output.
\<close>

lemma layout:
  assumes "runs step2 src s2 ls t2" and "runs step1 src s1 ls1 t1" and "agree s1 s2" and "clean s1" and "c_str src"
    and "ip s2 = bas + of_nat (length (out_file s2))"
  shows "agree t1 t2 \<and> clean t1 \<and> wrote s2 t2 \<and> ip t2 = bas + of_nat (length (out_file t2)) \<and>
    jump_tables t1 = hl.put_all (map (\<lambda>(l, n). (l, bas + of_nat n)) ls) (jump_tables s1) \<and>
    (\<forall>(l, n) \<in> set ls. c_str l \<and> n \<le> length (out_file t2))"
  using assms
proof (induction arbitrary: s1 ls1 rule: runs.induct)
  case (runs_end s)
  then show ?case by (auto elim!: runs_NilE simp: hl.put_all_def wrote_length)
next
  case (runs_step c src s src' s' ls t)
  obtain r1 s1' ls1' where 1: "step1 c src s1 = Inr (r1, s1')" "runs step1 r1 s1' ls1' t1"
    using runs_step.prems(1) by (rule runs_ConsE) blast
  have "c_str src" using runs_step.prems(4) by simp
  note st = in_step [OF runs_step.prems(2,3) this 1(1) runs_step.hyps(1)]
  have ip': "ip s' = bas + of_nat (length (out_file s'))"
    using st runs_step.prems(5) by (auto simp: wrote_def)
  have ips: "ip s1 = bas + of_nat (length (out_file s))"
    using runs_step.prems(2,5) by (simp add: agree_def)
  have "agree t1 t \<and> clean t1 \<and> wrote s' t \<and> ip t = bas + of_nat (length (out_file t)) \<and>
    jump_tables t1 = hl.put_all (map (\<lambda>(l, n). (l, bas + of_nat n)) ls) (jump_tables s1') \<and>
    (\<forall>(l, n) \<in> set ls. c_str l \<and> n \<le> length (out_file t))"
    using st 1(2) ip' by (intro runs_step.IH) auto
  then show ?case using st ips wrote_trans [of s s' t] wrote_length [of s t] label_at_c_str [OF \<open>c_str src\<close>]
    by (auto simp: hl.put_all_def)
qed

end

text \<open>
  A pass over the chain of files, oldest first; \<open>ini\<close> is what the pass sets before each file.
\<close>

inductive passes :: "hex2_step \<Rightarrow> (hex2 \<Rightarrow> hex2) \<Rightarrow> (string \<Rightarrow> string option) \<Rightarrow> string list \<Rightarrow>
    hex2 \<Rightarrow> (string \<times> nat) list \<Rightarrow> hex2 \<Rightarrow> bool" for step ini files where
  passes_end: "passes step ini files [] s [] s"
| passes_file: "passes step ini files input s ls t \<Longrightarrow> files f = Some src \<Longrightarrow> runs step src (ini t) ls' u \<Longrightarrow>
    passes step ini files (f # input) s (ls @ ls') u"

inductive_cases passes_NilE: "passes step ini files [] s ls t"
inductive_cases passes_ConsE: "passes step ini files (f # input) s ls t"
inductive_simps passes_Nil: "passes step ini files [] s ls t"
inductive_simps passes_Cons: "passes step ini files (f # input) s ls t"

lemma passes_ex:
  "(\<exists>ls. passes step ini files [] s ls t) \<longleftrightarrow> s = t"
  "(\<exists>ls. passes step ini files (f # input) s ls t) \<longleftrightarrow>
     (\<exists>m src. (\<exists>ls. passes step ini files input s ls m) \<and> files f = Some src \<and> (\<exists>ls. runs step src (ini m) ls t))"
  unfolding passes_Nil passes_Cons by blast+

abbreviation ini1 :: "hex2 \<Rightarrow> hex2" where "ini1 s \<equiv> s\<lparr>linenumber := 1, toggle := 0\<rparr>"
abbreviation ini2 :: "hex2 \<Rightarrow> hex2" where "ini2 s \<equiv> s\<lparr>linenumber := 1, toggle := 0, hold := 0\<rparr>"

context two_pass begin

lemma runs_silent:
  "runs step1 src s ls t \<Longrightarrow> ByteMode t = ByteMode s \<and> Architecture t = Architecture s \<and> out_file t = out_file s"
  by (induction rule: runs.induct) (auto dest: silent)

lemma passes_silent:
  "passes step1 ini1 files input s ls t \<Longrightarrow>
     ByteMode t = ByteMode s \<and> Architecture t = Architecture s \<and> out_file t = out_file s"
  by (induction rule: passes.induct) (auto dest: runs_silent)

lemma program_layout:
  assumes "passes step2 ini2 files input s2 ls t2" and "passes step1 ini1 files input s1 ls1 t1"
    and "agree (ini1 s1) (ini2 s2)" and "clean s1" and "\<forall>f src. files f = Some src \<longrightarrow> c_str src"
    and "ip s2 = bas + of_nat (length (out_file s2))"
  shows "agree (ini1 t1) (ini2 t2) \<and> clean t1 \<and> wrote s2 t2 \<and> ip t2 = bas + of_nat (length (out_file t2)) \<and>
    jump_tables t1 = hl.put_all (map (\<lambda>(l, n). (l, bas + of_nat n)) ls) (jump_tables s1) \<and>
    (\<forall>(l, n) \<in> set ls. c_str l \<and> n \<le> length (out_file t2))"
  using assms
proof (induction arbitrary: ls1 t1 rule: passes.induct)
  case (passes_end s)
  then show ?case by (auto elim!: passes_NilE simp: hl.put_all_def)
next
  case (passes_file input s ls t f src ls' u)
  obtain m1 la lb where 1: "passes step1 ini1 files input s1 la m1" "runs step1 src (ini1 m1) lb t1"
    using passes_file.prems(1) passes_file.hyps(2) by (auto elim: passes_ConsE)
  have p: "agree (ini1 m1) (ini2 t) \<and> clean m1 \<and> wrote s t \<and> ip t = bas + of_nat (length (out_file t)) \<and>
    jump_tables m1 = hl.put_all (map (\<lambda>(l, n). (l, bas + of_nat n)) ls) (jump_tables s1) \<and>
    (\<forall>(l, n) \<in> set ls. c_str l \<and> n \<le> length (out_file t))"
    using passes_file.IH [OF 1(1) passes_file.prems(2-5)] .
  have q: "agree t1 u \<and> clean t1 \<and> wrote (ini2 t) u \<and> ip u = bas + of_nat (length (out_file u)) \<and>
    jump_tables t1 = hl.put_all (map (\<lambda>(l, n). (l, bas + of_nat n)) ls') (jump_tables (ini1 m1)) \<and>
    (\<forall>(l, n) \<in> set ls'. c_str l \<and> n \<le> length (out_file u))"
    using p passes_file.prems(4) passes_file.hyps(2)
    by (intro layout [OF passes_file.hyps(3) 1(2)]) (auto simp: agree_def clean_def)
  have w: "wrote t u" using q by (auto simp: wrote_def)
  have g: "agree (ini1 t1) (ini2 u)" using q by (simp add: agree_def)
  have b: "\<forall>(l, n) \<in> set (ls @ ls'). c_str l \<and> n \<le> length (out_file u)"
    using p q wrote_length [OF w] by auto
  have j: "jump_tables t1 = hl.put_all (map (\<lambda>(l, n). (l, bas + of_nat n)) (ls @ ls')) (jump_tables s1)"
    using p q by (simp add: hl.put_all_def)
  show ?case using p q g b j wrote_trans [OF _ w] by blast
qed

text \<open>So every label that is defined once has the address of the byte written next.\<close>

lemma labels_right:
  assumes "passes step2 ini2 files input s2 ls t2" and "passes step1 ini1 files input s1 ls1 t1"
    and "agree (ini1 s1) (ini2 s2)" and "clean s1" and "\<forall>f src. files f = Some src \<longrightarrow> c_str src"
    and "ip s2 = bas" and "out_file s2 = []" and "jump_tables s1 = (\<lambda>_. [])" and "distinct (map fst ls)"
    and "(l, n) \<in> set ls"
  shows "GetTarget (jump_tables t1) l = Inr (bas + of_nat n) \<and> n \<le> length (out_file t2)"
proof -
  have lay: "jump_tables t1 = hl.put_all (map (\<lambda>(l, n). (l, bas + of_nat n)) ls) (\<lambda>_. [])"
    "\<forall>(l, n) \<in> set ls. c_str l \<and> n \<le> length (out_file t2)"
    using program_layout [OF assms(1-5), of bas] assms(6-8) by auto
  define M where "M = map (\<lambda>(l, n). (l, bas + of_nat n)) ls"
  have "map fst M = map fst ls" by (simp add: M_def split_beta comp_def)
  then have "distinct (map fst M)" using assms(9) by simp
  moreover have "(l, bas + of_nat n) \<in> set M" using assms(10) by (force simp: M_def)
  moreover have "\<forall>(l, t) \<in> set M. c_str l" using lay(2) by (auto simp: M_def)
  ultimately have "GetTarget (hl.put_all M (\<lambda>_. [])) l = Inr (bas + of_nat n)" by (rule hl.get_distinct)
  then show ?thesis using lay assms(10) by (auto simp: M_def)
qed

end

end
