(* ===== verification/Hex2Passes.thy ===== *)
theory Hex2Passes
  imports Hex2Layout
begin

text \<open>
  The contract \<open>two_pass\<close> holds of the steps of both modes of the linker, and what that means
  for whole programs.
\<close>

section \<open>Byte mode\<close>

text \<open>The turn of the first pass at a label, whatever handles the delimiter behind it.\<close>

lemma label_turn:
  assumes "storeLabel src s1 = Inr (e, r, s1a)" and "clean s1" and "c_str src" and "agree s1 s2"
  shows "r = snd (Throwaway_token src)" and "c_str r" and "agree (s1a\<lparr>linenumber := n\<rparr>) s2"
    and "clean (s1a\<lparr>linenumber := n\<rparr>)"
    and "jump_tables (s1a\<lparr>linenumber := n\<rparr>) = add_entry (label_at src) (ip s1) (jump_tables s1)"
    and "e = None \<or> (\<exists>c. e = Some c \<and> in_set c token_end)"
proof -
  note v = storeLabel_value [OF assms(1-3)]
  show "r = snd (Throwaway_token src)" using v(1) by simp
  then show "c_str r" using Throwaway_c_str [OF assms(3)] by simp
  show "agree (s1a\<lparr>linenumber := n\<rparr>) s2" using v(3-6) assms(4) by (simp add: agree_def)
  show "clean (s1a\<lparr>linenumber := n\<rparr>)" using v(2) by (simp add: clean_def)
  show "jump_tables (s1a\<lparr>linenumber := n\<rparr>) = add_entry (label_at src) (ip s1) (jump_tables s1)" by (simp add: v)
  show "e = None \<or> (\<exists>c. e = Some c \<and> in_set c token_end)" using v(1) by (rule Throwaway_end)
qed

lemma first_step_label:
  assumes "first_step (CHR '':'') src s1 = Inr (r1, s1')" and "clean s1" and "c_str src"
  obtains e r s1a n where "storeLabel src s1 = Inr (e, r, s1a)" and "r1 = r" and "s1' = s1a\<lparr>linenumber := n\<rparr>"
proof -
  obtain e r s1a where st: "storeLabel src s1 = Inr (e, r, s1a)" using assms(1) by (auto simp: first_step_def)
  then have e: "e = None \<or> (\<exists>c. e = Some c \<and> in_set c token_end)"
    using storeLabel_value(1) assms(2,3) Throwaway_end by blast
  then obtain n where "process_byte e r False s1a = (r, s1a\<lparr>linenumber := n\<rparr>)" using process_byte_delim by blast
  moreover have "\<not> in_set_eof e pointer_chars" "e \<noteq> Some (CHR ''<'')" "e \<noteq> Some (CHR ''^'')"
    using e in_set_delim by (auto simp: in_set_eof_def)
  ultimately show thesis using assms(1) st that [OF st, of n] by (auto simp: first_step_def)
qed

lemma byte_in_step:
  assumes a: "agree s1 s2" and cl: "clean s1" and cs: "c_str src"
    and 1: "first_step c src s1 = Inr (r1, s1')" and 2: "second_step c src s2 = Inr (r2, s2')"
  shows "r1 = r2 \<and> c_str r1 \<and> agree s1' s2' \<and> clean s1' \<and> wrote s2 s2' \<and>
      jump_tables s1' = (if c = CHR '':'' then add_entry (label_at src) (ip s1) (jump_tables s1) else jump_tables s1)"
proof -
  consider (label) "c = CHR '':''" | (ptr) "c \<noteq> CHR '':''" "in_set c pointer_chars"
    | (pad) "c \<noteq> CHR '':''" "\<not> in_set c pointer_chars" "c = CHR ''<''"
    | (align) "c \<noteq> CHR '':''" "\<not> in_set c pointer_chars" "c \<noteq> CHR ''<''" "c = CHR ''^''"
    | (byte) "c \<noteq> CHR '':''" "\<not> in_set c pointer_chars" "c \<noteq> CHR ''<''" "c \<noteq> CHR ''^''" by blast
  then show ?thesis
  proof cases
    case label
    obtain e r s1a n where st: "storeLabel src s1 = Inr (e, r, s1a)" "r1 = r" "s1' = s1a\<lparr>linenumber := n\<rparr>"
      using first_step_label [OF 1 [unfolded label] cl cs] .
    have "r2 = snd (Throwaway_token src)" "s2' = s2" using 2 label by (simp_all add: second_step_def)
    then show ?thesis using label_turn [OF st(1) cl cs a] st(2,3) label by simp
  next
    case ptr
    then obtain t where t: "Update_Pointer c s1 = Inr t" "r1 = skip_pointer src" "s1' = t"
      using 1 by (auto simp: first_step_def in_set_eof_def)
    have sp: "storePointer c src s2 = Inr (r2, s2')" using 2 ptr by (simp add: second_step_def)
    show ?thesis using storePointer_value [OF sp] Update_Pointer_value [OF t(1)] t a cl ptr skip_pointer_c_str [OF cs]
      by (simp add: agree_def clean_def)
  next
    case pad
    then have "r1 = src" "r2 = src" "s1' = pad_to_align False s1" "s2' = pad_to_align True s2"
      using 1 2 by (auto simp: first_step_def second_step_def in_set_eof_def)
    then show ?thesis using pad_to_align_lock [OF a] cl cs pad by (simp add: lock_def clean_def)
  next
    case align
    then have "r1 = src" "r2 = src" "s1' = s1" "s2' = s2\<lparr>ALIGNED := True\<rparr>"
      using 1 2 by (auto simp: first_step_def second_step_def in_set_eof_def)
    then show ?thesis using a cl cs align by (simp add: agree_def wrote_def)
  next
    case byte
    then have "process_byte (Some c) src False s1 = (r1, s1')" "process_byte (Some c) src True s2 = (r2, s2')"
      using 1 2 by (auto simp: first_step_def second_step_def in_set_eof_def)
    then show ?thesis using process_byte_lock [OF a] cl cs byte by (auto simp: lock_def clean_def)
  qed
qed

text \<open>The first pass writes nothing and keeps the settings.\<close>

lemma process_byte_silent:
  "process_byte c src False s = (r, s') \<Longrightarrow>
     ByteMode s' = ByteMode s \<and> Architecture s' = Architecture s \<and> out_file s' = out_file s"
proof -
  have "\<And>f d. f \<in> {hex, octal, binary} \<Longrightarrow> f c src s = (d, r, s'') \<Longrightarrow> \<exists>n. s'' = s\<lparr>linenumber := n\<rparr>" for s''
    using digit_lock by blast
  then show "process_byte c src False s = (r, s') \<Longrightarrow> ?thesis"
    by (cases "ByteMode s")
      (force simp: process_byte_def emit_byte_def Let_def split: prod.splits option.splits if_splits)+
qed

lemma pad_to_align_silent:
  "ByteMode (pad_to_align False s) = ByteMode s \<and> Architecture (pad_to_align False s) = Architecture s \<and>
   out_file (pad_to_align False s) = out_file s"
  by (simp add: pad_to_align_def Let_def)

lemma storeLabel_silent:
  "storeLabel src s = Inr (e, r, s') \<Longrightarrow>
     ByteMode s' = ByteMode s \<and> Architecture s' = Architecture s \<and> out_file s' = out_file s"
  by (auto simp: storeLabel_def Let_def dest!: consume_token_quiet simp: quiet_def)

lemma first_step_silent:
  assumes "first_step c src s = Inr (r, s')"
  shows "ByteMode s' = ByteMode s \<and> Architecture s' = Architecture s \<and> out_file s' = out_file s"
proof -
  obtain c1 src1 s1 where
    1: "(if c = CHR '':'' then storeLabel src s else Inr (Some c, src, s)) = Inr (c1, src1, s1)"
    and 2: "(if in_set_eof c1 pointer_chars
      then bindE (Update_Pointer (the c1) s1) (\<lambda>s. Inr (skip_pointer src1, s))
      else if c1 = Some (CHR ''<'') then Inr (src1, pad_to_align False s1)
      else if c1 = Some (CHR ''^'') then Inr (src1, s1)
      else Inr (process_byte c1 src1 False s1)) = Inr (r, s')"
    using assms unfolding first_step_def bindE_Inr_iff by auto
  have "ByteMode s1 = ByteMode s \<and> Architecture s1 = Architecture s \<and> out_file s1 = out_file s"
    using 1 by (auto split: if_splits dest: storeLabel_silent)
  moreover have "ByteMode s' = ByteMode s1 \<and> Architecture s' = Architecture s1 \<and> out_file s' = out_file s1"
    using 2 pad_to_align_silent [of s1] by (auto split: if_splits dest: Update_Pointer_value process_byte_silent)
  ultimately show ?thesis by simp
qed

interpretation byte_mode: two_pass first_step second_step
  by unfold_locales (rule byte_in_step, assumption+, rule first_step_silent)

section \<open>Word mode\<close>

text \<open>The digit \<open>DoByte\<close> reads, and what it does with a digit.\<close>

definition read_digit :: digit_reader where
  "read_digit c src s = (case ByteMode s of HEX \<Rightarrow> hex c src s | OCTAL \<Rightarrow> octal c src s | BINARY \<Rightarrow> binary c src s)"

definition use_digit :: "bool \<Rightarrow> bool \<Rightarrow> u32 \<Rightarrow> hex2 \<Rightarrow> hex2" where
  "use_digit w u d s =
    (case ByteMode s of
       HEX \<Rightarrow> if toggle s \<noteq> 0 then (do_byte w u (hold s * 16 + d) s)\<lparr>toggle := 0\<rparr> else s\<lparr>hold := d, toggle := 1\<rparr>
     | OCTAL \<Rightarrow> if toggle s = 2 then (do_byte w u (hold s * 8 + d) s)\<lparr>toggle := 0\<rparr>
         else if toggle s = 1 then s\<lparr>hold := hold s * 8 + d, toggle := 2\<rparr> else s\<lparr>hold := d, toggle := 1\<rparr>
     | BINARY \<Rightarrow> if toggle s = 7 then (do_byte w u (hold s * 2 + d) s)\<lparr>toggle := 0\<rparr>
         else s\<lparr>hold := hold s * 2 + d, toggle := toggle s + 1\<rparr>)"

lemma read_digit_line: "read_digit c src s = (d, r, s') \<Longrightarrow> \<exists>n. s' = s\<lparr>linenumber := n\<rparr>"
  using digit_lock [of hex c src s d r s' s d r s'] digit_lock [of octal c src s d r s' s d r s']
    digit_lock [of binary c src s d r s' s d r s']
  by (cases "ByteMode s") (auto simp: read_digit_def)

lemma DoByte_digit:
  "DoByte c src w u s =
    (case read_digit c src s of (None, r, s) \<Rightarrow> (r, s) | (Some d, r, s) \<Rightarrow> (r, use_digit w u d s))"
proof -
  have "ByteMode s' = ByteMode s" if "read_digit c src s = (d, r, s')" for d r s'
    using read_digit_line [OF that] by auto
  then show ?thesis
    by (cases "ByteMode s") (auto simp: DoByte_def read_digit_def use_digit_def split: prod.splits option.splits)
qed

lemma read_digit_lock:
  assumes "ByteMode s1 = ByteMode s2" and "read_digit c src s1 = (d1, r1, s1')" and "read_digit c src s2 = (d2, r2, s2')"
  shows "d1 = d2 \<and> r1 = r2 \<and> (c_str src \<longrightarrow> c_str r1)"
  using assms digit_lock [of hex c src s1 d1 r1 s1' s2 d2 r2 s2'] digit_lock [of octal c src s1 d1 r1 s1' s2 d2 r2 s2']
    digit_lock [of binary c src s1 d1 r1 s1' s2 d2 r2 s2']
  by (cases "ByteMode s2") (auto simp: read_digit_def dest: digit_c_str)

text \<open>
  A digit completes a byte or not. If it does, \<open>ip\<close> moves by one, a byte is written if \<open>w\<close> and the
  word is updated if \<open>u\<close>; nothing else that the passes compare is changed.
\<close>

definition completes :: "hex2 \<Rightarrow> bool" where
  "completes s = (case ByteMode s of HEX \<Rightarrow> toggle s \<noteq> 0 | OCTAL \<Rightarrow> toggle s = 2 | BINARY \<Rightarrow> toggle s = 7)"

definition next_toggle :: "hex2 \<Rightarrow> nat" where
  "next_toggle s = (if completes s then 0
     else case ByteMode s of HEX \<Rightarrow> 1 | OCTAL \<Rightarrow> (if toggle s = 1 then 2 else 1) | BINARY \<Rightarrow> toggle s + 1)"

lemma completes_line [simp]: "completes (s\<lparr>linenumber := n\<rparr>) = completes s" "next_toggle (s\<lparr>linenumber := n\<rparr>) = next_toggle s"
  by (cases "ByteMode s"; simp add: completes_def next_toggle_def)+

lemma use_digit_fields [simp]:
  "ByteMode (use_digit w u d s) = ByteMode s" "Architecture (use_digit w u d s) = Architecture s"
  "scratch (use_digit w u d s) = scratch s" "jump_tables (use_digit w u d s) = jump_tables s"
  "toggle (use_digit w u d s) = next_toggle s"
  "ip (use_digit w u d s) = ip s + of_bool (completes s)"
  "updates (use_digit w u d s) = updates s + of_bool (completes s \<and> u)"
  by (cases "ByteMode s"; simp add: use_digit_def do_byte_def sr_nextb_def fputc_def Let_def
      completes_def next_toggle_def)+

lemma use_digit_out: "\<exists>b. out_file (use_digit w u d s) = out_file s @ (if completes s \<and> w then [b] else [])"
  by (cases "ByteMode s") (auto simp: use_digit_def do_byte_def sr_nextb_def fputc_def Let_def completes_def)

lemma DoByte_effect:
  assumes "DoByte c src w u s = (r, s')"
  obtains k b where "scratch s' = scratch s" and "jump_tables s' = jump_tables s"
    and "ip s' = ip s + of_bool k" and "updates s' = updates s + of_bool (k \<and> u)"
    and "out_file s' = out_file s @ (if k \<and> w then [b] else [])"
proof -
  obtain d r' t where rd: "read_digit c src s = (d, r', t)" by (cases "read_digit c src s") auto
  obtain n where t: "t = s\<lparr>linenumber := n\<rparr>" using read_digit_line [OF rd] by blast
  show ?thesis
  proof (cases d)
    case None
    then have "s' = s\<lparr>linenumber := n\<rparr>" using assms rd t by (simp add: DoByte_digit)
    then show ?thesis by (intro that [of False]) simp_all
  next
    case (Some x)
    then have s': "s' = use_digit w u x t" using assms rd by (simp add: DoByte_digit)
    obtain b where "out_file s' = out_file s @ (if completes s \<and> w then [b] else [])"
      using use_digit_out [of w u x t] by (auto simp: s' t)
    then show ?thesis by (intro that [of "completes s" b]) (simp_all add: s' t)
  qed
qed

lemma DoByte_wrote: "DoByte c src True u s = (r, s') \<Longrightarrow> wrote s s'"
  by (erule DoByte_effect) (auto simp: wrote_def)

lemma DoByte_lock:
  assumes a: "agree s1 s2" and 1: "DoByte c src w1 u s1 = (r1, s1')" and 2: "DoByte c src w2 u s2 = (r2, s2')"
  shows "r1 = r2" and "c_str src \<Longrightarrow> c_str r1" and "agree s1' s2'"
    and "updates s1 = updates s2 \<Longrightarrow> updates s1' = updates s2'"
proof -
  obtain d1 q1 t1 where rd1: "read_digit c src s1 = (d1, q1, t1)" by (cases "read_digit c src s1") auto
  obtain d2 q2 t2 where rd2: "read_digit c src s2 = (d2, q2, t2)" by (cases "read_digit c src s2") auto
  have l: "d1 = d2" "q1 = q2" "c_str src \<longrightarrow> c_str q1" using read_digit_lock [OF _ rd1 rd2] a by (auto simp: agree_def)
  obtain n1 where t1: "t1 = s1\<lparr>linenumber := n1\<rparr>" using read_digit_line [OF rd1] by blast
  obtain n2 where t2: "t2 = s2\<lparr>linenumber := n2\<rparr>" using read_digit_line [OF rd2] by blast
  have r: "r1 = q1" "r2 = q2" using 1 2 rd1 rd2 by (auto simp: DoByte_digit split: option.splits)
  then show "r1 = r2" "c_str src \<Longrightarrow> c_str r1" using l by auto
  have c: "completes s1 = completes s2" "next_toggle s1 = next_toggle s2"
    using a by (cases "ByteMode s2"; simp add: agree_def completes_def next_toggle_def)+
  have "agree s1' s2' \<and> (updates s1 = updates s2 \<longrightarrow> updates s1' = updates s2')"
  proof (cases d1)
    case None
    then have "s1' = t1" "s2' = t2" using 1 2 rd1 rd2 l by (simp_all add: DoByte_digit)
    then show ?thesis using a by (simp add: t1 t2 agree_def)
  next
    case (Some x)
    then have "s1' = use_digit w1 u x t1" "s2' = use_digit w2 u x t2"
      using 1 2 rd1 rd2 l by (auto simp: DoByte_digit)
    then show ?thesis using a c by (simp add: t1 t2 agree_def)
  qed
  then show "agree s1' s2'" "updates s1 = updates s2 \<Longrightarrow> updates s1' = updates s2'" by auto
qed

lemma read_word_lock:
  assumes "agree s1 s2" and "updates s1 = updates s2" and "read_word src s1 = Inr (r1, s1')" and "read_word src s2 = Inr (r2, s2')"
  shows "r1 = r2 \<and> agree s1' s2' \<and> (c_str src \<longrightarrow> c_str r1)"
  using assms
proof (induction src s1 arbitrary: s2 rule: read_word.induct)
  case (1 src s1)
  show ?case
  proof (cases "updates s1 < 4")
    case False
    then have "read_word src s1 = Inr (src, s1)" "read_word src s2 = Inr (src, s2)"
      using "1.prems"(2) by (simp_all add: read_word.simps [of src s1] read_word.simps [of src s2])
    then show ?thesis using "1.prems" by auto
  next
    case True
    then obtain c src1 where src: "src = c # src1" using "1.prems"(3)
      by (cases src) (auto simp: read_word.simps [of "[]" s1])
    obtain q1 t1 where b1: "DoByte (Some c) src1 False True s1 = (q1, t1)" by fastforce
    obtain q2 t2 where b2: "DoByte (Some c) src1 False True s2 = (q2, t2)" by fastforce
    note l = DoByte_lock [OF "1.prems"(1) b1 b2]
    have "read_word q1 t1 = Inr (r1, s1')" "read_word q1 t2 = Inr (r2, s2')"
      using "1.prems"(2-4) True src b1 b2 l
      by (simp_all add: read_word.simps [of "c # src1" s1] read_word.simps [of "c # src1" s2])
    then show ?thesis using "1.IH" [OF True src b1 [symmetric], of t2] l "1.prems"(2) src by auto
  qed
qed

lemma read_word_effect:
  assumes "read_word src s = Inr (r, s')" and "updates s \<le> 4"
  shows "ip s' = ip s + of_nat (4 - updates s) \<and> scratch s' = scratch s \<and> jump_tables s' = jump_tables s \<and> out_file s' = out_file s"
  using assms
proof (induction src s rule: read_word.induct)
  case (1 src s)
  show ?case
  proof (cases "updates s < 4")
    case False
    then show ?thesis using "1.prems" by (simp add: read_word.simps [of src s])
  next
    case True
    then obtain c src1 where src: "src = c # src1" using "1.prems"(1)
      by (cases src) (auto simp: read_word.simps [of "[]" s])
    obtain q t where b: "DoByte (Some c) src1 False True s = (q, t)" by fastforce
    have "read_word q t = Inr (r, s')" using "1.prems"(1) True src b
      by (simp add: read_word.simps [of "c # src1" s])
    moreover obtain k x where e: "scratch t = scratch s" "jump_tables t = jump_tables s" "ip t = ip s + of_bool k"
      "updates t = updates s + of_bool k" "out_file t = out_file s"
      using b by (rule DoByte_effect) auto
    then have "updates t \<le> 4" using True by auto
    ultimately have "ip s' = ip t + of_nat (4 - updates t) \<and> scratch s' = scratch t \<and>
        jump_tables s' = jump_tables t \<and> out_file s' = out_file t"
      using "1.IH" [OF True src b [symmetric]] by simp
    then show ?thesis using e True by (cases k) (auto simp: of_nat_diff)
  qed
qed

lemma WordStorePointer_value:
  assumes "WordStorePointer ch src s = Inr (r, s')"
  shows "r = skip_pointer src" and "wrote s s'" and "ip s' = ip s + 4"
    and "toggle s' = toggle s" and "ByteMode s' = ByteMode s" and "Architecture s' = Architecture s"
proof -
  let ?s1 = "s\<lparr>ip := ip s + 4, scratch := Clear_Scratch (scratch s)\<rparr>"
  obtain e src2 s2 tgt d s3 v a where
    2: "consume_token src ?s1 = Inr (e, src2, s2)"
    and 3: "pointer_displacement tgt e src2 s2 = Inr (d, r, s3)" and 4: "outputPointer v 4 a s3 = Inr s'"
    using assms unfolding WordStorePointer_def by (auto split: if_splits)
  obtain bs where bs: "s' = adds_bytes s3 bs" "length bs = 4" using 4 by (rule outputPointer_bytes)
  have q: "quiet (s\<lparr>ip := ip s + of_nat (length bs)\<rparr>) s3"
    using consume_token_quiet [OF 2] pointer_displacement_value(2) [OF 3] by (simp add: bs(2) quiet_def)
  show "r = skip_pointer src"
    using pointer_displacement_value(1) [OF 3] consume_token_value(1) [OF 2] by (simp add: skip_pointer_def)
  show "wrote s s'" unfolding bs(1) using q by (rule wrote_width)
  show "ip s' = ip s + 4" "toggle s' = toggle s" "ByteMode s' = ByteMode s" "Architecture s' = Architecture s"
    using q bs by (simp_all add: quiet_def adds_bytes_def)
qed

lemma UpdateShiftRegister_quiet: "UpdateShiftRegister ch v s = Inr s' \<Longrightarrow> quiet s s'"
  by (auto simp: UpdateShiftRegister_def xor_shiftregister_def quiet_def Let_def split: if_splits)

lemma WordFirst_step_label:
  assumes "WordFirst_step (CHR '':'') src s1 = Inr (r1, s1')" and "clean s1" and "c_str src"
  obtains e r s1a n where "storeLabel src s1 = Inr (e, r, s1a)" and "r1 = r" and "s1' = s1a\<lparr>linenumber := n\<rparr>"
proof -
  obtain e r s1a where st: "storeLabel src s1 = Inr (e, r, s1a)" using assms(1) by (auto simp: WordFirst_step_def)
  then have e: "e = None \<or> (\<exists>c. e = Some c \<and> in_set c token_end)"
    using storeLabel_value(1) assms(2,3) Throwaway_end by blast
  then obtain n where "DoByte e r False False s1a = (r, s1a\<lparr>linenumber := n\<rparr>)" using DoByte_delim by blast
  moreover have "e \<noteq> Some (CHR ''.'')" "\<not> in_set_eof e ''!@$~''" "\<not> in_set_eof e ''%&''"
    "e \<noteq> Some (CHR ''<'')" "e \<noteq> Some (CHR ''^'')"
    using e in_set_delim by (auto simp: in_set_eof_def)
  ultimately show thesis using assms(1) st that [OF st, of n] by (auto simp: WordFirst_step_def)
qed

text \<open>A word: both passes skip it and leave \<open>ip\<close> where it was.\<close>

lemma word_turn:
  assumes a: "agree s1 s2" and 1: "word_at_dot src s1 = Inr (r1, t1)" and 2: "word_at_dot src s2 = Inr (r2, t2)"
  shows "r1 = r2" and "c_str src \<Longrightarrow> c_str r1" and "agree t1 t2" and "ip t1 = ip s1 + 4" and "ip t2 = ip s2 + 4"
    and "scratch t1 = scratch s1" and "jump_tables t1 = jump_tables s1" and "jump_tables t2 = jump_tables s2"
    and "out_file t2 = out_file s2"
proof -
  let ?z = "\<lambda>s :: hex2. s\<lparr>updates := 0, tempword := 0\<rparr>"
  have "agree (?z s1) (?z s2)" using a by (simp add: agree_def)
  from read_word_lock [OF this _ 1 [unfolded word_at_dot_def] 2 [unfolded word_at_dot_def]]
  show "r1 = r2" "c_str src \<Longrightarrow> c_str r1" "agree t1 t2" by auto
  show "ip t1 = ip s1 + 4" "ip t2 = ip s2 + 4" "scratch t1 = scratch s1" "jump_tables t1 = jump_tables s1"
    "jump_tables t2 = jump_tables s2" "out_file t2 = out_file s2"
    using read_word_effect [OF 1 [unfolded word_at_dot_def]] read_word_effect [OF 2 [unfolded word_at_dot_def]] by simp_all
qed

lemma word_in_step:
  assumes a: "agree s1 s2" and cl: "clean s1" and cs: "c_str src"
    and 1: "WordFirst_step c src s1 = Inr (r1, s1')" and 2: "WordSecond_step c src s2 = Inr (r2, s2')"
  shows "r1 = r2 \<and> c_str r1 \<and> agree s1' s2' \<and> clean s1' \<and> wrote s2 s2' \<and>
      jump_tables s1' = (if c = CHR '':'' then add_entry (label_at src) (ip s1) (jump_tables s1) else jump_tables s1)"
proof -
  have sets: "\<not> in_set (CHR ''.'') ''!@$~''" "\<not> in_set (CHR ''.'') ''%&''"
    "in_set c ''%&'' \<Longrightarrow> \<not> in_set c ''!@$~'' \<and> c \<noteq> CHR ''.''"
    "in_set c ''!@$~'' \<Longrightarrow> \<not> in_set c ''%&'' \<and> c \<noteq> CHR ''.''"
    by (auto simp: in_set_iff)
  consider (label) "c = CHR '':''" | (dot) "c = CHR ''.''"
    | (ptr) "c \<noteq> CHR '':''" "in_set c ''%&''" | (imm) "c \<noteq> CHR '':''" "in_set c ''!@$~''"
    | (pad) "c \<noteq> CHR '':''" "c \<noteq> CHR ''.''" "\<not> in_set c ''%&''" "\<not> in_set c ''!@$~''" "c = CHR ''<''"
    | (align) "c \<noteq> CHR '':''" "c \<noteq> CHR ''.''" "\<not> in_set c ''%&''" "\<not> in_set c ''!@$~''" "c \<noteq> CHR ''<''" "c = CHR ''^''"
    | (byte) "c \<noteq> CHR '':''" "c \<noteq> CHR ''.''" "\<not> in_set c ''%&''" "\<not> in_set c ''!@$~''" "c \<noteq> CHR ''<''" "c \<noteq> CHR ''^''"
    by blast
  then show ?thesis
  proof cases
    case label
    obtain e r s1a n where st: "storeLabel src s1 = Inr (e, r, s1a)" "r1 = r" "s1' = s1a\<lparr>linenumber := n\<rparr>"
      using WordFirst_step_label [OF 1 [unfolded label] cl cs] .
    have "r2 = snd (Throwaway_token src)" "s2' = s2" using 2 label by (simp_all add: WordSecond_step_def)
    then show ?thesis using label_turn [OF st(1) cl cs a] st(2,3) label by simp
  next
    case dot
    obtain t1 where t1: "word_at_dot src s1 = Inr (r1, t1)" "s1' = t1\<lparr>ip := ip t1 - 4\<rparr>"
      using 1 dot by (auto simp: WordFirst_step_def)
    obtain t2 t3 where t2: "word_at_dot src s2 = Inr (r2, t2)" "quiet t2 t3" "s2' = t3\<lparr>ip := ip t3 - 4\<rparr>"
      using 2 dot by (auto simp: WordSecond_step_def dest: UpdateShiftRegister_quiet)
    note w = word_turn [OF a t1(1) t2(1)]
    show ?thesis using w cs a cl dot t1(2) t2(2,3)
      by (simp add: agree_def clean_def quiet_def wrote_def)
  next
    case ptr
    then have "r1 = skip_pointer src" "s1' = s1\<lparr>ip := ip s1 + 4\<rparr>"
      using 1 sets(3) by (auto simp: WordFirst_step_def in_set_eof_def)
    moreover have sp: "WordStorePointer c src s2 = Inr (r2, s2')" using 2 ptr sets(3) by (simp add: WordSecond_step_def)
    ultimately show ?thesis using WordStorePointer_value [OF sp] a cl ptr skip_pointer_c_str [OF cs]
      by (simp add: agree_def clean_def)
  next
    case imm
    then have r1: "r1 = snd (Throwaway_token src)" "s1' = s1"
      using 1 sets(4) by (auto simp: WordFirst_step_def in_set_eof_def)
    obtain e src2 t tgt d u where 3: "consume_token src (s2\<lparr>scratch := Clear_Scratch (scratch s2)\<rparr>) = Inr (e, r2, t)"
      "Architectural_displacement tgt (ip t) t = Inr (d, u)" "UpdateShiftRegister c d u = Inr s2'"
      using 2 imm sets(4) by (auto simp: WordSecond_step_def)
    have "quiet s2 s2'"
      using consume_token_quiet [OF 3(1)] displacement_quiet [OF 3(2)] UpdateShiftRegister_quiet [OF 3(3)]
      by (simp add: quiet_def)
    moreover have "r2 = snd (Throwaway_token src)" using consume_token_value(1) [OF 3(1)] by simp
    ultimately show ?thesis using r1 a cl imm Throwaway_c_str [OF cs]
      by (auto simp: quiet_def agree_def wrote_def)
  next
    case pad
    then have "r1 = src" "r2 = src" "s1' = pad_to_align False s1" "s2' = pad_to_align True s2"
      using 1 2 by (auto simp: WordFirst_step_def WordSecond_step_def in_set_eof_def)
    then show ?thesis using pad_to_align_lock [OF a] cl cs pad by (simp add: lock_def clean_def)
  next
    case align
    then have "r1 = src" "r2 = src" "s1' = s1" "s2' = s2\<lparr>ALIGNED := True\<rparr>"
      using 1 2 by (auto simp: WordFirst_step_def WordSecond_step_def in_set_eof_def)
    then show ?thesis using a cl cs align by (simp add: agree_def wrote_def)
  next
    case byte
    then have b: "DoByte (Some c) src False False s1 = (r1, s1')" "DoByte (Some c) src True False s2 = (r2, s2')"
      using 1 2 by (auto simp: WordFirst_step_def WordSecond_step_def in_set_eof_def)
    note l = DoByte_lock [OF a b]
    obtain k where "scratch s1' = scratch s1" "jump_tables s1' = jump_tables s1"
      using b(1) by (rule DoByte_effect)
    then show ?thesis using l DoByte_wrote [OF b(2)] cl cs byte by (simp add: clean_def)
  qed
qed

lemma DoByte_silent:
  assumes "DoByte c src False u s = (r, s')"
  shows "ByteMode s' = ByteMode s \<and> Architecture s' = Architecture s \<and> out_file s' = out_file s"
proof -
  have "ByteMode s' = ByteMode s \<and> Architecture s' = Architecture s"
  proof -
    obtain d r' t where rd: "read_digit c src s = (d, r', t)" by (cases "read_digit c src s") auto
    obtain n where "t = s\<lparr>linenumber := n\<rparr>" using read_digit_line [OF rd] by blast
    then show ?thesis using assms rd by (auto simp: DoByte_digit split: option.splits)
  qed
  moreover have "out_file s' = out_file s" using assms by (rule DoByte_effect) simp
  ultimately show ?thesis by simp
qed

lemma read_word_silent:
  assumes "read_word src s = Inr (r, s')"
  shows "ByteMode s' = ByteMode s \<and> Architecture s' = Architecture s \<and> out_file s' = out_file s"
  using assms
proof (induction src s rule: read_word.induct)
  case (1 src s)
  show ?case
  proof (cases "updates s < 4")
    case False
    then show ?thesis using "1.prems" by (simp add: read_word.simps [of src s])
  next
    case True
    then obtain c src1 where src: "src = c # src1" using "1.prems"
      by (cases src) (auto simp: read_word.simps [of "[]" s])
    obtain q t where b: "DoByte (Some c) src1 False True s = (q, t)" by fastforce
    have "read_word q t = Inr (r, s')" using "1.prems" True src b
      by (simp add: read_word.simps [of "c # src1" s])
    then show ?thesis using "1.IH" [OF True src b [symmetric]] DoByte_silent [OF b] by simp
  qed
qed

lemma WordFirst_step_silent:
  assumes "WordFirst_step c src s = Inr (r, s')"
  shows "ByteMode s' = ByteMode s \<and> Architecture s' = Architecture s \<and> out_file s' = out_file s"
proof -
  obtain c1 src1 s1 where
    1: "(if c = CHR '':'' then storeLabel src s else Inr (Some c, src, s)) = Inr (c1, src1, s1)"
    and 2: "(if c1 = Some (CHR ''.'')
      then bindE (word_at_dot src1 s1) (\<lambda>(src, s). Inr (src, s\<lparr>ip := ip s - 4\<rparr>))
      else if in_set_eof c1 ''!@$~'' then Inr (snd (Throwaway_token src1), s1)
      else if in_set_eof c1 ''%&'' then Inr (skip_pointer src1, s1\<lparr>ip := ip s1 + 4\<rparr>)
      else if c1 = Some (CHR ''<'') then Inr (src1, pad_to_align False s1)
      else if c1 = Some (CHR ''^'') then Inr (src1, s1)
      else Inr (DoByte c1 src1 False False s1)) = Inr (r, s')"
    using assms unfolding WordFirst_step_def bindE_Inr_iff by auto
  have "ByteMode s1 = ByteMode s \<and> Architecture s1 = Architecture s \<and> out_file s1 = out_file s"
    using 1 by (auto split: if_splits dest: storeLabel_silent)
  moreover have "ByteMode s' = ByteMode s1 \<and> Architecture s' = Architecture s1 \<and> out_file s' = out_file s1"
    using 2 pad_to_align_silent [of s1]
    by (auto simp: word_at_dot_def split: if_splits dest: DoByte_silent read_word_silent)
  ultimately show ?thesis by simp
qed

interpretation word_mode: two_pass WordFirst_step WordSecond_step
  by unfold_locales (rule word_in_step, assumption+, rule WordFirst_step_silent)

section \<open>Programs\<close>

lemma map_sum_Inr: "map_sum id f m = Inr y \<longleftrightarrow> (\<exists>x. m = Inr x \<and> f x = y)"
  by (cases m) auto

lemma first_loop_runs: "first_loop src s = Inr t \<longleftrightarrow> (\<exists>ls. runs first_step src s ls t)"
  by (induction src s rule: first_loop.induct) (auto simp: runs_ex)

lemma second_loop_runs: "second_loop src s = Inr t \<longleftrightarrow> (\<exists>ls. runs second_step src s ls t)"
  by (induction src s rule: second_loop.induct) (auto simp: runs_ex)

lemma WordFirst_loop_runs: "WordFirst_loop src s = Inr t \<longleftrightarrow> (\<exists>ls. runs WordFirst_step src s ls t)"
  by (induction src s rule: WordFirst_loop.induct) (auto simp: runs_ex)

lemma WordSecond_loop_runs: "WordSecond_loop src s = Inr t \<longleftrightarrow> (\<exists>ls. runs WordSecond_step src s ls t)"
  by (induction src s rule: WordSecond_loop.induct) (auto simp: runs_ex)

lemmas loops_run = first_loop_runs second_loop_runs WordFirst_loop_runs WordSecond_loop_runs

lemma first_pass_passes: "first_pass files input s = Inr t \<longleftrightarrow> (\<exists>ls. passes first_step ini1 files input s ls t)"
  by (induction input arbitrary: t) (auto simp: passes_ex loops_run split: option.splits, blast+)

lemma second_pass_passes: "second_pass files input s = Inr t \<longleftrightarrow> (\<exists>ls. passes second_step ini2 files input s ls t)"
  by (induction input arbitrary: t) (auto simp: passes_ex loops_run split: option.splits, blast+)

lemma WordFirstPass_passes:
  "WordFirstPass files input s = Inr t \<longleftrightarrow> (\<exists>ls. passes WordFirst_step ini1 files input s ls t)"
  by (induction input arbitrary: t) (auto simp: passes_ex loops_run split: option.splits, blast+)

lemma WordSecondPass_passes:
  "WordSecondPass files input s = Inr t \<longleftrightarrow>
     (\<exists>ls. passes WordSecond_step ini2 files input (s\<lparr>shiftregister := 0, tempword := 0\<rparr>) ls t)"
  by (induction input arbitrary: s t) (auto simp: passes_ex loops_run split: option.splits, blast+)

text \<open>
  C10. A program of files without NUL that links, no label of which is defined twice: every label has, in the table the second pass
  works with, the base address plus the place in the output file of the byte that follows it;
  in the byte mode and in the word mode, over several input files. (\<open>passes\<close> lists the labels
  that the second pass comes across, each with the number of bytes written by then.)
\<close>

theorem hex2_labels_right:
  assumes "hex2_main files arc big mode bas input = Inr out"
    and "\<forall>f src. files f = Some src \<longrightarrow> c_str src"
  shows "\<exists>s1 t ls.
    (if arc \<in> {RISCV32, RISCV64}
     then WordFirstPass files input (hex2_init arc big mode bas) = Inr s1 \<and>
       passes WordSecond_step ini2 files input (s1\<lparr>ip := bas, shiftregister := 0, tempword := 0\<rparr>) ls t
     else first_pass files input (hex2_init arc big mode bas) = Inr s1 \<and>
       passes second_step ini2 files input (s1\<lparr>ip := bas\<rparr>) ls t) \<and>
    out_file t = out \<and> ip t = bas + of_nat (length out) \<and>
    (distinct (map fst ls) \<longrightarrow>
      (\<forall>(l, n) \<in> set ls. GetTarget (jump_tables t) l = Inr (bas + of_nat n) \<and> n \<le> length out))"
proof (cases "arc \<in> {RISCV32, RISCV64}")
  case True
  define s0 where "s0 = hex2_init arc big mode bas"
  obtain s1 t where 1: "WordFirstPass files input s0 = Inr s1"
    and 2: "WordSecondPass files input (s1\<lparr>ip := bas\<rparr>) = Inr t" and out: "out_file t = out"
    using assms(1) True by (auto simp: hex2_main_def Let_def s0_def map_sum_Inr split: if_splits)
  obtain la where p1: "passes WordFirst_step ini1 files input s0 la s1" using 1 WordFirstPass_passes by blast
  obtain ls where p2: "passes WordSecond_step ini2 files input (s1\<lparr>ip := bas, shiftregister := 0, tempword := 0\<rparr>) ls t"
    using 2 WordSecondPass_passes by force
  have start: "agree (ini1 s0) (ini2 (s1\<lparr>ip := bas, shiftregister := 0, tempword := 0\<rparr>))" "clean s0"
      "out_file s1 = []" "jump_tables s0 = (\<lambda>_. [])"
    using word_mode.passes_silent [OF p1] by (simp_all add: s0_def hex2_init_def agree_def clean_def)
  show ?thesis
    using True 1 p2 out start word_mode.program_layout [OF p2 p1 start(1,2) assms(2), of bas]
      word_mode.labels_right [OF p2 p1 start(1,2) assms(2), of bas]
    by (intro exI [of _ s1] exI [of _ t] exI [of _ ls]) (auto simp: s0_def wrote_def)
next
  case False
  define s0 where "s0 = hex2_init arc big mode bas"
  obtain s1 t where 1: "first_pass files input s0 = Inr s1"
    and 2: "second_pass files input (s1\<lparr>ip := bas\<rparr>) = Inr t" and out: "out_file t = out"
    using assms(1) False by (auto simp: hex2_main_def Let_def s0_def map_sum_Inr split: if_splits)
  obtain la where p1: "passes first_step ini1 files input s0 la s1" using 1 first_pass_passes by blast
  obtain ls where p2: "passes second_step ini2 files input (s1\<lparr>ip := bas\<rparr>) ls t"
    using 2 second_pass_passes by force
  have start: "agree (ini1 s0) (ini2 (s1\<lparr>ip := bas\<rparr>))" "clean s0" "out_file s1 = []" "jump_tables s0 = (\<lambda>_. [])"
    using byte_mode.passes_silent [OF p1] by (simp_all add: s0_def hex2_init_def agree_def clean_def)
  show ?thesis
    using False 1 p2 out start byte_mode.program_layout [OF p2 p1 start(1,2) assms(2), of bas]
      byte_mode.labels_right [OF p2 p1 start(1,2) assms(2), of bas]
    by (intro exI [of _ s1] exI [of _ t] exI [of _ ls]) (auto simp: s0_def wrote_def)
qed

definition demo_files :: "string \<Rightarrow> string option" where
  "demo_files f = (if f = ''a'' then Some ('':x @y 0A '' @ [LF] @ '':y !x '' ) else None)"

lemma demo_c_str: "\<forall>f src. demo_files f = Some src \<longrightarrow> c_str src"
  by (simp add: demo_files_def)

theorem hex2_labels_right_witness:
  "hex2_main demo_files AMD64 False HEX 0x1000 [''a''] = Inr [1, 0, 0x0A, 0xFC] \<and>
   (\<exists>s1 t ls. first_pass demo_files [''a''] (hex2_init AMD64 False HEX 0x1000) = Inr s1 \<and>
     passes second_step ini2 demo_files [''a''] (s1\<lparr>ip := 0x1000\<rparr>) ls t \<and>
     out_file t = [1, 0, 0x0A, 0xFC] \<and> ip t = 0x1000 + of_nat (length [1 :: u8, 0, 0x0A, 0xFC]) \<and>
     (distinct (map fst ls) \<longrightarrow>
      (\<forall>(l, n) \<in> set ls. GetTarget (jump_tables t) l = Inr (0x1000 + of_nat n) \<and> n \<le> length [1 :: u8, 0, 0x0A, 0xFC])))"
proof -
  have m: "hex2_main demo_files AMD64 False HEX 0x1000 [''a''] = Inr [1, 0, 0x0A, 0xFC]" by code_simp
  then show ?thesis using hex2_labels_right [OF m demo_c_str] by simp
qed

end
