(* ===== verification/Hex2Riscv.thy ===== *)
theory Hex2Riscv
  imports Hex2Passes
begin

text \<open>
  The immediates of RISC-V: the fields \<open>UpdateShiftRegister\<close> fills are those from which the
  processor reads the immediate back (the formats B, J, I and U of the RISC-V manual).
\<close>

section \<open>The formats\<close>

definition riscv_B :: "u32 \<Rightarrow> u32" where
  "riscv_B w = signed_take_bit 12 (push_bit 12 (drop_bit 31 w AND 1) OR push_bit 11 (drop_bit 7 w AND 1) OR
     push_bit 5 (drop_bit 25 w AND 0x3F) OR push_bit 1 (drop_bit 8 w AND 0xF))"

definition riscv_J :: "u32 \<Rightarrow> u32" where
  "riscv_J w = signed_take_bit 20 (push_bit 20 (drop_bit 31 w AND 1) OR push_bit 12 (drop_bit 12 w AND 0xFF) OR
     push_bit 11 (drop_bit 20 w AND 1) OR push_bit 1 (drop_bit 21 w AND 0x3FF))"

definition riscv_I :: "u32 \<Rightarrow> u32" where
  "riscv_I w = signed_take_bit 11 (drop_bit 20 w AND 0xFFF)"

definition riscv_U :: "u32 \<Rightarrow> u32" where
  "riscv_U w = w AND 0xFFFFF000"

lemma signed_take_bit_cong:
  assumes "\<forall>n \<in> set [0..<Suc k]. bit a n = bit (b :: u32) n"
  shows "signed_take_bit k a = signed_take_bit k b"
  using assms by (intro bit_word_eqI) (auto simp: bit_signed_take_bit_iff)

lemma signed_range:
  assumes "- (2 ^ k) \<le> sint (v :: u32)" and "sint v < 2 ^ k" and "k < 32"
  shows "signed_take_bit k v = v"
proof (rule bit_word_eqI)
  fix n assume "n < LENGTH(32)"
  then have n: "n < 32" "min k n < 32" using assms(3) by auto
  have s: "bit (sint v) m = bit v m" if "m < 32" for m using that by (simp add: bit_sint_iff not_le)
  have "signed_take_bit k (sint v) = sint v" using assms(1,2) by (intro signed_take_bit_int_eq_self)
  then have "bit (sint v) (min k n) = bit (sint v) n" by (metis bit_signed_take_bit_iff possible_bit_int)
  then show "bit (signed_take_bit k v) n = bit v n"
    using n s by (simp add: bit_signed_take_bit_iff)
qed

lemma upt_sets:
  "set [0..<Suc 12] = {0, 1, 2, 3, 4, 5, 6, 7, 8, 9, 10, 11, 12}"
  "set [0..<Suc 20] = {0, 1, 2, 3, 4, 5, 6, 7, 8, 9, 10, 11, 12, 13, 14, 15, 16, 17, 18, 19, 20}"
  "set [0..<Suc 11] = {0, 1, 2, 3, 4, 5, 6, 7, 8, 9, 10, 11}"
  by code_simp+

lemmas bitwise = ball_simps(5,7) bit_or_iff bit_and_iff bit_xor_iff bit_push_bit_iff bit_drop_bit_eq o_def

lemma and_zero_bit: "inst AND m = (0 :: u32) \<Longrightarrow> bit m n \<Longrightarrow> \<not> bit inst n"
  by (metis bit_0_eq bit_and_iff bot_apply bot_bool_def)

lemma even_bit_0: "v AND 1 = (0 :: u32) \<longleftrightarrow> \<not> bit v 0"
  by (simp only: and_one_eq bit_0 even_iff_mod_2_eq_zero not_not)

text \<open>
  The bits of a decoded immediate, when the fields of the instruction were clear and the encoded
  immediate was combined with it.
\<close>

lemma B_bits:
  assumes "inst AND 0xFE000F80 = 0" and "\<not> bit v 0"
  shows "\<forall>n \<in> set [0..<Suc 12]. bit (push_bit 12 (drop_bit 31 (inst XOR imm_B v) AND 1) OR
     push_bit 11 (drop_bit 7 (inst XOR imm_B v) AND 1) OR
     push_bit 5 (drop_bit 25 (inst XOR imm_B v) AND 0x3F) OR push_bit 1 (drop_bit 8 (inst XOR imm_B v) AND 0xF)) n = bit v n"
proof -
  have "\<forall>n \<in> {7, 8, 9, 10, 11, 25, 26, 27, 28, 29, 30, 31}. bit (0xFE000F80 :: u32) n" by simp
  then have "\<forall>n \<in> {7, 8, 9, 10, 11, 25, 26, 27, 28, 29, 30, 31}. \<not> bit inst n" using and_zero_bit [OF assms(1)] by blast
  then show ?thesis using assms(2)
    unfolding upt_sets imm_B_def by (simp only: bitwise) simp
qed

lemma J_bits:
  assumes "inst AND 0xFFFFF000 = 0" and "\<not> bit v 0"
  shows "\<forall>n \<in> set [0..<Suc 20]. bit (push_bit 20 (drop_bit 31 (inst XOR imm_J v) AND 1) OR
     push_bit 12 (drop_bit 12 (inst XOR imm_J v) AND 0xFF) OR
     push_bit 11 (drop_bit 20 (inst XOR imm_J v) AND 1) OR push_bit 1 (drop_bit 21 (inst XOR imm_J v) AND 0x3FF)) n = bit v n"
proof -
  have "\<forall>n \<in> {12, 13, 14, 15, 16, 17, 18, 19, 20, 21, 22, 23, 24, 25, 26, 27, 28, 29, 30, 31}. bit (0xFFFFF000 :: u32) n" by simp
  then have "\<forall>n \<in> {12, 13, 14, 15, 16, 17, 18, 19, 20, 21, 22, 23, 24, 25, 26, 27, 28, 29, 30, 31}. \<not> bit inst n"
    using and_zero_bit [OF assms(1)] by blast
  then show ?thesis using assms(2)
    unfolding upt_sets imm_J_def by (simp only: bitwise) simp
qed

lemma I_bits:
  assumes "inst AND 0xFFF00000 = 0"
  shows "\<forall>n \<in> set [0..<Suc 11]. bit (drop_bit 20 (inst XOR imm_I v) AND 0xFFF) n = bit v n"
proof -
  have "\<forall>n \<in> {20, 21, 22, 23, 24, 25, 26, 27, 28, 29, 30, 31}. bit (0xFFF00000 :: u32) n" by simp
  then have "\<forall>n \<in> {20, 21, 22, 23, 24, 25, 26, 27, 28, 29, 30, 31}. \<not> bit inst n" using and_zero_bit [OF assms] by blast
  then show ?thesis unfolding upt_sets imm_I_def by (simp only: bitwise) simp
qed

lemma B_decode:
  assumes "inst AND 0xFE000F80 = 0" and "- 0x1000 \<le> sint v" and "sint v \<le> 0xFFF" and "v AND 1 = 0"
  shows "riscv_B (inst XOR imm_B v) = v"
  unfolding riscv_B_def
  using signed_take_bit_cong [OF B_bits [OF assms(1)]] signed_range [of 12 v] assms(2-4) even_bit_0 [of v] by simp

lemma J_decode:
  assumes "inst AND 0xFFFFF000 = 0" and "- 0x100000 \<le> sint v" and "sint v \<le> 0xFFFFF" and "v AND 1 = 0"
  shows "riscv_J (inst XOR imm_J v) = v"
  unfolding riscv_J_def
  using signed_take_bit_cong [OF J_bits [OF assms(1)]] signed_range [of 20 v] assms(2-4) even_bit_0 [of v] by simp

lemma I_decode: "inst AND 0xFFF00000 = 0 \<Longrightarrow> riscv_I (inst XOR imm_I v) = signed_take_bit 11 v"
  unfolding riscv_I_def by (rule signed_take_bit_cong [OF I_bits])

lemma masks: "(0xFFF :: u32) = mask 12" "(0xFFFFF000 :: u32) = NOT (mask 12)" "push_bit 12 0xFFFFF = (NOT (mask 12) :: u32)"
  by (simp_all add: mask_eq_exp_minus_1 not_eq_complement)

lemma low_half_iff: "v AND 0xFFF < (0x800 :: u32) \<longleftrightarrow> \<not> bit v 11"
proof -
  have "unat v mod (2048 * 2) = 2048 * (unat v div 2048 mod 2) + unat v mod 2048" by (rule mod_mult2_eq)
  moreover have "bit v 11 \<longleftrightarrow> odd (unat v div 2048)"
    using bit_iff_odd [of "unat v" 11] by (simp add: bit_unsigned_iff)
  moreover have "unat (v AND 0xFFF) = unat v mod (2048 * 2)" unfolding masks(1) unat_and_mask_mod by simp
  ultimately show ?thesis by (auto simp: word_less_nat_alt odd_iff_mod_2_eq_one elim!: evenE)
qed

lemma split_12: "(v AND NOT (mask 12)) + (v AND mask 12) = (v :: u32)"
proof -
  have "(v AND NOT (mask 12)) AND (v AND mask 12) = 0"
    by (rule bit_word_eqI) (auto simp: bit_simps)
  then have "(v AND NOT (mask 12)) + (v AND mask 12) = (v AND NOT (mask 12)) OR (v AND mask 12)"
    by (rule disjunctive_add_eq_or)
  also have "\<dots> = v" by (rule bit_word_eqI) (auto simp: bit_simps)
  finally show ?thesis .
qed

lemma bit_11: "11 \<le> n \<Longrightarrow> n < 12 \<Longrightarrow> n = (11 :: nat)"
  by simp

lemma signed_low: "signed_take_bit 11 v = (if bit v 11 then (v AND mask 12) - 0x1000 else v AND mask 12)" for v :: u32
proof (cases "bit v 11")
  case True
  have "(v AND mask 12) AND NOT (mask 12) = 0" by (rule bit_word_eqI) (auto simp: bit_simps)
  then have "(v AND mask 12) + NOT (mask 12) = (v AND mask 12) OR NOT (mask 12)" by (rule disjunctive_add_eq_or)
  also have "\<dots> = signed_take_bit 11 v"
    by (rule bit_word_eqI) (use True in \<open>auto simp: bit_simps bit_signed_take_bit_iff min_def not_less dest: bit_11\<close>)
  finally have "signed_take_bit 11 v = (v AND mask 12) + NOT (mask 12)" by simp
  moreover have "NOT (mask 12) = (- 0x1000 :: u32)" by (simp add: mask_eq_exp_minus_1 not_eq_complement)
  ultimately show ?thesis using True by simp
next
  case False
  then have "signed_take_bit 11 v = v AND mask 12"
    by (intro bit_word_eqI) (auto simp: bit_simps bit_signed_take_bit_iff min_def not_less dest: bit_11)
  then show ?thesis using False by simp
qed

lemma imm_U_aligned: "\<exists>k. imm_U v = push_bit 12 k"
proof -
  have h: "v AND NOT (mask 12) = push_bit 12 (drop_bit 12 v)"
    by (rule bit_word_eqI) (auto simp: bit_simps)
  then have "(v AND NOT (mask 12)) + 0x1000 = push_bit 12 (drop_bit 12 v + 1)"
    by (simp add: push_bit_add)
  then show ?thesis using h by (auto simp: imm_U_def masks(3) simp del: push_bit_numeral)
qed

lemma imm_U_value: "imm_U v + signed_take_bit 11 v = v"
proof -
  define h l where "h = v AND NOT (mask 12)" and "l = v AND mask 12"
  have "h + l = v" unfolding h_def l_def by (rule split_12)
  then show ?thesis
    unfolding imm_U_def masks(3) low_half_iff signed_low h_def [symmetric] l_def [symmetric] by simp
qed

lemma U_decode:
  assumes "inst AND 0xFFFFF000 = 0"
  shows "riscv_U (inst XOR imm_U v) + signed_take_bit 11 v = v"
proof -
  obtain k where k: "imm_U v = push_bit 12 k" using imm_U_aligned ..
  have "push_bit 12 k AND NOT (mask 12) = push_bit 12 k"
    by (rule bit_word_eqI) (auto simp: bit_simps)
  then have "riscv_U (inst XOR imm_U v) = imm_U v"
    using assms unfolding riscv_U_def bit.conj_xor_distrib2 masks(2) by (simp add: k)
  then show ?thesis by (simp add: imm_U_value)
qed

text \<open>
  C12. The immediates of RISC-V: combined with an instruction whose immediate fields are clear,
  what \<open>UpdateShiftRegister\<close> puts in place is read back by the processor as the displacement, in
  the B and the J format for every even displacement in range (others are refused), and in the
  pair of a U and an I instruction for every displacement: the upper part, rounded, plus the
  sign-extended lower part.
\<close>

theorem riscv_immediates:
  "(inst AND 0xFE000F80 = 0 \<longrightarrow>
      (case UpdateShiftRegister (CHR ''@'') v (s\<lparr>shiftregister := inst\<rparr>) of
         Inr s' \<Rightarrow> riscv_B (shiftregister s') = v
       | Inl e \<Rightarrow> \<not> (- 0x1000 \<le> sint v \<and> sint v \<le> 0xFFF \<and> v AND 1 = 0))) \<and>
   (inst AND 0xFFFFF000 = 0 \<longrightarrow>
      (case UpdateShiftRegister (CHR ''$'') v (s\<lparr>shiftregister := inst\<rparr>) of
         Inr s' \<Rightarrow> riscv_J (shiftregister s') = v
       | Inl e \<Rightarrow> \<not> (- 0x100000 \<le> sint v \<and> sint v \<le> 0xFFFFF \<and> v AND 1 = 0))) \<and>
   (inst AND 0xFFFFF000 = 0 \<and> addi AND 0xFFF00000 = 0 \<longrightarrow>
      (\<exists>s' s''. UpdateShiftRegister (CHR ''~'') v (s\<lparr>shiftregister := inst\<rparr>) = Inr s' \<and>
        UpdateShiftRegister (CHR ''!'') (v - 4) (s\<lparr>shiftregister := addi\<rparr>) = Inr s'' \<and>
        riscv_U (shiftregister s') + riscv_I (shiftregister s'') = v))"
proof -
  have all: "w AND all_ones = w" for w
  proof -
    have m: "all_ones = mask 32" by (simp add: all_ones_def mask_eq_exp_minus_1)
    have "unat (w AND mask 32) = unat w" using u32_bound [of w] by (simp add: unat_and_mask_mod)
    then show ?thesis unfolding m by (simp only: word_unat_eq_iff)
  qed
  show ?thesis
    using B_decode [of inst v] J_decode [of inst v] U_decode [of inst v] I_decode [of addi v]
    by (auto simp: UpdateShiftRegister_def xor_shiftregister_def all)
qed

theorem riscv_immediates_witness:
  "let s = hex2_init RISCV64 False HEX 0; v = 0xFFFFF7FE :: u32; inst = 0x63 :: u32; jal = 0x6F :: u32; addi = 0x13 :: u32 in
   inst AND 0xFE000F80 = 0 \<and> jal AND 0xFFFFF000 = 0 \<and> addi AND 0xFFF00000 = 0 \<and>
   (case UpdateShiftRegister (CHR ''@'') v (s\<lparr>shiftregister := inst\<rparr>) of
      Inr s' \<Rightarrow> riscv_B (shiftregister s') = v
    | Inl e \<Rightarrow> \<not> (- 0x1000 \<le> sint v \<and> sint v \<le> 0xFFF \<and> v AND 1 = 0)) \<and>
   (case UpdateShiftRegister (CHR ''$'') v (s\<lparr>shiftregister := jal\<rparr>) of
      Inr s' \<Rightarrow> riscv_J (shiftregister s') = v
    | Inl e \<Rightarrow> \<not> (- 0x100000 \<le> sint v \<and> sint v \<le> 0xFFFFF \<and> v AND 1 = 0))"
  using riscv_immediates [where inst = "0x63" and v = "0xFFFFF7FE" and s = "hex2_init RISCV64 False HEX 0" and addi = "0x13"]
    riscv_immediates [where inst = "0x6F" and v = "0xFFFFF7FE" and s = "hex2_init RISCV64 False HEX 0" and addi = "0x13"]
  unfolding Let_def by simp

section \<open>The loop that reads a word\<close>

text \<open>One turn of the loop, whatever the file still holds.\<close>

definition word_turn_of :: "string \<times> hex2 \<Rightarrow> string \<times> hex2" where
  "word_turn_of = (\<lambda>(src, s). let (c, src) = fgetc src in DoByte c src False True s)"

lemma word_turn_of_Nil: "word_turn_of ([], s) = ([], s)"
  by (simp add: word_turn_of_def DoByte_EOF)

lemma read_word_turns:
  "case read_word src s of
     Inr p \<Rightarrow> \<exists>n. (word_turn_of ^^ n) (src, s) = p \<and> 4 \<le> updates (snd p) \<and>
       (\<forall>m < n. updates (snd ((word_turn_of ^^ m) (src, s))) < 4)
   | Inl e \<Rightarrow> \<forall>m. updates (snd ((word_turn_of ^^ m) (src, s))) < 4"
proof (induction src s rule: read_word.induct)
  case (1 src s)
  show ?case
  proof (cases "updates s < 4")
    case False
    then have "read_word src s = Inr (src, s)" by (simp add: read_word.simps [of src s])
    then show ?thesis using False by (auto intro!: exI [of _ 0])
  next
    case True
    show ?thesis
    proof (cases src)
      case Nil
      have "(word_turn_of ^^ m) ([], s) = ([], s)" for m by (induction m) (simp_all add: word_turn_of_Nil)
      then show ?thesis using True Nil by (simp add: read_word.simps [of "[]" s])
    next
      case (Cons c src1)
      obtain q t where b: "DoByte (Some c) src1 False True s = (q, t)" by fastforce
      have rw: "read_word src s = read_word q t" using True Cons b by (simp add: read_word.simps [of "c # src1" s])
      have st: "(word_turn_of ^^ Suc m) (src, s) = (word_turn_of ^^ m) (q, t)" for m
        using Cons b by (simp add: funpow_swap1 word_turn_of_def funpow_Suc_right del: funpow.simps)
      have ih: "case read_word q t of
         Inr p \<Rightarrow> \<exists>n. (word_turn_of ^^ n) (q, t) = p \<and> 4 \<le> updates (snd p) \<and>
           (\<forall>m < n. updates (snd ((word_turn_of ^^ m) (q, t))) < 4)
       | Inl e \<Rightarrow> \<forall>m. updates (snd ((word_turn_of ^^ m) (q, t))) < 4"
        using "1.IH" [OF True Cons b [symmetric]] .
      have z: "updates (snd ((word_turn_of ^^ 0) (src, s))) < 4" using True by simp
      show ?thesis
      proof (cases "read_word q t")
        case (Inl e)
        then have "updates (snd ((word_turn_of ^^ m) (src, s))) < 4" for m
          using ih z st by (cases m) (simp_all del: funpow.simps)
        then show ?thesis using Inl rw by simp
      next
        case (Inr p)
        then obtain n where n: "(word_turn_of ^^ n) (q, t) = p" "4 \<le> updates (snd p)"
          "\<forall>m < n. updates (snd ((word_turn_of ^^ m) (q, t))) < 4" using ih by auto
        have "updates (snd ((word_turn_of ^^ m) (src, s))) < 4" if "m < Suc n" for m
          using that n(3) z st by (cases m) (simp_all del: funpow.simps)
        then show ?thesis using Inr rw n(1,2) st by (auto intro!: exI [of _ "Suc n"] simp del: funpow.simps)
      qed
    qed
  qed
qed

text \<open>
  C13. The loop that reads the four bytes behind a \<open>.\<close> returns exactly when \<open>read_word\<close> says so, in
  the state it says; a file that ends before the four bytes are complete makes it run for ever,
  because at the end of the file a turn changes nothing.
\<close>

theorem word_loop_returns_iff:
  "(case word_at_dot src s of
      Inr p \<Rightarrow> \<exists>n. (word_turn_of ^^ n) (src, s\<lparr>updates := 0, tempword := 0\<rparr>) = p \<and> 4 \<le> updates (snd p) \<and>
        (\<forall>m < n. updates (snd ((word_turn_of ^^ m) (src, s\<lparr>updates := 0, tempword := 0\<rparr>))) < 4)
    | Inl e \<Rightarrow> \<forall>m. updates (snd ((word_turn_of ^^ m) (src, s\<lparr>updates := 0, tempword := 0\<rparr>))) < 4) \<and>
   word_at_dot ''00 00'' (hex2_init RISCV64 False HEX 0) = Inl Never_Returns"
proof
  show "case word_at_dot src s of
      Inr p \<Rightarrow> \<exists>n. (word_turn_of ^^ n) (src, s\<lparr>updates := 0, tempword := 0\<rparr>) = p \<and> 4 \<le> updates (snd p) \<and>
        (\<forall>m < n. updates (snd ((word_turn_of ^^ m) (src, s\<lparr>updates := 0, tempword := 0\<rparr>))) < 4)
    | Inl e \<Rightarrow> \<forall>m. updates (snd ((word_turn_of ^^ m) (src, s\<lparr>updates := 0, tempword := 0\<rparr>))) < 4"
    using read_word_turns [of src "s\<lparr>updates := 0, tempword := 0\<rparr>"] by (simp only: word_at_dot_def)
  show "word_at_dot ''00 00'' (hex2_init RISCV64 False HEX 0) = Inl Never_Returns" by code_simp
qed

theorem word_loop_returns_iff_witness:
  "\<forall>m. updates (snd ((word_turn_of ^^ m)
     (''00 00'', (hex2_init RISCV64 False HEX 0)\<lparr>updates := 0, tempword := 0\<rparr>))) < 4"
  using word_loop_returns_iff [of "''00 00''" "hex2_init RISCV64 False HEX 0"] by (simp split: sum.splits)

section \<open>Alignment\<close>

lemma mod_4_facts:
  fixes w :: u32
  shows "w AND 1 = 1 \<longleftrightarrow> unat w mod 4 \<in> {1, 3}" and "w AND 2 = 2 \<longleftrightarrow> unat w mod 4 \<in> {2, 3}"
    and "unat (w + of_nat n) mod 4 = (unat w mod 4 + n) mod 4"
proof -
  have m: "unat w mod 4 = 2 * (unat w div 2 mod 2) + unat w mod 2"
    using mod_mult2_eq [of "unat w" 2 2] by simp
  have "unat (w AND 1) = unat w mod 2" by (rule and_1_mod)
  then have "w AND 1 = 1 \<longleftrightarrow> unat w mod 2 = 1" by (metis unat_1 word_unat_eq_iff)
  then show "w AND 1 = 1 \<longleftrightarrow> unat w mod 4 \<in> {1, 3}" using m by auto
  have "w AND 2 = push_bit 1 (drop_bit 1 w AND 1)"
  proof -
    have "(2 :: u32) = push_bit 1 1" by simp
    then show ?thesis by (simp only:) (rule bit_word_eqI, simp only: bit_and_iff bit_push_bit_iff bit_1_iff bit_drop_bit_eq o_def, auto)
  qed
  then have "unat (w AND 2) = unat (drop_bit 1 w AND 1) * 2"
    by (simp only:) (subst unat_push_bit_less, simp_all add: and_1_mod)
  then have "unat (w AND 2) = unat w div 2 mod 2 * 2" by (simp add: and_1_mod unat_drop_bit_div)
  moreover have "w AND 2 = 2 \<longleftrightarrow> unat (w AND 2) = 2"
    using word_unat_eq_iff [of "w AND 2" 2] by simp
  ultimately show "w AND 2 = 2 \<longleftrightarrow> unat w mod 4 \<in> {2, 3}" using m by auto
  have "unat (w + of_nat n) = (unat w + n mod 2 ^ 32) mod 2 ^ 32"
    by (simp only: unat_word_ariths) (simp add: unsigned_of_nat take_bit_eq_mod)
  also have "\<dots> = (unat w + n) mod 2 ^ 32" by (simp only: mod_add_right_eq)
  finally show "unat (w + of_nat n) mod 4 = (unat w mod 4 + n) mod 4"
    by (simp add: mod_mod_cancel mod_add_left_eq)
qed

text \<open>
  C14. On the architectures with instructions of four bytes, \<open><\<close> moves \<open>ip\<close> to the next multiple of
  four and writes as many zero bytes; on the others it does nothing.
\<close>

theorem pad_to_align_next:
  "\<exists>n. pad_to_align True s = s\<lparr>ip := ip s + of_nat n, out_file := out_file s @ replicate n 0\<rparr> \<and>
    (if Architecture s \<in> {ARMV7L, AARM64, RISCV32, RISCV64}
     then n < 4 \<and> unat (ip s + of_nat n) mod 4 = 0 else n = 0)"
proof (cases "Architecture s \<in> {ARMV7L, AARM64, RISCV32, RISCV64}")
  case False
  then show ?thesis by (intro exI [of _ 0]) (simp add: pad_to_align_def)
next
  case True
  have r: "replicate 3 (0 :: u8) = [0, 0, 0]" "replicate 2 (0 :: u8) = [0, 0]" by code_simp+
  have "unat (ip s) mod 4 < 4" by simp
  then consider "unat (ip s) mod 4 = 0" | "unat (ip s) mod 4 = 1" | "unat (ip s) mod 4 = 2" | "unat (ip s) mod 4 = 3"
    by linarith
  then show ?thesis
  proof cases
    case 1
    then show ?thesis using True mod_4_facts [of "ip s"]
      by (intro exI [of _ 0]) (simp add: pad_to_align_def)
  next
    case 2
    then show ?thesis using True mod_4_facts [of "ip s"] mod_4_facts(2) [of "ip s + 1"] mod_4_facts(3) [of "ip s" 1]
        mod_4_facts(3) [of "ip s" 3]
      by (intro exI [of _ 3]) (simp add: pad_to_align_def fputc_def Let_def r)
  next
    case 3
    then show ?thesis using True mod_4_facts [of "ip s"] mod_4_facts(3) [of "ip s" 2]
      by (intro exI [of _ 2]) (simp add: pad_to_align_def fputc_def Let_def r)
  next
    case 4
    then show ?thesis using True mod_4_facts [of "ip s"] mod_4_facts(2) [of "ip s + 1"] mod_4_facts(3) [of "ip s" 1]
      by (intro exI [of _ 1]) (simp add: pad_to_align_def fputc_def Let_def)
  qed
qed

end
