(* ===== verification/CcReader.thy ===== *)
theory CcReader
  imports Bootstrappable
begin

text \<open>
  The tokenizer of the compiler (\<^verbatim>\<open>stages/3-micro-c/micro-c/cc_reader.c\<close>). Its globals are the
  record \<open>reader\<close>; the nodes of the token list live in a store, a node's address is its index
  there, and a pointer is \<open>None\<close> (\<open>NULL\<close>) or \<open>Some\<close> address. \<open>hold_string\<close> is the list of the
  \<open>string_index\<close> characters written since it was last reset; the rest of the buffer is zero.
  \<open>calloc\<close> succeeds, and the node that \<open>get_token\<close> allocates and never uses is left out.

  The C code passes the next character around as an \<open>int\<close>, with -1 for \<open>EOF\<close>; here it is a
  \<open>char option\<close> with \<open>None\<close> for -1. \<open>file_buffer\<close> is an array of \<open>char\<close>, signed on the machines
  the sources are built for, so the byte 255 read from it is -1 as well.
\<close>

section \<open>State\<close>

record token_list =
  tl_next :: "nat option"
  tl_prev :: "nat option"
  tl_s :: string
  tl_filename :: string
  tl_linenumber :: u32

datatype define_st = DEFINE_STATE_NONE | DEFINE_STATE_DEFINE

record reader =
  input :: string
  file_buffer :: string
  file_index :: int
  file_max :: int
  line :: u32
  filename :: string
  token :: "nat option"
  store :: "token_list list"
  define_state :: define_st
  hold_string :: string
  MAX_STRING :: nat

datatype reader_error =
    Token_Exceeds_Max_String
  | Unterminated_String
  | Eof_In_Comment
  | Never_Returns
  | Eof_As_Filename
  | Unterminated_Filename
  | No_Filename
  | Non_Line_Number string
  | Null_Dereference
  | Empty_File

definition FILE_BUFFER_SIZE :: int where "FILE_BUFFER_SIZE = 65536"

section \<open>Reading the file\<close>

text \<open>
  \<open>fread\<close> reads up to \<open>n\<close> bytes. Of \<open>file_buffer\<close> only the first \<open>file_max\<close> bytes are kept here,
  since no others are read.
\<close>

fun fread :: "int \<Rightarrow> string \<Rightarrow> string \<times> string" where
  "fread n [] = ([], [])"
| "fread n (c # s) = (if n \<le> 0 then ([], c # s) else (case fread (n - 1) s of (a, b) \<Rightarrow> (c # a, b)))"

definition grab_byte :: "reader \<Rightarrow> char option \<times> reader" where
  "grab_byte st =
    (let st = (if FILE_BUFFER_SIZE \<le> file_index st
               then (case fread FILE_BUFFER_SIZE (input st) of
                       (b, r) \<Rightarrow> st\<lparr>file_buffer := b, file_max := int (length b), file_index := 0, input := r\<rparr>)
               else st)
     in if file_index st = file_max st then (None, st)
        else (let c = file_buffer st ! nat (file_index st);
                  st = st\<lparr>file_index := file_index st + 1\<rparr>;
                  st = (if c = LF then st\<lparr>line := line st + 1\<rparr> else st)
              in (if c = CHR 0xFF then None else Some c, st)))"

text \<open>What is still to be read: the rest of the buffer and the rest of the file.\<close>

definition unread :: "reader \<Rightarrow> string" where
  "unread st = drop (nat (file_index st)) (file_buffer st) @ input st"

text \<open>A state the reader can be in: the buffer was not filled only because the file ended.\<close>

definition buffer_ok :: "reader \<Rightarrow> bool" where
  "buffer_ok st \<longleftrightarrow> 0 \<le> file_index st \<and>
     (file_index st < FILE_BUFFER_SIZE \<longrightarrow>
        file_index st \<le> file_max st \<and> (file_max st < FILE_BUFFER_SIZE \<longrightarrow> input st = [])) \<and>
     file_max st = int (length (file_buffer st)) \<and> file_max st \<le> FILE_BUFFER_SIZE"

lemma fread_take: "fread n s = (take (nat n) s, drop (nat n) s)"
proof (induction n s rule: fread.induct)
  case (2 n c s)
  show ?case
  proof (cases "n \<le> 0")
    case False
    then obtain k where "nat n = Suc k" by (cases "nat n") auto
    then show ?thesis using 2 False by (auto simp: nat_diff_distrib)
  qed simp
qed simp

text \<open>The buffer is not seen: \<open>grab_byte\<close> takes the next byte of what is unread.\<close>

definition grabbed :: "reader \<Rightarrow> char option \<times> string \<times> u32" where
  "grabbed st =
    (case unread st of
       [] \<Rightarrow> (None, [], line st)
     | c # r \<Rightarrow> (if c = CHR 0xFF then None else Some c, r, if c = LF then line st + 1 else line st))"

lemma grab_byte_refill:
  assumes "buffer_ok st" "FILE_BUFFER_SIZE \<le> file_index st"
  shows "case fread FILE_BUFFER_SIZE (input st) of
     (b, r) \<Rightarrow> buffer_ok (st\<lparr>file_buffer := b, file_max := int (length b), file_index := 0, input := r\<rparr>) \<and>
       unread (st\<lparr>file_buffer := b, file_max := int (length b), file_index := 0, input := r\<rparr>) = unread st"
  using assms by (auto simp: fread_take buffer_ok_def unread_def FILE_BUFFER_SIZE_def)

lemma grab_byte_read:
  assumes "buffer_ok st" "file_index st < FILE_BUFFER_SIZE"
  defines "r \<equiv> grab_byte st"
  shows "(fst r, unread (snd r), line (snd r)) = grabbed st \<and> buffer_ok (snd r)"
proof (cases "file_index st = file_max st")
  case True
  then show ?thesis using assms
    by (auto simp: grab_byte_def grabbed_def unread_def buffer_ok_def)
next
  case False
  then have i: "0 \<le> file_index st" "nat (file_index st) < length (file_buffer st)"
    using assms by (auto simp: buffer_ok_def)
  then have d: "drop (nat (file_index st)) (file_buffer st) =
      (file_buffer st ! nat (file_index st)) # drop (nat (file_index st + 1)) (file_buffer st)"
    by (simp add: Cons_nth_drop_Suc nat_add_distrib)
  show ?thesis using assms(1,2) False i d
    by (auto simp: r_def grab_byte_def grabbed_def unread_def buffer_ok_def Let_def)
qed

lemma grab_byte_grabbed:
  assumes "buffer_ok st"
  shows "(fst (grab_byte st), unread (snd (grab_byte st)), line (snd (grab_byte st))) = grabbed st"
    and "buffer_ok (snd (grab_byte st))"
proof -
  define st' where "st' = (case fread FILE_BUFFER_SIZE (input st) of
      (b, r) \<Rightarrow> st\<lparr>file_buffer := b, file_max := int (length b), file_index := 0, input := r\<rparr>)"
  have "(fst (grab_byte st), unread (snd (grab_byte st)), line (snd (grab_byte st))) = grabbed st \<and>
    buffer_ok (snd (grab_byte st))"
  proof (cases "FILE_BUFFER_SIZE \<le> file_index st")
    case True
    have st': "buffer_ok st'" "unread st' = unread st" "line st' = line st" "file_index st' < FILE_BUFFER_SIZE"
      using grab_byte_refill [OF assms True]
      by (auto simp: st'_def FILE_BUFFER_SIZE_def split: prod.splits)
    have "grab_byte st = grab_byte st'" using True st'(4) by (simp add: grab_byte_def st'_def)
    moreover have "grabbed st' = grabbed st" using st' by (simp add: grabbed_def split: list.split)
    ultimately show ?thesis using grab_byte_read [OF st'(1,4)] by simp
  next
    case False
    then show ?thesis using grab_byte_read [OF assms] by simp
  qed
  then show "(fst (grab_byte st), unread (snd (grab_byte st)), line (snd (grab_byte st))) = grabbed st"
    and "buffer_ok (snd (grab_byte st))" by simp_all
qed

text \<open>
  What bounds the loops that read: the bytes left, counted so that filling the buffer again
  from a file that is not at its end makes the count smaller.
\<close>

definition left :: "reader \<Rightarrow> nat" where
  "left st = length (input st) * 65537 +
     (if file_index st = file_max st then 0 else nat (FILE_BUFFER_SIZE - file_index st))"

fun weight :: "char option \<times> reader \<Rightarrow> nat" where
  "weight (c, st) = (if c = None then 0 else Suc (left st))"

lemma left_simps [simp]:
  "left (st\<lparr>line := l\<rparr>) = left st" "left (st\<lparr>token := t\<rparr>) = left st" "left (st\<lparr>store := x\<rparr>) = left st"
  "left (st\<lparr>define_state := d\<rparr>) = left st" "left (st\<lparr>hold_string := h\<rparr>) = left st"
  "left (st\<lparr>filename := f\<rparr>) = left st"
  by (simp_all add: left_def)

lemma left_refill:
  assumes "input st \<noteq> []" "k \<noteq> 0"
  shows "(length (input st) - k) * 65537 + 65536 \<le> length (input st) * 65537"
proof -
  have "length (input st) - k \<le> length (input st) - 1" using assms by simp
  then have "(length (input st) - k) * 65537 \<le> (length (input st) - 1) * 65537" by (rule mult_le_mono1)
  moreover have "length (input st) * 65537 = (length (input st) - 1) * 65537 + 65537"
    using assms by (cases "input st") simp_all
  ultimately show ?thesis by linarith
qed

lemma grab_byte_left: "weight (grab_byte st) \<le> left st \<and> left (snd (grab_byte st)) \<le> left st"
  using left_refill [of st 65536]
  by (cases "input st = []") (auto simp: grab_byte_def fread_take left_def FILE_BUFFER_SIZE_def Let_def)

lemmas weight_grab_byte = grab_byte_left [THEN conjunct1]

lemma left_grab_byte: "grab_byte st = (c, st') \<Longrightarrow> left st' \<le> left st"
  using grab_byte_left [of st] by simp

lemma grab_byte_less: "grab_byte st = (Some c, st') \<Longrightarrow> left st' < left st"
  using weight_grab_byte [of st] by simp

section \<open>Strings\<close>

text \<open>The characters \<open>copy_string\<close> copies; it returns how many. A limit of 0 does not limit.\<close>

fun copy_string_loop :: "int \<Rightarrow> int \<Rightarrow> string \<Rightarrow> string" where
  "copy_string_loop i size_max [] = []"
| "copy_string_loop i size_max (c # source) =
    (if c = NUL then []
     else c # (if i + 1 = size_max then [] else copy_string_loop (i + 1) size_max source))"

definition copy_string :: "string \<Rightarrow> int \<Rightarrow> string" where
  "copy_string source size_max = copy_string_loop 0 size_max source"

fun string_length :: "string \<Rightarrow> int" where
  "string_length [] = 0"
| "string_length (c # a) = (if c = NUL then 0 else string_length a + 1)"

text \<open>
  What \<open>concat_strings2\<close> and its longer forms leave in their buffer of \<open>MAX_STRING\<close> bytes: a C
  string, or \<open>None\<close> when nothing terminates it inside the buffer or it was written past its end.
\<close>

definition in_buffer :: "int \<Rightarrow> string \<Rightarrow> string option" where
  "in_buffer size_max s = (if int (length s) < size_max then Some s else None)"

definition concat_strings2 :: "int \<Rightarrow> string \<Rightarrow> string \<Rightarrow> string option" where
  "concat_strings2 size_max a b =
    (let s = copy_string a size_max in in_buffer size_max (s @ copy_string b (size_max - int (length s))))"

definition concat_strings3 :: "int \<Rightarrow> string \<Rightarrow> string \<Rightarrow> string \<Rightarrow> string option" where
  "concat_strings3 size_max a b c =
    (let s = copy_string a size_max;
         s = s @ copy_string b (size_max - int (length s))
     in in_buffer size_max (s @ copy_string c (size_max - int (length s))))"

definition concat_strings4 :: "int \<Rightarrow> string \<Rightarrow> string \<Rightarrow> string \<Rightarrow> string \<Rightarrow> string option" where
  "concat_strings4 size_max a b c d =
    (let s = copy_string a size_max;
         s = s @ copy_string b (size_max - int (length s));
         s = s @ copy_string c (size_max - int (length s))
     in in_buffer size_max (s @ copy_string d (size_max - int (length s))))"

section \<open>Collecting characters\<close>

definition reset_hold_string :: "reader \<Rightarrow> reader" where
  "reset_hold_string st = st\<lparr>hold_string := []\<rparr>"

definition consume_byte :: "char \<Rightarrow> reader \<Rightarrow> reader_error + char option \<times> reader" where
  "consume_byte c st =
    (let st = st\<lparr>hold_string := hold_string st @ [c]\<rparr>
     in bindE (requireE (length (hold_string st) < MAX_STRING st) Token_Exceeds_Max_String) (\<lambda>_.
          Inr (grab_byte st)))"

lemma weight_consume_byte: "consume_byte c st = Inr r \<Longrightarrow> weight r \<le> left st"
  using weight_grab_byte [of "st\<lparr>hold_string := hold_string st @ [c]\<rparr>"]
  by (auto simp: consume_byte_def Let_def)

lemma consume_byte_less: "consume_byte c st = Inr (Some d, st') \<Longrightarrow> left st' < left st"
  using weight_consume_byte [of c st "(Some d, st')"] by simp

function clearWhiteSpace :: "char option \<Rightarrow> reader \<Rightarrow> char option \<times> reader" where
  "clearWhiteSpace c st =
    (if c = Some CHR '' '' \<or> c = Some TAB
     then (case grab_byte st of (c, st) \<Rightarrow> clearWhiteSpace c st) else (c, st))"
  by pat_completeness auto
termination
proof (relation "measure weight")
  fix c st c' st'
  assume "c = Some CHR '' '' \<or> c = Some TAB" "(c', st') = grab_byte st"
  then show "((c', st'), c, st) \<in> measure weight" using weight_grab_byte [of st] by auto
qed simp

text \<open>The loop of \<open>preserve_string\<close>, entered at its top with \<open>c\<close>.\<close>

function preserve_string_loop ::
  "char \<Rightarrow> bool \<Rightarrow> char \<Rightarrow> reader \<Rightarrow> reader_error + reader" where
  "preserve_string_loop frequent escape c st =
    (let escape = (\<not> escape \<and> c = CHR 0x5C)
     in bindE (consume_byte c st) (\<lambda>(c, st).
          case c of
            None \<Rightarrow> Inl Unterminated_String
          | Some c \<Rightarrow> if escape \<or> c \<noteq> frequent then preserve_string_loop frequent escape c st else Inr st))"
  by pat_completeness auto
termination
  by (relation "measure (\<lambda>(f, e, c, st). left st)") (auto dest: consume_byte_less)

definition preserve_string :: "char \<Rightarrow> reader \<Rightarrow> reader_error + char option \<times> reader" where
  "preserve_string c st = bindE (preserve_string_loop c False c st) (\<lambda>st. Inr (grab_byte st))"

function preserve_keyword ::
  "string \<Rightarrow> char option \<Rightarrow> reader \<Rightarrow> reader_error + char option \<times> reader" where
  "preserve_keyword S c st =
    (case c of
       None \<Rightarrow> Inr (c, st)
     | Some d \<Rightarrow> if in_set d S then bindE (consume_byte d st) (\<lambda>(c, st). preserve_keyword S c st)
                else Inr (c, st))"
  by pat_completeness auto
termination
proof (relation "measure (\<lambda>(S, r). weight r)")
  fix S :: string and c st d x c' st'
  assume "c = Some d" "consume_byte d st = Inr x" "(c', st') = x"
  then show "((S, c', st'), S, c, st) \<in> measure (\<lambda>(S, r). weight r)"
    using weight_consume_byte [of d st x] by auto
qed simp

declare clearWhiteSpace.simps [simp del] preserve_string_loop.simps [simp del] preserve_keyword.simps [simp del]

section \<open>The token list\<close>

definition node :: "reader \<Rightarrow> nat \<Rightarrow> token_list" where
  "node st p = store st ! p"

text \<open>\<open>new_token\<close> puts a node holding the string \<open>s\<close> in front of the list.\<close>

definition new_token :: "string \<Rightarrow> reader \<Rightarrow> reader" where
  "new_token s st =
    st\<lparr>store := store st @
         [\<lparr>tl_next = token st, tl_prev = token st, tl_s = copy_string s (int (MAX_STRING st)),
           tl_filename = filename st, tl_linenumber = line st\<rparr>],
       token := Some (length (store st))\<rparr>"

lemma left_new_token [simp]: "left (new_token s st) = left st"
  by (simp add: new_token_def left_def)

section \<open>One token\<close>

abbreviation identifier_chars :: string where
  "identifier_chars \<equiv> ''abcdefghijklmnopqrstuvwxyzABCDEFGHIJKLMNOPQRSTUVWXYZ0123456789_''"

text \<open>
  What a branch of \<open>get_token\<close> ends in: \<open>goto reset\<close>, the \<open>new_token\<close> at the bottom, or a
  \<open>return\<close> of its own.
\<close>

datatype flow = Reset | New_Token | Return

type_synonym branch = "reader_error + flow \<times> char option \<times> reader"

definition then_token :: "reader_error + char option \<times> reader \<Rightarrow> branch" where
  "then_token m = bindE m (\<lambda>(c, st). Inr (New_Token, c, st))"

text \<open>\<open>if(c == d) c = consume_byte(c);\<close>\<close>

definition consume_if :: "string \<Rightarrow> char option \<times> reader \<Rightarrow> reader_error + char option \<times> reader" where
  "consume_if S r =
    (case r of
       (Some c, st) \<Rightarrow> if in_set c S then consume_byte c st else Inr (Some c, st)
     | (None, st) \<Rightarrow> Inr (None, st))"

definition token_hash :: "reader \<Rightarrow> branch" where
  "token_hash st =
    bindE (consume_byte CHR ''#'' st) (\<lambda>(c, st).
    if c = Some CHR ''#''
    then bindE (consume_byte CHR ''#'' st) (\<lambda>(c, st). Inr (Return, c, new_token (hold_string st) st))
    else (case clearWhiteSpace c st of
            (c, st) \<Rightarrow>
              bindE (preserve_keyword identifier_chars c st) (\<lambda>(c, st).
              let st = (if match_loop (hold_string st) ''#define''
                        then st\<lparr>define_state := DEFINE_STATE_DEFINE\<rparr> else st)
              in Inr (New_Token, c, st))))"

text \<open>The fraction, the exponent and the suffix of a floating-point literal.\<close>

definition floating_tail :: "char option \<times> reader \<Rightarrow> reader_error + char option \<times> reader" where
  "floating_tail r =
    bindE (case r of (c, st) \<Rightarrow>
             if c = Some CHR ''.''
             then bindE (consume_byte CHR ''.'' st) (\<lambda>(c, st). preserve_keyword ''0123456789'' c st)
             else Inr (c, st)) (\<lambda>(c, st).
    bindE (case c of
             Some e \<Rightarrow>
               if e = CHR ''e'' \<or> e = CHR ''E''
               then bindE (consume_byte e st) (\<lambda>r.
                    bindE (consume_if ''+-'' r) (\<lambda>(c, st).
                    preserve_keyword ''0123456789'' c st))
               else Inr (c, st)
           | None \<Rightarrow> Inr (c, st)) (\<lambda>(c, st).
    preserve_keyword ''fFlLuU'' c st))"

text \<open>
  The name of a macro that takes no arguments is followed by a token that is a blank, which is
  how the preprocessor knows it from one that takes them.
\<close>

definition end_identifier :: "char option \<times> reader \<Rightarrow> flow \<times> char option \<times> reader" where
  "end_identifier r =
    (case r of (c, st) \<Rightarrow>
       if define_state st = DEFINE_STATE_DEFINE \<and> c \<noteq> Some CHR ''(''
       then (let st = st\<lparr>define_state := DEFINE_STATE_NONE\<rparr>
             in (Return, c, new_token '' '' (new_token (hold_string st) st)))
       else (New_Token, c, st\<lparr>define_state := DEFINE_STATE_NONE\<rparr>))"

definition token_identifier :: "char \<Rightarrow> reader \<Rightarrow> branch" where
  "token_identifier c st =
    (let starts_with_digit = in_set c ''0123456789''
     in bindE (preserve_keyword identifier_chars (Some c) st) (\<lambda>r.
        bindE (if starts_with_digit then floating_tail r else Inr r) (\<lambda>r. Inr (end_identifier r))))"

text \<open>Whether \<open>c\<close> makes a two-character operator with the \<open>first\<close> character.\<close>

definition operator_take :: "char \<Rightarrow> char option \<Rightarrow> bool" where
  "operator_take first c =
    (if c = Some CHR ''='' then in_set first ''=!<>|&^%''
     else if c = Some first then in_set first ''<>&|''
     else False)"

definition token_operator :: "char \<Rightarrow> reader \<Rightarrow> branch" where
  "token_operator first st =
    bindE (consume_byte first st) (\<lambda>(c, st).
    case c of
      Some second \<Rightarrow>
        if operator_take first c
        then bindE (consume_byte second st) (\<lambda>(c, st).
             if c = Some CHR ''='' \<and> second = first \<and> (first = CHR ''<'' \<or> first = CHR ''>'')
             then then_token (consume_byte CHR ''='' st)
             else Inr (New_Token, c, st))
        else Inr (New_Token, c, st)
    | None \<Rightarrow> Inr (New_Token, c, st))"

text \<open>
  The loop over the rest of a line comment does not look for the end of the file, so it need not
  return; \<open>None\<close> is that it does not.
\<close>

partial_function (option) skip_line :: "char option \<Rightarrow> reader \<Rightarrow> (char option \<times> reader) option" where
  "skip_line c st =
    (if c = Some LF then Some (c, st) else (case grab_byte st of (c, st) \<Rightarrow> skip_line c st))"

function skip_to_star :: "char option \<Rightarrow> reader \<Rightarrow> reader_error + reader" where
  "skip_to_star c st =
    (if c = Some CHR ''*'' then Inr st
     else (case grab_byte st of
             (None, st) \<Rightarrow> Inl Eof_In_Comment
           | (Some c, st) \<Rightarrow> skip_to_star (Some c) st))"
  by pat_completeness auto
termination
proof (relation "measure (\<lambda>(c, st). left st)")
  fix c :: "char option" and st o1 st2 d
  assume "(o1, st2) = grab_byte st" "o1 = Some d"
  then have "grab_byte st = (Some d, st2)" by simp
  then show "((Some d, st2), c, st) \<in> measure (\<lambda>(c, st). left st)" by (simp add: grab_byte_less)
qed simp

declare skip_to_star.simps [simp del]

lemma left_skip_to_star: "skip_to_star c st = Inr st' \<Longrightarrow> left st' \<le> left st"
proof (induction c st rule: skip_to_star.induct)
  case (1 c st)
  show ?case
  proof (cases "c = Some CHR ''*''")
    case False
    then obtain d st1 where "grab_byte st = (Some d, st1)" "skip_to_star (Some d) st1 = Inr st'"
      using 1(2) by (auto simp: skip_to_star.simps [of c st] split: prod.splits option.splits)
    then show ?thesis using 1(1) [OF False _ refl] grab_byte_less [of st d st1] by fastforce
  qed (use 1(2) in \<open>simp add: skip_to_star.simps [of "Some CHR ''*''" st]\<close>)
qed

text \<open>The loops over a block comment, entered with the character after the first star.\<close>

function skip_block :: "char option \<Rightarrow> reader \<Rightarrow> reader_error + reader" where
  "skip_block c st =
    (if c = Some CHR ''/'' then Inr st
     else bindE (skip_to_star c st) (\<lambda>st.
          case grab_byte st of
            (None, st) \<Rightarrow> Inl Eof_In_Comment
          | (Some c, st) \<Rightarrow> skip_block (Some c) st))"
  by pat_completeness auto
termination
proof (relation "measure (\<lambda>(c, st). left st)")
  fix c st st1 and x :: "char option \<times> reader" and o1 st2 d
  assume "skip_to_star c st = Inr st1" "(o1, st2) = grab_byte st1" "o1 = Some d"
  then have "grab_byte st1 = (Some d, st2)" "left st1 \<le> left st" by (simp_all add: left_skip_to_star)
  then show "((Some d, st2), c, st) \<in> measure (\<lambda>(c, st). left st)"
    by (auto dest: grab_byte_less)
qed simp

declare skip_block.simps [simp del]

definition token_slash :: "reader \<Rightarrow> branch" where
  "token_slash st =
    bindE (consume_byte CHR ''/'' st) (\<lambda>(c, st).
    if c = Some CHR ''*''
    then (case grab_byte st of (c, st) \<Rightarrow>
            bindE (skip_block c st) (\<lambda>st. case grab_byte st of (c, st) \<Rightarrow> Inr (Reset, c, st)))
    else if c = Some CHR ''/''
    then (case grab_byte st of (c, st) \<Rightarrow>
            (case skip_line c st of
               None \<Rightarrow> Inl Never_Returns
             | Some (c, st) \<Rightarrow> Inr (Reset, c, st)))
    else then_token (consume_if ''='' (c, st)))"

definition token_plus :: "reader \<Rightarrow> branch" where
  "token_plus st =
    then_token (bindE (consume_byte CHR ''+'' st) (\<lambda>r. bindE (consume_if ''='' r) (consume_if ''+'')))"

definition token_minus :: "reader \<Rightarrow> branch" where
  "token_minus st =
    then_token (bindE (consume_byte CHR ''-'' st) (\<lambda>r.
      bindE (consume_if ''='' r) (\<lambda>r. bindE (consume_if ''>'' r) (consume_if ''-''))))"

definition token_backslash :: "reader \<Rightarrow> branch" where
  "token_backslash st =
    bindE (consume_byte CHR 0x5C st) (\<lambda>(c, st).
    if c = Some LF
    then bindE (consume_byte LF st) (\<lambda>(c, st). Inr (Reset, c, st))
    else Inr (New_Token, c, st))"

text \<open>\<open>get_token\<close> from the character after the blanks to a \<open>goto reset\<close>, the bottom or a \<open>return\<close>.\<close>

definition token_branch :: "char \<Rightarrow> reader \<Rightarrow> branch" where
  "token_branch c st =
    (if c = CHR ''#'' then token_hash st
     else if in_set c identifier_chars then token_identifier c st
     else if in_set c ''<=>|&!^%'' then token_operator c st
     else if in_set c [CHR 0x27, CHR 0x22] then then_token (preserve_string c st)
     else if c = CHR ''/'' then token_slash st
     else if c = LF then then_token (consume_byte c st)
     else if c = CHR ''*'' then then_token (bindE (consume_byte c st) (consume_if ''=''))
     else if c = CHR ''+'' then token_plus st
     else if c = CHR ''-'' then token_minus st
     else if c = CHR 0x5C then token_backslash st
     else then_token (consume_byte c st))"

text \<open>Every branch reads on: what it leaves weighs less than what it was given.\<close>

lemma weight_clearWhiteSpace: "weight (clearWhiteSpace c st) \<le> weight (c, st)"
proof (induction c st rule: clearWhiteSpace.induct)
  case (1 c st)
  show ?case
  proof (cases "c = Some CHR '' '' \<or> c = Some TAB")
    case True
    obtain c' st' where g: "grab_byte st = (c', st')" by fastforce
    have "clearWhiteSpace c st = clearWhiteSpace c' st'"
      using True g by (subst clearWhiteSpace.simps) simp
    moreover have "weight (c', st') \<le> weight (c, st)"
      using True weight_grab_byte [of st] by (auto simp: g)
    ultimately show ?thesis using 1 [OF True g [symmetric]] by simp
  next
    case False
    then show ?thesis by (subst clearWhiteSpace.simps) simp
  qed
qed

lemma weight_preserve_keyword: "preserve_keyword S c st = Inr r \<Longrightarrow> weight r \<le> weight (c, st)"
proof (induction S c st rule: preserve_keyword.induct)
  case (1 S c st)
  show ?case
  proof (cases "\<exists>d. c = Some d \<and> in_set d S")
    case True
    then obtain d where d: "c = Some d" "in_set d S" by blast
    then obtain c' st' where g: "consume_byte d st = Inr (c', st')" "preserve_keyword S c' st' = Inr r"
      using "1.prems" by (subst (asm) preserve_keyword.simps) auto
    show ?thesis using "1.IH" [OF d g(1) refl g(2)] weight_consume_byte [OF g(1)] d(1) by simp
  next
    case False
    then show ?thesis using "1.prems" by (subst (asm) preserve_keyword.simps) (auto split: option.splits)
  qed
qed

lemma left_preserve_string_loop: "preserve_string_loop f e c st = Inr st' \<Longrightarrow> left st' \<le> left st"
proof (induction f e c st rule: preserve_string_loop.induct)
  case (1 f e c st)
  from 1(2) obtain d st1 where g: "consume_byte c st = Inr (Some d, st1)"
    by (subst (asm) preserve_string_loop.simps) (auto simp: Let_def split: option.splits)
  show ?case
  proof (cases "(\<not> e \<and> c = CHR 0x5C) \<or> d \<noteq> f")
    case True
    then have "preserve_string_loop f (\<not> e \<and> c = CHR 0x5C) d st1 = Inr st'"
      using 1(2) g by (subst (asm) preserve_string_loop.simps) (simp add: Let_def)
    then show ?thesis using 1(1) [OF refl g refl refl True] consume_byte_less [OF g] by simp
  next
    case False
    then have "st' = st1" using 1(2) g by (auto simp: Let_def preserve_string_loop.simps [of f e c st])
    then show ?thesis using consume_byte_less [OF g] by simp
  qed
qed

lemma left_skip_block: "skip_block c st = Inr st' \<Longrightarrow> left st' \<le> left st"
proof (induction c st rule: skip_block.induct)
  case (1 c st)
  show ?case
  proof (cases "c = Some CHR ''/''")
    case True
    then show ?thesis using 1(2) by (subst (asm) skip_block.simps) simp
  next
    case False
    then obtain st1 where s: "skip_to_star c st = Inr st1"
        "(case grab_byte st1 of (None, st) \<Rightarrow> Inl Eof_In_Comment | (Some c, st) \<Rightarrow> skip_block (Some c) st) = Inr st'"
      using 1(2) by (auto simp: skip_block.simps [of c st])
    then obtain d st2 where g: "skip_to_star c st = Inr st1" "grab_byte st1 = (Some d, st2)"
        "skip_block (Some d) st2 = Inr st'"
      by (cases "grab_byte st1"; cases "fst (grab_byte st1)") auto
    show ?thesis
      using 1(1) [OF False g(1) g(2) [symmetric] refl g(3)] grab_byte_less [OF g(2)] left_skip_to_star [OF g(1)]
      by simp
  qed
qed

text \<open>What the loop over a line comment returns, when it returns.\<close>

lemma skip_line_Some:
  assumes "skip_line c st = Some r"
  shows "fst r = Some LF \<and> left (snd r) \<le> left st"
proof (rule skip_line.raw_induct [where P = "\<lambda>c st r. fst r = Some LF \<and> left (snd r) \<le> left st", OF _ assms])
  fix rec c st r
  assume IH: "\<And>c st r. rec c st = Some r \<Longrightarrow> fst r = Some LF \<and> left (snd r) \<le> left st"
    and r: "(if c = Some LF then Some (c, st) else (case grab_byte st of (c, st) \<Rightarrow> rec c st)) = Some r"
  obtain c' st' where g: "grab_byte st = (c', st')" by fastforce
  show "fst r = Some LF \<and> left (snd r) \<le> left st"
  proof (cases "c = Some LF")
    case False
    then have "rec c' st' = Some r" using r by (simp add: g)
    then show ?thesis using IH [of c' st' r] left_grab_byte [OF g] by simp
  qed (use r in auto)
qed

lemma weight_consume_if: "consume_if S q = Inr r \<Longrightarrow> weight r \<le> weight q"
  by (cases q) (auto simp: consume_if_def split: option.splits if_splits dest: weight_consume_byte)

lemma weight_then_token: "then_token m = Inr (f, r) \<Longrightarrow> m = Inr r"
  by (cases m) (auto simp: then_token_def)

lemma weight_floating_tail: "floating_tail q = Inr r \<Longrightarrow> weight r \<le> weight q"
  by (cases q)
    (fastforce simp: floating_tail_def split: option.splits if_splits
       dest!: weight_consume_byte weight_preserve_keyword weight_consume_if)

lemma weight_end_identifier: "end_identifier q = (f, r) \<Longrightarrow> weight r = weight q"
  by (auto simp: end_identifier_def Let_def split: prod.splits if_splits)

lemma weight_token_identifier:
  assumes "token_identifier c st = Inr (f, r)" "in_set c identifier_chars"
  shows "weight r \<le> left st"
proof -
  obtain c1 st1 where k: "consume_byte c st = Inr (c1, st1)"
    and k2: "preserve_keyword identifier_chars (Some c) st = preserve_keyword identifier_chars c1 st1"
    using assms by (auto simp: token_identifier_def Let_def preserve_keyword.simps [of _ "Some c" st])
  obtain r1 where p1: "preserve_keyword identifier_chars c1 st1 = Inr r1"
    using assms(1) by (auto simp: token_identifier_def Let_def k2)
  obtain r2 where p: "(if in_set c ''0123456789'' then floating_tail r1 else Inr r1) = Inr r2"
      "end_identifier r2 = (f, r)"
    using assms(1) by (auto simp: token_identifier_def Let_def k2 p1)
  have "weight r2 \<le> weight r1" using p(1) by (auto split: if_splits dest: weight_floating_tail)
  then show ?thesis
    using weight_end_identifier [OF p(2)] weight_preserve_keyword [OF p1] weight_consume_byte [OF k] by linarith
qed

lemma weight_token_hash:
  assumes "token_hash st = Inr (f, r)"
  shows "weight r \<le> left st"
proof -
  obtain c1 st1 where k: "consume_byte CHR ''#'' st = Inr (c1, st1)"
    using assms by (auto simp: token_hash_def)
  show ?thesis
  proof (cases "c1 = Some CHR ''#''")
    case True
    then obtain c2 st2 where k2: "consume_byte CHR ''#'' st1 = Inr (c2, st2)"
      and r: "r = (c2, new_token (hold_string st2) st2)"
      using assms by (auto simp: token_hash_def k)
    show ?thesis using consume_byte_less [OF k [unfolded True]] weight_consume_byte [OF k2]
      by (auto simp: r split: if_splits)
  next
    case False
    obtain c2 st2 where w: "clearWhiteSpace c1 st1 = (c2, st2)" by fastforce
    then obtain c3 st3 where k3: "preserve_keyword identifier_chars c2 st2 = Inr (c3, st3)"
      and r: "weight r = weight (c3, st3)"
      using assms False by (auto simp: token_hash_def k Let_def)
    show ?thesis
      using weight_consume_byte [OF k] weight_clearWhiteSpace [of c1 st1] weight_preserve_keyword [OF k3] r
      by (simp add: w)
  qed
qed

lemma weight_token_operator: "token_operator d st = Inr (f, r) \<Longrightarrow> weight r \<le> left st"
  by (fastforce simp: token_operator_def split: option.splits if_splits
      dest!: weight_consume_byte weight_then_token)

lemma weight_token_slash:
  assumes "token_slash st = Inr (f, r)"
  shows "weight r \<le> left st"
proof -
  obtain c1 st1 where k: "consume_byte CHR ''/'' st = Inr (c1, st1)"
    using assms by (auto simp: token_slash_def)
  obtain c2 st2 where g: "grab_byte st1 = (c2, st2)" by fastforce
  consider (block) "c1 = Some CHR ''*''" | (rest) "c1 = Some CHR ''/''" |
    (other) "c1 \<noteq> Some CHR ''*''" "c1 \<noteq> Some CHR ''/''" by blast
  then show ?thesis
  proof cases
    case block
    then obtain st3 where b: "skip_block c2 st2 = Inr st3" and r: "r = grab_byte st3"
      using assms by (auto simp: token_slash_def k g split: prod.splits)
    show ?thesis
      using consume_byte_less [OF k [unfolded block]] left_grab_byte [OF g] left_skip_block [OF b]
        weight_grab_byte [of st3] by (simp add: r)
  next
    case rest
    then obtain c3 st3 where b: "skip_line c2 st2 = Some (c3, st3)" and r: "r = (c3, st3)"
      using assms by (cases r) (auto simp: token_slash_def k g split: option.splits)
    show ?thesis
      using consume_byte_less [OF k [unfolded rest]] left_grab_byte [OF g] skip_line_Some [OF b] by (simp add: r)
  next
    case other
    then have "consume_if ''='' (c1, st1) = Inr r"
      using assms by (auto simp: token_slash_def k dest: weight_then_token)
    then show ?thesis using weight_consume_if [of "''=''" "(c1, st1)" r] weight_consume_byte [OF k] by linarith
  qed
qed

lemma weight_then_consume_if:
  assumes "then_token (bindE (consume_byte c st) f) = Inr (fl, r)"
    and "\<And>q. f q = Inr r \<Longrightarrow> weight r \<le> weight q"
  shows "weight r \<le> left st"
proof -
  obtain q where "consume_byte c st = Inr q" "f q = Inr r"
    using weight_then_token [OF assms(1)] by auto
  then show ?thesis using assms(2) weight_consume_byte [of c st q] by fastforce
qed

lemma weight_consume_ifs: "bindE (consume_if S q) f = Inr r \<Longrightarrow> (\<And>q. f q = Inr r \<Longrightarrow> weight r \<le> weight q) \<Longrightarrow> weight r \<le> weight q"
  by (auto simp del: weight.simps dest!: weight_consume_if) (meson le_trans)

lemma weight_token_plus: "token_plus st = Inr (f, r) \<Longrightarrow> weight r \<le> left st"
  unfolding token_plus_def
  by (erule weight_then_consume_if) (metis weight_consume_ifs weight_consume_if)

lemma weight_token_minus: "token_minus st = Inr (f, r) \<Longrightarrow> weight r \<le> left st"
  unfolding token_minus_def
  by (erule weight_then_consume_if) (metis (no_types, lifting) weight_consume_ifs weight_consume_if)

lemma weight_token_backslash:
  assumes "token_backslash st = Inr (f, r)"
  shows "weight r \<le> left st"
proof -
  obtain c1 st1 where k: "consume_byte CHR 0x5C st = Inr (c1, st1)"
    using assms by (auto simp: token_backslash_def)
  show ?thesis
    using assms weight_consume_byte [OF k] weight_consume_byte [of LF st1 r]
    by (cases r) (auto simp: token_backslash_def k split: if_splits)
qed

lemma weight_preserve_string: "preserve_string c st = Inr r \<Longrightarrow> weight r \<le> left st"
  by (auto simp: preserve_string_def simp del: weight.simps dest!: left_preserve_string_loop
      intro: le_trans [OF weight_grab_byte])

lemma weight_token_branch: "token_branch c st = Inr (f, r) \<Longrightarrow> weight r \<le> left st"
  unfolding token_branch_def
  by (auto simp del: weight.simps split: if_splits
      dest: weight_token_hash weight_token_identifier weight_token_operator weight_token_slash
        weight_token_plus weight_token_minus weight_token_backslash
      dest!: weight_then_token weight_consume_byte weight_consume_if weight_preserve_string)

section \<open>The token list of a file\<close>

function get_token :: "char option \<Rightarrow> reader \<Rightarrow> reader_error + char option \<times> reader" where
  "get_token c st =
    (case clearWhiteSpace c (reset_hold_string st) of
       (None, st) \<Rightarrow> Inr (None, st)
     | (Some d, st) \<Rightarrow>
         bindE (token_branch d st) (\<lambda>(f, c, st).
         case f of
           Reset \<Rightarrow> get_token c st
         | New_Token \<Rightarrow> Inr (c, new_token (hold_string st) st)
         | Return \<Rightarrow> Inr (c, st)))"
  by pat_completeness auto
termination
proof (relation "measure weight")
  fix c st o1 st1 d x f q c2 st2
  assume a: "(o1, st1) = clearWhiteSpace c (reset_hold_string st)" "o1 = Some d"
    "token_branch d st1 = Inr x" "(f, q) = x" "(c2, st2) = q"
  have "weight (c2, st2) \<le> left st1" using a(3,4,5) by (auto intro: weight_token_branch simp del: weight.simps)
  moreover have "Suc (left st1) \<le> weight (c, reset_hold_string st)"
    using weight_clearWhiteSpace [of c "reset_hold_string st"] unfolding a(1) [symmetric] a(2) by simp
  moreover have "weight (c, reset_hold_string st) = weight (c, st)" by (simp add: reset_hold_string_def)
  ultimately show "((c2, st2), c, st) \<in> measure weight" by simp
qed simp

declare get_token.simps [simp del]

lemma weight_reset: "weight (c, reset_hold_string st) = weight (c, st)"
  by (simp add: reset_hold_string_def)

lemma weight_get_token: "get_token c st = Inr r \<Longrightarrow> weight r \<le> weight (c, st) \<and> (c \<noteq> None \<longrightarrow> weight r < weight (c, st))"
proof (induction c st rule: get_token.induct)
  case (1 c st)
  obtain c1 st1 where w: "clearWhiteSpace c (reset_hold_string st) = (c1, st1)" by fastforce
  have w1: "weight (c1, st1) \<le> weight (c, st)"
    using weight_clearWhiteSpace [of c "reset_hold_string st"] unfolding w weight_reset .
  show ?case
  proof (cases c1)
    case None
    then show ?thesis using 1(2) by (auto simp: get_token.simps [of c st] w)
  next
    case (Some d)
    obtain f c2 st2 where b: "token_branch d st1 = Inr (f, c2, st2)"
      using 1(2) by (auto simp: get_token.simps [of c st] w Some)
    then have b2: "weight (c2, st2) < weight (c, st)"
      using weight_token_branch [OF b] w1 by (simp add: Some)
    have "weight r \<le> weight (c2, st2)"
    proof (cases f)
      case Reset
      have "get_token c2 st2 = Inr r" using 1(2) by (simp add: get_token.simps [of c st] w Some b Reset)
      then show ?thesis using 1(1) [OF w [symmetric] Some b refl refl Reset] by blast
    next
      case New_Token
      then have "r = (c2, new_token (hold_string st2) st2)" using 1(2) by (simp add: get_token.simps [of c st] w Some b)
      then show ?thesis by simp
    next
      case Return
      then show ?thesis using 1(2) by (simp add: get_token.simps [of c st] w Some b)
    qed
    then show ?thesis using b2 by simp
  qed
qed

text \<open>\<open>consume_filename\<close>: past the blanks and newlines, then up to the next of them.\<close>

abbreviation filename_end :: string where "filename_end \<equiv> [CHR '' '', TAB, LF]"

function filename_skip :: "char option \<Rightarrow> reader \<Rightarrow> reader_error + char \<times> reader" where
  "filename_skip c st =
    (case c of
       None \<Rightarrow> Inl Eof_As_Filename
     | Some d \<Rightarrow> if in_set d filename_end then (case grab_byte st of (c, st) \<Rightarrow> filename_skip c st)
                else Inr (d, st))"
  by pat_completeness auto
termination
proof (relation "measure weight")
  fix c :: "char option" and st d c' st'
  assume "c = Some d" "(c', st') = grab_byte st"
  then show "((c', st'), c, st) \<in> measure weight" using weight_grab_byte [of st] by auto
qed simp

function filename_loop :: "char \<Rightarrow> reader \<Rightarrow> reader_error + char option \<times> reader" where
  "filename_loop c st =
    bindE (consume_byte c st) (\<lambda>(c, st).
      case c of
        None \<Rightarrow> Inl Unterminated_Filename
      | Some d \<Rightarrow> if in_set d filename_end then Inr (Some d, st) else filename_loop d st)"
  by pat_completeness auto
termination
  by (relation "measure (\<lambda>(c, st). left st)") (auto dest: consume_byte_less)

declare filename_skip.simps [simp del] filename_loop.simps [simp del]

definition consume_filename :: "char option \<Rightarrow> reader \<Rightarrow> reader_error + char option \<times> reader" where
  "consume_filename c st =
    bindE (filename_skip c (reset_hold_string st)) (\<lambda>(c, st).
    bindE (filename_loop c st) (\<lambda>(c, st).
    Inr (c, new_token (hold_string st) st)))"

text \<open>\<open>token = token->next\<close> and \<open>token->s\<close>, with the fault of a \<open>NULL\<close> pointer.\<close>

definition drop_token :: "reader \<Rightarrow> reader_error + reader" where
  "drop_token st =
    (case token st of None \<Rightarrow> Inl Null_Dereference | Some p \<Rightarrow> Inr (st\<lparr>token := tl_next (node st p)\<rparr>))"

definition token_s :: "reader \<Rightarrow> reader_error + string" where
  "token_s st = (case token st of None \<Rightarrow> Inl Null_Dereference | Some p \<Rightarrow> Inr (tl_s (node st p)))"

definition change_filename :: "char option \<Rightarrow> reader \<Rightarrow> reader_error + char option \<times> reader" where
  "change_filename ch st =
    bindE (requireE (ch \<noteq> None) No_Filename) (\<lambda>_.
    bindE (drop_token st) (\<lambda>st.
    bindE (consume_filename ch st) (\<lambda>(ch, st).
    bindE (token_s st) (\<lambda>s.
    bindE (drop_token (st\<lparr>filename := s\<rparr>)) (\<lambda>st.
    bindE (requireE (ch \<noteq> None) No_Filename) (\<lambda>_.
    bindE (get_token ch (st\<lparr>define_state := DEFINE_STATE_NONE\<rparr>)) (\<lambda>(ch, st).
    bindE (token_s st) (\<lambda>s.
    let st = st\<lparr>line := strtoint s\<rparr>
    in bindE (requireE (\<not> (line st = 0 \<and> CHR ''0'' \<noteq> chr_at s 0)) (Non_Line_Number s)) (\<lambda>_.
       bindE (drop_token st) (\<lambda>st. Inr (ch, st)))))))))))"

lemma weight_filename_skip: "filename_skip c st = Inr (d, st') \<Longrightarrow> Suc (left st') \<le> weight (c, st)"
proof (induction c st rule: filename_skip.induct)
  case (1 c st)
  then obtain e where e: "c = Some e" by (auto simp: filename_skip.simps [of c st] split: option.splits)
  obtain c1 st1 where g: "grab_byte st = (c1, st1)" by fastforce
  show ?case
  proof (cases "in_set e filename_end")
    case True
    have "filename_skip c1 st1 = Inr (d, st')" using 1(2) by (simp add: filename_skip.simps [of "Some e" st] e True g)
    then have "Suc (left st') \<le> weight (c1, st1)" using 1(1) [OF e True g [symmetric]] by blast
    then show ?thesis using weight_grab_byte [of st] unfolding g by (simp add: e del: weight.simps) simp
  next
    case False
    then show ?thesis using 1(2) by (simp add: filename_skip.simps [of "Some e" st] e)
  qed
qed

lemma weight_filename_loop: "filename_loop c st = Inr r \<Longrightarrow> weight r \<le> left st"
proof (induction c st rule: filename_loop.induct)
  case (1 c st)
  then obtain d st1 where k: "consume_byte c st = Inr (Some d, st1)"
    by (auto simp: filename_loop.simps [of c st] split: option.splits)
  show ?case
  proof (cases "in_set d filename_end")
    case True
    then show ?thesis using 1(2) consume_byte_less [OF k] by (auto simp: filename_loop.simps [of c st] k)
  next
    case False
    have "filename_loop d st1 = Inr r" using 1(2) by (simp add: filename_loop.simps [of c st] k False)
    then show ?thesis using 1(1) [OF k refl refl False] consume_byte_less [OF k] by simp
  qed
qed

lemma weight_consume_filename: "consume_filename c st = Inr r \<Longrightarrow> weight r \<le> weight (c, st)"
proof -
  assume a: "consume_filename c st = Inr r"
  then obtain d st1 where k: "filename_skip c (reset_hold_string st) = Inr (d, st1)"
    by (auto simp: consume_filename_def)
  then obtain c2 st2 where k2: "filename_loop d st1 = Inr (c2, st2)" and r: "weight r = weight (c2, st2)"
    using a by (auto simp: consume_filename_def)
  show ?thesis using weight_filename_skip [OF k] weight_filename_loop [OF k2] weight_reset [of c st] r by simp
qed

lemma left_drop_token: "drop_token st = Inr st' \<Longrightarrow> left st' = left st"
  by (auto simp: drop_token_def split: option.splits)

lemma weight_change_filename: "change_filename c st = Inr r \<Longrightarrow> weight r \<le> weight (c, st)"
proof -
  assume a: "change_filename c st = Inr r"
  obtain st1 where d1: "drop_token st = Inr st1" using a by (auto simp: change_filename_def)
  obtain c2 st2 where c2: "consume_filename c st1 = Inr (c2, st2)" using a d1 by (auto simp: change_filename_def)
  obtain s where ts: "token_s st2 = Inr s" using a d1 c2 by (auto simp: change_filename_def)
  obtain st3 where d3: "drop_token (st2\<lparr>filename := s\<rparr>) = Inr st3"
    using a d1 c2 ts by (auto simp: change_filename_def)
  obtain c4 st4 where c4: "get_token c2 (st3\<lparr>define_state := DEFINE_STATE_NONE\<rparr>) = Inr (c4, st4)"
    using a d1 c2 ts d3 by (auto simp: change_filename_def)
  obtain s' where ts': "token_s st4 = Inr s'" using a d1 c2 ts d3 c4 by (auto simp: change_filename_def)
  have "weight r = weight (c4, st4)"
    using a d1 c2 ts d3 c4 ts' by (auto simp: change_filename_def Let_def dest!: left_drop_token)
  moreover have "weight (c4, st4) \<le> weight (c2, st3)"
    using weight_get_token [OF c4] by (auto split: if_splits)
  ultimately show ?thesis
    using left_drop_token [OF d1] left_drop_token [OF d3] weight_consume_filename [OF c2]
    by (auto split: if_splits)
qed

text \<open>The loop of \<open>read_all_tokens\<close>.\<close>

function read_loop :: "char option \<Rightarrow> reader \<Rightarrow> reader_error + reader" where
  "read_loop ch st =
    (if ch = None then Inr st
     else bindE (get_token ch st) (\<lambda>(ch, st).
          bindE (requireE (token st \<noteq> None) Empty_File) (\<lambda>_.
          bindE (token_s st) (\<lambda>s.
          bindE (if match (Some ''#FILENAME'') (Some s) then change_filename ch st else Inr (ch, st)) (\<lambda>(ch, st).
          read_loop ch st)))))"
  by pat_completeness auto
termination
proof (relation "measure weight")
  fix ch st x c1 st1 u s y c2 st2
  assume a: "ch \<noteq> None" "get_token ch st = Inr x" "(c1, st1) = x"
    "(if match (Some ''#FILENAME'') (Some s) then change_filename c1 st1 else Inr (c1, st1)) = Inr y" "(c2, st2) = y"
  have "weight (c1, st1) < weight (ch, st)" using weight_get_token [OF a(2)] a(1,3) by simp
  moreover have "weight (c2, st2) \<le> weight (c1, st1)"
    using a(4,5) weight_change_filename [of c1 st1 y] by (auto split: if_splits)
  ultimately show "((c2, st2), ch, st) \<in> measure weight" by simp
qed simp

declare read_loop.simps [simp del]

definition read_all_tokens :: "string \<Rightarrow> string \<Rightarrow> reader \<Rightarrow> reader_error + reader" where
  "read_all_tokens a name st =
    (case grab_byte (st\<lparr>input := a, line := 1, filename := name, file_index := FILE_BUFFER_SIZE\<rparr>) of
       (ch, st) \<Rightarrow> read_loop ch (st\<lparr>define_state := DEFINE_STATE_NONE\<rparr>))"

end
