(* ===== verification/CcTokenList.thy ===== *)
theory CcTokenList
  imports CcReader
begin

text \<open>
  The operations on the token list of \<^verbatim>\<open>stages/3-micro-c/micro-c/cc_reader.c\<close> once a file is
  read: \<open>reverse_list\<close>, \<open>eat_token\<close>, \<open>eat_until_newline\<close> and
  \<open>remove_preprocessor_directives\<close>, over the store of nodes. The loops follow \<open>next\<close> pointers, so
  on a list with a cycle they would not return; \<open>None\<close> is that they do not. The nodes may have more fields
  than the tokenizer uses (\<open>'a token_list_scheme\<close>): the preprocessor adds one.

  The tokenizer puts every token in front of the one before, with \<open>prev\<close> and \<open>next\<close> both pointing
  to it (\<open>read_list\<close>); \<open>reverse_list\<close> turns that into a doubly linked list in the order of the
  source (\<open>linked\<close>), and the removing operations keep it one.
\<close>

type_synonym 'a store = "'a token_list_scheme list"

section \<open>Operations\<close>

definition eat_token :: "'a store \<Rightarrow> nat \<Rightarrow> 'a store \<times> nat option" where
  "eat_token h p =
    (let h = (case tl_prev (h ! p) of
                None \<Rightarrow> h
              | Some q \<Rightarrow> h[q := (h ! q)\<lparr>tl_next := tl_next (h ! p)\<rparr>]);
         h = (case tl_next (h ! p) of
                None \<Rightarrow> h
              | Some q \<Rightarrow> h[q := (h ! q)\<lparr>tl_prev := tl_prev (h ! p)\<rparr>])
     in (h, tl_next (h ! p)))"

partial_function (option) eat_until_newline :: "'a store \<Rightarrow> nat option \<Rightarrow> ('a store \<times> nat option) option" where
  "eat_until_newline h head =
    (case head of
       None \<Rightarrow> Some (h, None)
     | Some p \<Rightarrow>
         if chr_at (tl_s (h ! p)) 0 = LF then Some (h, head)
         else (case eat_token h p of (h, head) \<Rightarrow> eat_until_newline h head))"

partial_function (option) remove_loop ::
  "'a store \<Rightarrow> nat option \<Rightarrow> nat option \<Rightarrow> ('a store \<times> nat option) option" where
  "remove_loop h first head =
    (case head of
       None \<Rightarrow> Some (h, first)
     | Some p \<Rightarrow>
         if chr_at (tl_s (h ! p)) 0 = CHR ''#''
         then Option.bind (eat_until_newline h head) (\<lambda>(h, head). remove_loop h first head)
         else remove_loop h (if first = None then head else first) (tl_next (h ! p)))"

definition remove_preprocessor_directives :: "'a store \<Rightarrow> nat option \<Rightarrow> ('a store \<times> nat option) option" where
  "remove_preprocessor_directives h head = remove_loop h None head"

partial_function (option) reverse_loop ::
  "'a store \<Rightarrow> nat option \<Rightarrow> nat option \<Rightarrow> ('a store \<times> nat option) option" where
  "reverse_loop h rest head =
    (case head of
       None \<Rightarrow> Some (h, rest)
     | Some p \<Rightarrow> reverse_loop (h[p := (h ! p)\<lparr>tl_next := rest\<rparr>]) head (tl_next (h ! p)))"

definition reverse_list :: "'a store \<Rightarrow> nat option \<Rightarrow> ('a store \<times> nat option) option" where
  "reverse_list h head = reverse_loop h None head"

declare eat_until_newline.simps [code] remove_loop.simps [code] reverse_loop.simps [code]

section \<open>Lists in the store\<close>

fun first_or :: "nat list \<Rightarrow> nat option \<Rightarrow> nat option" where
  "first_or [] q = q"
| "first_or (a # as) q = Some a"

definition last_or :: "nat option \<Rightarrow> nat list \<Rightarrow> nat option" where
  "last_or q as = (if as = [] then q else Some (last as))"

lemma last_or_simps [simp]: "last_or q [] = q" "last_or q (as @ [a]) = Some a" "last_or q (a # as) = last_or (Some a) as"
  by (simp_all add: last_or_def)

text \<open>
  The nodes \<open>as\<close> follow one another, in both directions, from the \<open>prev\<close> of the first to the
  \<open>next\<close> of the last.
\<close>

fun segment :: "'a store \<Rightarrow> nat option \<Rightarrow> nat list \<Rightarrow> nat option \<Rightarrow> bool" where
  "segment h p [] q = True"
| "segment h p (a # as) q \<longleftrightarrow>
     a < length h \<and> tl_prev (h ! a) = p \<and> tl_next (h ! a) = first_or as q \<and> segment h (Some a) as q"

definition linked :: "'a store \<Rightarrow> nat list \<Rightarrow> bool" where
  "linked h as \<longleftrightarrow> segment h None as None \<and> distinct as"

fun read_list :: "'a store \<Rightarrow> nat list \<Rightarrow> bool" where
  "read_list h [] = True"
| "read_list h (a # as) \<longleftrightarrow>
     a < length h \<and> tl_prev (h ! a) = first_or as None \<and> tl_next (h ! a) = first_or as None \<and> read_list h as"

text \<open>The texts of the tokens.\<close>

definition texts :: "'a store \<Rightarrow> nat list \<Rightarrow> string list" where
  "texts h as = map (\<lambda>a. tl_s (h ! a)) as"

lemma texts_simps [simp]: "texts h [] = []" "texts h (a # as) = tl_s (h ! a) # texts h as"
  by (simp_all add: texts_def)

definition same_texts :: "'a store \<Rightarrow> 'a store \<Rightarrow> bool" where
  "same_texts h h' \<longleftrightarrow> map tl_s h' = map tl_s h"

lemma same_texts_refl [simp]: "same_texts h h"
  by (simp add: same_texts_def)

lemma same_texts_trans [trans]: "same_texts a b \<Longrightarrow> same_texts b c \<Longrightarrow> same_texts a c"
  by (simp add: same_texts_def)

lemma same_texts_length: "same_texts h h' \<Longrightarrow> length h' = length h"
  by (auto simp: same_texts_def dest: map_eq_imp_length_eq)

lemma same_texts_nth:
  assumes "same_texts h h'" "i < length h"
  shows "tl_s (h' ! i) = tl_s (h ! i)"
proof -
  have "map tl_s h' ! i = map tl_s h ! i" using assms(1) by (simp add: same_texts_def)
  then show ?thesis using assms(2) same_texts_length [OF assms(1)] by simp
qed

lemma same_texts_update:
  assumes "tl_s n = tl_s (h ! a)"
  shows "same_texts h (h[a := n])"
proof (cases "a < length h")
  case True
  then have "map tl_s h ! a = tl_s n" using assms by simp
  then show ?thesis unfolding same_texts_def map_update by (metis list_update_id)
qed (simp add: same_texts_def list_update_beyond)

lemma segment_bounds: "segment h p as q \<Longrightarrow> a \<in> set as \<Longrightarrow> a < length h"
  by (induction as arbitrary: p) auto

lemma segment_append [simp]:
  "segment h p (as @ bs) q \<longleftrightarrow> segment h p as (first_or bs q) \<and> segment h (last_or p as) bs q"
proof (induction as arbitrary: p)
  case (Cons a as)
  have "first_or (as @ bs) q = first_or as (first_or bs q)" by (cases as) auto
  then show ?case using Cons by auto
qed simp

lemma segment_update [simp]: "a \<notin> set as \<Longrightarrow> segment (h[a := n]) p as q = segment h p as q"
  by (induction as arbitrary: p) auto

lemma segment_set_next:
  "segment h p (as @ [a]) q \<Longrightarrow> a \<notin> set as \<Longrightarrow> segment (h[a := (h ! a)\<lparr>tl_next := r\<rparr>]) p (as @ [a]) r"
  by simp

lemma segment_set_prev:
  "segment h p (a # as) q \<Longrightarrow> a \<notin> set as \<Longrightarrow> segment (h[a := (h ! a)\<lparr>tl_prev := r\<rparr>]) r (a # as) q"
  by simp

section \<open>Taking a token out\<close>

lemma eat_token_linked:
  assumes "linked h (ks @ a # xs)"
  shows "\<exists>h'. eat_token h a = (h', first_or xs None) \<and> linked h' (ks @ xs) \<and> same_texts h h'"
proof -
  have s: "segment h None ks (Some a)" "segment h (Some a) xs None" "a < length h"
    "tl_prev (h ! a) = last_or None ks" "tl_next (h ! a) = first_or xs None"
    and d: "distinct (ks @ xs)" "a \<notin> set ks" "a \<notin> set xs"
    using assms by (auto simp: linked_def)
  define h1 where "h1 = (case last_or None ks of None \<Rightarrow> h | Some q \<Rightarrow> h[q := (h ! q)\<lparr>tl_next := first_or xs None\<rparr>])"
  have h1: "segment h1 None ks (first_or xs None)" "segment h1 (Some a) xs None" "h1 ! a = h ! a"
      "length h1 = length h" "same_texts h h1"
  proof -
    have "segment h1 None ks (first_or xs None) \<and> segment h1 (Some a) xs None \<and> h1 ! a = h ! a \<and>
        length h1 = length h \<and> same_texts h h1"
    proof (cases ks rule: rev_cases)
      case Nil
      then show ?thesis using s by (simp add: h1_def)
    next
      case (snoc ks' k)
      then have "k \<notin> set xs" "k \<noteq> a" "k \<notin> set ks'" using d by auto
      then show ?thesis using s snoc by (simp add: h1_def same_texts_update)
    qed
    then show "segment h1 None ks (first_or xs None)" "segment h1 (Some a) xs None" "h1 ! a = h ! a"
      "length h1 = length h" "same_texts h h1" by blast+
  qed
  define h2 where "h2 = (case first_or xs None of None \<Rightarrow> h1 | Some q \<Rightarrow> h1[q := (h1 ! q)\<lparr>tl_prev := last_or None ks\<rparr>])"
  have h2: "segment h2 None ks (first_or xs None) \<and> segment h2 (last_or None ks) xs None \<and> h2 ! a = h ! a \<and>
      same_texts h1 h2"
  proof (cases xs)
    case Nil
    then show ?thesis using h1 by (simp add: h2_def)
  next
    case (Cons x xs')
    then have "x \<notin> set ks" "x \<noteq> a" "x \<notin> set xs'" using d by auto
    then show ?thesis using h1 Cons by (simp add: h2_def same_texts_update)
  qed
  have "eat_token h a = (h2, first_or xs None)"
    unfolding eat_token_def Let_def s(4,5) h1_def [symmetric]
    unfolding h1(3) s(4,5) h2_def [symmetric] using h2 s(5) by simp
  moreover have "linked h2 (ks @ xs)" using h2 d(1) by (simp add: linked_def)
  ultimately show ?thesis using same_texts_trans [OF h1(5)] h2 by blast
qed

text \<open>What \<open>eat_until_newline\<close> leaves: the rest from the next newline token on.\<close>

abbreviation starts_line :: "string \<Rightarrow> bool" where
  "starts_line t \<equiv> chr_at t 0 = LF"

lemma texts_same:
  "same_texts h h' \<Longrightarrow> (\<forall>a \<in> set as. a < length h) \<Longrightarrow> texts h' as = texts h as"
  by (simp add: texts_def same_texts_nth)

lemma linked_bounds: "linked h as \<Longrightarrow> \<forall>a \<in> set as. a < length h"
  by (auto simp: linked_def dest: segment_bounds)

lemma eat_until_newline_linked:
  assumes "linked h (ks @ xs)"
  shows "\<exists>h' ys. eat_until_newline h (first_or xs None) = Some (h', first_or ys None) \<and>
    linked h' (ks @ ys) \<and> same_texts h h' \<and> (\<exists>ws. xs = ws @ ys) \<and>
    texts h ys = dropWhile (\<lambda>t. \<not> starts_line t) (texts h xs)"
  using assms
proof (induction xs arbitrary: h)
  case Nil
  then show ?case by (intro exI [of _ h] exI [of _ "[]"]) (simp add: eat_until_newline.simps texts_def)
next
  case (Cons a xs)
  show ?case
  proof (cases "starts_line (tl_s (h ! a))")
    case True
    then show ?thesis using Cons.prems
      by (intro exI [of _ h] exI [of _ "a # xs"]) (simp add: eat_until_newline.simps [of h "Some a"] texts_def)
  next
    case False
    obtain h1 where h1: "eat_token h a = (h1, first_or xs None)" "linked h1 (ks @ xs)" "same_texts h h1"
      using eat_token_linked [OF Cons.prems] by blast
    obtain h' ys where ys: "eat_until_newline h1 (first_or xs None) = Some (h', first_or ys None)"
      "linked h' (ks @ ys)" "same_texts h1 h'" "\<exists>ws. xs = ws @ ys"
      "texts h1 ys = dropWhile (\<lambda>t. \<not> starts_line t) (texts h1 xs)"
      using Cons.IH [OF h1(2)] by blast
    have b: "\<forall>a \<in> set xs. a < length h" using linked_bounds [OF Cons.prems] by simp
    then have "texts h1 xs = texts h xs" "texts h1 ys = texts h ys"
      using ys(4) by (auto intro!: texts_same [OF h1(3)])
    then have t: "texts h ys = dropWhile (\<lambda>t. \<not> starts_line t) (texts h (a # xs))"
      using ys(5) False by simp
    have "eat_until_newline h (first_or (a # xs) None) = Some (h', first_or ys None)"
      using False h1(1) ys(1) by (simp add: eat_until_newline.simps [of h "Some a"])
    moreover have "\<exists>ws. a # xs = ws @ ys" using ys(4) by (metis append_Cons)
    ultimately show ?thesis using ys(2) same_texts_trans [OF h1(3) ys(3)] t by blast
  qed
qed

section \<open>Removing the directives\<close>

text \<open>
  The tokens without the directives: what begins with a token that starts with \<open>#\<close>, up to the
  newline, is gone; the newline stays.
\<close>

function without_directives :: "string list \<Rightarrow> string list" where
  "without_directives [] = []"
| "without_directives (t # ts) =
    (if chr_at t 0 = CHR ''#'' then without_directives (dropWhile (\<lambda>t. \<not> starts_line t) ts)
     else t # without_directives ts)"
  by pat_completeness auto
termination by (relation "measure length") (auto simp: le_imp_less_Suc length_dropWhile_le)

lemma first_or_append: "first_or (ks @ [a]) None = (if first_or ks None = None then Some a else first_or ks None)"
  by (cases ks) auto

lemma remove_loop_linked:
  assumes "linked h (ks @ xs)"
  shows "\<exists>h' ys. remove_loop h (first_or ks None) (first_or xs None) = Some (h', first_or (ks @ ys) None) \<and>
    linked h' (ks @ ys) \<and> same_texts h h' \<and> set ys \<subseteq> set xs \<and> texts h ys = without_directives (texts h xs)"
  using assms
proof (induction "length xs" arbitrary: h ks xs rule: less_induct)
  case less
  show ?case
  proof (cases xs)
    case Nil
    then show ?thesis using less.prems
      by (intro exI [of _ h] exI [of _ "[]"]) (simp add: remove_loop.simps [of h _ None] texts_def)
  next
    case (Cons a xs')
    show ?thesis
    proof (cases "chr_at (tl_s (h ! a)) 0 = CHR ''#''")
      case True
      obtain h1 ys where h1: "eat_until_newline h (first_or xs None) = Some (h1, first_or ys None)"
        "linked h1 (ks @ ys)" "same_texts h h1" "\<exists>ws. xs = ws @ ys"
        "texts h ys = dropWhile (\<lambda>t. \<not> starts_line t) (texts h xs)"
        using eat_until_newline_linked [OF less.prems] by blast
      have t: "texts h ys = dropWhile (\<lambda>t. \<not> starts_line t) (texts h xs')"
        using h1(5) True Cons by (simp add: texts_def)
      then have "length (texts h ys) < length (texts h xs)"
        using length_dropWhile_le [of _ "texts h xs'"] Cons by (simp add: texts_def le_imp_less_Suc)
      then have l: "length ys < length xs" by (simp add: texts_def)
      obtain h' zs where zs: "remove_loop h1 (first_or ks None) (first_or ys None) = Some (h', first_or (ks @ zs) None)"
        "linked h' (ks @ zs)" "same_texts h1 h'" "set zs \<subseteq> set ys" "texts h1 zs = without_directives (texts h1 ys)"
        using less.hyps [OF l h1(2)] by blast
      have b: "\<forall>a \<in> set ys. a < length h" using linked_bounds [OF less.prems] h1(4) by auto
      then have "texts h1 ys = texts h ys" "texts h1 zs = texts h zs"
        using zs(4) by (auto intro!: texts_same [OF h1(3)])
      then have "texts h zs = without_directives (texts h xs)"
        using zs(5) t True Cons by simp
      moreover have "remove_loop h (first_or ks None) (first_or xs None) = Some (h', first_or (ks @ zs) None)"
        using True h1(1) zs(1) Cons by (simp add: remove_loop.simps [of h _ "Some a"])
      ultimately show ?thesis using zs(2,4) same_texts_trans [OF h1(3) zs(3)] h1(4) by fastforce
    next
      case False
      have "linked h ((ks @ [a]) @ xs')" using less.prems Cons by simp
      from less.hyps [OF _ this] Cons obtain h' ys where
        ys: "remove_loop h (first_or (ks @ [a]) None) (first_or xs' None) = Some (h', first_or ((ks @ [a]) @ ys) None)"
        "linked h' ((ks @ [a]) @ ys)" "same_texts h h'" "set ys \<subseteq> set xs'" "texts h ys = without_directives (texts h xs')"
        by auto
      have "tl_next (h ! a) = first_or xs' None" using less.prems Cons by (simp add: linked_def)
      then have "remove_loop h (first_or ks None) (first_or xs None) = Some (h', first_or (ks @ a # ys) None)"
        using False ys(1) Cons by (simp add: remove_loop.simps [of h _ "Some a"] first_or_append)
      moreover have "texts h (a # ys) = without_directives (texts h xs)"
        using ys(5) False Cons by (simp add: texts_def)
      ultimately show ?thesis using ys(2,3,4) Cons by (intro exI [of _ h'] exI [of _ "a # ys"]) auto
    qed
  qed
qed

text \<open>
  C16. \<open>remove_preprocessor_directives\<close> returns on every doubly linked list of tokens, leaves one,
  and what is left is exactly the tokens outside the directives, in their order, headed by the
  pointer it returns.
\<close>

theorem remove_preprocessor_directives_linked:
  assumes "linked h as"
  shows "\<exists>h' bs. remove_preprocessor_directives h (first_or as None) = Some (h', first_or bs None) \<and>
    linked h' bs \<and> set bs \<subseteq> set as \<and> texts h' bs = without_directives (texts h as)"
proof -
  obtain h' bs where r: "remove_loop h None (first_or as None) = Some (h', first_or bs None)"
    "linked h' bs" "same_texts h h'" "set bs \<subseteq> set as" "texts h bs = without_directives (texts h as)"
    using remove_loop_linked [of h "[]" as] assms by auto
  have "texts h' bs = texts h bs"
    using r(4) linked_bounds [OF assms] by (intro texts_same [OF r(3)]) auto
  then show ?thesis using r by (auto simp: remove_preprocessor_directives_def)
qed

lemma remove_preprocessor_directives_witness:
  "let node = \<lambda>p n s. \<lparr>tl_next = n, tl_prev = p, tl_s = s, tl_filename = [], tl_linenumber = 1\<rparr>;
       h = [node None (Some 1) ''#define'', node (Some 0) (Some 2) ''x'', node (Some 1) (Some 3) [LF], node (Some 2) None ''y'']
   in \<exists>h' bs. remove_preprocessor_directives h (Some 0) = Some (h', first_or bs None) \<and> linked h' bs \<and>
        texts h' bs = [[LF], ''y'']"
proof -
  define node :: "nat option \<Rightarrow> nat option \<Rightarrow> string \<Rightarrow> token_list" where
    "node = (\<lambda>p n s. \<lparr>tl_next = n, tl_prev = p, tl_s = s, tl_filename = [], tl_linenumber = 1\<rparr>)"
  define h where "h = [node None (Some 1) ''#define'', node (Some 0) (Some 2) ''x'', node (Some 1) (Some 3) [LF], node (Some 2) None ''y'']"
  have l: "linked h [0, 1, 2, 3]" by (simp add: linked_def h_def node_def eval_nat_numeral)
  have t: "without_directives (texts h [0, 1, 2, 3]) = [[LF], ''y'']"
    by (simp add: h_def node_def eval_nat_numeral)
  show ?thesis
    using remove_preprocessor_directives_linked [OF l] t by (simp add: h_def node_def Let_def) blast
qed

section \<open>Reversing\<close>

lemma read_list_bounds: "read_list h as \<Longrightarrow> a \<in> set as \<Longrightarrow> a < length h"
  by (induction as) auto

lemma read_list_update [simp]: "a \<notin> set as \<Longrightarrow> read_list (h[a := n]) as = read_list h as"
  by (induction as) auto

lemma reverse_loop_linked:
  assumes "read_list h as" "segment h (first_or as None) ds None" "distinct (as @ ds)"
  shows "\<exists>h'. reverse_loop h (first_or ds None) (first_or as None) = Some (h', first_or (rev as @ ds) None) \<and>
    segment h' None (rev as @ ds) None \<and> same_texts h h'"
  using assms
proof (induction as arbitrary: h ds)
  case Nil
  then show ?case by (simp add: reverse_loop.simps)
next
  case (Cons a as)
  define h1 where "h1 = h[a := (h ! a)\<lparr>tl_next := first_or ds None\<rparr>]"
  have "same_texts h h1" by (simp add: h1_def same_texts_update)
  have "read_list h1 as" "segment h1 (first_or as None) (a # ds) None" "distinct (as @ a # ds)"
    using Cons.prems by (auto simp: h1_def)
  then obtain h' where h': "reverse_loop h1 (first_or (a # ds) None) (first_or as None) = Some (h', first_or (rev as @ a # ds) None)"
    "segment h' None (rev as @ a # ds) None" "same_texts h1 h'"
    using Cons.IH by blast
  have "tl_next (h ! a) = first_or as None" using Cons.prems by simp
  then have "reverse_loop h (first_or ds None) (first_or (a # as) None) = Some (h', first_or (rev (a # as) @ ds) None)"
    using h'(1) by (simp add: reverse_loop.simps [of h _ "Some a"] h1_def)
  then show ?case using h'(2) same_texts_trans [OF \<open>same_texts h h1\<close> h'(3)] by simp
qed

lemma reverse_list_linked:
  assumes "read_list h as" "distinct as"
  shows "\<exists>h'. reverse_list h (first_or as None) = Some (h', first_or (rev as) None) \<and> linked h' (rev as) \<and> same_texts h h'"
  using reverse_loop_linked [of h as "[]"] assms by (auto simp: reverse_list_def linked_def)

end
