(* ===== verification/CcReaderText.thy ===== *)
theory CcReaderText
  imports CcTokenList "HOL-Library.Sublist"
begin

text \<open>
  What the tokenizer does with the text: nothing of a file is lost or invented between two
  tokens, comments end where they should, and the operators are the longest that C has, with the
  exceptions the code makes.
\<close>

section \<open>The text still to come\<close>

text \<open>The character in hand and what is unread; \<open>clean\<close> states hold no byte 255.\<close>

definition pending :: "char option \<times> reader \<Rightarrow> string" where
  "pending r = (case r of (None, st) \<Rightarrow> unread st | (Some c, st) \<Rightarrow> c # unread st)"

definition clean :: "reader \<Rightarrow> bool" where
  "clean st \<longleftrightarrow> buffer_ok st \<and> CHR 0xFF \<notin> set (unread st)"

lemma pending_simps [simp]: "pending (None, st) = unread st" "pending (Some c, st) = c # unread st"
  by (simp_all add: pending_def)

text \<open>What reading keeps: everything but the buffer, the line and the characters collected.\<close>

definition same_list :: "reader \<Rightarrow> reader \<Rightarrow> bool" where
  "same_list st st' \<longleftrightarrow> store st' = store st \<and> token st' = token st \<and> filename st' = filename st \<and>
     MAX_STRING st' = MAX_STRING st \<and> define_state st' = define_state st"

lemma same_list_refl [simp]: "same_list st st"
  by (simp add: same_list_def)

lemma same_list_trans [trans]: "same_list a b \<Longrightarrow> same_list b c \<Longrightarrow> same_list a c"
  by (simp add: same_list_def)

lemma clean_cong: "input st' = input st \<Longrightarrow> file_buffer st' = file_buffer st \<Longrightarrow>
    file_index st' = file_index st \<Longrightarrow> file_max st' = file_max st \<Longrightarrow> clean st' = clean st \<and> unread st' = unread st"
  by (simp add: clean_def buffer_ok_def unread_def)

lemma clean_update [simp]:
  "clean (st\<lparr>hold_string := h\<rparr>) = clean st" "unread (st\<lparr>hold_string := h\<rparr>) = unread st"
  "clean (st\<lparr>define_state := d\<rparr>) = clean st" "unread (st\<lparr>define_state := d\<rparr>) = unread st"
  "clean (new_token s st) = clean st" "unread (new_token s st) = unread st"
  by (simp_all add: clean_cong new_token_def unread_def clean_def buffer_ok_def)

lemma grab_byte_frame:
  "hold_string (snd (grab_byte st)) = hold_string st" "same_list st (snd (grab_byte st))"
  by (auto simp: grab_byte_def same_list_def Let_def split: prod.splits)

lemma grab_byte_clean:
  assumes "clean st" "grab_byte st = (c, st')"
  shows "pending (c, st') = unread st" "clean st'" "hold_string st' = hold_string st" "same_list st st'"
    "c = None \<longleftrightarrow> unread st = []"
proof -
  have b: "buffer_ok st" using assms by (simp add: clean_def)
  have "(c, unread st', line st') = grabbed st" "buffer_ok st'"
    using grab_byte_grabbed [OF b] by (simp_all add: assms(2))
  then show "pending (c, st') = unread st" "clean st'" "c = None \<longleftrightarrow> unread st = []"
    using assms(1) by (auto simp: grabbed_def clean_def split: list.splits if_splits)
  show "hold_string st' = hold_string st" "same_list st st'"
    using grab_byte_frame [of st] by (simp_all add: assms(2))
qed

text \<open>No character comes to hand only at the end.\<close>

definition ends_at :: "char option \<times> reader \<Rightarrow> char option \<times> reader \<Rightarrow> bool" where
  "ends_at q r \<longleftrightarrow> (fst r = None \<longrightarrow> fst q = None \<or> pending r = [])"

lemma ends_at_refl [simp]: "ends_at q q"
  by (simp add: ends_at_def)

lemma ends_at_trans: "ends_at p q \<Longrightarrow> ends_at q r \<Longrightarrow> pending q = w @ pending r \<Longrightarrow> ends_at p r"
  by (auto simp: ends_at_def)

lemma ends_at_grab: "clean st \<Longrightarrow> grab_byte st = r \<Longrightarrow> ends_at q r"
  using grab_byte_clean [of st "fst r" "snd r"] by (cases r) (auto simp: ends_at_def)

text \<open>
  One step forward: \<open>moved w q r\<close> says that \<open>r\<close> comes from \<open>q\<close> by moving the characters
  \<open>w\<close> from what is to come into \<open>hold_string\<close>.
\<close>

definition moved :: "string \<Rightarrow> char option \<times> reader \<Rightarrow> char option \<times> reader \<Rightarrow> bool" where
  "moved w q r \<longleftrightarrow> (clean (snd q) \<longrightarrow>
     clean (snd r) \<and> pending q = w @ pending r \<and> hold_string (snd r) = hold_string (snd q) @ w \<and>
     (w \<noteq> [] \<longrightarrow> length (hold_string (snd r)) < MAX_STRING (snd r)) \<and> same_list (snd q) (snd r) \<and>
     ends_at q r)"

lemma moved_Nil [simp]: "moved [] q q"
  by (simp add: moved_def)

lemma moved_trans: "moved v p q \<Longrightarrow> moved w q r \<Longrightarrow> moved (v @ w) p r"
  by (cases "w = []") (auto simp: moved_def same_list_def intro: ends_at_trans)

lemma moved_consume_byte: "consume_byte c st = Inr r \<Longrightarrow> moved [c] (Some c, st) r"
proof -
  assume "consume_byte c st = Inr r"
  then have r: "r = grab_byte (st\<lparr>hold_string := hold_string st @ [c]\<rparr>)"
    "Suc (length (hold_string st)) < MAX_STRING st" by (simp_all add: consume_byte_def Let_def)
  obtain c' st' where g: "grab_byte (st\<lparr>hold_string := hold_string st @ [c]\<rparr>) = (c', st')" by fastforce
  show ?thesis
    using grab_byte_clean [OF _ g] ends_at_grab [OF _ g] by (auto simp: moved_def r g same_list_def)
qed

lemma moved_consume_if:
  assumes "consume_if S q = Inr r"
  shows "r = q \<and> (\<forall>c. fst q = Some c \<longrightarrow> \<not> in_set c S) \<or>
    (\<exists>c. fst q = Some c \<and> in_set c S \<and> moved [c] q r)"
  using assms by (cases q) (auto simp: consume_if_def split: option.splits if_splits intro: moved_consume_byte)

lemma moved_preserve_keyword:
  "preserve_keyword S c st = Inr r \<Longrightarrow>
     \<exists>w. moved w (c, st) r \<and> (\<forall>x \<in> set w. in_set x S) \<and> (\<forall>x. fst r = Some x \<longrightarrow> \<not> in_set x S)"
proof (induction S c st rule: preserve_keyword.induct)
  case (1 S c st)
  show ?case
  proof (cases "\<exists>d. c = Some d \<and> in_set d S")
    case True
    then obtain d where d: "c = Some d" "in_set d S" by blast
    then obtain c' st' where g: "consume_byte d st = Inr (c', st')" "preserve_keyword S c' st' = Inr r"
      using "1.prems" by (subst (asm) preserve_keyword.simps) auto
    obtain w where w: "moved w (c', st') r" "\<forall>x \<in> set w. in_set x S" "\<forall>x. fst r = Some x \<longrightarrow> \<not> in_set x S"
      using "1.IH" [OF d g(1) refl g(2)] by blast
    have "moved (d # w) (c, st) r"
      using moved_trans [OF moved_consume_byte [OF g(1)] w(1)] by (simp add: d(1))
    then show ?thesis using w(2,3) d(2) by (intro exI [of _ "d # w"]) auto
  next
    case False
    then have "r = (c, st)" using "1.prems" by (subst (asm) preserve_keyword.simps) (auto split: option.splits)
    then show ?thesis using False by (intro exI [of _ "[]"]) auto
  qed
qed

text \<open>Blanks are passed over and leave nothing.\<close>

definition skipped :: "string \<Rightarrow> char option \<times> reader \<Rightarrow> char option \<times> reader \<Rightarrow> bool" where
  "skipped w q r \<longleftrightarrow> (clean (snd q) \<longrightarrow>
     clean (snd r) \<and> pending q = w @ pending r \<and> hold_string (snd r) = hold_string (snd q) \<and>
     same_list (snd q) (snd r) \<and> ends_at q r)"

abbreviation blank :: "char \<Rightarrow> bool" where
  "blank c \<equiv> c = CHR '' '' \<or> c = TAB"

lemma skipped_clearWhiteSpace:
  "clearWhiteSpace c st = r \<Longrightarrow>
     \<exists>w. skipped w (c, st) r \<and> (\<forall>x \<in> set w. blank x) \<and> (\<forall>x. fst r = Some x \<longrightarrow> \<not> blank x)"
proof (induction c st rule: clearWhiteSpace.induct)
  case (1 c st)
  show ?case
  proof (cases "c = Some CHR '' '' \<or> c = Some TAB")
    case True
    obtain c' st' where g: "grab_byte st = (c', st')" by fastforce
    have "clearWhiteSpace c' st' = r"
      using True 1(2) by (subst (asm) clearWhiteSpace.simps) (simp add: g)
    then obtain w where w: "skipped w (c', st') r" "\<forall>x \<in> set w. blank x" "\<forall>x. fst r = Some x \<longrightarrow> \<not> blank x"
      using 1(1) [OF True g [symmetric]] by blast
    obtain d where d: "c = Some d" "blank d" using True by blast
    have "skipped (d # w) (c, st) r"
      using w(1) grab_byte_clean [OF _ g] ends_at_grab [OF _ g]
      by (auto simp: skipped_def d(1) intro: same_list_trans ends_at_trans)
    then show ?thesis using w d(2) by (intro exI [of _ "d # w"]) auto
  next
    case False
    then have "r = (c, st)" using 1(2) by (subst (asm) clearWhiteSpace.simps) auto
    then show ?thesis using False by (intro exI [of _ "[]"]) (auto simp: skipped_def)
  qed
qed

section \<open>Comments\<close>

text \<open>The text after the first star and slash.\<close>

fun comment_rest :: "string \<Rightarrow> string option" where
  "comment_rest [] = None"
| "comment_rest (c # s) = (if c = CHR ''*'' \<and> chr_at s 0 = CHR ''/'' then Some (tl s) else comment_rest s)"

lemma comment_rest_skip: "CHR ''*'' \<notin> set b \<Longrightarrow> comment_rest (b @ s) = comment_rest s"
  by (induction b) auto

text \<open>The state behind reads on from the one before: \<open>q\<close> has the text \<open>w\<close> and then that of \<open>r\<close>.\<close>

definition behind :: "string \<Rightarrow> char option \<times> reader \<Rightarrow> char option \<times> reader \<Rightarrow> bool" where
  "behind w q r \<longleftrightarrow> (clean (snd q) \<longrightarrow>
     clean (snd r) \<and> pending q = w @ pending r \<and> same_list (snd q) (snd r))"

lemma behind_grab: "grab_byte st = r \<Longrightarrow> behind [] (None, st) r"
  by (cases r) (auto simp: behind_def dest: grab_byte_clean)

lemma behind_trans: "behind v p q \<Longrightarrow> behind w q r \<Longrightarrow> behind (v @ w) p r"
  by (auto simp: behind_def intro: same_list_trans)

lemma behind_refl [simp]: "behind [] q q"
  by (simp add: behind_def)

lemma behind_Some [simp]: "behind [c] (Some c, st) (None, st)"
  by (simp add: behind_def)

lemma moved_behind: "moved w q r \<Longrightarrow> behind w q r"
  by (simp add: moved_def behind_def)

lemma skipped_behind: "skipped w q r \<Longrightarrow> behind w q r"
  by (simp add: skipped_def behind_def)

lemma behind_skip_to_star:
  "skip_to_star c st = Inr st' \<Longrightarrow>
     \<exists>b. behind (b @ ''*'') (c, st) (None, st') \<and> CHR ''*'' \<notin> set b"
proof (induction c st rule: skip_to_star.induct)
  case (1 c st)
  show ?case
  proof (cases "c = Some CHR ''*''")
    case True
    then show ?thesis using 1(2)
      by (intro exI [of _ "[]"]) (auto simp: skip_to_star.simps [of "Some CHR ''*''" st])
  next
    case False
    then obtain d st1 where g: "grab_byte st = (Some d, st1)" "skip_to_star (Some d) st1 = Inr st'"
      using 1(2) by (auto simp: skip_to_star.simps [of c st] split: prod.splits option.splits)
    obtain b where b: "behind (b @ ''*'') (Some d, st1) (None, st')" "CHR ''*'' \<notin> set b"
      using 1(1) [OF False g(1) [symmetric] refl g(2)] by blast
    have "behind (case c of None \<Rightarrow> [] | Some e \<Rightarrow> [e]) (c, st) (None, st)" by (cases c) auto
    from behind_trans [OF this behind_trans [OF behind_grab [OF g(1)] b(1)]]
    have "behind (((case c of None \<Rightarrow> [] | Some e \<Rightarrow> [e]) @ b) @ ''*'') (c, st) (None, st')" by simp
    then show ?thesis using b(2) False by (cases c) (fastforce split: option.splits)+
  qed
qed

lemma behind_skip_block:
  "skip_block c st = Inr st' \<Longrightarrow> c \<noteq> Some CHR ''/'' \<Longrightarrow>
     \<exists>w. behind w (c, st) (None, st') \<and> (\<forall>s. comment_rest (w @ s) = Some s)"
proof (induction c st rule: skip_block.induct)
  case (1 c st)
  obtain st1 where s: "skip_to_star c st = Inr st1"
      "(case grab_byte st1 of (None, st) \<Rightarrow> Inl Eof_In_Comment | (Some c, st) \<Rightarrow> skip_block (Some c) st) = Inr st'"
    using 1(2,3) by (auto simp: skip_block.simps [of c st])
  then obtain d st2 where g: "grab_byte st1 = (Some d, st2)" "skip_block (Some d) st2 = Inr st'"
    by (cases "grab_byte st1"; cases "fst (grab_byte st1)") auto
  obtain b where b: "behind (b @ ''*'') (c, st) (None, st1)" "CHR ''*'' \<notin> set b"
    using behind_skip_to_star [OF s(1)] by blast
  note step = behind_trans [OF b(1) behind_grab [OF g(1)]]
  show ?case
  proof (cases "d = CHR ''/''")
    case True
    then have "st' = st2" using g(2) by (simp add: skip_block.simps)
    then have "behind (b @ ''*/'') (c, st) (None, st')"
      using behind_trans [OF step behind_Some] True by simp
    then show ?thesis using b(2)
      by (intro exI [of _ "b @ ''*/''"]) (simp add: comment_rest_skip)
  next
    case False
    then obtain w where w: "behind w (Some d, st2) (None, st')" "\<forall>s. comment_rest (w @ s) = Some s"
      using 1(1) [OF 1(3) s(1) g(1) [symmetric] refl g(2)] by auto
    have e: "w \<noteq> []" using w(2) by (metis append_Nil comment_rest.simps(1) option.distinct(1))
    show ?thesis
    proof (cases "clean st")
      case True
      then have "clean st2" "w @ unread st' = d # unread st2"
        using step w(1) by (auto simp: behind_def)
      then have "hd w = d" using e by (cases w) auto
      then have "\<forall>s. comment_rest ((b @ ''*'' @ w) @ s) = Some s"
        using w(2) b(2) e False by (cases w) (auto simp: comment_rest_skip)
      then show ?thesis using behind_trans [OF step w(1)] by (intro exI [of _ "b @ ''*'' @ w"]) simp
    next
      case dirty: False
      then show ?thesis by (intro exI [of _ "''*/''"]) (simp add: behind_def)
    qed
  qed
qed

lemma behind_skip_line:
  assumes "skip_line c st = Some r"
  shows "\<exists>w. behind w (c, st) r \<and> LF \<notin> set w"
proof (rule skip_line.raw_induct [where P = "\<lambda>c st r. \<exists>w. behind w (c, st) r \<and> LF \<notin> set w", OF _ assms])
  fix rec c st r
  assume IH: "\<And>c st r. rec c st = Some r \<Longrightarrow> \<exists>w. behind w (c, st) r \<and> LF \<notin> set w"
    and r: "(if c = Some LF then Some (c, st) else (case grab_byte st of (c, st) \<Rightarrow> rec c st)) = Some r"
  obtain c' st' where g: "grab_byte st = (c', st')" by fastforce
  show "\<exists>w. behind w (c, st) r \<and> LF \<notin> set w"
  proof (cases "c = Some LF")
    case True
    then show ?thesis using r by (intro exI [of _ "[]"]) auto
  next
    case False
    then obtain w where w: "behind w (c', st') r" "LF \<notin> set w"
      using IH [of c' st' r] r by (auto simp: g)
    have "behind (case c of None \<Rightarrow> [] | Some e \<Rightarrow> [e]) (c, st) (None, st)" by (cases c) auto
    from behind_trans [OF this behind_trans [OF behind_grab [OF g] w(1)]]
    moreover have "LF \<notin> set ((case c of None \<Rightarrow> [] | Some e \<Rightarrow> [e]) @ [] @ w)"
      using w(2) False by (cases c) auto
    ultimately show ?thesis by blast
  qed
qed

text \<open>It returns exactly when the line ends.\<close>

lemma skip_line_returns:
  "clean st \<Longrightarrow> LF \<in> set (pending (c, st)) \<Longrightarrow> skip_line c st \<noteq> None"
proof (induction "length (pending (c, st))" arbitrary: c st rule: less_induct)
  case less
  show ?case
  proof (cases "c = Some LF")
    case True
    then show ?thesis by (simp add: skip_line.simps)
  next
    case False
    obtain c' st' where g: "grab_byte st = (c', st')" by fastforce
    note g' = grab_byte_clean [OF less(2) g]
    have in': "LF \<in> set (unread st)" using less(3) False by (cases c) auto
    show ?thesis
    proof (cases c)
      case (Some d)
      then show ?thesis using less(1) [of c' st'] in' g' False by (auto simp: skip_line.simps [of "Some d" st] g)
    next
      case None
      obtain d where d: "c' = Some d" using g'(5) in' by (cases c') auto
      show ?thesis
      proof (cases "d = LF")
        case True
        then show ?thesis by (simp add: skip_line.simps [of None st] None g d skip_line.simps [of "Some LF"])
      next
        case nd: False
        obtain c2 st2 where g2: "grab_byte st' = (c2, st2)" by fastforce
        note h = grab_byte_clean [OF g'(2) g2]
        have "LF \<in> set (pending (c2, st2))" "length (pending (c2, st2)) < length (pending (c, st))"
          using h(1) g'(1) [symmetric] in' nd d None by auto
        then have "skip_line c2 st2 \<noteq> None" using less(1) h(2) by blast
        then show ?thesis using nd
          by (simp add: skip_line.simps [of None st] None g d skip_line.simps [of "Some d" st'] g2)
      qed
    qed
  qed
qed

lemma skip_line_None_iff: "clean st \<Longrightarrow> skip_line c st = None \<longleftrightarrow> LF \<notin> set (pending (c, st))"
proof -
  assume cl: "clean st"
  have "LF \<in> set (pending (c, st))" if "skip_line c st = Some r" for r
  proof -
    obtain w where "behind w (c, st) r" using behind_skip_line [OF \<open>_ = Some r\<close>] by blast
    moreover have "fst r = Some LF" using skip_line_Some [OF \<open>_ = Some r\<close>] by simp
    ultimately show ?thesis using cl by (cases r) (auto simp: behind_def)
  qed
  then show ?thesis using skip_line_returns [OF cl, of c] by (metis option.exhaust)
qed

section \<open>Branches\<close>

lemma moved_floating_tail: "floating_tail q = Inr r \<Longrightarrow> \<exists>w. moved w q r"
proof -
  assume a: "floating_tail q = Inr r"
  obtain c st where q: "q = (c, st)" by fastforce
  obtain q1 where q1: "(if c = Some CHR ''.'' then bindE (consume_byte CHR ''.'' st) (\<lambda>(c, st). preserve_keyword ''0123456789'' c st)
      else Inr (c, st)) = Inr q1"
    and r1: "bindE (case q1 of (c, st) \<Rightarrow> case c of
             Some e \<Rightarrow>
               if e = CHR ''e'' \<or> e = CHR ''E''
               then bindE (consume_byte e st) (\<lambda>r.
                    bindE (consume_if ''+-'' r) (\<lambda>(c, st).
                    preserve_keyword ''0123456789'' c st))
               else Inr (c, st)
           | None \<Rightarrow> Inr (c, st)) (\<lambda>(c, st).
    preserve_keyword ''fFlLuU'' c st) = Inr r"
    using a by (auto simp: floating_tail_def q)
  have kw: "preserve_keyword S c st = Inr r \<Longrightarrow> \<exists>w. moved w (c, st) r" for S c st r
    by (auto dest: moved_preserve_keyword)
  have "\<exists>w. moved w q q1"
  proof (cases "c = Some CHR ''.''")
    case True
    then obtain x where x: "consume_byte CHR ''.'' st = Inr x" "preserve_keyword ''0123456789'' (fst x) (snd x) = Inr q1"
      using q1 by auto
    have "moved ''.'' q x" using moved_consume_byte [OF x(1)] by (simp add: q True)
    moreover obtain w where "moved w x q1" using kw [OF x(2)] by auto
    ultimately show ?thesis using moved_trans by blast
  next
    case False
    then show ?thesis using q1 by (auto simp: q intro: exI [of _ "[]"])
  qed
  moreover
  obtain c1 st1 where qq: "q1 = (c1, st1)" by fastforce
  obtain q2 where q2: "(case c1 of
             Some e \<Rightarrow>
               if e = CHR ''e'' \<or> e = CHR ''E''
               then bindE (consume_byte e st1) (\<lambda>r.
                    bindE (consume_if ''+-'' r) (\<lambda>(c, st).
                    preserve_keyword ''0123456789'' c st))
               else Inr (c1, st1)
           | None \<Rightarrow> Inr (c1, st1)) = Inr q2"
    and r2: "preserve_keyword ''fFlLuU'' (fst q2) (snd q2) = Inr r"
    using r1 by (auto simp: qq)
  have "\<exists>w. moved w q1 q2"
  proof (cases "c1 = Some CHR ''e'' \<or> c1 = Some CHR ''E''")
    case True
    then obtain e where e: "c1 = Some e" "e = CHR ''e'' \<or> e = CHR ''E''" by blast
    then obtain x y where x: "consume_byte e st1 = Inr x" "consume_if ''+-'' x = Inr y"
        "preserve_keyword ''0123456789'' (fst y) (snd y) = Inr q2"
      using q2 by auto
    obtain w1 w2 where "moved w1 x y" "moved w2 y q2"
      using moved_consume_if [OF x(2)] kw [OF x(3)] by (metis moved_Nil prod.collapse)
    then show ?thesis using moved_trans moved_consume_byte [OF x(1)] e(1) by (metis qq)
  next
    case False
    then have "q2 = q1" using q2 by (auto simp: qq split: option.splits)
    then show ?thesis using moved_Nil by blast
  qed
  moreover have "\<exists>w. moved w q2 r" using kw [OF r2] by simp
  ultimately show ?thesis using moved_trans by meson
qed

text \<open>What a branch does to the text, by how it ends.\<close>

inductive spells :: "string \<Rightarrow> string \<Rightarrow> bool" where
  spells_same: "spells s s"
| spells_directive: "(\<forall>c \<in> set b. blank c) \<Longrightarrow> spells (CHR ''#'' # b @ w) (CHR ''#'' # w)"
| spells_literal: "q = CHR 0x22 \<or> q = CHR 0x27 \<Longrightarrow> spells (q # w @ [q]) (q # w)"

definition to_token :: "char option \<times> reader \<Rightarrow> char option \<times> reader \<Rightarrow> bool" where
  "to_token q r \<longleftrightarrow> (clean (snd q) \<longrightarrow> hold_string (snd q) = [] \<longrightarrow>
     (\<exists>s. pending q = s @ pending r \<and> s \<noteq> [] \<and> spells s (hold_string (snd r)) \<and> clean (snd r) \<and>
          length (hold_string (snd r)) < MAX_STRING (snd r) \<and> ends_at q r \<and> store (snd r) = store (snd q) \<and> token (snd r) = token (snd q) \<and>
          filename (snd r) = filename (snd q) \<and> MAX_STRING (snd r) = MAX_STRING (snd q)))"

lemma to_token_moved: "moved w q r \<Longrightarrow> w \<noteq> [] \<Longrightarrow> to_token q r"
  by (auto simp: to_token_def moved_def same_list_def intro!: exI [of _ w] spells_same)

text \<open>A branch that reads on from the \<open>consume_byte\<close> it begins with.\<close>

lemma to_token_consume:
  assumes "bindE (consume_byte c st) f = Inr r" and "\<And>q. f q = Inr r \<Longrightarrow> \<exists>w. moved w q r"
  shows "to_token (Some c, st) r"
proof -
  obtain q where q: "consume_byte c st = Inr q" "f q = Inr r" using assms(1) by auto
  then obtain w where "moved w q r" using assms(2) by blast
  from moved_trans [OF moved_consume_byte [OF q(1)] this] show ?thesis by (rule to_token_moved) simp
qed

lemma moved_consume_ifs:
  assumes "bindE (consume_if S q) f = Inr r" and "\<And>q. f q = Inr r \<Longrightarrow> \<exists>w. moved w q r"
  shows "\<exists>w. moved w q r"
proof -
  obtain p where p: "consume_if S q = Inr p" "f p = Inr r" using assms(1) by auto
  then obtain w where "moved w p r" using assms(2) by blast
  then show ?thesis using moved_consume_if [OF p(1)] moved_trans by blast
qed

lemma moved_consume_if_ex: "consume_if S q = Inr r \<Longrightarrow> \<exists>w. moved w q r"
  by (metis moved_consume_if moved_Nil)

lemma then_tokenD: "then_token m = Inr (f, r) \<Longrightarrow> f = New_Token \<and> m = Inr r"
  by (cases m) (auto simp: then_token_def)

lemma to_token_plus: "token_plus st = Inr (f, r) \<Longrightarrow> f = New_Token \<and> to_token (Some CHR ''+'', st) r"
  unfolding token_plus_def
  by (drule then_tokenD, erule conjE, rule conjI, assumption, erule to_token_consume,
      erule moved_consume_ifs, erule moved_consume_if_ex)

lemma to_token_minus: "token_minus st = Inr (f, r) \<Longrightarrow> f = New_Token \<and> to_token (Some CHR ''-'', st) r"
  unfolding token_minus_def
  by (drule then_tokenD, erule conjE, rule conjI, assumption, erule to_token_consume,
      erule moved_consume_ifs, erule moved_consume_ifs, erule moved_consume_if_ex)

lemma to_token_operator:
  assumes "token_operator c st = Inr (f, r)"
  shows "f = New_Token \<and> to_token (Some c, st) r"
proof -
  obtain c1 st1 where q: "consume_byte c st = Inr (c1, st1)" using assms by (auto simp: token_operator_def)
  have "f = New_Token \<and> (\<exists>w. moved w (c1, st1) r)"
  proof (cases c1)
    case None
    then show ?thesis using assms by (auto simp: token_operator_def q intro: exI [of _ "[]"])
  next
    case (Some d)
    show ?thesis
    proof (cases "operator_take c c1")
      case False
      then show ?thesis using assms Some by (auto simp: token_operator_def q intro: exI [of _ "[]"])
    next
      case True
      then obtain c2 st2 where q2: "consume_byte d st1 = Inr (c2, st2)"
        using assms Some by (auto simp: token_operator_def q)
      note m2 = moved_consume_byte [OF q2]
      show ?thesis
      proof (cases "c2 = Some CHR ''='' \<and> d = c \<and> (c = CHR ''<'' \<or> c = CHR ''>'')")
        case three: True
        then have "consume_byte c st1 = Inr (c2, st2)" using q2 by simp
        then have "then_token (consume_byte CHR ''='' st2) = Inr (f, r)"
          using assms Some True three by (simp add: token_operator_def q)
        then have "f = New_Token" "consume_byte CHR ''='' st2 = Inr r" using then_tokenD by blast+
        then show ?thesis using moved_trans [OF m2] moved_consume_byte three Some by blast
      next
        case False
        then have "f = New_Token" "r = (c2, st2)"
          using assms Some True by (auto simp: token_operator_def q q2)
        then show ?thesis using m2 Some by blast
      qed
    qed
  qed
  then show ?thesis using moved_trans [OF moved_consume_byte [OF q]] to_token_moved by (metis append_Cons list.distinct(1))
qed

lemma moved_preserve_string_loop:
  "preserve_string_loop f e c st = Inr st' \<Longrightarrow> \<exists>w. moved w (Some c, st) (Some f, st') \<and> w \<noteq> []"
proof (induction f e c st rule: preserve_string_loop.induct)
  case (1 f e c st)
  from 1(2) obtain d st1 where g: "consume_byte c st = Inr (Some d, st1)"
    by (subst (asm) preserve_string_loop.simps) (auto simp: Let_def split: option.splits)
  note m = moved_consume_byte [OF g]
  show ?case
  proof (cases "(\<not> e \<and> c = CHR 0x5C) \<or> d \<noteq> f")
    case True
    then have "preserve_string_loop f (\<not> e \<and> c = CHR 0x5C) d st1 = Inr st'"
      using 1(2) g by (subst (asm) preserve_string_loop.simps) (simp add: Let_def)
    then show ?thesis using 1(1) [OF refl g refl refl True] moved_trans [OF m] by blast
  next
    case False
    then have "st' = st1" "d = f" using 1(2) g by (auto simp: Let_def preserve_string_loop.simps [of f e c st])
    then show ?thesis using m by blast
  qed
qed

lemma to_token_string:
  assumes "preserve_string c st = Inr r" "c = CHR 0x22 \<or> c = CHR 0x27"
  shows "to_token (Some c, st) r"
proof -
  obtain st' where l: "preserve_string_loop c False c st = Inr st'" and r: "r = grab_byte st'"
    using assms by (auto simp: preserve_string_def)
  obtain w where w: "moved w (Some c, st) (Some c, st')" "w \<noteq> []"
    using moved_preserve_string_loop [OF l] by blast
  obtain c' st'' where g: "grab_byte st' = (c', st'')" by fastforce
  show ?thesis
    unfolding to_token_def fst_conv snd_conv
  proof (intro impI)
    assume cl: "clean st" "hold_string st = []"
    then have m: "clean st'" "c # unread st = w @ c # unread st'" "hold_string st' = w" "same_list st st'"
      "length w < MAX_STRING st'" using w by (auto simp: moved_def)
    note g' = grab_byte_clean [OF m(1) g]
    obtain v where v: "w = c # v" using m(2) w(2) by (cases w) auto
    have "pending (Some c, st) = (w @ [c]) @ pending r" using m(2) g'(1) by (simp add: r g)
    moreover have "spells (w @ [c]) (hold_string (snd r))"
      using spells_literal [OF assms(2), of v] by (simp add: r g g'(3) m(3) v)
    ultimately show "\<exists>s. pending (Some c, st) = s @ pending r \<and> s \<noteq> [] \<and> spells s (hold_string (snd r)) \<and>
        clean (snd r) \<and> length (hold_string (snd r)) < MAX_STRING (snd r) \<and> ends_at (Some c, st) r \<and> store (snd r) = store st \<and> token (snd r) = token st \<and>
        filename (snd r) = filename st \<and> MAX_STRING (snd r) = MAX_STRING st"
      using g'(2,3,4) m(3,4,5) ends_at_grab [OF m(1) g] by (intro exI [of _ "w @ [c]"]) (auto simp: r g same_list_def)
  qed
qed

text \<open>A branch that makes its own tokens: the last of them, and the blank one after a macro's name.\<close>

definition made_tokens :: "char option \<times> reader \<Rightarrow> char option \<times> reader \<Rightarrow> bool" where
  "made_tokens q r \<longleftrightarrow> (\<exists>p. to_token q (fst r, p) \<and>
     (snd r = new_token (hold_string p) p \<or>
      snd r = new_token '' '' (new_token (hold_string p) p) \<and> fst r \<noteq> Some CHR ''(''))"

lemma to_token_update: "to_token q (c, st) \<Longrightarrow> to_token q (c, st\<lparr>define_state := d\<rparr>)"
proof -
  have "pending (c, st\<lparr>define_state := d\<rparr>) = pending (c, st)" by (cases c) auto
  then show "to_token q (c, st) \<Longrightarrow> ?thesis" by (simp add: to_token_def ends_at_def)
qed

lemma branch_identifier:
  assumes "token_identifier c st = Inr (f, r)" "in_set c identifier_chars"
  shows "f = New_Token \<and> to_token (Some c, st) r \<or> f = Return \<and> made_tokens (Some c, st) r"
proof -
  obtain r1 where p1: "preserve_keyword identifier_chars (Some c) st = Inr r1"
    using assms(1) by (auto simp: token_identifier_def Let_def)
  obtain q where q: "consume_byte c st = Inr q" "preserve_keyword identifier_chars (fst q) (snd q) = Inr r1"
    using p1 assms(2) by (auto simp: preserve_keyword.simps [of _ "Some c" st])
  obtain r2 where p: "(if in_set c ''0123456789'' then floating_tail r1 else Inr r1) = Inr r2"
      "end_identifier r2 = (f, r)"
    using assms(1) by (auto simp: token_identifier_def Let_def p1)
  obtain w1 w2 where "moved w1 q r1" "moved w2 r1 r2"
    using moved_preserve_keyword [OF q(2)] p(1) moved_floating_tail moved_Nil
    by (metis Inr_inject prod.collapse)
  then have "moved ([c] @ w1 @ w2) (Some c, st) r2"
    using moved_trans moved_consume_byte [OF q(1)] by blast
  then have t: "to_token (Some c, st) r2" by (rule to_token_moved) simp
  obtain c2 st2 where r2: "r2 = (c2, st2)" by fastforce
  show ?thesis using p(2) t to_token_update [OF t [unfolded r2], of DEFINE_STATE_NONE]
    by (auto simp: end_identifier_def r2 Let_def made_tokens_def split: if_splits)
qed

lemma branch_hash:
  assumes "token_hash st = Inr (f, r)"
  shows "f = New_Token \<and> to_token (Some CHR ''#'', st) r \<or> f = Return \<and> made_tokens (Some CHR ''#'', st) r"
proof -
  obtain c1 st1 where k: "consume_byte CHR ''#'' st = Inr (c1, st1)"
    using assms by (auto simp: token_hash_def)
  note m1 = moved_consume_byte [OF k]
  show ?thesis
  proof (cases "c1 = Some CHR ''#''")
    case True
    then obtain c2 st2 where k2: "consume_byte CHR ''#'' st1 = Inr (c2, st2)"
      and r: "f = Return" "r = (c2, new_token (hold_string st2) st2)"
      using assms by (auto simp: token_hash_def k)
    have "to_token (Some CHR ''#'', st) (c2, st2)"
      using moved_trans [OF m1] moved_consume_byte [OF k2] True by (blast intro: to_token_moved)
    then show ?thesis by (auto simp: r made_tokens_def)
  next
    case False
    obtain c2 st2 where w: "clearWhiteSpace c1 st1 = (c2, st2)" by fastforce
    then obtain c3 st3 where k3: "preserve_keyword identifier_chars c2 st2 = Inr (c3, st3)"
      using assms False by (auto simp: token_hash_def k Let_def)
    then have r: "f = New_Token" "r = (c3, st3) \<or> r = (c3, st3\<lparr>define_state := DEFINE_STATE_DEFINE\<rparr>)"
      using assms False w by (auto simp: token_hash_def k Let_def)
    obtain b where b: "skipped b (c1, st1) (c2, st2)" "\<forall>x \<in> set b. blank x"
      using skipped_clearWhiteSpace [OF w] by blast
    obtain v where v: "moved v (c2, st2) (c3, st3)"
      using moved_preserve_keyword [OF k3] by blast
    have "to_token (Some CHR ''#'', st) (c3, st3)"
      unfolding to_token_def fst_conv snd_conv
    proof (intro impI)
      assume cl: "clean st" "hold_string st = []"
      then have "clean st3" "CHR ''#'' # unread st = (CHR ''#'' # b @ v) @ pending (c3, st3)"
          "hold_string st3 = CHR ''#'' # v" "same_list st st3" "length (hold_string st3) < MAX_STRING st3"
          "ends_at (Some CHR ''#'', st) (c3, st3)"
        using m1 b(1) v by (auto simp: moved_def skipped_def same_list_def intro: ends_at_trans)
      then show "\<exists>s. pending (Some CHR ''#'', st) = s @ pending (c3, st3) \<and> s \<noteq> [] \<and> spells s (hold_string st3) \<and>
          clean st3 \<and> length (hold_string st3) < MAX_STRING st3 \<and> ends_at (Some CHR ''#'', st) (c3, st3) \<and> store st3 = store st \<and> token st3 = token st \<and> filename st3 = filename st \<and>
          MAX_STRING st3 = MAX_STRING st"
        using spells_directive [OF b(2), of v]
        by (intro exI [of _ "CHR ''#'' # b @ v"]) (auto simp: same_list_def)
    qed
    then show ?thesis using r to_token_update by blast
  qed
qed

section \<open>What lies between tokens\<close>

text \<open>
  \<open>gap s r\<close>: the text \<open>s\<close> is blanks, comments and line continuations before \<open>r\<close>. A block comment
  ends at the first star and slash after its opening, but the code also takes the opening followed
  at once by a slash for a whole comment.
\<close>

inductive gap :: "string \<Rightarrow> string \<Rightarrow> bool" where
  gap_refl: "gap s s"
| gap_blank: "blank c \<Longrightarrow> gap s r \<Longrightarrow> gap (c # s) r"
| gap_block: "chr_at s 0 \<noteq> CHR ''/'' \<Longrightarrow> comment_rest s = Some s' \<Longrightarrow> gap s' r \<Longrightarrow> gap (''/*'' @ s) r"
| gap_slash: "gap s r \<Longrightarrow> gap (''/*/'' @ s) r"
| gap_line: "LF \<notin> set w \<Longrightarrow> gap (LF # s) r \<Longrightarrow> gap (''//'' @ w @ LF # s) r"
| gap_continue: "gap s r \<Longrightarrow> gap (CHR 0x5C # LF # s) r"

lemma gap_blanks: "\<forall>c \<in> set w. blank c \<Longrightarrow> gap s r \<Longrightarrow> gap (w @ s) r"
  by (induction w) (auto intro: gap_blank)

definition to_gap :: "char option \<times> reader \<Rightarrow> char option \<times> reader \<Rightarrow> bool" where
  "to_gap q r \<longleftrightarrow> (clean (snd q) \<longrightarrow>
     clean (snd r) \<and> same_list (snd q) (snd r) \<and> ends_at q r \<and> (\<forall>x. gap (pending r) x \<longrightarrow> gap (pending q) x))"

lemma branch_slash:
  assumes "token_slash st = Inr (f, r)"
  shows "f = New_Token \<and> to_token (Some CHR ''/'', st) r \<or> f = Reset \<and> to_gap (Some CHR ''/'', st) r"
proof -
  obtain c1 st1 where k: "consume_byte CHR ''/'' st = Inr (c1, st1)"
    using assms by (auto simp: token_slash_def)
  obtain c2 st2 where g: "grab_byte st1 = (c2, st2)" by fastforce
  note m = moved_behind [OF moved_consume_byte [OF k]]
  consider (block) "c1 = Some CHR ''*''" | (rest) "c1 = Some CHR ''/''" |
    (other) "c1 \<noteq> Some CHR ''*''" "c1 \<noteq> Some CHR ''/''" by blast
  then show ?thesis
  proof cases
    case block
    then obtain st3 where b: "skip_block c2 st2 = Inr st3" and r: "f = Reset" "grab_byte st3 = r"
      using assms by (auto simp: token_slash_def k g split: prod.splits)
    have pre: "behind ''/*'' (Some CHR ''/'', st) (c2, st2)"
      using behind_trans [OF m [unfolded block] behind_trans [OF behind_Some behind_grab [OF g]]] by simp
    have "to_gap (Some CHR ''/'', st) r"
    proof (cases "c2 = Some CHR ''/''")
      case True
      then have e: "st3 = st2" using b by (simp add: skip_block.simps)
      then have "behind ''/*/'' (Some CHR ''/'', st) r"
        using behind_trans [OF pre [unfolded True] behind_trans [OF behind_Some behind_grab [OF r(2) [unfolded e]]]] by simp
      moreover have "clean st3" if "clean st"
        using behind_trans [OF pre [unfolded True] behind_Some] that e by (simp add: behind_def)
      ultimately show ?thesis using gap_slash ends_at_grab [OF _ r(2)] by (auto simp: to_gap_def behind_def)
    next
      case False
      obtain w where w: "behind w (c2, st2) (None, st3)" "\<forall>s. comment_rest (w @ s) = Some s"
        using behind_skip_block [OF b False] by blast
      have all: "behind (''/*'' @ w) (Some CHR ''/'', st) r"
        using behind_trans [OF pre behind_trans [OF w(1) behind_grab [OF r(2)]]] by simp
      have "chr_at (w @ pending r) 0 \<noteq> CHR ''/''" if "clean st"
      proof (cases "c2")
        case None
        have "clean st1" using m that by (simp add: behind_def)
        then have "unread st2 = []" "clean st2" using grab_byte_clean [OF _ g] None by auto
        then have "w @ unread st3 = []" using w(1) None by (simp add: behind_def)
        moreover have "unread st3 = pending r" using \<open>clean st2\<close> w(1) behind_grab [OF r(2)] by (simp add: behind_def)
        ultimately show ?thesis by simp
      next
        case (Some d)
        have "clean st2" using pre that by (simp add: behind_def)
        then have "w @ pending r = d # unread st2"
          using w(1) behind_grab [OF r(2)] Some by (simp add: behind_def)
        then show ?thesis using False Some by simp
      qed
      moreover have "clean st3" if "clean st"
        using behind_trans [OF pre w(1)] that by (simp add: behind_def)
      ultimately show ?thesis using all w(2) gap_block [of "w @ pending r"] ends_at_grab [OF _ r(2)]
        by (auto simp: to_gap_def behind_def)
    qed
    then show ?thesis using r(1) by blast
  next
    case rest
    then obtain c3 st3 where b: "skip_line c2 st2 = Some (c3, st3)" and r: "f = Reset" "r = (c3, st3)"
      using assms by (cases r) (auto simp: token_slash_def k g split: option.splits)
    obtain w where w: "behind w (c2, st2) (c3, st3)" "LF \<notin> set w" using behind_skip_line [OF b] by blast
    have "c3 = Some LF" using skip_line_Some [OF b] by simp
    moreover have "behind (''//'' @ w) (Some CHR ''/'', st) r"
      using behind_trans [OF m [unfolded rest] behind_trans [OF behind_Some behind_trans [OF behind_grab [OF g] w(1)]]] r by simp
    ultimately show ?thesis using r gap_line [OF w(2)] by (auto simp: to_gap_def behind_def ends_at_def)
  next
    case other
    then have "f = New_Token" "consume_if ''='' (c1, st1) = Inr r"
      using assms by (auto simp: token_slash_def k dest: then_tokenD)
    moreover have "bindE (consume_byte CHR ''/'' st) (consume_if ''='') = Inr r"
      using k \<open>consume_if ''='' (c1, st1) = Inr r\<close> by simp
    ultimately show ?thesis using to_token_consume moved_consume_if_ex by blast
  qed
qed

lemma branch_backslash:
  assumes "token_backslash st = Inr (f, r)"
  shows "f = New_Token \<and> to_token (Some CHR 0x5C, st) r \<or> f = Reset \<and> to_gap (Some CHR 0x5C, st) r"
proof -
  obtain c1 st1 where k: "consume_byte CHR 0x5C st = Inr (c1, st1)"
    using assms by (auto simp: token_backslash_def)
  note m = moved_consume_byte [OF k]
  show ?thesis
  proof (cases "c1 = Some LF")
    case True
    then have k2: "f = Reset" "consume_byte LF st1 = Inr r" using assms by (auto simp: token_backslash_def k)
    have "moved [CHR 0x5C, LF] (Some CHR 0x5C, st) r"
      using moved_trans [OF m] moved_consume_byte [OF k2(2)] True by fastforce
    then show ?thesis using k2(1) gap_continue by (auto simp: to_gap_def moved_def)
  next
    case False
    then show ?thesis using assms to_token_moved [OF m] by (auto simp: token_backslash_def k)
  qed
qed

lemma branch_simple: "bindE (consume_byte c st) Inr = Inr r \<Longrightarrow> to_token (Some c, st) r"
  by (erule to_token_consume) (auto intro: exI [of _ "[]"])

lemma to_token_star: "bindE (consume_byte c st) (consume_if S) = Inr r \<Longrightarrow> to_token (Some c, st) r"
  by (erule to_token_consume) (rule moved_consume_if_ex)

lemma consume_byte_token: "consume_byte c st = Inr r \<Longrightarrow> to_token (Some c, st) r"
  by (rule branch_simple) simp

lemma if_branch: "(if b then x else y) = z \<Longrightarrow> (b \<Longrightarrow> x = z \<Longrightarrow> P) \<Longrightarrow> (\<not> b \<Longrightarrow> y = z \<Longrightarrow> P) \<Longrightarrow> P"
  by (simp split: if_splits)

lemma token_branch_text:
  assumes "token_branch c st = Inr (f, r)"
  shows "f = New_Token \<and> to_token (Some c, st) r \<or> f = Return \<and> made_tokens (Some c, st) r \<or>
    f = Reset \<and> to_gap (Some c, st) r"
  using assms unfolding token_branch_def
proof (elim if_branch)
  assume "c = CHR ''#''" "token_hash st = Inr (f, r)"
  then show ?thesis using branch_hash by blast
next
  assume "in_set c identifier_chars" "token_identifier c st = Inr (f, r)"
  then show ?thesis using branch_identifier by blast
next
  assume "token_operator c st = Inr (f, r)"
  then show ?thesis using to_token_operator by blast
next
  assume "in_set c [CHR 0x27, CHR 0x22]" "then_token (preserve_string c st) = Inr (f, r)"
  moreover from this(1) have "c = CHR 0x22 \<or> c = CHR 0x27" by (auto simp: in_set_iff)
  ultimately show ?thesis using to_token_string then_tokenD by blast
next
  assume "c = CHR ''/''" "token_slash st = Inr (f, r)"
  then show ?thesis using branch_slash by blast
next
  assume "then_token (consume_byte c st) = Inr (f, r)"
  then show ?thesis using consume_byte_token then_tokenD by blast
next
  assume "then_token (bindE (consume_byte c st) (consume_if ''='')) = Inr (f, r)"
  then show ?thesis using to_token_star then_tokenD by blast
next
  assume "c = CHR ''+''" "token_plus st = Inr (f, r)"
  then show ?thesis using to_token_plus by blast
next
  assume "c = CHR ''-''" "token_minus st = Inr (f, r)"
  then show ?thesis using to_token_minus by blast
next
  assume "c = CHR 0x5C" "token_backslash st = Inr (f, r)"
  then show ?thesis using branch_backslash by blast
next
  assume "then_token (consume_byte c st) = Inr (f, r)"
  then show ?thesis using consume_byte_token then_tokenD by blast
qed

section \<open>A whole file\<close>

text \<open>The tokens \<open>ts\<close> were put in front of the list.\<close>

definition added :: "string list \<Rightarrow> reader \<Rightarrow> reader \<Rightarrow> bool" where
  "added ts st st' \<longleftrightarrow> (\<exists>ns. store st' = store st @ ns \<and> map tl_s ns = ts \<and>
     (\<forall>as. read_list (store st) as \<longrightarrow> token st = first_or as None \<longrightarrow>
        read_list (store st') (rev [length (store st)..<length (store st')] @ as) \<and>
        token st' = first_or (rev [length (store st)..<length (store st')] @ as) None))"

lemma read_list_append: "read_list h as \<Longrightarrow> read_list (h @ ns) as"
  by (induction as) (auto simp: nth_append)

lemma added_Nil: "store st' = store st \<Longrightarrow> token st' = token st \<Longrightarrow> added [] st st'"
  by (simp add: added_def)

lemma added_trans:
  assumes "added ts a b" "added us b c"
  shows "added (ts @ us) a c"
proof -
  obtain ns ms where n: "store b = store a @ ns" "map tl_s ns = ts" "store c = store b @ ms" "map tl_s ms = us"
    using assms by (auto simp: added_def)
  have r: "rev [length (store b)..<length (store c)] @ rev [length (store a)..<length (store b)] =
      rev [length (store a)..<length (store c)]"
    using n by (simp flip: rev_append) (metis le_add1 add.assoc upt_add_eq_append)
  show ?thesis
    unfolding added_def
  proof (intro exI [of _ "ns @ ms"] conjI allI impI)
    fix as
    assume "read_list (store a) as" "token a = first_or as None"
    then have "read_list (store b) (rev [length (store a)..<length (store b)] @ as)"
      "token b = first_or (rev [length (store a)..<length (store b)] @ as) None"
      using assms(1) by (auto simp: added_def)
    then have "read_list (store c) (rev [length (store b)..<length (store c)] @ rev [length (store a)..<length (store b)] @ as)"
      "token c = first_or (rev [length (store b)..<length (store c)] @ rev [length (store a)..<length (store b)] @ as) None"
      using assms(2) unfolding added_def by blast+
    then show "read_list (store c) (rev [length (store a)..<length (store c)] @ as)"
      "token c = first_or (rev [length (store a)..<length (store c)] @ as) None"
      by (simp_all only: r [symmetric] append_assoc)
  qed (use n in auto)
qed

lemma copy_string_loop_id:
  "c_str s \<Longrightarrow> i + int (length s) \<le> m \<Longrightarrow> copy_string_loop i m s = s"
proof (induction s arbitrary: i)
  case (Cons c s)
  then show ?case using Cons.IH [of "i + 1"] by auto
qed simp

lemma copy_string_id: "c_str s \<Longrightarrow> int (length s) \<le> m \<Longrightarrow> copy_string s m = s"
  by (simp add: copy_string_def copy_string_loop_id)

lemma added_new_token: "added [copy_string s (int (MAX_STRING st))] st (new_token s st)"
  by (auto simp: added_def new_token_def read_list_append)

lemma spells_subset: "spells s t \<Longrightarrow> set t \<subseteq> set s"
  by (induction rule: spells.induct) auto

lemma comment_rest_subset: "comment_rest s = Some r \<Longrightarrow> set r \<subseteq> set s"
proof (induction s)
  case (Cons c s)
  have "set (tl s) \<subseteq> set s" by (cases s) auto
  then show ?case using Cons by (auto split: if_splits)
qed simp

lemma gap_subset: "gap s r \<Longrightarrow> set r \<subseteq> set s"
  by (induction rule: gap.induct) (auto dest: comment_rest_subset)

lemma gap_trans: "gap a b \<Longrightarrow> gap b c \<Longrightarrow> gap a c"
proof (induction rule: gap.induct)
  case (gap_block s s' r)
  then show ?case using gap.gap_block by blast
next
  case (gap_slash s r)
  then show ?case using gap.gap_slash by blast
next
  case (gap_line w s r)
  then show ?case using gap.gap_line by blast
qed (auto intro: gap.intros)

text \<open>One call: nothing at the end of the file, a token, or a macro's name and its blank.\<close>

definition one_token :: "string \<Rightarrow> char option \<times> reader \<Rightarrow> reader \<Rightarrow> bool" where
  "one_token s r st \<longleftrightarrow>
     s = [] \<and> fst r = None \<and> pending r = [] \<and> added [] st (snd r) \<or>
     s \<noteq> [] \<and> (\<exists>t. spells s t \<and>
        (added [t] st (snd r) \<or> added [t, '' ''] st (snd r) \<and> fst r \<noteq> Some CHR ''(''))"

definition token_read :: "char option \<times> reader \<Rightarrow> char option \<times> reader \<Rightarrow> bool" where
  "token_read q r \<longleftrightarrow> (clean (snd q) \<longrightarrow> NUL \<notin> set (pending q) \<longrightarrow> (fst q = None \<longrightarrow> pending q = []) \<longrightarrow>
     clean (snd r) \<and> (fst r = None \<longrightarrow> pending r = []) \<and>
     (\<exists>s. gap (pending q) (s @ pending r) \<and> one_token s r (snd q)))"

lemma token_read_gap:
  assumes "to_gap q p" "token_read p r"
  shows "token_read q r"
  unfolding token_read_def
proof (intro impI)
  assume a: "clean (snd q)" "NUL \<notin> set (pending q)" "fst q = None \<longrightarrow> pending q = []"
  then have p: "clean (snd p)" "same_list (snd q) (snd p)" "ends_at q p" and g: "gap (pending p) x \<Longrightarrow> gap (pending q) x" for x
    using assms(1) by (auto simp: to_gap_def)
  have qp: "gap (pending q) (pending p)" using g [OF gap_refl] .
  have "NUL \<notin> set (pending p)" "fst p = None \<longrightarrow> pending p = []"
    using gap_subset [OF qp] a p(3) by (auto simp: ends_at_def)
  then obtain s where s: "clean (snd r)" "fst r = None \<longrightarrow> pending r = []" "gap (pending p) (s @ pending r)" "one_token s r (snd p)"
    using assms(2) p(1) by (auto simp: token_read_def)
  have "added [] (snd q) (snd p)" using p(2) by (auto simp: same_list_def intro: added_Nil)
  then have ad: "added ts (snd p) (snd r) \<Longrightarrow> added ts (snd q) (snd r)" for ts
    using added_trans by fastforce
  have "one_token s r (snd q)" using s(4) ad unfolding one_token_def by blast
  then show "clean (snd r) \<and> (fst r = None \<longrightarrow> pending r = []) \<and>
     (\<exists>s. gap (pending q) (s @ pending r) \<and> one_token s r (snd q))"
    using s(1,2) g [OF s(3)] by blast
qed

lemma one_tokenI:
  "s \<noteq> [] \<Longrightarrow> spells s t \<Longrightarrow> added [t] st (snd r) \<Longrightarrow> one_token s r st"
  "s \<noteq> [] \<Longrightarrow> spells s t \<Longrightarrow> added [t, '' ''] st (snd r) \<Longrightarrow> fst r \<noteq> Some CHR ''('' \<Longrightarrow> one_token s r st"
  by (auto simp: one_token_def)

lemma to_token_added:
  assumes "to_token q (c, p)" "clean (snd q)" "hold_string (snd q) = []" "NUL \<notin> set (pending q)"
  shows "\<exists>s t. pending q = s @ pending (c, p) \<and> s \<noteq> [] \<and> spells s t \<and> clean p \<and> ends_at q (c, p) \<and>
    added [t] (snd q) (new_token (hold_string p) p)"
proof -
  obtain s where s: "pending q = s @ pending (c, p)" "s \<noteq> []" "spells s (hold_string p)" "clean p"
      "length (hold_string p) < MAX_STRING p" "ends_at q (c, p)"
      "store p = store (snd q)" "token p = token (snd q)"
    using assms(1-3) by (auto simp: to_token_def)
  have "c_str (hold_string p)" using spells_subset [OF s(3)] s(1) assms(4) by (auto simp: c_str_def)
  then have "copy_string (hold_string p) (int (MAX_STRING p)) = hold_string p"
    using s(5) by (simp add: copy_string_id)
  then have "added [hold_string p] p (new_token (hold_string p) p)" using added_new_token [of "hold_string p" p] by simp
  moreover have "added [] (snd q) p" by (rule added_Nil) (simp_all add: s(7,8))
  ultimately have "added [hold_string p] (snd q) (new_token (hold_string p) p)"
    using added_trans by fastforce
  then show ?thesis by (intro exI conjI) (rule s(1) s(2) s(3) s(4) s(6) | assumption)+
qed

lemma pending_new_token [simp]: "pending (c, new_token s st) = pending (c, st)"
  by (cases c) simp_all

lemma token_read_new_token:
  assumes "to_token q (c, p)" "hold_string (snd q) = []" "fst q \<noteq> None"
  shows "token_read q (c, new_token (hold_string p) p)"
  unfolding token_read_def
proof (intro impI)
  assume a: "clean (snd q)" "NUL \<notin> set (pending q)"
  then obtain s t where s: "pending q = s @ pending (c, p)" "s \<noteq> []" "spells s t" "clean p" "ends_at q (c, p)"
      "added [t] (snd q) (new_token (hold_string p) p)"
    using to_token_added assms by blast
  have "one_token s (c, new_token (hold_string p) p) (snd q)"
    using one_tokenI(1) [OF s(2,3)] s(6) by simp
  then show "clean (snd (c, new_token (hold_string p) p)) \<and>
      (fst (c, new_token (hold_string p) p) = None \<longrightarrow> pending (c, new_token (hold_string p) p) = []) \<and>
      (\<exists>s. gap (pending q) (s @ pending (c, new_token (hold_string p) p)) \<and>
        one_token s (c, new_token (hold_string p) p) (snd q))"
    using assms(3) s(4,5) by (auto simp: ends_at_def s(1) intro: gap_refl)
qed

lemma token_read_made:
  assumes "made_tokens q r" "hold_string (snd q) = []" "fst q \<noteq> None"
  shows "token_read q r"
proof -
  obtain p where p: "to_token q (fst r, p)" "snd r = new_token (hold_string p) p \<or>
      snd r = new_token '' '' (new_token (hold_string p) p) \<and> fst r \<noteq> Some CHR ''(''"
    using assms(1) by (auto simp: made_tokens_def)
  show ?thesis
  proof (cases "snd r = new_token (hold_string p) p")
    case True
    then have "r = (fst r, new_token (hold_string p) p)" by (metis prod.collapse)
    then show ?thesis using token_read_new_token [OF p(1) assms(2,3)] by simp
  next
    case False
    then have r: "snd r = new_token '' '' (new_token (hold_string p) p)" "fst r \<noteq> Some CHR ''(''" using p(2) by blast+
    show ?thesis
      unfolding token_read_def
    proof (intro impI)
      assume a: "clean (snd q)" "NUL \<notin> set (pending q)"
      obtain s t where s: "pending q = s @ pending (fst r, p)" "s \<noteq> []" "spells s t" "clean p" "ends_at q (fst r, p)"
          "added [t] (snd q) (new_token (hold_string p) p)"
        using to_token_added [OF p(1) a(1) assms(2) a(2)] by blast
      have b: "copy_string '' '' m = '' ''" for m by (simp add: copy_string_def)
      have "added [t, '' ''] (snd q) (snd r)"
        using added_trans [OF s(6) added_new_token [of "'' ''"]] by (simp add: r(1) b)
      moreover have "pending r = pending (fst r, p)" by (cases r; cases "fst r") (use r(1) in auto)
      moreover have "one_token s r (snd q)" using one_tokenI(2) [OF s(2,3)] calculation(1) r(2) by blast
      ultimately show "clean (snd r) \<and> (fst r = None \<longrightarrow> pending r = []) \<and>
        (\<exists>s. gap (pending q) (s @ pending r) \<and> one_token s r (snd q))"
        using assms(3) s(4,5) r(1) by (auto simp: ends_at_def s(1) intro: gap_refl)
    qed
  qed
qed

lemma get_token_read: "get_token c st = Inr r \<Longrightarrow> token_read (c, st) r"
proof (induction c st rule: get_token.induct)
  case (1 c st)
  define st0 where "st0 = reset_hold_string st"
  have st0: "clean st0 = clean st" "pending (c, st0) = pending (c, st)" "same_list st st0" "hold_string st0 = []"
    by (cases c; simp add: st0_def reset_hold_string_def same_list_def)+
  obtain c1 st1 where w: "clearWhiteSpace c st0 = (c1, st1)" by fastforce
  obtain b where b: "skipped b (c, st0) (c1, st1)" "\<forall>x \<in> set b. blank x"
    using skipped_clearWhiteSpace [OF w] by blast
  have g0: "to_gap (c, st) (c1, st1)"
    unfolding to_gap_def
  proof (intro impI)
    assume "clean (snd (c, st))"
    then have k: "clean st1" "pending (c, st) = b @ pending (c1, st1)" "same_list st0 st1" "ends_at (c, st0) (c1, st1)"
      using b(1) st0 by (auto simp: skipped_def)
    then show "clean (snd (c1, st1)) \<and> same_list (snd (c, st)) (snd (c1, st1)) \<and> ends_at (c, st) (c1, st1) \<and>
       (\<forall>x. gap (pending (c1, st1)) x \<longrightarrow> gap (pending (c, st)) x)"
      using same_list_trans [OF st0(3)] gap_blanks [OF b(2)] by (auto simp: ends_at_def)
  qed
  have "token_read (c1, st1) r" if cl: "clean st"
  proof (cases c1)
    case None
    then have "r = (c1, st1)" using 1(2) w by (simp add: get_token.simps [of c st] st0_def)
    then show ?thesis using None
      by (auto simp: token_read_def one_token_def added_Nil intro!: exI [of _ "[]"] gap_refl)
  next
    case (Some d)
    obtain f c2 st2 where b2: "token_branch d st1 = Inr (f, c2, st2)"
      using 1(2) w by (auto simp: get_token.simps [of c st] st0_def Some)
    have h: "hold_string st1 = []" using b(1) st0 cl by (auto simp: skipped_def)
    note t = token_branch_text [OF b2]
    show ?thesis
    proof (cases f)
      case Reset
      have "get_token c2 st2 = Inr r"
        using 1(2) w by (simp add: get_token.simps [of c st] st0_def Some b2 Reset)
      then have "token_read (c2, st2) r" using 1(1) [OF w [symmetric, unfolded st0_def] Some b2 refl refl Reset] by blast
      then show ?thesis using t Reset token_read_gap Some by blast
    next
      case New_Token
      then have "r = (c2, new_token (hold_string st2) st2)"
        using 1(2) w by (simp add: get_token.simps [of c st] st0_def Some b2)
      then show ?thesis using t New_Token token_read_new_token [of "(Some d, st1)"] h Some by auto
    next
      case Return
      then have "r = (c2, st2)" using 1(2) w by (simp add: get_token.simps [of c st] st0_def Some b2)
      then show ?thesis using t Return token_read_made [of "(Some d, st1)"] h Some by auto
    qed
  qed
  then show ?case using token_read_gap [OF g0] by (cases "clean st") (blast, simp add: token_read_def)
qed

text \<open>
  The tokens \<open>ts\<close> spell the text: between two of them are only blanks, comments and line
  continuations, and each is written the way it is spelled. A token that is a blank stands
  after the name of a macro without arguments.
\<close>

inductive lexed :: "string \<Rightarrow> string list \<Rightarrow> bool" where
  lexed_end: "gap s [] \<Longrightarrow> lexed s []"
| lexed_token: "gap s (v @ r) \<Longrightarrow> v \<noteq> [] \<Longrightarrow> spells v t \<Longrightarrow> lexed r ts \<Longrightarrow> lexed s (t # ts)"
| lexed_macro: "gap s (v @ r) \<Longrightarrow> v \<noteq> [] \<Longrightarrow> spells v t \<Longrightarrow> chr_at r 0 \<noteq> CHR ''('' \<Longrightarrow> lexed r ts \<Longrightarrow>
    lexed s (t # '' '' # ts)"

lemma lexed_gap: "lexed r ts \<Longrightarrow> gap s r \<Longrightarrow> lexed s ts"
  by (induction rule: lexed.induct) (blast intro: lexed.intros gap_trans)+

lemma one_token_lexed:
  assumes "one_token s r st" "gap t (s @ pending r)" "lexed (pending r) us" "added us (snd r) st'"
    "fst r = None \<longrightarrow> pending r = []"
  shows "\<exists>ts. lexed t ts \<and> added ts st st'"
proof -
  consider (none) "s = []" "added [] st (snd r)" |
    (one) u where "s \<noteq> []" "spells s u" "added [u] st (snd r)" |
    (two) u where "s \<noteq> []" "spells s u" "added [u, '' ''] st (snd r)" "fst r \<noteq> Some CHR ''(''"
    using assms(1) by (auto simp: one_token_def)
  then show ?thesis
  proof cases
    case none
    then show ?thesis using lexed_gap [OF assms(3)] assms(2) added_trans [OF none(2) assms(4)] by auto
  next
    case one
    then show ?thesis
      using lexed_token [OF assms(2) one(1,2) assms(3)] added_trans [OF one(3) assms(4)] by auto
  next
    case two
    have "chr_at (pending r) 0 \<noteq> CHR ''(''" using two(4) assms(5) by (cases r; cases "fst r") auto
    then show ?thesis
      using lexed_macro [OF assms(2) two(1,2) _ assms(3)] added_trans [OF two(3) assms(4)] by auto
  qed
qed

text \<open>The node that \<open>token\<close> points to is one of the store.\<close>

definition in_store :: "reader \<Rightarrow> bool" where
  "in_store st \<longleftrightarrow> (\<exists>as. read_list (store st) as \<and> token st = first_or as None)"

lemma added_in_store: "added ts st st' \<Longrightarrow> in_store st \<Longrightarrow> in_store st'"
  by (auto simp: added_def in_store_def)

lemma token_s_in_store: "in_store st \<Longrightarrow> token_s st = Inr s \<Longrightarrow> s \<in> set (map tl_s (store st))"
proof -
  assume "in_store st" "token_s st = Inr s"
  then obtain a as where "read_list (store st) (a # as)" "s = tl_s (store st ! a)"
    by (auto simp: in_store_def token_s_def node_def split: option.splits elim!: first_or.elims)
  then show ?thesis by auto
qed

lemma comment_rest_suffix: "comment_rest s = Some r \<Longrightarrow> suffix r s"
proof (induction s)
  case (Cons c s)
  have "suffix (tl s) (c # s)" by (cases s) (auto simp: suffix_def)
  then show ?case using Cons by (auto simp: suffix_Cons split: if_splits)
qed simp

lemma gap_suffix: "gap s r \<Longrightarrow> suffix r s"
proof (induction rule: gap.induct)
  case (gap_block s s' r)
  then show ?case using comment_rest_suffix [of s s'] by (auto simp: suffix_Cons)
next
  case (gap_line w s r)
  then show ?case by (metis append_Cons append_Nil suffix_Cons suffix_appendI suffix_order.trans)
qed (auto simp: suffix_Cons)

text \<open>The word that makes a token \<open>#FILENAME\<close>.\<close>

lemma spells_filename: "spells s t \<Longrightarrow> t = ''#FILENAME'' \<Longrightarrow> sublist ''FILENAME'' s"
proof (induction rule: spells.induct)
  case (spells_directive b w)
  then have "CHR ''#'' # b @ w = (CHR ''#'' # b) @ ''FILENAME'' @ []" by simp
  then show ?case by (metis sublist_appendI)
qed (auto simp: sublist_Cons_right)

lemma sublist_gap: "gap s (v @ r) \<Longrightarrow> sublist x v \<or> sublist x r \<Longrightarrow> sublist x s"
proof -
  assume "gap s (v @ r)"
  then obtain u where "s = u @ v @ r" using gap_suffix by (auto simp: suffix_def)
  then have "sublist v s" "sublist r s" by (metis sublist_appendI, metis append.assoc append_Nil2 sublist_appendI)
  then show "sublist x v \<or> sublist x r \<Longrightarrow> ?thesis" by (blast intro: sublist_order.order.trans)
qed

definition no_filename :: "reader \<Rightarrow> bool" where
  "no_filename st \<longleftrightarrow> (\<forall>t \<in> set (map tl_s (store st)). \<not> match_loop ''#FILENAME'' t)"

lemma spells_no_filename:
  assumes "spells v t" "\<not> sublist ''FILENAME'' v" "NUL \<notin> set v"
  shows "\<not> match_loop ''#FILENAME'' t"
proof -
  have "c_str t" using spells_subset [OF assms(1)] assms(3) by (auto simp: c_str_def)
  then have "match_loop ''#FILENAME'' t \<longleftrightarrow> ''#FILENAME'' = t" by (intro match_loop_iff) simp_all
  then show ?thesis using spells_filename [OF assms(1)] assms(2) by blast
qed

lemma one_token_no_filename:
  assumes "one_token v r st" "\<not> sublist ''FILENAME'' v" "NUL \<notin> set v" "no_filename st"
  shows "no_filename (snd r)"
proof -
  have b: "\<not> match_loop ''#FILENAME'' '' ''" by code_simp
  have "\<exists>ts. added ts st (snd r) \<and> (\<forall>t \<in> set ts. \<not> match_loop ''#FILENAME'' t)"
  proof (cases "v = []")
    case True
    then show ?thesis using assms(1) by (auto simp: one_token_def intro!: exI [of _ "[]"])
  next
    case False
    then obtain t where "spells v t" "added [t] st (snd r) \<or> added [t, '' ''] st (snd r)"
      using assms(1) by (auto simp: one_token_def)
    then show ?thesis using spells_no_filename [OF _ assms(2,3)] b
      by (metis empty_iff list.set(1) set_ConsD)
  qed
  then obtain ts where ts: "added ts st (snd r)" "\<forall>t \<in> set ts. \<not> match_loop ''#FILENAME'' t" by blast
  then obtain ns where "store (snd r) = store st @ ns" "map tl_s ns = ts" by (auto simp: added_def)
  then show ?thesis using assms(4) ts(2) by (auto simp: no_filename_def)
qed

lemma one_token_added: "one_token s r st \<Longrightarrow> \<exists>ts. added ts st (snd r)"
  by (auto simp: one_token_def)

lemma read_loop_lexed:
  assumes "read_loop ch st = Inr st'" "clean st" "NUL \<notin> set (pending (ch, st))"
    "ch = None \<longrightarrow> pending (ch, st) = []" "in_store st" "no_filename st"
    "\<not> sublist ''FILENAME'' (pending (ch, st))"
  shows "\<exists>ts. lexed (pending (ch, st)) ts \<and> added ts st st'"
  using assms
proof (induction ch st rule: read_loop.induct)
  case (1 ch st)
  show ?case
  proof (cases ch)
    case None
    then have "st' = st" using 1(2) by (simp add: read_loop.simps)
    then show ?thesis using 1(5) None by (intro exI [of _ "[]"]) (auto intro: lexed_end gap_refl added_Nil)
  next
    case (Some d)
    obtain c1 st1 where g: "get_token ch st = Inr (c1, st1)"
      using 1(2) by (auto simp: read_loop.simps [of "Some d" st] Some)
    obtain s where s: "clean st1" "c1 = None \<longrightarrow> pending (c1, st1) = []"
        "gap (pending (ch, st)) (s @ pending (c1, st1))" "one_token s (c1, st1) st"
      using get_token_read [OF g] 1(3-5) by (auto simp: token_read_def)
    have ins: "in_store st1" using one_token_added [OF s(4)] added_in_store 1(6) by auto
    have nf: "no_filename st1"
      using one_token_no_filename [OF s(4) _ _ 1(7)] sublist_gap [OF s(3)] gap_subset [OF s(3)] 1(4,8) by auto
    have nf': "\<not> sublist ''FILENAME'' (pending (c1, st1))" using sublist_gap [OF s(3)] 1(8) by blast
    have nn: "NUL \<notin> set (pending (c1, st1))" using gap_subset [OF s(3)] 1(4) by auto
    obtain t where t: "token_s st1 = Inr t" "token st1 \<noteq> None"
      using 1(2) g by (auto simp: read_loop.simps [of "Some d" st] Some)
    have m: "\<not> match_loop ''#FILENAME'' t"
      using token_s_in_store [OF ins t(1)] nf by (auto simp: no_filename_def)
    have l: "read_loop c1 st1 = Inr st'"
      using 1(2) g t m by (simp add: read_loop.simps [of "Some d" st] Some)
    have "\<exists>us. lexed (pending (c1, st1)) us \<and> added us st1 st'"
      using 1(1) [of "(c1, st1)" c1 st1 "()" t "(c1, st1)" c1 st1] g t m Some l s nn ins nf nf' by auto
    then show ?thesis using one_token_lexed [OF s(4,3)] s(2) by fastforce
  qed
qed

end
