(* ===== verification/CcReaderEnd.thy ===== *)
theory CcReaderEnd
  imports CcReaderText
begin

text \<open>
  The byte 255 and the end of the file are the same for the tokenizer: what it does with a file
  that can be read, it does with any file that has the byte 255 and anything else behind it.
\<close>

section \<open>Two runs side by side\<close>

text \<open>
  The right run reads the file of the left one with the byte 255 and \<open>b\<close> behind it. As long as
  a character is in hand both have the same text before them; when none is, the left run is at the
  end of its file and the right one at \<open>b\<close>.
\<close>

definition side_by_side :: "reader \<Rightarrow> reader \<Rightarrow> bool" where
  "side_by_side s t \<longleftrightarrow> same_list s t \<and> hold_string t = hold_string s \<and> line t = line s \<and>
     clean s \<and> buffer_ok t"

definition cut_off :: "string \<Rightarrow> char option \<times> reader \<Rightarrow> char option \<times> reader \<Rightarrow> bool" where
  "cut_off b q r \<longleftrightarrow> fst r = fst q \<and> side_by_side (snd q) (snd r) \<and>
     (if fst q = None then unread (snd q) = [] \<and> unread (snd r) = b
      else unread (snd r) = unread (snd q) @ CHR 0xFF # b)"

definition both_return :: "('a \<Rightarrow> 'b \<Rightarrow> bool) \<Rightarrow> 'e + 'a \<Rightarrow> 'e + 'b \<Rightarrow> bool" where
  "both_return R m n \<longleftrightarrow> (\<forall>q. m = Inr q \<longrightarrow> (\<exists>r. n = Inr r \<and> R q r))"

definition cut_flow :: "string \<Rightarrow> flow \<times> char option \<times> reader \<Rightarrow> flow \<times> char option \<times> reader \<Rightarrow> bool" where
  "cut_flow b q r \<longleftrightarrow> fst r = fst q \<and> cut_off b (snd q) (snd r)"

lemma both_return_Inr [simp]: "both_return R (Inr q) (Inr r) \<longleftrightarrow> R q r"
  by (simp add: both_return_def)

lemma both_return_Inl [simp]: "both_return R (Inl e) n"
  by (simp add: both_return_def)

lemma both_return_bind:
  assumes "both_return R m n" "\<And>q r. m = Inr q \<Longrightarrow> R q r \<Longrightarrow> both_return S (f q) (g r)"
  shows "both_return S (bindE m f) (bindE n g)"
  using assms by (cases m) (auto simp: both_return_def)

lemma both_return_require: "both_return S m n \<Longrightarrow>
    both_return S (bindE (requireE P e) (\<lambda>_. m)) (bindE (requireE P e) (\<lambda>_. n))"
  by (auto simp: both_return_def requireE_def)

lemma cut_offE:
  assumes "cut_off b (c, s) r"
  obtains t where "r = (c, t)" "cut_off b (c, s) (c, t)"
  using assms by (cases r) (auto simp: cut_off_def)

lemma cut_off_more: "cut_off b (c, s) (c, t) \<Longrightarrow> same_list s t \<and> hold_string t = hold_string s"
  by (simp add: cut_off_def side_by_side_def)

lemma cut_off_any: "cut_off b (Some c, s) (Some c, t) \<Longrightarrow> cut_off b (Some d, s) (Some d, t)"
  by (simp add: cut_off_def)

lemma cut_off_cong:
  assumes "cut_off b (c, s) (c, t)" "side_by_side s' t'" "unread s' = unread s" "unread t' = unread t"
  shows "cut_off b (c, s') (c, t')"
  using assms by (auto simp: cut_off_def)

lemma buffer_ok_update [simp]:
  "buffer_ok (st\<lparr>hold_string := h\<rparr>) = buffer_ok st" "buffer_ok (st\<lparr>define_state := d\<rparr>) = buffer_ok st"
  "buffer_ok (st\<lparr>line := l\<rparr>) = buffer_ok st" "buffer_ok (st\<lparr>filename := f\<rparr>) = buffer_ok st"
  "buffer_ok (st\<lparr>token := t\<rparr>) = buffer_ok st" "buffer_ok (new_token s st) = buffer_ok st"
  "unread (st\<lparr>line := l\<rparr>) = unread st" "unread (st\<lparr>filename := f\<rparr>) = unread st"
  "unread (st\<lparr>token := t\<rparr>) = unread st"
  by (simp_all add: buffer_ok_def unread_def new_token_def)

lemma new_token_side: "side_by_side s t \<Longrightarrow> side_by_side (new_token x s) (new_token x t)"
  unfolding side_by_side_def clean_update buffer_ok_update
  by (simp add: same_list_def new_token_def)

lemma cut_off_update:
  assumes "cut_off b (c, s) (c, t)"
  shows "cut_off b (c, s\<lparr>hold_string := h\<rparr>) (c, t\<lparr>hold_string := h\<rparr>)"
    and "cut_off b (c, s\<lparr>define_state := d\<rparr>) (c, t\<lparr>define_state := d\<rparr>)"
    and "cut_off b (c, s\<lparr>line := l\<rparr>) (c, t\<lparr>line := l\<rparr>)"
    and "cut_off b (c, s\<lparr>filename := f\<rparr>) (c, t\<lparr>filename := f\<rparr>)"
    and "cut_off b (c, s\<lparr>token := p\<rparr>) (c, t\<lparr>token := p\<rparr>)"
    and "cut_off b (c, new_token x s) (c, new_token x t)"
proof -
  have s: "side_by_side s t" using assms by (simp add: cut_off_def)
  show "cut_off b (c, new_token x s) (c, new_token x t)"
    using assms by (intro cut_off_cong [OF assms] new_token_side [OF s]) simp_all
qed (use assms in \<open>auto simp: cut_off_def side_by_side_def same_list_def clean_def\<close>)

lemma cut_off_grab:
  assumes "cut_off b (Some c, s) (Some c, t)"
  shows "cut_off b (grab_byte s) (grab_byte t)"
proof -
  have s: "side_by_side s t" "unread t = unread s @ CHR 0xFF # b" using assms by (simp_all add: cut_off_def)
  obtain x s1 y t1 where g: "grab_byte s = (x, s1)" "grab_byte t = (y, t1)" by fastforce
  have bs: "buffer_ok s" "buffer_ok t" "clean s" using s(1) by (auto simp: side_by_side_def clean_def)
  note ns = grab_byte_grabbed [OF bs(1), unfolded g(1)] and nt = grab_byte_grabbed [OF bs(2), unfolded g(2)]
  have "same_list s1 t1" "hold_string t1 = hold_string s1"
    using s(1) grab_byte_frame [of s] grab_byte_frame [of t] by (simp_all add: g side_by_side_def same_list_def)
  then show ?thesis using s ns nt grab_byte_clean(2) [OF bs(3) g(1)] g
    by (cases "unread s") (auto simp: cut_off_def side_by_side_def grabbed_def clean_def)
qed

lemma cut_off_consume_byte:
  assumes "cut_off b (Some c, s) (Some c, t)"
  shows "both_return (cut_off b) (consume_byte d s) (consume_byte d t)"
proof -
  have "hold_string t = hold_string s" "MAX_STRING t = MAX_STRING s"
    using cut_off_more [OF assms] by (simp_all add: same_list_def)
  moreover have "cut_off b (grab_byte (s\<lparr>hold_string := hold_string s @ [d]\<rparr>))
      (grab_byte (t\<lparr>hold_string := hold_string s @ [d]\<rparr>))"
    by (rule cut_off_grab [OF cut_off_update(1) [OF assms]])
  ultimately show ?thesis by (auto simp: both_return_def consume_byte_def Let_def)
qed

lemma cut_off_clearWhiteSpace:
  "cut_off b (c, s) (c, t) \<Longrightarrow> cut_off b (clearWhiteSpace c s) (clearWhiteSpace c t)"
proof (induction c s arbitrary: t rule: clearWhiteSpace.induct)
  case (1 c s)
  show ?case
  proof (cases "c = Some CHR '' '' \<or> c = Some TAB")
    case True
    obtain c1 s1 where g: "grab_byte s = (c1, s1)" by fastforce
    have "cut_off b (c1, s1) (grab_byte t)" using cut_off_grab 1(2) True g by metis
    then obtain t1 where t1: "grab_byte t = (c1, t1)" "cut_off b (c1, s1) (c1, t1)" by (rule cut_offE)
    show ?thesis using 1(1) [OF True g [symmetric] t1(2)] True g t1(1)
      by (simp add: clearWhiteSpace.simps [of c])
  next
    case False
    then show ?thesis using 1(2) by (simp add: clearWhiteSpace.simps [of c])
  qed
qed

lemma cut_off_preserve_keyword:
  "cut_off b (c, s) (c, t) \<Longrightarrow> both_return (cut_off b) (preserve_keyword S c s) (preserve_keyword S c t)"
proof (induction S c s arbitrary: t rule: preserve_keyword.induct)
  case (1 S c s)
  show ?case
  proof (cases "\<exists>d. c = Some d \<and> in_set d S")
    case True
    then obtain d where d: "c = Some d" "in_set d S" by blast
    have "both_return (cut_off b) (bindE (consume_byte d s) (\<lambda>(c, s). preserve_keyword S c s))
       (bindE (consume_byte d t) (\<lambda>(c, t). preserve_keyword S c t))"
    proof (rule both_return_bind)
      show "both_return (cut_off b) (consume_byte d s) (consume_byte d t)"
        using cut_off_consume_byte 1(2) d(1) by simp
      fix q r assume a: "consume_byte d s = Inr q" "cut_off b q r"
      obtain c1 s1 where q: "q = (c1, s1)" by fastforce
      obtain t1 where r: "r = (c1, t1)" "cut_off b (c1, s1) (c1, t1)" using a(2) unfolding q by (rule cut_offE)
      show "both_return (cut_off b) (case q of (c, s) \<Rightarrow> preserve_keyword S c s) (case r of (c, t) \<Rightarrow> preserve_keyword S c t)"
        using 1(1) [OF d a(1) q [symmetric] r(2)] by (simp add: q r(1))
    qed
    then show ?thesis using d by (simp add: preserve_keyword.simps [of S "Some d"])
  next
    case False
    then show ?thesis using 1(2)
      by (auto simp: preserve_keyword.simps [of S c] split: option.splits)
  qed
qed


lemma cut_bind:
  assumes "both_return (cut_off b) m n"
    "\<And>c s t. m = Inr (c, s) \<Longrightarrow> cut_off b (c, s) (c, t) \<Longrightarrow> both_return R (f (c, s)) (g (c, t))"
  shows "both_return R (bindE m f) (bindE n g)"
proof (rule both_return_bind [OF assms(1)])
  fix q r assume q: "m = Inr q" "cut_off b q r"
  obtain c s where qq: "q = (c, s)" by fastforce
  obtain t where "r = (c, t)" "cut_off b (c, s) (c, t)" using q(2) unfolding qq by (rule cut_offE)
  then show "both_return R (f q) (g r)" using assms(2) q(1) by (simp add: qq)
qed

text \<open>While a character is in hand.\<close>

definition live :: "string \<Rightarrow> reader \<Rightarrow> reader \<Rightarrow> bool" where
  "live b s t \<longleftrightarrow> side_by_side s t \<and> unread t = unread s @ CHR 0xFF # b"

lemma cut_off_live [simp]: "cut_off b (Some c, s) (Some c, t) \<longleftrightarrow> live b s t"
  by (simp add: cut_off_def live_def)

lemma live_grab: "live b s t \<Longrightarrow> cut_off b (grab_byte s) (grab_byte t)"
  using cut_off_grab [of b LF s t] by simp

lemma live_consume_byte: "live b s t \<Longrightarrow> both_return (cut_off b) (consume_byte d s) (consume_byte d t)"
  using cut_off_consume_byte [of b LF s t d] by simp

lemma cut_off_consume_if:
  "cut_off b q r \<Longrightarrow> both_return (cut_off b) (consume_if S q) (consume_if S r)"
proof -
  assume a: "cut_off b q r"
  obtain c s where q: "q = (c, s)" by fastforce
  obtain t where r: "r = (c, t)" "cut_off b (c, s) (c, t)" using a unfolding q by (rule cut_offE)
  show ?thesis using r(2) by (cases c) (auto simp: consume_if_def q r(1) live_consume_byte)
qed

section \<open>Strings, comments and names\<close>

lemma cut_off_preserve_string_loop:
  "live b s t \<Longrightarrow> both_return (live b) (preserve_string_loop f e c s) (preserve_string_loop f e c t)"
proof (induction f e c s arbitrary: t rule: preserve_string_loop.induct)
  case (1 f e c s)
  show ?case
    unfolding preserve_string_loop.simps [of f e c] Let_def
  proof (rule cut_bind [OF live_consume_byte [OF 1(2)]])
    fix d s1 t1 assume a: "consume_byte c s = Inr (d, s1)" "cut_off b (d, s1) (d, t1)"
    show "both_return (live b)
       (case (d, s1) of (None, st) \<Rightarrow> Inl Unterminated_String
        | (Some x, st) \<Rightarrow> if (\<not> e \<and> c = CHR 0x5C) \<or> x \<noteq> f
            then preserve_string_loop f (\<not> e \<and> c = CHR 0x5C) x st else Inr st)
       (case (d, t1) of (None, st) \<Rightarrow> Inl Unterminated_String
        | (Some x, st) \<Rightarrow> if (\<not> e \<and> c = CHR 0x5C) \<or> x \<noteq> f
            then preserve_string_loop f (\<not> e \<and> c = CHR 0x5C) x st else Inr st)"
      using 1(1) [OF refl a(1) refl] a(2) by (cases d) auto
  qed
qed

lemma cut_off_preserve_string: "live b s t \<Longrightarrow> both_return (cut_off b) (preserve_string c s) (preserve_string c t)"
  unfolding preserve_string_def
  by (rule both_return_bind [OF cut_off_preserve_string_loop]) (auto intro: live_grab)

lemma cut_off_grabE:
  assumes "live b s t" "grab_byte s = (d, s1)"
  obtains t1 where "grab_byte t = (d, t1)" "cut_off b (d, s1) (d, t1)"
proof -
  have "cut_off b (d, s1) (grab_byte t)" using live_grab [OF assms(1)] by (simp only: assms(2))
  then show thesis by (rule cut_offE) (rule that)
qed

lemma cut_off_skip_to_star:
  "live b s t \<Longrightarrow> both_return (live b) (skip_to_star c s) (skip_to_star c t)"
proof (induction c s arbitrary: t rule: skip_to_star.induct)
  case (1 c s)
  obtain d s1 where g: "grab_byte s = (d, s1)" by fastforce
  obtain t1 where t1: "grab_byte t = (d, t1)" "cut_off b (d, s1) (d, t1)" using cut_off_grabE [OF 1(2) g] .
  note u = skip_to_star.simps [of c s] skip_to_star.simps [of c t]
  show ?case
  proof (cases "c = Some CHR ''*'' \<or> d = None")
    case True
    then show ?thesis using 1(2) unfolding u g t1(1) by auto
  next
    case False
    then obtain x where x: "c \<noteq> Some CHR ''*''" "d = Some x" by auto
    have "both_return (live b) (skip_to_star (Some x) s1) (skip_to_star (Some x) t1)"
      using 1(1) [OF x(1) g [symmetric] x(2)] t1(2) by (simp add: x(2))
    then show ?thesis using x unfolding u g t1(1) by simp
  qed
qed

lemma cut_off_skip_block:
  "live b s t \<Longrightarrow> both_return (live b) (skip_block c s) (skip_block c t)"
proof (induction c s arbitrary: t rule: skip_block.induct)
  case (1 c s)
  show ?case
  proof (cases "c = Some CHR ''/''")
    case True
    then show ?thesis using 1(2) unfolding skip_block.simps [of c s] skip_block.simps [of c t] by simp
  next
    case False
    have "both_return (live b)
      (bindE (skip_to_star c s) (\<lambda>st. case grab_byte st of (None, st) \<Rightarrow> Inl Eof_In_Comment
          | (Some c, st) \<Rightarrow> skip_block (Some c) st))
      (bindE (skip_to_star c t) (\<lambda>st. case grab_byte st of (None, st) \<Rightarrow> Inl Eof_In_Comment
          | (Some c, st) \<Rightarrow> skip_block (Some c) st))"
    proof (rule both_return_bind [OF cut_off_skip_to_star [OF 1(2)]])
      fix s1 t1 assume a: "skip_to_star c s = Inr s1" "live b s1 t1"
      obtain d s2 where g: "grab_byte s1 = (d, s2)" by fastforce
      obtain t2 where t2: "grab_byte t1 = (d, t2)" "cut_off b (d, s2) (d, t2)" using cut_off_grabE [OF a(2) g] .
      show "both_return (live b)
         (case grab_byte s1 of (None, st) \<Rightarrow> Inl Eof_In_Comment | (Some c, st) \<Rightarrow> skip_block (Some c) st)
         (case grab_byte t1 of (None, st) \<Rightarrow> Inl Eof_In_Comment | (Some c, st) \<Rightarrow> skip_block (Some c) st)"
        using 1(1) [OF False a(1) g [symmetric]] t2(2) unfolding g t2(1)
        by (cases d) simp_all
    qed
    then show ?thesis using False unfolding skip_block.simps [of c s] skip_block.simps [of c t] by simp
  qed
qed

text \<open>A line comment that ends does so in front of the byte 255.\<close>

lemma cut_off_skip_line:
  assumes "skip_line c s = Some q"
  shows "(c = None \<and> clean s \<longrightarrow> unread s \<noteq> []) \<and>
    (\<forall>t. cut_off b (c, s) (c, t) \<longrightarrow> (\<exists>r. skip_line c t = Some r \<and> cut_off b q r))"
proof (rule skip_line.raw_induct [where P = "\<lambda>c s q. (c = None \<and> clean s \<longrightarrow> unread s \<noteq> []) \<and>
      (\<forall>t. cut_off b (c, s) (c, t) \<longrightarrow> (\<exists>r. skip_line c t = Some r \<and> cut_off b q r))", OF _ assms])
  fix rec c s q
  assume IH: "\<And>c s q. rec c s = Some q \<Longrightarrow> (c = None \<and> clean s \<longrightarrow> unread s \<noteq> []) \<and>
      (\<forall>t. cut_off b (c, s) (c, t) \<longrightarrow> (\<exists>r. skip_line c t = Some r \<and> cut_off b q r))"
    and r: "(if c = Some LF then Some (c, s) else (case grab_byte s of (c, s) \<Rightarrow> rec c s)) = Some q"
  obtain d s1 where g: "grab_byte s = (d, s1)" by fastforce
  show "(c = None \<and> clean s \<longrightarrow> unread s \<noteq> []) \<and>
      (\<forall>t. cut_off b (c, s) (c, t) \<longrightarrow> (\<exists>r. skip_line c t = Some r \<and> cut_off b q r))"
  proof (cases "c = Some LF")
    case True
    then show ?thesis using r by (simp add: skip_line.simps)
  next
    case False
    then have rec: "rec d s1 = Some q" using r by (simp add: g)
    note ih = IH [OF rec]
    have at_end: "unread s \<noteq> []" if "clean s"
      using ih grab_byte_clean(1,2,5) [OF that g] by auto
    have "\<exists>r. skip_line c t = Some r \<and> cut_off b q r" if t: "cut_off b (c, s) (c, t)" for t
    proof (cases c)
      case None
      then show ?thesis using t at_end by (simp add: cut_off_def side_by_side_def)
    next
      case (Some x)
      obtain t1 where t1: "grab_byte t = (d, t1)" "cut_off b (d, s1) (d, t1)"
        using cut_off_grabE [OF _ g] t by (auto simp: Some)
      show ?thesis using ih t1 False unfolding skip_line.simps [of c t] by simp
    qed
    then show ?thesis using at_end by blast
  qed
qed

section \<open>The branches of get_token\<close>

lemma cut_off_then_keyword:
  "both_return (cut_off b) m n \<Longrightarrow>
    both_return (cut_off b) (bindE m (\<lambda>(c, st). preserve_keyword S c st))
      (bindE n (\<lambda>(c, st). preserve_keyword S c st))"
  by (erule cut_bind) (simp add: cut_off_preserve_keyword)

lemma cut_off_exponent:
  assumes "cut_off b (c, s) (c, t)"
  shows "both_return (cut_off b)
     (case c of Some e \<Rightarrow>
         if e = CHR ''e'' \<or> e = CHR ''E''
         then bindE (consume_byte e s) (\<lambda>r. bindE (consume_if ''+-'' r) (\<lambda>(c, st). preserve_keyword ''0123456789'' c st))
         else Inr (c, s) | None \<Rightarrow> Inr (c, s))
     (case c of Some e \<Rightarrow>
         if e = CHR ''e'' \<or> e = CHR ''E''
         then bindE (consume_byte e t) (\<lambda>r. bindE (consume_if ''+-'' r) (\<lambda>(c, st). preserve_keyword ''0123456789'' c st))
         else Inr (c, t) | None \<Rightarrow> Inr (c, t))"
proof (cases c)
  case None
  then show ?thesis using assms by simp
next
  case (Some e)
  have l: "live b s t" using assms by (simp add: Some)
  have "both_return (cut_off b)
      (bindE (consume_byte e s) (\<lambda>r. bindE (consume_if ''+-'' r) (\<lambda>(c, st). preserve_keyword ''0123456789'' c st)))
      (bindE (consume_byte e t) (\<lambda>r. bindE (consume_if ''+-'' r) (\<lambda>(c, st). preserve_keyword ''0123456789'' c st)))"
    by (rule both_return_bind [OF live_consume_byte [OF l]])
      (rule cut_off_then_keyword [OF cut_off_consume_if])
  then show ?thesis using l by (simp add: Some)
qed

lemma cut_off_floating_tail:
  assumes "cut_off b q r"
  shows "both_return (cut_off b) (floating_tail q) (floating_tail r)"
proof -
  obtain c s where q: "q = (c, s)" by fastforce
  obtain t where r: "r = (c, t)" "cut_off b (c, s) (c, t)" using assms unfolding q by (rule cut_offE)
  have "both_return (cut_off b)
     (if c = Some CHR ''.'' then bindE (consume_byte CHR ''.'' s) (\<lambda>(c, st). preserve_keyword ''0123456789'' c st)
      else Inr (c, s))
     (if c = Some CHR ''.'' then bindE (consume_byte CHR ''.'' t) (\<lambda>(c, st). preserve_keyword ''0123456789'' c st)
      else Inr (c, t))"
    using r(2) by (auto intro!: cut_off_then_keyword live_consume_byte)
  then show ?thesis
    unfolding floating_tail_def q r(1) prod.case
  proof (rule cut_bind)
    fix c s t assume "cut_off b (c, s) (c, t)"
    from cut_off_then_keyword [OF cut_off_exponent [OF this]]
    show "both_return (cut_off b)
        (case (c, s) of (c, st) \<Rightarrow> bindE (case c of Some e \<Rightarrow>
               if e = CHR ''e'' \<or> e = CHR ''E''
               then bindE (consume_byte e st) (\<lambda>r. bindE (consume_if ''+-'' r) (\<lambda>(c, st). preserve_keyword ''0123456789'' c st))
               else Inr (c, st) | None \<Rightarrow> Inr (c, st)) (\<lambda>(c, st). preserve_keyword ''fFlLuU'' c st))
        (case (c, t) of (c, st) \<Rightarrow> bindE (case c of Some e \<Rightarrow>
               if e = CHR ''e'' \<or> e = CHR ''E''
               then bindE (consume_byte e st) (\<lambda>r. bindE (consume_if ''+-'' r) (\<lambda>(c, st). preserve_keyword ''0123456789'' c st))
               else Inr (c, st) | None \<Rightarrow> Inr (c, st)) (\<lambda>(c, st). preserve_keyword ''fFlLuU'' c st))"
      by simp
  qed
qed

lemma cut_flow_simp [simp]: "cut_flow b (f, q) (f, r) \<longleftrightarrow> cut_off b q r"
  by (simp add: cut_flow_def)

lemma cut_off_then_token: "both_return (cut_off b) m n \<Longrightarrow> both_return (cut_flow b) (then_token m) (then_token n)"
  unfolding then_token_def by (rule cut_bind) simp_all

lemma cut_off_end_identifier: "cut_off b q r \<Longrightarrow> cut_flow b (end_identifier q) (end_identifier r)"
proof -
  assume a: "cut_off b q r"
  obtain c s where q: "q = (c, s)" by fastforce
  obtain t where r: "r = (c, t)" "cut_off b (c, s) (c, t)" using a unfolding q by (rule cut_offE)
  have e: "define_state t = define_state s" "hold_string t = hold_string s"
    using cut_off_more [OF r(2)] by (simp_all add: same_list_def)
  show ?thesis using r(2) e by (simp add: end_identifier_def q r(1) Let_def cut_off_update)
qed

lemma cut_off_token_identifier:
  assumes "live b s t"
  shows "both_return (cut_flow b) (token_identifier c s) (token_identifier c t)"
  unfolding token_identifier_def Let_def
proof (rule both_return_bind [OF cut_off_preserve_keyword])
  fix q r assume "cut_off b q r"
  then have "both_return (cut_off b) (if in_set c ''0123456789'' then floating_tail q else Inr q)
     (if in_set c ''0123456789'' then floating_tail r else Inr r)"
    using cut_off_floating_tail by simp
  then show "both_return (cut_flow b)
      (bindE (if in_set c ''0123456789'' then floating_tail q else Inr q) (\<lambda>r. Inr (end_identifier r)))
      (bindE (if in_set c ''0123456789'' then floating_tail r else Inr r) (\<lambda>r. Inr (end_identifier r)))"
    by (rule both_return_bind) (simp add: cut_off_end_identifier)
qed (use assms in simp)

lemma cut_off_directive_name:
  "both_return (cut_off b) m n \<Longrightarrow> both_return (cut_flow b)
     (bindE m (\<lambda>(c, st).
        let st = (if match_loop (hold_string st) ''#define'' then st\<lparr>define_state := DEFINE_STATE_DEFINE\<rparr> else st)
        in Inr (New_Token, c, st)))
     (bindE n (\<lambda>(c, st).
        let st = (if match_loop (hold_string st) ''#define'' then st\<lparr>define_state := DEFINE_STATE_DEFINE\<rparr> else st)
        in Inr (New_Token, c, st)))"
proof (erule cut_bind, goal_cases)
  case (1 c s t)
  then show ?case using cut_off_more [OF 1(2)] cut_off_update(2) [OF 1(2)] by (simp add: Let_def)
qed

lemma cut_off_token_hash:
  assumes "live b s t"
  shows "both_return (cut_flow b) (token_hash s) (token_hash t)"
  unfolding token_hash_def
proof (rule cut_bind [OF live_consume_byte [OF assms]], goal_cases)
  case (1 c s t)
  show ?case
  proof (cases "c = Some CHR ''#''")
    case True
    then have "live b s t" using 1(2) by simp
    from live_consume_byte [OF this]
    have "both_return (cut_flow b)
      (bindE (consume_byte CHR ''#'' s) (\<lambda>(c, st). Inr (Return, c, new_token (hold_string st) st)))
      (bindE (consume_byte CHR ''#'' t) (\<lambda>(c, st). Inr (Return, c, new_token (hold_string st) st)))"
      by (rule cut_bind) (use cut_off_more in \<open>fastforce simp: cut_off_update\<close>)
    then show ?thesis using True by simp
  next
    case False
    obtain d s1 where w: "clearWhiteSpace c s = (d, s1)" by fastforce
    have "cut_off b (d, s1) (clearWhiteSpace c t)" using cut_off_clearWhiteSpace [OF 1(2)] by (simp only: w)
    then obtain t1 where t1: "clearWhiteSpace c t = (d, t1)" "cut_off b (d, s1) (d, t1)" by (rule cut_offE)
    show ?thesis
      using False cut_off_directive_name [OF cut_off_preserve_keyword [OF t1(2)]] by (simp add: w t1(1))
  qed
qed

lemma cut_off_third:
  assumes "live b s t"
  shows "both_return (cut_flow b)
     (bindE (consume_byte y s) (\<lambda>(c, st).
        if c = Some CHR ''='' \<and> P then then_token (consume_byte CHR ''='' st) else Inr (New_Token, c, st)))
     (bindE (consume_byte y t) (\<lambda>(c, st).
        if c = Some CHR ''='' \<and> P then then_token (consume_byte CHR ''='' st) else Inr (New_Token, c, st)))"
proof (rule cut_bind [OF live_consume_byte [OF assms]], goal_cases)
  case (1 c s t)
  then show ?case by (auto intro!: cut_off_then_token live_consume_byte)
qed

lemma cut_off_token_operator:
  assumes "live b s t"
  shows "both_return (cut_flow b) (token_operator x s) (token_operator x t)"
  unfolding token_operator_def
proof (rule cut_bind [OF live_consume_byte [OF assms]], goal_cases)
  case (1 c s t)
  then show ?case using cut_off_third by (cases c) auto
qed

lemma cut_off_token_slash:
  assumes "live b s t"
  shows "both_return (cut_flow b) (token_slash s) (token_slash t)"
  unfolding token_slash_def
proof (rule cut_bind [OF live_consume_byte [OF assms]], goal_cases)
  case (1 c s t)
  consider (block) "c = Some CHR ''*''" | (rest) "c = Some CHR ''/''" |
    (other) "c \<noteq> Some CHR ''*''" "c \<noteq> Some CHR ''/''" by blast
  then show ?case
  proof cases
    case block
    then have l: "live b s t" using 1(2) by simp
    obtain d s1 where g: "grab_byte s = (d, s1)" by fastforce
    obtain t1 where t1: "grab_byte t = (d, t1)" "cut_off b (d, s1) (d, t1)" using cut_off_grabE [OF l g] .
    show ?thesis
    proof (cases d)
      case None
      then have "clean s1" "unread s1 = []" using t1(2) by (simp_all add: cut_off_def side_by_side_def)
      then have "fst (grab_byte s1) = None" using grab_byte_clean(5) [of s1] by (metis prod.collapse)
      then have "skip_block None s1 = Inl Eof_In_Comment"
        by (simp add: skip_block.simps [of None] skip_to_star.simps [of None] split_beta)
      then show ?thesis using block None by (simp add: g)
    next
      case (Some x)
      then have "live b s1 t1" using t1(2) by simp
      from both_return_bind [OF cut_off_skip_block [OF this, of "Some x"],
        where f = "\<lambda>st. case grab_byte st of (c, st) \<Rightarrow> Inr (Reset, c, st)" and S = "cut_flow b"
          and g = "\<lambda>st. case grab_byte st of (c, st) \<Rightarrow> Inr (Reset, c, st)"]
      show ?thesis using block Some live_grab by (auto simp: g t1(1) cut_flow_def split: prod.splits)
    qed
  next
    case rest
    then have l: "live b s t" using 1(2) by simp
    obtain d s1 where g: "grab_byte s = (d, s1)" by fastforce
    obtain t1 where t1: "grab_byte t = (d, t1)" "cut_off b (d, s1) (d, t1)" using cut_off_grabE [OF l g] .
    show ?thesis
    proof (cases "skip_line d s1")
      case None
      then show ?thesis using rest by (simp add: g t1(1))
    next
      case (Some q)
      obtain c2 s2 where q: "q = (c2, s2)" by fastforce
      obtain r where r: "skip_line d t1 = Some r" "cut_off b (c2, s2) r"
        using cut_off_skip_line [OF Some] t1(2) q by blast
      obtain t2 where "r = (c2, t2)" "cut_off b (c2, s2) (c2, t2)" using r(2) by (rule cut_offE)
      then show ?thesis using rest r(1) Some by (simp add: g t1(1) q)
    qed
  next
    case other
    then show ?thesis using cut_off_then_token [OF cut_off_consume_if [OF 1(2)]] by simp
  qed
qed

lemma cut_off_consume_ifs:
  "both_return (cut_off b) m n \<Longrightarrow>
    both_return (cut_off b) (bindE m (consume_if S)) (bindE n (consume_if S))"
  by (erule both_return_bind) (rule cut_off_consume_if)

lemma cut_off_token_plus:
  assumes "live b s t"
  shows "both_return (cut_flow b) (token_plus s) (token_plus t)"
  unfolding token_plus_def
  by (intro cut_off_then_token both_return_bind [OF live_consume_byte [OF assms]] cut_off_consume_ifs cut_off_consume_if)

lemma cut_off_token_minus:
  assumes "live b s t"
  shows "both_return (cut_flow b) (token_minus s) (token_minus t)"
  unfolding token_minus_def
  by (intro cut_off_then_token both_return_bind [OF live_consume_byte [OF assms]])
    (rule both_return_bind [OF cut_off_consume_if], assumption, intro cut_off_consume_ifs cut_off_consume_if)

lemma cut_off_token_backslash:
  assumes "live b s t"
  shows "both_return (cut_flow b) (token_backslash s) (token_backslash t)"
  unfolding token_backslash_def
proof (rule cut_bind [OF live_consume_byte [OF assms]], goal_cases)
  case (1 c s t)
  show ?case
  proof (cases "c = Some LF")
    case True
    then have "live b s t" using 1(2) by simp
    from cut_bind [OF live_consume_byte [OF this], where f = "\<lambda>(c, st). Inr (Reset, c, st)"
        and g = "\<lambda>(c, st). Inr (Reset, c, st)" and R = "cut_flow b"]
    show ?thesis using True by simp
  next
    case False
    then show ?thesis using 1(2) by simp
  qed
qed

lemma cut_off_token_branch:
  assumes "live b s t"
  shows "both_return (cut_flow b) (token_branch c s) (token_branch c t)"
  unfolding token_branch_def
  using assms cut_off_token_hash cut_off_token_identifier cut_off_token_operator cut_off_token_slash
    cut_off_token_plus cut_off_token_minus cut_off_token_backslash
  by (auto intro!: cut_off_then_token cut_off_consume_ifs cut_off_preserve_string live_consume_byte)

section \<open>Whole files\<close>

lemma cut_off_reset: "cut_off b (c, s) (c, t) \<Longrightarrow> cut_off b (c, reset_hold_string s) (c, reset_hold_string t)"
  by (simp add: reset_hold_string_def cut_off_update)

lemma cut_off_get_token:
  "cut_off b (c, s) (c, t) \<Longrightarrow> both_return (cut_off b) (get_token c s) (get_token c t)"
proof (induction c s arbitrary: t rule: get_token.induct)
  case (1 c s)
  obtain d s1 where w: "clearWhiteSpace c (reset_hold_string s) = (d, s1)" by fastforce
  have "cut_off b (d, s1) (clearWhiteSpace c (reset_hold_string t))"
    using cut_off_clearWhiteSpace [OF cut_off_reset [OF 1(2)]] by (simp only: w)
  then obtain t1 where t1: "clearWhiteSpace c (reset_hold_string t) = (d, t1)" "cut_off b (d, s1) (d, t1)"
    by (rule cut_offE)
  show ?case
  proof (cases d)
    case None
    then show ?thesis using t1(2) unfolding get_token.simps [of c] w t1(1) by simp
  next
    case (Some x)
    have "live b s1 t1" using t1(2) by (simp add: Some)
    note tb = cut_off_token_branch [OF this, of x]
    show ?thesis
      unfolding get_token.simps [of c s] get_token.simps [of c t] w t1(1) Some prod.case option.case
    proof (rule both_return_bind [OF tb], goal_cases)
      case (1 q r)
      obtain f c2 s2 where q: "q = (f, c2, s2)" by (metis prod.collapse)
      then have "cut_off b (c2, s2) (snd r)" "fst r = f" using 1(2) by (simp_all add: cut_flow_def)
      then obtain t2 where r: "r = (f, c2, t2)" and t2: "cut_off b (c2, s2) (c2, t2)"
        by (metis cut_offE prod.collapse)
      have "both_return (cut_off b) (get_token c2 s2) (get_token c2 t2)" if "f = Reset"
        using "1.IH" [OF w [symmetric] Some 1(1) q [symmetric] refl that t2] .
      then show ?case using t2 cut_off_update(6) [OF t2] cut_off_more [OF t2]
        by (cases f) (simp_all add: q r)
    qed
  qed
qed

lemma cut_off_filename_skip:
  "cut_off b (c, s) (c, t) \<Longrightarrow>
    both_return (\<lambda>q r. fst r = fst q \<and> live b (snd q) (snd r)) (filename_skip c s) (filename_skip c t)"
proof (induction c s arbitrary: t rule: filename_skip.induct)
  case (1 c s)
  show ?case
  proof (cases c)
    case None
    then show ?thesis by (simp add: filename_skip.simps [of None])
  next
    case (Some d)
    then have l: "live b s t" using 1(2) by simp
    obtain d' s1 where g: "grab_byte s = (d', s1)" by fastforce
    obtain t1 where t1: "grab_byte t = (d', t1)" "cut_off b (d', s1) (d', t1)" using cut_off_grabE [OF l g] .
    show ?thesis using 1(1) [OF Some _ g [symmetric] t1(2)] l
      by (cases "in_set d filename_end") (simp_all add: filename_skip.simps [of "Some d"] Some g t1(1))
  qed
qed

lemma cut_off_filename_loop:
  "live b s t \<Longrightarrow> both_return (cut_off b) (filename_loop c s) (filename_loop c t)"
proof (induction c s arbitrary: t rule: filename_loop.induct)
  case (1 c s)
  show ?case
    unfolding filename_loop.simps [of c s] filename_loop.simps [of c t]
  proof (rule cut_bind [OF live_consume_byte [OF 1(2)]], goal_cases)
    case (1 d s1 t1)
    then show ?case using "1.IH" [OF 1(1) refl] by (cases d) auto
  qed
qed

lemma cut_off_consume_filename:
  assumes "cut_off b (c, s) (c, t)"
  shows "both_return (cut_off b) (consume_filename c s) (consume_filename c t)"
  unfolding consume_filename_def
proof (rule both_return_bind [OF cut_off_filename_skip [OF cut_off_reset [OF assms]]], goal_cases)
  case (1 q r)
  then obtain d s1 t1 where q: "q = (d, s1)" "r = (d, t1)" "live b s1 t1" by (cases q; cases r) auto
  have "both_return (cut_off b)
     (bindE (filename_loop d s1) (\<lambda>(c, st). Inr (c, new_token (hold_string st) st)))
     (bindE (filename_loop d t1) (\<lambda>(c, st). Inr (c, new_token (hold_string st) st)))"
    by (rule cut_bind [OF cut_off_filename_loop [OF q(3)]])
      (use cut_off_update(6) cut_off_more in fastforce)
  then show ?case by (simp add: q)
qed

lemma cut_off_drop_token:
  assumes "cut_off b (c, s) (c, t)"
  shows "both_return (\<lambda>s t. cut_off b (c, s) (c, t)) (drop_token s) (drop_token t)"
  using cut_off_more [OF assms] cut_off_update(5) [OF assms]
  by (auto simp: drop_token_def same_list_def node_def split: option.split)

lemma cut_off_token_s: "cut_off b (c, s) (c, t) \<Longrightarrow> token_s t = token_s s"
  using cut_off_more by (fastforce simp: token_s_def same_list_def node_def split: option.split)

lemma both_return_same: "(\<And>x. m = Inr x \<Longrightarrow> both_return R (f x) (g x)) \<Longrightarrow> both_return R (bindE m f) (bindE m g)"
  by (cases m) simp_all

lemma cut_off_change_filename:
  assumes "cut_off b (c, s) (c, t)"
  shows "both_return (cut_off b) (change_filename c s) (change_filename c t)"
  unfolding change_filename_def
proof (intro both_return_require both_return_bind [OF cut_off_drop_token [OF assms]], goal_cases)
  case (1 s1 t1)
  show ?case
  proof (rule cut_bind [OF cut_off_consume_filename [OF 1(2)]], goal_cases)
    case (1 c2 s2 t2)
    show ?case unfolding prod.case cut_off_token_s [OF 1(2)]
    proof (rule both_return_same, rule both_return_bind [OF cut_off_drop_token [OF cut_off_update(4) [OF 1(2)]]],
        rule both_return_require, goal_cases)
      case (1 x s3 t3)
      show ?case
      proof (rule cut_bind [OF cut_off_get_token [OF cut_off_update(2) [OF 1(3)]]], goal_cases)
        case (1 c4 s4 t4)
        show ?case unfolding prod.case cut_off_token_s [OF 1(2)] Let_def
        proof (rule both_return_same, goal_cases)
          case (1 y)
          have "both_return (cut_off b) (bindE (drop_token (s4\<lparr>line := strtoint y\<rparr>)) (\<lambda>st. Inr (c4, st)))
             (bindE (drop_token (t4\<lparr>line := strtoint y\<rparr>)) (\<lambda>st. Inr (c4, st)))"
            by (rule both_return_bind [OF cut_off_drop_token [OF cut_off_update(3) [OF \<open>cut_off b (c4, s4) (c4, t4)\<close>]]]) simp
          then show ?case by (simp add: both_return_require)
        qed
      qed
    qed
  qed
qed

lemma cut_off_read_loop:
  "cut_off b (c, s) (c, t) \<Longrightarrow>
    both_return (\<lambda>s t. cut_off b (None, s) (None, t)) (read_loop c s) (read_loop c t)"
proof (induction c s arbitrary: t rule: read_loop.induct)
  case (1 c s)
  show ?case
  proof (cases c)
    case None
    then show ?thesis using 1(2) by (simp add: read_loop.simps [of None])
  next
    case (Some x)
    show ?thesis
      unfolding read_loop.simps [of c s] read_loop.simps [of c t] if_not_P [OF Some [THEN option.discI]]
    proof (rule cut_bind [OF cut_off_get_token [OF 1(2)]], goal_cases)
      case (1 c1 s1 t1)
      have e: "token_s t1 = token_s s1" "token t1 = token s1"
        using cut_off_token_s [OF 1(2)] cut_off_more [OF 1(2)] by (simp_all add: same_list_def)
      show ?case unfolding prod.case e
      proof (rule both_return_same, rule both_return_same, goal_cases)
        case (1 u y)
        have m: "both_return (cut_off b)
           (if match (Some ''#FILENAME'') (Some y) then change_filename c1 s1 else Inr (c1, s1))
           (if match (Some ''#FILENAME'') (Some y) then change_filename c1 t1 else Inr (c1, t1))"
          using cut_off_change_filename [OF \<open>cut_off b (c1, s1) (c1, t1)\<close>] \<open>cut_off b (c1, s1) (c1, t1)\<close> by simp
        show ?case
        proof (rule cut_bind [OF m], goal_cases)
          case (1 c2 s2 t2)
          show ?case
            unfolding prod.case
            by (rule "1.IH" [OF _ \<open>get_token c s = Inr (c1, s1)\<close> refl \<open>requireE _ _ = Inr u\<close>
                \<open>token_s s1 = Inr y\<close> 1(1) refl 1(2)]) (simp add: Some)
        qed
      qed
    qed
  qed
qed

text \<open>
  A file that can be read, with the byte 255 and anything else behind it, is read as the same
  tokens, in the same state, and what comes behind the byte stays unread.
\<close>

lemma read_all_tokens_cut_off:
  assumes "read_all_tokens a name st = Inr s" "buffer_ok st" "CHR 0xFF \<notin> set a"
  shows "\<exists>t. read_all_tokens (a @ CHR 0xFF # b) name st = Inr t \<and> cut_off b (None, s) (None, t)"
proof -
  let ?s = "st\<lparr>input := a, line := 1, filename := name, file_index := FILE_BUFFER_SIZE\<rparr>"
  let ?t = "st\<lparr>input := a @ CHR 0xFF # b, line := 1, filename := name, file_index := FILE_BUFFER_SIZE\<rparr>"
  have l: "live b ?s ?t"
    using assms(2,3) by (auto simp: live_def side_by_side_def same_list_def clean_def buffer_ok_def unread_def)
  obtain c s1 where g: "grab_byte ?s = (c, s1)" by fastforce
  obtain t1 where t1: "grab_byte ?t = (c, t1)" "cut_off b (c, s1) (c, t1)" using cut_off_grabE [OF l g] .
  show ?thesis
    using assms(1) cut_off_read_loop [OF cut_off_update(2) [OF t1(2)], of DEFINE_STATE_NONE]
    by (simp add: read_all_tokens_def g t1(1) both_return_def)
qed

end
