(* ===== verification/CcReaderProps.thy ===== *)
theory CcReaderProps
  imports CcReaderEnd
begin

text \<open>
  The properties of the tokenizer: the token list of a file, comments, operators, and the inputs
  on which the code does not do what C asks for.
\<close>

section \<open>The token list\<close>

definition start :: "string \<Rightarrow> string \<Rightarrow> reader \<Rightarrow> reader" where
  "start a name st = st\<lparr>input := a, line := 1, filename := name, file_index := FILE_BUFFER_SIZE\<rparr>"

lemma start_clean:
  assumes "buffer_ok st" "CHR 0xFF \<notin> set a"
  shows "clean (start a name st)" "unread (start a name st) = a"
  using assms by (auto simp: start_def clean_def unread_def buffer_ok_def)

lemma start_same [simp]: "store (start a name st) = store st" "token (start a name st) = token st"
  by (simp_all add: start_def)

text \<open>
  C15. Whenever a file is read without an error, and it holds no NUL, no byte 255 and nowhere the
  text \<open>FILENAME\<close>, and no token already in the store is \<open>#FILENAME\<close>, reversing the list gives a
  doubly linked list: first the tokens that were there before, then those of the file, in its
  order; their texts spell the file, with nothing but blanks, comments and line continuations
  between them.
\<close>

theorem read_file_tokens:
  assumes "read_all_tokens a name st = Inr st'" "buffer_ok st" "NUL \<notin> set a" "CHR 0xFF \<notin> set a"
    "\<not> sublist ''FILENAME'' a" "no_filename st"
    "read_list (store st) as" "token st = first_or as None" "distinct as"
  shows "\<exists>h' bs. reverse_list (store st') (token st') = Some (h', first_or (rev as @ bs) None) \<and>
    linked h' (rev as @ bs) \<and> texts h' (rev as) = texts (store st) (rev as) \<and> lexed a (texts h' bs)"
proof -
  let ?n = "length (store st)" and ?m = "length (store st')"
  obtain c st1 where g: "grab_byte (start a name st) = (c, st1)" by fastforce
  note cl = grab_byte_clean [OF start_clean(1) [OF assms(2,4)] g]
  define st2 where "st2 = st1\<lparr>define_state := DEFINE_STATE_NONE\<rparr>"
  have r: "read_loop c st2 = Inr st'"
    using assms(1) g by (simp add: read_all_tokens_def start_def st2_def)
  have p: "pending (c, st2) = a" using cl(1) start_clean(2) [OF assms(2,4)] by (cases c) (simp_all add: st2_def)
  have s: "store st2 = store st" "token st2 = token st"
    using cl(4) by (simp_all add: st2_def same_list_def)
  obtain ts where ts: "lexed a ts" "added ts st2 st'"
  proof -
    have "\<exists>ts. lexed (pending (c, st2)) ts \<and> added ts st2 st'"
    proof (rule read_loop_lexed [OF r])
      show "clean st2" using cl(2) by (simp add: st2_def)
      show "c = None \<longrightarrow> pending (c, st2) = []" using cl(5) p start_clean(2) [OF assms(2,4)] by auto
      show "in_store st2" using assms(7,8) s by (auto simp: in_store_def)
      show "no_filename st2" using assms(6) s by (simp add: no_filename_def)
    qed (use assms(3,5) p in simp_all)
    then show thesis using that p by auto
  qed
  obtain ns where ns: "store st' = store st @ ns" "map tl_s ns = ts" using ts(2) s by (auto simp: added_def)
  have l: "read_list (store st') (rev [?n..<?m] @ as)" "token st' = first_or (rev [?n..<?m] @ as) None"
    using ts(2) s assms(7,8) by (auto simp: added_def)
  have b: "\<forall>i \<in> set as. i < ?n" using read_list_bounds [OF assms(7)] by blast
  then have "distinct (rev [?n..<?m] @ as)" using assms(9) by auto
  from reverse_list_linked [OF l(1) this] l(2) obtain h' where
    h': "reverse_list (store st') (token st') = Some (h', first_or (rev as @ [?n..<?m]) None)"
      "linked h' (rev as @ [?n..<?m])" "same_texts (store st') h'" by auto
  have "texts h' [?n..<?m] = ts"
  proof -
    have "texts h' [?n..<?m] = texts (store st') [?n..<?m]" by (intro texts_same [OF h'(3)]) auto
    also have "\<dots> = map tl_s ns"
      by (rule nth_equalityI) (auto simp: texts_def ns(1) nth_append)
    finally show ?thesis using ns(2) by simp
  qed
  moreover have "texts h' (rev as) = texts (store st) (rev as)"
  proof -
    have "texts h' (rev as) = texts (store st') (rev as)"
      using b ns(1) by (intro texts_same [OF h'(3)]) auto
    then show ?thesis using b by (simp add: texts_def ns(1) nth_append)
  qed
  ultimately show ?thesis using h'(1,2) ts(1) by (intro exI [of _ h'] exI [of _ "[?n..<?m]"]) simp
qed

text \<open>The state the compiler starts in.\<close>

definition fresh :: "nat \<Rightarrow> reader" where
  "fresh m = \<lparr>input = [], file_buffer = [], file_index = 0, file_max = 0, line = 0, filename = [],
     token = None, store = [], define_state = DEFINE_STATE_NONE, hold_string = [], MAX_STRING = m\<rparr>"

lemma fresh_ok: "buffer_ok (fresh m)" "no_filename (fresh m)" "store (fresh m) = []" "token (fresh m) = None"
  by (simp_all add: fresh_def buffer_ok_def no_filename_def FILE_BUFFER_SIZE_def)

definition source_texts :: "string \<Rightarrow> reader_error + string list" where
  "source_texts a = bindE (read_all_tokens a ''f.c'' (fresh 4096)) (\<lambda>st. Inr (map tl_s (store st)))"

text \<open>A file read by itself, by a compiler that has just been started.\<close>

lemma read_file_tokens_witness:
  "\<exists>st'. read_all_tokens ''a =b'' ''f.c'' (fresh 4096) = Inr st' \<and>
    (\<exists>h' bs. reverse_list (store st') (token st') = Some (h', first_or bs None) \<and> linked h' bs \<and>
       lexed ''a =b'' (texts h' bs)) \<and> map tl_s (store st') = [''a'', ''='', ''b'']"
proof -
  have "source_texts ''a =b'' = Inr [''a'', ''='', ''b'']" by code_simp
  then obtain st' where r: "read_all_tokens ''a =b'' ''f.c'' (fresh 4096) = Inr st'"
      "map tl_s (store st') = [''a'', ''='', ''b'']"
    by (auto simp: source_texts_def)
  have "\<not> sublist ''FILENAME'' ''a =b''" by code_simp
  then have "\<exists>h' bs. reverse_list (store st') (token st') = Some (h', first_or (rev [] @ bs) None) \<and>
      linked h' (rev [] @ bs) \<and> texts h' (rev []) = texts (store (fresh 4096)) (rev []) \<and> lexed ''a =b'' (texts h' bs)"
    by (intro read_file_tokens [OF r(1)]) (simp_all add: fresh_ok)
  then show ?thesis using r by auto
qed

section \<open>Comments\<close>

lemma get_token_branch:
  assumes "clearWhiteSpace (Some d) (reset_hold_string st) = (Some d, reset_hold_string st)"
  shows "get_token (Some d) st = bindE (token_branch d (reset_hold_string st)) (\<lambda>(f, c, st).
         case f of Reset \<Rightarrow> get_token c st | New_Token \<Rightarrow> Inr (c, new_token (hold_string st) st) | Return \<Rightarrow> Inr (c, st))"
  by (simp add: get_token.simps [of "Some d" st] assms)

lemma clearWhiteSpace_other: "\<not> blank d \<Longrightarrow> clearWhiteSpace (Some d) st = (Some d, st)"
  by (subst clearWhiteSpace.simps) simp

lemma reset_clean [simp]: "clean (reset_hold_string st) = clean st" "unread (reset_hold_string st) = unread st"
  "MAX_STRING (reset_hold_string st) = MAX_STRING st" "hold_string (reset_hold_string st) = []"
  by (simp_all add: reset_hold_string_def)

lemma get_token_newline:
  assumes "1 < MAX_STRING st"
  shows "\<exists>r. get_token (Some LF) st = Inr r"
proof -
  have "token_branch LF (reset_hold_string st) = then_token (consume_byte LF (reset_hold_string st))"
    by (simp add: token_branch_def in_set_iff)
  then show ?thesis using assms
    by (cases "grab_byte (reset_hold_string st\<lparr>hold_string := [LF]\<rparr>)")
      (auto simp: get_token_branch clearWhiteSpace_other then_token_def consume_byte_def Let_def requireE_def)
qed

text \<open>
  C17. A line comment ends at the next newline, and only there: \<open>get_token\<close> on two slashes does not
  return exactly when no newline follows them in the file.
\<close>

theorem line_comment_needs_newline:
  assumes "clean st" "unread st = CHR ''/'' # s" "1 < MAX_STRING st"
  shows "get_token (Some CHR ''/'') st = Inl Never_Returns \<longleftrightarrow> LF \<notin> set s"
proof -
  let ?st = "reset_hold_string st"
  have b: "token_branch CHR ''/'' ?st = token_slash ?st" by (simp add: token_branch_def in_set_iff)
  obtain c1 st1 where g1: "grab_byte (?st\<lparr>hold_string := [CHR ''/'']\<rparr>) = (c1, st1)" by fastforce
  have cl: "clean (?st\<lparr>hold_string := [CHR ''/'']\<rparr>)" using assms(1) by simp
  note h1 = grab_byte_clean [OF cl g1]
  have "unread (?st\<lparr>hold_string := [CHR ''/'']\<rparr>) = CHR ''/'' # s" using assms(2) by simp
  then have "pending (c1, st1) = CHR ''/'' # s" "c1 \<noteq> None" using h1(1,5) by simp_all
  then have c1: "c1 = Some CHR ''/''" "unread st1 = s" by auto
  obtain c2 st2 where g2: "grab_byte st1 = (c2, st2)" by fastforce
  note h2 = grab_byte_clean [OF h1(2) g2]
  have k: "consume_byte CHR ''/'' ?st = Inr (c1, st1)"
    using assms(3) g1 by (simp add: consume_byte_def Let_def requireE_def)
  have t: "token_slash ?st = (case skip_line c2 st2 of None \<Rightarrow> Inl Never_Returns | Some (c, st) \<Rightarrow> Inr (Reset, c, st))"
    by (simp add: token_slash_def k c1 g2)
  note gt = get_token_branch [OF clearWhiteSpace_other, of "CHR ''/''" st, unfolded b t]
  show ?thesis
  proof (cases "LF \<in> set s")
    case False
    then have "skip_line c2 st2 = None" using skip_line_None_iff [OF h2(2), of c2] h2(1) c1(2) by simp
    then show ?thesis using False gt by simp
  next
    case True
    then obtain r where r: "skip_line c2 st2 = Some r"
      using skip_line_None_iff [OF h2(2), of c2] h2(1) c1(2) by auto
    obtain c3 st3 where r3: "r = (c3, st3)" by fastforce
    have c3: "c3 = Some LF" using skip_line_Some [OF r] r3 by simp
    obtain w where "behind w (c2, st2) (c3, st3)" using behind_skip_line [OF r] r3 by blast
    then have "MAX_STRING st3 = MAX_STRING st" using h1(4) h2(2,4) by (simp add: behind_def same_list_def)
    then obtain q where "get_token (Some LF) st3 = Inr q" using get_token_newline [of st3] assms(3) by auto
    then show ?thesis using True gt r r3 c3 by simp
  qed
qed

lemma line_comment_needs_newline_witness:
  "get_token (Some CHR ''/'') (start ''/ end'' ''f'' (fresh 16)) = Inl Never_Returns"
proof -
  have "clean (start ''/ end'' ''f'' (fresh 16))" "unread (start ''/ end'' ''f'' (fresh 16)) = ''/ end''"
    by (rule start_clean; simp add: fresh_ok)+
  then show ?thesis using line_comment_needs_newline [of "start ''/ end'' ''f'' (fresh 16)" "'' end''"]
    by (simp add: start_def fresh_def)
qed

text \<open>
  C18. The byte 255 ends a file for the tokenizer: it comes out of \<open>file_buffer\<close> as -1, the
  value for \<open>EOF\<close>. Whenever the text \<open>a\<close> in front of it can be read as a file of its own (so the
  byte is in no literal, comment or directive that goes on), the whole file is read without an
  error as the tokens of \<open>a\<close>, and all that comes behind the byte is left unread.
\<close>

theorem byte_255_ends_file:
  assumes "read_all_tokens a name st = Inr s" "buffer_ok st" "CHR 0xFF \<notin> set a"
  shows "\<exists>t. read_all_tokens (a @ CHR 0xFF # b) name st = Inr t \<and> store t = store s \<and>
    token t = token s \<and> filename t = filename s \<and> line t = line s \<and> unread t = b"
proof -
  obtain t where "read_all_tokens (a @ CHR 0xFF # b) name st = Inr t" "cut_off b (None, s) (None, t)"
    using read_all_tokens_cut_off [OF assms] by blast
  then show ?thesis by (auto simp: cut_off_def side_by_side_def same_list_def)
qed

lemma byte_255_ends_file_witness:
  "\<exists>s t. read_all_tokens ''x =1'' ''f'' (fresh 4096) = Inr s \<and> map tl_s (store s) = [''x'', ''='', ''1''] \<and>
    read_all_tokens (''x =1'' @ CHR 0xFF # ''+ 2;'') ''f'' (fresh 4096) = Inr t \<and> store t = store s \<and>
    token t = token s \<and> unread t = ''+ 2;''"
proof -
  have "bindE (read_all_tokens ''x =1'' ''f'' (fresh 4096)) (\<lambda>s. Inr (map tl_s (store s))) =
      (Inr [''x'', ''='', ''1''] :: reader_error + string list)" by code_simp
  then obtain s where "read_all_tokens ''x =1'' ''f'' (fresh 4096) = Inr s" "map tl_s (store s) = [''x'', ''='', ''1'']"
    by auto
  then show ?thesis
    using byte_255_ends_file [of "''x =1''" "''f''" "fresh 4096" s "''+ 2;''"] by (auto simp: fresh_ok)
qed

end
