(* ===== verification/CcReaderOps.thy ===== *)
theory CcReaderOps
  imports CcReaderProps
begin

text \<open>
  The operators and numbers the tokenizer makes, against the operators C has.
\<close>

section \<open>Operators\<close>

definition first_char :: "string \<Rightarrow> char option" where
  "first_char s = (case s of [] \<Rightarrow> None | c # _ \<Rightarrow> Some c)"

lemma first_char_simps [simp]: "first_char [] = None" "first_char (c # s) = Some c"
  by (simp_all add: first_char_def)

lemma consume_byte_clean:
  assumes "consume_byte c st = Inr (c', st')" "clean st"
  shows "clean st'" "hold_string st' = hold_string st @ [c]" "c' = first_char (unread st)" "unread st' = tl (unread st)"
    "MAX_STRING st' = MAX_STRING st"
proof -
  have g: "grab_byte (st\<lparr>hold_string := hold_string st @ [c]\<rparr>) = (c', st')"
    using assms(1) by (simp add: consume_byte_def Let_def)
  have cl: "clean (st\<lparr>hold_string := hold_string st @ [c]\<rparr>)" using assms(2) by simp
  note h = grab_byte_clean [OF cl g]
  have p: "pending (c', st') = unread st" "c' = None \<longleftrightarrow> unread st = []" using h(1,5) by simp_all
  show "clean st'" "hold_string st' = hold_string st @ [c]" "MAX_STRING st' = MAX_STRING st"
    using h(2,3,4) by (simp_all add: same_list_def)
  show "c' = first_char (unread st)" "unread st' = tl (unread st)"
    using p by (cases c'; cases "unread st"; simp)+
qed

lemma consume_if_clean:
  assumes "consume_if S (first_char s, st) = Inr (c', st')" "clean st" "unread st = tl s"
  shows "clean st'" "c' = first_char (drop (length (if s \<noteq> [] \<and> in_set (hd s) S then [hd s] else [])) s)"
    "hold_string st' = hold_string st @ (if s \<noteq> [] \<and> in_set (hd s) S then [hd s] else [])"
    "unread st' = tl (drop (length (if s \<noteq> [] \<and> in_set (hd s) S then [hd s] else [])) s)"
proof -
  have "clean st' \<and> c' = first_char (drop (length (if s \<noteq> [] \<and> in_set (hd s) S then [hd s] else [])) s) \<and>
    hold_string st' = hold_string st @ (if s \<noteq> [] \<and> in_set (hd s) S then [hd s] else []) \<and>
    unread st' = tl (drop (length (if s \<noteq> [] \<and> in_set (hd s) S then [hd s] else [])) s)"
  proof (cases s)
    case Nil
    then show ?thesis using assms by (simp add: consume_if_def)
  next
    case (Cons d s')
    show ?thesis
    proof (cases "in_set d S")
      case True
      then have "consume_byte d st = Inr (c', st')" using assms(1) Cons by (simp add: consume_if_def)
      from consume_byte_clean [OF this assms(2)] show ?thesis using True Cons assms(3) by simp
    next
      case False
      then show ?thesis using assms Cons by (simp add: consume_if_def)
    qed
  qed
  then show "clean st'" "c' = first_char (drop (length (if s \<noteq> [] \<and> in_set (hd s) S then [hd s] else [])) s)"
    "hold_string st' = hold_string st @ (if s \<noteq> [] \<and> in_set (hd s) S then [hd s] else [])"
    "unread st' = tl (drop (length (if s \<noteq> [] \<and> in_set (hd s) S then [hd s] else [])) s)" by blast+
qed

text \<open>The text \<open>token_operator\<close> makes of a character and what follows it.\<close>

definition operator_text :: "char \<Rightarrow> string \<Rightarrow> string" where
  "operator_text c s =
    (case s of
       d # s' \<Rightarrow>
         if operator_take c (Some d)
         then (if first_char s' = Some CHR ''='' \<and> d = c \<and> (c = CHR ''<'' \<or> c = CHR ''>'') then [c, d, CHR ''='']
               else [c, d])
         else [c]
     | [] \<Rightarrow> [c])"

lemma token_operator_text:
  assumes "token_operator c st = Inr (f, c', st')" "clean st" "hold_string st = []"
  shows "hold_string st' = operator_text c (unread st)"
proof -
  obtain c1 st1 where k: "consume_byte c st = Inr (c1, st1)" using assms by (auto simp: token_operator_def)
  note h = consume_byte_clean [OF k assms(2)]
  show ?thesis
  proof (cases "unread st")
    case Nil
    then show ?thesis using assms(1,3) h by (simp add: token_operator_def k operator_text_def)
  next
    case (Cons d s)
    show ?thesis
    proof (cases "operator_take c (Some d)")
      case False
      then show ?thesis using assms(1,3) h Cons by (simp add: token_operator_def k operator_text_def)
    next
      case True
      then obtain c2 st2 where k2: "consume_byte d st1 = Inr (c2, st2)"
        using assms(1) h Cons by (auto simp: token_operator_def k)
      note h2 = consume_byte_clean [OF k2 h(1)]
      show ?thesis
      proof (cases "c2 = Some CHR ''='' \<and> d = c \<and> (c = CHR ''<'' \<or> c = CHR ''>'')")
        case three: True
        then have "consume_byte c st1 = Inr (c2, st2)" using k2 by simp
        then have "then_token (consume_byte CHR ''='' st2) = Inr (f, c', st')"
          using assms(1) True three h Cons by (simp add: token_operator_def k)
        then have k3: "consume_byte CHR ''='' st2 = Inr (c', st')" using then_tokenD by blast
        have "hold_string st' = [c, d, CHR ''='']" using consume_byte_clean(2) [OF k3 h2(1)] h2 h assms(3) by simp
        moreover have "first_char s = Some CHR ''=''" using three h2(3) h(4) Cons by simp
        ultimately show ?thesis using True three Cons by (auto simp: operator_text_def)
      next
        case False
        have "c2 = first_char s" using h2(3) h(4) Cons by simp
        moreover have "st' = st2" using assms(1) True False h Cons k2 by (auto simp: token_operator_def k)
        ultimately show ?thesis using True False Cons h2(2) h(2) assms(3) by (auto simp: operator_text_def)
      qed
    qed
  qed
qed

text \<open>The operators of C that begin with one of the characters the branch is for.\<close>

definition c_operators :: "string list" where
  "c_operators = [''<'', ''<='', ''<<'', ''<<='', ''='', ''=='', ''>'', ''>='', ''>>'', ''>>='',
     ''|'', ''|='', ''||'', ''&'', ''&='', ''&&'', ''!'', ''!='', ''^'', ''^='', ''%'', ''%='']"

lemma operator_text_longest:
  assumes "c \<in> set ''<=>|&!^%''"
  shows "operator_text c s \<in> set c_operators \<and> prefix (operator_text c s) (c # s) \<and>
    (\<forall>u \<in> set c_operators. prefix u (c # s) \<longrightarrow> length u \<le> length (operator_text c s))"
proof -
  have "operator_text c s \<in> set c_operators \<and> prefix (operator_text c s) (c # s) \<and>
    (\<forall>u \<in> set c_operators. prefix u (c # s) \<longrightarrow> length u \<le> length (operator_text c s))"
    if "c = CHR ''<'' \<or> c = CHR ''='' \<or> c = CHR ''>'' \<or> c = CHR ''|'' \<or> c = CHR ''&'' \<or> c = CHR ''!'' \<or> c = CHR ''^'' \<or> c = CHR ''%''"
    using that
    by (cases s; cases "tl s")
      (elim disjE; simp add: operator_text_def operator_take_def in_set_iff c_operators_def; fastforce)+
  then show ?thesis using assms by auto
qed

lemma branch_operator:
  "c \<in> set ''<=>|&!^%'' \<Longrightarrow> token_branch c st = token_operator c st"
  by (auto simp: token_branch_def in_set_iff)

text \<open>
  C19. A token that begins with one of the characters \<open><=>|&!^%\<close> is the longest operator of C that
  the text begins with.
\<close>

theorem operator_is_longest:
  assumes "token_branch c st = Inr (f, c', st')" "c \<in> set ''<=>|&!^%''" "clean st" "hold_string st = []"
  shows "hold_string st' \<in> set c_operators \<and> prefix (hold_string st') (c # unread st) \<and>
    (\<forall>u \<in> set c_operators. prefix u (c # unread st) \<longrightarrow> length u \<le> length (hold_string st'))"
  using operator_text_longest [OF assms(2), of "unread st"] token_operator_text [of c st f c' st'] assms
  by (simp add: branch_operator)

lemma operator_is_longest_witness:
  "\<exists>f c' st'. token_branch CHR ''<'' (start ''<=x'' ''f'' (fresh 16)) = Inr (f, c', st') \<and>
    hold_string st' \<in> set c_operators \<and> hold_string st' = ''<<=''"
proof -
  let ?st = "start ''<=x'' ''f'' (fresh 16)"
  have cl: "clean ?st" "unread ?st = ''<=x''" by (rule start_clean; simp add: fresh_ok)+
  have e: "case token_branch CHR ''<'' ?st of Inl _ \<Rightarrow> False | Inr (f, c', st') \<Rightarrow> hold_string st' = ''<<=''" by code_simp
  then obtain f c' st' where r: "token_branch CHR ''<'' ?st = Inr (f, c', st')" "hold_string st' = ''<<=''"
    by (auto split: sum.splits)
  have "hold_string ?st = []" by (simp add: start_def fresh_def)
  from operator_is_longest [OF r(1) _ cl(1) this] r show ?thesis by auto
qed

text \<open>What the branches for \<open>+\<close> and \<open>-\<close> make.\<close>

abbreviation one_of :: "string \<Rightarrow> string \<Rightarrow> string" where
  "one_of S s \<equiv> (if s \<noteq> [] \<and> in_set (hd s) S then [hd s] else [])"

definition plus_text :: "string \<Rightarrow> string" where
  "plus_text s = (let a = one_of ''='' s; b = one_of ''+'' (drop (length a) s) in CHR ''+'' # a @ b)"

definition minus_text :: "string \<Rightarrow> string" where
  "minus_text s =
    (let a = one_of ''='' s; s1 = drop (length a) s; b = one_of ''>'' s1; s2 = drop (length b) s1
     in CHR ''-'' # a @ b @ one_of ''-'' s2)"

lemma token_plus_text:
  assumes "token_plus st = Inr (f, c', st')" "clean st" "hold_string st = []"
  shows "hold_string st' = plus_text (unread st)"
proof -
  obtain c1 st1 where k1: "consume_byte CHR ''+'' st = Inr (c1, st1)"
    using assms(1) by (auto simp: token_plus_def dest!: then_tokenD)
  note h1 = consume_byte_clean [OF k1 assms(2)]
  obtain c2 st2 where k2: "consume_if ''='' (c1, st1) = Inr (c2, st2)" and k3: "consume_if ''+'' (c2, st2) = Inr (c', st')"
    using assms(1) k1 by (auto simp: token_plus_def dest!: then_tokenD)
  note h2 = consume_if_clean [OF k2 [unfolded h1(3)] h1(1,4)]
  note h3 = consume_if_clean [OF k3 [unfolded h2(2)] h2(1,4)]
  show ?thesis by (simp only: h3(3) h2(3) h1(2) assms(3) plus_text_def Let_def append_Cons append_Nil append_assoc)
qed

lemma token_minus_text:
  assumes "token_minus st = Inr (f, c', st')" "clean st" "hold_string st = []"
  shows "hold_string st' = minus_text (unread st)"
proof -
  obtain c1 st1 where k1: "consume_byte CHR ''-'' st = Inr (c1, st1)"
    using assms(1) by (auto simp: token_minus_def dest!: then_tokenD)
  note h1 = consume_byte_clean [OF k1 assms(2)]
  obtain c2 st2 c3 st3 where k2: "consume_if ''='' (c1, st1) = Inr (c2, st2)"
    and k3: "consume_if ''>'' (c2, st2) = Inr (c3, st3)" and k4: "consume_if ''-'' (c3, st3) = Inr (c', st')"
    using assms(1) k1 by (auto simp: token_minus_def dest!: then_tokenD)
  note h2 = consume_if_clean [OF k2 [unfolded h1(3)] h1(1,4)]
  note h3 = consume_if_clean [OF k3 [unfolded h2(2)] h2(1,4)]
  note h4 = consume_if_clean [OF k4 [unfolded h3(2)] h3(1,4)]
  show ?thesis by (simp only: h4(3) h3(3) h2(3) h1(2) assms(3) minus_text_def Let_def append_Cons append_Nil append_assoc)
qed

text \<open>
  A sign after a compound assignment is swallowed: the text \<open>+=+\<close> becomes one token, and so
  does \<open>-=-\<close>, where C has the operators \<open>+=\<close> and \<open>-=\<close> before a sign.
\<close>

lemma sign_swallowed:
  assumes "clean st" "hold_string st = []" "c \<in> set ''+-''" "unread st = CHR ''='' # c # s"
    "token_branch c st = Inr (f, c', st')"
  shows "hold_string st' = [c, CHR ''='', c]"
proof -
  consider "c = CHR ''+''" | "c = CHR ''-''" using assms(3) by auto
  then show ?thesis
  proof cases
    case 1
    then show ?thesis
      using token_plus_text [of st f c' st'] assms by (simp add: token_branch_def in_set_iff plus_text_def)
  next
    case 2
    then show ?thesis
      using token_minus_text [of st f c' st'] assms by (simp add: token_branch_def in_set_iff minus_text_def Let_def)
  qed
qed

lemma sign_swallowed_witness:
  "\<exists>f c' st'. token_branch CHR ''+'' (start ''=+b'' ''f'' (fresh 16)) = Inr (f, c', st') \<and> hold_string st' = ''+=+''"
proof -
  let ?st = "start ''=+b'' ''f'' (fresh 16)"
  have cl: "clean ?st" "unread ?st = ''=+b''" by (rule start_clean; simp add: fresh_ok)+
  have h: "hold_string ?st = []" by (simp add: start_def fresh_def)
  have e: "case token_branch CHR ''+'' ?st of Inl _ \<Rightarrow> False | Inr r \<Rightarrow> True" by code_simp
  then obtain f c' st' where r: "token_branch CHR ''+'' ?st = Inr (f, c', st')"
    by (auto split: sum.splits)
  show ?thesis using sign_swallowed [OF cl(1) h _ _ r, of "''b''"] cl(2) r by auto
qed

section \<open>Numbers\<close>

text \<open>
  A floating-point literal is one token when it has a point; without one, a signed exponent
  ends it: \<open>1e+5\<close> is three tokens.
\<close>

lemma floating_tokens:
  "source_texts ''1.5e+3f'' = Inr [''1.5e+3f''] \<and> source_texts ''1e+5'' = Inr [''1e'', ''+'', ''5''] \<and>
   source_texts ''x.y'' = Inr [''x'', ''.'', ''y'']"
  by (intro conjI; code_simp)

text \<open>The text \<open>/*/\<close> is a whole comment; in C it only opens one.\<close>

lemma slash_star_slash:
  "source_texts ''/*/ a'' = Inr [''a''] \<and> source_texts ''/* b */ a'' = Inr [''a'']"
  by (intro conjI; code_simp)

end
