(* ===== verification/CcStrings.thy ===== *)
theory CcStrings
  imports CcReader "HOL-Library.Signed_Division"
begin

text \<open>
  String literals and 64-bit numbers of the compiler
  (\<^verbatim>\<open>stages/3-micro-c/micro-c/cc_strings.c\<close>). A literal is the token the tokenizer made of it: the
  opening quote and the characters up to the closing one. A \<open>char\<close> that the code promotes to an
  \<open>int\<close> is read by \<open>schar\<close>; the \<open>int\<close>s here stay far from their bounds, so they are integers.
\<close>

section \<open>Escapes\<close>

datatype strings_error = Non_Hex_Number | Unknown_Escape string | String_Too_Long | Weird_Too_Long
  | Base_Below_2 | Base_Above_36 | Negative_As_Unsigned

definition schar :: "char \<Rightarrow> int" where
  "schar c = signed_take_bit 7 (of_char c)"

definition to_char :: "int \<Rightarrow> char" where
  "to_char i = char_of (i mod 256)"

definition upcase :: "char \<Rightarrow> char" where
  "upcase a = (if in_set a ''abcdefghijklmnopqrstuvwxyz'' then to_char (schar a - 32) else a)"

definition char2hex :: "int \<Rightarrow> int" where
  "char2hex c =
    (if 48 \<le> c \<and> c \<le> 57 then c - 48
     else if 97 \<le> c \<and> c \<le> 102 then c - 87
     else if 65 \<le> c \<and> c \<le> 70 then c - 55
     else - 1)"

definition hexify :: "int \<Rightarrow> bool \<Rightarrow> strings_error + int" where
  "hexify c high =
    (let i = char2hex c
     in if 0 > i then Inl Non_Hex_Number else Inr (if high then i * 2 ^ 4 else i))"

definition digit_is_octal :: "char \<Rightarrow> bool" where
  "digit_is_octal digit \<longleftrightarrow> 48 \<le> schar digit \<and> schar digit \<le> 55"

function octal_loop :: "string \<Rightarrow> nat \<Rightarrow> int \<Rightarrow> int" where
  "octal_loop digits i result =
    (if digit_is_octal (chr_at digits i) \<and> i < 3
     then octal_loop digits (i + 1) (result * 8 + (schar (chr_at digits i) - 48))
     else result)"
  by pat_completeness auto
termination by (relation "measure (\<lambda>(d, i, r). 3 - i)") auto

function octal_wrap :: "int \<Rightarrow> int" where
  "octal_wrap result = (if 127 < result then octal_wrap (result - 256) else result)"
  by pat_completeness auto
termination by (relation "measure nat") auto

declare octal_loop.simps [simp del] octal_wrap.simps [simp del]

definition parse_octal_escape_code :: "string \<Rightarrow> int" where
  "parse_octal_escape_code digits = octal_wrap (octal_loop digits 0 0)"

function skip_octal :: "string \<Rightarrow> nat \<Rightarrow> nat" where
  "skip_octal s i = (if digit_is_octal (chr_at s i) \<and> i < 4 then skip_octal s (i + 1) else i)"
  by pat_completeness auto
termination by (relation "measure (\<lambda>(s, i). 4 - i)") auto

declare skip_octal.simps [simp del]

definition amount_of_escaped_chars_to_skip :: "string \<Rightarrow> nat" where
  "amount_of_escaped_chars_to_skip s =
    (if chr_at s 1 = CHR ''x'' then 3
     else if digit_is_octal (chr_at s 1) then skip_octal s 2 - 1
     else 1)"

text \<open>
  The walk of \<open>string_size\<close>, with the string from the index on; \<open>None\<close> when it steps over the
  end of the string.
\<close>

function string_size_loop :: "string \<Rightarrow> nat \<Rightarrow> nat \<Rightarrow> nat option" where
  "string_size_loop s i n =
    (if i > length s then None
     else if chr_at s i = NUL then Some n
     else string_size_loop s
       ((if chr_at s i = CHR 0x5C then i + amount_of_escaped_chars_to_skip (drop i s) else i) + 1) (n + 1))"
  by pat_completeness auto
termination
  by (relation "measure (\<lambda>(s, i, n). Suc (length s) - i)") auto

declare string_size_loop.simps [simp del]

definition string_size :: "string \<Rightarrow> nat option" where
  "string_size s = map_option (\<lambda>n. n + 1) (string_size_loop s 1 0)"

definition escape_lookup :: "string \<Rightarrow> strings_error + int" where
  "escape_lookup c =
    (if chr_at c 0 \<noteq> CHR 0x5C then Inr (schar (chr_at c 0))
     else if chr_at c 1 = CHR ''x''
     then bindE (hexify (schar (chr_at c 2)) True) (\<lambda>t1.
          bindE (hexify (schar (chr_at c 3)) False) (\<lambda>t2. Inr (t1 + t2)))
     else if chr_at c 1 = CHR ''a'' then Inr 7
     else if chr_at c 1 = CHR ''b'' then Inr 8
     else if chr_at c 1 = CHR ''t'' then Inr 9
     else if chr_at c 1 = CHR ''n'' then Inr 10
     else if chr_at c 1 = CHR ''v'' then Inr 11
     else if chr_at c 1 = CHR ''f'' then Inr 12
     else if chr_at c 1 = CHR ''r'' then Inr 13
     else if chr_at c 1 = CHR ''e'' then Inr 27
     else if chr_at c 1 = CHR 0x22 then Inr 34
     else if chr_at c 1 = CHR 0x27 then Inr 39
     else if chr_at c 1 = CHR 0x5C then Inr 92
     else if chr_at c 1 = CHR ''?'' then Inr 63
     else if digit_is_octal (chr_at c 1) then Inr (parse_octal_escape_code (drop 1 c))
     else Inl (Unknown_Escape c))"

section \<open>Literals\<close>

text \<open>\<open>in_set\<close> of an \<open>int\<close>.\<close>

definition in_set_int :: "int \<Rightarrow> string \<Rightarrow> bool" where
  "in_set_int c s = list_ex (\<lambda>x. c = schar x) s"

definition plain_chars :: string where
  "plain_chars = TAB # LF # '' !#$%&'' @ CHR 0x27 # ''()*+,-./0123456789:;<=>?@ABCDEFGHIJKLMNOPQRSTUVWXYZ['' @
     CHR 0x5C # '']^_'' @ CHR 0x60 # ''abcdefghijklmnopqrstuvwxyz{|}~''"

function weird_loop :: "string \<Rightarrow> strings_error + bool" where
  "weird_loop s =
    (if chr_at s 0 = NUL then Inr False
     else bindE (if chr_at s 0 = CHR 0x5C
                 then bindE (escape_lookup s) (\<lambda>c. Inr (c, drop (amount_of_escaped_chars_to_skip s) s))
                 else Inr (schar (chr_at s 0), s)) (\<lambda>(c, s).
          if \<not> in_set_int c plain_chars then Inr True
          else if in_set_int c [CHR '' '', TAB, LF, CR] \<and> chr_at s 1 = CHR '':'' then Inr True
          else weird_loop (drop 1 s)))"
  by pat_completeness auto
termination
proof (relation "measure length")
  fix s :: string and x c s'
  assume a: "chr_at s 0 \<noteq> NUL" "(c, s') = x"
    "(if chr_at s 0 = CHR 0x5C then bindE (escape_lookup s) (\<lambda>c. Inr (c, drop (amount_of_escaped_chars_to_skip s) s))
      else Inr (schar (chr_at s 0), s)) = Inr x"
  then have "length s' \<le> length s" "s \<noteq> []" by (auto split: if_splits)
  then show "(drop 1 s', s) \<in> measure length" by (cases s) (auto simp: less_Suc_eq_le intro: diff_le_mono)
qed simp

declare weird_loop.simps [simp del]

definition weird :: "string \<Rightarrow> strings_error + bool" where
  "weird s = weird_loop (drop 1 s)"

text \<open>The loop of \<open>collect_regular_string\<close>: the characters it puts in \<open>hold_string\<close>.\<close>

function collect_regular_loop :: "int \<Rightarrow> string \<Rightarrow> string \<Rightarrow> strings_error + string" where
  "collect_regular_loop m s hold =
    bindE (requireE (int (length hold) < m - 3) String_Too_Long) (\<lambda>_.
    bindE (if chr_at s 0 = CHR 0x5C
           then bindE (escape_lookup s) (\<lambda>c. Inr (to_char c, drop (amount_of_escaped_chars_to_skip s + 1) s))
           else Inr (chr_at s 0, drop 1 s)) (\<lambda>(c, s).
    if chr_at s 0 \<noteq> NUL then collect_regular_loop m s (hold @ [c]) else Inr (hold @ [c])))"
  by pat_completeness auto
termination
proof (relation "measure (\<lambda>(m, s, hold). length s)")
  fix m :: int and s hold u x c s'
  assume "(if chr_at s 0 = CHR 0x5C
           then bindE (escape_lookup s) (\<lambda>c. Inr (to_char c, drop (amount_of_escaped_chars_to_skip s + 1) s))
           else Inr (chr_at s 0, drop 1 s)) = Inr x" "(c, s') = x" "chr_at s' 0 \<noteq> NUL"
  then have "length s' < length s" by (cases s) (auto split: if_splits simp: chr_at_def)
  then show "((m, s', hold @ [c]), m, s, hold) \<in> measure (\<lambda>(m, s, hold). length s)" by simp
qed simp

declare collect_regular_loop.simps [simp del]

definition collect_regular_string :: "int \<Rightarrow> string \<Rightarrow> strings_error + string" where
  "collect_regular_string m s =
    bindE (collect_regular_loop m s []) (\<lambda>hold.
      Inr (CcReader.copy_string (hold @ [CHR 0x22, LF]) (int (length hold) + 2)))"

abbreviation hex_table :: string where "hex_table \<equiv> ''0123456789ABCDEF''"

function collect_weird_loop :: "int \<Rightarrow> string \<Rightarrow> string \<Rightarrow> strings_error + string" where
  "collect_weird_loop m s hold =
    bindE (requireE (int (length hold) < m - 6) Weird_Too_Long) (\<lambda>_.
    let s = drop 1 s
    in bindE (escape_lookup s) (\<lambda>e.
       let temp = e AND 0xFF;
           hold = hold @ [CHR '' '', chr_at hex_table (nat (temp div 2 ^ 4)), chr_at hex_table (nat (temp AND 15))];
           s = (if chr_at s 0 = CHR 0x5C then drop (amount_of_escaped_chars_to_skip s) s else s)
       in if chr_at s 1 \<noteq> NUL then collect_weird_loop m s hold else Inr hold))"
  by pat_completeness auto
termination
proof (relation "measure (\<lambda>(m, s, hold). length s)")
  fix m :: int and s hold and u :: unit and x e temp y z
  assume a: "x = drop 1 s" "z = (if chr_at x 0 = CHR 0x5C then drop (amount_of_escaped_chars_to_skip x) x else x)"
    "chr_at z 1 \<noteq> NUL"
  then have "length z \<le> length x" "1 < length z" by (auto simp: chr_at_def split: if_splits)
  then have "length z < length s" using a(1) by simp
  then show "((m, z, y), m, s, hold) \<in> measure (\<lambda>(m, s, hold). length s)" by simp
qed simp

declare collect_weird_loop.simps [simp del]

definition collect_weird_string :: "int \<Rightarrow> string \<Rightarrow> strings_error + string" where
  "collect_weird_string m s =
    bindE (collect_weird_loop m s [CHR 0x27]) (\<lambda>hold.
      Inr (CcReader.copy_string (hold @ '' 00'' @ [CHR 0x27, LF]) (int (length hold) + 5)))"

definition parse_string :: "int \<Rightarrow> string \<Rightarrow> strings_error + string" where
  "parse_string m s =
    bindE (weird s) (\<lambda>b. if b then collect_weird_string m s else collect_regular_string m s)"

section \<open>Numbers\<close>

text \<open>A \<open>long long\<close> is a \<open>u64\<close>, read in two's complement by \<open>sint\<close>.\<close>

fun strtolong_loop :: "int \<Rightarrow> string \<Rightarrow> u64 \<Rightarrow> u64" where
  "strtolong_loop base [] result = result"
| "strtolong_loop base (c # a) result =
    (if c = NUL then result
     else if c \<noteq> CHR ''_''
     then (let digit = char2hex (schar c)
           in if 0 > digit then result
              else if digit \<ge> base then result
              else strtolong_loop base a (result * of_int base + of_int digit))
     else strtolong_loop base a result)"

definition strtolong :: "string option \<Rightarrow> u64" where
  "strtolong p =
    (case p of
       None \<Rightarrow> 0
     | Some a \<Rightarrow>
         if chr_at a 0 = NUL then 0
         else (let negative = (chr_at a 0 = CHR ''-'');
                   i = (if negative \<or> chr_at a 0 = CHR ''+'' then 1 else 0);
                   (base, i) =
                     (if chr_at a i = CHR ''0''
                      then (if chr_at a (i + 1) = CHR ''x'' \<or> chr_at a (i + 1) = CHR ''X'' then (16, i + 2)
                            else if chr_at a (i + 1) = CHR ''b'' \<or> chr_at a (i + 1) = CHR ''B'' then (2, i + 2)
                            else (8, i + 1))
                      else (10, i));
                   result = strtolong_loop base (drop i a) 0
               in if negative then 0 - result else result))"

lemma sdiv_smaller:
  assumes "1 < b" "i sdiv b \<noteq> (0 :: int)"
  shows "\<bar>i sdiv b\<bar> < \<bar>i\<bar>"
proof -
  have e: "\<bar>i sdiv b\<bar> = \<bar>i\<bar> div b" using assms(1) by (auto simp: signed_divide_int_def abs_mult abs_sgn_eq pos_imp_zdiv_nonneg_iff)
  then have "\<bar>i\<bar> \<noteq> 0" using assms by auto
  then show ?thesis unfolding e using assms(1) by (intro int_div_less_self) auto
qed

text \<open>
  The loop of \<open>long2str\<close>, for a negative number or one that is not; division is C's, which
  truncates, and the buffer is filled from its end.
\<close>

function long2str_loop :: "int \<Rightarrow> bool \<Rightarrow> int \<Rightarrow> string \<Rightarrow> string" where
  "long2str_loop base sign_p i acc =
    (let digit = (if sign_p then 0 - i smod base else i smod base);
         acc = chr_at digit_table (nat digit) # acc;
         i = i sdiv base
     in if 1 < base \<and> i \<noteq> 0 then long2str_loop base sign_p i acc else acc)"
  by pat_completeness auto

termination
  by (relation "measure (\<lambda>(base, s, i, acc). nat \<bar>i\<bar>)") (auto simp: sdiv_smaller)

declare long2str_loop.simps [simp del]

definition long2str :: "u64 \<Rightarrow> int \<Rightarrow> bool \<Rightarrow> strings_error + string" where
  "long2str x base signed_p =
    bindE (requireE (1 < base) Base_Below_2) (\<lambda>_.
    bindE (requireE (37 > base) Base_Above_36) (\<lambda>_.
    bindE (requireE (signed_p \<or> 0 \<le> sint x) Negative_As_Unsigned) (\<lambda>_.
    let sign_p = (signed_p \<and> 0 > sint x)
    in if sign_p then Inr (CHR ''-'' # long2str_loop base True (sint x) [])
       else Inr (long2str_loop base False (sint x) []))))"

definition immediate_low_word :: "u64 \<Rightarrow> u64" where
  "immediate_low_word value = value AND (push_bit 32 1 - 1)"

definition immediate_high_word :: "u64 \<Rightarrow> u64" where
  "immediate_high_word value = signed_drop_bit 32 value AND (push_bit 32 1 - 1)"

end
