(* ===== verification/CcNumbers.thy ===== *)
theory CcNumbers
  imports CcStrings
begin

text \<open>
  The 64-bit number reader and printer of the compiler are inverse, and the halves of a 64-bit
  constant put together give it back.
\<close>

section \<open>Printing and reading\<close>

lemma char2hex_digit: "0 \<le> d \<Longrightarrow> d < 16 \<Longrightarrow> char2hex (schar (chr_at digit_table (nat d))) = d \<and>
    chr_at digit_table (nat d) \<notin> {NUL, CHR ''_'', CHR ''-'', CHR ''+''} \<and> (chr_at digit_table (nat d) = CHR ''0'' \<longleftrightarrow> d = 0)"
proof -
  have "\<forall>d \<in> set [0..<16]. char2hex (schar (chr_at digit_table d)) = int d \<and>
    chr_at digit_table d \<notin> {NUL, CHR ''_'', CHR ''-'', CHR ''+''} \<and> (chr_at digit_table d = CHR ''0'' \<longleftrightarrow> d = 0)" by code_simp
  then have "n < 16 \<Longrightarrow> char2hex (schar (chr_at digit_table n)) = int n \<and>
    chr_at digit_table n \<notin> {NUL, CHR ''_'', CHR ''-'', CHR ''+''} \<and> (chr_at digit_table n = CHR ''0'' \<longleftrightarrow> n = 0)" for n by simp
  from this [of "nat d"] show "0 \<le> d \<Longrightarrow> d < 16 \<Longrightarrow> ?thesis" by auto
qed

lemma strtolong_digit:
  "0 \<le> d \<Longrightarrow> d < b \<Longrightarrow> b \<le> 16 \<Longrightarrow>
   strtolong_loop b (chr_at digit_table (nat d) # acc) r = strtolong_loop b acc (r * of_int b + of_int d)"
  using char2hex_digit [of d] by simp

lemma sdiv_nonneg: "0 \<le> i \<Longrightarrow> 0 < b \<Longrightarrow> i sdiv b = i div b" "0 \<le> i \<Longrightarrow> 0 < b \<Longrightarrow> i smod b = i mod (b :: int)"
  by (simp_all add: signed_divide_int_def signed_modulo_int_def pos_imp_zdiv_nonneg_iff sgn_if minus_div_mult_eq_mod)

lemma sdiv_neg: "(- i) sdiv b = - (i sdiv (b :: int))" "(- i) smod b = - (i smod (b :: int))"
  by (simp_all add: signed_divide_int_def signed_modulo_int_def sgn_minus)

text \<open>The digits of a negative number are those of its magnitude.\<close>

lemma long2str_loop_neg: "long2str_loop b True i acc = long2str_loop b False (- i) acc"
proof (induction b True i acc rule: long2str_loop.induct)
  case (1 b i acc)
  show ?case
  proof (cases "1 < b \<and> i sdiv b \<noteq> 0")
    case True
    then show ?thesis using 1 [OF refl refl refl True]
      by (simp add: long2str_loop.simps [of b _ i acc] long2str_loop.simps [of b _ "- i" acc] sdiv_neg Let_def)
  next
    case False
    then show ?thesis
      by (auto simp: long2str_loop.simps [of b _ i acc] long2str_loop.simps [of b _ "- i" acc] sdiv_neg Let_def)
  qed
qed

lemma strtolong_long2str_loop:
  "0 \<le> i \<Longrightarrow> 1 < b \<Longrightarrow> b \<le> 16 \<Longrightarrow>
   strtolong_loop b (long2str_loop b False i acc) 0 = strtolong_loop b acc (of_int i)"
proof (induction b False i acc rule: long2str_loop.induct)
  case (1 b i acc)
  have d: "0 \<le> i mod b" "i mod b < b" using "1.prems" by simp_all
  have e: "i div b * b + i mod b = i" by simp
  have e': "of_int (i div b) * of_int b + of_int (i mod b) = (of_int i :: u64)"
    using arg_cong [OF e, of "of_int :: int \<Rightarrow> u64"] by (simp only: of_int_add of_int_mult)
  note dig = strtolong_digit [OF d "1.prems"(3), of acc]
  note sd = sdiv_nonneg [OF "1.prems"(1), of b]
  show ?case
  proof (cases "i div b = 0")
    case True
    then have "i mod b = i" using e by simp
    then show ?thesis using dig [of 0] True "1.prems" sd
      by (simp add: long2str_loop.simps [of b False i acc] Let_def)
  next
    case False
    have "0 \<le> i div b" using "1.prems" by (simp add: pos_imp_zdiv_nonneg_iff)
    then have "strtolong_loop b (long2str_loop b False (i div b) (chr_at digit_table (nat (i mod b)) # acc)) 0 =
        strtolong_loop b (chr_at digit_table (nat (i mod b)) # acc) (of_int (i div b))"
      using "1.hyps" [OF refl refl refl] False sd "1.prems" by simp
    also have "\<dots> = strtolong_loop b acc (of_int i)"
      using dig [of "of_int (i div b)"] by (simp only: e')
    finally show ?thesis using False sd "1.prems"
      by (simp add: long2str_loop.simps [of b False i acc] Let_def)
  qed
qed

lemma long2str_loop_head:
  "0 \<le> i \<Longrightarrow> 1 < b \<Longrightarrow> b \<le> 16 \<Longrightarrow>
   \<exists>c s. long2str_loop b False i acc = c # s \<and> c \<notin> {NUL, CHR ''_'', CHR ''-'', CHR ''+''} \<and> (c = CHR ''0'' \<longleftrightarrow> i = 0)"
proof (induction b False i acc rule: long2str_loop.induct)
  case (1 b i acc)
  note sd = sdiv_nonneg [OF "1.prems"(1), of b]
  have d: "0 \<le> i mod b" "i mod b < 16" using "1.prems" pos_mod_bound [of b i] by (simp_all, linarith)
  show ?case
  proof (cases "i div b = 0")
    case True
    have "i div b * b + i mod b = i" by simp
    then have "i mod b = i" by (simp only: True)
    then show ?thesis using char2hex_digit [OF d] True "1.prems" sd
      by (simp add: long2str_loop.simps [of b False i acc] Let_def)
  next
    case False
    have "0 \<le> i div b" "i \<noteq> 0" using False "1.prems" by (auto simp: pos_imp_zdiv_nonneg_iff)
    then show ?thesis using "1.hyps" [OF refl refl refl] False sd "1.prems"
      by (simp add: long2str_loop.simps [of b False i acc] Let_def)
  qed
qed

lemma strtolong_positive:
  assumes "0 \<le> i"
  shows "strtolong (Some (long2str_loop 10 False i [])) = of_int i"
    and "strtolong (Some (CHR ''-'' # long2str_loop 10 False i [])) = - of_int i"
    and "strtolong (Some (''0x'' @ long2str_loop 16 False i [])) = of_int i"
proof -
  obtain c s where c: "long2str_loop 10 False i [] = c # s" "c \<notin> {NUL, CHR ''_'', CHR ''-'', CHR ''+''}" "c = CHR ''0'' \<longleftrightarrow> i = 0"
    using long2str_loop_head [OF assms, of 10 "[]"] by auto
  have z: "long2str_loop 10 False 0 [] = ''0''" by code_simp
  have l: "strtolong_loop 10 (c # s) 0 = of_int i"
    using strtolong_long2str_loop [OF assms, of 10 "[]"] by (simp add: c(1) del: strtolong_loop.simps) simp
  show "strtolong (Some (long2str_loop 10 False i [])) = of_int i"
    "strtolong (Some (CHR ''-'' # long2str_loop 10 False i [])) = - of_int i"
  proof -
    show "strtolong (Some (long2str_loop 10 False i [])) = of_int i"
    proof (cases "i = 0")
      case True
      show ?thesis unfolding True z by code_simp
    next
      case False
      then show ?thesis using c l by (simp add: strtolong_def Let_def)
    qed
    show "strtolong (Some (CHR ''-'' # long2str_loop 10 False i [])) = - of_int i"
    proof (cases "i = 0")
      case True
      show ?thesis unfolding True z by code_simp
    next
      case False
      then show ?thesis using c l by (simp add: strtolong_def Let_def)
    qed
  qed
  show "strtolong (Some (''0x'' @ long2str_loop 16 False i [])) = of_int i"
    using strtolong_long2str_loop [OF assms, of 16 "[]"] by (simp add: strtolong_def Let_def)
qed

text \<open>
  C20. Printing a 64-bit integer in decimal, with its sign, and reading it back gives the same
  integer, for all of them, the smallest included; printing in hexadecimal behind \<open>0x\<close> and
  reading it back does for those that are not negative, and negative ones are refused.
\<close>

theorem strtolong_long2str:
  "map_sum id (\<lambda>s. strtolong (Some s)) (long2str x 10 True) = Inr x \<and>
   map_sum id (\<lambda>s. strtolong (Some (''0x'' @ s))) (long2str x 16 False) =
     (if sint x < 0 then Inl Negative_As_Unsigned else Inr x)"
proof
  show "map_sum id (\<lambda>s. strtolong (Some s)) (long2str x 10 True) = Inr x"
  proof (cases "0 > sint x")
    case True
    then show ?thesis using strtolong_positive(2) [of "- sint x"]
      by (simp add: long2str_def requireE_def Let_def long2str_loop_neg)
  next
    case False
    then show ?thesis using strtolong_positive(1) [of "sint x"]
      by (simp add: long2str_def requireE_def Let_def)
  qed
  show "map_sum id (\<lambda>s. strtolong (Some (''0x'' @ s))) (long2str x 16 False) =
     (if sint x < 0 then Inl Negative_As_Unsigned else Inr x)"
    using strtolong_positive(3) [of "sint x"] by (simp add: long2str_def requireE_def Let_def)
qed

section \<open>The halves of a constant\<close>

lemma mask_32: "push_bit 32 1 - 1 = (mask 32 :: u64)"
  by (simp add: mask_eq_exp_minus_1)

lemma sint_below: "unat (w :: u64) < 2 ^ 63 \<Longrightarrow> sint w = int (unat w)"
proof -
  assume "unat w < 2 ^ 63"
  then have "int (unat w) < int (2 ^ 63)" by (simp only: of_nat_less_iff)
  then have "uint w < 2 ^ 63" by (simp only: of_nat_unat of_nat_power of_nat_numeral)
  moreover have "- (2 ^ 63) \<le> uint w" by (rule order_trans [OF _ uint_ge_0]) simp
  ultimately have "sint w = uint w" by (simp add: sint_uint signed_take_bit_int_eq_self_iff)
  then show ?thesis by (simp only: of_nat_unat)
qed

text \<open>The macro assembler reads the digits with \<open>strtoint\<close>, into 32 bits.\<close>

lemma set_reader_long2str_loop:
  "0 \<le> i \<Longrightarrow> set_reader_loop ''0123456789_'' 10 (long2str_loop 10 False i acc) 0 =
     set_reader_loop ''0123456789_'' 10 acc (of_int i)"
proof (induction "10 :: int" False i acc rule: long2str_loop.induct)
  case (1 i acc)
  have d: "0 \<le> i mod 10" "i mod 10 < 10" by simp_all
  have "i div 10 * 10 + i mod 10 = i" by simp
  from arg_cong [OF this, of "of_int :: int \<Rightarrow> u32"]
  have e: "of_int (i div 10) * 10 + of_int (i mod 10) = (of_int i :: u32)" by (simp only: of_int_add of_int_mult of_int_numeral)
  have "set_reader_loop ''0123456789_'' 10 (chr_at digit_table (nat (i mod 10)) # acc) n =
      set_reader_loop ''0123456789_'' 10 acc (n * 10 + of_nat (nat (i mod 10)))" for n
    by (rule set_reader_digit [OF reads_base_decimal]) (use d in \<open>simp add: nat_less_iff\<close>)
  moreover have "of_nat (nat (i mod 10)) = (of_int (i mod 10) :: u32)" using d(1) by simp
  ultimately have dig: "set_reader_loop ''0123456789_'' 10 (chr_at digit_table (nat (i mod 10)) # acc) n =
      set_reader_loop ''0123456789_'' 10 acc (n * 10 + of_int (i mod 10))" for n by (simp only:)
  note sd = sdiv_nonneg [OF "1.prems", of 10]
  show ?case
  proof (cases "i div 10 = 0")
    case True
    then have "i mod 10 = i" using "1.prems" by simp
    then show ?thesis using dig [of 0] True sd
      by (simp add: long2str_loop.simps [of 10 False i acc] Let_def del: set_reader_loop.simps)
  next
    case False
    have "0 \<le> i div 10" using "1.prems" by simp
    then have "set_reader_loop ''0123456789_'' 10 (long2str_loop 10 False (i div 10) (chr_at digit_table (nat (i mod 10)) # acc)) 0 =
        set_reader_loop ''0123456789_'' 10 (chr_at digit_table (nat (i mod 10)) # acc) (of_int (i div 10))"
      using "1.hyps" [OF refl refl refl] False sd by (simp del: set_reader_loop.simps)
    then show ?thesis using False sd dig e
      by (simp add: long2str_loop.simps [of 10 False i acc] Let_def del: set_reader_loop.simps)
  qed
qed

lemma strtoint_long2str_loop:
  assumes "0 \<le> i"
  shows "strtoint (long2str_loop 10 False i []) = of_int i"
proof (cases "i = 0")
  case True
  have "long2str_loop 10 False 0 [] = ''0''" by code_simp
  then show ?thesis unfolding True by simp code_simp
next
  case False
  obtain c s where c: "long2str_loop 10 False i [] = c # s" "c \<noteq> CHR ''-''" "c \<noteq> CHR ''0''"
    using long2str_loop_head [OF assms, of 10 "[]"] False by auto
  then show ?thesis
    using set_reader_long2str_loop [OF assms, of "[]"] by (simp add: strtoint_decimal set_reader_def Let_def)
qed

lemma half_printed:
  assumes "unat w < 2 ^ 32"
  shows "\<exists>t. long2str w 10 False = Inr t \<and> strtolong (Some t) = w \<and> strtoint t = ucast w"
proof -
  have "sint w = int (unat w)" using assms by (intro sint_below) simp
  then have s: "0 \<le> sint w" "sint w = uint w" by (simp_all only: of_nat_unat uint_ge_0)
  have "long2str w 10 False = Inr (long2str_loop 10 False (sint w) [])"
    using s(1) by (simp add: long2str_def requireE_def Let_def)
  moreover have "strtolong (Some (long2str_loop 10 False (sint w) [])) = w"
    using strtolong_positive(1) [OF s(1)] by simp
  moreover have "strtoint (long2str_loop 10 False (sint w) []) = ucast w"
    using strtoint_long2str_loop [OF s(1)] unfolding s(2) by simp
  ultimately show ?thesis by blast
qed

text \<open>
  C21. The two words of a 64-bit constant are below two to the 32nd, so \<open>long2str\<close> prints each
  without a sign, as the compiler calls it; the compiler's own reader gives each back, the macro
  assembler's reader gives the low and the high 32 bits of the constant; and the high word shifted
  above the low one is the constant.
\<close>

theorem immediate_words:
  "\<exists>lo hi. long2str (immediate_low_word x) 10 False = Inr lo \<and> long2str (immediate_high_word x) 10 False = Inr hi \<and>
     strtolong (Some lo) = immediate_low_word x \<and> strtolong (Some hi) = immediate_high_word x \<and>
     strtoint lo = ucast x \<and> strtoint hi = ucast (drop_bit 32 x) \<and>
     unat (immediate_low_word x) < 2 ^ 32 \<and> unat (immediate_high_word x) < 2 ^ 32 \<and>
     0 \<le> sint (immediate_low_word x) \<and> 0 \<le> sint (immediate_high_word x) \<and>
     push_bit 32 (immediate_high_word x) OR immediate_low_word x = x"
proof -
  have l: "unat (immediate_low_word x) < 2 ^ 32"
    unfolding immediate_low_word_def mask_32 unat_and_mask_mod by simp
  have h: "unat (immediate_high_word x) < 2 ^ 32"
    unfolding immediate_high_word_def mask_32 unat_and_mask_mod by simp
  have s: "0 \<le> sint w" if "unat w < 2 ^ 32" for w :: u64
    using that sint_below [of w] by simp
  have c: "(ucast (immediate_low_word x) :: u32) = ucast x" "(ucast (immediate_high_word x) :: u32) = ucast (drop_bit 32 x)"
    unfolding immediate_high_word_def immediate_low_word_def mask_32
    by (rule bit_word_eqI,
      auto simp: bit_ucast_iff bit_and_iff bit_mask_iff bit_signed_drop_bit_iff bit_drop_bit_eq min_def)+
  have "push_bit 32 (immediate_high_word x) OR immediate_low_word x = x"
    unfolding immediate_high_word_def immediate_low_word_def mask_32
    by (rule bit_word_eqI)
      (auto simp: bit_or_iff bit_push_bit_iff bit_and_iff bit_mask_iff bit_signed_drop_bit_iff min_def)
  then show ?thesis
    using l h s half_printed [OF l] half_printed [OF h] unfolding c by blast
qed

end
