(* ===== verification/Stringify.thy ===== *)
theory Stringify
  imports Bootstrappable
begin

text \<open>
  How the macro assembler writes a number in digits
  (\<^verbatim>\<open>stages/3-micro-c/linker-tools/stringify.c\<close>): most significant digit first, then, for a
  little-endian machine, with its bytes reversed.
\<close>

datatype byte_mode = HEX | OCTAL | BINARY

fun digit_bits :: "byte_mode \<Rightarrow> nat" where
  "digit_bits HEX = 4"
| "digit_bits OCTAL = 3"
| "digit_bits BINARY = 1"

text \<open>The value the enumeration gives a mode, which is also its base.\<close>

fun divisor_of :: "byte_mode \<Rightarrow> u32" where
  "divisor_of HEX = 16"
| "divisor_of OCTAL = 8"
| "divisor_of BINARY = 2"

definition hex2char :: "u32 \<Rightarrow> u32" where
  "hex2char c =
    (if 0 \<le> sint c \<and> sint c \<le> 9 then c + 48
     else if 10 \<le> sint c \<and> sint c \<le> 15 then c + 55
     else - 1)"

definition store_char :: "u32 \<Rightarrow> char" where
  "store_char c = char_of (unat c mod 256)"

text \<open>The digits that are written, and what is left of the value above them.\<close>

fun stringify :: "nat \<Rightarrow> u32 \<Rightarrow> u32 \<Rightarrow> nat \<Rightarrow> string \<times> u32" where
  "stringify digits divisor value shift =
    (let (s, i) = (if 1 < digits then stringify (digits - 1) divisor value shift else ([], value))
     in (store_char (hex2char (i AND (divisor - 1))) # s, signed_drop_bit shift i))"

declare stringify.simps [simp del]

text \<open>
  \<open>reverseBitOrder\<close> reverses each group of digits that make a byte. With fewer characters than a
  group it swaps with the NUL that ends the string.
\<close>

fun reverseBitOrder :: "byte_mode \<Rightarrow> string \<Rightarrow> string" where
  "reverseBitOrder HEX (a # b # c) = b # a # reverseBitOrder HEX c"
| "reverseBitOrder OCTAL (a # b # d # c) = d # b # a # reverseBitOrder OCTAL c"
| "reverseBitOrder OCTAL [a, b] = [NUL, b, a]"
| "reverseBitOrder BINARY (c0 # c1 # c2 # c3 # c4 # c5 # c6 # c7 # c) =
     c7 # c6 # c5 # c4 # c3 # c2 # c1 # c0 # reverseBitOrder BINARY c"
| "reverseBitOrder m c = c"

text \<open>The loop that reverses the whole string: two indices that move towards each other.\<close>

function reverse_chars :: "string \<Rightarrow> nat \<Rightarrow> nat \<Rightarrow> string" where
  "reverse_chars s start stop =
    (if start < stop
     then (let keep = s ! start; s = s[start := s ! stop]; s = s[stop := keep]
           in reverse_chars s (start + 1) (stop - 1))
     else s)"
  by pat_completeness auto
termination by (relation "measure (\<lambda>(s, i, j). j - i)") auto

declare reverse_chars.simps [simp del]

definition LittleEndian :: "byte_mode \<Rightarrow> string \<Rightarrow> string" where
  "LittleEndian m s = reverseBitOrder m (if s = [] then s else reverse_chars s 0 (length s - 1))"

section \<open>What is written\<close>

lemma reverse_chars_rev:
  "length xs = n \<Longrightarrow> reverse_chars (as @ xs @ bs) (length as) (length as + n - 1) = as @ rev xs @ bs"
proof (induction n arbitrary: as xs bs rule: less_induct)
  case (less n)
  show ?case
  proof (cases "n < 2")
    case True
    then have "xs = [] \<or> (\<exists>x. xs = [x])" using less.prems by (cases xs; cases "tl xs") auto
    then show ?thesis using less.prems by (subst reverse_chars.simps) auto
  next
    case False
    then obtain x ys y where xs: "xs = x # ys @ [y]"
      using less.prems by (cases xs; cases "tl xs" rule: rev_cases) auto
    have n: "n = length ys + 2" using less.prems xs by simp
    have "reverse_chars (as @ xs @ bs) (length as) (length as + n - 1) =
        reverse_chars ((as @ [y]) @ ys @ x # bs) (length (as @ [y])) (length (as @ [y]) + length ys - 1)"
      by (subst reverse_chars.simps) (simp add: xs n Let_def nth_append list_update_append)
    then show ?thesis using less.IH [of "length ys" ys "as @ [y]" "x # bs"] n by (simp add: xs)
  qed
qed

lemma LittleEndian_rev: "LittleEndian m s = reverseBitOrder m (rev s)"
proof (cases "s = []")
  case False
  then show ?thesis using reverse_chars_rev [of s "length s" "[]" "[]"] by (simp add: LittleEndian_def)
qed (simp add: LittleEndian_def)

text \<open>The digit of a value below the base, and the value a digit stands for.\<close>

definition digit_char :: "nat \<Rightarrow> char" where
  "digit_char d = chr_at digit_table d"

lemma hex2char_digit: "unat i < 16 \<Longrightarrow> store_char (hex2char i) = digit_char (unat i)"
proof -
  have "\<forall>n \<in> set [0..<16]. store_char (hex2char (word_of_nat n)) = digit_char n" by code_simp
  then have "n < 16 \<Longrightarrow> store_char (hex2char (word_of_nat n)) = digit_char n" for n by simp
  from this [of "unat i"] show "unat i < 16 \<Longrightarrow> ?thesis" by (simp add: of_nat_unat)
qed

lemma divisor_mask: "divisor_of m - 1 = mask (digit_bits m)"
  by (cases m) (simp_all add: mask_eq_exp_minus_1)

lemma digit_bits_bounds: "1 \<le> digit_bits m \<and> digit_bits m \<le> 4"
  by (cases m) auto

text \<open>The digits of a number, the most significant first.\<close>

fun digits_of :: "nat \<Rightarrow> nat \<Rightarrow> nat \<Rightarrow> nat list" where
  "digits_of 0 b v = []"
| "digits_of (Suc n) b v = digits_of n b (v div b) @ [v mod b]"

lemma digits_of_Cons: "digits_of (Suc n) b v = (v div b ^ n) mod b # digits_of n b v"
  by (induction n arbitrary: v) (simp_all add: div_mult2_eq mult.commute)

lemma stringify_shifted:
  "0 < n \<Longrightarrow> stringify n (divisor_of m) v (digit_bits m) =
     (map digit_char (rev (map (\<lambda>k. unat (signed_drop_bit (digit_bits m * k) v) mod 2 ^ digit_bits m) [0..<n])),
      signed_drop_bit (digit_bits m * n) v)"
proof (induction n)
  case (Suc n)
  have d: "store_char (hex2char (i AND (divisor_of m - 1))) = digit_char (unat i mod 2 ^ digit_bits m)" for i
  proof -
    have u: "unat (i AND (divisor_of m - 1)) = unat i mod 2 ^ digit_bits m"
      unfolding divisor_mask by (rule unat_and_mask_mod)
    have "unat i mod 2 ^ digit_bits m < 2 ^ digit_bits m" by simp
    also have "\<dots> \<le> 2 ^ 4" by (rule power_increasing) (use digit_bits_bounds in auto)
    finally have "unat (i AND (divisor_of m - 1)) < 16" using u by simp
    from hex2char_digit [OF this] show ?thesis by (simp add: u)
  qed
  have s: "signed_drop_bit (digit_bits m) (signed_drop_bit (digit_bits m * n) v) = signed_drop_bit (digit_bits m * Suc n) v"
    by (simp add: signed_drop_bit_signed_drop_bit add.commute)
  show ?case
  proof (cases "n = 0")
    case True
    then show ?thesis by (simp add: stringify.simps d)
  next
    case False
    then show ?thesis using Suc by (subst stringify.simps) (simp add: d s)
  qed
qed simp

text \<open>As long as the digits fit the word, they are those of the number read without a sign.\<close>

lemma stringify_digits:
  assumes "0 < n" "digit_bits m * n \<le> 32"
  shows "fst (stringify n (divisor_of m) v (digit_bits m)) = map digit_char (digits_of n (2 ^ digit_bits m) (unat v))"
proof -
  have "unat (signed_drop_bit (digit_bits m * k) v) mod 2 ^ digit_bits m = unat v div (2 ^ digit_bits m) ^ k mod 2 ^ digit_bits m"
    if "k < n" for k
  proof -
    have "digit_bits m * k + digit_bits m \<le> 32"
      using that assms(2) mult_le_mono2 [of "Suc k" n "digit_bits m"] by simp
    then have b: "take_bit (digit_bits m) (signed_drop_bit (digit_bits m * k) v) = take_bit (digit_bits m) (drop_bit (digit_bits m * k) v)"
      by (intro bit_word_eqI) (auto simp: bit_take_bit_iff bit_signed_drop_bit_iff bit_drop_bit_eq min_def)
    have t: "unat (take_bit j w) = unat w mod 2 ^ j" for j and w :: u32
      by (simp add: take_bit_eq_mod unsigned_take_bit_eq flip: take_bit_eq_mod)
    have "unat (signed_drop_bit (digit_bits m * k) v) mod 2 ^ digit_bits m = unat (drop_bit (digit_bits m * k) v) mod 2 ^ digit_bits m"
      using b by (simp only: t [symmetric])
    then show ?thesis by (simp add: unat_drop_bit_div power_mult)
  qed
  then have e: "map (\<lambda>k. unat (signed_drop_bit (digit_bits m * k) v) mod 2 ^ digit_bits m) [0..<n] =
      map (\<lambda>k. unat v div (2 ^ digit_bits m) ^ k mod 2 ^ digit_bits m) [0..<n]" by simp
  have "rev (map (\<lambda>k. v div b ^ k mod b) [0..<n]) = digits_of n b v" for b v
    by (induction n) (simp_all add: digits_of_Cons del: digits_of.simps(2))
  then show ?thesis using stringify_shifted [OF assms(1), of m v] e by simp
qed

end
