(* ===== verification/M1.thy ===== *)
theory M1
  imports Stringify
begin

text \<open>
  The macro assembler (\<^verbatim>\<open>stages/3-micro-c/linker-tools/M1-macro.c\<close>). A text is kept once, as a
  blob; the blobs stand in a store, and a blob's address is its index there. The list of blobs and
  the chains of the hash table are lists of addresses, newest first; the list of tokens is a list,
  newest first until it is reversed. The buffer \<open>SCRATCH\<close> is the list of its characters, all NUL
  from the end of the list on. Allocation succeeds.
\<close>

section \<open>State\<close>

datatype architecture = KNIGHT | X86 | AMD64 | ARMV7L | AARCH64 | PPC64LE | RISCV32 | RISCV64

datatype blob_type = Other | STRING | NEWLINE

record blob =
  b_type :: blob_type
  Text :: string
  Expression :: "string option"

record Token =
  contents :: nat
  t_filename :: string
  t_linenumber :: u32

record m1 =
  BigEndian :: bool
  ByteMode :: byte_mode
  Architecture :: architecture
  linenumber :: u32
  token_list :: "Token list"
  blobs :: "blob list"
  blob_list :: "nat list"
  hash_table :: "u32 \<Rightarrow> nat list"
  SCRATCH :: string

datatype m1_error =
    Atom_Too_Long
  | Unmatched_Quote
  | String_Too_Long
  | No_Macro_Name
  | No_Macro_Value
  | Table_Index
  | Negative_Padding
  | Does_Not_Fit u32 nat
  | Invalid_Number_Of_Bytes
  | Invalid_Symbol char u32
  | Invalid_Other string
  | Null_Dereference
  | Cannot_Open string
  | Unknown_Architecture string
  | Unknown_Option
  | Missing_Value
  | No_Input
  | Help

definition max_string :: nat where "max_string = 262144"

text \<open>The addresses \<open>newline_blob\<close> and \<open>define_blob\<close>; \<open>main\<close> makes these two blobs first.\<close>

definition newline_blob :: nat where "newline_blob = 0"
definition define_blob :: nat where "define_blob = 1"

definition the_blob :: "m1 \<Rightarrow> nat \<Rightarrow> blob" where
  "the_blob s a = blobs s ! a"

section \<open>Blobs\<close>

fun ClearScratch :: "string \<Rightarrow> string" where
  "ClearScratch [] = []"
| "ClearScratch (c # b) = (if c \<noteq> NUL then NUL # ClearScratch b else c # b)"

text \<open>The C string a buffer holds.\<close>

definition text_of :: "string \<Rightarrow> string" where
  "text_of b = takeWhile (\<lambda>c. c \<noteq> NUL) b"

fun GetHash_loop :: "u32 \<Rightarrow> string \<Rightarrow> u32" where
  "GetHash_loop i [] = i"
| "GetHash_loop i (c # s) = GetHash_loop (push_bit 5 i + i + c_char c) s"

definition GetHash :: "string \<Rightarrow> u32" where
  "GetHash s = GetHash_loop 5381 s AND 0xFFFF"

fun find_chain :: "blob list \<Rightarrow> string \<Rightarrow> nat list \<Rightarrow> nat option" where
  "find_chain bs s [] = None"
| "find_chain bs s (a # chain) =
    (if match_loop s (Text (bs ! a)) then Some a else find_chain bs s chain)"

definition FindBlob :: "m1 \<Rightarrow> nat option" where
  "FindBlob s = (let t = text_of (SCRATCH s) in find_chain (blobs s) t (hash_table s (GetHash t)))"

definition AddHash :: "nat \<Rightarrow> string \<Rightarrow> m1 \<Rightarrow> m1" where
  "AddHash a t s = s\<lparr>hash_table := (hash_table s)(GetHash t := a # hash_table s (GetHash t))\<rparr>"

definition NewBlob :: "nat \<Rightarrow> m1 \<Rightarrow> m1" where
  "NewBlob size_b s =
    (let a = length (blobs s);
         s = s\<lparr>blobs := blobs s @ [\<lparr>b_type = Other, Text = text_of (take (size_b + 1) (SCRATCH s)), Expression = None\<rparr>],
               blob_list := a # blob_list s\<rparr>
     in AddHash a (text_of (SCRATCH s)) s)"

section \<open>Tokens\<close>

definition newToken :: "nat \<Rightarrow> string \<Rightarrow> u32 \<Rightarrow> Token" where
  "newToken a file l = \<lparr>contents = a, t_filename = file, t_linenumber = l\<rparr>"

fun reverse_loop :: "Token list \<Rightarrow> Token list \<Rightarrow> Token list" where
  "reverse_loop rest [] = rest"
| "reverse_loop rest (t # head) = reverse_loop (t # rest) head"

definition reverse_list :: "Token list \<Rightarrow> Token list" where
  "reverse_list head = reverse_loop [] head"

fun purge_lineComment :: "string \<Rightarrow> string" where
  "purge_lineComment [] = []"
| "purge_lineComment (c # src) = (if in_set c [LF, CR] then src else purge_lineComment src)"

definition append_newline :: "string \<Rightarrow> Token list \<times> m1 \<Rightarrow> Token list \<times> m1" where
  "append_newline file hs =
    (case hs of (head, s) \<Rightarrow>
       let s = s\<lparr>linenumber := linenumber s + 1\<rparr>
       in case head of
            [] \<Rightarrow> ([], s)
          | t # _ \<Rightarrow>
              if b_type (the_blob s (contents t)) = NEWLINE then (head, s)
              else (newToken newline_blob file (linenumber s) # head, s))"

text \<open>The loop of \<open>store_atom\<close>: the characters stored, the one it stops at, and what is left.\<close>

fun atom_loop :: "nat \<Rightarrow> char \<Rightarrow> string \<Rightarrow> m1_error + string \<times> char option \<times> string" where
  "atom_loop i ch src =
    (if i + 1 \<ge> max_string then Inl Atom_Too_Long
     else (case src of
             [] \<Rightarrow> Inr ([ch], None, [])
           | c # src' \<Rightarrow>
               if in_set c [TAB, LF, CHR '' ''] then Inr ([ch], Some c, src')
               else bindE (atom_loop (i + 1) c src') (\<lambda>(t, e, r). Inr (ch # t, e, r))))"

declare atom_loop.simps [simp del]

text \<open>What a token's text is written over: the buffer as \<open>ClearScratch\<close> leaves it.\<close>

definition fill_scratch :: "string \<Rightarrow> m1 \<Rightarrow> m1" where
  "fill_scratch t s = (let b = ClearScratch (SCRATCH s) in s\<lparr>SCRATCH := t @ drop (length t) b\<rparr>)"

definition store_atom ::
  "Token list \<Rightarrow> char \<Rightarrow> string \<Rightarrow> string \<Rightarrow> m1 \<Rightarrow> m1_error + string \<times> Token list \<times> m1" where
  "store_atom head c file src s =
    (let l = linenumber s
     in bindE (atom_loop 0 c src) (\<lambda>(t, ch, src).
        let s = fill_scratch t s;
            (a, s) = (case FindBlob s of
                        Some a \<Rightarrow> (a, s)
                      | None \<Rightarrow> let s = NewBlob (length t) s in (hd (blob_list s), s));
            head = newToken a file l # head;
            (head, s) = (if ch = Some LF then append_newline file (head, s) else (head, s))
        in Inr (src, head, s)))"

text \<open>The loop of \<open>store_string\<close>, which also counts the lines.\<close>

fun string_loop :: "nat \<Rightarrow> char \<Rightarrow> char \<Rightarrow> string \<Rightarrow> u32 \<Rightarrow> m1_error + string \<times> string \<times> u32" where
  "string_loop i c ch src l =
    (let l = (if ch = LF then l + 1 else l)
     in case src of
          [] \<Rightarrow> Inl Unmatched_Quote
        | d # src' \<Rightarrow>
            if max_string = i + 1 then Inl String_Too_Long
            else if d \<noteq> c then bindE (string_loop (i + 1) c d src' l) (\<lambda>(t, r, l). Inr (ch # t, r, l))
            else Inr ([ch], src', l))"

declare string_loop.simps [simp del]

definition set_type :: "nat \<Rightarrow> blob_type \<Rightarrow> m1 \<Rightarrow> m1" where
  "set_type a ty s = s\<lparr>blobs := (blobs s)[a := (blobs s ! a)\<lparr>b_type := ty\<rparr>]\<rparr>"

definition store_string :: "char \<Rightarrow> string \<Rightarrow> m1 \<Rightarrow> m1_error + string \<times> nat \<times> m1" where
  "store_string c src s =
    bindE (string_loop 0 c c src (linenumber s)) (\<lambda>(t, src, l).
    let s = fill_scratch t (s\<lparr>linenumber := l\<rparr>)
    in Inr (src,
         (case FindBlob s of
            Some a \<Rightarrow> (a, s)
          | None \<Rightarrow> (let s = NewBlob (length t) s; a = hd (blob_list s) in (a, set_type a STRING s)))))"

lemma purge_lineComment_le: "length (purge_lineComment src) \<le> length src"
  by (induction src) auto

lemma atom_loop_le: "atom_loop i ch src = Inr (t, e, r) \<Longrightarrow> length r \<le> length src"
proof (induction src arbitrary: i ch t)
  case Nil
  then show ?case by (auto simp: atom_loop.simps split: if_splits)
next
  case (Cons c src)
  from Cons.prems show ?case
    by (subst (asm) atom_loop.simps) (fastforce split: if_splits dest: Cons.IH)
qed

lemma string_loop_le: "string_loop i c ch src l = Inr (t, r, l') \<Longrightarrow> length r \<le> length src"
proof (induction src arbitrary: i ch t l)
  case Nil
  then show ?case by (auto simp: string_loop.simps Let_def)
next
  case (Cons d src)
  from Cons.prems show ?case
    by (subst (asm) string_loop.simps) (fastforce simp: Let_def split: if_splits dest: Cons.IH)
qed

lemma store_atom_le: "store_atom head c file src s = Inr (r, h) \<Longrightarrow> length r \<le> length src"
  by
    (fastforce simp: store_atom_def Let_def case_prod_unfold dest: atom_loop_le)

lemma store_string_le: "store_string c src s = Inr (r, h) \<Longrightarrow> length r \<le> length src"
  by (auto simp: store_string_def Let_def dest!: string_loop_le)

text \<open>The loop of \<open>Tokenize_Line\<close>.\<close>

function tokenize_loop ::
  "string \<Rightarrow> string \<Rightarrow> Token list \<times> m1 \<Rightarrow> m1_error + Token list \<times> m1" where
  "tokenize_loop file src hs =
    (case src of
       [] \<Rightarrow> Inr (append_newline file hs)
     | c # src \<Rightarrow>
         if in_set c '';#'' then tokenize_loop file (purge_lineComment src) (append_newline file hs)
         else if in_set c [TAB, CHR '' ''] then tokenize_loop file src hs
         else if c = LF then tokenize_loop file src (append_newline file hs)
         else if in_set c [CHR 0x27, CHR 0x22]
         then bindE (store_string c src (snd hs)) (\<lambda>(src, a, s).
                tokenize_loop file src (newToken a file (linenumber (snd hs)) # fst hs, s))
         else bindE (store_atom (fst hs) c file src (snd hs)) (\<lambda>(src, hs). tokenize_loop file src hs))"
  by pat_completeness auto
termination
  by (relation "measure (\<lambda>(file, src, hs). length src)")
    (auto simp: le_imp_less_Suc purge_lineComment_le dest!: store_string_le store_atom_le)

declare tokenize_loop.simps [simp del]

definition Tokenize_Line :: "string \<Rightarrow> string \<Rightarrow> m1 \<Rightarrow> m1_error + m1" where
  "Tokenize_Line file src s =
    bindE (tokenize_loop file src (token_list s, s\<lparr>linenumber := 1\<rparr>)) (\<lambda>(head, s). Inr (s\<lparr>token_list := head\<rparr>))"

section \<open>Macros\<close>

definition set_expression :: "nat \<Rightarrow> string \<Rightarrow> blob list \<Rightarrow> blob list" where
  "set_expression a e bs = bs[a := (bs ! a)\<lparr>Expression := Some e\<rparr>]"

text \<open>\<open>line_macro\<close>: what is left of the list of tokens, and the blobs with the values of the macros.\<close>

fun line_macro :: "Token list \<Rightarrow> blob list \<Rightarrow> m1_error + Token list \<times> blob list" where
  "line_macro [] bs = Inr ([], bs)"
| "line_macro (t # ts) bs =
    (if contents t = define_blob
     then (case ts of
             [] \<Rightarrow> Inl No_Macro_Name
           | [n] \<Rightarrow> Inl No_Macro_Value
           | n # v # ts' \<Rightarrow>
               let b = bs ! contents v;
                   e = (if b_type b = STRING then drop 1 (Text b) else Text b)
               in bindE (line_macro ts' (set_expression (contents n) e bs)) (\<lambda>(ts', bs).
                    Inr (t\<lparr>contents := newline_blob\<rparr> # ts', bs)))
     else bindE (line_macro ts bs) (\<lambda>(ts, bs). Inr (t # ts, bs)))"

section \<open>Strings\<close>

abbreviation m1_table :: string where "m1_table \<equiv> ''0123456789ABCDEF''"

text \<open>\<open>table[i]\<close>, with a \<open>char\<close> promoted to a signed \<open>int\<close>; an index outside the table is an error.\<close>

definition table_at :: "u32 \<Rightarrow> m1_error + char" where
  "table_at i = (if 0 \<le> sint i \<and> sint i < 16 then Inr (m1_table ! unat i) else Inl Table_Index)"

fun table_all :: "u32 list \<Rightarrow> m1_error + string" where
  "table_all [] = Inr []"
| "table_all (i # is) = bindE (table_at i) (\<lambda>c. bindE (table_all is) (\<lambda>s. Inr (c # s)))"

text \<open>The digits of a character, by mode, with the blank after them.\<close>

definition hexify_char :: "byte_mode \<Rightarrow> char \<Rightarrow> m1_error + string" where
  "hexify_char m c =
    (let S = c_char c
     in bindE (table_all
          (case m of
             HEX \<Rightarrow> [signed_drop_bit 4 S, S AND 0xF]
           | OCTAL \<Rightarrow> [signed_drop_bit 6 S, signed_drop_bit 3 S AND 0x7, S AND 0x7]
           | BINARY \<Rightarrow> [signed_drop_bit 7 S, signed_drop_bit 6 S AND 0x1, signed_drop_bit 5 S AND 0x1,
                signed_drop_bit 4 S AND 0x1, signed_drop_bit 3 S AND 0x1, signed_drop_bit 2 S AND 0x1,
                signed_drop_bit 1 S AND 0x1, S AND 0x1])) (\<lambda>d. Inr (d @ '' '')))"

text \<open>The loop goes on to the NUL that ends the text, which it writes too.\<close>

fun hexify_loop :: "byte_mode \<Rightarrow> string \<Rightarrow> m1_error + string" where
  "hexify_loop m [] = Inr []"
| "hexify_loop m (c # S) =
    bindE (hexify_char m (chr_at S 0)) (\<lambda>d. bindE (hexify_loop m S) (\<lambda>r. Inr (d @ r)))"

definition hexify_string :: "architecture \<Rightarrow> byte_mode \<Rightarrow> string \<Rightarrow> m1_error + string" where
  "hexify_string arc m t =
    (let i = length t;
         zeros = (if arc = KNIGHT \<and> m = HEX then ((i - 1) div 4 + 1) * 8 + i else 0)
     in bindE (hexify_loop m t) (\<lambda>d. Inr (d @ replicate (zeros - length d) (CHR ''0''))))"

fun process_string :: "architecture \<Rightarrow> byte_mode \<Rightarrow> nat list \<Rightarrow> blob list \<Rightarrow> m1_error + blob list" where
  "process_string arc m [] bs = Inr bs"
| "process_string arc m (a # as) bs =
    bindE (let b = bs ! a
           in if b_type b = STRING
              then (if chr_at (Text b) 0 = CHR 0x27 then Inr (set_expression a (drop 1 (Text b)) bs)
                    else if chr_at (Text b) 0 = CHR 0x22
                    then bindE (hexify_string arc m (Text b)) (\<lambda>e. Inr (set_expression a e bs))
                    else Inr bs)
              else Inr bs) (process_string arc m as)"

section \<open>Padding and labels\<close>

definition digits_per_byte :: "byte_mode \<Rightarrow> nat" where
  "digits_per_byte m = (case m of HEX \<Rightarrow> 2 | OCTAL \<Rightarrow> 3 | BINARY \<Rightarrow> 8)"

definition pad_nulls :: "byte_mode \<Rightarrow> u32 \<Rightarrow> string \<Rightarrow> m1_error + string" where
  "pad_nulls m size_n nil =
    (if size_n = 0 then Inr nil
     else bindE (requireE (0 < sint size_n) Negative_Padding) (\<lambda>_.
       let size_n = size_n * of_nat (digits_per_byte m)
       in Inr (replicate (nat (sint size_n)) (CHR ''0''))))"

fun preserve_other :: "byte_mode \<Rightarrow> nat list \<Rightarrow> blob list \<Rightarrow> m1_error + blob list" where
  "preserve_other m [] bs = Inr bs"
| "preserve_other m (a # as) bs =
    bindE (let b = bs ! a; c = chr_at (Text b) 0
           in if Expression b = None
              then (if in_set c ''!@$~%&:^'' then Inr (set_expression a (Text b) bs)
                    else if c = CHR ''<''
                    then bindE (pad_nulls m (strtoint (drop 1 (Text b))) (Text b)) (\<lambda>e. Inr (set_expression a e bs))
                    else Inr bs)
              else Inr bs) (preserve_other m as)"

section \<open>Numbers\<close>

definition bound_values :: "u32 \<Rightarrow> nat \<Rightarrow> int \<Rightarrow> int \<Rightarrow> m1_error + unit" where
  "bound_values displacement number_of_bytes low high =
    requireE (\<not> (high < sint displacement \<or> sint displacement < low)) (Does_Not_Fit displacement number_of_bytes)"

definition range_check :: "u32 \<Rightarrow> nat \<Rightarrow> bool \<Rightarrow> m1_error + unit" where
  "range_check displacement number_of_bytes absolute =
    (if number_of_bytes = 4 then Inr ()
     else if absolute \<and> number_of_bytes = 3 then bound_values displacement number_of_bytes (- 8388609) 16777217
     else if number_of_bytes = 3 then bound_values displacement number_of_bytes (- 8388609) 8388608
     else if absolute \<and> number_of_bytes = 2 then bound_values displacement number_of_bytes (- 32769) 65536
     else if number_of_bytes = 2 then bound_values displacement number_of_bytes (- 32769) 32768
     else if absolute \<and> number_of_bytes = 1 then bound_values displacement number_of_bytes (- 1) 256
     else if number_of_bytes = 1 then bound_values displacement number_of_bytes (- 129) 256
     else Inl Invalid_Number_Of_Bytes)"

definition number_format :: "char \<Rightarrow> (nat \<times> bool) option" where
  "number_format c =
    (if c = CHR ''!'' then Some (1, False)
     else if c = CHR ''@'' then Some (2, False)
     else if c = CHR ''$'' then Some (2, True)
     else if c = CHR ''~'' then Some (3, False)
     else if c = CHR ''%'' then Some (4, False)
     else if c = CHR ''&'' then Some (4, True)
     else None)"

definition number_truncate :: "u32 \<Rightarrow> char \<Rightarrow> u32" where
  "number_truncate value c =
    (if c = CHR ''!'' then value AND 0xFF
     else if c = CHR ''@'' \<or> c = CHR ''$'' then value AND 0xFFFF
     else if c = CHR ''~'' then value AND 0xFFFFFF
     else if c = CHR ''%'' \<or> c = CHR ''&'' then value AND 0xFFFFFFFF
     else value)"

definition express_number :: "bool \<Rightarrow> byte_mode \<Rightarrow> u32 \<Rightarrow> char \<Rightarrow> m1_error + string" where
  "express_number big m value c =
    (case number_format c of
       None \<Rightarrow> Inl (Invalid_Symbol c value)
     | Some (number_of_bytes, absolute) \<Rightarrow>
         bindE (range_check value number_of_bytes absolute) (\<lambda>_.
         let ch = fst (stringify (number_of_bytes * digits_per_byte m) (divisor_of m) (number_truncate value c) (digit_bits m))
         in Inr (if big then ch else LittleEndian m ch)))"

text \<open>The immediate of \<open>express_word\<close>, its size in bytes, and whether the point stays in front.\<close>

definition word_immediate :: "u32 \<Rightarrow> char \<Rightarrow> (u32 \<times> nat \<times> bool) option" where
  "word_immediate value c =
    (if c = CHR ''!'' then Some (push_bit 20 (value AND 0xFFF), 4, True)
     else if c = CHR ''@''
     then Some (push_bit 7 (value AND 0x1F) OR push_bit (31 - 11) (value AND 0xFE0), 4, True)
     else if c = CHR ''~''
     then Some (if sint (value AND 0xFFF) < 0x800 then value AND 0xFFFFF000
                else (value AND 0xFFFFF000) + 0x1000, 4, True)
     else if c = CHR ''$'' then Some (value AND 0xFFFF, 2, False)
     else if c = CHR ''%'' then Some (value AND 0xFFFFFFFF, 4, False)
     else None)"

definition express_word :: "bool \<Rightarrow> byte_mode \<Rightarrow> u32 \<Rightarrow> char \<Rightarrow> m1_error + string" where
  "express_word big m value c =
    (case word_immediate value c of
       None \<Rightarrow> Inl (Invalid_Symbol c value)
     | Some (immediate, n, point) \<Rightarrow>
         let ch = fst (stringify (n * digits_per_byte m) (divisor_of m) immediate (digit_bits m));
             ch = (if big then ch else LittleEndian m ch)
         in Inr (if point then CHR ''.'' # ch else ch))"

text \<open>The expression \<open>eval_immediates\<close> gives a blob that has none, if any.\<close>

definition eval_blob :: "bool \<Rightarrow> byte_mode \<Rightarrow> architecture \<Rightarrow> string \<Rightarrow> m1_error + string option" where
  "eval_blob big m arc t =
    (if arc = RISCV32 \<or> arc = RISCV64
     then (if in_set (chr_at t 0) ''%~@!$''
           then (let value = strtoint (drop 1 t)
                 in if CHR ''0'' = chr_at t 1 \<or> 0 \<noteq> value
                    then map_sum id Some (express_word big m value (chr_at t 0)) else Inr None)
           else Inr None)
     else if in_set (chr_at t 0) ''%~@!&$''
     then (let value = strtoint (drop 1 t)
           in if CHR ''0'' = chr_at t 1 \<or> 0 \<noteq> value
              then map_sum id Some (express_number big m value (chr_at t 0)) else Inr None)
     else if arc = KNIGHT
     then (let value = strtoint t
           in if CHR ''0'' = chr_at t 0 \<or> 0 \<noteq> value
              then (if 65536 < sint value then Inr None
                    else if 32767 < sint value then map_sum id Some (express_number big m value (CHR ''$''))
                    else map_sum id Some (express_number big m value (CHR ''@'')))
              else Inr None)
     else Inr None)"

fun eval_immediates :: "bool \<Rightarrow> byte_mode \<Rightarrow> architecture \<Rightarrow> nat list \<Rightarrow> blob list \<Rightarrow> m1_error + blob list" where
  "eval_immediates big m arc [] bs = Inr bs"
| "eval_immediates big m arc (a # as) bs =
    bindE (let b = bs ! a
           in if b_type b = NEWLINE then Inr bs
              else if chr_at (Text b) 0 = CHR ''<'' then Inr bs
              else if Expression b = None
              then bindE (eval_blob big m arc (Text b)) (\<lambda>e.
                     Inr (case e of None \<Rightarrow> bs | Some e \<Rightarrow> set_expression a e bs))
              else Inr bs) (eval_immediates big m arc as)"

section \<open>Output\<close>

fun print_hex :: "blob list \<Rightarrow> Token list \<Rightarrow> m1_error + string" where
  "print_hex bs [] = Inr []"
| "print_hex bs (i # p) =
    (let b = bs ! contents i
     in if b_type b = NEWLINE
        then bindE (print_hex bs p) (\<lambda>r.
               Inr (case p of
                      [] \<Rightarrow> LF # r
                    | n # _ \<Rightarrow> if b_type (bs ! contents n) \<noteq> NEWLINE then LF # r else r))
        else (case Expression b of
                Some e \<Rightarrow>
                  (case p of
                     [] \<Rightarrow> Inl Null_Dereference
                   | n # _ \<Rightarrow> bindE (print_hex bs p) (\<lambda>r.
                       Inr (e @ (if b_type (bs ! contents n) \<noteq> NEWLINE then CHR '' '' # r else r))))
              | None \<Rightarrow> Inl (Invalid_Other (Text b))))"

section \<open>The main program\<close>

definition m1_init :: m1 where
  "m1_init =
    (let s = \<lparr>BigEndian = True, ByteMode = HEX, Architecture = KNIGHT, linenumber = 0, token_list = [],
               blobs = [\<lparr>b_type = NEWLINE, Text = [LF], Expression = Some [LF]\<rparr>,
                        \<lparr>b_type = Other, Text = ''DEFINE'', Expression = None\<rparr>],
               blob_list = [define_blob, newline_blob], hash_table = (\<lambda>_. []), SCRATCH = []\<rparr>
     in AddHash define_blob ''DEFINE'' (AddHash newline_blob [LF] s))"

text \<open>\<open>main\<close> from the end of the options on: the text it writes.\<close>

definition m1_finish :: "m1 \<Rightarrow> m1_error + string" where
  "m1_finish s =
    (if token_list s = [] then Inl No_Input
     else bindE (line_macro (reverse_list (token_list s)) (blobs s)) (\<lambda>(ts, bs).
       bindE (process_string (Architecture s) (ByteMode s) (blob_list s) bs) (\<lambda>bs.
       bindE (eval_immediates (BigEndian s) (ByteMode s) (Architecture s) (blob_list s) bs) (\<lambda>bs.
       bindE (preserve_other (ByteMode s) (blob_list s) bs) (\<lambda>bs.
       print_hex bs ts)))))"

definition m1_architecture :: "string \<Rightarrow> architecture option" where
  "m1_architecture arc =
    (if arc = ''knight-native'' \<or> arc = ''knight-posix'' then Some KNIGHT
     else if arc = ''x86'' then Some X86 else if arc = ''amd64'' then Some AMD64
     else if arc = ''armv7l'' then Some ARMV7L else if arc = ''aarch64'' then Some AARCH64
     else if arc = ''ppc64le'' then Some PPC64LE else if arc = ''riscv32'' then Some RISCV32
     else if arc = ''riscv64'' then Some RISCV64 else None)"

text \<open>
  The options, in the order they come; \<open>-f\<close> reads its file at once. \<open>files\<close> gives the contents of a
  file that can be opened. \<open>Missing_Value\<close> stands for the runs that read the \<open>NULL\<close> that ends
  \<open>argv\<close> as the value of an option, and \<open>Help\<close> for the exits with success. The file of \<open>-o\<close> is left
  to the caller.
\<close>

fun m1_options :: "(string \<Rightarrow> string option) \<Rightarrow> string list \<Rightarrow> m1 \<Rightarrow> m1_error + m1" where
  "m1_options files [] s = Inr s"
| "m1_options files (a # rest) s =
    (if a = ''--big-endian'' then m1_options files rest (s\<lparr>BigEndian := True\<rparr>)
     else if a = ''--little-endian'' then m1_options files rest (s\<lparr>BigEndian := False\<rparr>)
     else if a = ''-A'' \<or> a = ''--architecture''
     then (case rest of
             [] \<Rightarrow> Inl Missing_Value
           | v # rest \<Rightarrow>
               (case m1_architecture v of
                  None \<Rightarrow> Inl (Unknown_Architecture v)
                | Some arc \<Rightarrow> m1_options files rest (s\<lparr>Architecture := arc\<rparr>)))
     else if a = ''-b'' \<or> a = ''--binary'' then m1_options files rest (s\<lparr>ByteMode := BINARY\<rparr>)
     else if a = ''-h'' \<or> a = ''--help'' then Inl Help
     else if a = ''-f'' \<or> a = ''--file''
     then (case rest of
             [] \<Rightarrow> Inl Missing_Value
           | v # rest \<Rightarrow>
               (case files v of
                  None \<Rightarrow> Inl (Cannot_Open v)
                | Some src \<Rightarrow> bindE (Tokenize_Line v src s) (m1_options files rest)))
     else if a = ''-o'' \<or> a = ''--output''
     then (case rest of [] \<Rightarrow> Inl Missing_Value | v # rest \<Rightarrow> m1_options files rest s)
     else if a = ''-O'' \<or> a = ''--octal'' then m1_options files rest (s\<lparr>ByteMode := OCTAL\<rparr>)
     else if a = ''-V'' \<or> a = ''--version'' then Inl Help
     else Inl Unknown_Option)"

definition m1_main :: "(string \<Rightarrow> string option) \<Rightarrow> string list \<Rightarrow> m1_error + string" where
  "m1_main files args = bindE (m1_options files args m1_init) m1_finish"

end
