(* ===== verification/M1Blobs.thy ===== *)
theory M1Blobs
  imports M1
begin

text \<open>
  What the tokenizer of the macro assembler keeps: every text is one blob, the hash table finds
  it, and every list of tokens ends in a newline, so that printing never runs off its end.
\<close>

section \<open>The invariant\<close>

definition scratch_ok :: "string \<Rightarrow> bool" where
  "scratch_ok b \<longleftrightarrow> (\<exists>n. b = text_of b @ replicate n NUL)"

definition table_ok :: "m1 \<Rightarrow> bool" where
  "table_ok s \<longleftrightarrow>
     (\<forall>a < length (blobs s). a \<in> set (hash_table s (GetHash (Text (blobs s ! a))))) \<and>
     (\<forall>h. \<forall>a \<in> set (hash_table s h). a < length (blobs s) \<and> GetHash (Text (blobs s ! a)) = h)"

definition blobs_ok :: "m1 \<Rightarrow> bool" where
  "blobs_ok s \<longleftrightarrow> newline_blob < length (blobs s) \<and> define_blob < length (blobs s) \<and>
     (\<forall>a < length (blobs s). b_type (blobs s ! a) = NEWLINE \<longleftrightarrow> a = newline_blob) \<and>
     distinct (map Text (blobs s)) \<and> (\<forall>b \<in> set (blobs s). c_str (Text b)) \<and>
     Text (blobs s ! newline_blob) = [LF] \<and> Text (blobs s ! define_blob) = ''DEFINE'' \<and> blob_list s = rev [0..<length (blobs s)]"

definition tokens_ok :: "Token list \<Rightarrow> m1 \<Rightarrow> bool" where
  "tokens_ok ts s \<longleftrightarrow> (\<forall>t \<in> set ts. contents t < length (blobs s))"

definition m1_inv :: "m1 \<Rightarrow> bool" where
  "m1_inv s \<longleftrightarrow> scratch_ok (SCRATCH s) \<and> table_ok s \<and> blobs_ok s"

lemma m1_inv_cong: "SCRATCH s' = SCRATCH s \<Longrightarrow> hash_table s' = hash_table s \<Longrightarrow> blobs s' = blobs s \<Longrightarrow>
    blob_list s' = blob_list s \<Longrightarrow> m1_inv s' = m1_inv s"
  by (simp add: m1_inv_def scratch_ok_def table_ok_def blobs_ok_def)

lemma m1_inv_update [simp]:
  "m1_inv (s\<lparr>linenumber := l\<rparr>) = m1_inv s" "m1_inv (s\<lparr>token_list := ts\<rparr>) = m1_inv s"
  "m1_inv (s\<lparr>BigEndian := b\<rparr>) = m1_inv s" "m1_inv (s\<lparr>ByteMode := m\<rparr>) = m1_inv s"
  "m1_inv (s\<lparr>Architecture := arc\<rparr>) = m1_inv s"
  by (rule m1_inv_cong; simp)+

section \<open>The buffer\<close>

lemma ClearScratch_zero: "ClearScratch (t @ replicate n NUL) = replicate (length t + n) NUL" if "c_str t"
  using that
proof (induction t)
  case Nil
  show ?case by (cases n) simp_all
qed simp

lemma c_str_text_of: "c_str (text_of b)"
  unfolding c_str_def text_of_def using set_takeWhileD by fast

lemma text_of_zeros: "c_str t \<Longrightarrow> text_of (t @ replicate n NUL) = t"
proof (induction t)
  case Nil
  show ?case by (cases n) (simp_all add: text_of_def)
qed (simp add: text_of_def)

lemma fill_scratch_ok:
  assumes "scratch_ok (SCRATCH s)" "c_str t"
  shows "scratch_ok (SCRATCH (fill_scratch t s))" "text_of (SCRATCH (fill_scratch t s)) = t"
    "text_of (take (length t + 1) (SCRATCH (fill_scratch t s))) = t"
proof -
  obtain n where n: "SCRATCH s = text_of (SCRATCH s) @ replicate n NUL"
    using assms(1) by (auto simp: scratch_ok_def)
  have "ClearScratch (SCRATCH s) = replicate (length (text_of (SCRATCH s)) + n) NUL"
    by (subst n) (rule ClearScratch_zero [OF c_str_text_of])
  then obtain k where k: "SCRATCH (fill_scratch t s) = t @ replicate k NUL"
    by (simp add: fill_scratch_def Let_def)
  show "text_of (SCRATCH (fill_scratch t s)) = t" by (simp add: k text_of_zeros [OF assms(2)])
  then show "scratch_ok (SCRATCH (fill_scratch t s))" by (auto simp: scratch_ok_def k)
  have "take (length t + 1) (SCRATCH (fill_scratch t s)) = t @ replicate (min 1 k) NUL"
    by (simp add: k take_replicate)
  then show "text_of (take (length t + 1) (SCRATCH (fill_scratch t s))) = t"
    by (simp only: text_of_zeros [OF assms(2)])
qed

lemma m1_inv_fill: "m1_inv s \<Longrightarrow> c_str t \<Longrightarrow> m1_inv (fill_scratch t s)"
  using fill_scratch_ok(1) [of s t]
  by (simp add: m1_inv_def table_ok_def blobs_ok_def) (simp add: fill_scratch_def Let_def)

section \<open>Finding and making blobs\<close>

lemma find_chain_Some: "find_chain bs t chain = Some a \<Longrightarrow> a \<in> set chain \<and> match_loop t (Text (bs ! a))"
  by (induction chain) (auto split: if_splits)

lemma find_chain_None: "find_chain bs t chain = None \<Longrightarrow> \<forall>a \<in> set chain. \<not> match_loop t (Text (bs ! a))"
  by (induction chain) (auto split: if_splits)

text \<open>\<open>FindBlob\<close> finds the blob of a text exactly when there is one.\<close>

lemma FindBlob_iff:
  assumes "m1_inv s" "text_of (SCRATCH s) = t"
  shows "FindBlob s = Some a \<longleftrightarrow> a < length (blobs s) \<and> Text (blobs s ! a) = t"
proof -
  have c: "c_str t" using c_str_text_of assms(2) by blast
  have cb: "a < length (blobs s) \<Longrightarrow> c_str (Text (blobs s ! a))" for a
    using assms(1) by (auto simp: m1_inv_def blobs_ok_def)
  have in_table: "a \<in> set (hash_table s h) \<Longrightarrow> a < length (blobs s) \<and> GetHash (Text (blobs s ! a)) = h" for a h
    using assms(1) by (auto simp: m1_inv_def table_ok_def)
  have find: "FindBlob s = find_chain (blobs s) t (hash_table s (GetHash t))"
    by (simp add: FindBlob_def assms(2) Let_def)
  show ?thesis
  proof
    assume "FindBlob s = Some a"
    then have "a \<in> set (hash_table s (GetHash t))" "match_loop t (Text (blobs s ! a))"
      using find_chain_Some find by metis+
    then show "a < length (blobs s) \<and> Text (blobs s ! a) = t"
      using in_table cb match_loop_iff [OF c] by blast
  next
    assume a: "a < length (blobs s) \<and> Text (blobs s ! a) = t"
    then have m: "a \<in> set (hash_table s (GetHash t))" using assms(1) by (auto simp: m1_inv_def table_ok_def)
    have mt: "match_loop t (Text (blobs s ! a))" using a c by (simp add: match_loop_iff)
    obtain b where b: "FindBlob s = Some b"
      using find_chain_None m mt find by (metis option.exhaust)
    then have "b \<in> set (hash_table s (GetHash t))" "match_loop t (Text (blobs s ! b))"
      using find_chain_Some find by metis+
    then have "b < length (blobs s)" "Text (blobs s ! b) = t" using in_table cb match_loop_iff [OF c] by blast+
    moreover have "distinct (map Text (blobs s))" using assms(1) by (simp add: m1_inv_def blobs_ok_def)
    ultimately have "b = a" using a by (simp add: distinct_conv_nth) (metis nth_map length_map)
    then show "FindBlob s = Some a" using b by simp
  qed
qed

lemma NewBlob_inv:
  assumes "m1_inv s" "text_of (SCRATCH s) = t" "text_of (take (n + 1) (SCRATCH s)) = t" "FindBlob s = None"
  shows "m1_inv (NewBlob n s)" "hd (blob_list (NewBlob n s)) = length (blobs s)"
    "blobs (NewBlob n s) = blobs s @ [\<lparr>b_type = Other, Text = t, Expression = None\<rparr>]"
proof -
  define s' where "s' = s\<lparr>blobs := blobs s @ [\<lparr>b_type = Other, Text = t, Expression = None\<rparr>],
      blob_list := length (blobs s) # blob_list s\<rparr>"
  have e: "NewBlob n s = AddHash (length (blobs s)) t s'"
    unfolding NewBlob_def s'_def Let_def assms(3) by (simp add: assms(2))
  have new: "\<forall>a < length (blobs s). Text (blobs s ! a) \<noteq> t"
    using FindBlob_iff [OF assms(1,2)] assms(4) by auto
  show b: "blobs (NewBlob n s) = blobs s @ [\<lparr>b_type = Other, Text = t, Expression = None\<rparr>]"
    by (simp add: e AddHash_def s'_def)
  show "hd (blob_list (NewBlob n s)) = length (blobs s)" by (simp add: e AddHash_def s'_def)
  have "blobs_ok (NewBlob n s)"
    using assms(1) new c_str_text_of [of "SCRATCH s"]
    by (auto simp: m1_inv_def blobs_ok_def e AddHash_def s'_def nth_append less_Suc_eq newline_blob_def define_blob_def
        in_set_conv_nth assms(2))
  moreover have "table_ok (NewBlob n s)"
  proof -
    define tx where "tx a = (if a < length (blobs s) then Text (blobs s ! a) else t)" for a
    define h where "h = (hash_table s)(GetHash t := length (blobs s) # hash_table s (GetHash t))"
    have ht: "hash_table (NewBlob n s) = h" by (simp add: e AddHash_def s'_def h_def)
    have T: "Text (blobs (NewBlob n s) ! a) = tx a" if "a < Suc (length (blobs s))" for a
      using that by (auto simp: b nth_append less_Suc_eq tx_def)
    have l: "length (blobs (NewBlob n s)) = Suc (length (blobs s))" by (simp add: b)
    have old: "table_ok s" using assms(1) by (simp add: m1_inv_def)
    have 1: "a \<in> set (h (GetHash (tx a)))" if "a < Suc (length (blobs s))" for a
      using that old unfolding h_def tx_def table_ok_def by (cases "a < length (blobs s)") (simp_all add: less_Suc_eq, metis)
    have 2: "a < Suc (length (blobs s))" "GetHash (tx a) = k" if "a \<in> set (h k)" for a k
      using that old unfolding h_def tx_def table_ok_def
      by (auto simp: less_Suc_eq split: if_splits)
    show ?thesis unfolding table_ok_def ht l using 1 2 T by metis
  qed
  moreover have "SCRATCH (NewBlob n s) = SCRATCH s" by (simp add: e AddHash_def s'_def)
  ultimately show "m1_inv (NewBlob n s)" using assms(1) by (simp add: m1_inv_def)
qed

lemma set_type_inv:
  assumes "m1_inv s" "a \<noteq> newline_blob" "a < length (blobs s)"
  shows "m1_inv (set_type a STRING s)" "map Text (blobs (set_type a STRING s)) = map Text (blobs s)"
proof -
  let ?s = "set_type a STRING s"
  have l: "length (blobs ?s) = length (blobs s)" by (simp add: set_type_def)
  have T: "Text (blobs ?s ! i) = Text (blobs s ! i)" if "i < length (blobs s)" for i
    using that by (cases "i = a") (simp_all add: set_type_def)
  have ty: "b_type (blobs ?s ! i) = (if i = a then STRING else b_type (blobs s ! i))" if "i < length (blobs s)" for i
    using that by (simp add: set_type_def nth_list_update)
  show m: "map Text (blobs ?s) = map Text (blobs s)"
    by (rule nth_equalityI) (simp_all add: l T)
  have "\<forall>b \<in> set (blobs ?s). c_str (Text b)"
    using assms(1) unfolding m1_inv_def blobs_ok_def by (metis T l in_set_conv_nth nth_mem)
  moreover have "SCRATCH ?s = SCRATCH s" "hash_table ?s = hash_table s" "blob_list ?s = blob_list s"
    by (simp_all add: set_type_def)
  ultimately show "m1_inv ?s"
    using assms unfolding m1_inv_def blobs_ok_def table_ok_def by (auto simp: l T ty m)
qed

end
