(* ===== verification/M1Lex.thy ===== *)
theory M1Lex
  imports M1Blobs
begin

text \<open>
  The tokenizer of the macro assembler, \<open>Tokenize_Line\<close>, seen through the blobs: the texts of its
  tokens are the words and strings of the file. \<open>lex\<close> says this without buffer, blobs and hash
  table; the tokenizer refines it and keeps the invariant of \<^verbatim>\<open>M1Blobs\<close>.
\<close>

section \<open>The specification\<close>

text \<open>The words of a file, newest first, put in front of those of the files before.\<close>

definition lex_newline :: "string list \<Rightarrow> string list" where
  "lex_newline ws = (if ws = [] \<or> hd ws = [LF] then ws else [LF] # ws)"

abbreviation line_end :: "char \<Rightarrow> bool" where "line_end c \<equiv> c = LF \<or> c = CR"
abbreviation blank :: "char \<Rightarrow> bool" where "blank c \<equiv> c = TAB \<or> c = CHR '' ''"
abbreviation quote :: "char \<Rightarrow> bool" where "quote c \<equiv> c = CHR 0x27 \<or> c = CHR 0x22"

function lex :: "string list \<Rightarrow> string \<Rightarrow> string list" where
  "lex ws src =
    (case src of
       [] \<Rightarrow> lex_newline ws
     | c # src \<Rightarrow>
         if c = CHR '';'' \<or> c = CHR ''#'' then lex (lex_newline ws) (drop 1 (dropWhile (\<lambda>d. \<not> line_end d) src))
         else if blank c then lex ws src
         else if c = LF then lex (lex_newline ws) src
         else if quote c then lex ((c # takeWhile (\<lambda>d. d \<noteq> c) src) # ws) (drop 1 (dropWhile (\<lambda>d. d \<noteq> c) src))
         else lex ((c # takeWhile (\<lambda>d. \<not> (blank d \<or> d = LF)) src) # ws) (dropWhile (\<lambda>d. \<not> (blank d \<or> d = LF)) src))"
  by pat_completeness auto
termination
proof (relation "measure (\<lambda>(ws, src). length src)", goal_cases)
  case (2 ws src c src')
  then show ?case using length_dropWhile_le [of "\<lambda>d. \<not> line_end d" src'] by simp
next
  case (5 ws src c src')
  then show ?case using length_dropWhile_le [of "\<lambda>d. d \<noteq> c" src'] by simp
next
  case (6 ws src c src')
  then show ?case using length_dropWhile_le [of "\<lambda>d. \<not> (blank d \<or> d = LF)" src'] by simp
qed simp_all

declare lex.simps [simp del]

text \<open>The words of the tokens.\<close>

definition texts :: "m1 \<Rightarrow> Token list \<Rightarrow> string list" where
  "texts s ts = map (\<lambda>t. Text (blobs s ! contents t)) ts"

section \<open>The loops\<close>

lemma in_set_cases [simp]:
  "in_set c [LF, CR] = line_end c" "in_set c '';#'' \<longleftrightarrow> c = CHR '';'' \<or> c = CHR ''#''"
  "in_set c [TAB, CHR '' ''] = blank c" "in_set c [CHR 0x27, CHR 0x22] = quote c"
  "in_set c [TAB, LF, CHR '' ''] \<longleftrightarrow> blank c \<or> c = LF"
  by (auto simp: in_set_iff)

lemma c_str_dropWhile: "c_str s \<Longrightarrow> c_str (dropWhile P s)"
  unfolding c_str_def using set_dropWhileD by fast

lemma c_str_takeWhile: "c_str s \<Longrightarrow> c_str (takeWhile P s)"
  unfolding c_str_def using set_takeWhileD by fast

lemma c_str_drop: "c_str s \<Longrightarrow> c_str (drop n s)"
  unfolding c_str_def using in_set_dropD by fast

lemma purge_lineComment_drop: "purge_lineComment src = drop 1 (dropWhile (\<lambda>d. \<not> line_end d) src)"
  by (induction src) auto

lemma atom_loop_text:
  "atom_loop i ch src = Inr (t, e, r) \<Longrightarrow>
     t = ch # takeWhile (\<lambda>d. \<not> (blank d \<or> d = LF)) src \<and>
     (case dropWhile (\<lambda>d. \<not> (blank d \<or> d = LF)) src of [] \<Rightarrow> e = None \<and> r = [] | d # r' \<Rightarrow> e = Some d \<and> r = r')"
proof (induction src arbitrary: i ch t)
  case Nil
  then show ?case by (auto simp: atom_loop.simps split: if_splits)
next
  case (Cons c src)
  show ?case
  proof (cases "blank c \<or> c = LF")
    case True
    then show ?thesis using Cons.prems by (subst (asm) atom_loop.simps) (auto split: if_splits)
  next
    case False
    from Cons.prems False obtain t' where "atom_loop (i + 1) c src = Inr (t', e, r)" "t = ch # t'"
      by (subst (asm) atom_loop.simps) (auto split: if_splits)
    with Cons.IH [OF this(1)] False show ?thesis by simp
  qed
qed

lemma string_loop_text:
  "string_loop i c ch src l = Inr (t, r, l') \<Longrightarrow>
     t = ch # takeWhile (\<lambda>d. d \<noteq> c) src \<and> r = drop 1 (dropWhile (\<lambda>d. d \<noteq> c) src)"
proof (induction src arbitrary: i ch t l)
  case Nil
  then show ?case by (auto simp: string_loop.simps Let_def)
next
  case (Cons d src)
  from Cons.prems show ?case
    by (subst (asm) string_loop.simps) (auto simp: Let_def split: if_splits dest!: Cons.IH)
qed

section \<open>The stores\<close>

text \<open>Blobs are only added: their texts stay.\<close>

definition extends :: "m1 \<Rightarrow> m1 \<Rightarrow> bool" where
  "extends s s' \<longleftrightarrow> (\<exists>ns. map Text (blobs s') = map Text (blobs s) @ ns)"

lemma extends_refl [simp]: "extends s s"
  by (simp add: extends_def)

lemma extends_trans: "extends s t \<Longrightarrow> extends t u \<Longrightarrow> extends s u"
  by (auto simp: extends_def)

lemma extends_text:
  assumes "extends s s'" "a < length (blobs s)"
  shows "a < length (blobs s')" "Text (blobs s' ! a) = Text (blobs s ! a)"
proof -
  obtain ns where m: "map Text (blobs s') = map Text (blobs s) @ ns" using assms(1) by (auto simp: extends_def)
  then have "length (blobs s') = length (blobs s) + length ns" by (metis length_append length_map)
  then show l: "a < length (blobs s')" using assms(2) by simp
  have "map Text (blobs s') ! a = map Text (blobs s) ! a" using m assms(2) by (simp add: nth_append)
  then show "Text (blobs s' ! a) = Text (blobs s ! a)" using l assms(2) by simp
qed

lemma texts_extends:
  assumes "extends s s'" "tokens_ok ts s"
  shows "texts s' ts = texts s ts" "tokens_ok ts s'"
  using assms extends_text by (auto simp: texts_def tokens_ok_def)

text \<open>The strings are the blobs whose text begins with a quote; the tokenizer gives no blob a value.\<close>

definition typed :: "m1 \<Rightarrow> bool" where
  "typed s \<longleftrightarrow> (\<forall>b \<in> set (blobs s).
     (b_type b = STRING \<longleftrightarrow> Text b \<noteq> [] \<and> quote (hd (Text b))) \<and> (b_type b \<noteq> NEWLINE \<longrightarrow> Expression b = None))"

lemma typed_append: "typed s \<Longrightarrow> blobs s' = blobs s @ [b] \<Longrightarrow>
    b_type b = STRING \<longleftrightarrow> Text b \<noteq> [] \<and> quote (hd (Text b)) \<Longrightarrow> Expression b = None \<Longrightarrow> typed s'"
  by (auto simp: typed_def)

lemma typed_cong: "typed s \<Longrightarrow> blobs s' = blobs s \<Longrightarrow> typed s'"
  by (simp add: typed_def)

text \<open>What both stores do with a text: find its blob, or make one.\<close>

lemma intern:
  assumes "m1_inv s" "c_str t"
  shows "case FindBlob (fill_scratch t s) of
      Some a \<Rightarrow> m1_inv (fill_scratch t s) \<and> extends s (fill_scratch t s) \<and> a < length (blobs s) \<and> Text (blobs s ! a) = t
    | None \<Rightarrow> (let s' = NewBlob (length t) (fill_scratch t s) in
        m1_inv s' \<and> extends s s' \<and> hd (blob_list s') = length (blobs s) \<and>
        blobs s' = blobs s @ [\<lparr>b_type = Other, Text = t, Expression = None\<rparr>])"
proof -
  let ?s = "fill_scratch t s"
  have sc: "scratch_ok (SCRATCH s)" using assms(1) by (simp add: m1_inv_def)
  have b: "blobs ?s = blobs s" by (simp add: fill_scratch_def Let_def)
  have inv: "m1_inv ?s" by (rule m1_inv_fill [OF assms])
  show ?thesis
  proof (cases "FindBlob ?s")
    case None
    note n = NewBlob_inv [OF inv fill_scratch_ok(2,3) [OF sc assms(2)] None]
    then show ?thesis using None b by (simp add: extends_def)
  next
    case (Some a)
    then show ?thesis
      using FindBlob_iff [OF inv fill_scratch_ok(2) [OF sc assms(2)], of a] inv
      by (simp add: b extends_def)
  qed
qed

lemma intern_pair:
  assumes "m1_inv s" "c_str t"
  defines "p \<equiv> (case FindBlob (fill_scratch t s) of Some a \<Rightarrow> (a, fill_scratch t s)
    | None \<Rightarrow> let s = NewBlob (length t) (fill_scratch t s) in (hd (blob_list s), s))"
  shows "m1_inv (snd p)" "extends s (snd p)" "fst p < length (blobs (snd p))" "Text (blobs (snd p) ! fst p) = t"
    "typed s \<Longrightarrow> t \<noteq> [] \<Longrightarrow> \<not> quote (hd t) \<Longrightarrow> typed (snd p)"
proof -
  have "m1_inv (snd p) \<and> extends s (snd p) \<and> fst p < length (blobs (snd p)) \<and> Text (blobs (snd p) ! fst p) = t \<and>
      (typed s \<longrightarrow> t \<noteq> [] \<longrightarrow> \<not> quote (hd t) \<longrightarrow> typed (snd p))"
  proof (cases "FindBlob (fill_scratch t s)")
    case None
    then show ?thesis
      using intern [OF assms(1,2)] typed_append [of s "snd p"] by (simp add: p_def Let_def)
  next
    case (Some a)
    have b: "blobs (fill_scratch t s) = blobs s" by (simp add: fill_scratch_def Let_def)
    show ?thesis
      using Some intern [OF assms(1,2)] extends_text [of s "fill_scratch t s" a] typed_cong [OF _ b] by (simp add: p_def)
  qed
  then show "m1_inv (snd p)" "extends s (snd p)" "fst p < length (blobs (snd p))" "Text (blobs (snd p) ! fst p) = t"
    "typed s \<Longrightarrow> t \<noteq> [] \<Longrightarrow> \<not> quote (hd t) \<Longrightarrow> typed (snd p)"
    by simp_all
qed

lemma NEWLINE_text:
  assumes "m1_inv s" "a < length (blobs s)"
  shows "b_type (blobs s ! a) = NEWLINE \<longleftrightarrow> Text (blobs s ! a) = [LF]"
proof -
  have n: "newline_blob < length (blobs s)" "Text (blobs s ! newline_blob) = [LF]"
    "b_type (blobs s ! a) = NEWLINE \<longleftrightarrow> a = newline_blob" and d: "distinct (map Text (blobs s))"
    using assms by (simp_all add: m1_inv_def blobs_ok_def)
  have "Text (blobs s ! a) = Text (blobs s ! newline_blob) \<longleftrightarrow> a = newline_blob"
    using nth_eq_iff_index_eq [OF d, of a newline_blob] assms(2) n(1) by simp
  then show ?thesis using n by simp
qed

lemma append_newline_words:
  assumes "m1_inv s" "tokens_ok head s" "append_newline file (head, s) = (head', s')"
  shows "m1_inv s'" "tokens_ok head' s'" "texts s' head' = lex_newline (texts s head)"
    "blobs s' = blobs s" "extends s s'"
proof -
  have n: "newline_blob < length (blobs s)" "Text (blobs s ! newline_blob) = [LF]"
    using assms(1) by (simp_all add: m1_inv_def blobs_ok_def)
  have "m1_inv s' \<and> tokens_ok head' s' \<and> texts s' head' = lex_newline (texts s head) \<and> blobs s' = blobs s"
  proof (cases head)
    case Nil
    then show ?thesis using assms
      by (auto simp: append_newline_def texts_def lex_newline_def tokens_ok_def)
  next
    case (Cons t ts)
    then show ?thesis
      using assms NEWLINE_text [OF assms(1), of "contents t"] n
      by (auto simp: append_newline_def texts_def lex_newline_def tokens_ok_def the_blob_def newToken_def Let_def
          split: if_splits)
  qed
  then show "m1_inv s'" "tokens_ok head' s'" "texts s' head' = lex_newline (texts s head)" "blobs s' = blobs s" "extends s s'"
    by (simp_all add: extends_def)
qed

lemma m1_inv_linenumber: "m1_inv s \<Longrightarrow> m1_inv (s\<lparr>linenumber := l\<rparr>)"
  by simp

text \<open>The tokens in front, and the text of the one that is added.\<close>

lemma add_token:
  assumes "tokens_ok head s" "extends s s'" "a < length (blobs s')" "Text (blobs s' ! a) = t"
  shows "tokens_ok (newToken a file l # head) s'" "texts s' (newToken a file l # head) = t # texts s head"
  using texts_extends [OF assms(2,1)] assms(3,4)
  by (simp_all add: tokens_ok_def newToken_def texts_def)

text \<open>The two ends of a word: a newline, which is a token of its own, or a blank, which is not.\<close>

lemma lex_blank: "blank c \<Longrightarrow> lex ws (c # src) = lex ws src"
  by (subst lex.simps) auto

lemma lex_line: "lex ws (LF # src) = lex (lex_newline ws) src"
  by (subst lex.simps) auto

lemma store_atom_words:
  assumes "m1_inv s" "tokens_ok head s" "c \<noteq> NUL" "c_str src" "c \<notin> {CHR '';'', CHR ''#'', TAB, CHR '' '', LF, CHR 0x27, CHR 0x22}"
    "store_atom head c file src s = Inr (r, head', s')"
  shows "m1_inv s'" "tokens_ok head' s'" "c_str r" "lex (texts s' head') r = lex (texts s head) (c # src)" "extends s s'"
    "typed s \<Longrightarrow> typed s'"
proof -
  define t where "t = c # takeWhile (\<lambda>d. \<not> (blank d \<or> d = LF)) src"
  define rest where "rest = dropWhile (\<lambda>d. \<not> (blank d \<or> d = LF)) src"
  have lx: "lex ws (c # src) = lex (t # ws) rest" for ws
    using assms(5) by (subst lex.simps) (simp add: t_def rest_def)
  have ct: "c_str t" using assms(3,4) by (simp add: t_def c_str_takeWhile)
  have cr: "c_str rest" by (simp add: rest_def c_str_dropWhile assms(4))
  obtain t' e r' where a': "atom_loop 0 c src = Inr (t', e, r')"
    using assms(6) by (cases "atom_loop 0 c src") (auto simp: store_atom_def)
  with atom_loop_text [OF a'] have a: "atom_loop 0 c src = Inr (t, e, r')"
      "case rest of [] \<Rightarrow> e = None \<and> r' = [] | d # q \<Rightarrow> e = Some d \<and> r' = q"
    by (simp_all add: t_def rest_def)
  define p where "p = (case FindBlob (fill_scratch t s) of Some a \<Rightarrow> (a, fill_scratch t s)
    | None \<Rightarrow> let s = NewBlob (length t) (fill_scratch t s) in (hd (blob_list s), s))"
  have p: "m1_inv (snd p)" "extends s (snd p)" "fst p < length (blobs (snd p))" "Text (blobs (snd p) ! fst p) = t"
    using intern_pair(1-4) [OF assms(1) ct] by (simp_all only: p_def)
  have ty: "typed s \<Longrightarrow> typed (snd p)"
    using intern_pair(5) [OF assms(1) ct] assms(5) by (simp add: p_def t_def)
  define head1 where "head1 = newToken (fst p) file (linenumber s) # head"
  have h: "tokens_ok head1 (snd p)" "texts (snd p) head1 = t # texts s head"
    using add_token [OF assms(2) p(2,3,4)] by (simp_all add: head1_def)
  have st: "r = r'" "(head', s') = (if e = Some LF then append_newline file (head1, snd p) else (head1, snd p))"
    using assms(6) a(1)
    by (cases "FindBlob (fill_scratch t s)"; auto simp: store_atom_def Let_def p_def head1_def split: if_splits prod.splits)+
  have rest_end: "rest \<noteq> [] \<Longrightarrow> blank (hd rest) \<or> hd rest = LF"
    using hd_dropWhile [of "\<lambda>d. \<not> (blank d \<or> d = LF)" src] unfolding rest_def by argo
  have "m1_inv s' \<and> tokens_ok head' s' \<and> c_str r \<and> lex (texts s' head') r = lex (t # texts s head) rest \<and> extends s s' \<and>
      (typed s \<longrightarrow> typed s')"
  proof (cases "e = Some LF")
    case True
    then have q: "rest = LF # r" using a(2) st(1) by (cases rest) auto
    from st True have "append_newline file (head1, snd p) = (head', s')" by simp
    note n = append_newline_words [OF p(1) h(1) this]
    show ?thesis using n h(2) q cr lex_line extends_trans [OF p(2)] typed_cong [OF ty n(4)] by simp
  next
    case False
    then have eq: "head' = head1" "s' = snd p" using st by simp_all
    have "lex ws r = lex ws rest" "c_str r" for ws
      using a(2) st(1) rest_end False cr by (cases rest; force simp: lex_blank)+
    then show ?thesis using eq h p ty by simp
  qed
  then show "m1_inv s'" "tokens_ok head' s'" "c_str r" "lex (texts s' head') r = lex (texts s head) (c # src)" "extends s s'"
    "typed s \<Longrightarrow> typed s'"
    using lx by simp_all
qed

lemma store_string_words:
  assumes "m1_inv s" "c_str src" "quote c" "store_string c src s = Inr (r, a, s')"
  defines "t \<equiv> c # takeWhile (\<lambda>d. d \<noteq> c) src"
  shows "m1_inv s'" "c_str r" "r = drop 1 (dropWhile (\<lambda>d. d \<noteq> c) src)" "extends s s'" "a < length (blobs s')"
    "Text (blobs s' ! a) = t" "typed s \<Longrightarrow> typed s'"
proof -
  have ct: "c_str t" using assms(2,3) by (auto simp: t_def c_str_takeWhile)
  obtain t' r' l where l': "string_loop 0 c c src (linenumber s) = Inr (t', r', l)"
    using assms(4) by (cases "string_loop 0 c c src (linenumber s)") (auto simp: store_string_def)
  then have "r' = r" using assms(4) by (simp add: store_string_def Let_def)
  with string_loop_text [OF l'] l' have l: "string_loop 0 c c src (linenumber s) = Inr (t, r, l)"
    and r: "r = drop 1 (dropWhile (\<lambda>d. d \<noteq> c) src)"
    by (simp_all add: t_def)
  show "r = drop 1 (dropWhile (\<lambda>d. d \<noteq> c) src)" "c_str r" using r by (simp_all add: c_str_drop c_str_dropWhile assms(2))
  let ?s = "s\<lparr>linenumber := l\<rparr>"
  have inv: "m1_inv ?s" using assms(1) by simp
  have ext: "extends s s'' = extends ?s s''" for s'' by (simp add: extends_def)
  have "m1_inv s' \<and> extends ?s s' \<and> a < length (blobs s') \<and> Text (blobs s' ! a) = t \<and> (typed s \<longrightarrow> typed s')"
  proof (cases "FindBlob (fill_scratch t ?s)")
    case None
    let ?n = "NewBlob (length t) (fill_scratch t ?s)"
    have n: "m1_inv ?n" "extends ?s ?n" "hd (blob_list ?n) = length (blobs s)"
        "blobs ?n = blobs s @ [\<lparr>b_type = Other, Text = t, Expression = None\<rparr>]"
      using intern [OF inv ct] None by (simp_all add: Let_def)
    have eq: "a = length (blobs s)" "s' = set_type (length (blobs s)) STRING ?n"
      using assms(4) l None n(3) by (auto simp: store_string_def Let_def)
    have "length (blobs s) \<noteq> newline_blob" using assms(1) by (auto simp: m1_inv_def blobs_ok_def)
    then have si: "m1_inv s'" "map Text (blobs s') = map Text (blobs ?n)"
      using set_type_inv [OF n(1), of "length (blobs s)"] n(4) eq by simp_all
    have "length (blobs s') = length (blobs ?n)" using si(2) map_eq_imp_length_eq by blast
    moreover have "extends ?s s'" using n(2) si(2) by (simp add: extends_def)
    moreover have "map Text (blobs s') ! a = t" using eq(1) by (simp add: si(2) n(4) nth_append)
    moreover have "blobs s' = blobs s @ [\<lparr>b_type = STRING, Text = t, Expression = None\<rparr>]"
      by (simp add: eq(2) set_type_def n(4))
    from typed_append [OF _ this] assms(3) have "typed s \<Longrightarrow> typed s'" by (auto simp: t_def)
    ultimately show ?thesis using si(1) n(4) eq(1) by simp
  next
    case (Some b)
    have "blobs (fill_scratch t ?s) = blobs s" by (simp add: fill_scratch_def Let_def)
    then show ?thesis using Some intern [OF inv ct] assms(4) l extends_text [of ?s "fill_scratch t ?s"] typed_cong [of s s']
      by (auto simp: store_string_def Let_def)
  qed
  then show "m1_inv s'" "extends s s'" "a < length (blobs s')" "Text (blobs s' ! a) = t" "typed s \<Longrightarrow> typed s'"
    using ext by simp_all
qed

section \<open>The tokenizer\<close>

lemma tokenize_loop_words:
  "m1_inv (snd hs) \<Longrightarrow> tokens_ok (fst hs) (snd hs) \<Longrightarrow> c_str src \<Longrightarrow>
   tokenize_loop file src hs = Inr (ts, s') \<Longrightarrow>
   m1_inv s' \<and> tokens_ok ts s' \<and> texts s' ts = lex (texts (snd hs) (fst hs)) src \<and> (typed (snd hs) \<longrightarrow> typed s')"
proof (induction "length src" arbitrary: src hs rule: less_induct)
  case less
  obtain head s where hs: "hs = (head, s)" by force
  note inv = less.prems(1,2) [unfolded hs fst_conv snd_conv]
  obtain head1 s1 where app: "append_newline file (head, s) = (head1, s1)" by force
  note nl = append_newline_words [OF inv app]
  have ty: "typed s \<Longrightarrow> typed s1" by (rule typed_cong [OF _ nl(4)])
  show ?case
  proof (cases src)
    case Nil
    then show ?thesis using less.prems(4) nl app ty by (simp add: hs tokenize_loop.simps lex.simps)
  next
    case (Cons c r)
    have c: "c \<noteq> NUL" "c_str r" using less.prems(3) Cons by simp_all
    consider "c = CHR '';'' \<or> c = CHR ''#''" | "blank c" | "c = LF" | "quote c"
      | "c \<notin> {CHR '';'', CHR ''#'', TAB, CHR '' '', LF, CHR 0x27, CHR 0x22}" by blast
    then show ?thesis
    proof cases
      case 1
      have l: "length (purge_lineComment r) < length src" using purge_lineComment_le [of r] Cons by simp
      have cs: "c_str (purge_lineComment r)" by (simp add: purge_lineComment_drop c_str_drop c_str_dropWhile c(2))
      have "tokenize_loop file (purge_lineComment r) (head1, s1) = Inr (ts, s')"
        using less.prems(4) 1 app by (subst (asm) tokenize_loop.simps) (simp add: Cons hs)
      from less.hyps [OF l _ _ cs this] nl ty show ?thesis
        using 1 by (subst lex.simps) (auto simp: Cons hs purge_lineComment_drop)
    next
      case 2
      then have "tokenize_loop file r (head, s) = Inr (ts, s')"
        using less.prems(4) by (subst (asm) tokenize_loop.simps) (auto simp: Cons hs)
      from less.hyps [OF _ _ _ c(2) this] inv 2 show ?thesis by (simp add: Cons hs lex_blank)
    next
      case 3
      then have "tokenize_loop file r (head1, s1) = Inr (ts, s')"
        using less.prems(4) app by (subst (asm) tokenize_loop.simps) (simp add: Cons hs)
      from less.hyps [OF _ _ _ c(2) this] nl 3 ty show ?thesis by (simp add: Cons hs lex_line)
    next
      case 4
      then obtain q where q: "store_string c r s = Inr q"
          "tokenize_loop file (fst q) (newToken (fst (snd q)) file (linenumber s) # head, snd (snd q)) = Inr (ts, s')"
        using less.prems(4) by (subst (asm) tokenize_loop.simps) (auto simp: Cons hs split: prod.splits)
      obtain r' a s2 where qq: "q = (r', a, s2)" by (cases q) auto
      note w = store_string_words [OF inv(1) c(2) 4 q(1) [unfolded qq]]
      note t = add_token [OF inv(2) w(4,5,6)]
      have l: "length r' < length src" using store_string_le [OF q(1) [unfolded qq]] Cons by simp
      from less.hyps [OF l _ _ w(2) q(2) [unfolded qq fst_conv snd_conv]] w t show ?thesis
        using 4 by (subst lex.simps) (auto simp: Cons hs)
    next
      case 5
      then obtain q where q: "store_atom head c file r s = Inr q" "tokenize_loop file (fst q) (snd q) = Inr (ts, s')"
        using less.prems(4) by (subst (asm) tokenize_loop.simps) (auto simp: Cons hs split: prod.splits)
      obtain r' h2 s2 where qq: "q = (r', h2, s2)" by (cases q) auto
      note w = store_atom_words [OF inv c(1,2) 5 q(1) [unfolded qq]]
      have l: "length r' < length src" using store_atom_le [OF q(1) [unfolded qq]] Cons by simp
      from less.hyps [OF l _ _ w(3) q(2) [unfolded qq fst_conv snd_conv]] w show ?thesis
        by (simp add: Cons hs)
    qed
  qed
qed

text \<open>The files that \<open>-f\<close> names, in order.\<close>

fun named_files :: "string list \<Rightarrow> string list" where
  "named_files [] = []"
| "named_files (a # rest) =
    (if a = ''-f'' \<or> a = ''--file'' then (case rest of [] \<Rightarrow> [] | v # rest \<Rightarrow> v # named_files rest)
     else if a \<in> {''-A'', ''--architecture'', ''-o'', ''--output''} then (case rest of [] \<Rightarrow> [] | v # rest \<Rightarrow> named_files rest)
     else named_files rest)"

definition m1_good :: "m1 \<Rightarrow> bool" where
  "m1_good s \<longleftrightarrow> m1_inv s \<and> tokens_ok (token_list s) s \<and> typed s"

abbreviation words_of :: "m1 \<Rightarrow> string list" where
  "words_of s \<equiv> texts s (token_list s)"

lemma Tokenize_Line_words:
  assumes "m1_good s" "c_str src" "Tokenize_Line file src s = Inr s'"
  shows "m1_good s'" "words_of s' = lex (words_of s) src"
proof -
  obtain ts s1 where t: "tokenize_loop file src (token_list s, s\<lparr>linenumber := 1\<rparr>) = Inr (ts, s1)"
      "s' = s1\<lparr>token_list := ts\<rparr>"
    using assms(3) by (auto simp: Tokenize_Line_def)
  have "m1_inv s1 \<and> tokens_ok ts s1 \<and> texts s1 ts = lex (texts (s\<lparr>linenumber := 1\<rparr>) (token_list s)) src \<and> typed s1"
    using tokenize_loop_words [OF _ _ assms(2) t(1)] assms(1) by (simp add: m1_good_def tokens_ok_def typed_def)
  then show "m1_good s'" "words_of s' = lex (words_of s) src"
    by (simp_all add: t(2) m1_good_def tokens_ok_def texts_def typed_def)
qed

lemma m1_init_good: "m1_good m1_init"
proof -
  have b: "blobs m1_init = [\<lparr>b_type = NEWLINE, Text = [LF], Expression = Some [LF]\<rparr>,
      \<lparr>b_type = Other, Text = ''DEFINE'', Expression = None\<rparr>]"
    and h: "hash_table m1_init = ((\<lambda>_. [])(GetHash [LF] := [newline_blob]))(GetHash ''DEFINE'' :=
      define_blob # ((\<lambda>_. [])(GetHash [LF] := [newline_blob])) (GetHash ''DEFINE''))"
    and l: "blob_list m1_init = [1, 0]" and k: "SCRATCH m1_init = []" "token_list m1_init = []"
    by (simp_all add: m1_init_def AddHash_def Let_def newline_blob_def define_blob_def)
  have "blobs_ok m1_init"
    by (auto simp: blobs_ok_def b l newline_blob_def define_blob_def less_Suc_eq)
  moreover have "table_ok m1_init"
    by (auto simp: table_ok_def b h newline_blob_def define_blob_def less_Suc_eq)
  ultimately show ?thesis by (simp add: m1_good_def m1_inv_def scratch_ok_def tokens_ok_def k text_of_def typed_def b)
qed

lemma m1_good_update [simp]:
  "m1_good (s\<lparr>BigEndian := b\<rparr>) = m1_good s" "m1_good (s\<lparr>ByteMode := m\<rparr>) = m1_good s"
  "m1_good (s\<lparr>Architecture := arc\<rparr>) = m1_good s"
  by (simp_all add: m1_good_def tokens_ok_def typed_def)

lemma m1_options_words:
  assumes "\<forall>f src. files f = Some src \<longrightarrow> NUL \<notin> set src"
  shows "m1_good s \<Longrightarrow> m1_options files args s = Inr s' \<Longrightarrow>
    m1_good s' \<and> words_of s' = foldl lex (words_of s) (map (the \<circ> files) (named_files args))"
proof (induction args arbitrary: s rule: named_files.induct)
  case 1
  then show ?case by simp
next
  case (2 a rest)
  have upd: "words_of (s\<lparr>BigEndian := b\<rparr>) = words_of s" "words_of (s\<lparr>ByteMode := m\<rparr>) = words_of s"
    "words_of (s\<lparr>Architecture := arc\<rparr>) = words_of s" for b m arc
    by (simp_all add: texts_def)
  consider (f) "a = ''-f'' \<or> a = ''--file''" | (v) "a \<in> {''-A'', ''--architecture'', ''-o'', ''--output''}"
    | (other) "a \<noteq> ''-f''" "a \<noteq> ''--file''" "a \<notin> {''-A'', ''--architecture'', ''-o'', ''--output''}" by blast
  then show ?case
  proof cases
    case f
    then obtain v rest' where r: "rest = v # rest'" using "2.prems"(2) by (cases rest) auto
    from f obtain src s1 where s1: "files v = Some src" "Tokenize_Line v src s = Inr s1" "m1_options files rest' s1 = Inr s'"
      using "2.prems"(2) r by (auto split: option.splits)
    have "c_str src" using assms s1(1) by (auto simp: c_str_def)
    note t = Tokenize_Line_words [OF "2.prems"(1) this s1(2)]
    from "2.IH"(1) [OF f r t(1) s1(3)] t(2) s1(1) f show ?thesis by (simp add: r)
  next
    case v
    then obtain w rest' where r: "rest = w # rest'" using "2.prems"(2) by (cases rest) auto
    from v have nf: "\<not> (a = ''-f'' \<or> a = ''--file'')" by auto
    obtain s1 where s1: "m1_good s1" "words_of s1 = words_of s" "m1_options files rest' s1 = Inr s'"
    proof (cases "a = ''-A'' \<or> a = ''--architecture''")
      case True
      then obtain arc where "m1_options files rest' (s\<lparr>Architecture := arc\<rparr>) = Inr s'"
        using "2.prems"(2) r by (cases "m1_architecture w") auto
      from that [OF _ _ this] show ?thesis using "2.prems"(1) upd(3) by simp
    next
      case False
      then have "m1_options files rest' s = Inr s'" using v "2.prems"(2) r by auto
      then show ?thesis using that "2.prems"(1) by simp
    qed
    from "2.IH"(2) [OF nf v r s1(1,3)] s1(2) v nf show ?thesis by (simp add: r)
  next
    case other
    have "m1_options files rest (s\<lparr>BigEndian := True\<rparr>) = Inr s' \<or> m1_options files rest (s\<lparr>BigEndian := False\<rparr>) = Inr s' \<or>
        m1_options files rest (s\<lparr>ByteMode := BINARY\<rparr>) = Inr s' \<or> m1_options files rest (s\<lparr>ByteMode := OCTAL\<rparr>) = Inr s'"
      using "2.prems"(2) other by (simp split: if_split_asm)
    then obtain s1 where s1: "m1_good s1" "words_of s1 = words_of s" "m1_options files rest s1 = Inr s'"
      using "2.prems"(1) upd m1_good_update by metis
    from "2.IH"(3) [OF _ other(3) s1(1,3)] s1(2) other show ?thesis by simp
  qed
qed

text \<open>
  C24. What the macro assembler keeps of its files, when they hold no NUL: the texts of its tokens are the words and strings
  of the files, in order, with comments and blanks left out and one newline between lines; each text is one
  blob, and the hash table finds exactly the texts there are.
\<close>

theorem m1_tokens:
  assumes "\<forall>f src. files f = Some src \<longrightarrow> NUL \<notin> set src" "m1_options files args m1_init = Inr s"
  shows "map (\<lambda>t. Text (blobs s ! contents t)) (token_list s) =
      foldl lex [] (map (the \<circ> files) (named_files args)) \<and>
    (\<forall>t \<in> set (token_list s). contents t < length (blobs s)) \<and> distinct (map Text (blobs s)) \<and>
    (\<forall>t a. NUL \<notin> set t \<longrightarrow>
      (FindBlob (s\<lparr>SCRATCH := t\<rparr>) = Some a \<longleftrightarrow> a < length (blobs s) \<and> Text (blobs s ! a) = t))"
proof -
  have w: "m1_good s" "words_of s = foldl lex [] (map (the \<circ> files) (named_files args))"
    using m1_options_words [OF assms(1) m1_init_good assms(2)]
    by (simp_all add: texts_def m1_init_def AddHash_def Let_def)
  have "FindBlob (s\<lparr>SCRATCH := t\<rparr>) = Some a \<longleftrightarrow> a < length (blobs s) \<and> Text (blobs s ! a) = t" if "NUL \<notin> set t" for t a
  proof -
    have c: "c_str t" using that by (simp add: c_str_def)
    then have x: "text_of t = t" using text_of_zeros [of t 0] by simp
    then have "m1_inv (s\<lparr>SCRATCH := t\<rparr>)"
      using w(1) by (auto simp: m1_good_def m1_inv_def scratch_ok_def table_ok_def blobs_ok_def intro: exI [of _ 0])
    from FindBlob_iff [OF this, of t] x show ?thesis by simp
  qed
  with w show ?thesis by (simp add: texts_def m1_good_def tokens_ok_def m1_inv_def blobs_ok_def)
qed

text \<open>The size of the buffer, for evaluation: compared as an integer.\<close>

lemma max_string_code [code_unfold]:
  "n \<ge> max_string \<longleftrightarrow> int n \<ge> 262144"
  by (auto simp: max_string_def)

definition m1_demo :: "string \<Rightarrow> string option" where
  "m1_demo f =
    (if f = ''a'' then Some (''a #b'' @ [LF] @ ''c a'') else None)"

theorem m1_tokens_witness:
  "map (\<lambda>t. Text (blobs (projr (m1_options m1_demo [''-f'', ''a''] m1_init)) ! contents t))
      (token_list (projr (m1_options m1_demo [''-f'', ''a''] m1_init))) =
    [[LF], ''a'', ''c'', [LF], ''a'']"
proof -
  have f: "\<forall>f src. m1_demo f = Some src \<longrightarrow> NUL \<notin> set src" by (simp add: m1_demo_def)
  have r: "isl (m1_options m1_demo [''-f'', ''a''] m1_init) = False" by code_simp
  then have "m1_options m1_demo [''-f'', ''a''] m1_init = Inr (projr (m1_options m1_demo [''-f'', ''a''] m1_init))"
    by simp
  note t = conjunct1 [OF m1_tokens [OF f this]]
  have "foldl lex [] (map (the \<circ> m1_demo) (named_files [''-f'', ''a''])) =
    [[LF], ''a'', ''c'', [LF], ''a'']"
    by code_simp
  with t show ?thesis by (rule trans)
qed

end
