(* ===== verification/M1Output.thy ===== *)
theory M1Output
  imports M1Lex
begin

text \<open>
  What the passes of the macro assembler do to a blob, and why printing never runs off the end of the
  list of tokens.
\<close>

section \<open>The passes, blob by blob\<close>

text \<open>Each of the three passes over the list of blobs changes one blob at a time.\<close>

fun pass :: "(blob \<Rightarrow> m1_error + blob) \<Rightarrow> nat list \<Rightarrow> blob list \<Rightarrow> m1_error + blob list" where
  "pass step [] bs = Inr bs"
| "pass step (a # as) bs = bindE (step (bs ! a)) (\<lambda>b. pass step as (bs[a := b]))"

definition express :: "string option \<Rightarrow> blob \<Rightarrow> blob" where
  "express e b = (case e of None \<Rightarrow> b | Some e \<Rightarrow> b\<lparr>Expression := Some e\<rparr>)"

definition string_step :: "architecture \<Rightarrow> byte_mode \<Rightarrow> blob \<Rightarrow> m1_error + blob" where
  "string_step arc m b =
    (if b_type b = STRING
     then (if chr_at (Text b) 0 = CHR 0x27 then Inr (express (Some (drop 1 (Text b))) b)
           else if chr_at (Text b) 0 = CHR 0x22 then bindE (hexify_string arc m (Text b)) (\<lambda>e. Inr (express (Some e) b))
           else Inr b)
     else Inr b)"

definition eval_step :: "bool \<Rightarrow> byte_mode \<Rightarrow> architecture \<Rightarrow> blob \<Rightarrow> m1_error + blob" where
  "eval_step big m arc b =
    (if b_type b = NEWLINE \<or> chr_at (Text b) 0 = CHR ''<'' \<or> Expression b \<noteq> None then Inr b
     else bindE (eval_blob big m arc (Text b)) (\<lambda>e. Inr (express e b)))"

definition other_step :: "byte_mode \<Rightarrow> blob \<Rightarrow> m1_error + blob" where
  "other_step m b =
    (if Expression b \<noteq> None then Inr b
     else if in_set (chr_at (Text b) 0) ''!@$~%&:^'' then Inr (express (Some (Text b)) b)
     else if chr_at (Text b) 0 = CHR ''<''
     then bindE (pad_nulls m (strtoint (drop 1 (Text b))) (Text b)) (\<lambda>e. Inr (express (Some e) b))
     else Inr b)"

lemma bindE_assoc: "bindE (bindE r f) g = bindE r (\<lambda>x. bindE (f x) g)"
  by (cases r) simp_all

lemma process_string_pass: "process_string arc m as bs = pass (string_step arc m) as bs"
  by (induction as arbitrary: bs)
    (auto simp: string_step_def set_expression_def express_def Let_def bindE_assoc)

lemma eval_immediates_pass: "eval_immediates big m arc as bs = pass (eval_step big m arc) as bs"
  by (induction as arbitrary: bs)
    (auto simp: eval_step_def set_expression_def express_def Let_def bindE_assoc split: option.splits
      intro!: arg_cong [where f = "bindE _"] ext)

lemma preserve_other_pass: "preserve_other m as bs = pass (other_step m) as bs"
  by (induction as arbitrary: bs)
    (auto simp: other_step_def set_expression_def express_def Let_def bindE_assoc)

lemma pass_blobs:
  "pass step as bs = Inr bs' \<Longrightarrow> distinct as \<Longrightarrow> set as \<subseteq> {..<length bs} \<Longrightarrow>
   length bs' = length bs \<and>
   (\<forall>a < length bs. if a \<in> set as then step (bs ! a) = Inr (bs' ! a) else bs' ! a = bs ! a)"
proof (induction as arbitrary: bs)
  case (Cons a as)
  then obtain b where b: "step (bs ! a) = Inr b" "pass step as (bs[a := b]) = Inr bs'" by auto
  have IH: "length bs' = length bs" "\<And>i. i < length bs \<Longrightarrow>
      if i \<in> set as then step (bs[a := b] ! i) = Inr (bs' ! i) else bs' ! i = bs[a := b] ! i"
    using Cons.IH [OF b(2)] Cons.prems by auto
  have "if i \<in> set (a # as) then step (bs ! i) = Inr (bs' ! i) else bs' ! i = bs ! i" if "i < length bs" for i
    using IH(2) [OF that] Cons.prems(2) b(1) that by (cases "i = a") auto
  with IH(1) show ?case by blast
qed simp

text \<open>No pass changes a text or a type.\<close>

lemma express_simps [simp]: "b_type (express e b) = b_type b" "Text (express e b) = Text b"
  by (simp_all add: express_def split: option.splits)

lemma string_step_kind: "string_step arc m b = Inr b' \<Longrightarrow> b_type b' = b_type b \<and> Text b' = Text b"
  by (auto simp: string_step_def split: if_splits)

lemma eval_step_kind: "eval_step big m arc b = Inr b' \<Longrightarrow> b_type b' = b_type b \<and> Text b' = Text b"
  by (auto simp: eval_step_def split: if_splits)

lemma other_step_kind: "other_step m b = Inr b' \<Longrightarrow> b_type b' = b_type b \<and> Text b' = Text b"
  by (auto simp: other_step_def split: if_splits)

lemma nth_update_kind:
  "b_type b = b_type (bs ! a) \<and> Text b = Text (bs ! a) \<Longrightarrow>
   b_type (bs[a := b] ! i) = b_type (bs ! i) \<and> Text (bs[a := b] ! i) = Text (bs ! i)"
  by (cases "i = a"; cases "a < length bs") (simp_all add: list_update_beyond not_less)

lemma pass_kind:
  assumes "\<And>b b'. step b = Inr b' \<Longrightarrow> b_type b' = b_type b \<and> Text b' = Text b"
  shows "pass step as bs = Inr bs' \<Longrightarrow> length bs' = length bs \<and>
    (\<forall>i. b_type (bs' ! i) = b_type (bs ! i) \<and> Text (bs' ! i) = Text (bs ! i))"
proof (induction as arbitrary: bs)
  case (Cons a as)
  then obtain b where b: "step (bs ! a) = Inr b" "pass step as (bs[a := b]) = Inr bs'" by auto
  from Cons.IH [OF b(2)] nth_update_kind [OF assms [OF b(1)]] show ?case by simp
qed simp

lemma pass_kinds:
  "process_string arc m as bs = Inr bs' \<Longrightarrow> length bs' = length bs \<and> (\<forall>i. b_type (bs' ! i) = b_type (bs ! i) \<and> Text (bs' ! i) = Text (bs ! i))"
  "eval_immediates big m arc as bs = Inr bs' \<Longrightarrow> length bs' = length bs \<and> (\<forall>i. b_type (bs' ! i) = b_type (bs ! i) \<and> Text (bs' ! i) = Text (bs ! i))"
  "preserve_other m as bs = Inr bs' \<Longrightarrow> length bs' = length bs \<and> (\<forall>i. b_type (bs' ! i) = b_type (bs ! i) \<and> Text (bs' ! i) = Text (bs ! i))"
  unfolding process_string_pass eval_immediates_pass preserve_other_pass
  by (rule pass_kind, erule string_step_kind eval_step_kind other_step_kind, assumption)+

section \<open>No null dereference\<close>

abbreviation safe :: "m1_error + 'a \<Rightarrow> bool" where
  "safe r \<equiv> r \<noteq> Inl Null_Dereference"

lemma map_sum_Inl: "map_sum id f r = Inl e \<longleftrightarrow> r = Inl e"
  by (cases r) simp_all

lemma requireE_Inl: "requireE b e = Inl e' \<longleftrightarrow> \<not> b \<and> e = e'"
  by (simp add: requireE_def)

lemmas safety = bindE_Inl_iff map_sum_Inl requireE_Inl Let_def

lemma table_all_safe: "safe (table_all is)"
  by (induction "is") (auto simp: table_at_def safety)

lemma hexify_loop_safe: "safe (hexify_loop m t)"
  by (induction t) (simp_all add: hexify_char_def table_all_safe safety)

lemma hexify_string_safe: "safe (hexify_string arc m t)"
  by (simp add: hexify_string_def hexify_loop_safe safety)

lemma express_safe: "safe (express_number big m v c)" "safe (express_word big m v c)"
  by (simp_all add: express_number_def express_word_def M1.range_check_def bound_values_def safety split: option.splits)

lemma eval_blob_safe: "safe (eval_blob big m arc t)"
  by (simp add: eval_blob_def express_safe safety)

lemma pad_nulls_safe: "safe (pad_nulls m n t)"
  by (simp add: pad_nulls_def safety)

lemma steps_safe: "safe (string_step arc m b)" "safe (eval_step big m arc b)" "safe (other_step m b)"
  by (simp_all add: string_step_def eval_step_def other_step_def hexify_string_safe eval_blob_safe pad_nulls_safe safety)

lemma pass_safe: "(\<And>b. safe (step b)) \<Longrightarrow> safe (pass step as bs)"
  by (induction as arbitrary: bs) (simp_all add: safety)

lemma line_macro_safe: "safe (line_macro ts bs)"
  by (induction ts bs rule: line_macro.induct) (simp_all add: safety split: list.splits)

lemma atom_loop_safe: "safe (atom_loop i ch src)"
proof (induction src arbitrary: i ch)
  case Nil
  show ?case by (subst atom_loop.simps) simp
next
  case (Cons c src)
  then show ?case by (subst atom_loop.simps) (simp add: safety split: prod.splits)
qed

lemma string_loop_safe: "safe (string_loop i c ch src l)"
proof (induction src arbitrary: i ch l)
  case Nil
  show ?case by (subst string_loop.simps) (simp add: Let_def)
next
  case (Cons d src)
  then show ?case by (subst string_loop.simps) (simp add: safety split: prod.splits)
qed

lemma store_safe: "safe (store_atom head c file src s)" "safe (store_string c src s)"
  by (simp_all add: store_atom_def store_string_def atom_loop_safe string_loop_safe safety split: prod.splits)

lemma tokenize_loop_safe: "safe (tokenize_loop file src hs)"
proof (induction "length src" arbitrary: src hs rule: less_induct)
  case less
  show ?case
  proof (cases src)
    case (Cons c r)
    have 1: "safe (tokenize_loop file r hs)" "safe (tokenize_loop file (purge_lineComment r) hs)" for hs
      using less Cons purge_lineComment_le [of r] by simp_all
    have 2: "safe (tokenize_loop file r' hs)" if "store_string c r s = Inr (r', p)" for r' p s hs
      using less [of r'] Cons store_string_le [OF that] by simp
    have 3: "safe (tokenize_loop file r' hs)" if "store_atom head c file r s = Inr (r', p)" for r' p s head hs
      using less [of r'] Cons store_atom_le [OF that] by simp
    show ?thesis
      by (subst tokenize_loop.simps) (simp add: Cons bindE_Inl_iff store_safe 1 2 3 split: prod.splits)
  qed (simp add: tokenize_loop.simps)
qed

lemma Tokenize_Line_safe: "safe (Tokenize_Line file src s)"
  by (simp add: Tokenize_Line_def bindE_Inl_iff tokenize_loop_safe split: prod.splits)

lemma m1_options_safe: "safe (m1_options files args s)"
proof (induction args arbitrary: s rule: named_files.induct)
  case (2 a rest)
  consider (f) "a = ''-f'' \<or> a = ''--file''" | (v) "a \<in> {''-A'', ''--architecture'', ''-o'', ''--output''}"
    | (other) "a \<noteq> ''-f''" "a \<noteq> ''--file''" "a \<notin> {''-A'', ''--architecture'', ''-o'', ''--output''}" by blast
  then show ?case
  proof cases
    case f
    have "safe (m1_options files rest' s)" if "rest = v # rest'" for v rest' s by (rule "2.IH"(1) [OF f that])
    then show ?thesis
      using f by (elim disjE; cases rest; simp add: bindE_Inl_iff Tokenize_Line_safe split: option.splits)
  next
    case v
    then have nf: "\<not> (a = ''-f'' \<or> a = ''--file'')" by auto
    show ?thesis
    proof (cases rest)
      case Nil
      then show ?thesis using v by (elim insertE emptyE; simp)
    next
      case (Cons w rest')
      have "safe (m1_options files rest' s)" for s by (rule "2.IH"(2) [OF nf v Cons])
      then show ?thesis using v by (elim insertE emptyE; simp add: Cons split: option.splits)
    qed
  next
    case other
    then show ?thesis using "2.IH"(3) [OF _ other(3)] by simp
  qed
qed simp

section \<open>The last token is a newline\<close>

definition newline_ok :: "blob list \<Rightarrow> bool" where
  "newline_ok bs \<longleftrightarrow> newline_blob < length bs \<and> b_type (bs ! newline_blob) = NEWLINE"

abbreviation is_newline :: "blob list \<Rightarrow> Token \<Rightarrow> bool" where
  "is_newline bs t \<equiv> b_type (bs ! contents t) = NEWLINE"

lemma append_newline_ends:
  assumes "newline_ok (blobs s)" "append_newline file (head, s) = (head', s')"
  shows "newline_ok (blobs s')" "head' = [] \<or> is_newline (blobs s') (hd head')"
  using assms by (auto simp: append_newline_def newline_ok_def the_blob_def newToken_def Let_def split: list.splits if_splits)

lemma NewBlob_newline: "newline_ok (blobs s) \<Longrightarrow> newline_ok (blobs (NewBlob n s))"
  by (simp add: newline_ok_def NewBlob_def AddHash_def Let_def nth_append)

lemma fill_scratch_blobs: "blobs (fill_scratch t s) = blobs s"
  by (simp add: fill_scratch_def Let_def)

lemma store_atom_newline:
  assumes "newline_ok (blobs s)" "store_atom head c file src s = Inr (r, head', s')"
  shows "newline_ok (blobs s')"
proof -
  obtain t e r' where a: "atom_loop 0 c src = Inr (t, e, r')"
    using assms(2) by (cases "atom_loop 0 c src") (auto simp: store_atom_def)
  define p where "p = (case FindBlob (fill_scratch t s) of Some a \<Rightarrow> (a, fill_scratch t s)
    | None \<Rightarrow> let s = NewBlob (length t) (fill_scratch t s) in (hd (blob_list s), s))"
  have p: "newline_ok (blobs (snd p))"
    using assms(1) NewBlob_newline by (auto simp: p_def Let_def fill_scratch_blobs split: option.splits)
  have "(head', s') = (if e = Some LF then append_newline file (newToken (fst p) file (linenumber s) # head, snd p)
      else (newToken (fst p) file (linenumber s) # head, snd p))"
    using assms(2) a
    by (cases "FindBlob (fill_scratch t s)"; auto simp: store_atom_def Let_def p_def split: if_splits prod.splits)
  then show ?thesis using append_newline_ends(1) [OF p] p by (auto split: if_splits dest: sym)
qed

lemma store_string_newline:
  assumes "newline_ok (blobs s)" "store_string c src s = Inr (r, a, s')"
  shows "newline_ok (blobs s')"
proof -
  obtain t r' l where l: "string_loop 0 c c src (linenumber s) = Inr (t, r', l)"
    using assms(2) by (cases "string_loop 0 c c src (linenumber s)") (auto simp: store_string_def)
  let ?s = "fill_scratch t (s\<lparr>linenumber := l\<rparr>)"
  show ?thesis
  proof (cases "FindBlob ?s")
    case None
    then have "s' = set_type (length (blobs s)) STRING (NewBlob (length t) ?s)"
      using assms(2) l by (auto simp: store_string_def Let_def NewBlob_def AddHash_def fill_scratch_blobs)
    then show ?thesis
      using assms(1) NewBlob_newline [of ?s "length t"]
      by (auto simp: newline_ok_def set_type_def fill_scratch_blobs nth_list_update)
  next
    case (Some b)
    then show ?thesis using assms l by (auto simp: store_string_def Let_def fill_scratch_blobs)
  qed
qed

lemma tokenize_loop_ends:
  "newline_ok (blobs (snd hs)) \<Longrightarrow> tokenize_loop file src hs = Inr (ts, s') \<Longrightarrow>
   newline_ok (blobs s') \<and> (ts = [] \<or> is_newline (blobs s') (hd ts))"
proof (induction "length src" arbitrary: src hs rule: less_induct)
  case less
  obtain head s where hs: "hs = (head, s)" by force
  obtain head1 s1 where app: "append_newline file (head, s) = (head1, s1)" by force
  have n: "newline_ok (blobs s)" using less.prems(1) by (simp add: hs)
  note nl = append_newline_ends [OF n app]
  show ?case
  proof (cases src)
    case Nil
    then show ?thesis using less.prems(2) nl app by (simp add: hs tokenize_loop.simps)
  next
    case (Cons c r)
    have l: "length r < length src" "length (purge_lineComment r) < length src"
      using purge_lineComment_le [of r] by (simp_all add: Cons)
    let ?IH = "\<lambda>r hs. tokenize_loop file r hs = Inr (ts, s')"
    have "?IH (purge_lineComment r) (head1, s1) \<or> ?IH r (head1, s1) \<or> ?IH r (head, s) \<or>
        (\<exists>r' a s2 h2. store_string c r s = Inr (r', a, s2) \<and> ?IH r' (h2, s2)) \<or>
        (\<exists>r' h2 s2. store_atom head c file r s = Inr (r', h2, s2) \<and> ?IH r' (h2, s2))"
      using less.prems(2) app by (subst (asm) tokenize_loop.simps) (auto simp: Cons hs split: if_splits prod.splits)
    then show ?thesis
    proof (elim disjE exE conjE)
      assume "?IH (purge_lineComment r) (head1, s1)"
      from less.hyps [OF l(2) _ this] nl(1) show ?thesis by simp
    next
      assume "?IH r (head1, s1)"
      from less.hyps [OF l(1) _ this] nl(1) show ?thesis by simp
    next
      assume "?IH r (head, s)"
      from less.hyps [OF l(1) _ this] n show ?thesis by simp
    next
      fix r' a s2 h2
      assume s: "store_string c r s = Inr (r', a, s2)" and r: "?IH r' (h2, s2)"
      from less.hyps [OF _ _ r] store_string_le [OF s] store_string_newline [OF n s] Cons show ?thesis by simp
    next
      fix r' h2 s2
      assume s: "store_atom head c file r s = Inr (r', h2, s2)" and r: "?IH r' (h2, s2)"
      from less.hyps [OF _ _ r] store_atom_le [OF s] store_atom_newline [OF n s] Cons show ?thesis by simp
    qed
  qed
qed

lemma Tokenize_Line_ends:
  assumes "newline_ok (blobs s)" "Tokenize_Line f src s = Inr s'"
  shows "newline_ok (blobs s')" "token_list s' = [] \<or> is_newline (blobs s') (hd (token_list s'))"
  using assms tokenize_loop_ends [of "(token_list s, s\<lparr>linenumber := 1\<rparr>)" f src] by (auto simp: Tokenize_Line_def)

definition ends_line :: "m1 \<Rightarrow> bool" where
  "ends_line s \<longleftrightarrow> newline_ok (blobs s) \<and> (token_list s = [] \<or> is_newline (blobs s) (hd (token_list s)))"

lemma m1_options_ends: "ends_line s \<Longrightarrow> m1_options files args s = Inr s' \<Longrightarrow> ends_line s'"
proof (induction args arbitrary: s rule: named_files.induct)
  case (2 a rest)
  have upd: "ends_line (s\<lparr>BigEndian := b\<rparr>)" "ends_line (s\<lparr>ByteMode := m\<rparr>)" "ends_line (s\<lparr>Architecture := arc\<rparr>)" for b m arc
    using "2.prems"(1) by (simp_all add: ends_line_def)
  consider (f) "a = ''-f'' \<or> a = ''--file''" | (v) "a \<in> {''-A'', ''--architecture'', ''-o'', ''--output''}"
    | (other) "a \<noteq> ''-f''" "a \<noteq> ''--file''" "a \<notin> {''-A'', ''--architecture'', ''-o'', ''--output''}" by blast
  then show ?case
  proof cases
    case f
    then obtain v rest' where r: "rest = v # rest'" using "2.prems"(2) by (cases rest) auto
    from f obtain src s1 where s1: "Tokenize_Line v src s = Inr s1" "m1_options files rest' s1 = Inr s'"
      using "2.prems"(2) r by (auto split: option.splits)
    have "ends_line s1" using Tokenize_Line_ends [OF _ s1(1)] "2.prems"(1) by (simp add: ends_line_def)
    from "2.IH"(1) [OF f r this s1(2)] show ?thesis .
  next
    case v
    then have nf: "\<not> (a = ''-f'' \<or> a = ''--file'')" by auto
    obtain w rest' where r: "rest = w # rest'" using v "2.prems"(2) by (cases rest) auto
    from v obtain s1 where "ends_line s1" "m1_options files rest' s1 = Inr s'"
      using "2.prems"(2) by (elim insertE emptyE; cases "m1_architecture w"; simp add: r; metis upd "2.prems"(1))
    from "2.IH"(2) [OF nf v r this] show ?thesis .
  next
    case other
    have "m1_options files rest (s\<lparr>BigEndian := True\<rparr>) = Inr s' \<or> m1_options files rest (s\<lparr>BigEndian := False\<rparr>) = Inr s' \<or>
        m1_options files rest (s\<lparr>ByteMode := BINARY\<rparr>) = Inr s' \<or> m1_options files rest (s\<lparr>ByteMode := OCTAL\<rparr>) = Inr s'"
      using "2.prems"(2) other by (simp split: if_split_asm)
    then obtain s1 where s1: "ends_line s1" "m1_options files rest s1 = Inr s'" using upd by metis
    from "2.IH"(3) [OF _ other(3) s1] other show ?thesis by simp
  qed
qed simp

lemma line_macro_kind:
  "line_macro ts bs = Inr (ts', bs') \<Longrightarrow> length bs' = length bs \<and>
   (\<forall>i. b_type (bs' ! i) = b_type (bs ! i) \<and> Text (bs' ! i) = Text (bs ! i))"
proof (induction ts bs arbitrary: ts' rule: line_macro.induct)
  case (2 t ts bs)
  have kind: "b_type (set_expression a e bs ! i) = b_type (bs ! i)" "Text (set_expression a e bs ! i) = Text (bs ! i)"
    "length (set_expression a e bs) = length bs" for a e i
    using nth_update_kind [of "(bs ! a)\<lparr>Expression := Some e\<rparr>" bs a i] by (simp_all add: set_expression_def)
  show ?case
  proof (cases "contents t = define_blob")
    case True
    then obtain n v r where ts: "ts = n # v # r" using "2.prems" by (auto split: list.splits)
    then obtain r' where "line_macro r (set_expression (contents n) (if b_type (bs ! contents v) = STRING
        then drop 1 (Text (bs ! contents v)) else Text (bs ! contents v)) bs) = Inr (r', bs')"
      using "2.prems" True by (auto simp: Let_def)
    from "2.IH"(1) [OF True ts refl refl refl this] show ?thesis by (simp add: kind)
  next
    case False
    from "2.prems" False show ?thesis by (auto dest: "2.IH"(2))
  qed
qed simp

lemma line_macro_Nil: "line_macro ts bs = Inr ([], bs') \<Longrightarrow> ts = []"
  by (cases ts) (auto simp: Let_def split: if_splits list.splits)

lemma line_macro_ends:
  "newline_ok bs \<Longrightarrow> line_macro ts bs = Inr (ts', bs') \<Longrightarrow> ts = [] \<or> is_newline bs (last ts) \<Longrightarrow>
   ts' = [] \<or> is_newline bs (last ts')"
proof (induction ts bs arbitrary: ts' rule: line_macro.induct)
  case (2 t ts bs)
  have kind: "b_type (set_expression a e bs ! i) = b_type (bs ! i)" "length (set_expression a e bs) = length bs" for a e i
    using nth_update_kind [of "(bs ! a)\<lparr>Expression := Some e\<rparr>" bs a i] by (simp_all add: set_expression_def)
  have nl: "is_newline bs (t\<lparr>contents := newline_blob\<rparr>)" using "2.prems"(1) by (simp add: newline_ok_def)
  show ?case
  proof (cases "contents t = define_blob")
    case True
    then obtain n v r where ts: "ts = n # v # r" using "2.prems" by (auto split: list.splits)
    define bs2 where "bs2 = set_expression (contents n) (if b_type (bs ! contents v) = STRING then drop 1 (Text (bs ! contents v)) else Text (bs ! contents v)) bs"
    obtain r' where r': "line_macro r bs2 = Inr (r', bs')" "ts' = t\<lparr>contents := newline_blob\<rparr> # r'"
      using "2.prems"(2) True by (auto simp: ts Let_def bs2_def)
    have "r' = [] \<or> is_newline bs2 (last r')"
      using "2.IH"(1) [OF True ts refl refl refl, folded bs2_def, OF _ r'(1)] "2.prems"(1,3)
      by (cases "r = []") (use r'(1) in \<open>auto simp: bs2_def kind newline_ok_def ts\<close>)
    then show ?thesis using nl r'(2) by (auto simp: bs2_def kind)
  next
    case False
    then obtain r' where r': "line_macro ts bs = Inr (r', bs')" "ts' = t # r'" using "2.prems"(2) by auto
    have "ts = [] \<longleftrightarrow> r' = []" using r'(1) line_macro_Nil by auto
    then show ?thesis
      using "2.IH"(2) [OF False "2.prems"(1) r'(1)] "2.prems"(3) r'(2) by (cases "ts = []") auto
  qed
qed simp

lemma print_hex_safe: "ts = [] \<or> is_newline bs (last ts) \<Longrightarrow> safe (print_hex bs ts)"
proof (induction ts)
  case (Cons t ts)
  then have "safe (print_hex bs ts)" by (cases ts) simp_all
  moreover have "is_newline bs t \<or> ts \<noteq> []" using Cons.prems by auto
  ultimately show ?case
    by (cases "is_newline bs t"; cases ts; cases "Expression (bs ! contents t)")
      (simp_all add: Let_def bindE_Inl_iff)
qed simp

lemma is_newline_kind: "\<forall>i. b_type (bs' ! i) = b_type (bs ! i) \<and> Text (bs' ! i) = Text (bs ! i) \<Longrightarrow> is_newline bs' t = is_newline bs t"
  by simp

lemma reverse_loop_rev: "M1.reverse_loop rest head = rev head @ rest"
  by (induction head arbitrary: rest) simp_all

lemma reverse_list_rev: "M1.reverse_list head = rev head"
  by (simp add: M1.reverse_list_def reverse_loop_rev)

lemma m1_finish_safe:
  assumes "ends_line s"
  shows "safe (m1_finish s)"
proof -
  have n: "newline_ok (blobs s)" "rev (token_list s) = [] \<or> is_newline (blobs s) (last (rev (token_list s)))"
    using assms by (auto simp: ends_line_def last_rev)
  have print: "safe (print_hex bs4 ts)"
    if l: "line_macro (rev (token_list s)) (blobs s) = Inr (ts, bs1)" and b: "process_string arc m as bs1 = Inr bs2"
      "eval_immediates big m arc as bs2 = Inr bs3" "preserve_other m as bs3 = Inr bs4"
    for ts bs1 bs2 bs3 bs4 arc m as big
  proof -
    have "b_type (bs4 ! i) = b_type (blobs s ! i)" for i
      using line_macro_kind [OF l] pass_kinds(1) [OF b(1)] pass_kinds(2) [OF b(2)] pass_kinds(3) [OF b(3)] by simp
    then show ?thesis using print_hex_safe [of ts bs4] line_macro_ends [OF n(1) l n(2)] by simp
  qed
  show ?thesis
    using line_macro_safe pass_safe [OF steps_safe(1)] pass_safe [OF steps_safe(2)] pass_safe [OF steps_safe(3)] print
    unfolding m1_finish_def
    by (auto simp: bindE_Inl_iff reverse_list_rev process_string_pass eval_immediates_pass preserve_other_pass
        split: prod.splits)
qed

text \<open>
  C25. The printer reads the token after every one it writes. It never reads past the last: whatever the
  options and the files, the run does not dereference a null pointer.
\<close>

theorem m1_never_dereferences_null: "m1_main files args \<noteq> Inl Null_Dereference"
proof -
  have "ends_line m1_init"
    by (simp add: ends_line_def newline_ok_def m1_init_def AddHash_def Let_def newline_blob_def)
  then show ?thesis
    using m1_options_safe m1_finish_safe m1_options_ends by (auto simp: m1_main_def bindE_Inl_iff)
qed

end
