(* ===== verification/M1Spec.thy ===== *)
theory M1Spec
  imports M1Output
begin

text \<open>
  The macro assembler as one function from the words of its files to its output: macros have their
  last value everywhere, a word is written as its value, a string in digits, an immediate in digits,
  and a line is written as its words with blanks between them. \<open>m1_output\<close> shows that the program
  computes this function.
\<close>

section \<open>The specification\<close>

text \<open>The words of a file in the order of the file. A definition is three words; a newline takes its place.\<close>

fun macro_list :: "string list \<Rightarrow> (string \<times> string) list" where
  "macro_list (w # n # v # ws) =
     (if w = ''DEFINE'' then (n, if v \<noteq> [] \<and> quote (hd v) then tl v else v) # macro_list ws
      else macro_list (n # v # ws))"
| "macro_list ws = []"

fun without_macros :: "string list \<Rightarrow> string list" where
  "without_macros (w # n # v # ws) =
     (if w = ''DEFINE'' then [LF] # without_macros ws else w # without_macros (n # v # ws))"
| "without_macros ws = ws"

text \<open>The last definition counts.\<close>

definition macros :: "string list \<Rightarrow> string \<Rightarrow> string option" where
  "macros ws = map_of (rev (macro_list ws))"

text \<open>The first characters of the words that stand for an address: they are written as they are.\<close>

definition marks :: "char set" where
  "marks = set ''!@$~%&:^''"

definition word_value ::
  "bool \<Rightarrow> byte_mode \<Rightarrow> architecture \<Rightarrow> (string \<Rightarrow> string option) \<Rightarrow> string \<Rightarrow> m1_error + string option" where
  "word_value big m arc mac w =
    (if w \<noteq> [] \<and> hd w = CHR 0x27 then Inr (Some (tl w))
     else if w \<noteq> [] \<and> hd w = CHR 0x22 then map_sum id Some (hexify_string arc m w)
     else (case mac w of
             Some v \<Rightarrow> Inr (Some v)
           | None \<Rightarrow>
               if w \<noteq> [] \<and> hd w = CHR ''<'' then map_sum id Some (pad_nulls m (strtoint (tl w)) w)
               else bindE (eval_blob big m arc w) (\<lambda>e. Inr (case e of
                      Some e \<Rightarrow> Some e
                    | None \<Rightarrow> if w \<noteq> [] \<and> hd w \<in> marks then Some w else None))))"

fun layout :: "(string \<Rightarrow> string) \<Rightarrow> string list \<Rightarrow> string" where
  "layout e [] = []"
| "layout e (w # ws) =
    (if w = [LF] then (if ws \<noteq> [] \<and> hd ws = [LF] then layout e ws else LF # layout e ws)
     else e w @ (if hd ws = [LF] then layout e ws else CHR '' '' # layout e ws))"

section \<open>Macros\<close>

text \<open>What every pass keeps of the blobs.\<close>

definition blobs_wf :: "blob list \<Rightarrow> bool" where
  "blobs_wf bs \<longleftrightarrow> distinct (map Text bs) \<and> newline_blob < length bs \<and> define_blob < length bs \<and>
     Text (bs ! newline_blob) = [LF] \<and> Text (bs ! define_blob) = ''DEFINE'' \<and>
     (\<forall>a < length bs. (b_type (bs ! a) = STRING \<longleftrightarrow> Text (bs ! a) \<noteq> [] \<and> quote (hd (Text (bs ! a)))) \<and>
        (b_type (bs ! a) = NEWLINE \<longleftrightarrow> a = newline_blob))"

abbreviation words :: "blob list \<Rightarrow> Token list \<Rightarrow> string list" where
  "words bs ts \<equiv> map (\<lambda>t. Text (bs ! contents t)) ts"

lemma blobs_wf_kind:
  assumes "blobs_wf bs" "length bs' = length bs" "\<forall>i. b_type (bs' ! i) = b_type (bs ! i) \<and> Text (bs' ! i) = Text (bs ! i)"
  shows "blobs_wf bs'"
proof -
  have "map Text bs' = map Text bs" by (rule nth_equalityI) (use assms(2,3) in simp_all)
  with assms show ?thesis by (simp add: blobs_wf_def)
qed

lemma blobs_wf_Text:
  assumes "blobs_wf bs" "a < length bs" "b < length bs"
  shows "Text (bs ! a) = Text (bs ! b) \<longleftrightarrow> a = b"
proof -
  have d: "distinct (map Text bs)" using assms(1) by (simp add: blobs_wf_def)
  show ?thesis using nth_eq_iff_index_eq [OF d, of a b] assms(2,3) by simp
qed

lemma blobs_wf_special:
  assumes "blobs_wf bs" "a < length bs"
  shows "Text (bs ! a) = ''DEFINE'' \<longleftrightarrow> a = define_blob" "Text (bs ! a) = [LF] \<longleftrightarrow> a = newline_blob"
  using blobs_wf_Text [OF assms, of define_blob] blobs_wf_Text [OF assms, of newline_blob] assms(1)
  by (auto simp: blobs_wf_def)

lemma set_expression_kind:
  "length (set_expression a e bs) = length bs"
  "b_type (set_expression a e bs ! i) = b_type (bs ! i)" "Text (set_expression a e bs ! i) = Text (bs ! i)"
  using nth_update_kind [of "(bs ! a)\<lparr>Expression := Some e\<rparr>" bs a i] by (simp_all add: set_expression_def)

lemma line_macro_words:
  "blobs_wf bs \<Longrightarrow> \<forall>t \<in> set ts. contents t < length bs \<Longrightarrow> line_macro ts bs = Inr (ts', bs') \<Longrightarrow>
   words bs ts' = without_macros (words bs ts) \<and> (\<forall>t \<in> set ts'. contents t < length bs) \<and>
   (\<forall>a < length bs. Expression (bs' ! a) =
      (case macros (words bs ts) (Text (bs ! a)) of None \<Rightarrow> Expression (bs ! a) | Some v \<Rightarrow> Some v))"
proof (induction ts bs arbitrary: ts' rule: line_macro.induct)
  case (1 bs)
  then show ?case by (simp add: macros_def)
next
  case (2 t ts bs)
  have d: "contents t = define_blob \<longleftrightarrow> Text (bs ! contents t) = ''DEFINE''"
    using blobs_wf_special(1) [OF "2.prems"(1), of "contents t"] "2.prems"(2) by simp
  show ?case
  proof (cases "contents t = define_blob")
    case True
    then obtain n v r where ts: "ts = n # v # r" using "2.prems" by (auto split: list.splits)
    define e where "e = (if b_type (bs ! contents v) = STRING then drop 1 (Text (bs ! contents v)) else Text (bs ! contents v))"
    define bs2 where "bs2 = set_expression (contents n) e bs"
    obtain r' where r': "line_macro r bs2 = Inr (r', bs')" "ts' = t\<lparr>contents := newline_blob\<rparr> # r'"
      using "2.prems"(3) True by (auto simp: ts Let_def bs2_def e_def)
    have k: "length bs2 = length bs" "\<And>i. b_type (bs2 ! i) = b_type (bs ! i)" "\<And>i. Text (bs2 ! i) = Text (bs ! i)"
      by (simp_all add: bs2_def set_expression_kind)
    have wf: "blobs_wf bs2" by (rule blobs_wf_kind [OF "2.prems"(1)]) (simp_all add: k)
    have v: "contents v < length bs" "contents n < length bs" using "2.prems"(2) ts by simp_all
    have e: "e = (if Text (bs ! contents v) \<noteq> [] \<and> quote (hd (Text (bs ! contents v))) then tl (Text (bs ! contents v))
        else Text (bs ! contents v))"
      using "2.prems"(1) v(1) by (simp add: e_def blobs_wf_def drop_Suc)
    note IH = "2.IH"(1) [OF True ts refl refl refl, folded e_def, folded bs2_def, OF wf _ r'(1), unfolded k]
    have x: "Expression (bs2 ! a) = (if a = contents n then Some e else Expression (bs ! a))" if "a < length bs" for a
      using that v(2) by (simp add: bs2_def set_expression_def nth_list_update)
    have w: "words bs (t # ts) = ''DEFINE'' # Text (bs ! contents n) # Text (bs ! contents v) # words bs r"
      using d True by (simp add: ts)
    have m: "macros (words bs (t # ts)) = (\<lambda>w. case macros (words bs r) w of None \<Rightarrow>
        (if w = Text (bs ! contents n) then Some e else None) | Some v \<Rightarrow> Some v)"
      by (simp only: w macros_def) (simp add: map_add_def e [symmetric] fun_eq_iff split: option.splits)
    have nl: "Text (bs ! newline_blob) = [LF]" "newline_blob < length bs"
      using "2.prems"(1) by (simp_all add: blobs_wf_def)
    have r: "\<forall>t \<in> set r. contents t < length bs" using "2.prems"(2) ts by simp
    have 1: "Expression (bs' ! a) = (case macros (words bs r) (Text (bs ! a)) of
        None \<Rightarrow> Expression (bs2 ! a) | Some v \<Rightarrow> Some v)" if "a < length bs" for a
      using IH r that by simp
    have 2: "Text (bs ! a) = Text (bs ! contents n) \<longleftrightarrow> a = contents n" if "a < length bs" for a
      using blobs_wf_Text [OF "2.prems"(1) that v(2)] .
    have "Expression (bs' ! a) = (case macros (words bs (t # ts)) (Text (bs ! a)) of None \<Rightarrow> Expression (bs ! a) | Some v \<Rightarrow> Some v)"
      if "a < length bs" for a
      unfolding m 1 [OF that] 2 [OF that] x [OF that] by (simp split: option.splits)
    moreover have "words bs ts' = without_macros (words bs (t # ts))"
      unfolding w using IH r nl by (simp add: r'(2))
    moreover have "\<forall>t \<in> set ts'. contents t < length bs" using IH r nl by (simp add: r'(2))
    ultimately show ?thesis by blast
  next
    case False
    then obtain r' where r': "line_macro ts bs = Inr (r', bs')" "ts' = t # r'" using "2.prems"(3) by auto
    have w: "without_macros (words bs (t # ts)) = Text (bs ! contents t) # without_macros (words bs ts)"
      "macros (words bs (t # ts)) = macros (words bs ts)"
      using d False by (cases ts; cases "tl ts"; auto simp: macros_def)+
    show ?thesis using "2.IH"(2) [OF False "2.prems"(1) _ r'(1)] "2.prems"(2) r'(2) w by simp
  qed
qed

section \<open>Values\<close>

text \<open>The three passes give a blob that is no newline its value.\<close>

lemma express_Expression [simp]: "Expression (express e b) = (case e of None \<Rightarrow> Expression b | Some e \<Rightarrow> Some e)"
  by (simp add: express_def split: option.splits)

lemma steps_done: "Expression b = Some e \<Longrightarrow> eval_step big m arc b = Inr b" "Expression b = Some e \<Longrightarrow> other_step m b = Inr b"
  by (simp_all add: eval_step_def other_step_def)

lemma steps_value:
  assumes "string_step arc m b1 = Inr b2" "eval_step big m arc b2 = Inr b3" "other_step m b3 = Inr b4"
    "b_type b1 \<noteq> NEWLINE" "b_type b1 = STRING \<longleftrightarrow> Text b1 \<noteq> [] \<and> quote (hd (Text b1))" "Expression b1 = mac (Text b1)"
  shows "word_value big m arc mac (Text b1) = Inr (Expression b4)"
proof -
  have c: "chr_at t 0 = (if t = [] then NUL else hd t)" for t by (cases t) simp_all
  have n: "in_set (chr_at t 0) ''!@$~%&:^'' \<longleftrightarrow> t \<noteq> [] \<and> hd t \<in> marks" for t
    by (cases t) (simp_all add: in_set_iff marks_def)
  show ?thesis
  proof (cases "b_type b1 = STRING")
    case True
    then have q: "Text b1 \<noteq> []" "quote (hd (Text b1))" using assms(5) by simp_all
    show ?thesis
    proof (cases "hd (Text b1) = CHR 0x27")
      case True
      then have "b2 = express (Some (tl (Text b1))) b1" using \<open>b_type b1 = STRING\<close> assms(1) q by (simp add: string_step_def c drop_Suc)
      then have "Expression b2 = Some (tl (Text b1))" by simp
      then show ?thesis using True q assms(2,3) steps_done by (auto simp: word_value_def)
    next
      case False
      then obtain e where e: "hexify_string arc m (Text b1) = Inr e" "b2 = express (Some e) b1"
        using \<open>b_type b1 = STRING\<close> assms(1) q by (auto simp: string_step_def c)
      then have "Expression b2 = Some e" by simp
      then show ?thesis using False q assms(2,3) steps_done e(1) by (auto simp: word_value_def)
    qed
  next
    case False
    then have q: "\<not> (Text b1 \<noteq> [] \<and> quote (hd (Text b1)))" using assms(5) by simp
    have b2: "b2 = b1" using assms(1) False by (simp add: string_step_def)
    show ?thesis
    proof (cases "Expression b1")
      case (Some v)
      then show ?thesis using b2 q assms(2,3,6) steps_done by (auto simp: word_value_def)
    next
      case None
      show ?thesis
      proof (cases "Text b1 \<noteq> [] \<and> hd (Text b1) = CHR ''<''")
        case True
        then have b3: "b3 = b1" using b2 assms(2) by (simp add: eval_step_def c)
        obtain e where "pad_nulls m (strtoint (tl (Text b1))) (Text b1) = Inr e" "b4 = express (Some e) b1"
          using True b3 assms(3) None by (auto simp: other_step_def in_set_iff c drop_Suc)
        then show ?thesis using True q assms(6) None by (auto simp: word_value_def)
      next
        case F: False
        then have l: "chr_at (Text b1) 0 \<noteq> CHR ''<''" by (cases "Text b1") simp_all
        obtain e where e: "eval_blob big m arc (Text b1) = Inr e" "b3 = express e b1"
          using b2 assms(2,4) None l that by (simp add: eval_step_def) blast
        have q': "(Text b1 \<noteq> [] \<and> hd (Text b1) = CHR 0x27) = False" "(Text b1 \<noteq> [] \<and> hd (Text b1) = CHR 0x22) = False"
            "(Text b1 \<noteq> [] \<and> hd (Text b1) = CHR ''<'') = False" "mac (Text b1) = None"
          using q F assms(6) None by auto
        have wv: "word_value big m arc mac (Text b1) = Inr (case e of Some e \<Rightarrow> Some e
            | None \<Rightarrow> if Text b1 \<noteq> [] \<and> hd (Text b1) \<in> marks then Some (Text b1) else None)"
          unfolding word_value_def q' e(1) by simp
        show ?thesis
        proof (cases e)
          case (Some v)
          then have "Expression b3 = Some v" by (simp add: e(2))
          then have "b4 = b3" using assms(3) steps_done(2) by simp
          with \<open>Expression b3 = Some v\<close> show ?thesis by (simp add: wv Some)
        next
          case x: None
          then have "b4 = (if Text b1 \<noteq> [] \<and> hd (Text b1) \<in> marks then express (Some (Text b1)) b1 else b1)"
            using assms(3) e(2) l None by (auto simp: other_step_def n express_def split: if_split_asm)
          then show ?thesis by (simp add: wv x None)
        qed
      qed
    qed
  qed
qed

lemma print_hex_layout:
  assumes "\<And>t. t \<in> set ts \<Longrightarrow> b_type (bs ! contents t) = NEWLINE \<longleftrightarrow> Text (bs ! contents t) = [LF]"
    "\<And>t v. t \<in> set ts \<Longrightarrow> Expression (bs ! contents t) = Some v \<Longrightarrow> Text (bs ! contents t) \<noteq> [LF] \<Longrightarrow> e (Text (bs ! contents t)) = v"
  shows "print_hex bs ts = Inr out \<Longrightarrow> out = layout e (words bs ts) \<and>
    (\<forall>t \<in> set ts. Text (bs ! contents t) = [LF] \<or> Expression (bs ! contents t) \<noteq> None)"
  using assms
proof (induction ts arbitrary: out)
  case (Cons t ts)
  have ts: "ts \<noteq> [] \<Longrightarrow> b_type (bs ! contents (hd ts)) = NEWLINE \<longleftrightarrow> Text (bs ! contents (hd ts)) = [LF]"
    using Cons.prems(2) by simp
  show ?case
  proof (cases "b_type (bs ! contents t) = NEWLINE")
    case True
    then obtain r where r: "print_hex bs ts = Inr r" using Cons.prems(1) by auto
    have IH: "r = layout e (words bs ts)" "\<forall>t \<in> set ts. Text (bs ! contents t) = [LF] \<or> Expression (bs ! contents t) \<noteq> None"
      using Cons.IH [OF r] Cons.prems(2,3) by auto
    show ?thesis using Cons.prems(1) Cons.prems(2) [of t] True r IH ts by (cases ts) auto
  next
    case False
    then obtain v where v: "Expression (bs ! contents t) = Some v"
      using Cons.prems(1) by (cases "Expression (bs ! contents t)") auto
    then obtain u us where u: "ts = u # us" using Cons.prems(1) False by (cases ts) auto
    then obtain r where r: "print_hex bs ts = Inr r" using Cons.prems(1) False v by auto
    have IH: "r = layout e (words bs ts)" "\<forall>t \<in> set ts. Text (bs ! contents t) = [LF] \<or> Expression (bs ! contents t) \<noteq> None"
      using Cons.IH [OF r] Cons.prems(2,3) by auto
    have "e (Text (bs ! contents t)) = v" using Cons.prems(2) [of t] Cons.prems(3) [of t v] v False by simp
    then show ?thesis using Cons.prems(1) Cons.prems(2) [of t] False v r IH ts u by auto
  qed
qed simp

section \<open>The whole program\<close>

text \<open>
  C23. What the macro assembler writes, for every run that succeeds on files without NUL: the words of the files, laid out in lines,
  each written as its value. A macro has the last value any definition gives it, before and after
  that definition; strings, immediates and padding are written in digits, and labels and pointers as they are.
\<close>

theorem m1_output:
  assumes "\<forall>f src. files f = Some src \<longrightarrow> NUL \<notin> set src"
    "m1_options files args m1_init = Inr s" "m1_finish s = Inr out"
  defines "ws \<equiv> rev (foldl lex [] (map (the \<circ> files) (named_files args)))"
  defines "val \<equiv> word_value (BigEndian s) (ByteMode s) (Architecture s) (macros ws)"
  shows "out = layout (\<lambda>w. the (projr (val w))) (without_macros ws) \<and>
    (\<forall>w \<in> set (without_macros ws). w = [LF] \<or> (\<exists>v. val w = Inr (Some v)))"
proof -
  have good: "m1_good s" and wos: "words_of s = foldl lex [] (map (the \<circ> files) (named_files args))"
    using m1_options_words [OF assms(1) m1_init_good assms(2)] by (simp_all add: texts_def m1_init_def AddHash_def Let_def)
  let ?bs = "blobs s" and ?ts = "rev (token_list s)" and ?all = "rev [0..<length (blobs s)]"
  have wf: "blobs_wf ?bs" and bl: "blob_list s = ?all"
    using good by (auto simp: m1_good_def m1_inv_def blobs_ok_def blobs_wf_def typed_def)
  have ws: "ws = words ?bs ?ts" by (simp add: ws_def wos [symmetric] texts_def rev_map)
  have inr: "\<forall>t \<in> set ?ts. contents t < length ?bs" using good by (simp add: m1_good_def tokens_ok_def)
  obtain ts bs1 bs2 bs3 bs4 where p: "line_macro ?ts ?bs = Inr (ts, bs1)"
      "process_string (Architecture s) (ByteMode s) ?all bs1 = Inr bs2"
      "eval_immediates (BigEndian s) (ByteMode s) (Architecture s) ?all bs2 = Inr bs3"
      "preserve_other (ByteMode s) ?all bs3 = Inr bs4" "print_hex bs4 ts = Inr out"
    using assms(3) by (auto simp: m1_finish_def reverse_list_rev bl split: if_splits)
  note lm = line_macro_words [OF wf inr p(1)]
  note k1 = line_macro_kind [OF p(1)] and k2 = pass_kinds(1) [OF p(2)] and k3 = pass_kinds(2) [OF p(3)] and k4 = pass_kinds(3) [OF p(4)]
  have Text4: "Text (bs4 ! a) = Text (?bs ! a)" "b_type (bs4 ! a) = b_type (?bs ! a)" for a using k1 k2 k3 k4 by simp_all
  have vals: "val (Text (?bs ! a)) = Inr (Expression (bs4 ! a))" if a: "a < length ?bs" "a \<noteq> newline_blob" for a
  proof -
    have "string_step (Architecture s) (ByteMode s) (bs1 ! a) = Inr (bs2 ! a)"
        "eval_step (BigEndian s) (ByteMode s) (Architecture s) (bs2 ! a) = Inr (bs3 ! a)"
        "other_step (ByteMode s) (bs3 ! a) = Inr (bs4 ! a)"
      using pass_blobs [OF p(2) [unfolded process_string_pass]] pass_blobs [OF p(3) [unfolded eval_immediates_pass]]
        pass_blobs [OF p(4) [unfolded preserve_other_pass]] k1 k2 k3 a(1)
      by (auto simp: atLeast0LessThan)
    note st = steps_value [OF this, of "macros ws"]
    have "Expression (?bs ! a) = None" "b_type (?bs ! a) \<noteq> NEWLINE"
      using good a by (auto simp: m1_good_def typed_def m1_inv_def blobs_ok_def)
    then have "Expression (bs1 ! a) = macros ws (Text (?bs ! a))"
      using lm a(1) by (simp add: ws split: option.splits)
    with st \<open>b_type (?bs ! a) \<noteq> NEWLINE\<close> show ?thesis
      using k1 wf a(1) by (simp add: val_def blobs_wf_def)
  qed
  have newline: "b_type (?bs ! contents t) = NEWLINE \<longleftrightarrow> Text (?bs ! contents t) = [LF]"
    "Text (?bs ! contents t) = [LF] \<longleftrightarrow> contents t = newline_blob" if "t \<in> set ts" for t
    using blobs_wf_special(2) [OF wf, of "contents t"] wf lm that by (simp_all add: blobs_wf_def)
  have "out = layout (\<lambda>w. the (projr (val w))) (words bs4 ts) \<and>
      (\<forall>t \<in> set ts. Text (bs4 ! contents t) = [LF] \<or> Expression (bs4 ! contents t) \<noteq> None)"
    using lm newline vals by (intro print_hex_layout [OF _ _ p(5)]) (simp_all add: Text4)
  then have out: "out = layout (\<lambda>w. the (projr (val w))) (without_macros ws)"
    and some: "\<forall>t \<in> set ts. Text (?bs ! contents t) = [LF] \<or> Expression (bs4 ! contents t) \<noteq> None"
    using lm by (simp_all add: Text4 ws)
  have "w = [LF] \<or> (\<exists>v. val w = Inr (Some v))" if w: "w \<in> set (without_macros ws)" for w
  proof -
    have "set (without_macros ws) = (\<lambda>t. Text (?bs ! contents t)) ` set ts" using lm ws by (metis list.set_map)
    then obtain t where t: "t \<in> set ts" "w = Text (?bs ! contents t)" using w by blast
    show ?thesis
    proof (cases "w = [LF]")
      case False
      then have "contents t \<noteq> newline_blob" "contents t < length ?bs" using newline(2) [OF t(1)] t lm by auto
      with vals [of "contents t"] some t False show ?thesis by auto
    qed simp
  qed
  with out show ?thesis by blast
qed

definition m1_small :: "string \<Rightarrow> string option" where
  "m1_small f = (if f = ''a'' then Some (''a :b'' @ [LF] @ ''DEFINE a 1'') else None)"

definition m1_small_state :: m1 where
  "m1_small_state = projr (m1_options m1_small [''-A'', ''x86'', ''-f'', ''a''] m1_init)"

text \<open>A macro that is used before it is defined.\<close>

theorem m1_output_witness:
  "layout (\<lambda>w. the (projr (word_value (BigEndian m1_small_state) (ByteMode m1_small_state) (Architecture m1_small_state)
      (macros (rev (foldl lex [] (map (the \<circ> m1_small) (named_files [''-A'', ''x86'', ''-f'', ''a'']))))) w)))
    (without_macros (rev (foldl lex [] (map (the \<circ> m1_small) (named_files [''-A'', ''x86'', ''-f'', ''a''])))))
   = ''1 :b'' @ [LF]"
proof -
  have f: "\<forall>f src. m1_small f = Some src \<longrightarrow> NUL \<notin> set src" by (simp add: m1_small_def)
  have "isl (m1_options m1_small [''-A'', ''x86'', ''-f'', ''a''] m1_init) = False" by code_simp
  then have s: "m1_options m1_small [''-A'', ''x86'', ''-f'', ''a''] m1_init = Inr m1_small_state"
    by (simp add: m1_small_state_def)
  have o: "m1_finish m1_small_state = Inr (''1 :b'' @ [LF])" by code_simp
  show ?thesis using m1_output [OF f s o] by (rule conjunct1 [THEN sym])
qed

end
