(* ===== verification/M1Bytes.thy ===== *)
theory M1Bytes
  imports M1Spec Hex2Correct
begin

text \<open>
  From the macro assembler to the linker: the text the one writes is read by the other as bytes.
  What \<open>express_number\<close> and \<open>hexify_string\<close> write in hexadecimal, the second pass of \<^verbatim>\<open>hex2\<close> puts
  into its output as the bytes of the number and of the string.
\<close>

section \<open>Bytes in hexadecimal\<close>

definition hex_pair :: "nat \<Rightarrow> string" where
  "hex_pair b = [digit_char (b div 16), digit_char (b mod 16)]"

text \<open>A text that spells bytes: two digits for each, with blanks between them.\<close>

inductive hex_spells :: "string \<Rightarrow> u8 list \<Rightarrow> bool" where
  nil: "hex_spells [] []"
| blank: "hex_spells t bs \<Longrightarrow> hex_spells (CHR '' '' # t) bs"
| byte: "b < 256 \<Longrightarrow> hex_spells t bs \<Longrightarrow> hex_spells (hex_pair b @ t) (word_of_nat b # bs)"

lemma hex_spells_append: "hex_spells t bs \<Longrightarrow> hex_spells t' bs' \<Longrightarrow> hex_spells (t @ t') (bs @ bs')"
  by (induction rule: hex_spells.induct) (auto intro: hex_spells.intros)

lemma hex_spells_pairs: "\<forall>b \<in> set bs. b < 256 \<Longrightarrow> hex_spells (concat (map hex_pair bs)) (map word_of_nat bs)"
  by (induction bs) (auto intro: hex_spells.intros)

section \<open>The linker reads them\<close>

lemma second_step_digit:
  assumes "d < 16" "Hex2.ByteMode s = Hex2.HEX"
  shows "second_step (digit_char d) src s =
    Inr (src, if toggle s \<noteq> 0 then (emit_byte True (hold s * 16 + word_of_nat d) s)\<lparr>toggle := 0\<rparr>
              else s\<lparr>hold := word_of_nat d, toggle := 1\<rparr>)"
proof -
  have "\<forall>d \<in> set [0..<16]. second_step (digit_char d) src s =
      Inr (src, if toggle s \<noteq> 0 then (emit_byte True (hold s * 16 + word_of_nat d) s)\<lparr>toggle := 0\<rparr>
              else s\<lparr>hold := word_of_nat d, toggle := 1\<rparr>)"
    using assms(2)
    by (simp add: upt_rec digit_char_def second_step_def process_byte_def hex_def in_set_iff in_set_eof_def c_char_def)
  with assms(1) show ?thesis by simp
qed

lemma second_step_blank: "Hex2.ByteMode s = Hex2.HEX \<Longrightarrow> second_step (CHR '' '') src s = Inr (src, s)"
  by (simp add: second_step_def process_byte_def hex_def not_digit_def in_set_iff in_set_eof_def)

lemma hex_spells_written:
  "hex_spells t bs \<Longrightarrow> Hex2.ByteMode s = Hex2.HEX \<Longrightarrow> toggle s = 0 \<Longrightarrow>
   \<exists>s'. second_loop t s = Inr s' \<and> out_file s' = out_file s @ bs \<and> ip s' = ip s + word_of_nat (length bs) \<and> toggle s' = 0"
proof (induction arbitrary: s rule: hex_spells.induct)
  case nil
  then show ?case by simp
next
  case (blank t bs)
  then show ?case by (simp add: second_step_blank)
next
  case (byte b t bs)
  have b: "b div 16 < 16" "b mod 16 < 16" using byte.hyps(1) by (simp_all add: less_mult_imp_div_less)
  let ?s = "(emit_byte True (word_of_nat (b div 16) * 16 + word_of_nat (b mod 16)) (s\<lparr>hold := word_of_nat (b div 16), toggle := 1\<rparr>))\<lparr>toggle := 0\<rparr>"
  have "second_loop (hex_pair b @ t) s = second_loop t ?s"
    using byte.prems by (simp add: hex_pair_def second_step_digit b)
  moreover have "word_of_nat (b div 16) * 16 + word_of_nat (b mod 16) = (word_of_nat b :: u32)"
    by (metis div_mult_mod_eq of_nat_add of_nat_mult of_nat_numeral)
  moreover have "(ucast (word_of_nat b :: u32) :: u8) = word_of_nat b"
    using byte.hyps(1) by (simp add: unsigned_of_nat take_bit_nat_eq_self)
  ultimately show ?case
    using byte.IH [of ?s] byte.prems by (auto simp: emit_byte_def fputc_def Let_def)
qed

text \<open>The word mode of the linker, for RISC-V, reads them too, when no immediate waits for its word.\<close>

lemma WordSecond_step_digit:
  assumes "d < 16" "Hex2.ByteMode s = Hex2.HEX"
  shows "WordSecond_step (digit_char d) src s =
    Inr (src, if toggle s \<noteq> 0 then (do_byte True False (hold s * 16 + word_of_nat d) s)\<lparr>toggle := 0\<rparr>
              else s\<lparr>hold := word_of_nat d, toggle := 1\<rparr>)"
proof -
  have "\<forall>d \<in> set [0..<16]. WordSecond_step (digit_char d) src s =
      Inr (src, if toggle s \<noteq> 0 then (do_byte True False (hold s * 16 + word_of_nat d) s)\<lparr>toggle := 0\<rparr>
              else s\<lparr>hold := word_of_nat d, toggle := 1\<rparr>)"
    using assms(2)
    by (simp add: upt_rec digit_char_def WordSecond_step_def DoByte_def hex_def in_set_iff in_set_eof_def c_char_def)
  with assms(1) show ?thesis by simp
qed

lemma WordSecond_step_blank: "Hex2.ByteMode s = Hex2.HEX \<Longrightarrow> WordSecond_step (CHR '' '') src s = Inr (src, s)"
  by (simp add: WordSecond_step_def DoByte_def hex_def not_digit_def in_set_iff in_set_eof_def)

lemma hex_spells_written_word:
  "hex_spells t bs \<Longrightarrow> Hex2.ByteMode s = Hex2.HEX \<Longrightarrow> toggle s = 0 \<Longrightarrow> shiftregister s = 0 \<Longrightarrow>
   \<exists>s'. WordSecond_loop t s = Inr s' \<and> out_file s' = out_file s @ bs"
proof (induction arbitrary: s rule: hex_spells.induct)
  case nil
  then show ?case by simp
next
  case (blank t bs)
  then show ?case by (simp add: WordSecond_step_blank)
next
  case (byte b t bs)
  have b: "b div 16 < 16" "b mod 16 < 16" using byte.hyps(1) by (simp_all add: less_mult_imp_div_less)
  let ?s = "(do_byte True False (word_of_nat (b div 16) * 16 + word_of_nat (b mod 16)) (s\<lparr>hold := word_of_nat (b div 16), toggle := 1\<rparr>))\<lparr>toggle := 0\<rparr>"
  have "WordSecond_loop (hex_pair b @ t) s = WordSecond_loop t ?s"
    using byte.prems by (simp add: hex_pair_def WordSecond_step_digit b)
  moreover have "word_of_nat (b div 16) * 16 + word_of_nat (b mod 16) = (word_of_nat b :: u32)"
    by (metis div_mult_mod_eq of_nat_add of_nat_mult of_nat_numeral)
  moreover have "(ucast (word_of_nat b :: u32) :: u8) = word_of_nat b"
    using byte.hyps(1) by (simp add: unsigned_of_nat take_bit_nat_eq_self)
  ultimately show ?case
    using byte.IH [of ?s] byte.prems by (auto simp: do_byte_def sr_nextb_def fputc_def Let_def)
qed

section \<open>Numbers\<close>

lemma digits_pairs: "map digit_char (digits_of (2 * n) 16 v) = concat (map hex_pair (digits_of n 256 v))"
proof (induction n arbitrary: v)
  case (Suc n)
  have "digits_of (2 * Suc n) 16 v = digits_of (2 * n) 16 (v div 256) @ [v div 16 mod 16, v mod 16]"
    using div_mult2_eq [of v 16 16] by simp
  moreover have "v mod 256 div 16 = v div 16 mod 16" "v mod 256 mod 16 = v mod 16"
    by (simp_all add: mod_mult2_eq [of v 16 16, simplified] mod_mod_cancel)
  ultimately show ?case by (simp add: Suc hex_pair_def)
qed simp

lemma digits_of_bounds: "0 < b \<Longrightarrow> d \<in> set (digits_of n b v) \<Longrightarrow> d < b"
  by (induction n arbitrary: v) auto

lemma length_digits_of [simp]: "length (digits_of n b v) = n"
  by (induction n arbitrary: v) auto

lemma digits_bytes: "bytes_val (map word_of_nat (rev (digits_of n 256 v))) = v mod 256 ^ n"
proof (induction n arbitrary: v)
  case (Suc n)
  have "unat (word_of_nat (v mod 256) :: u8) = v mod 256" by (simp add: unat_of_nat)
  then show ?case by (simp add: Suc mod_mult2_eq)
qed simp

lemma reverse_pairs: "reverseBitOrder Stringify.HEX (rev (concat (map hex_pair bs))) = concat (map hex_pair (rev bs))"
proof (induction bs rule: rev_induct)
  case (snoc b bs)
  then show ?case by (simp add: hex_pair_def)
qed simp

text \<open>The text of a number of \<open>n\<close> bytes, in the order of the machine.\<close>

definition number_bytes :: "bool \<Rightarrow> nat \<Rightarrow> u32 \<Rightarrow> u8 list" where
  "number_bytes big n v = (let bs = map word_of_nat (digits_of n 256 (unat v)) in if big then bs else rev bs)"

lemma number_bytes_value:
  "bytes_val (if big then rev (number_bytes big n v) else number_bytes big n v) = unat v mod 256 ^ n"
  "length (number_bytes big n v) = n"
  using digits_bytes [of n "unat v"] by (simp_all add: number_bytes_def Let_def rev_map)

lemma digits_spell:
  fixes v :: u32
  assumes "0 < n" "n \<le> 4"
  defines "ch \<equiv> fst (stringify (n * digits_per_byte Stringify.HEX) (divisor_of Stringify.HEX) v (digit_bits Stringify.HEX))"
  shows "hex_spells (if big then ch else LittleEndian Stringify.HEX ch) (number_bytes big n v)"
proof -
  have c: "ch = concat (map hex_pair (digits_of n 256 (unat v)))"
    using stringify_digits [of "2 * n" Stringify.HEX v] assms(1,2) digits_pairs [of n "unat v"]
    by (simp add: ch_def digits_per_byte_def mult.commute)
  have b: "\<forall>d \<in> set (digits_of n 256 (unat v)). d < 256" using digits_of_bounds by auto
  show ?thesis
    using hex_spells_pairs [of "digits_of n 256 (unat v)"] hex_spells_pairs [of "rev (digits_of n 256 (unat v))"] b
    by (simp add: c LittleEndian_rev reverse_pairs number_bytes_def Let_def rev_map)
qed

lemma number_format_cases:
  assumes "number_format c = Some (n, a)"
  obtains "c = CHR ''!''" "n = 1" | "c = CHR ''@''" "n = 2" | "c = CHR ''$''" "n = 2" | "c = CHR ''~''" "n = 3"
    | "c = CHR ''%''" "n = 4" | "c = CHR ''&''" "n = 4"
  using assms unfolding number_format_def by (simp split: if_split_asm)

lemma number_truncate_mod:
  assumes "number_format c = Some (n, a)"
  shows "unat (number_truncate v c) = unat v mod 256 ^ n"
proof -
  have m: "(0xFF :: u32) = mask 8" "(0xFFFF :: u32) = mask 16" "(0xFFFFFF :: u32) = mask 24" "(0xFFFFFFFF :: u32) = mask 32"
    by (simp_all add: mask_eq_exp_minus_1)
  have v: "unat v < 2 ^ 32" using unsigned_less [of v] by simp
  from assms show ?thesis
    by (cases rule: number_format_cases) (use v in \<open>simp_all add: number_truncate_def m unat_and_mask_mod del: mask_numeral\<close>)
qed

lemma digits_of_mod: "digits_of n b (v mod b ^ n) = digits_of n b v"
proof (induction n arbitrary: v)
  case (Suc n)
  have "v mod b ^ Suc n div b = v div b mod b ^ n" "v mod b ^ Suc n mod b = v mod b"
    by (cases "b = 0"; simp add: mod_mult2_eq) (simp add: mod_mod_cancel)
  then show ?case by (simp add: Suc)
qed simp

lemma express_number_spells:
  assumes "express_number big Stringify.HEX v c = Inr e" "number_format c = Some (n, a)"
  shows "hex_spells e (number_bytes big n v)"
proof -
  have n: "0 < n" "n \<le> 4" using assms(2) by (cases rule: number_format_cases; simp)+
  have "number_bytes big n (number_truncate v c) = number_bytes big n v"
    by (simp add: number_bytes_def number_truncate_mod [OF assms(2)] digits_of_mod)
  then show ?thesis
    using digits_spell [OF n, of big "number_truncate v c"] assms
    by (auto simp: express_number_def Let_def split: if_splits)
qed

text \<open>
  C26. A number the macro assembler writes in hexadecimal becomes, when the linker reads it, the bytes of
  the number in its format, one, two, three or four of them in the order of the machine.
\<close>

theorem m1_number_bytes:
  assumes "express_number big Stringify.HEX v c = Inr e" "number_format c = Some (n, a)"
    "Hex2.ByteMode s = Hex2.HEX" "toggle s = 0"
  shows "\<exists>s' bs. second_loop e s = Inr s' \<and> out_file s' = out_file s @ bs \<and> length bs = n \<and>
    bytes_val (if big then rev bs else bs) = unat v mod 256 ^ n"
  using hex_spells_written [OF express_number_spells [OF assms(1,2)] assms(3,4)] number_bytes_value [where big = big and n = n and v = v]
  by blast

theorem m1_number_bytes_witness:
  "\<exists>s' bs. second_loop ''09'' (hex2_init AMD64 False Hex2.HEX 0) = Inr s' \<and>
    out_file s' = out_file (hex2_init AMD64 False Hex2.HEX 0) @ bs \<and> length bs = 1 \<and>
    bytes_val (if False then rev bs else bs) = unat (9 :: u32) mod 256 ^ 1"
proof -
  have e: "express_number False Stringify.HEX 9 (CHR ''!'') = Inr ''09''" by code_simp
  have n: "number_format (CHR ''!'') = Some (1, False)" by (simp add: number_format_def)
  show ?thesis by (rule m1_number_bytes [OF e n]) (simp_all add: hex2_init_def)
qed

text \<open>The bytes of a number format, and the least and the greatest number they can hold.\<close>

definition number_range :: "char \<Rightarrow> (nat \<times> int \<times> int) option" where
  "number_range c =
    (if c = CHR ''!'' then Some (1, - (2 ^ 7), 2 ^ 8 - 1)
     else if c = CHR ''@'' then Some (2, - (2 ^ 15), 2 ^ 15 - 1)
     else if c = CHR ''$'' then Some (2, - (2 ^ 15), 2 ^ 16 - 1)
     else if c = CHR ''~'' then Some (3, - (2 ^ 23), 2 ^ 23 - 1)
     else None)"

lemma number_accepted:
  "\<not> isl (express_number big m v c) \<longleftrightarrow>
     (\<exists>n absolute. number_format c = Some (n, absolute) \<and> \<not> isl (M1.range_check v n absolute))"
  by (auto simp: express_number_def split: option.splits) (metis bindE.elims isl_def sum.disc(2))+

lemma sint_eqD: "sint (v :: u32) = k \<Longrightarrow> v = of_int k"
proof -
  assume "sint v = k"
  then have "word_of_int (sint v) = (word_of_int k :: u32)" by simp
  then show ?thesis by simp
qed

text \<open>
  C27. For every format of less than four bytes the numbers that are accepted are exactly those
  from one below the least to one above the greatest that the bytes can hold; the two outside are
  written as the number at the other end, \<open>256 ^ n\<close> away. (\<open>range_check\<close> sets its bounds one too wide at both ends.)
\<close>

theorem m1_bounds_too_wide:
  assumes "number_range c = Some (n, low, high)"
  shows "(\<not> isl (express_number big m v c) \<longleftrightarrow> low - 1 \<le> sint v \<and> sint v \<le> high + 1) \<and>
    (sint v = high + 1 \<longrightarrow> express_number big m v c = express_number big m (v - 256 ^ n) c \<and>
       low \<le> sint (v - 256 ^ n) \<and> sint (v - 256 ^ n) \<le> high) \<and>
    (sint v = low - 1 \<longrightarrow> express_number big m v c = express_number big m (v + 256 ^ n) c \<and>
       low \<le> sint (v + 256 ^ n) \<and> sint (v + 256 ^ n) \<le> high)"
proof -
  have "c = CHR ''!'' \<and> n = 1 \<and> low = - 128 \<and> high = 255 \<or>
    c = CHR ''@'' \<and> n = 2 \<and> low = - 32768 \<and> high = 32767 \<or>
    c = CHR ''$'' \<and> n = 2 \<and> low = - 32768 \<and> high = 65535 \<or>
    c = CHR ''~'' \<and> n = 3 \<and> low = - 8388608 \<and> high = 8388607"
    using assms by (auto simp: number_range_def split: if_splits)
  note range = this
  have a: "\<not> isl (express_number big m v c) \<longleftrightarrow> low - 1 \<le> sint v \<and> sint v \<le> high + 1"
    unfolding number_accepted using range
    by (elim disjE) (auto simp: number_format_def M1.range_check_def bound_values_def requireE_def)
  have "sint v = high + 1 \<longrightarrow> express_number big m v c = express_number big m (v - 256 ^ n) c \<and>
       low \<le> sint (v - 256 ^ n) \<and> sint (v - 256 ^ n) \<le> high"
    using range
    by (elim disjE) (auto dest!: sint_eqD simp: express_number_def M1.range_check_def bound_values_def requireE_def
        number_format_def number_truncate_def Let_def)
  moreover have "sint v = low - 1 \<longrightarrow> express_number big m v c = express_number big m (v + 256 ^ n) c \<and>
       low \<le> sint (v + 256 ^ n) \<and> sint (v + 256 ^ n) \<le> high"
    using range
    by (elim disjE) (auto dest!: sint_eqD simp: express_number_def M1.range_check_def bound_values_def requireE_def
        number_format_def number_truncate_def Let_def)
  ultimately show ?thesis using a by blast
qed

theorem m1_bounds_too_wide_witness:
  "number_range (CHR ''!'') = Some (1, - 128, 255) \<and> sint (256 :: u32) = 255 + 1 \<and>
   \<not> isl (express_number False Stringify.HEX 256 (CHR ''!'')) \<and>
   express_number False Stringify.HEX 256 (CHR ''!'') = express_number False Stringify.HEX 0 (CHR ''!'')"
proof -
  have r: "number_range (CHR ''!'') = Some (1, - 128, 255)" by (simp add: number_range_def)
  have s: "sint (256 :: u32) = 255 + 1" by simp
  note b = m1_bounds_too_wide [OF r, of False Stringify.HEX 256]
  have "\<not> isl (express_number False Stringify.HEX 256 (CHR ''!''))" using b [THEN conjunct1] s by simp
  moreover have "express_number False Stringify.HEX 256 (CHR ''!'') = express_number False Stringify.HEX 0 (CHR ''!'')"
    using b s by simp
  ultimately show ?thesis using r s by blast
qed

section \<open>Strings\<close>

lemma of_char_less: "(of_char c :: nat) < 256"
  by (metis of_char_mod_256 mod_less_divisor zero_less_numeral)

lemma sint_c_char: "sint (c_char c) = (if (of_char c :: nat) < 128 then int (of_char c) else int (of_char c) - 256)"
proof -
  define n :: nat where "n = of_char c"
  have n: "n < 256" unfolding n_def by (rule of_char_less)
  have "c_char c = take_bit 8 (word_of_nat n) - 256 * of_bool (bit (word_of_nat n :: u32) 7)"
    using signed_take_bit_eq_take_bit_minus [of 7 "word_of_nat n :: u32"] by (simp add: c_char_def n_def of_nat_of_char)
  moreover have "take_bit 8 (word_of_nat n :: u32) = word_of_nat n"
    using n by (simp add: take_bit_of_nat take_bit_nat_eq_self)
  moreover have "bit (word_of_nat n :: u32) 7 \<longleftrightarrow> \<not> n < 128"
  proof -
    have "n div 128 = (if n < 128 then 0 else 1)" using n by auto
    moreover have "bit (word_of_nat n :: u32) 7 \<longleftrightarrow> bit n 7" by (simp add: bit_of_nat_iff possible_bit_def)
    ultimately show ?thesis by (simp add: bit_iff_odd)
  qed
  moreover define k where "k = (if n < 128 then int n else int n - 256)"
  ultimately have "c_char c = word_of_int k" by simp
  moreover have "sint (word_of_int k :: u32) = k" using n by (intro sint_word_of_int_32) (auto simp: k_def)
  ultimately show ?thesis by (simp only: k_def n_def)
qed

lemma table_at_digit: "0 \<le> sint i \<Longrightarrow> sint i < 16 \<Longrightarrow> table_at i = Inr (digit_char (nat (sint i)))"
proof -
  assume i: "0 \<le> sint i" "sint i < 16"
  have u: "unat i = nat (sint i)" using i unsigned_less [of i, where 'a = nat] by (auto simp: sint_u32 split: if_splits)
  have "\<forall>d \<in> set [0..<16]. m1_table ! d = digit_char d" by code_simp
  then have "m1_table ! nat (sint i) = digit_char (nat (sint i))" using i by simp
  then show ?thesis using i u by (simp add: table_at_def)
qed

lemma hexify_char_HEX:
  "hexify_char Stringify.HEX c = (if (of_char c :: nat) < 128 then Inr (hex_pair (of_char c) @ '' '') else Inl Table_Index)"
proof -
  define n :: nat where "n = of_char c"
  have n: "n < 256" unfolding n_def by (rule of_char_less)
  have s: "sint (c_char c) = (if n < 128 then int n else int n - 256)" by (simp add: sint_c_char n_def)
  have hi: "sint (signed_drop_bit 4 (c_char c)) = (if n < 128 then int (n div 16) else (int n - 256) div 16)"
    by (simp add: sint_signed_drop_bit_eq s drop_bit_eq_div zdiv_int)
  have lo: "sint (c_char c AND 0xF) = int (n mod 16)"
  proof -
    have "unat (c_char c AND mask 4) = unat (c_char c) mod 2 ^ 4" by (rule unat_and_mask_mod)
    moreover have "unat (c_char c) mod 16 = n mod 16"
    proof -
      have "unat (c_char c) = (if n < 128 then n else n + (2 ^ 32 - 256))"
        using s sint_u32 [of "c_char c"] n unsigned_less [of "c_char c", where 'a = nat] by (auto split: if_splits)
      moreover have "(n + (2 ^ 32 - 256)) mod 16 = n mod 16" using mod_mult_self2 [of n 16 268435440] by simp
      ultimately show ?thesis by simp
    qed
    ultimately have u: "unat (c_char c AND 0xF) = n mod 16" by (simp add: mask_eq_exp_minus_1)
    then show ?thesis by (simp add: sint_u32)
  qed
  show ?thesis
  proof (cases "n < 128")
    case True
    have "table_at (signed_drop_bit 4 (c_char c)) = Inr (digit_char (n div 16))"
      using hi True by (simp add: table_at_digit nat_div_distrib)
    moreover have "table_at (c_char c AND 0xF) = Inr (digit_char (n mod 16))"
      using lo by (simp add: table_at_digit)
    ultimately show ?thesis using True by (simp add: hexify_char_def Let_def hex_pair_def n_def)
  next
    case False
    then have "sint (signed_drop_bit 4 (c_char c)) < 0" using hi n by auto
    then have "table_at (signed_drop_bit 4 (c_char c)) = Inl Table_Index" by (simp add: table_at_def)
    then show ?thesis using False by (simp add: hexify_char_def Let_def n_def)
  qed
qed

lemma hexify_loop_HEX:
  "t \<noteq> [] \<Longrightarrow> hexify_loop Stringify.HEX t =
    (if \<forall>c \<in> set (tl t). (of_char c :: nat) < 128
     then Inr (concat (map (\<lambda>c. hex_pair (of_char c) @ '' '') (tl t @ [NUL]))) else Inl Table_Index)"
proof (induction t)
  case (Cons c t)
  show ?case
  proof (cases t)
    case Nil
    then show ?thesis by (simp add: hexify_char_HEX)
  next
    case (Cons d u)
    then show ?thesis using Cons.IH by (simp add: hexify_char_HEX)
  qed
qed simp

lemma pairs_spell:
  "\<forall>c \<in> set cs. (of_char c :: nat) < 256 \<Longrightarrow>
   hex_spells (concat (map (\<lambda>c. hex_pair (of_char c) @ '' '') cs)) (map (\<lambda>c. word_of_nat (of_char c)) cs)"
  by (induction cs) (auto intro: hex_spells.intros)

lemma zeros_spell: "hex_spells (replicate (2 * k) (CHR ''0'')) (replicate k 0)"
proof (induction k)
  case (Suc k)
  have "hex_spells (hex_pair 0 @ replicate (2 * k) (CHR ''0'')) (word_of_nat 0 # replicate k 0)"
    by (intro hex_spells.intros Suc) simp
  then show ?case by (simp add: hex_pair_def digit_char_def)
qed (simp add: hex_spells.nil)

text \<open>
  A quoted string of ASCII characters becomes its characters and a zero byte; for the Knight
  more zero bytes fill the last word.
\<close>

definition knight_padding :: "M1.architecture \<Rightarrow> nat \<Rightarrow> nat" where
  "knight_padding arc n = (if arc = M1.KNIGHT then 3 - n mod 4 else 0)"

lemma m1_string_spells:
  assumes "\<forall>c \<in> set cs. (of_char c :: nat) < 128"
  shows "\<exists>e. hexify_string arc Stringify.HEX (CHR 0x22 # cs) = Inr e \<and>
    hex_spells e (map (\<lambda>c. word_of_nat (of_char c)) cs @ 0 # replicate (knight_padding arc (length cs)) 0)"
proof -
  let ?d = "concat (map (\<lambda>c. hex_pair (of_char c) @ '' '') (cs @ [NUL]))" and ?k = "knight_padding arc (length cs)"
  have l: "length (concat (map (\<lambda>c. hex_pair (of_char c) @ '' '') ds)) = 3 * length ds" for ds :: string
    by (induction ds) (simp_all add: hex_pair_def)
  have k: "(length cs div 4 + 1) * 8 + Suc (length cs) - 3 * Suc (length cs) = 2 * (3 - length cs mod 4)" by presburger
  have h: "hexify_string arc Stringify.HEX (CHR 0x22 # cs) = Inr (?d @ replicate (2 * ?k) (CHR ''0''))"
    using assms(1) hexify_loop_HEX [of "CHR 0x22 # cs"] k l [of "cs @ [NUL]"]
    by (auto simp: hexify_string_def Let_def knight_padding_def simp del: map_append concat_append)
  have "\<forall>c \<in> set (cs @ [NUL]). (of_char c :: nat) < 256" using of_char_less by blast
  from hex_spells_append [OF pairs_spell [OF this] zeros_spell [of ?k]] h show ?thesis by auto
qed

text \<open>
  A quoted string with any other character makes the macro assembler read its table of digits in
  front of its first element.
\<close>

lemma m1_string_not_ascii:
  "(\<exists>c \<in> set cs. 128 \<le> (of_char c :: nat)) = (hexify_string arc Stringify.HEX (CHR 0x22 # cs) = Inl Table_Index)"
  using hexify_loop_HEX [of "CHR 0x22 # cs"] by (auto simp: hexify_string_def Let_def not_less)

section \<open>Immediates of RISC-V\<close>

lemma low_part:
  fixes v :: u32
  shows "signed_drop_bit 20 (push_bit 20 (v AND 0xFFF)) = signed_take_bit 11 v"
proof -
  have "v AND 0xFFF = take_bit 12 v" by (simp add: take_bit_eq_mask mask_eq_exp_minus_1)
  moreover have "bit (signed_drop_bit 20 (push_bit 20 (take_bit 12 v))) n = bit (signed_take_bit 11 v) n" if "n < 32" for n
  proof -
    consider "n < 11" | "n = 11" | "11 < n" by linarith
    then show ?thesis using that
      by cases (simp_all add: bit_signed_drop_bit_iff bit_push_bit_iff bit_take_bit_iff bit_signed_take_bit_iff min_def)
  qed
  ultimately show ?thesis by (intro bit_word_eqI) simp
qed

lemma high_part:
  fixes v :: u32
  defines "hi \<equiv> if sint (v AND 0xFFF) < 0x800 then v AND 0xFFFFF000 else (v AND 0xFFFFF000) + 0x1000"
  shows "hi AND 0xFFF = 0 \<and> hi + signed_take_bit 11 v = v"
proof -
  have n: "(0xFFFFF000 :: u32) = NOT (mask 12)" "(0xFFF :: u32) = mask 12" by (simp_all add: mask_eq_exp_minus_1)
  have "(v AND NOT (mask 12)) + (v AND mask 12) = (v AND NOT (mask 12)) OR (v AND mask 12)"
    by (rule disjunctive_add_eq_or) (intro bit_word_eqI, auto simp: bit_simps)
  also have "\<dots> = v" by (intro bit_word_eqI) (auto simp: bit_simps)
  finally have split: "(v AND 0xFFFFF000) + take_bit 12 v = v" by (simp add: n take_bit_eq_mask)
  have ext: "signed_take_bit 11 v = take_bit 12 v - 4096 * of_bool (bit v 11)"
    using signed_take_bit_eq_take_bit_minus [of 11 v] by simp
  have t: "v AND 0xFFF = take_bit 12 v" by (simp add: n take_bit_eq_mask)
  have u: "unat (take_bit 12 v) = unat v mod 4096"
    using unat_and_mask_mod [of v 12] by (simp add: take_bit_eq_mask)
  have "bit v 11 \<longleftrightarrow> odd (unat v div 2048)"
    using bit_unsigned_iff [where ?'a = nat, of v 11] by (simp add: bit_iff_odd possible_bit_def)
  moreover have "odd (x div 2048) \<longleftrightarrow> \<not> x mod 4096 < 2048" for x :: nat
  proof -
    have "x mod 4096 = 2048 * (x div 2048 mod 2) + x mod 2048" using mod_mult2_eq [of x 2048 2] by simp
    then show ?thesis by (cases "even (x div 2048)") (simp_all add: odd_iff_mod_2_eq_one)
  qed
  ultimately have b: "sint (v AND 0xFFF) < 0x800 \<longleftrightarrow> \<not> bit v 11"
    by (simp add: t sint_u32 u)
  have z: "(v AND 0xFFFFF000) AND 0xFFF = 0" by (simp add: and.assoc)
  have z2: "((v AND 0xFFFFF000) + 0x1000) AND 0xFFF = 0"
  proof -
    have m: "unat (w AND 0xFFF) = unat w mod 4096" for w :: u32
      using unat_and_mask_mod [of w 12] by (simp add: n(2) [symmetric])
    have "unat (v AND 0xFFFFF000) mod 4096 = 0" using z m [of "v AND 0xFFFFF000"] by simp
    moreover have "(a + 4096) mod 2 ^ 32 mod 4096 = a mod (4096 :: nat)" for a
      by (simp add: mod_mod_cancel)
    ultimately have "unat ((v AND 0xFFFFF000) + 0x1000) mod 4096 = 0" by (simp add: unat_word_ariths)
    then show ?thesis using m [of "(v AND 0xFFFFF000) + 0x1000"] by (simp add: unat_eq_0)
  qed
  show ?thesis using split z z2 by (cases "bit v 11") (simp_all add: hi_def b ext algebra_simps)
qed

text \<open>How the processor reads an immediate of format S: bits 31 to 25 above bits 11 to 7.\<close>

definition s_immediate :: "u32 \<Rightarrow> u32" where
  "s_immediate i = push_bit 5 (signed_drop_bit 25 i) OR (drop_bit 7 i AND 0x1F)"

text \<open>
  C28. On RISC-V the upper immediate \<open>~\<close> of a value and its lower immediate, \<open>!\<close> in format I or \<open>@\<close> in
  format S, which the processor extends by its sign, add up to the value, for every value.
\<close>

theorem m1_riscv_immediates:
  "\<exists>hi lo st. word_immediate v (CHR ''~'') = Some (hi, 4, True) \<and> word_immediate v (CHR ''!'') = Some (lo, 4, True) \<and>
     word_immediate v (CHR ''@'') = Some (st, 4, True) \<and>
     hi AND 0xFFF = 0 \<and> hi + signed_drop_bit 20 lo = v \<and> s_immediate st = signed_drop_bit 20 lo"
proof -
  define hi where "hi = (if sint (v AND 0xFFF) < 0x800 then v AND 0xFFFFF000 else (v AND 0xFFFFF000) + 0x1000)"
  define lo where "lo = push_bit 20 (v AND 0xFFF)"
  define st where "st = push_bit 7 (v AND 0x1F) OR push_bit (31 - 11) (v AND 0xFE0)"
  have w: "word_immediate v (CHR ''~'') = Some (hi, 4, True)" "word_immediate v (CHR ''!'') = Some (lo, 4, True)"
     "word_immediate v (CHR ''@'') = Some (st, 4, True)"
    by (simp_all add: word_immediate_def hi_def lo_def st_def)
  have l: "signed_drop_bit 20 lo = signed_take_bit 11 v" unfolding lo_def by (rule low_part)
  have s: "s_immediate st = signed_take_bit 11 v"
  proof -
    have c: "(0xFE0 :: u32) = push_bit 5 (mask 7)" by (simp add: mask_eq_exp_minus_1)
    have "v AND push_bit 5 (mask 7) = push_bit 5 (take_bit 7 (drop_bit 5 v))"
      by (rule bit_word_eqI, simp only: bit_and_iff bit_push_bit_iff bit_mask_iff bit_take_bit_iff bit_drop_bit_eq comp_def)
        (auto simp: possible_bit_def)
    then have m: "v AND 0x1F = take_bit 5 v" "v AND 0xFE0 = push_bit 5 (take_bit 7 (drop_bit 5 v))"
       "drop_bit 7 st AND 0x1F = take_bit 5 (drop_bit 7 st)"
      unfolding c by (simp_all add: take_bit_eq_mask mask_eq_exp_minus_1)
    have "bit (push_bit 5 (signed_drop_bit 25 st) OR take_bit 5 (drop_bit 7 st)) n = bit (signed_take_bit 11 v) n" if "n < 32" for n
    proof -
      consider "n < 5" | "5 \<le> n \<and> n < 11" | "n = 11" | "11 < n" by linarith
      then show ?thesis using that unfolding st_def m(1,2)
        by cases (auto simp: bit_or_iff bit_signed_drop_bit_iff bit_push_bit_iff bit_take_bit_iff bit_drop_bit_eq bit_signed_take_bit_iff min_def)
    qed
    then show ?thesis unfolding s_immediate_def m(3) by (intro bit_word_eqI) simp
  qed
  have "hi AND 0xFFF = 0 \<and> hi + signed_take_bit 11 v = v" unfolding hi_def by (rule high_part)
  then show ?thesis using w l s by auto
qed

end
