(* ===== verification/CcLiterals.thy ===== *)
theory CcLiterals
  imports CcStrings
begin

text \<open>
  String literals against what C says they mean. A literal is a list of characters and escapes,
  each of which stands for one byte; the compiler counts those bytes (\<open>string_size\<close>) and writes
  them for the macro assembler (\<open>parse_string\<close>), as text where it can and in hexadecimal where
  it must.
\<close>

section \<open>What a literal means\<close>

datatype lit = Plain char | Simple char | Hexadecimal char char | Octal string

definition simple_value :: "char \<Rightarrow> int option" where
  "simple_value = map_of [(CHR ''a'', 7), (CHR ''b'', 8), (CHR ''t'', 9), (CHR ''n'', 10), (CHR ''v'', 11),
     (CHR ''f'', 12), (CHR ''r'', 13), (CHR ''e'', 27), (CHR 0x22, 34), (CHR 0x27, 39), (CHR 0x5C, 92), (CHR ''?'', 63)]"

fun lit_text :: "lit \<Rightarrow> string" where
  "lit_text (Plain c) = [c]"
| "lit_text (Simple c) = [CHR 0x5C, c]"
| "lit_text (Hexadecimal a b) = [CHR 0x5C, CHR ''x'', a, b]"
| "lit_text (Octal ds) = CHR 0x5C # ds"

definition octal_value :: "string \<Rightarrow> int" where
  "octal_value ds = foldl (\<lambda>v d. v * 8 + (schar d - 48)) 0 ds"

fun lit_char :: "lit \<Rightarrow> char" where
  "lit_char (Plain c) = c"
| "lit_char (Simple c) = to_char (the (simple_value c))"
| "lit_char (Hexadecimal a b) = to_char (char2hex (schar a) * 16 + char2hex (schar b))"
| "lit_char (Octal ds) = to_char (octal_value ds)"

fun lit_ok :: "lit \<Rightarrow> bool" where
  "lit_ok (Plain c) \<longleftrightarrow> c \<noteq> CHR 0x5C \<and> c \<noteq> NUL"
| "lit_ok (Simple c) \<longleftrightarrow> simple_value c \<noteq> None"
| "lit_ok (Hexadecimal a b) \<longleftrightarrow> 0 \<le> char2hex (schar a) \<and> 0 \<le> char2hex (schar b)"
| "lit_ok (Octal ds) \<longleftrightarrow> ds \<noteq> [] \<and> length ds \<le> 3 \<and> (\<forall>d \<in> set ds. digit_is_octal d)"

definition texts_of :: "lit list \<Rightarrow> string" where
  "texts_of us = concat (map lit_text us)"

text \<open>An octal escape takes as many digits as there are, up to three.\<close>

fun ends_before :: "lit \<Rightarrow> string \<Rightarrow> bool" where
  "ends_before (Octal ds) r \<longleftrightarrow> length ds = 3 \<or> \<not> digit_is_octal (chr_at r 0)"
| "ends_before u r \<longleftrightarrow> True"

fun lits_ok :: "lit list \<Rightarrow> bool" where
  "lits_ok [] = True"
| "lits_ok (u # us) \<longleftrightarrow> lit_ok u \<and> ends_before u (texts_of us) \<and> lits_ok us"

lemma texts_of_simps [simp]: "texts_of [] = []" "texts_of (u # us) = lit_text u @ texts_of us"
  by (simp_all add: texts_of_def)

section \<open>Escapes\<close>

lemma chr_at_numeral [simp]: "chr_at (c # s) (numeral k) = chr_at s (pred_numeral k)"
  by (simp add: numeral_eq_Suc)

lemma schar_simps: "schar CHR ''0'' = 48" "schar CHR ''7'' = 55" by code_simp+

lemma nul_not_octal [simp]: "\<not> digit_is_octal NUL" by code_simp

lemma octal_loop_prefix:
  "(\<forall>d \<in> set ds. digit_is_octal d) \<Longrightarrow> length pre + length ds \<le> 3 \<Longrightarrow>
   length pre + length ds = 3 \<or> \<not> digit_is_octal (chr_at r 0) \<Longrightarrow>
   octal_loop (pre @ ds @ r) (length pre) v = foldl (\<lambda>v d. v * 8 + (schar d - 48)) v ds"
proof (induction ds arbitrary: pre v)
  case Nil
  have "chr_at (pre @ r) (length pre) = chr_at r 0" by (simp add: chr_at_def nth_append)
  then show ?case using Nil by (auto simp: octal_loop.simps)
next
  case (Cons d ds)
  have "chr_at (pre @ d # ds @ r) (length pre) = d" by (simp add: chr_at_def nth_append)
  then show ?case using Cons.IH [of "pre @ [d]"] Cons.prems
    by (subst octal_loop.simps) simp
qed

lemma skip_octal_prefix:
  "(\<forall>d \<in> set ds. digit_is_octal d) \<Longrightarrow> length pre + length ds \<le> 4 \<Longrightarrow>
   length pre + length ds = 4 \<or> \<not> digit_is_octal (chr_at r 0) \<Longrightarrow>
   skip_octal (pre @ ds @ r) (length pre) = length pre + length ds"
proof (induction ds arbitrary: pre)
  case Nil
  have "chr_at (pre @ r) (length pre) = chr_at r 0" by (simp add: chr_at_def nth_append)
  then show ?case using Nil by (auto simp: skip_octal.simps)
next
  case (Cons d ds)
  have "chr_at (pre @ d # ds @ r) (length pre) = d" by (simp add: chr_at_def nth_append)
  then show ?case using Cons.IH [of "pre @ [d]"] Cons.prems
    by (subst skip_octal.simps) simp
qed

lemma octal_wrap_mod: "to_char (octal_wrap v) = to_char v"
proof (induction v rule: octal_wrap.induct)
  case (1 v)
  have "to_char (v - 256) = to_char v" by (simp add: to_char_def mod_diff_right_eq [of v 256 256, symmetric])
  then show ?case using 1 by (subst octal_wrap.simps) simp
qed

lemma octal_wrap_bounds: "0 \<le> v \<Longrightarrow> - 128 \<le> octal_wrap v \<and> octal_wrap v \<le> 127"
proof (induction v rule: octal_wrap.induct)
  case (1 v)
  show ?case
  proof (cases "v < 256")
    case True
    then have "octal_wrap (v - 256) = v - 256" by (subst octal_wrap.simps) simp
    then show ?thesis using True 1(2) by (subst (1 2) octal_wrap.simps) simp
  next
    case False
    then have "octal_wrap v = octal_wrap (v - 256)" by (subst octal_wrap.simps) simp
    then show ?thesis using 1 False by simp
  qed
qed

lemma octal_value_bounds: "(\<forall>d \<in> set ds. digit_is_octal d) \<Longrightarrow> 0 \<le> v \<Longrightarrow> 0 \<le> foldl (\<lambda>v d. v * 8 + (schar d - 48)) v ds"
  by (induction ds arbitrary: v) (auto simp: digit_is_octal_def)

text \<open>The characters that the table of escapes asks for before it looks for a digit.\<close>

definition escape_letters :: string where
  "escape_letters = ''xabtnvfre'' @ [CHR 0x22, CHR 0x27, CHR 0x5C, CHR ''?'', NUL]"

lemma octal_digit_not: "digit_is_octal d \<Longrightarrow> d \<notin> set escape_letters"
proof -
  have "\<forall>d \<in> set escape_letters. \<not> digit_is_octal d" by code_simp
  then show "digit_is_octal d \<Longrightarrow> ?thesis" by blast
qed

lemma simple_value_letters: "simple_value c \<noteq> None \<Longrightarrow> c \<in> set escape_letters"
  by (auto simp: simple_value_def escape_letters_def split: if_splits)

lemma char2hex_bound: "char2hex i \<le> 15"
  by (simp add: char2hex_def)

text \<open>An escape is one value and as long as its spelling.\<close>

lemma escape_lit:
  assumes "lit_ok u" "ends_before u r" "\<forall>c. u \<noteq> Plain c"
  shows "\<exists>v. escape_lookup (lit_text u @ r) = Inr v \<and> to_char v = lit_char u \<and> - 128 \<le> v \<and> v \<le> 255 \<and>
    amount_of_escaped_chars_to_skip (lit_text u @ r) = length (lit_text u) - 1 \<and> chr_at (lit_text u @ r) 0 = CHR 0x5C"
proof (cases u)
  case (Plain c)
  then show ?thesis using assms by blast
next
  case (Simple c)
  then have v: "simple_value c \<noteq> None" using assms(1) by simp
  then have nd: "\<not> digit_is_octal c" using octal_digit_not simple_value_letters by blast
  show ?thesis unfolding Simple
    using v nd by (auto simp: escape_lookup_def amount_of_escaped_chars_to_skip_def simple_value_def
        split: if_split_asm)
next
  case (Hexadecimal a b)
  show ?thesis unfolding Hexadecimal using assms(1) char2hex_bound [of "schar a"] char2hex_bound [of "schar b"]
    by (simp add: Hexadecimal escape_lookup_def amount_of_escaped_chars_to_skip_def hexify_def Let_def)
next
  case (Octal ds)
  then obtain d ds' where d: "ds = d # ds'" "digit_is_octal d" using assms(1) by (cases ds) auto
  note nd = octal_digit_not [OF d(2)]
  have v: "octal_loop (ds @ r) 0 0 = octal_value ds"
    using octal_loop_prefix [of ds "[]" r 0] assms Octal by (simp add: octal_value_def)
  have v0: "0 \<le> octal_value ds" using octal_value_bounds [of ds 0] assms(1) Octal by (simp add: octal_value_def)
  have s: "skip_octal (CHR 0x5C # ds @ r) 2 = Suc (length ds)"
    using skip_octal_prefix [of ds' "[CHR 0x5C, d]" r] assms Octal d by (simp add: numeral_2_eq_2)
  have "escape_lookup (CHR 0x5C # ds @ r) = Inr (octal_wrap (octal_value ds))"
    using nd d v by (simp add: escape_letters_def escape_lookup_def parse_octal_escape_code_def)
  moreover have "amount_of_escaped_chars_to_skip (CHR 0x5C # ds @ r) = length ds"
    using nd d s by (simp add: escape_letters_def amount_of_escaped_chars_to_skip_def)
  ultimately show ?thesis unfolding Octal using octal_wrap_mod octal_wrap_bounds [OF v0] by simp
qed

lemma schar_bounds: "- 128 \<le> schar c \<and> schar c < 128"
  unfolding schar_def using signed_take_bit_int_greater_eq_minus_exp [of 7 "of_char c"] signed_take_bit_int_less_exp [of 7 "of_char c"]
  by simp

lemma to_char_schar [simp]: "to_char (schar c) = c"
proof -
  have t: "take_bit 8 (schar c) = take_bit 8 (of_char c)"
    unfolding schar_def by (simp add: take_bit_signed_take_bit)
  have "schar c mod 2 ^ 8 = of_char c mod 2 ^ 8" using t by (simp only: take_bit_eq_mod)
  moreover have "(of_char c :: int) < 256" by (metis of_char_mod_256 pos_mod_bound zero_less_numeral)
  ultimately have "schar c mod 256 = of_char c" by simp
  then show ?thesis by (simp add: to_char_def)
qed

lemma to_char_cong: "to_char v = to_char w \<Longrightarrow> v mod 256 = w mod 256"
  unfolding to_char_def by (metis of_char_of mod_mod_trivial)

text \<open>The value of an escape and the byte it stands for are in the same sets of plain characters.\<close>

lemma in_set_int_iff:
  assumes "- 128 \<le> v" "v \<le> 255" "\<forall>x \<in> set s. 0 \<le> schar x"
  shows "in_set_int v s \<longleftrightarrow> to_char v \<in> set s"
proof
  assume "in_set_int v s"
  then obtain x where "x \<in> set s" "v = schar x" by (auto simp: in_set_int_def list_ex_iff)
  then show "to_char v \<in> set s" by simp
next
  assume x: "to_char v \<in> set s"
  then have "to_char v = to_char (schar (to_char v))" by simp
  then have "v mod 256 = schar (to_char v) mod 256" by (rule to_char_cong)
  moreover have "0 \<le> schar (to_char v)" "schar (to_char v) < 128" using x assms(3) schar_bounds by auto
  ultimately have "v mod 256 < 128" "v mod 256 = schar (to_char v)" by simp_all
  then have "v = schar (to_char v)" using assms(1,2) by presburger
  then show "in_set_int v s" using x by (auto simp: in_set_int_def list_ex_iff)
qed

lemma schar_code [code]: "schar c = (let n = of_char c in if n < 128 then n else n - 256)"
proof -
  have b: "(of_char c :: int) < 256" by (metis of_char_mod_256 pos_mod_bound zero_less_numeral)
  moreover have "0 \<le> (of_char c :: int)" by (metis of_char_mod_256 pos_mod_sign zero_less_numeral)
  note b = calculation this
  have "signed_take_bit 7 (of_char c) = signed_take_bit 7 (of_char c - 256 :: int)"
    by (simp only: signed_take_bit_eq_iff_take_bit_eq) (simp add: take_bit_eq_mod)
  moreover have "signed_take_bit 7 (of_char c - 256 :: int) = of_char c - 256" if "128 \<le> (of_char c :: int)"
    using that b by (simp only: signed_take_bit_int_eq_self_iff) simp
  moreover have "signed_take_bit 7 (of_char c :: int) = of_char c" if "(of_char c :: int) < 128"
    using that b by (simp only: signed_take_bit_int_eq_self_iff) simp
  ultimately show ?thesis unfolding schar_def Let_def by (simp only: not_less split: if_split) simp
qed

lemma plain_positive: "\<forall>x \<in> set plain_chars. 0 \<le> schar x" "\<forall>x \<in> set [CHR '' '', TAB, LF, CR]. 0 \<le> schar x"
proof -
  have "list_all (\<lambda>x. 0 \<le> schar x) plain_chars" by (simp add: plain_chars_def schar_code)
  then show "\<forall>x \<in> set plain_chars. 0 \<le> schar x" by (simp only: list_all_iff)
  have "list_all (\<lambda>x. 0 \<le> schar x) [CHR '' '', TAB, LF, CR]" by (simp add: schar_code)
  then show "\<forall>x \<in> set [CHR '' '', TAB, LF, CR]. 0 \<le> schar x" by (simp only: list_all_iff)
qed

text \<open>One step over a literal: its value, and what the walk does with its text.\<close>

lemma lit_step:
  assumes "lit_ok u" "ends_before u r"
  shows "\<exists>v. (if chr_at (lit_text u @ r) 0 = CHR 0x5C
      then bindE (escape_lookup (lit_text u @ r)) (\<lambda>c. Inr (c, drop (amount_of_escaped_chars_to_skip (lit_text u @ r)) (lit_text u @ r)))
      else Inr (schar (chr_at (lit_text u @ r) 0), lit_text u @ r)) = Inr (v, drop (length (lit_text u) - 1) (lit_text u @ r)) \<and>
    to_char v = lit_char u \<and> - 128 \<le> v \<and> v \<le> 255 \<and> chr_at (lit_text u @ r) 0 \<noteq> NUL \<and>
    escape_lookup (lit_text u @ r) = Inr v"
proof (cases "\<exists>c. u = Plain c")
  case True
  then obtain c where u: "u = Plain c" by blast
  have c: "u = Plain c" "c \<noteq> CHR 0x5C" "c \<noteq> NUL" using assms(1) by (simp_all add: u)
  have "escape_lookup (c # r) = Inr (schar c)" using c by (simp add: escape_lookup_def)
  moreover have "- 128 \<le> schar c" "schar c \<le> 255" using schar_bounds [of c] by auto
  ultimately show ?thesis using c by simp
next
  case False
  then obtain v where v: "escape_lookup (lit_text u @ r) = Inr v" "to_char v = lit_char u" "- 128 \<le> v" "v \<le> 255"
      "amount_of_escaped_chars_to_skip (lit_text u @ r) = length (lit_text u) - 1" "chr_at (lit_text u @ r) 0 = CHR 0x5C"
    using escape_lit [OF assms] by blast
  then show ?thesis by (intro exI [of _ v]) simp
qed

lemma lit_text_drop: "drop 1 (drop (length (lit_text u) - 1) (lit_text u @ r)) = r"
  "chr_at (drop (length (lit_text u) - 1) (lit_text u @ r)) 1 = chr_at r 0"
proof -
  have n: "lit_text u \<noteq> []" by (cases u) auto
  then have e: "drop (length (lit_text u) - 1) (lit_text u @ r) = last (lit_text u) # r"
    by (cases "lit_text u" rule: rev_cases) auto
  show "drop 1 (drop (length (lit_text u) - 1) (lit_text u @ r)) = r"
    "chr_at (drop (length (lit_text u) - 1) (lit_text u @ r)) 1 = chr_at r 0"
    unfolding e by simp_all
qed

section \<open>Which literals are weird\<close>

fun is_weird :: "lit list \<Rightarrow> bool" where
  "is_weird [] \<longleftrightarrow> False"
| "is_weird (u # us) \<longleftrightarrow>
     lit_char u \<notin> set plain_chars \<or>
     lit_char u \<in> {CHR '' '', TAB, LF, CR} \<and> chr_at (texts_of us) 0 = CHR '':'' \<or> is_weird us"

lemma or_of_ifs: "(if \<not> a then Inr True else if b then Inr True else Inr w) = Inr (\<not> a \<or> b \<or> w)"
  by simp

lemma weird_loop_lits: "lits_ok us \<Longrightarrow> weird_loop (texts_of us) = Inr (is_weird us)"
proof (induction us)
  case Nil
  then show ?case by (simp add: weird_loop.simps)
next
  case (Cons u us)
  obtain v where v: "(if chr_at (lit_text u @ texts_of us) 0 = CHR 0x5C
      then bindE (escape_lookup (lit_text u @ texts_of us)) (\<lambda>c. Inr (c, drop (amount_of_escaped_chars_to_skip (lit_text u @ texts_of us)) (lit_text u @ texts_of us)))
      else Inr (schar (chr_at (lit_text u @ texts_of us) 0), lit_text u @ texts_of us)) =
        Inr (v, drop (length (lit_text u) - 1) (lit_text u @ texts_of us))"
    "to_char v = lit_char u" "- 128 \<le> v" "v \<le> 255" "chr_at (lit_text u @ texts_of us) 0 \<noteq> NUL"
    using lit_step [of u "texts_of us"] Cons.prems by auto
  have p: "in_set_int v plain_chars \<longleftrightarrow> lit_char u \<in> set plain_chars"
    "in_set_int v [CHR '' '', TAB, LF, CR] \<longleftrightarrow> lit_char u \<in> set [CHR '' '', TAB, LF, CR]"
    unfolding in_set_int_iff [OF v(3,4) plain_positive(1)] in_set_int_iff [OF v(3,4) plain_positive(2)] v(2)
    by (rule refl)+
  have s: "{CHR '' '', TAB, LF, CR} = set [CHR '' '', TAB, LF, CR]" by simp
  have IH: "weird_loop (texts_of us) = Inr (is_weird us)" using Cons by simp
  have "weird_loop (lit_text u @ texts_of us) =
      (if \<not> in_set_int v plain_chars then Inr True
       else if in_set_int v [CHR '' '', TAB, LF, CR] \<and> chr_at (texts_of us) 0 = CHR '':'' then Inr True
       else weird_loop (texts_of us))"
    by (subst weird_loop.simps) (simp only: v(1,5) if_False bindE.simps prod.case lit_text_drop)
  then show ?case unfolding texts_of_simps is_weird.simps p IH s or_of_ifs .
qed

section \<open>What is written\<close>

lemma texts_head: "lits_ok us \<Longrightarrow> chr_at (texts_of us) 0 = NUL \<longleftrightarrow> us = []"
proof (cases us)
  case (Cons u us')
  moreover assume "lits_ok us"
  ultimately show ?thesis using lit_step [of u "texts_of us'"] by auto
qed simp

lemma lit_text_nonempty: "lit_text u \<noteq> []"
  by (cases u) auto

lemma drop_lit_text: "drop (length (lit_text u) - 1 + 1) (lit_text u @ r) = r"
  using lit_text_nonempty [of u] by (cases "lit_text u") auto

text \<open>The choice both loops make between an escape and a plain character.\<close>

lemma lit_regular:
  assumes "lit_ok u" "ends_before u r"
  shows "(if chr_at (lit_text u @ r) 0 = CHR 0x5C
           then bindE (escape_lookup (lit_text u @ r)) (\<lambda>c. Inr (to_char c, drop (amount_of_escaped_chars_to_skip (lit_text u @ r) + 1) (lit_text u @ r)))
           else Inr (chr_at (lit_text u @ r) 0, drop 1 (lit_text u @ r))) = Inr (lit_char u, r)"
proof (cases "\<exists>c. u = Plain c")
  case True
  then obtain c where u: "u = Plain c" by blast
  then show ?thesis using assms(1) by simp
next
  case False
  then obtain v where v: "escape_lookup (lit_text u @ r) = Inr v" "to_char v = lit_char u"
      "amount_of_escaped_chars_to_skip (lit_text u @ r) = length (lit_text u) - 1" "chr_at (lit_text u @ r) 0 = CHR 0x5C"
    using escape_lit [OF assms] by blast
  show ?thesis unfolding v(4) if_P [OF refl] v(1) bindE.simps v(2,3) drop_lit_text ..
qed

lemma collect_regular_lits:
  "lits_ok us \<Longrightarrow> us \<noteq> [] \<Longrightarrow> int (length hold + length us) \<le> m - 3 \<Longrightarrow>
   collect_regular_loop m (texts_of us) hold = Inr (hold @ map lit_char us)"
proof (induction us arbitrary: hold)
  case (Cons u us)
  have r: "requireE (int (length hold) < m - 3) String_Too_Long = Inr ()" using Cons.prems by (simp add: requireE_def)
  have l: "lit_ok u" "ends_before u (texts_of us)" using Cons.prems by simp_all
  have h: "chr_at (texts_of us) 0 \<noteq> NUL \<longleftrightarrow> us \<noteq> []" using texts_head [of us] Cons.prems by simp
  have "collect_regular_loop m (lit_text u @ texts_of us) hold =
     (if chr_at (texts_of us) 0 \<noteq> NUL then collect_regular_loop m (texts_of us) (hold @ [lit_char u]) else Inr (hold @ [lit_char u]))"
    by (subst collect_regular_loop.simps) (simp only: r lit_regular [OF l] bindE.simps prod.case)
  then show ?case using Cons.IH [of "hold @ [lit_char u]"] Cons.prems h by (cases us) auto
qed simp

text \<open>A byte as \<open>collect_weird_string\<close> writes it.\<close>

definition hex_byte :: "char \<Rightarrow> string" where
  "hex_byte c = [CHR '' '', hex_table ! (of_char c div 16), hex_table ! (of_char c mod 16)]"

lemma and_15_mod: "(i :: int) AND 15 = i mod 16" "(i :: int) AND 0xFF = i mod 256"
proof -
  have "(15 :: int) = mask 4" "(0xFF :: int) = mask 8" by (simp_all add: mask_eq_exp_minus_1)
  then show "i AND 15 = i mod 16" "i AND 0xFF = i mod 256"
    by (simp_all only: take_bit_eq_mask [symmetric] take_bit_eq_mod) simp_all
qed

lemma of_char_less_256: "(of_char c :: nat) < 256"
  by (metis of_char_mod_256 mod_less_divisor zero_less_numeral)

lemma weird_byte:
  "[CHR '' '', chr_at hex_table (nat ((v AND 0xFF) div 2 ^ 4)), chr_at hex_table (nat ((v AND 0xFF) AND 15))] = hex_byte (to_char v)"
proof -
  have m: "v AND 0xFF = int (of_char (to_char v))"
    by (simp add: and_15_mod to_char_def of_char_of of_nat_of_char) 
  define n :: nat where "n = of_char (to_char v)"
  have n: "n < 256" unfolding n_def by (rule of_char_less_256)
  have "nat (int n div 16) = n div 16" "nat (int n mod 16) = n mod 16"
    by (simp_all add: nat_div_distrib nat_mod_distrib)
  moreover have "n div 16 < 16" "n mod 16 < 16" using n by auto
  moreover have "length hex_table = 16" by simp
  ultimately show ?thesis
    unfolding m hex_byte_def n_def [symmetric] by (simp only: and_15_mod chr_at_def) simp
qed

lemma collect_weird_lits:
  "lits_ok us \<Longrightarrow> us \<noteq> [] \<Longrightarrow> int (length hold + 3 * length us) \<le> m - 4 \<Longrightarrow>
   collect_weird_loop m (x # texts_of us) hold = Inr (hold @ concat (map hex_byte (map lit_char us)))"
proof (induction us arbitrary: hold x)
  case (Cons u us)
  have r: "requireE (int (length hold) < m - 6) Weird_Too_Long = Inr ()" using Cons.prems by (simp add: requireE_def)
  obtain v where v: "escape_lookup (lit_text u @ texts_of us) = Inr v" "to_char v = lit_char u"
    using lit_step [of u "texts_of us"] Cons.prems by auto
  have h: "chr_at (texts_of us) 0 \<noteq> NUL \<longleftrightarrow> us \<noteq> []" using texts_head [of us] Cons.prems by simp
  have d: "(if chr_at (lit_text u @ texts_of us) 0 = CHR 0x5C
      then drop (amount_of_escaped_chars_to_skip (lit_text u @ texts_of us)) (lit_text u @ texts_of us)
      else lit_text u @ texts_of us) = drop (length (lit_text u) - 1) (lit_text u @ texts_of us)"
  proof (cases "\<exists>c. u = Plain c")
    case True
    then obtain c where "u = Plain c" by blast
    then show ?thesis using Cons.prems by simp
  next
    case False
    then show ?thesis using escape_lit [of u "texts_of us"] Cons.prems by auto
  qed
  obtain y where y: "drop (length (lit_text u) - 1) (lit_text u @ texts_of us) = y # texts_of us"
    using lit_text_nonempty [of u] by (cases "lit_text u" rule: rev_cases) auto
  have "collect_weird_loop m (x # lit_text u @ texts_of us) hold =
     (if chr_at (texts_of us) 0 \<noteq> NUL then collect_weird_loop m (y # texts_of us) (hold @ hex_byte (lit_char u))
      else Inr (hold @ hex_byte (lit_char u)))"
    by (subst collect_weird_loop.simps)
      (simp only: r Let_def drop_Suc_Cons One_nat_def drop_0 v(1) bindE.simps d weird_byte v(2) y [unfolded One_nat_def] chr_at_Cons_Suc)
  then show ?case using Cons.IH [of "hold @ hex_byte (lit_char u)" y] Cons.prems h
    by (cases us) (auto simp: hex_byte_def)
qed simp

lemma string_size_lits:
  "lits_ok us \<Longrightarrow> string_size_loop (pre @ texts_of us) (length pre) n = Some (n + length us)"
proof (induction us arbitrary: pre n)
  case Nil
  then show ?case by (simp add: string_size_loop.simps chr_at_def)
next
  case (Cons u us)
  let ?s = "pre @ lit_text u @ texts_of us"
  have c: "chr_at ?s (length pre) = chr_at (lit_text u @ texts_of us) 0"
    by (simp add: chr_at_def nth_append)
  have nn: "chr_at (lit_text u @ texts_of us) 0 \<noteq> NUL" using lit_step [of u "texts_of us"] Cons.prems by auto
  have d: "(if chr_at (lit_text u @ texts_of us) 0 = CHR 0x5C
      then length pre + amount_of_escaped_chars_to_skip (drop (length pre) ?s) else length pre) + 1 = length (pre @ lit_text u)"
  proof (cases "\<exists>c. u = Plain c")
    case True
    then obtain c where "u = Plain c" by blast
    then show ?thesis using Cons.prems by simp
  next
    case False
    then show ?thesis using escape_lit [of u "texts_of us"] Cons.prems lit_text_nonempty [of u]
      by (cases "lit_text u") auto
  qed
  have "string_size_loop ?s (length pre) n = string_size_loop ?s (length (pre @ lit_text u)) (n + 1)"
    by (subst string_size_loop.simps) (simp only: c nn d, simp)
  then show ?case using Cons.IH [of "pre @ lit_text u" "n + 1"] Cons.prems by simp
qed

text \<open>The two forms: text between quotes, or the bytes and a zero in hexadecimal.\<close>

definition regular_form :: "string \<Rightarrow> string" where
  "regular_form cs = CHR 0x22 # cs @ [CHR 0x22, LF]"

definition weird_form :: "string \<Rightarrow> string" where
  "weird_form cs = CHR 0x27 # concat (map hex_byte cs) @ '' 00'' @ [CHR 0x27, LF]"

lemma copy_string_whole: "NUL \<notin> set s \<Longrightarrow> CcReader.copy_string s (int (length s)) = s"
proof -
  have "NUL \<notin> set s \<Longrightarrow> i + int (length s) \<le> m \<Longrightarrow> copy_string_loop i m s = s" for i m
  proof (induction s arbitrary: i)
    case (Cons c s)
    then show ?case using Cons.IH [of "i + 1"] by auto
  qed simp
  then show "NUL \<notin> set s \<Longrightarrow> ?thesis" by (simp add: copy_string_def)
qed

lemma not_weird_plain: "\<not> is_weird us \<Longrightarrow> set (map lit_char us) \<subseteq> set plain_chars"
  by (induction us) auto

lemma plain_not: "NUL \<notin> set plain_chars" "CHR 0x22 \<notin> set plain_chars"
  by code_simp+

lemma hex_byte_not_nul: "NUL \<notin> set (hex_byte c)"
proof -
  have "(of_char c :: nat) div 16 < 16" "(of_char c :: nat) mod 16 < 16"
    using of_char_less_256 [of c] by (simp_all add: less_mult_imp_div_less)
  moreover have "length hex_table = 16" by simp
  ultimately have "hex_table ! (of_char c div 16) \<in> set hex_table" "hex_table ! (of_char c mod 16) \<in> set hex_table"
    by (simp_all only: nth_mem)
  moreover have "NUL \<notin> set hex_table" by simp
  ultimately have "hex_table ! (of_char c div 16) \<noteq> NUL" "hex_table ! (of_char c mod 16) \<noteq> NUL" by metis+
  then show ?thesis unfolding hex_byte_def by (simp only: list.set) auto
qed

lemma parse_string_lits:
  assumes "lits_ok us" "3 * int (length us) + 5 \<le> m"
  shows "parse_string m (CHR 0x22 # texts_of us) =
      Inr (if is_weird us then weird_form (map lit_char us) else regular_form (map lit_char us)) \<and>
    string_size (CHR 0x22 # texts_of us) = Some (length us + 1)"
proof
  have w: "weird (CHR 0x22 # texts_of us) = Inr (is_weird us)"
    using weird_loop_lits [OF assms(1)] by (simp add: weird_def)
  show "parse_string m (CHR 0x22 # texts_of us) =
      Inr (if is_weird us then weird_form (map lit_char us) else regular_form (map lit_char us))"
  proof (cases "is_weird us")
    case True
    then have "us \<noteq> []" by auto
    then have l: "collect_weird_loop m (CHR 0x22 # texts_of us) [CHR 0x27] = Inr ([CHR 0x27] @ concat (map hex_byte (map lit_char us)))"
      using assms by (intro collect_weird_lits) auto
    have "NUL \<notin> set (weird_form (map lit_char us))" using hex_byte_not_nul by (auto simp: weird_form_def)
    from copy_string_whole [OF this] show ?thesis
      using True w l by (simp add: parse_string_def collect_weird_string_def weird_form_def add.commute)
  next
    case False
    have q: "lits_ok (Plain CHR 0x22 # us)" using assms(1) by simp
    have l: "collect_regular_loop m (CHR 0x22 # texts_of us) [] = Inr (CHR 0x22 # map lit_char us)"
      using collect_regular_lits [OF q, of "[]" m] assms(2) by simp
    have "NUL \<notin> set (regular_form (map lit_char us))"
      using not_weird_plain [OF False] plain_not(1) by (auto simp: regular_form_def)
    from copy_string_whole [OF this] show ?thesis
      using False w l by (simp add: parse_string_def collect_regular_string_def regular_form_def add.commute)
  qed
  show "string_size (CHR 0x22 # texts_of us) = Some (length us + 1)"
    using string_size_lits [OF assms(1), of "[CHR 0x22]" 0] by (simp add: string_size_def)
qed


text \<open>
  C22. For every string literal that fits the buffer (within \<open>MAX_STRING\<close>) the compiler counts one byte for each of its characters and escapes
  and one for the terminator, and writes exactly the bytes it stands for: as text between quotes,
  or, where a byte cannot be written so, in hexadecimal with the terminator.
\<close>

theorem parse_string_literal:
  assumes "lits_ok us" "3 * int (length us) + 5 \<le> m"
  shows "parse_string m (CHR 0x22 # texts_of us) =
      Inr (if is_weird us then weird_form (map lit_char us) else regular_form (map lit_char us)) \<and>
    string_size (CHR 0x22 # texts_of us) = Some (length us + 1)"
  using assms by (rule parse_string_lits)

lemma parse_string_literal_witness:
  "parse_string 64 (CHR 0x22 # ''a'' @ [CHR 0x5C] @ ''n'' @ [CHR 0x5C] @ ''x1fb'') =
     Inr (CHR 0x27 # '' 61 0A 1F 62 00'' @ [CHR 0x27, LF]) \<and>
   string_size (CHR 0x22 # ''a'' @ [CHR 0x5C] @ ''n'' @ [CHR 0x5C] @ ''x1fb'') = Some 5"
proof -
  let ?us = "[Plain CHR ''a'', Simple CHR ''n'', Hexadecimal CHR ''1'' CHR ''f'', Plain CHR ''b'']"
  have ok: "lits_ok ?us" by code_simp
  have w: "is_weird ?us" by code_simp
  have f: "weird_form (map lit_char ?us) = CHR 0x27 # '' 61 0A 1F 62 00'' @ [CHR 0x27, LF]" by code_simp
  show ?thesis using parse_string_literal [OF ok, of 64] w f by simp
qed

end
