(* ===== verification/StringPipeline.thy ===== *)
theory StringPipeline
  imports M1Bytes CcLiterals
begin









end
