(* ===== verification/CcMacroState.thy ===== *)
theory CcMacroState
  imports CcTokenList
begin

text \<open>
  The state of the preprocessor (\<^verbatim>\<open>stages/3-micro-c/micro-c/cc_macro.c\<close>) and what its operations
  do to the token list.

  The nodes of the token list and of the replacement lists of macros live in one store; a pointer is
  \<open>None\<close> (\<open>NULL\<close>) or \<open>Some\<close> address. A node has, beside the fields that the tokenizer sets,
  \<open>no_expand\<close>. The list \<open>macro_env\<close> is the list of its nodes, the newest first; the address of one is the number
  of nodes behind it. \<open>free\<close> has no effect here. \<open>match\<close> on two C strings is equality
  (\<open>match_loop_iff\<close> in \<open>Bootstrappable\<close>), so equality is written for it.

  An operation takes the state and gives an error (every \<open>exit\<close>, a null pointer that is read, a
  store outside a buffer, what C leaves undefined), or its value and the new state; \<open>None\<close> is that it does not return.
  \<open>bindP\<close> is the sequence of two of them. What is printed is left out.
\<close>

section \<open>State\<close>

record pp_token = token_list +
  no_expand :: bool

record macro =
  mac_symbol :: string
  mac_expansion :: "nat option"
  mac_arguments :: "string option list option"

record pp =
  heap :: "pp_token list"
  global_token :: "nat option"
  macro_token :: "nat option"
  macro_env :: "macro list"
  conditional_inclusion_top :: "u32 list"
  expand_depth :: int
  pp_max_string :: nat
  FOLLOW_INCLUDES :: bool
  include_paths :: "string list"
  pp_files :: "string \<Rightarrow> string option"

datatype pp_error =
    Null_Dereference
  | Null_Token
  | Undefined_In_C
  | Outside_Buffer
  | Eof_In_Expression
  | Missing_Paren
  | Divide_By_Zero
  | Null_Expansion
  | Int2str int2str_error
  | Eof_In_Define
  | Newline_After_Define
  | Variadic_Macro
  | Error_Directive
  | Include_Not_Found string
  | Reading reader_error
  | No_Leading_If
  | Unexpected_Endif
  | Unterminated_If
  | Unterminated_Message
  | Expand_Last_Token
  | Wrong_Arguments
  | Argument_Too_Long
  | Eof_In_Arguments
  | Expansion_Too_Deep
  | Newline_Expected
  | No_Input

type_synonym 'a run = "pp \<Rightarrow> (pp_error + 'a \<times> pp) option"

section \<open>Sequencing\<close>

definition ret :: "'a \<Rightarrow> 'a run" where
  "ret x st = Some (Inr (x, st))"

definition fail :: "pp_error \<Rightarrow> 'a run" where
  "fail e st = Some (Inl e)"

definition bindP :: "'a run \<Rightarrow> ('a \<Rightarrow> 'b run) \<Rightarrow> 'b run" where
  "bindP m f st = Option.bind (m st) (\<lambda>r. case r of Inl e \<Rightarrow> Some (Inl e) | Inr (x, st) \<Rightarrow> f x st)"

definition require :: "bool \<Rightarrow> pp_error \<Rightarrow> unit run" where
  "require b e = (if b then ret () else fail e)"

definition get :: "(pp \<Rightarrow> 'a) \<Rightarrow> 'a run" where
  "get f st = Some (Inr (f st, st))"

definition put :: "(pp \<Rightarrow> pp) \<Rightarrow> unit run" where
  "put f st = Some (Inr ((), f st))"

definition lift :: "pp_error + 'a \<Rightarrow> 'a run" where
  "lift r = (case r of Inl e \<Rightarrow> fail e | Inr x \<Rightarrow> ret x)"

lemma run_simps [simp]:
  "bindP (ret x) f = f x" "bindP (fail e) f = fail e" "require True e = ret ()" "require False e = fail e"
  "lift (Inl e) = fail e" "lift (Inr x) = ret x"
  by (simp_all add: fun_eq_iff bindP_def ret_def fail_def require_def lift_def)

lemma mono_bindP [partial_function_mono]:
  assumes "\<And>st. mono_option (\<lambda>f. B f st)" "\<And>x st. mono_option (\<lambda>f. C f x st)"
  shows "mono_option (\<lambda>f. bindP (B f) (C f) st)"
  unfolding bindP_def
proof (intro bind_mono assms)
  fix y
  show "mono_option (\<lambda>f. case y of Inl e \<Rightarrow> Some (Inl e) | Inr (x, st) \<Rightarrow> C f x st)"
    by (cases y) (auto split: prod.splits intro: assms option.const_mono)
qed

lemma mono_if_run [partial_function_mono]:
  assumes "mono_option (\<lambda>f. A f st)" "mono_option (\<lambda>f. B f st)"
  shows "mono_option (\<lambda>f. (if b then A f else B f) st)"
  using assms by (cases b) simp_all

lemma mono_option_run [partial_function_mono]:
  assumes "mono_option (\<lambda>f. A f st)" "\<And>x. mono_option (\<lambda>f. B f x st)"
  shows "mono_option (\<lambda>f. (case r of None \<Rightarrow> A f | Some x \<Rightarrow> B f x) st)"
  using assms by (cases r) simp_all

lemma mono_pair_run [partial_function_mono]:
  assumes "\<And>a b. mono_option (\<lambda>f. B f a b st)"
  shows "mono_option (\<lambda>f. (case p of (a, b) \<Rightarrow> B f a b) st)"
  using assms by (cases p) simp_all

lemma mono_let_run [partial_function_mono]:
  "mono_option (\<lambda>f. B f v st) \<Longrightarrow> mono_option (\<lambda>f. (let x = v in B f x) st)"
  by simp

section \<open>Reading and writing nodes\<close>

text \<open>The node a pointer points to.\<close>

definition node_at :: "nat option \<Rightarrow> pp_token run" where
  "node_at p st = (case p of None \<Rightarrow> fail Null_Dereference st | Some a \<Rightarrow> ret (heap st ! a) st)"

definition set_node :: "nat option \<Rightarrow> (pp_token \<Rightarrow> pp_token) \<Rightarrow> unit run" where
  "set_node p f st = (case p of None \<Rightarrow> fail Null_Dereference st
     | Some a \<Rightarrow> ret () (st\<lparr>heap := (heap st)[a := f (heap st ! a)]\<rparr>))"

definition new_node :: "pp_token \<Rightarrow> nat run" where
  "new_node n st = ret (length (heap st)) (st\<lparr>heap := heap st @ [n]\<rparr>)"

text \<open>The text of the current token, \<open>macro_token->s\<close>.\<close>

definition cur :: "string run" where
  "cur = bindP (get macro_token) (\<lambda>p. bindP (node_at p) (\<lambda>n. ret (tl_s n)))"

definition take_out :: "nat option \<Rightarrow> (nat option) run" where
  "take_out p st = (case p of None \<Rightarrow> fail Null_Dereference st
     | Some a \<Rightarrow> (case eat_token (heap st) a of (h, q) \<Rightarrow> ret q (st\<lparr>heap := h\<rparr>)))"

definition eat_current_token :: "unit run" where
  "eat_current_token =
    bindP (get (\<lambda>st. macro_token st = global_token st)) (\<lambda>update_global_token.
    bindP (get macro_token) (\<lambda>p.
    bindP (take_out p) (\<lambda>q.
    bindP (put (\<lambda>st. st\<lparr>macro_token := q\<rparr>)) (\<lambda>_.
    put (\<lambda>st. if update_global_token then st\<lparr>global_token := macro_token st\<rparr> else st)))))"

definition next_token :: "unit run" where
  "next_token = bindP (get macro_token) (\<lambda>p. bindP (node_at p) (\<lambda>n. put (\<lambda>st. st\<lparr>macro_token := tl_next n\<rparr>)))"

partial_function (option) eat_newline_loop :: "pp \<Rightarrow> (pp_error + unit \<times> pp) option" where
  "eat_newline_loop st =
    (if macro_token st = None then ret () st
     else bindP cur (\<lambda>s. bindP (if s = [LF] then eat_current_token else next_token) (\<lambda>_. eat_newline_loop)) st)"

definition eat_newline_tokens :: "unit run" where
  "eat_newline_tokens = bindP (put (\<lambda>st. st\<lparr>macro_token := global_token st\<rparr>)) (\<lambda>_. eat_newline_loop)"

declare eat_newline_loop.simps [code]

end
