(* ===== verification/CcMacroExpr.thy ===== *)
theory CcMacroExpr
  imports CcMacroState "HOL-Library.Signed_Division"
begin

text \<open>
  The table of macros and the evaluator of \<open>#if\<close> expressions of
  \<^verbatim>\<open>stages/3-micro-c/micro-c/cc_macro.c\<close>.

  An \<open>int\<close> is a \<open>u32\<close> read in two's complement; sums and products wrap. A shift by less than 0 or
  more than 31 and the quotient of the least integer by -1 are undefined in C, the error
  \<open>Undefined_In_C\<close>. The four levels of the recursive descent call one another, so they are one
  function with the level as an argument; each level is a definition of its own, with the recursion
  as the argument \<open>rec\<close>.
\<close>

section \<open>The table\<close>

definition init_macro_env :: "string \<Rightarrow> string \<Rightarrow> string \<Rightarrow> u32 \<Rightarrow> unit run" where
  "init_macro_env symb val source num =
    bindP (new_node \<lparr>tl_next = None, tl_prev = None, tl_s = val, tl_filename = source, tl_linenumber = num, no_expand = False\<rparr>) (\<lambda>a.
    put (\<lambda>st. st\<lparr>macro_env := \<lparr>mac_symbol = symb, mac_expansion = Some a, mac_arguments = None\<rparr> # macro_env st\<rparr>))"

text \<open>
  \<open>create_replacement_token\<close>, with the text that the caller puts into the new token. It returns
  the new macro and its address.
\<close>

definition create_replacement_token :: "string \<Rightarrow> pp_token \<Rightarrow> string \<Rightarrow> (nat \<times> macro) run" where
  "create_replacement_token symb tok s =
    bindP (new_node \<lparr>tl_next = None, tl_prev = None, tl_s = s, tl_filename = [], tl_linenumber = tl_linenumber tok, no_expand = False\<rparr>) (\<lambda>a.
    bindP (get (\<lambda>st. length (macro_env st))) (\<lambda>n.
    let hold = \<lparr>mac_symbol = symb, mac_expansion = Some a, mac_arguments = None\<rparr> in
    bindP (put (\<lambda>st. st\<lparr>macro_env := hold # macro_env st\<rparr>)) (\<lambda>_.
    ret (n, hold))))"

fun find_macro :: "string \<Rightarrow> macro list \<Rightarrow> (nat \<times> macro) option" where
  "find_macro s [] = None"
| "find_macro s (hold # rest) = (if s = mac_symbol hold then Some (length rest, hold) else find_macro s rest)"

definition lookup_macro :: "nat option \<Rightarrow> (nat \<times> macro) option run" where
  "lookup_macro tk =
    (if tk = None then fail Null_Token
     else bindP (node_at tk) (\<lambda>tok.
       if tl_s tok = ''__LINE__''
       then bindP (lift (map_sum Int2str id (int2str (tl_linenumber tok) 10 True))) (\<lambda>s.
            bindP (create_replacement_token ''__LINE__'' tok s) (\<lambda>hold. ret (Some hold)))
       else if tl_s tok = ''__FILE__''
       then bindP (get (\<lambda>st. concat_strings2 (int (pp_max_string st)) [CHR 0x22] (tl_filename tok))) (\<lambda>r.
            case r of None \<Rightarrow> fail Outside_Buffer
            | Some s \<Rightarrow> bindP (create_replacement_token ''__FILE__'' tok s) (\<lambda>hold. ret (Some hold)))
       else get (\<lambda>st. find_macro (tl_s tok) (macro_env st))))"

text \<open>The two loops of \<open>remove_macro\<close>: over the matches at the head, and over those further in.\<close>

fun remove_further :: "string \<Rightarrow> macro list \<Rightarrow> macro list" where
  "remove_further s [] = []"
| "remove_further s (hold # rest) = (if s = mac_symbol hold then remove_further s rest else hold # remove_further s rest)"

definition remove_from :: "string \<Rightarrow> macro list \<Rightarrow> macro list" where
  "remove_from s env =
    (case dropWhile (\<lambda>hold. s = mac_symbol hold) env of
       [] \<Rightarrow> []
     | hold # rest \<Rightarrow> hold # remove_further s rest)"

definition remove_macro :: "nat option \<Rightarrow> unit run" where
  "remove_macro tk =
    (if tk = None then fail Null_Token
     else bindP (node_at tk) (\<lambda>tok. put (\<lambda>st. st\<lparr>macro_env := remove_from (tl_s tok) (macro_env st)\<rparr>)))"

section \<open>Identifiers and numbers\<close>

text \<open>
  The loop of \<open>macro_variable\<close>: from a macro to the macro that its replacement begins with, at most
  64 times; \<open>n\<close> is 64 less \<open>depth\<close>. Macros are the same when their addresses are.
\<close>

fun variable_loop :: "nat \<Rightarrow> nat \<times> macro \<Rightarrow> macro run" where
  "variable_loop n hold =
    (if mac_expansion (snd hold) = None then fail Null_Expansion
     else bindP (lookup_macro (mac_expansion (snd hold))) (\<lambda>r.
       case r of
         None \<Rightarrow> ret (snd hold)
       | Some nxt \<Rightarrow>
           if fst nxt = fst hold then ret (snd hold)
           else (case n of 0 \<Rightarrow> ret (snd hold) | Suc n \<Rightarrow> variable_loop n nxt)))"

declare variable_loop.simps [simp del]

definition macro_variable :: "u32 run" where
  "macro_variable =
    bindP (get macro_token) (\<lambda>p.
    bindP (lookup_macro p) (\<lambda>hold.
    bindP (case hold of
             None \<Rightarrow> ret 0
           | Some hold \<Rightarrow> bindP (variable_loop 64 hold) (\<lambda>hold.
               bindP (node_at (mac_expansion hold)) (\<lambda>tok. ret (strtoint (tl_s tok))))) (\<lambda>val.
    bindP eat_current_token (\<lambda>_. ret val))))"

definition macro_number :: "u32 run" where
  "macro_number = bindP cur (\<lambda>s. bindP eat_current_token (\<lambda>_. ret (strtoint s)))"

section \<open>The levels\<close>

datatype level = Primary | Additive | Relational | Bitwise

definition not_eof :: "unit run" where
  "not_eof = bindP (get macro_token) (\<lambda>p. require (p \<noteq> None) Eof_In_Expression)"

abbreviation letters :: string where
  "letters \<equiv> ''abcdefghijklmnopqrstuvwxyzABCDEFGHIJKLMNOPQRSTUVWXYZ_''"

text \<open>What follows \<open>defined\<close>.\<close>

definition macro_defined :: "u32 run" where
  "macro_defined =
    bindP eat_current_token (\<lambda>_.
    bindP not_eof (\<lambda>_.
    bindP cur (\<lambda>s.
    let defined_has_paren = (chr_at s 0 = CHR ''('') in
    bindP (if defined_has_paren then eat_current_token else ret ()) (\<lambda>_.
    bindP (get macro_token) (\<lambda>p.
    bindP (lookup_macro p) (\<lambda>r.
    bindP eat_current_token (\<lambda>_.
    bindP (if defined_has_paren
           then bindP not_eof (\<lambda>_.
                bindP cur (\<lambda>s.
                bindP (require (chr_at s 0 = CHR '')'') Missing_Paren) (\<lambda>_. eat_current_token)))
           else ret ()) (\<lambda>_.
    ret (of_bool (r \<noteq> None))))))))))"

definition macro_primary_expr :: "(level \<Rightarrow> u32 run) \<Rightarrow> u32 run" where
  "macro_primary_expr rec =
    bindP not_eof (\<lambda>_.
    bindP cur (\<lambda>s.
      if chr_at s 0 = CHR ''-'' then bindP eat_current_token (\<lambda>_. bindP (rec Primary) (\<lambda>v. ret (- v)))
      else if chr_at s 0 = CHR ''!'' then bindP eat_current_token (\<lambda>_. bindP (rec Primary) (\<lambda>v. ret (of_bool (v = 0))))
      else if chr_at s 0 = CHR ''('' then
        bindP eat_current_token (\<lambda>_.
        bindP (rec Bitwise) (\<lambda>hold.
        bindP cur (\<lambda>s.
        bindP (require (chr_at s 0 = CHR '')'') Missing_Paren) (\<lambda>_.
        bindP eat_current_token (\<lambda>_. ret hold)))))
      else if s = ''defined'' then macro_defined
      else if in_set (chr_at s 0) letters then macro_variable
      else if in_set (chr_at s 0) ''0123456789'' then macro_number
      else ret 0))"

text \<open>The operators of each level, with what they do to their operands.\<close>

definition shift_by :: "u32 \<Rightarrow> (nat \<Rightarrow> u32) \<Rightarrow> u32 run" where
  "shift_by r f = (if 0 \<le> sint r \<and> sint r < 32 then ret (f (nat (sint r))) else fail Undefined_In_C)"

definition divide_by :: "u32 \<Rightarrow> u32 \<Rightarrow> (int \<Rightarrow> int \<Rightarrow> int) \<Rightarrow> u32 run" where
  "divide_by l r f =
    (if r = 0 then fail Divide_By_Zero
     else if sint l = - (2 ^ 31) \<and> sint r = -1 then fail Undefined_In_C
     else ret (word_of_int (f (sint l) (sint r))))"

fun additive_op :: "string \<Rightarrow> (u32 \<Rightarrow> u32 \<Rightarrow> u32 run) option" where
  "additive_op s =
    (if s = ''+'' then Some (\<lambda>l r. ret (l + r))
     else if s = ''-'' then Some (\<lambda>l r. ret (l - r))
     else if s = ''*'' then Some (\<lambda>l r. ret (l * r))
     else if s = ''/'' then Some (\<lambda>l r. divide_by l r (sdiv))
     else if s = ''%'' then Some (\<lambda>l r. divide_by l r (smod))
     else if s = ''>>'' then Some (\<lambda>l r. shift_by r (\<lambda>n. signed_drop_bit n l))
     else if s = ''<<'' then Some (\<lambda>l r. shift_by r (\<lambda>n. push_bit n l))
     else None)"

fun relational_op :: "string \<Rightarrow> (u32 \<Rightarrow> u32 \<Rightarrow> u32 run) option" where
  "relational_op s =
    (if s = ''<'' then Some (\<lambda>l r. ret (of_bool (sint l < sint r)))
     else if s = ''<='' then Some (\<lambda>l r. ret (of_bool (sint l \<le> sint r)))
     else if s = ''>='' then Some (\<lambda>l r. ret (of_bool (sint l \<ge> sint r)))
     else if s = ''>'' then Some (\<lambda>l r. ret (of_bool (sint l > sint r)))
     else if s = ''=='' then Some (\<lambda>l r. ret (of_bool (l = r)))
     else if s = ''!='' then Some (\<lambda>l r. ret (of_bool (l \<noteq> r)))
     else None)"

fun bitwise_op :: "string \<Rightarrow> (u32 \<Rightarrow> u32 \<Rightarrow> u32 run) option" where
  "bitwise_op s =
    (if s = ''&'' then Some (\<lambda>l r. ret (l AND r))
     else if s = ''&&'' then Some (\<lambda>l r. ret (of_bool (l \<noteq> 0 \<and> r \<noteq> 0)))
     else if s = ''|'' then Some (\<lambda>l r. ret (l OR r))
     else if s = ''||'' then Some (\<lambda>l r. ret (of_bool (l \<noteq> 0 \<or> r \<noteq> 0)))
     else if s = ''^'' then Some (\<lambda>l r. ret (l XOR r))
     else None)"

declare additive_op.simps [simp del] relational_op.simps [simp del] bitwise_op.simps [simp del]

text \<open>What the three levels have in common: an operand, and behind an operator the level again.\<close>

definition binary_rest :: "(string \<Rightarrow> (u32 \<Rightarrow> u32 \<Rightarrow> u32 run) option) \<Rightarrow> u32 run \<Rightarrow> u32 \<Rightarrow> u32 run" where
  "binary_rest opr again lhs =
    bindP cur (\<lambda>s.
      case opr s of
        None \<Rightarrow> ret lhs
      | Some f \<Rightarrow> bindP eat_current_token (\<lambda>_. bindP again (\<lambda>rhs. f lhs rhs)))"

definition macro_additive_expr :: "(level \<Rightarrow> u32 run) \<Rightarrow> u32 run" where
  "macro_additive_expr rec = bindP (rec Primary) (\<lambda>lhs. bindP not_eof (\<lambda>_. binary_rest additive_op (rec Additive) lhs))"

definition macro_relational_expr :: "(level \<Rightarrow> u32 run) \<Rightarrow> u32 run" where
  "macro_relational_expr rec = bindP (rec Additive) (\<lambda>lhs. binary_rest relational_op (rec Relational) lhs)"

definition macro_bitwise_expr :: "(level \<Rightarrow> u32 run) \<Rightarrow> u32 run" where
  "macro_bitwise_expr rec = bindP (rec Relational) (\<lambda>lhs. binary_rest bitwise_op (rec Bitwise) lhs)"

lemma mono_binary_rest [partial_function_mono]:
  assumes "\<And>st. mono_option (\<lambda>f. A f st)"
  shows "mono_option (\<lambda>f. binary_rest opr (A f) lhs st)"
  unfolding binary_rest_def by (intro mono_bindP mono_option_run option.const_mono assms)

lemma mono_levels [partial_function_mono]:
  assumes "\<And>lev st. mono_option (\<lambda>f. R f lev st)"
  shows "mono_option (\<lambda>f. macro_primary_expr (R f) st)" "mono_option (\<lambda>f. macro_additive_expr (R f) st)"
    "mono_option (\<lambda>f. macro_relational_expr (R f) st)" "mono_option (\<lambda>f. macro_bitwise_expr (R f) st)"
  unfolding macro_primary_expr_def macro_additive_expr_def macro_relational_expr_def macro_bitwise_expr_def
  by (intro mono_bindP mono_if_run mono_binary_rest option.const_mono assms)+

partial_function (option) macro_eval :: "level \<Rightarrow> pp \<Rightarrow> (pp_error + u32 \<times> pp) option" where
  "macro_eval lev st =
    (case lev of
       Primary \<Rightarrow> macro_primary_expr macro_eval st
     | Additive \<Rightarrow> macro_additive_expr macro_eval st
     | Relational \<Rightarrow> macro_relational_expr macro_eval st
     | Bitwise \<Rightarrow> macro_bitwise_expr macro_eval st)"

definition macro_expression :: "u32 run" where
  "macro_expression = macro_eval Bitwise"

declare macro_eval.simps [code]

end
