(* ===== verification/CcMacroExpand.thy ===== *)
theory CcMacroExpand
  imports CcMacroExpr
begin

text \<open>
  The expansion of macros in \<^verbatim>\<open>stages/3-micro-c/micro-c/cc_macro.c\<close>: \<open>maybe_expand\<close> with the argument
  lists, \<open>#\<close> and \<open>##\<close>, and \<open>strip_attributes\<close>. \<open>macro_token\<close> and \<open>global_token\<close> are only
  read by the error messages here and by \<open>strip_attributes\<close>.
\<close>

section \<open>Copying lists of tokens\<close>

abbreviation no_token :: pp_token where
  "no_token \<equiv> \<lparr>tl_next = None, tl_prev = None, tl_s = [], tl_filename = [], tl_linenumber = 0, no_expand = False\<rparr>"

text \<open>A store through a pointer that is first tested for \<open>NULL\<close>.\<close>

definition set_if :: "nat option \<Rightarrow> (pp_token \<Rightarrow> pp_token) \<Rightarrow> unit run" where
  "set_if p f = (if p = None then ret () else set_node p f)"

text \<open>The loop of \<open>insert_tokens\<close>; \<open>point\<close> is where the copies go before.\<close>

definition insert_copy :: "nat option \<Rightarrow> pp_token \<Rightarrow> string \<Rightarrow> u32 \<Rightarrow> nat run" where
  "insert_copy point tok at_file at_line =
    bindP (new_node (no_token\<lparr>tl_s := tl_s tok, tl_filename := at_file, tl_linenumber := at_line,
        no_expand := no_expand tok, tl_next := point\<rparr>)) (\<lambda>copy.
    bindP (if point = None then ret ()
           else bindP (node_at point) (\<lambda>pt.
                bindP (set_node (Some copy) (\<lambda>n. n\<lparr>tl_prev := tl_prev pt\<rparr>)) (\<lambda>_.
                bindP (set_if (tl_prev pt) (\<lambda>n. n\<lparr>tl_next := Some copy\<rparr>)) (\<lambda>_.
                set_node point (\<lambda>n. n\<lparr>tl_prev := Some copy\<rparr>))))) (\<lambda>_.
    ret copy))"

partial_function (option) insert_loop ::
  "nat option \<Rightarrow> nat option \<Rightarrow> string \<Rightarrow> u32 \<Rightarrow> nat option \<Rightarrow> pp \<Rightarrow> (pp_error + nat option \<times> pp) option" where
  "insert_loop point tok at_file at_line first st =
    (if tok = None then ret first st
     else bindP (node_at tok) (\<lambda>n.
          bindP (insert_copy point n at_file at_line) (\<lambda>copy.
          bindP (node_at tok) (\<lambda>n.
          insert_loop point (tl_next n) at_file at_line (if first = None then Some copy else first)))) st)"

definition insert_tokens :: "nat option \<Rightarrow> nat option \<Rightarrow> string \<Rightarrow> u32 \<Rightarrow> (nat option) run" where
  "insert_tokens point tok at_file at_line = insert_loop point tok at_file at_line None"

partial_function (option) deep_copy_token_list :: "nat option \<Rightarrow> pp \<Rightarrow> (pp_error + nat option \<times> pp) option" where
  "deep_copy_token_list from st =
    (if from = None then ret None st
     else bindP (new_node no_token) (\<lambda>to.
          bindP (node_at from) (\<lambda>n.
          bindP (deep_copy_token_list (tl_next n)) (\<lambda>q.
          bindP (set_node (Some to) (\<lambda>m. m\<lparr>tl_next := q\<rparr>)) (\<lambda>_.
          bindP (set_if q (\<lambda>m. m\<lparr>tl_prev := Some to\<rparr>)) (\<lambda>_.
          bindP (node_at from) (\<lambda>n.
          bindP (set_node (Some to) (\<lambda>m. m\<lparr>tl_prev := tl_prev n, tl_s := tl_s n, tl_filename := tl_filename n,
              tl_linenumber := tl_linenumber n, no_expand := no_expand n\<rparr>)) (\<lambda>_.
          ret (Some to)))))))) st)"

partial_function (option) end_of_list :: "nat option \<Rightarrow> pp \<Rightarrow> (pp_error + nat option \<times> pp) option" where
  "end_of_list p st =
    bindP (node_at p) (\<lambda>n. if tl_next n = None then ret p else end_of_list (tl_next n)) st"

section \<open>Arguments\<close>

text \<open>
  \<open>#x\<close>: the texts of the argument with a space before each but the first, behind a quote, in a
  buffer of \<open>MAX_STRING\<close> bytes. Only the characters are checked against the end of the buffer.
\<close>

fun stringify_chars :: "nat \<Rightarrow> string \<Rightarrow> string \<Rightarrow> pp_error + string" where
  "stringify_chars m acc [] = Inr acc"
| "stringify_chars m acc (c # s) =
    (if length acc < m then stringify_chars m (acc @ [c]) s else Inl Argument_Too_Long)"

definition stringify_space :: "nat \<Rightarrow> string \<Rightarrow> pp_error + string" where
  "stringify_space m acc =
    (if 1 < length acc then if length acc < m then Inr (acc @ '' '') else Inl Outside_Buffer else Inr acc)"

partial_function (option) stringify_loop :: "nat option \<Rightarrow> string \<Rightarrow> pp \<Rightarrow> (pp_error + string \<times> pp) option" where
  "stringify_loop w acc st =
    (if w = None
     then bindP (get (\<lambda>st. length acc < pp_max_string st)) (\<lambda>b. bindP (require b Outside_Buffer) (\<lambda>_. ret acc)) st
     else bindP (node_at w) (\<lambda>n.
          bindP (get pp_max_string) (\<lambda>m.
          bindP (lift (bindE (stringify_space m acc) (\<lambda>acc. stringify_chars m acc (tl_s n)))) (\<lambda>acc.
          stringify_loop (tl_next n) acc))) st)"

text \<open>
  The parameter \<open>n\<close> of the expansion is replaced with a copy of the tokens from
  \<open>start_token\<close>. It returns where to go on, and the head of the expansion.
\<close>

definition replace_parameter :: "nat option \<Rightarrow> pp_token \<Rightarrow> nat option \<Rightarrow> (nat option \<times> nat option) run" where
  "replace_parameter start_token n expansion =
    bindP (deep_copy_token_list start_token) (\<lambda>start_token_copy.
    bindP (end_of_list start_token_copy) (\<lambda>end_token.
    bindP (set_if (tl_prev n) (\<lambda>m. m\<lparr>tl_next := start_token_copy\<rparr>)) (\<lambda>_.
    bindP (set_node start_token_copy (\<lambda>m. m\<lparr>tl_prev := tl_prev n\<rparr>)) (\<lambda>_.
    bindP (set_node end_token (\<lambda>m. m\<lparr>tl_next := tl_next n\<rparr>)) (\<lambda>_.
    bindP (set_if (tl_next n) (\<lambda>m. m\<lparr>tl_prev := end_token\<rparr>)) (\<lambda>_.
    bindP (node_at end_token) (\<lambda>e.
    ret (tl_next e, if tl_prev n = None then start_token_copy else expansion))))))))"

text \<open>The loop over the expansion for one argument. \<open>match\<close> with a name that is \<open>NULL\<close> is false.\<close>

partial_function (option) substitute_loop ::
  "string option \<Rightarrow> nat option \<Rightarrow> nat option \<Rightarrow> nat option \<Rightarrow> pp \<Rightarrow> (pp_error + nat option \<times> pp) option" where
  "substitute_loop param start_token expand_list expansion st =
    (if expand_list = None then ret expansion st
     else bindP (node_at expand_list) (\<lambda>n.
       if chr_at (tl_s n) 0 = CHR ''#'' \<and> Some (tl (tl_s n)) = param
       then bindP (stringify_loop start_token [CHR 0x22]) (\<lambda>acc.
            bindP (set_node expand_list (\<lambda>m. m\<lparr>tl_s := acc\<rparr>)) (\<lambda>_.
            substitute_loop param start_token (tl_next n) expansion))
       else if Some (tl_s n) = param
       then bindP (replace_parameter start_token n expansion) (\<lambda>(expand_list, expansion).
            substitute_loop param start_token expand_list expansion)
       else substitute_loop param start_token (tl_next n) expansion) st)"

text \<open>An argument ends at \<open>tok\<close>: it is cut off there while it is substituted.\<close>

definition end_argument ::
  "nat option \<Rightarrow> nat option \<Rightarrow> string option list \<Rightarrow> nat option \<Rightarrow> (nat option \<times> string option list \<times> nat option) run" where
  "end_argument tok start_token arguments expansion =
    bindP (node_at tok) (\<lambda>n.
    bindP (set_node (tl_prev n) (\<lambda>m. m\<lparr>tl_next := None\<rparr>)) (\<lambda>_.
    bindP (substitute_loop (hd arguments) start_token expansion expansion) (\<lambda>expansion.
    bindP (node_at tok) (\<lambda>n.
    bindP (set_node (tl_prev n) (\<lambda>m. m\<lparr>tl_next := tok\<rparr>)) (\<lambda>_.
    bindP (node_at tok) (\<lambda>n.
    ret (tl_next n, tl arguments, expansion)))))))"

partial_function (option) arguments_loop ::
  "nat option \<Rightarrow> nat option \<Rightarrow> int \<Rightarrow> string option list \<Rightarrow> nat option \<Rightarrow> pp
    \<Rightarrow> (pp_error + (nat option \<times> nat option) \<times> pp) option" where
  "arguments_loop tok start_token parens arguments expansion st =
    (if parens = 0 then ret (tok, expansion) st
     else if arguments = [] then fail Wrong_Arguments st
     else bindP (node_at tok) (\<lambda>n.
       let c = chr_at (tl_s n) 0;
           parens = (if c = CHR ''('' then parens + 1 else if c = CHR '')'' then parens - 1 else parens) in
       bindP (if c = CHR '','' \<and> parens = 1 \<or> c = CHR '')'' \<and> parens = 0
              then end_argument tok start_token arguments expansion
              else ret (start_token, arguments, expansion)) (\<lambda>(start_token, arguments, expansion).
       bindP (node_at tok) (\<lambda>n.
       bindP (require (tl_next n \<noteq> None) Eof_In_Arguments) (\<lambda>_.
       arguments_loop (tl_next n) start_token parens arguments expansion)))) st)"

text \<open>The part of \<open>maybe_expand\<close> for a function-like macro; \<open>tok\<close> is what follows its name.\<close>

definition expand_arguments :: "nat option \<Rightarrow> macro \<Rightarrow> string option list \<Rightarrow> (nat option \<times> nat option) run" where
  "expand_arguments tok hold arguments =
    bindP (node_at tok) (\<lambda>n.
    bindP (require (chr_at (tl_s n) 0 = CHR ''('') Wrong_Arguments) (\<lambda>_.
    bindP (take_out tok) (\<lambda>tok.
    bindP (deep_copy_token_list (mac_expansion hold)) (\<lambda>expansion.
    bindP (node_at tok) (\<lambda>n.
    bindP (arguments_loop tok tok 1 arguments expansion) (\<lambda>(tok, expansion).
    bindP (set_node (tl_prev n) (\<lambda>m. m\<lparr>tl_next := tok\<rparr>)) (\<lambda>_.
    bindP (set_node tok (\<lambda>m. m\<lparr>tl_prev := tl_prev n\<rparr>)) (\<lambda>_.
    ret (tok, expansion)))))))))"

section \<open>Pasting and painting\<close>

definition paste_right :: "nat option \<Rightarrow> pp_token \<Rightarrow> pp_token \<Rightarrow> unit run" where
  "paste_right pst n r =
    bindP (get (\<lambda>st. concat_strings2 (int (pp_max_string st)) (tl_s n) (tl_s r))) (\<lambda>s.
    bindP (require (s \<noteq> None) Outside_Buffer) (\<lambda>_.
    bindP (set_node pst (\<lambda>m. m\<lparr>tl_s := the s, tl_next := tl_next r\<rparr>)) (\<lambda>_.
    set_if (tl_next r) (\<lambda>m. m\<lparr>tl_prev := pst\<rparr>))))"

text \<open>The right operand of the \<open>##\<close> that follows a token, if there is one.\<close>

definition paste_operand :: "pp_token \<Rightarrow> pp_token option run" where
  "paste_operand n =
    (if tl_next n = None then ret None
     else bindP (node_at (tl_next n)) (\<lambda>m.
       if tl_s m = ''##'' \<and> tl_next m \<noteq> None
       then bindP (node_at (tl_next m)) (\<lambda>r. ret (Some r))
       else ret None))"

partial_function (option) paste_loop :: "nat option \<Rightarrow> pp \<Rightarrow> (pp_error + unit \<times> pp) option" where
  "paste_loop pst st =
    (if pst = None then ret () st
     else bindP (node_at pst) (\<lambda>n.
       bindP (paste_operand n) (\<lambda>r.
         case r of
           None \<Rightarrow> paste_loop (tl_next n)
         | Some r \<Rightarrow> bindP (paste_right pst n r) (\<lambda>_. paste_loop pst))) st)"

partial_function (option) paint_loop :: "string \<Rightarrow> nat option \<Rightarrow> pp \<Rightarrow> (pp_error + unit \<times> pp) option" where
  "paint_loop symb paint st =
    (if paint = None then ret () st
     else bindP (node_at paint) (\<lambda>n.
       bindP (if symb = tl_s n then set_node paint (\<lambda>m. m\<lparr>no_expand := True\<rparr>) else ret ()) (\<lambda>_.
       paint_loop symb (tl_next n))) st)"

section \<open>Expanding one token\<close>

definition MAX_EXPANSIONS :: int where "MAX_EXPANSIONS = 10000"

text \<open>The last part of \<open>maybe_expand\<close>: the expansion goes in front of \<open>tok\<close>.\<close>

definition splice_expansion :: "nat option \<Rightarrow> macro \<Rightarrow> nat option \<Rightarrow> pp_token \<Rightarrow> (nat option) run" where
  "splice_expansion tok hold expansion invocation =
    bindP (paste_loop expansion) (\<lambda>_.
    bindP (paint_loop (mac_symbol hold) expansion) (\<lambda>_.
    bindP (put (\<lambda>st. st\<lparr>expand_depth := expand_depth st + 1\<rparr>)) (\<lambda>_.
    bindP (get (\<lambda>st. expand_depth st \<le> MAX_EXPANSIONS)) (\<lambda>b.
    bindP (require b Expansion_Too_Deep) (\<lambda>_.
    insert_tokens tok expansion (tl_filename invocation) (tl_linenumber invocation))))))"

definition expand_macro :: "nat option \<Rightarrow> pp_token \<Rightarrow> macro \<Rightarrow> (nat option) run" where
  "expand_macro tok n hold =
    bindP (take_out tok) (\<lambda>tok.
    bindP (case mac_arguments hold of
             None \<Rightarrow> ret (tok, mac_expansion hold)
           | Some arguments \<Rightarrow> expand_arguments tok hold arguments) (\<lambda>(tok, expansion).
    if mac_expansion hold = None then ret tok else splice_expansion tok hold expansion n))"

definition maybe_expand :: "nat option \<Rightarrow> (nat option) run" where
  "maybe_expand tok =
    (if tok = None then fail Null_Token
     else bindP (node_at tok) (\<lambda>n.
       if no_expand n then ret (tl_next n)
       else bindP (lookup_macro tok) (\<lambda>hold.
            bindP (require (tl_next n \<noteq> None) Expand_Last_Token) (\<lambda>_.
            case hold of
              None \<Rightarrow> ret (tl_next n)
            | Some (_, hold) \<Rightarrow>
                bindP (node_at (tl_next n)) (\<lambda>m.
                  if mac_arguments hold \<noteq> None \<and> chr_at (tl_s m) 0 \<noteq> CHR ''('' then ret (tl_next n)
                  else expand_macro tok n hold)))))"

section \<open>Attributes\<close>

partial_function (option) attribute_end :: "nat option \<Rightarrow> int \<Rightarrow> pp \<Rightarrow> (pp_error + nat option \<times> pp) option" where
  "attribute_end scan depth st =
    (if scan = None then ret None st
     else bindP (node_at scan) (\<lambda>n.
       if chr_at (tl_s n) 0 = CHR ''('' then attribute_end (tl_next n) (depth + 1)
       else if chr_at (tl_s n) 0 = CHR '')''
       then if depth - 1 = 0 then ret (tl_next n) else attribute_end (tl_next n) (depth - 1)
       else if depth = 0 then ret scan
       else attribute_end (tl_next n) depth) st)"

definition unlink_attribute :: "pp_token \<Rightarrow> nat option \<Rightarrow> unit run" where
  "unlink_attribute start scan =
    bindP (if tl_prev start = None then put (\<lambda>st. st\<lparr>global_token := scan\<rparr>)
           else set_node (tl_prev start) (\<lambda>m. m\<lparr>tl_next := scan\<rparr>)) (\<lambda>_.
    set_if scan (\<lambda>m. m\<lparr>tl_prev := tl_prev start\<rparr>))"

partial_function (option) strip_loop :: "nat option \<Rightarrow> pp \<Rightarrow> (pp_error + unit \<times> pp) option" where
  "strip_loop t st =
    (if t = None then ret () st
     else bindP (node_at t) (\<lambda>n.
       if tl_s n = ''__attribute__''
       then bindP (attribute_end (tl_next n) 0) (\<lambda>scan.
            bindP (unlink_attribute n scan) (\<lambda>_. strip_loop scan))
       else strip_loop (tl_next n)) st)"

definition strip_attributes :: "unit run" where
  "strip_attributes = bindP (get global_token) strip_loop"

declare insert_loop.simps [code] deep_copy_token_list.simps [code] end_of_list.simps [code]
  stringify_loop.simps [code] substitute_loop.simps [code] arguments_loop.simps [code]
  paste_loop.simps [code] paint_loop.simps [code] attribute_end.simps [code] strip_loop.simps [code]

end
