(* ===== verification/CcMacro.thy ===== *)
theory CcMacro
  imports CcMacroExpand
begin

text \<open>
  The directives and the main loop of \<^verbatim>\<open>stages/3-micro-c/micro-c/cc_macro.c\<close>. \<open>fopen\<close> is the function
  \<open>pp_files\<close> of the state, from names to contents; an included file is read by the model of
  \<open>read_all_tokens\<close> and its nodes are put behind those of the store.
\<close>

section \<open>Conditional inclusion\<close>

definition push_conditional_inclusion :: "u32 \<Rightarrow> unit run" where
  "push_conditional_inclusion incl =
    put (\<lambda>st. st\<lparr>conditional_inclusion_top := incl # conditional_inclusion_top st\<rparr>)"

definition pop_conditional_inclusion :: "unit run" where
  "pop_conditional_inclusion = bindP (get conditional_inclusion_top) (\<lambda>top.
    case top of [] \<Rightarrow> fail Null_Dereference | _ # t \<Rightarrow> put (\<lambda>st. st\<lparr>conditional_inclusion_top := t\<rparr>))"

definition not_null :: "pp_error \<Rightarrow> unit run" where
  "not_null e = bindP (get macro_token) (\<lambda>p. require (p \<noteq> None) e)"

abbreviation opens_if :: "string \<Rightarrow> bool" where
  "opens_if s \<equiv> s = ''#if'' \<or> s = ''#ifdef'' \<or> s = ''#ifndef''"

abbreviation ends_block :: "string \<Rightarrow> bool" where
  "ends_block s \<equiv> s = ''#elif'' \<or> s = ''#else'' \<or> s = ''#endif''"

partial_function (option) eat_until_endif :: "pp \<Rightarrow> (pp_error + unit \<times> pp) option" where
  "eat_until_endif st =
    bindP (not_null Unterminated_If) (\<lambda>_.
    bindP cur (\<lambda>s.
    bindP (if opens_if s then bindP eat_current_token (\<lambda>_. eat_until_endif) else ret ()) (\<lambda>_.
    bindP eat_current_token (\<lambda>_.
    bindP (not_null Unterminated_If) (\<lambda>_.
    bindP cur (\<lambda>s. if s \<noteq> ''#endif'' then eat_until_endif else ret ())))))) st"

partial_function (option) eat_block_loop :: "pp \<Rightarrow> (pp_error + unit \<times> pp) option" where
  "eat_block_loop st =
    bindP cur (\<lambda>s.
    bindP (if opens_if s then bindP eat_current_token (\<lambda>_. eat_until_endif) else ret ()) (\<lambda>_.
    bindP eat_current_token (\<lambda>_.
    bindP (not_null Unterminated_If) (\<lambda>_.
    bindP cur (\<lambda>s. if ends_block s then ret () else eat_block_loop))))) st"

text \<open>Back to the newline before the block; when nothing is before it, to a new one that is not linked back.\<close>

definition rewind_newline :: "unit run" where
  "rewind_newline =
    bindP (get macro_token) (\<lambda>p.
    bindP (node_at p) (\<lambda>n.
      if tl_prev n \<noteq> None
      then bindP (node_at (tl_prev n)) (\<lambda>m.
           if tl_s m = [LF] then put (\<lambda>st. st\<lparr>macro_token := tl_prev n\<rparr>) else ret ())
      else bindP (new_node (no_token\<lparr>tl_s := [LF], tl_filename := tl_filename n, tl_linenumber := tl_linenumber n,
             tl_next := p\<rparr>)) (\<lambda>a. put (\<lambda>st. st\<lparr>macro_token := Some a\<rparr>))))"

definition eat_block :: "unit run" where
  "eat_block = bindP eat_block_loop (\<lambda>_. rewind_newline)"

section \<open>Definitions of macros\<close>

text \<open>
  The parameters: \<open>names\<close> are those before the one at \<open>argument\<close>, whose name is \<open>nam\<close>. All the
  exits for \<open>...\<close> are one error.
\<close>

partial_function (option) parameters_loop ::
  "string option list \<Rightarrow> string option \<Rightarrow> pp \<Rightarrow> (pp_error + string option list \<times> pp) option" where
  "parameters_loop names nam st =
    bindP cur (\<lambda>s.
      if chr_at s 0 = CHR '')'' then ret (names @ [nam])
      else if chr_at s 0 = CHR ''.'' then fail Variadic_Macro
      else bindP eat_current_token (\<lambda>_.
           bindP cur (\<lambda>c.
           if chr_at c 0 = CHR '','' then bindP eat_current_token (\<lambda>_. parameters_loop (names @ [Some s]) None)
           else parameters_loop names (Some s)))) st"

text \<open>The macro that is being defined is the first one of \<open>macro_env\<close>.\<close>

definition set_macro :: "(macro \<Rightarrow> macro) \<Rightarrow> unit run" where
  "set_macro f = put (\<lambda>st. st\<lparr>macro_env := f (hd (macro_env st)) # tl (macro_env st)\<rparr>)"

definition handle_function_like_macro :: "unit run" where
  "handle_function_like_macro =
    bindP eat_current_token (\<lambda>_.
    bindP (parameters_loop [] None) (\<lambda>arguments.
    bindP (set_macro (\<lambda>hold. hold\<lparr>mac_arguments := Some arguments\<rparr>)) (\<lambda>_.
    eat_current_token)))"

text \<open>The loop over the replacement list; it returns its last token, \<open>expansion_end\<close>.\<close>

partial_function (option) replacement_loop :: "nat option \<Rightarrow> pp \<Rightarrow> (pp_error + nat option \<times> pp) option" where
  "replacement_loop expansion_end st =
    bindP cur (\<lambda>s.
      if chr_at s 0 = LF then ret expansion_end
      else bindP (get macro_token) (\<lambda>p. bindP eat_current_token (\<lambda>_. replacement_loop p))) st"

partial_function (option) fix_prev_loop :: "nat option \<Rightarrow> pp \<Rightarrow> (pp_error + unit \<times> pp) option" where
  "fix_prev_loop p st =
    bindP (node_at p) (\<lambda>n.
      if tl_next n = None then ret ()
      else bindP (set_node (tl_next n) (\<lambda>m. m\<lparr>tl_prev := p\<rparr>)) (\<lambda>_. fix_prev_loop (tl_next n))) st"

definition replacement_list :: "unit run" where
  "replacement_list =
    bindP (get macro_token) (\<lambda>p.
    bindP (set_macro (\<lambda>hold. hold\<lparr>mac_expansion := p\<rparr>)) (\<lambda>_.
    bindP (replacement_loop None) (\<lambda>expansion_end.
    bindP (set_node p (\<lambda>n. n\<lparr>tl_prev := None\<rparr>)) (\<lambda>_.
    bindP (set_node expansion_end (\<lambda>n. n\<lparr>tl_next := None\<rparr>)) (\<lambda>_.
    fix_prev_loop p)))))"

text \<open>What follows the name in a \<open>#define\<close>. The tokenizer puts a space there when the name is not followed by (.\<close>

definition define_body :: "unit run" where
  "define_body =
    bindP cur (\<lambda>c.
    bindP (if chr_at c 0 = CHR '' '' then eat_current_token
           else if chr_at c 0 = CHR ''('' then handle_function_like_macro
           else ret ()) (\<lambda>_.
    bindP cur (\<lambda>c. if chr_at c 0 = LF then ret () else replacement_list)))"

definition handle_define :: "unit run" where
  "handle_define =
    bindP eat_current_token (\<lambda>_.
    bindP (not_null Eof_In_Define) (\<lambda>_.
    bindP cur (\<lambda>s.
    bindP (require (chr_at s 0 \<noteq> LF) Newline_After_Define) (\<lambda>_.
    bindP (put (\<lambda>st. st\<lparr>macro_env := \<lparr>mac_symbol = s, mac_expansion = None, mac_arguments = None\<rparr> # macro_env st\<rparr>)) (\<lambda>_.
    bindP eat_current_token (\<lambda>_. define_body))))))"

definition handle_undef :: "unit run" where
  "handle_undef =
    bindP eat_current_token (\<lambda>_. bindP (get macro_token) (\<lambda>p. bindP (remove_macro p) (\<lambda>_. eat_current_token)))"

section \<open>Messages\<close>

text \<open>The first loop goes on over the message, the second one eats it.\<close>

partial_function (option) message_loop :: "pp \<Rightarrow> (pp_error + unit \<times> pp) option" where
  "message_loop st =
    bindP (not_null Unterminated_Message) (\<lambda>_.
    bindP cur (\<lambda>s. if chr_at s 0 = LF then ret () else bindP next_token (\<lambda>_. message_loop))) st"

partial_function (option) discard_loop :: "pp \<Rightarrow> (pp_error + unit \<times> pp) option" where
  "discard_loop st =
    bindP (not_null Unterminated_Message) (\<lambda>_.
    bindP cur (\<lambda>s. if chr_at s 0 = LF then ret () else bindP eat_current_token (\<lambda>_. discard_loop))) st"

definition handle_error :: "bool \<Rightarrow> unit run" where
  "handle_error warning_p =
    bindP eat_current_token (\<lambda>_.
    bindP message_loop (\<lambda>_.
    bindP (require warning_p Error_Directive) (\<lambda>_. discard_loop)))"

section \<open>Included files\<close>

text \<open>The offset behind the last slash of a path, 0 when it has none.\<close>

fun slash_loop :: "string \<Rightarrow> nat \<Rightarrow> nat" where
  "slash_loop b 0 = 0"
| "slash_loop b (Suc n) = (if chr_at b (Suc n) = CHR ''/'' then Suc n else slash_loop b n)"

definition directory_end :: "string \<Rightarrow> nat" where
  "directory_end b = (let k = slash_loop b (length b) in if chr_at b k = CHR ''/'' then Suc k else k)"

text \<open>A path and a name in the buffer of \<open>MAX_STRING\<close> bytes.\<close>

definition join_path :: "nat \<Rightarrow> string \<Rightarrow> string \<Rightarrow> pp_error + string" where
  "join_path m dir nam =
    (case in_buffer (int m) (dir @ copy_string nam (int m - int (length dir))) of
       None \<Rightarrow> Inl Outside_Buffer | Some s \<Rightarrow> Inr s)"

definition quoted_path :: "nat \<Rightarrow> string \<Rightarrow> string \<Rightarrow> pp_error + string" where
  "quoted_path m current nam =
    (let b = copy_string current (int m)
     in if length b < m then join_path m (take (directory_end b) b) nam else Inl Outside_Buffer)"

text \<open>The file that is opened, and its path: from the include paths, or from \<^verbatim>\<open>M2libc\<close>.\<close>

fun search_paths :: "(string \<Rightarrow> string option) \<Rightarrow> nat \<Rightarrow> string \<Rightarrow> string list \<Rightarrow> pp_error + (string \<times> string) option" where
  "search_paths fopen m nam [] =
    bindE (join_path m (copy_string ''./M2libc/'' (int m)) nam) (\<lambda>p. Inr (map_option (Pair p) (fopen p)))"
| "search_paths fopen m nam (inc # paths) =
    bindE (join_path m (copy_string inc (int m) @ ''/'') nam) (\<lambda>p.
      case fopen p of None \<Rightarrow> search_paths fopen m nam paths | Some a \<Rightarrow> Inr (Some (p, a)))"

partial_function (option) angle_loop :: "string \<Rightarrow> pp \<Rightarrow> (pp_error + string \<times> pp) option" where
  "angle_loop nam st =
    bindP cur (\<lambda>s.
      if chr_at s 0 = CHR ''>'' then ret nam
      else bindP (get pp_max_string) (\<lambda>m.
           bindP (lift (join_path m nam s)) (\<lambda>nam.
           bindP eat_current_token (\<lambda>_. angle_loop nam)))) st"

definition find_include :: "(string \<times> string) run" where
  "find_include =
    bindP (get macro_token) (\<lambda>p.
    bindP (node_at p) (\<lambda>n.
    bindP (get pp_max_string) (\<lambda>m.
    bindP (get pp_files) (\<lambda>fopen.
    bindP (get include_paths) (\<lambda>paths.
      if chr_at (tl_s n) 0 = CHR 0x22
      then bindP (lift (quoted_path m (tl_filename n) (tl (tl_s n)))) (\<lambda>path.
           case fopen path of
             Some a \<Rightarrow> ret (path, a)
           | None \<Rightarrow> bindP (lift (search_paths fopen m (tl (tl_s n)) paths)) (\<lambda>r.
               case r of None \<Rightarrow> fail (Include_Not_Found (tl (tl_s n))) | Some f \<Rightarrow> ret f))
      else bindP eat_current_token (\<lambda>_.
           bindP (angle_loop []) (\<lambda>nam.
           bindP (lift (search_paths fopen m nam paths)) (\<lambda>r.
               case r of None \<Rightarrow> fail (Include_Not_Found nam) | Some f \<Rightarrow> ret f))))))))"

text \<open>The tokens of a file, as nodes behind the first \<open>b\<close> of the store.\<close>

definition node_from :: "nat \<Rightarrow> token_list \<Rightarrow> pp_token" where
  "node_from b n = \<lparr>tl_next = map_option ((+) b) (tl_next n), tl_prev = map_option ((+) b) (tl_prev n),
     tl_s = tl_s n, tl_filename = tl_filename n, tl_linenumber = tl_linenumber n, no_expand = False\<rparr>"

definition include_reader :: "nat \<Rightarrow> reader" where
  "include_reader m = \<lparr>input = [], file_buffer = [], file_index = 0, file_max = 0, line = 0, filename = [],
     token = None, store = [], define_state = DEFINE_STATE_NONE, hold_string = [], MAX_STRING = m\<rparr>"

definition read_tokens :: "string \<Rightarrow> string \<Rightarrow> (nat option) run" where
  "read_tokens path a st =
    (case read_all_tokens a path (include_reader (pp_max_string st)) of
       Inl e \<Rightarrow> if e = Never_Returns then None else fail (Reading e) st
     | Inr rd \<Rightarrow>
         (let b = length (heap st) in
          Option.bind (reverse_list (heap st @ map (node_from b) (store rd)) (map_option ((+) b) (token rd)))
            (\<lambda>(h, p). ret p (st\<lparr>heap := h\<rparr>))))"

definition splice_tokens :: "nat option \<Rightarrow> unit run" where
  "splice_tokens new_token_list =
    (if new_token_list = None then ret ()
     else bindP (get macro_token) (\<lambda>current_macro_token.
          bindP (end_of_list new_token_list) (\<lambda>last_token.
          bindP (node_at current_macro_token) (\<lambda>n.
          bindP (set_node current_macro_token (\<lambda>m. m\<lparr>tl_next := new_token_list\<rparr>)) (\<lambda>_.
          bindP (set_node new_token_list (\<lambda>m. m\<lparr>tl_prev := current_macro_token\<rparr>)) (\<lambda>_.
          bindP (set_node last_token (\<lambda>m. m\<lparr>tl_next := tl_next n\<rparr>)) (\<lambda>_.
          set_node (tl_next n) (\<lambda>m. m\<lparr>tl_prev := last_token\<rparr>))))))))"

definition handle_include :: "unit run" where
  "handle_include =
    bindP eat_current_token (\<lambda>_.
    bindP find_include (\<lambda>(path, a).
    bindP eat_current_token (\<lambda>_.
    bindP (read_tokens path a) splice_tokens)))"

section \<open>Directives\<close>

partial_function (option) eat_line_loop :: "pp \<Rightarrow> (pp_error + unit \<times> pp) option" where
  "eat_line_loop st =
    (if macro_token st = None then ret () st
     else bindP cur (\<lambda>s. if chr_at s 0 = LF then ret () else bindP eat_current_token (\<lambda>_. eat_line_loop)) st)"

definition directive_if :: "unit run" where
  "directive_if =
    bindP eat_current_token (\<lambda>_.
    bindP macro_expression (\<lambda>result.
    bindP (push_conditional_inclusion result) (\<lambda>_.
      if result = 0 then eat_block else ret ())))"

definition directive_ifdef :: "unit run" where
  "directive_ifdef =
    bindP eat_current_token (\<lambda>_.
    bindP (not_null Eof_In_Expression) (\<lambda>_.
    bindP (get macro_token) (\<lambda>p.
    bindP (lookup_macro p) (\<lambda>r.
    bindP (if r \<noteq> None then eat_current_token else eat_block) (\<lambda>_.
    push_conditional_inclusion (of_bool (r \<noteq> None)))))))"

definition directive_ifndef :: "unit run" where
  "directive_ifndef =
    bindP eat_current_token (\<lambda>_.
    bindP (not_null Eof_In_Expression) (\<lambda>_.
    bindP (get macro_token) (\<lambda>p.
    bindP (lookup_macro p) (\<lambda>r.
    bindP (if r = None then eat_current_token else ret ()) (\<lambda>_.
    bindP (push_conditional_inclusion (of_bool (r = None))) (\<lambda>_.
      if r \<noteq> None then eat_block else ret ()))))))"

text \<open>\<open>require(NULL != macro_token->next, ...)\<close>\<close>

definition has_next :: "pp_error \<Rightarrow> unit run" where
  "has_next e = bindP (get macro_token) (\<lambda>p. bindP (node_at p) (\<lambda>n. require (tl_next n \<noteq> None) e))"

definition matched_before :: "u32 run" where
  "matched_before =
    bindP (get conditional_inclusion_top) (\<lambda>top. case top of [] \<Rightarrow> fail No_Leading_If | t # _ \<Rightarrow> ret t)"

definition directive_elif :: "unit run" where
  "directive_elif =
    bindP (has_next No_Leading_If) (\<lambda>_.
    bindP eat_current_token (\<lambda>_.
    bindP macro_expression (\<lambda>result.
    bindP matched_before (\<lambda>b.
      if result = 0 \<or> b \<noteq> 0 then eat_block
      else put (\<lambda>st. st\<lparr>conditional_inclusion_top := 1 # tl (conditional_inclusion_top st)\<rparr>)))))"

definition directive_else :: "unit run" where
  "directive_else =
    bindP (has_next No_Leading_If) (\<lambda>_.
    bindP eat_current_token (\<lambda>_.
    bindP matched_before (\<lambda>b. if b \<noteq> 0 then eat_block else ret ())))"

definition directive_endif :: "unit run" where
  "directive_endif =
    bindP (get conditional_inclusion_top) (\<lambda>top.
      if top = [] then fail Unexpected_Endif
      else bindP eat_current_token (\<lambda>_. pop_conditional_inclusion))"

definition directive_other :: "string \<Rightarrow> unit run" where
  "directive_other s =
    bindP (get FOLLOW_INCLUDES) (\<lambda>follow.
    bindP (if s = ''#include'' \<and> follow then handle_include else ret ()) (\<lambda>_. eat_line_loop))"

definition macro_directive :: "unit run" where
  "macro_directive =
    bindP cur (\<lambda>s.
      if s = ''#if'' then directive_if
      else if s = ''#ifdef'' then directive_ifdef
      else if s = ''#ifndef'' then directive_ifndef
      else if s = ''#elif'' then directive_elif
      else if s = ''#else'' then directive_else
      else if s = ''#endif'' then directive_endif
      else if s = ''#define'' then handle_define
      else if s = ''#undef'' then handle_undef
      else if s = ''#error'' then handle_error False
      else if s = ''#warning'' then handle_error True
      else directive_other s)"

section \<open>The main loop\<close>

definition directive_line :: "unit run" where
  "directive_line =
    bindP macro_directive (\<lambda>_.
    bindP (get macro_token) (\<lambda>p.
      if p = None then ret () else bindP cur (\<lambda>s. require (chr_at s 0 = LF) Newline_Expected)))"

definition newline_step :: "unit run" where
  "newline_step = bindP (put (\<lambda>st. st\<lparr>expand_depth := 0\<rparr>)) (\<lambda>_. next_token)"

definition token_step :: "unit run" where
  "token_step =
    bindP (get macro_token) (\<lambda>p. bindP (maybe_expand p) (\<lambda>q. put (\<lambda>st. st\<lparr>macro_token := q\<rparr>)))"

partial_function (option) preprocess_loop :: "bool \<Rightarrow> pp \<Rightarrow> (pp_error + unit \<times> pp) option" where
  "preprocess_loop start_of_line st =
    (if macro_token st = None then ret () st
     else bindP cur (\<lambda>s.
       if start_of_line \<and> chr_at s 0 = CHR ''#'' then bindP directive_line (\<lambda>_. preprocess_loop start_of_line)
       else if chr_at s 0 = LF then bindP newline_step (\<lambda>_. preprocess_loop True)
       else bindP token_step (\<lambda>_. preprocess_loop False)) st)"

definition preprocess :: "unit run" where
  "preprocess = bindP (put (\<lambda>st. st\<lparr>macro_token := global_token st\<rparr>)) (\<lambda>_. preprocess_loop True)"

declare eat_until_endif.simps [code] eat_block_loop.simps [code] parameters_loop.simps [code]
  replacement_loop.simps [code] fix_prev_loop.simps [code] message_loop.simps [code]
  discard_loop.simps [code] angle_loop.simps [code] eat_line_loop.simps [code]
  preprocess_loop.simps [code]

end
