(* ===== verification/CcMacroView.thy ===== *)
theory CcMacroView
  imports CcMacro
begin

text \<open>
  The invariant of the preprocessor and what its operations on single tokens do under it. The token
  list is \<open>ks @ xs\<close>, where \<open>xs\<close> begins with \<open>macro_token\<close>; it is doubly linked, and so is the
  replacement list of each macro, and no two of these lists share a node. Only macros without
  parameters are in the table.

  \<open>wp m Q st\<close> says that \<open>m\<close> returns from \<open>st\<close>, with an error or with a result and a state that
  satisfy \<open>Q\<close>.
\<close>

section \<open>Total correctness\<close>

definition wp :: "'a run \<Rightarrow> ('a \<Rightarrow> pp \<Rightarrow> bool) \<Rightarrow> pp \<Rightarrow> bool" where
  "wp m Q st \<longleftrightarrow> (\<exists>r. m st = Some r \<and> (\<forall>x st'. r = Inr (x, st') \<longrightarrow> Q x st'))"

named_theorems wp_simps "the precondition of each operation"

lemma wp_basic [wp_simps]:
  "wp (ret x) Q = Q x" "wp (fail e) Q st" "wp (get f) Q = (\<lambda>st. Q (f st) st)"
  "wp (put g) R = (\<lambda>st. R () (g st))" "wp (require b e) R = (\<lambda>st. b \<longrightarrow> R () st)"
  by (auto simp: wp_def ret_def fail_def get_def put_def require_def fun_eq_iff)

lemma wp_bindP [wp_simps]: "wp (bindP m f) Q st \<longleftrightarrow> wp m (\<lambda>x. wp (f x) Q) st"
proof (cases "m st")
  case (Some r)
  then show ?thesis by (cases r) (auto simp: wp_def bindP_def)
qed (simp add: wp_def bindP_def)

lemma wp_lift [wp_simps]: "wp (lift r) Q st \<longleftrightarrow> (\<forall>x. r = Inr x \<longrightarrow> Q x st)"
  by (cases r) (auto simp: wp_simps)

lemma wp_mono: "wp m Q st \<Longrightarrow> (\<And>x st'. Q x st' \<Longrightarrow> R x st') \<Longrightarrow> wp m R st"
  by (fastforce simp: wp_def)

lemma wp_run: "m st = Some (Inr (x, st')) \<Longrightarrow> wp m Q st \<longleftrightarrow> Q x st'"
  by (auto simp: wp_def)

lemma bindP_run: "m st = Some (Inr (x, st')) \<Longrightarrow> bindP m f st = f x st'"
  by (simp add: bindP_def)

lemma bindP_assoc: "bindP (bindP m f) g = bindP m (\<lambda>x. bindP (f x) g)"
  by (rule ext) (auto simp: bindP_def fun_eq_iff split: bind_splits sum.splits)

named_theorems exec "running an operation on a state"

lemma exec_done [exec]:
  "ret x st = Some (Inr (x, st))" "fail e st = Some (Inl e)" "put h st = Some (Inr ((), h st))"
  by (simp_all add: put_def ret_def fail_def)

lemma exec_bind [exec, simp]:
  "bindP (get g) f st = f (g st) st" "bindP (put h) k st = k () (h st)"
  "bindP (node_at (Some a)) n st = n (heap st ! a) st" "bindP (node_at None) n st = Some (Inl Null_Dereference)"
  "set_node (Some a) v st = Some (Inr ((), st\<lparr>heap := (heap st)[a := v (heap st ! a)]\<rparr>))"
  "bindP (set_node (Some a) v) k3 st = k3 () (st\<lparr>heap := (heap st)[a := v (heap st ! a)]\<rparr>)"
  "bindP (new_node nd) k2 st = k2 (length (heap st)) (st\<lparr>heap := heap st @ [nd]\<rparr>)"
  by (simp_all add: bindP_def get_def put_def ret_def fail_def node_at_def set_node_def new_node_def)

section \<open>What a node holds\<close>

definition content :: "pp_token \<Rightarrow> string \<times> string \<times> u32 \<times> bool" where
  "content n = (tl_s n, tl_filename n, tl_linenumber n, no_expand n)"

definition keeps :: "pp_token list \<Rightarrow> pp_token list \<Rightarrow> bool" where
  "keeps h h' \<longleftrightarrow> length h \<le> length h' \<and> (\<forall>a < length h. content (h' ! a) = content (h ! a))"

lemma keeps_refl [simp]: "keeps h h"
  by (simp add: keeps_def)

lemma keeps_trans [trans]: "keeps a b \<Longrightarrow> keeps b c \<Longrightarrow> keeps a c"
  by (simp add: keeps_def)

lemma keeps_append [simp]: "keeps h (h @ ns)"
  by (simp add: keeps_def nth_append)

lemma keeps_links: "content n = content (h ! a) \<Longrightarrow> keeps h (h[a := n])"
  by (cases "a < length h") (auto simp: keeps_def nth_list_update list_update_beyond)

lemma keeps_text: "keeps h h' \<Longrightarrow> a < length h \<Longrightarrow> tl_s (h' ! a) = tl_s (h ! a)"
  by (auto simp: keeps_def content_def)

lemma keeps_texts: "keeps h h' \<Longrightarrow> \<forall>a \<in> set as. a < length h \<Longrightarrow> texts h' as = texts h as"
  by (simp add: texts_def keeps_text)

section \<open>Taking a token out\<close>

lemma eat_token_frame:
  assumes "eat_token h a = (h', q)"
  shows "length h' = length h" "keeps h h'"
    "Some b \<noteq> tl_prev (h ! a) \<Longrightarrow> Some b \<noteq> tl_next (h ! a) \<Longrightarrow> h' ! b = h ! b"
proof -
  define h1 where "h1 = (case tl_prev (h ! a) of None \<Rightarrow> h | Some q \<Rightarrow> h[q := (h ! q)\<lparr>tl_next := tl_next (h ! a)\<rparr>])"
  have h': "h' = (case tl_next (h1 ! a) of None \<Rightarrow> h1 | Some q \<Rightarrow> h1[q := (h1 ! q)\<lparr>tl_prev := tl_prev (h1 ! a)\<rparr>])"
    using assms unfolding eat_token_def Let_def h1_def [symmetric] by simp
  have k1: "length h1 = length h" "keeps h h1" "Some b \<noteq> tl_prev (h ! a) \<Longrightarrow> h1 ! b = h ! b"
    by (auto simp: h1_def content_def intro!: keeps_links split: option.splits)
  have k2: "length h' = length h1" "keeps h1 h'" "Some b \<noteq> tl_next (h1 ! a) \<Longrightarrow> h' ! b = h1 ! b"
    by (auto simp: h' content_def intro!: keeps_links split: option.splits)
  show "length h' = length h" "keeps h h'" using k1 k2 by (auto intro: keeps_trans)
  assume b: "Some b \<noteq> tl_prev (h ! a)" "Some b \<noteq> tl_next (h ! a)"
  have "tl_next (h1 ! a) = tl_next (h ! a)"
    by (cases "tl_prev (h ! a) = Some a"; cases "a < length h")
      (auto simp: h1_def list_update_beyond split: option.splits)
  then show "h' ! b = h ! b" using k1(3) k2(3) b by simp
qed

lemma segment_cong:
  assumes "segment h p as q" "length h \<le> length h'" "\<And>a. a \<in> set as \<Longrightarrow> h' ! a = h ! a"
  shows "segment h' p as q"
  using assms by (induction as arbitrary: p) auto

section \<open>The invariant\<close>

definition body_ok :: "pp_token list \<Rightarrow> macro \<Rightarrow> nat list \<Rightarrow> bool" where
  "body_ok h m ms \<longleftrightarrow> mac_arguments m = None \<and> mac_expansion m = first_or ms None \<and>
     segment h None ms None \<and> (\<forall>a \<in> set ms. chr_at (tl_s (h ! a)) 0 \<noteq> LF)"

definition inv_for :: "macro list \<Rightarrow> pp \<Rightarrow> nat list list \<Rightarrow> nat list \<Rightarrow> nat list \<Rightarrow> bool" where
  "inv_for env st mss ks xs \<longleftrightarrow>
     segment (heap st) None (ks @ xs) None \<and> distinct (concat mss @ ks @ xs) \<and>
     list_all2 (body_ok (heap st)) env mss \<and>
     macro_token st = first_or xs None \<and> global_token st = first_or (ks @ xs) None"

text \<open>The table is an argument, since for a while the first macro of it is only being built.\<close>

abbreviation wf_pp :: "pp \<Rightarrow> nat list list \<Rightarrow> nat list \<Rightarrow> nat list \<Rightarrow> bool" where
  "wf_pp st \<equiv> inv_for (macro_env st) st"

lemma body_ok_bounds: "list_all2 (body_ok h) env mss \<Longrightarrow> a \<in> set (concat mss) \<Longrightarrow> a < length h"
  by (induction env mss rule: list_all2_induct) (auto simp: body_ok_def dest: segment_bounds)

lemma bodies_cong:
  assumes "list_all2 (body_ok h) env mss" "length h \<le> length h'" "\<And>a. a \<in> set (concat mss) \<Longrightarrow> h' ! a = h ! a"
  shows "list_all2 (body_ok h') env mss"
  using assms
proof (induction env mss rule: list_all2_induct)
  case (Cons m env ms mss)
  then show ?case by (auto simp: body_ok_def intro: segment_cong)
qed simp

lemma inv_bounds: "inv_for env st mss ks xs \<Longrightarrow> a \<in> set (ks @ xs) \<Longrightarrow> a < length (heap st)"
  unfolding inv_for_def using segment_bounds by blast

lemma inv_body_bounds: "inv_for env st mss ks xs \<Longrightarrow> a \<in> set (concat mss) \<Longrightarrow> a < length (heap st)"
  unfolding inv_for_def using body_ok_bounds by blast

lemma first_or_set: "Some b = first_or xs None \<Longrightarrow> b \<in> set xs"
  by (cases xs) auto

lemma last_or_set: "Some b = last_or None xs \<Longrightarrow> b \<in> set xs"
  by (auto simp: last_or_def split: if_splits)

lemma inv_distinct: "inv_for env st mss ks xs \<Longrightarrow> distinct (concat mss @ ks @ xs)"
  by (simp add: inv_for_def)

lemma inv_apart: "inv_for env st mss ks xs \<Longrightarrow> b \<in> set (concat mss) \<Longrightarrow> b \<notin> set (ks @ xs)"
  unfolding inv_for_def distinct_append by blast

lemma inv_fields [simp]:
  "inv_for env (st\<lparr>conditional_inclusion_top := c\<rparr>) mss ks xs = inv_for env st mss ks xs"
  "inv_for env (st\<lparr>expand_depth := d\<rparr>) mss ks xs = inv_for env st mss ks xs"
  by (simp_all add: inv_for_def)

text \<open>New nodes do not matter.\<close>

lemma inv_new_node: "inv_for env st mss ks xs \<Longrightarrow> inv_for env (st\<lparr>heap := heap st @ ns\<rparr>) mss ks xs"
proof -
  assume i: "inv_for env st mss ks xs"
  have "segment (heap st @ ns) None (ks @ xs) None"
  proof (rule segment_cong [of "heap st"])
    show "segment (heap st) None (ks @ xs) None" using i by (simp add: inv_for_def)
  qed (use inv_bounds [OF i] in \<open>simp_all add: nth_append\<close>)
  moreover have "list_all2 (body_ok (heap st @ ns)) env mss"
  proof (rule bodies_cong [of "heap st"])
    show "list_all2 (body_ok (heap st)) env mss" using i by (simp add: inv_for_def)
  qed (use inv_body_bounds [OF i] in \<open>simp_all add: nth_append\<close>)
  ultimately show ?thesis using i by (simp add: inv_for_def)
qed

section \<open>The current token\<close>

lemma inv_current:
  assumes "inv_for env st mss ks (a # xs)"
  shows "macro_token st = Some a" "tl_next (heap st ! a) = first_or xs None" "tl_prev (heap st ! a) = last_or None ks"
    "a < length (heap st)"
  using assms by (auto simp: inv_for_def)

lemma cur_Cons: "inv_for env st mss ks (a # xs) \<Longrightarrow> cur st = Some (Inr (tl_s (heap st ! a), st))"
  by (simp add: cur_def inv_current(1) exec)

lemma cur_Nil: "inv_for env st mss ks [] \<Longrightarrow> cur st = Some (Inl Null_Dereference)"
  by (simp add: cur_def inv_for_def exec)

lemma take_out_run: "eat_token (heap st) a = (h, q) \<Longrightarrow> take_out (Some a) st = Some (Inr (q, st\<lparr>heap := h\<rparr>))"
  by (simp add: take_out_def exec)

text \<open>\<open>eat_current_token\<close> takes the current token out, and only its neighbours change.\<close>

lemma eat_current_run:
  assumes "inv_for env st mss ks (a # xs)"
  shows "\<exists>h. eat_current_token st =
      Some (Inr ((), st\<lparr>heap := h, macro_token := first_or xs None, global_token := first_or (ks @ xs) None\<rparr>)) \<and>
    inv_for env (st\<lparr>heap := h, macro_token := first_or xs None, global_token := first_or (ks @ xs) None\<rparr>) mss ks xs \<and>
    length h = length (heap st) \<and> keeps (heap st) h \<and> (\<forall>b. b \<notin> set (ks @ xs) \<longrightarrow> h ! b = heap st ! b)"
proof -
  have l: "linked (heap st) (ks @ a # xs)" and d: "distinct (concat mss @ ks @ a # xs)"
    using assms by (auto simp: inv_for_def linked_def)
  obtain h where h: "eat_token (heap st) a = (h, first_or xs None)" "linked h (ks @ xs)"
    using eat_token_linked [OF l] by blast
  have nb: "b \<notin> set (ks @ xs) \<Longrightarrow> h ! b = heap st ! b" for b
    using eat_token_frame(3) [OF h(1), of b] inv_current [OF assms] first_or_set [of b xs] last_or_set [of b ks] by auto
  have "list_all2 (body_ok h) env mss"
  proof (rule bodies_cong [of "heap st"])
    show "list_all2 (body_ok (heap st)) env mss" using assms by (simp add: inv_for_def)
    show "h ! b = heap st ! b" if "b \<in> set (concat mss)" for b
      using inv_apart [OF assms that] by (intro nb) simp
  qed (simp add: eat_token_frame(1) [OF h(1)])
  then have i: "inv_for env (st\<lparr>heap := h, macro_token := first_or xs None, global_token := first_or (ks @ xs) None\<rparr>) mss ks xs"
    using h(2) d by (auto simp: inv_for_def linked_def)
  have g: "macro_token st = global_token st \<longleftrightarrow> ks = []"
    using assms d by (cases ks) (auto simp: inv_for_def)
  have "eat_current_token st =
      Some (Inr ((), st\<lparr>heap := h, macro_token := first_or xs None, global_token := first_or (ks @ xs) None\<rparr>))"
    using inv_current(1) [OF assms] assms g
    by (cases ks) (simp_all add: exec eat_current_token_def bindP_run [OF take_out_run] inv_for_def h(1))
  then show ?thesis using i nb eat_token_frame [OF h(1)] by blast
qed

lemma eat_current_Nil: "inv_for env st mss ks [] \<Longrightarrow> eat_current_token st = Some (Inl Null_Dereference)"
  by (simp add: eat_current_token_def take_out_def inv_for_def bindP_def get_def exec)

lemma next_token_run:
  assumes "inv_for env st mss ks (a # xs)"
  shows "next_token st = Some (Inr ((), st\<lparr>macro_token := first_or xs None\<rparr>))"
    "inv_for env (st\<lparr>macro_token := first_or xs None\<rparr>) mss (ks @ [a]) xs"
  using assms inv_current [OF assms]
  by (simp_all add: next_token_def inv_for_def exec)

end
