(* ===== verification/CcMacroTotal.thy ===== *)
theory CcMacroTotal
  imports CcMacroView "HOL-Library.Sublist"
begin

text \<open>
  Every operation of the preprocessor returns, and keeps the invariant: the evaluator, the directives
  other than \<open>#include\<close>, the expansion of a token.
\<close>

section \<open>What an operation eats\<close>

text \<open>From \<open>st\<close> with the tokens \<open>xs\<close> ahead to \<open>st'\<close>, at least \<open>n\<close> tokens eaten.\<close>

definition ate :: "nat \<Rightarrow> pp \<Rightarrow> nat list \<Rightarrow> nat list \<Rightarrow> pp \<Rightarrow> bool" where
  "ate n st ks xs st' \<longleftrightarrow> (\<exists>mss ys. suffix ys xs \<and> length ys + n \<le> length xs \<and> wf_pp st' mss ks ys \<and>
     keeps (heap st) (heap st') \<and> FOLLOW_INCLUDES st' = FOLLOW_INCLUDES st \<and> expand_depth st' = expand_depth st)"

lemma ate_refl: "wf_pp st mss ks xs \<Longrightarrow> ate 0 st ks xs st"
  by (auto simp: ate_def)

lemma ateE:
  assumes "ate n st ks xs st'"
  obtains mss ys where "suffix ys xs" "length ys + n \<le> length xs" "wf_pp st' mss ks ys" "keeps (heap st) (heap st')"
    "FOLLOW_INCLUDES st' = FOLLOW_INCLUDES st" "expand_depth st' = expand_depth st"
  using assms by (auto simp: ate_def)

lemma ate_trans:
  assumes "ate n st ks xs st1" "\<And>mss ys. wf_pp st1 mss ks ys \<Longrightarrow> suffix ys xs \<Longrightarrow> length ys + n \<le> length xs \<Longrightarrow> ate k st1 ks ys st2"
  shows "ate (n + k) st ks xs st2"
proof -
  obtain mss ys where 1: "suffix ys xs" "length ys + n \<le> length xs" "wf_pp st1 mss ks ys" "keeps (heap st) (heap st1)"
    "FOLLOW_INCLUDES st1 = FOLLOW_INCLUDES st" "expand_depth st1 = expand_depth st"
    using assms(1) by (rule ateE)
  obtain mss' zs where 2: "suffix zs ys" "length zs + k \<le> length ys" "wf_pp st2 mss' ks zs" "keeps (heap st1) (heap st2)"
    "FOLLOW_INCLUDES st2 = FOLLOW_INCLUDES st1" "expand_depth st2 = expand_depth st1"
    using assms(2) [OF 1(3,1,2)] by (rule ateE)
  show ?thesis unfolding ate_def
    using 1 2 suffix_order.trans keeps_trans by (intro exI [of _ mss'] exI [of _ zs]) auto
qed

lemma ate_weaken: "ate n st ks xs st' \<Longrightarrow> k \<le> n \<Longrightarrow> ate k st ks xs st'"
  by (fastforce simp: ate_def)

lemma ate_fields [simp]: "ate n st ks xs (st'\<lparr>conditional_inclusion_top := c\<rparr>) = ate n st ks xs st'"
  by (simp add: ate_def)

text \<open>Two operations in sequence; \<open>P\<close> is what the second one needs to know of the first.\<close>

lemma wp_seqR:
  assumes "wp m (\<lambda>x st'. ate n st ks xs st' \<and> P x st') st"
    and "\<And>x st1 mss ys. wf_pp st1 mss ks ys \<Longrightarrow> suffix ys xs \<Longrightarrow> length ys + n \<le> length xs \<Longrightarrow> P x st1 \<Longrightarrow>
      wp (f x) (\<lambda>y st2. ate k st1 ks ys st2 \<and> R y st2) st1"
    and "N \<le> n + k"
  shows "wp (bindP m f) (\<lambda>y st2. ate N st ks xs st2 \<and> R y st2) st"
  unfolding wp_bindP
proof (rule wp_mono [OF assms(1)], elim conjE)
  fix x st1
  assume a: "ate n st ks xs st1" "P x st1"
  obtain mss ys where y: "suffix ys xs" "length ys + n \<le> length xs" "wf_pp st1 mss ks ys" using a(1) by (rule ateE)
  show "wp (f x) (\<lambda>y st2. ate N st ks xs st2 \<and> R y st2) st1"
  proof (rule wp_mono [OF assms(2) [OF y(3,1,2) a(2)]], elim conjE)
    fix z st2
    assume z: "ate k st1 ks ys st2" "R z st2"
    obtain mss' zs where 1: "suffix zs ys" "length zs + k \<le> length ys" "wf_pp st2 mss' ks zs" "keeps (heap st1) (heap st2)"
      "FOLLOW_INCLUDES st2 = FOLLOW_INCLUDES st1" "expand_depth st2 = expand_depth st1"
      using z(1) by (rule ateE)
    have 2: "keeps (heap st) (heap st1)" "FOLLOW_INCLUDES st1 = FOLLOW_INCLUDES st" "expand_depth st1 = expand_depth st"
      using a(1) by (auto simp: ate_def)
    have "ate N st ks xs st2" unfolding ate_def
      using 1 2 y assms(3) suffix_order.trans keeps_trans by (intro exI [of _ mss'] exI [of _ zs]) auto
    then show "ate N st ks xs st2 \<and> R z st2" using z(2) by simp
  qed
qed

lemmas wp_seq = wp_seqR [where R = "\<lambda>_ _. True", simplified]
lemmas wp_then = wp_seq [where P = "\<lambda>_ _. True", simplified]

lemma cur_wp: "wf_pp st mss ks xs \<Longrightarrow> wp cur Q st \<longleftrightarrow> (\<forall>a ys. xs = a # ys \<longrightarrow> Q (tl_s (heap st ! a)) st)"
proof (cases xs)
  case Nil
  assume "wf_pp st mss ks xs"
  then show ?thesis using Nil cur_Nil by (auto simp: wp_def)
next
  case (Cons a ys)
  assume "wf_pp st mss ks xs"
  then show ?thesis using Cons by (auto simp: wp_run [OF cur_Cons])
qed

lemma eat_current_wp: "wf_pp st mss ks xs \<Longrightarrow> wp eat_current_token (\<lambda>_. ate 1 st ks xs) st"
proof (cases xs)
  case (Cons a ys)
  assume "wf_pp st mss ks xs"
  then show ?thesis using eat_current_run [of "macro_env st" st mss ks a ys] Cons
    by (auto simp: wp_def ate_def intro!: exI [of _ mss] exI [of _ ys] suffix_ConsI)
qed (simp add: wp_def eat_current_Nil)

section \<open>The evaluator\<close>

lemma create_replacement_wp:
  assumes "wf_pp st mss ks xs" "chr_at s 0 \<noteq> LF"
  shows "wp (create_replacement_token symb tk s) (\<lambda>r st'. ate 0 st ks xs st' \<and>
    snd r \<in> set (macro_env st') \<and> set (macro_env st) \<subseteq> set (macro_env st')) st"
proof -
  let ?n = "no_token\<lparr>tl_s := s, tl_linenumber := tl_linenumber tk\<rparr>"
  let ?m = "\<lparr>mac_symbol = symb, mac_expansion = Some (length (heap st)), mac_arguments = None\<rparr>"
  have i: "wf_pp (st\<lparr>heap := heap st @ [?n]\<rparr>) mss ks xs" using inv_new_node [OF assms(1)] by simp
  have "length (heap st) \<notin> set (concat mss @ ks @ xs)"
    using inv_bounds [OF assms(1)] inv_body_bounds [OF assms(1)] by (auto simp del: set_concat)
  then have "wf_pp (st\<lparr>heap := heap st @ [?n], macro_env := ?m # macro_env st\<rparr>) ([length (heap st)] # mss) ks xs"
    using i assms(2) by (simp add: inv_for_def body_ok_def)
  then show ?thesis
    by (auto simp: wp_def create_replacement_token_def ate_def Let_def exec)
qed

lemma digit_not_LF: "chr_at digit_table k \<noteq> LF"
proof (cases "k < length digit_table")
  case True
  then have "chr_at digit_table k \<in> set digit_table" unfolding chr_at_def by (simp only: if_True nth_mem)
  then show ?thesis by auto
qed (simp add: chr_at_def)

lemma int2str_loop_not_LF: "chr_at (int2str_loop b i acc) 0 \<noteq> LF"
proof (induction b i acc rule: int2str_loop.induct)
  case (1 b i acc)
  then show ?case by (subst int2str_loop.simps) (simp add: Let_def digit_not_LF)
qed

lemma int2str_not_LF: "map_sum f id (int2str x 10 True) = Inr s \<Longrightarrow> chr_at s 0 \<noteq> LF"
  by (auto simp: int2str_def Let_def int2str_loop_not_LF requireE_def split: if_splits)

lemma concat_not_LF: "concat_strings2 m [CHR 0x22] f = Some s \<Longrightarrow> chr_at s 0 \<noteq> LF"
  by (auto simp: concat_strings2_def copy_string_def in_buffer_def Let_def split: if_splits)

lemma find_macro_set: "find_macro s env = Some (n, m) \<Longrightarrow> m \<in> set env"
  by (induction env) (auto split: if_splits)

lemma node_at_wp [wp_simps]: "wp (node_at (Some a)) Q st \<longleftrightarrow> Q (heap st ! a) st"
  by (simp add: wp_def node_at_def exec)

lemma lookup_macro_wp:
  assumes "wf_pp st mss ks xs"
  shows "wp (lookup_macro (Some a)) (\<lambda>r st'. ate 0 st ks xs st' \<and>
    ((\<forall>n m. r = Some (n, m) \<longrightarrow> m \<in> set (macro_env st')) \<and> set (macro_env st) \<subseteq> set (macro_env st'))) st"
  unfolding lookup_macro_def
  using assms
  by (auto simp: wp_simps ate_refl find_macro_set split: option.splits sum.splits
      intro!: wp_mono [OF create_replacement_wp [OF assms]] dest: int2str_not_LF concat_not_LF)

lemma inv_expansion:
  assumes "wf_pp st mss ks xs" "m \<in> set (macro_env st)" "mac_expansion m \<noteq> None"
  obtains a ms where "mac_expansion m = Some a" "a < length (heap st)" "chr_at (tl_s (heap st ! a)) 0 \<noteq> LF"
proof -
  obtain ms where b: "body_ok (heap st) m ms"
    using assms(1,2) by (auto simp: inv_for_def list_all2_conv_all_nth in_set_conv_nth)
  then show ?thesis using assms(3) that by (cases ms) (auto simp: body_ok_def)
qed

lemma variable_loop_Some:
  "mac_expansion (snd hold) = Some a \<Longrightarrow> variable_loop n hold =
    bindP (lookup_macro (Some a)) (\<lambda>r.
       case r of
         None \<Rightarrow> ret (snd hold)
       | Some nxt \<Rightarrow>
           if fst nxt = fst hold then ret (snd hold)
           else (case n of 0 \<Rightarrow> ret (snd hold) | Suc n \<Rightarrow> variable_loop n nxt))"
  by (simp add: variable_loop.simps [of n hold])

lemma variable_loop_wp:
  assumes "wf_pp st mss ks xs" "snd hold \<in> set (macro_env st)"
  shows "wp (variable_loop n hold) (\<lambda>m st'. ate 0 st ks xs st' \<and> (m \<in> set (macro_env st') \<and> mac_expansion m \<noteq> None)) st"
  using assms
proof (induction n arbitrary: hold st mss xs)
  case (0 hold)
  show ?case
  proof (cases "mac_expansion (snd hold)")
    case (Some a)
    have "wp (lookup_macro (Some a)) (\<lambda>r st'. ate 0 st ks xs st' \<and> snd hold \<in> set (macro_env st')) st"
      using 0(2) by (auto intro: wp_mono [OF lookup_macro_wp [OF 0(1), of a]])
    then show ?thesis unfolding variable_loop_Some [OF Some]
      by (rule wp_seqR [where k = 0]) (auto simp: wp_simps ate_refl Some split: option.splits)
  qed (simp add: variable_loop.simps wp_simps)
next
  case (Suc n hold)
  show ?case
  proof (cases "mac_expansion (snd hold)")
    case (Some a)
    have "wp (lookup_macro (Some a)) (\<lambda>r st'. ate 0 st ks xs st' \<and>
        (snd hold \<in> set (macro_env st') \<and> (\<forall>n m. r = Some (n, m) \<longrightarrow> m \<in> set (macro_env st')))) st"
      using Suc.prems(2) by (auto intro: wp_mono [OF lookup_macro_wp [OF Suc.prems(1), of a]])
    then show ?thesis unfolding variable_loop_Some [OF Some]
      by (rule wp_seqR [where k = 0]) (auto simp: wp_simps ate_refl Some intro!: Suc.IH [simplified] split: option.splits)
  qed (simp add: variable_loop.simps wp_simps)
qed

lemma macro_variable_wp:
  assumes "wf_pp st mss ks (a # xs)"
  shows "wp macro_variable (\<lambda>_. ate 1 st ks (a # xs)) st"
  unfolding macro_variable_def wp_bindP [of "get _"] wp_basic(3) inv_current(1) [OF assms]
proof (rule wp_seq [OF lookup_macro_wp [OF assms]])
  fix r :: "(nat \<times> macro) option" and st1 mss1 ys
  assume i: "wf_pp st1 mss1 ks ys"
    and r: "(\<forall>n m. r = Some (n, m) \<longrightarrow> m \<in> set (macro_env st1)) \<and> set (macro_env st) \<subseteq> set (macro_env st1)"
  show "wp (bindP (case r of None \<Rightarrow> ret 0 | Some hold \<Rightarrow> bindP (variable_loop 64 hold) (\<lambda>hold.
        bindP (node_at (mac_expansion hold)) (\<lambda>tok. ret (strtoint (tl_s tok))))) (\<lambda>val.
        bindP eat_current_token (\<lambda>_. ret val))) (\<lambda>_. ate 1 st1 ks ys) st1"
  proof (rule wp_then [where n = 0 and k = 1])
    show "wp (case r of None \<Rightarrow> ret 0 | Some hold \<Rightarrow> bindP (variable_loop 64 hold) (\<lambda>hold.
        bindP (node_at (mac_expansion hold)) (\<lambda>tok. ret (strtoint (tl_s tok))))) (\<lambda>_. ate 0 st1 ks ys) st1"
      using i r by (auto simp: wp_simps ate_refl split: option.splits intro!: wp_mono [OF variable_loop_wp [OF i]])
  qed (auto simp: wp_simps intro: wp_mono [OF eat_current_wp])
qed simp

lemma macro_number_wp: "wf_pp st mss ks xs \<Longrightarrow> wp macro_number (\<lambda>_. ate 1 st ks xs) st"
  unfolding macro_number_def wp_bindP
  by (simp add: cur_wp) (auto simp: wp_simps intro: wp_mono [OF eat_current_wp])

lemma not_eof_wp: "wp not_eof Q st \<longleftrightarrow> (macro_token st \<noteq> None \<longrightarrow> Q () st)"
  by (simp add: not_eof_def wp_simps)

lemma eat_wp0: "wf_pp st mss ks xs \<Longrightarrow> wp eat_current_token (\<lambda>_. ate 0 st ks xs) st"
  by (rule wp_mono [OF eat_current_wp]) (auto intro: ate_weaken)

lemma lookup_current_wp:
  assumes i: "wf_pp st mss ks xs"
  shows "wp (lookup_macro (macro_token st)) (\<lambda>r. ate 0 st ks xs) st"
proof (cases xs)
  case Nil
  then have "macro_token st = None" using i by (simp add: inv_for_def)
  then show ?thesis by (simp add: lookup_macro_def wp_simps)
next
  case (Cons a ys)
  then have "macro_token st = Some a" using i inv_current(1) by blast
  then show ?thesis using wp_mono [OF lookup_macro_wp [OF i, of a]] by simp
qed

lemma ate_less: "wp m (\<lambda>_. ate 1 st ks xs) s \<Longrightarrow> wp m (\<lambda>_. ate 0 st ks xs) s"
  by (erule wp_mono) (auto intro: ate_weaken)

lemma lookup_then:
  assumes "wf_pp st mss ks xs"
    and "\<And>r st1 mss ys. wf_pp st1 mss ks ys \<Longrightarrow> suffix ys xs \<Longrightarrow> wp (f r) (\<lambda>_. ate 0 st1 ks ys) st1"
  shows "wp (bindP (get macro_token) (\<lambda>p. bindP (lookup_macro p) f)) (\<lambda>_. ate 0 st ks xs) st"
  unfolding wp_bindP [of "get _"] wp_basic(3)
  by (rule wp_then [OF lookup_current_wp [OF assms(1)], where k = 0]) (auto intro: assms(2))

lemma if_eat_wp: "wf_pp st mss ks xs \<Longrightarrow> wp (if b then eat_current_token else ret ()) (\<lambda>_. ate 0 st ks xs) st"
  by (cases b) (auto simp: wp_simps eat_wp0 ate_refl)

lemma macro_defined_wp:
  assumes i: "wf_pp st mss ks xs"
  shows "wp macro_defined (\<lambda>_. ate 1 st ks xs) st"
  unfolding macro_defined_def
proof (rule wp_then [OF eat_current_wp [OF i], where k = 0])
  fix x st1 mss1 ys
  assume i: "wf_pp st1 mss1 ks ys"
  show "wp (bindP not_eof (\<lambda>_. bindP cur (\<lambda>s.
      let defined_has_paren = (chr_at s 0 = CHR ''('') in
      bindP (if defined_has_paren then eat_current_token else ret ()) (\<lambda>_.
      bindP (get macro_token) (\<lambda>p.
      bindP (lookup_macro p) (\<lambda>r.
      bindP eat_current_token (\<lambda>_.
      bindP (if defined_has_paren
           then bindP not_eof (\<lambda>_.
                bindP cur (\<lambda>s.
                bindP (require (chr_at s 0 = CHR '')'') Missing_Paren) (\<lambda>_. eat_current_token)))
           else ret ()) (\<lambda>_.
      ret (of_bool (r \<noteq> None)))))))))) (\<lambda>_. ate 0 st1 ks ys) st1"
    unfolding wp_bindP [of not_eof] not_eof_wp wp_bindP [of cur] cur_wp [OF i] Let_def
  proof (intro impI allI)
    fix a zs
    assume "ys = a # zs"
    let ?paren = "chr_at (tl_s (heap st1 ! a)) 0 = CHR ''(''"
    let ?close = "if ?paren then bindP not_eof (\<lambda>_. bindP cur (\<lambda>s.
          bindP (require (chr_at s 0 = CHR '')'') Missing_Paren) (\<lambda>_. eat_current_token))) else ret ()"
    have c: "wp ?close (\<lambda>_. ate 0 st' ks ys') st'" if "wf_pp st' mss' ks ys'" for st' mss' ys'
      using eat_wp0 [OF that] ate_refl [OF that]
      by (cases ?paren) (auto simp: wp_simps not_eof_wp cur_wp [OF that])
    show "wp (bindP (if ?paren then eat_current_token else ret ()) (\<lambda>_. bindP (get macro_token) (\<lambda>p.
        bindP (lookup_macro p) (\<lambda>r. bindP eat_current_token (\<lambda>_. bindP ?close (\<lambda>_.
        ret (of_bool (r \<noteq> None)))))))) (\<lambda>_. ate 0 st1 ks ys) st1"
      by (rule wp_then [OF if_eat_wp [OF i], where k = 0], rule lookup_then, assumption,
          rule wp_then [OF eat_wp0, where k = 0], assumption, rule wp_then [OF c, where k = 0])
        (simp_all add: wp_simps ate_refl)
  qed
qed simp

lemma macro_eval_unfold:
  "macro_eval Primary = macro_primary_expr macro_eval" "macro_eval Additive = macro_additive_expr macro_eval"
  "macro_eval Relational = macro_relational_expr macro_eval" "macro_eval Bitwise = macro_bitwise_expr macro_eval"
  by (simp_all add: fun_eq_iff macro_eval.simps)

lemma op_wp:
  assumes "additive_op s = Some f \<or> relational_op s = Some f \<or> bitwise_op s = Some f" "wf_pp st mss ks xs"
  shows "wp (f l r) (\<lambda>_. ate 0 st ks xs) st"
  using assms
  by (auto simp: additive_op.simps relational_op.simps bitwise_op.simps wp_simps divide_by_def shift_by_def
      ate_refl split: if_splits)

lemma binary_rest_wp:
  assumes "wf_pp st mss ks xs"
    and "\<And>st' mss' ys. wf_pp st' mss' ks ys \<Longrightarrow> suffix ys xs \<Longrightarrow> length ys < length xs \<Longrightarrow> wp again (\<lambda>_. ate 0 st' ks ys) st'"
    and "\<And>s f l r. opr s = Some f \<Longrightarrow> additive_op s = Some f \<or> relational_op s = Some f \<or> bitwise_op s = Some f"
  shows "wp (binary_rest opr again lhs) (\<lambda>_. ate 0 st ks xs) st"
  unfolding binary_rest_def wp_bindP cur_wp [OF assms(1)]
proof (intro allI impI)
  fix a ys
  assume xs: "xs = a # ys"
  show "wp (case opr (tl_s (heap st ! a)) of None \<Rightarrow> ret lhs
      | Some f \<Rightarrow> bindP eat_current_token (\<lambda>_. bindP again (\<lambda>rhs. f lhs rhs))) (\<lambda>_. ate 0 st ks xs) st"
  proof (cases "opr (tl_s (heap st ! a))")
    case None
    then show ?thesis by (simp add: wp_simps ate_refl [OF assms(1)])
  next
    case (Some f)
    show ?thesis unfolding Some option.case
    proof (rule wp_then [OF eat_current_wp [OF assms(1)], where k = 0])
      fix x st1 mss1 zs
      assume i: "wf_pp st1 mss1 ks zs" "suffix zs xs" "length zs + 1 \<le> length xs"
      show "wp (bindP again (\<lambda>rhs. f lhs rhs)) (\<lambda>_. ate 0 st1 ks zs) st1"
        using assms(3) [OF Some] i by (intro wp_then [OF assms(2), where k = 0] op_wp) auto
    qed simp
  qed
qed

fun rank :: "level \<Rightarrow> nat" where
  "rank Primary = 0" | "rank Additive = 1" | "rank Relational = 2" | "rank Bitwise = 3"

lemma macro_eval_wp: "wf_pp st mss ks xs \<Longrightarrow> wp (macro_eval lev) (\<lambda>_. ate 0 st ks xs) st"
proof (induction "4 * length xs + rank lev" arbitrary: st mss xs lev rule: less_induct)
  case less
  note i = less.prems
  have IH: "wp (macro_eval l) (\<lambda>_. ate 0 st' ks ys) st'"
    if "wf_pp st' mss' ks ys" "suffix ys xs" "length ys < length xs \<or> rank l < rank lev" for l st' mss' ys
    using less.hyps [OF _ that(1), of l] that(3) suffix_length_le [OF that(2)]
    by (cases l; cases lev) auto
  show ?case
  proof (cases lev)
    case Primary
    have P: "wp (bindP eat_current_token (\<lambda>_. bindP (macro_eval l) g)) (\<lambda>_. ate 0 st ks xs) st"
      if "\<And>v st' mss' ys. wf_pp st' mss' ks ys \<Longrightarrow> wp (g v) (\<lambda>_. ate 0 st' ks ys) st'" for l g
    proof (rule wp_then [OF eat_current_wp [OF i], where k = 0])
      fix x st1 mss1 ys
      assume 1: "wf_pp st1 mss1 ks ys" "suffix ys xs" "length ys + 1 \<le> length xs"
      then show "wp (bindP (macro_eval l) g) (\<lambda>_. ate 0 st1 ks ys) st1"
        by (intro wp_then [where n = 0 and k = 0] IH that) auto
    qed simp
    have C: "wp (bindP cur (\<lambda>s. bindP (require (chr_at s 0 = CHR '')'') Missing_Paren) (\<lambda>_.
        bindP eat_current_token (\<lambda>_. ret v)))) (\<lambda>_. ate 0 st' ks ys) st'" if "wf_pp st' mss' ks ys" for v st' mss' ys
      using eat_wp0 [OF that] by (auto simp: wp_simps cur_wp [OF that])
    show ?thesis unfolding Primary macro_eval_unfold
      unfolding macro_primary_expr_def wp_bindP [of not_eof] not_eof_wp wp_bindP [of cur] cur_wp [OF i]
    proof (intro impI allI)
      fix a ys
      assume xs: "xs = a # ys"
      let ?s = "tl_s (heap st ! a)"
      have V: "wp macro_variable (\<lambda>_. ate 0 st ks xs) st" "wp macro_number (\<lambda>_. ate 0 st ks xs) st"
          "wp macro_defined (\<lambda>_. ate 0 st ks xs) st"
        using i unfolding xs
        by (intro ate_less macro_variable_wp macro_number_wp macro_defined_wp; simp)+
      show "wp (if chr_at ?s 0 = CHR ''-'' then bindP eat_current_token (\<lambda>_. bindP (macro_eval Primary) (\<lambda>v. ret (- v)))
        else if chr_at ?s 0 = CHR ''!'' then bindP eat_current_token (\<lambda>_. bindP (macro_eval Primary) (\<lambda>v. ret (of_bool (v = 0))))
        else if chr_at ?s 0 = CHR ''('' then bindP eat_current_token (\<lambda>_. bindP (macro_eval Bitwise) (\<lambda>hold. bindP cur (\<lambda>s.
            bindP (require (chr_at s 0 = CHR '')'') Missing_Paren) (\<lambda>_. bindP eat_current_token (\<lambda>_. ret hold)))))
        else if ?s = ''defined'' then macro_defined else if in_set (chr_at ?s 0) letters then macro_variable
        else if in_set (chr_at ?s 0) ''0123456789'' then macro_number else ret 0) (\<lambda>_. ate 0 st ks xs) st"
        using V by (simp only: split: if_split) (intro conjI impI P C V; auto simp: wp_simps intro: ate_refl [OF i] ate_refl)
    qed
  next
    case Additive
    show ?thesis unfolding Additive macro_eval_unfold unfolding macro_additive_expr_def
    proof (rule wp_then [OF IH, where k = 0])
      fix x st1 mss1 ys
      assume 1: "wf_pp st1 mss1 ks ys" "suffix ys xs"
      then show "wp (bindP not_eof (\<lambda>_. binary_rest additive_op (macro_eval Additive) x)) (\<lambda>_. ate 0 st1 ks ys) st1"
        unfolding wp_bindP not_eof_wp
        by (intro impI binary_rest_wp IH) (auto intro: suffix_order.trans dest: suffix_length_le)
    qed (use i Additive in auto)
  next
    case Relational
    show ?thesis unfolding Relational macro_eval_unfold unfolding macro_relational_expr_def
      by (rule wp_then [OF IH, where k = 0])
        (use i Relational in \<open>auto intro!: binary_rest_wp IH intro: suffix_order.trans dest: suffix_length_le\<close>)
  next
    case Bitwise
    show ?thesis unfolding Bitwise macro_eval_unfold unfolding macro_bitwise_expr_def
      by (rule wp_then [OF IH, where k = 0])
        (use i Bitwise in \<open>auto intro!: binary_rest_wp IH intro: suffix_order.trans dest: suffix_length_le\<close>)
  qed
qed

end
