(* ===== verification/CcMacroLines.thy ===== *)
theory CcMacroLines
  imports CcMacroTotal
begin

text \<open>
  The directives return, and keep the invariant. \<open>eat_block\<close> may go back to the newline before the
  block, so a directive ends either behind what it ate, or at a newline with the rest of the list
  behind it (\<open>rewound\<close>).
\<close>

section \<open>Skipping a block\<close>

lemmas wp_thenR = wp_seqR [where P = "\<lambda>_ _. True", simplified]

lemma eat_until_endif_unfold:
  "eat_until_endif = bindP (not_null Unterminated_If) (\<lambda>_. bindP cur (\<lambda>s.
    bindP (if opens_if s then bindP eat_current_token (\<lambda>_. eat_until_endif) else ret ()) (\<lambda>_.
    bindP eat_current_token (\<lambda>_. bindP (not_null Unterminated_If) (\<lambda>_.
    bindP cur (\<lambda>s. if s \<noteq> ''#endif'' then eat_until_endif else ret ()))))))"
  by (rule ext) (rule eat_until_endif.simps)

lemma eat_block_loop_unfold:
  "eat_block_loop = bindP cur (\<lambda>s.
    bindP (if opens_if s then bindP eat_current_token (\<lambda>_. eat_until_endif) else ret ()) (\<lambda>_.
    bindP eat_current_token (\<lambda>_. bindP (not_null Unterminated_If) (\<lambda>_.
    bindP cur (\<lambda>s. if ends_block s then ret () else eat_block_loop)))))"
  by (rule ext) (rule eat_block_loop.simps)

lemma not_null_wp: "wp (not_null e) Q st \<longleftrightarrow> (macro_token st \<noteq> None \<longrightarrow> Q () st)"
  by (simp add: not_null_def wp_simps)

lemma not_null_Cons: "wf_pp st mss ks xs \<Longrightarrow> wp (not_null e) Q st \<longleftrightarrow> (xs \<noteq> [] \<longrightarrow> Q () st)"
  by (cases xs) (auto simp: not_null_wp inv_for_def)

lemma eat_until_endif_wp: "wf_pp st mss ks xs \<Longrightarrow> wp eat_until_endif (\<lambda>_. ate 1 st ks xs) st"
proof (induction "length xs" arbitrary: st mss xs rule: less_induct)
  case less
  note i = less.prems
  have again: "wp (bindP cur (\<lambda>s. if s \<noteq> ''#endif'' then eat_until_endif else ret ())) (\<lambda>_. ate 0 st' ks ys) st'"
    if "wf_pp st' mss' ks ys" "length ys < length xs" for st' mss' ys
    using ate_less [OF less.hyps [OF that(2,1)]] ate_refl [OF that(1)] that(1)
    by (auto simp: wp_bindP cur_wp wp_simps)
  have rest: "wp (bindP eat_current_token (\<lambda>_. bindP (not_null Unterminated_If) (\<lambda>_.
      bindP cur (\<lambda>s. if s \<noteq> ''#endif'' then eat_until_endif else ret ())))) (\<lambda>_. ate 1 st' ks ys) st'"
    if "wf_pp st' mss' ks ys" "length ys \<le> length xs" for st' mss' ys
    by (rule wp_then [OF eat_current_wp [OF that(1)], where k = 0])
      (use that(2) in \<open>auto simp: wp_bindP [of "not_null _"] not_null_wp intro!: again\<close>)
  show ?case
  proof (subst eat_until_endif_unfold, unfold wp_bindP [of "not_null _"] not_null_Cons [OF i] wp_bindP [of cur] cur_wp [OF i],
      intro impI allI)
    fix a ys
    assume xs: "xs = a # ys"
    have block: "wp (if opens_if (tl_s (heap st ! a)) then bindP eat_current_token (\<lambda>_. eat_until_endif) else ret ()) (\<lambda>_. ate 0 st ks xs) st"
    proof (cases "opens_if (tl_s (heap st ! a))")
      case True
      have "wp (bindP eat_current_token (\<lambda>_. eat_until_endif)) (\<lambda>_. ate 0 st ks xs) st"
        by (rule wp_then [OF eat_current_wp [OF i], where k = 0]) (auto intro!: ate_less less.hyps)
      then show ?thesis using True by simp
    qed (simp add: wp_simps ate_refl [OF i])
    show "wp (bindP (if opens_if (tl_s (heap st ! a)) then bindP eat_current_token (\<lambda>_. eat_until_endif) else ret ())
        (\<lambda>_. bindP eat_current_token (\<lambda>_. bindP (not_null Unterminated_If) (\<lambda>_.
          bindP cur (\<lambda>s. if s \<noteq> ''#endif'' then eat_until_endif else ret ()))))) (\<lambda>_. ate 1 st ks xs) st"
      by (rule wp_then [OF block, where k = 1], rule rest) simp_all
  qed
qed

definition at_block_end :: "pp \<Rightarrow> bool" where
  "at_block_end st \<longleftrightarrow> (\<exists>a. macro_token st = Some a \<and> ends_block (tl_s (heap st ! a)))"

lemma eat_block_loop_wp:
  "wf_pp st mss ks xs \<Longrightarrow> wp eat_block_loop (\<lambda>_ st'. ate 1 st ks xs st' \<and> at_block_end st') st"
proof (induction "length xs" arbitrary: st mss xs rule: less_induct)
  case less
  note i = less.prems
  have again: "wp (bindP cur (\<lambda>s. if ends_block s then ret () else eat_block_loop)) (\<lambda>_ st''. ate 0 st' ks ys st'' \<and> at_block_end st'') st'"
    if "wf_pp st' mss' ks ys" "length ys < length xs" for st' mss' ys
    unfolding wp_bindP cur_wp [OF that(1)]
  proof (intro allI impI)
    fix a zs
    assume ys: "ys = a # zs"
    then have m: "macro_token st' = Some a" using that(1) inv_current(1) by blast
    show "wp (if ends_block (tl_s (heap st' ! a)) then ret () else eat_block_loop)
        (\<lambda>_ st''. ate 0 st' ks ys st'' \<and> at_block_end st'') st'"
    proof (cases "ends_block (tl_s (heap st' ! a))")
      case True
      then have "at_block_end st'" using m by (auto simp: at_block_end_def)
      then show ?thesis unfolding if_P [OF True] using ate_refl [OF that(1)] by (simp add: wp_simps)
    next
      case False
      show ?thesis unfolding if_not_P [OF False]
        by (rule wp_mono [OF less.hyps [OF that(2,1)]]) (auto intro: ate_weaken)
    qed
  qed
  have rest: "wp (bindP eat_current_token (\<lambda>_. bindP (not_null Unterminated_If) (\<lambda>_.
      bindP cur (\<lambda>s. if ends_block s then ret () else eat_block_loop)))) (\<lambda>_ st''. ate 1 st' ks ys st'' \<and> at_block_end st'') st'"
    if "wf_pp st' mss' ks ys" "length ys \<le> length xs" for st' mss' ys
    by (rule wp_seqR [where n = 1 and k = 0 and P = "\<lambda>_ _. True"])
      (use that eat_current_wp [OF that(1)] in \<open>auto simp: wp_bindP [of "not_null _"] not_null_wp intro!: again\<close>)
  show ?case
  proof (subst eat_block_loop_unfold, unfold wp_bindP [of cur] cur_wp [OF i], intro impI allI)
    fix a ys
    assume xs: "xs = a # ys"
    have block: "wp (if opens_if (tl_s (heap st ! a)) then bindP eat_current_token (\<lambda>_. eat_until_endif) else ret ()) (\<lambda>_. ate 0 st ks xs) st"
    proof (cases "opens_if (tl_s (heap st ! a))")
      case True
      have "wp (bindP eat_current_token (\<lambda>_. eat_until_endif)) (\<lambda>_. ate 0 st ks xs) st"
        by (rule wp_then [OF eat_current_wp [OF i], where k = 0]) (auto intro!: ate_less eat_until_endif_wp)
      then show ?thesis using True by simp
    qed (simp add: wp_simps ate_refl [OF i])
    show "wp (bindP (if opens_if (tl_s (heap st ! a)) then bindP eat_current_token (\<lambda>_. eat_until_endif) else ret ())
        (\<lambda>_. bindP eat_current_token (\<lambda>_. bindP (not_null Unterminated_If) (\<lambda>_.
          bindP cur (\<lambda>s. if ends_block s then ret () else eat_block_loop))))) (\<lambda>_ st''. ate 1 st ks xs st'' \<and> at_block_end st'') st"
      by (rule wp_thenR [OF block, where k = 1], rule rest) simp_all
  qed
qed

section \<open>Back to the newline\<close>

definition rewound :: "nat \<Rightarrow> pp \<Rightarrow> nat list \<Rightarrow> nat list \<Rightarrow> pp \<Rightarrow> bool" where
  "rewound n st ks xs st' \<longleftrightarrow> (\<exists>mss a y ys. suffix (y # ys) xs \<and> length (y # ys) + n \<le> length xs \<and>
     ends_block (tl_s (heap st' ! y)) \<and> macro_token st' = Some a \<and> tl_s (heap st' ! a) = [LF] \<and>
     tl_next (heap st' ! a) = Some y \<and>
     wf_pp (st'\<lparr>macro_token := Some y\<rparr>) mss ks (y # ys) \<and>
     keeps (heap st) (heap st') \<and> FOLLOW_INCLUDES st' = FOLLOW_INCLUDES st \<and> expand_depth st' = expand_depth st)"

definition ended :: "nat \<Rightarrow> pp \<Rightarrow> nat list \<Rightarrow> nat list \<Rightarrow> pp \<Rightarrow> bool" where
  "ended n st ks xs st' \<longleftrightarrow> ate n st ks xs st' \<or> rewound n st ks xs st'"

lemma rewind_newline_wp:
  assumes i: "wf_pp st mss ks xs" and e: "at_block_end st"
  shows "wp rewind_newline (\<lambda>_. ended 0 st ks xs) st"
proof -
  obtain a ys where xs: "xs = a # ys"
    using i e by (cases xs) (auto simp: inv_for_def at_block_end_def)
  note c = inv_current [OF i [unfolded xs]]
  have end_tok: "ends_block (tl_s (heap st ! a))" using e c(1) by (auto simp: at_block_end_def)
  show ?thesis
  proof (cases ks rule: rev_cases)
    case Nil
    let ?st = "st\<lparr>heap := heap st @ [no_token\<lparr>tl_s := [LF], tl_filename := tl_filename (heap st ! a),
        tl_linenumber := tl_linenumber (heap st ! a), tl_next := Some a\<rparr>], macro_token := Some (length (heap st))\<rparr>"
    have run: "rewind_newline st = Some (Inr ((), ?st))"
      by (simp add: rewind_newline_def c Nil exec)
    have "wf_pp (?st\<lparr>macro_token := Some a\<rparr>) mss ks xs"
      using inv_new_node [OF i] i c(1) xs by (simp add: inv_for_def)
    then have "rewound 0 st ks xs ?st"
      unfolding rewound_def xs using c(4) end_tok
      by (intro exI [of _ mss] exI [of _ "length (heap st)"] exI [of _ a] exI [of _ ys]) (auto simp: nth_append)
    then show ?thesis by (simp add: wp_run [where m = rewind_newline, OF run] ended_def)
  next
    case (snoc ks' k)
    show ?thesis
    proof (cases "tl_s (heap st ! k) = [LF]")
      case True
      have run: "rewind_newline st = Some (Inr ((), st\<lparr>macro_token := Some k\<rparr>))"
        by (simp add: rewind_newline_def c snoc exec True)
      have "tl_next (heap st ! k) = Some a" using i by (auto simp: inv_for_def snoc xs)
      moreover have "st\<lparr>macro_token := Some a\<rparr> = st" using c(1) by simp
      ultimately have "rewound 0 st ks xs (st\<lparr>macro_token := Some k\<rparr>)"
        unfolding rewound_def xs using i end_tok True
        by (intro exI [of _ mss] exI [of _ k] exI [of _ a] exI [of _ ys]) (auto simp: xs)
      then show ?thesis by (simp add: wp_run [where m = rewind_newline, OF run] ended_def)
    next
      case False
      have "rewind_newline st = Some (Inr ((), st))"
        by (simp add: rewind_newline_def c snoc exec False)
      then show ?thesis using ate_refl [OF i] by (simp add: wp_run ended_def)
    qed
  qed
qed

section \<open>Sequences that may end rewound\<close>

lemma ended_ate: "ate n st ks xs st' \<Longrightarrow> ended n st ks xs st'"
  by (simp add: ended_def)

lemma rewoundE:
  assumes "rewound n st ks xs st'"
  obtains mss a y ys where "suffix (y # ys) xs" "length (y # ys) + n \<le> length xs" "ends_block (tl_s (heap st' ! y))"
    "macro_token st' = Some a" "tl_s (heap st' ! a) = [LF]" "tl_next (heap st' ! a) = Some y"
    "wf_pp (st'\<lparr>macro_token := Some y\<rparr>) mss ks (y # ys)" "keeps (heap st) (heap st')"
    "FOLLOW_INCLUDES st' = FOLLOW_INCLUDES st" "expand_depth st' = expand_depth st"
  using assms unfolding rewound_def by blast

lemma ended_trans:
  assumes "ate n st ks xs st1" "wf_pp st1 mss ks ys" "suffix ys xs" "length ys + n \<le> length xs" "ended k st1 ks ys st2" "N \<le> n + k"
  shows "ended N st ks xs st2"
proof -
  have 1: "keeps (heap st) (heap st1)" "FOLLOW_INCLUDES st1 = FOLLOW_INCLUDES st" "expand_depth st1 = expand_depth st"
    using assms(1) by (auto simp: ate_def)
  from assms(5) show ?thesis unfolding ended_def
  proof (elim disjE)
    assume "ate k st1 ks ys st2"
    then obtain mss' zs where "suffix zs ys" "length zs + k \<le> length ys" "wf_pp st2 mss' ks zs" "keeps (heap st1) (heap st2)"
      "FOLLOW_INCLUDES st2 = FOLLOW_INCLUDES st1" "expand_depth st2 = expand_depth st1"
      by (rule ateE)
    then have "ate N st ks xs st2" unfolding ate_def
      using assms(3,4,6) 1 suffix_order.trans keeps_trans by (intro exI [of _ mss'] exI [of _ zs]) auto
    then show "ate N st ks xs st2 \<or> rewound N st ks xs st2" ..
  next
    assume "rewound k st1 ks ys st2"
    then obtain mss' a y zs where z: "suffix (y # zs) ys" "length (y # zs) + k \<le> length ys" "ends_block (tl_s (heap st2 ! y))"
      "macro_token st2 = Some a" "tl_s (heap st2 ! a) = [LF]" "tl_next (heap st2 ! a) = Some y"
      "wf_pp (st2\<lparr>macro_token := Some y\<rparr>) mss' ks (y # zs)" "keeps (heap st1) (heap st2)"
      "FOLLOW_INCLUDES st2 = FOLLOW_INCLUDES st1" "expand_depth st2 = expand_depth st1"
      by (rule rewoundE)
    have "suffix (y # zs) xs" "keeps (heap st) (heap st2)" "length (y # zs) + N \<le> length xs"
      using z(1,2,8) assms(3,4,6) 1(1) suffix_order.trans keeps_trans by (blast, blast, linarith)
    then have "rewound N st ks xs st2" unfolding rewound_def
      using z(3-7,9,10) 1(2,3) by (intro exI [of _ mss'] exI [of _ a] exI [of _ y] exI [of _ zs]) simp
    then show "ate N st ks xs st2 \<or> rewound N st ks xs st2" ..
  qed
qed

lemma wp_end:
  assumes "wp m (\<lambda>x st'. ate n st ks xs st' \<and> P x st') st"
    and "\<And>x st1 mss ys. wf_pp st1 mss ks ys \<Longrightarrow> suffix ys xs \<Longrightarrow> length ys + n \<le> length xs \<Longrightarrow> P x st1 \<Longrightarrow>
      wp (f x) (\<lambda>_. ended k st1 ks ys) st1"
    and "N \<le> n + k"
  shows "wp (bindP m f) (\<lambda>_. ended N st ks xs) st"
  unfolding wp_bindP
proof (rule wp_mono [OF assms(1)], elim conjE)
  fix x st1
  assume a: "ate n st ks xs st1" "P x st1"
  obtain mss ys where y: "suffix ys xs" "length ys + n \<le> length xs" "wf_pp st1 mss ks ys" using a(1) by (rule ateE)
  show "wp (f x) (\<lambda>_. ended N st ks xs) st1"
    by (rule wp_mono [OF assms(2) [OF y(3,1,2) a(2)]]) (rule ended_trans [OF a(1) y(3,1,2) _ assms(3)])
qed

lemmas wp_ending = wp_end [where P = "\<lambda>_ _. True", simplified]

lemma eat_block_wp: "wf_pp st mss ks xs \<Longrightarrow> wp eat_block (\<lambda>_. ended 1 st ks xs) st"
  unfolding eat_block_def
  by (rule wp_end [OF eat_block_loop_wp, where k = 0]) (auto intro: rewind_newline_wp)

lemma push_wp: "wf_pp st mss ks xs \<Longrightarrow> wp (push_conditional_inclusion v) (\<lambda>_. ate 0 st ks xs) st"
  by (simp add: push_conditional_inclusion_def wp_simps ate_refl)

lemma ended_refl: "wf_pp st mss ks xs \<Longrightarrow> wp (ret x) (\<lambda>_. ended 0 st ks xs) st"
  by (simp add: wp_simps ended_ate ate_refl)

lemma ended_less: "wp m (\<lambda>_. ended 1 st ks xs) s \<Longrightarrow> wp m (\<lambda>_. ended 0 st ks xs) s"
  by (erule wp_mono) (fastforce simp: ended_def ate_def rewound_def)

lemma eat_block_wp0: "wf_pp st mss ks xs \<Longrightarrow> wp eat_block (\<lambda>_. ended 0 st ks xs) st"
  by (rule ended_less [OF eat_block_wp])

lemma directive_if_wp: "wf_pp st mss ks xs \<Longrightarrow> wp directive_if (\<lambda>_. ended 1 st ks xs) st"
  unfolding directive_if_def macro_expression_def
  by (rule wp_ending [OF eat_current_wp, where k = 0], assumption,
      rule wp_ending [OF macro_eval_wp, where k = 0], assumption,
      rule wp_ending [OF push_wp, where k = 0], assumption)
    (auto intro: eat_block_wp0 ended_refl)

lemma ended_fields: "ended n st ks xs (st'\<lparr>conditional_inclusion_top := c\<rparr>) = ended n st ks xs st'"
proof -
  have "inv_for e (st'\<lparr>conditional_inclusion_top := c, macro_token := p\<rparr>) = inv_for e (st'\<lparr>macro_token := p\<rparr>)" for e p
    by (simp add: inv_for_def fun_eq_iff)
  then show ?thesis by (simp add: ended_def rewound_def)
qed

lemma wp_before_lookup:
  assumes "wf_pp st mss ks xs"
    and "\<And>r st1 mss1 ys. wf_pp st1 mss1 ks ys \<Longrightarrow> wp (f r) (\<lambda>_. ended 0 st1 ks ys) st1"
  shows "wp (bindP eat_current_token (\<lambda>_. bindP (not_null e) (\<lambda>_. bindP (get macro_token) (\<lambda>p. bindP (lookup_macro p) f))))
    (\<lambda>_. ended 1 st ks xs) st"
proof (rule wp_ending [OF eat_current_wp [OF assms(1)], where k = 0])
  fix x st1 mss1 ys
  assume i: "wf_pp st1 mss1 ks ys"
  show "wp (bindP (not_null e) (\<lambda>_. bindP (get macro_token) (\<lambda>p. bindP (lookup_macro p) f))) (\<lambda>_. ended 0 st1 ks ys) st1"
    unfolding wp_bindP [of "not_null _"] not_null_wp wp_bindP [of "get _"] wp_basic(3)
    by (intro impI, rule wp_ending [OF lookup_current_wp [OF i], where k = 0]) (auto intro: assms(2))
qed simp

lemma directive_ifdef_wp: "wf_pp st mss ks xs \<Longrightarrow> wp directive_ifdef (\<lambda>_. ended 1 st ks xs) st"
  unfolding directive_ifdef_def
proof (erule wp_before_lookup)
  fix r :: "(nat \<times> macro) option" and st1 mss1 ys
  assume i: "wf_pp st1 mss1 ks ys"
  have "wp (if r \<noteq> None then eat_current_token else eat_block) (\<lambda>_. ended 0 st1 ks ys) st1"
    using wp_mono [OF eat_wp0 [OF i] ended_ate] eat_block_wp0 [OF i] by auto
  then show "wp (bindP (if r \<noteq> None then eat_current_token else eat_block) (\<lambda>_. push_conditional_inclusion (of_bool (r \<noteq> None))))
      (\<lambda>_. ended 0 st1 ks ys) st1"
    by (simp add: push_conditional_inclusion_def wp_simps ended_fields)
qed

lemma directive_ifndef_wp: "wf_pp st mss ks xs \<Longrightarrow> wp directive_ifndef (\<lambda>_. ended 1 st ks xs) st"
  unfolding directive_ifndef_def
proof (erule wp_before_lookup)
  fix r :: "(nat \<times> macro) option" and st1 mss1 ys
  assume i: "wf_pp st1 mss1 ks ys"
  show "wp (bindP (if r = None then eat_current_token else ret ()) (\<lambda>_. bindP (push_conditional_inclusion (of_bool (r = None)))
      (\<lambda>_. if r \<noteq> None then eat_block else ret ()))) (\<lambda>_. ended 0 st1 ks ys) st1"
    by (rule wp_ending [OF if_eat_wp [OF i], where k = 0], rule wp_ending [OF push_wp, where k = 0], assumption)
      (auto intro: eat_block_wp0 ended_refl)
qed

lemma has_next_wp: "wf_pp st mss ks xs \<Longrightarrow> wp (has_next e) Q st \<longleftrightarrow> (1 < length xs \<longrightarrow> Q () st)"
proof (cases xs)
  case Nil
  assume "wf_pp st mss ks xs"
  then show ?thesis using Nil by (simp add: has_next_def wp_simps inv_for_def wp_def node_at_def exec)
next
  case (Cons a ys)
  assume "wf_pp st mss ks xs"
  then have "macro_token st = Some a" "tl_next (heap st ! a) = first_or ys None" using Cons inv_current by blast+
  then show ?thesis using Cons by (cases ys) (simp_all add: has_next_def wp_simps)
qed

lemma matched_before_wp: "wp matched_before Q st \<longleftrightarrow> (\<forall>t c. conditional_inclusion_top st = t # c \<longrightarrow> Q t st)"
  by (auto simp: matched_before_def wp_simps split: list.splits)

lemma directive_elif_wp:
  assumes i: "wf_pp st mss ks xs"
  shows "wp directive_elif (\<lambda>_. ended 1 st ks xs) st"
  unfolding directive_elif_def wp_bindP [of "has_next _"] has_next_wp [OF i]
proof (intro impI, rule wp_ending [OF eat_current_wp [OF i], where k = 0])
  fix x st1 mss1 ys
  assume i: "wf_pp st1 mss1 ks ys"
  show "wp (bindP macro_expression (\<lambda>result. bindP matched_before (\<lambda>b. if result = 0 \<or> b \<noteq> 0 then eat_block
      else put (\<lambda>st. st\<lparr>conditional_inclusion_top := 1 # tl (conditional_inclusion_top st)\<rparr>)))) (\<lambda>_. ended 0 st1 ks ys) st1"
    unfolding macro_expression_def
  proof (rule wp_ending [OF macro_eval_wp [OF i], where k = 0])
    fix result :: u32 and st2 mss2 zs
    assume i: "wf_pp st2 mss2 ks zs"
    show "wp (bindP matched_before (\<lambda>b. if result = 0 \<or> b \<noteq> 0 then eat_block
      else put (\<lambda>st. st\<lparr>conditional_inclusion_top := 1 # tl (conditional_inclusion_top st)\<rparr>))) (\<lambda>_. ended 0 st2 ks zs) st2"
      using eat_block_wp0 [OF i] ended_ate [OF ate_refl [OF i]]
      by (simp add: wp_bindP matched_before_wp wp_simps ended_fields)
  qed simp
qed simp

lemma directive_else_wp:
  assumes i: "wf_pp st mss ks xs"
  shows "wp directive_else (\<lambda>_. ended 1 st ks xs) st"
  unfolding directive_else_def wp_bindP [of "has_next _"] has_next_wp [OF i]
proof (intro impI, rule wp_ending [OF eat_current_wp [OF i], where k = 0])
  fix x st1 mss1 ys
  assume i: "wf_pp st1 mss1 ks ys"
  show "wp (bindP matched_before (\<lambda>b. if b \<noteq> 0 then eat_block else ret ())) (\<lambda>_. ended 0 st1 ks ys) st1"
    using eat_block_wp0 [OF i] ended_ate [OF ate_refl [OF i]] by (simp add: wp_bindP matched_before_wp wp_simps)
qed simp

lemma directive_endif_wp:
  assumes i: "wf_pp st mss ks xs"
  shows "wp directive_endif (\<lambda>_. ate 1 st ks xs) st"
proof -
  have "wp pop_conditional_inclusion (\<lambda>_. ate 0 st1 ks ys) st1" if "wf_pp st1 mss1 ks ys" for st1 mss1 ys
    using ate_refl [OF that] by (auto simp: pop_conditional_inclusion_def wp_simps split: list.splits)
  then have "wp (bindP eat_current_token (\<lambda>_. pop_conditional_inclusion)) (\<lambda>_. ate 1 st ks xs) st"
    by (rule wp_then [OF eat_current_wp [OF i], where k = 0]) simp_all
  then show ?thesis by (simp add: directive_endif_def wp_simps)
qed

section \<open>The other directives\<close>

lemma remove_further_filter: "remove_further s env = filter (\<lambda>m. mac_symbol m \<noteq> s) env"
  by (induction env) auto

lemma remove_from_filter: "remove_from s env = filter (\<lambda>m. mac_symbol m \<noteq> s) env"
  by (induction env) (auto simp: remove_from_def remove_further_filter)

lemma bodies_filter:
  "list_all2 (body_ok h) env mss \<Longrightarrow> distinct (concat mss @ as) \<Longrightarrow>
   \<exists>mss'. list_all2 (body_ok h) (filter P env) mss' \<and> set (concat mss') \<subseteq> set (concat mss) \<and> distinct (concat mss' @ as)"
proof (induction env mss rule: list_all2_induct)
  case (Cons m env ms mss)
  then obtain mss' where m: "list_all2 (body_ok h) (filter P env) mss'" "set (concat mss') \<subseteq> set (concat mss)" "distinct (concat mss' @ as)"
    by auto
  show ?case
  proof (cases "P m")
    case True
    have "distinct (concat (ms # mss') @ as)" using m(2,3) Cons.prems
      unfolding concat.simps append_assoc distinct_append set_append by blast
    then show ?thesis using m Cons(1) True by (intro exI [of _ "ms # mss'"]) auto
  next
    case False
    then show ?thesis using m by (intro exI [of _ mss']) auto
  qed
qed simp

lemma remove_macro_wp:
  assumes i: "wf_pp st mss ks xs"
  shows "wp (remove_macro (macro_token st)) (\<lambda>_. ate 0 st ks xs) st"
proof (cases xs)
  case Nil
  then show ?thesis using i by (simp add: remove_macro_def inv_for_def wp_simps)
next
  case (Cons a ys)
  let ?env = "remove_from (tl_s (heap st ! a)) (macro_env st)"
  obtain mss' where "list_all2 (body_ok (heap st)) ?env mss'" "distinct (concat mss' @ ks @ xs)"
    using bodies_filter [of "heap st" "macro_env st" mss "ks @ xs" "\<lambda>m. mac_symbol m \<noteq> tl_s (heap st ! a)"] i
    by (auto simp: inv_for_def remove_from_filter simp del: set_concat distinct_append)
  then have "wf_pp (st\<lparr>macro_env := ?env\<rparr>) mss' ks xs" using i by (simp add: inv_for_def)
  then have "ate 0 st ks xs (st\<lparr>macro_env := ?env\<rparr>)" by (auto simp: ate_def)
  moreover have "macro_token st = Some a" using i Cons inv_current(1) by blast
  ultimately show ?thesis by (simp add: remove_macro_def wp_simps)
qed

lemma handle_undef_wp:
  assumes i: "wf_pp st mss ks xs"
  shows "wp handle_undef (\<lambda>_. ate 1 st ks xs) st"
  unfolding handle_undef_def
proof (rule wp_then [OF eat_current_wp [OF i], where k = 0])
  fix x st1 mss1 ys
  assume i: "wf_pp st1 mss1 ks ys"
  show "wp (bindP (get macro_token) (\<lambda>p. bindP (remove_macro p) (\<lambda>_. eat_current_token))) (\<lambda>_. ate 0 st1 ks ys) st1"
    unfolding wp_bindP [of "get _"] wp_basic(3)
    by (rule wp_then [OF remove_macro_wp [OF i], where k = 0]) (auto intro: eat_wp0)
qed simp

text \<open>\<open>#warning\<close> only goes over the tokens, so more of them are behind it.\<close>

definition advanced :: "nat \<Rightarrow> pp \<Rightarrow> nat list \<Rightarrow> nat list \<Rightarrow> pp \<Rightarrow> bool" where
  "advanced n st ks xs st' \<longleftrightarrow> (\<exists>mss ks' ys. suffix ys xs \<and> length ys + n \<le> length xs \<and> wf_pp st' mss (ks @ ks') ys \<and>
     keeps (heap st) (heap st') \<and> FOLLOW_INCLUDES st' = FOLLOW_INCLUDES st \<and> expand_depth st' = expand_depth st)"

lemma advanced_ate: "ate n st ks xs st' \<Longrightarrow> advanced n st ks xs st'"
  unfolding ate_def advanced_def by (metis append_Nil2)

lemma message_loop_unfold:
  "message_loop = bindP (not_null Unterminated_Message) (\<lambda>_. bindP cur (\<lambda>s.
    if chr_at s 0 = LF then ret () else bindP next_token (\<lambda>_. message_loop)))"
  by (rule ext) (rule message_loop.simps)

lemma message_loop_run:
  assumes "wf_pp st mss ks (bs @ x # xs)" "\<forall>b \<in> set bs. chr_at (tl_s (heap st ! b)) 0 \<noteq> LF" "chr_at (tl_s (heap st ! x)) 0 = LF"
  shows "message_loop st = Some (Inr ((), st\<lparr>macro_token := Some x\<rparr>))" "wf_pp (st\<lparr>macro_token := Some x\<rparr>) mss (ks @ bs) (x # xs)"
proof -
  have "message_loop st = Some (Inr ((), st\<lparr>macro_token := Some x\<rparr>)) \<and> wf_pp (st\<lparr>macro_token := Some x\<rparr>) mss (ks @ bs) (x # xs)"
    using assms
  proof (induction bs arbitrary: st ks)
    case Nil
    note c = inv_current(1) [OF Nil.prems(1) [simplified]] cur_Cons [OF Nil.prems(1) [simplified]]
    have "message_loop st = Some (Inr ((), st))"
      by (subst message_loop_unfold) (simp add: not_null_def bindP_def get_def c Nil.prems(3) exec)
    moreover have "st\<lparr>macro_token := Some x\<rparr> = st" using c(1) by simp
    ultimately show ?case using Nil.prems(1) by simp
  next
    case (Cons b bs)
    let ?st = "st\<lparr>macro_token := first_or (bs @ x # xs) None\<rparr>"
    note i = Cons.prems(1) [simplified]
    note n = next_token_run [OF i]
    have "message_loop ?st = Some (Inr ((), ?st\<lparr>macro_token := Some x\<rparr>)) \<and>
        wf_pp (?st\<lparr>macro_token := Some x\<rparr>) mss ((ks @ [b]) @ bs) (x # xs)"
      using n(2) Cons.prems(2,3) by (intro Cons.IH) auto
    moreover have "message_loop st = message_loop ?st"
      using Cons.prems(2)
      by (subst message_loop_unfold)
        (simp add: not_null_def bindP_def get_def inv_current(1) [OF i] cur_Cons [OF i] n(1) exec)
    ultimately show ?case by simp
  qed
  then show "message_loop st = Some (Inr ((), st\<lparr>macro_token := Some x\<rparr>))" "wf_pp (st\<lparr>macro_token := Some x\<rparr>) mss (ks @ bs) (x # xs)"
    by auto
qed

lemma message_loop_eof:
  assumes "wf_pp st mss ks bs" "\<forall>b \<in> set bs. chr_at (tl_s (heap st ! b)) 0 \<noteq> LF"
  shows "message_loop st = Some (Inl Unterminated_Message)"
  using assms
proof (induction bs arbitrary: st ks)
  case Nil
  then show ?case by (subst message_loop_unfold) (simp add: not_null_def inv_for_def bindP_def get_def exec)
next
  case (Cons b bs)
  note i = Cons.prems(1)
  note n = next_token_run [OF i]
  have "message_loop (st\<lparr>macro_token := first_or bs None\<rparr>) = Some (Inl Unterminated_Message)"
    using n(2) Cons.prems(2) by (intro Cons.IH) auto
  then show ?case using Cons.prems(2)
    by (subst message_loop_unfold)
      (simp add: not_null_def bindP_def get_def inv_current(1) [OF i] cur_Cons [OF i] n(1) exec)
qed

text \<open>A list of tokens up to the first newline.\<close>

lemma up_to_newline:
  obtains (newline) bs x ys where "xs = bs @ x # ys" "\<forall>b \<in> set bs. chr_at (f b) 0 \<noteq> LF" "chr_at (f x) 0 = LF"
  | (none) "\<forall>b \<in> set xs. chr_at (f b) 0 \<noteq> LF"
  using split_list_first_prop [of xs "\<lambda>b. chr_at (f b) 0 = LF"] by blast

lemma discard_loop_unfold:
  "discard_loop = bindP (not_null Unterminated_Message) (\<lambda>_. bindP cur (\<lambda>s.
    if chr_at s 0 = LF then ret () else bindP eat_current_token (\<lambda>_. discard_loop)))"
  by (rule ext) (rule discard_loop.simps)

lemma discard_loop_at_newline:
  assumes "wf_pp st mss ks (x # xs)" "chr_at (tl_s (heap st ! x)) 0 = LF"
  shows "discard_loop st = Some (Inr ((), st))"
  by (subst discard_loop_unfold)
    (simp add: not_null_def bindP_def get_def inv_current(1) [OF assms(1)] cur_Cons [OF assms(1)] assms(2) exec)

lemma handle_error_wp:
  assumes i: "wf_pp st mss ks xs"
  shows "wp (handle_error warning_p) (\<lambda>_. advanced 1 st ks xs) st"
  unfolding handle_error_def wp_bindP [of eat_current_token]
proof (rule wp_mono [OF eat_current_wp [OF i]])
  fix x st1
  assume "ate 1 st ks xs st1"
  then obtain mss1 ys where y: "suffix ys xs" "length ys + 1 \<le> length xs" "wf_pp st1 mss1 ks ys" "keeps (heap st) (heap st1)"
      "FOLLOW_INCLUDES st1 = FOLLOW_INCLUDES st" "expand_depth st1 = expand_depth st" by (rule ateE)
  show "wp (bindP message_loop (\<lambda>_. bindP (require warning_p Error_Directive) (\<lambda>_. discard_loop))) (\<lambda>_. advanced 1 st ks xs) st1"
  proof (cases rule: up_to_newline [of ys "\<lambda>b. tl_s (heap st1 ! b)"])
    case (newline bs z zs)
    note m = message_loop_run [OF y(3) [unfolded newline(1)] newline(2,3)]
    have d: "discard_loop (st1\<lparr>macro_token := Some z\<rparr>) = Some (Inr ((), st1\<lparr>macro_token := Some z\<rparr>))"
      using newline(3) by (intro discard_loop_at_newline [OF m(2)]) simp
    have "suffix (z # zs) xs" using y(1) newline(1) by (auto intro: suffix_order.trans suffixI)
    then have "advanced 1 st ks xs (st1\<lparr>macro_token := Some z\<rparr>)"
      unfolding advanced_def using m(2) y newline(1)
      by (intro exI [of _ mss1] exI [of _ bs] exI [of _ "z # zs"]) auto
    then show ?thesis unfolding wp_bindP [of message_loop] wp_run [where m = message_loop, OF m(1)]
      by (auto simp: wp_simps wp_run [where m = discard_loop, OF d])
  next
    case none
    have "message_loop st1 = Some (Inl Unterminated_Message)" by (rule message_loop_eof [OF y(3) none])
    then show ?thesis by (simp add: bindP_def wp_def)
  qed
qed

lemma eat_line_loop_unfold:
  "eat_line_loop st = (if macro_token st = None then ret () st
     else bindP cur (\<lambda>s. if chr_at s 0 = LF then ret () else bindP eat_current_token (\<lambda>_. eat_line_loop)) st)"
  by (rule eat_line_loop.simps)

lemma eat_line_loop_wp: "wf_pp st mss ks xs \<Longrightarrow> wp eat_line_loop (\<lambda>_. ate 0 st ks xs) st"
proof (induction "length xs" arbitrary: st mss xs rule: less_induct)
  case less
  note i = less.prems
  show ?case
  proof (cases xs)
    case Nil
    then have "eat_line_loop st = Some (Inr ((), st))" using i by (subst eat_line_loop_unfold) (simp add: inv_for_def exec)
    then show ?thesis using ate_refl [OF i] by (simp add: wp_run)
  next
    case (Cons a ys)
    have "wp (bindP eat_current_token (\<lambda>_. eat_line_loop)) (\<lambda>_. ate 0 st ks xs) st"
      by (rule wp_then [OF eat_current_wp [OF i], where k = 0]) (auto intro: less.hyps)
    moreover have "wp eat_line_loop Q st = wp (if chr_at (tl_s (heap st ! a)) 0 = LF then ret ()
        else bindP eat_current_token (\<lambda>_. eat_line_loop)) Q st" for Q
      using inv_current(1) [OF i [unfolded Cons]] cur_Cons [OF i [unfolded Cons]]
      by (simp add: wp_def eat_line_loop_unfold [of st] bindP_run)
    ultimately show ?thesis using ate_refl [OF i] by (simp add: wp_simps)
  qed
qed

section \<open>Definitions\<close>

text \<open>The nodes \<open>bs\<close> follow one another forwards.\<close>

fun forward :: "pp_token list \<Rightarrow> nat list \<Rightarrow> nat option \<Rightarrow> bool" where
  "forward h [] q = True"
| "forward h (b # bs) q \<longleftrightarrow> tl_next (h ! b) = first_or bs q \<and> forward h bs q"

lemma forward_cong: "forward h bs q \<Longrightarrow> (\<And>b. b \<in> set bs \<Longrightarrow> h' ! b = h ! b) \<Longrightarrow> forward h' bs q"
  by (induction bs) auto

lemma forward_cut:
  "forward h (bs @ [b]) q \<Longrightarrow> distinct (bs @ [b]) \<Longrightarrow> b < length h \<Longrightarrow> forward (h[b := (h ! b)\<lparr>tl_next := None\<rparr>]) (bs @ [b]) None"
proof (induction bs)
  case (Cons c bs)
  then show ?case by (cases bs) auto
qed simp

lemma replacement_loop_unfold:
  "replacement_loop e = bindP cur (\<lambda>s. if chr_at s 0 = LF then ret e
      else bindP (get macro_token) (\<lambda>p. bindP eat_current_token (\<lambda>_. replacement_loop p)))"
  by (rule ext) (rule replacement_loop.simps)

lemma replacement_loop_run:
  assumes "inv_for env st mss ks (bs @ x # xs)" "\<forall>b \<in> set bs. chr_at (tl_s (heap st ! b)) 0 \<noteq> LF" "chr_at (tl_s (heap st ! x)) 0 = LF"
  shows "\<exists>h. replacement_loop e st = Some (Inr (last_or e bs,
        st\<lparr>heap := h, macro_token := Some x, global_token := first_or (ks @ x # xs) None\<rparr>)) \<and>
      inv_for env (st\<lparr>heap := h, macro_token := Some x, global_token := first_or (ks @ x # xs) None\<rparr>) mss ks (x # xs) \<and>
      length h = length (heap st) \<and> keeps (heap st) h \<and> forward h bs (Some x) \<and>
      (\<forall>b. b \<notin> set (ks @ bs @ x # xs) \<longrightarrow> h ! b = heap st ! b)"
  using assms
proof (induction bs arbitrary: st e)
  case Nil
  note i = Nil.prems(1) [simplified]
  have "replacement_loop e st = Some (Inr (e, st))"
    by (subst replacement_loop_unfold) (simp add: bindP_def cur_Cons [OF i] Nil.prems(3) exec)
  moreover have "st\<lparr>macro_token := Some x, global_token := first_or (ks @ x # xs) None\<rparr> = st"
    using i by (simp add: inv_for_def)
  ultimately show ?case using i by (intro exI [of _ "heap st"]) simp
next
  case (Cons b bs)
  note i = Cons.prems(1) [unfolded append_Cons]
  obtain h where h: "eat_current_token st = Some (Inr ((), st\<lparr>heap := h, macro_token := first_or (bs @ x # xs) None,
        global_token := first_or (ks @ bs @ x # xs) None\<rparr>))"
      "inv_for env (st\<lparr>heap := h, macro_token := first_or (bs @ x # xs) None, global_token := first_or (ks @ bs @ x # xs) None\<rparr>) mss ks (bs @ x # xs)"
      "length h = length (heap st)" "keeps (heap st) h" "\<forall>c. c \<notin> set (ks @ bs @ x # xs) \<longrightarrow> h ! c = heap st ! c"
    using eat_current_run [OF i] by blast
  let ?st = "st\<lparr>heap := h, macro_token := first_or (bs @ x # xs) None, global_token := first_or (ks @ bs @ x # xs) None\<rparr>"
  have bd: "\<forall>c \<in> set (bs @ x # xs). c < length (heap st)" using inv_bounds [OF i] by auto
  obtain h' where h': "replacement_loop (Some b) ?st = Some (Inr (last_or (Some b) bs,
        ?st\<lparr>heap := h', macro_token := Some x, global_token := first_or (ks @ x # xs) None\<rparr>))"
      "inv_for env (?st\<lparr>heap := h', macro_token := Some x, global_token := first_or (ks @ x # xs) None\<rparr>) mss ks (x # xs)"
      "length h' = length (heap ?st)" "keeps (heap ?st) h'" "forward h' bs (Some x)"
      "\<forall>c. c \<notin> set (ks @ bs @ x # xs) \<longrightarrow> h' ! c = heap ?st ! c"
    using Cons.IH [OF h(2), of "Some b"] Cons.prems(2,3) bd by (auto simp: keeps_text [OF h(4)])
  have "b \<notin> set (ks @ bs @ x # xs)" using inv_distinct [OF i] by auto
  then have "h' ! b = heap st ! b" using h(5) h'(6) by simp
  then have "forward h' (b # bs) (Some x)" using inv_current(2) [OF i] h'(5) by (cases bs) auto
  moreover have "replacement_loop e st = replacement_loop (Some b) ?st"
    using Cons.prems(2)
    by (subst replacement_loop_unfold) (simp add: bindP_def get_def cur_Cons [OF i] h(1) inv_current(1) [OF i])
  moreover have "\<forall>c. c \<notin> set (ks @ (b # bs) @ x # xs) \<longrightarrow> h' ! c = heap st ! c" using h(5) h'(6) by simp
  ultimately show ?case using h' h(3,4) by (intro exI [of _ h']) (auto intro: keeps_trans)
qed

lemma replacement_loop_eof:
  assumes "inv_for env st mss ks bs" "\<forall>b \<in> set bs. chr_at (tl_s (heap st ! b)) 0 \<noteq> LF"
  shows "replacement_loop e st = Some (Inl Null_Dereference)"
  using assms
proof (induction bs arbitrary: st e)
  case Nil
  then show ?case by (subst replacement_loop_unfold) (simp add: bindP_def cur_Nil [OF Nil.prems(1)])
next
  case (Cons b bs)
  note i = Cons.prems(1)
  obtain h where h: "eat_current_token st = Some (Inr ((), st\<lparr>heap := h, macro_token := first_or bs None,
        global_token := first_or (ks @ bs) None\<rparr>))"
      "inv_for env (st\<lparr>heap := h, macro_token := first_or bs None, global_token := first_or (ks @ bs) None\<rparr>) mss ks bs"
      "keeps (heap st) h" using eat_current_run [OF i] by blast
  have bd: "\<forall>c \<in> set bs. c < length (heap st)" using inv_bounds [OF i] by auto
  have "replacement_loop (Some b) (st\<lparr>heap := h, macro_token := first_or bs None, global_token := first_or (ks @ bs) None\<rparr>)
      = Some (Inl Null_Dereference)"
    using Cons.prems(2) bd by (intro Cons.IH [OF h(2)]) (auto simp: keeps_text [OF h(3)])
  then show ?case using Cons.prems(2)
    by (subst replacement_loop_unfold) (simp add: bindP_def get_def cur_Cons [OF i] h(1) inv_current(1) [OF i])
qed

lemma fix_prev_unfold:
  "fix_prev_loop p = bindP (node_at p) (\<lambda>n. if tl_next n = None then ret ()
      else bindP (set_node (tl_next n) (\<lambda>m. m\<lparr>tl_prev := p\<rparr>)) (\<lambda>_. fix_prev_loop (tl_next n)))"
  by (rule ext) (rule fix_prev_loop.simps)

lemma fix_prev_run:
  assumes "forward (heap st) (b # bs) None" "distinct (b # bs)" "\<forall>c \<in> set (b # bs). c < length (heap st)"
  shows "\<exists>h. fix_prev_loop (Some b) st = Some (Inr ((), st\<lparr>heap := h\<rparr>)) \<and> length h = length (heap st) \<and> keeps (heap st) h \<and>
      segment h (tl_prev (heap st ! b)) (b # bs) None \<and> (\<forall>c. c \<notin> set bs \<longrightarrow> h ! c = heap st ! c)"
  using assms
proof (induction bs arbitrary: st b)
  case Nil
  then show ?case by (subst fix_prev_unfold) (auto simp: exec intro!: exI [of _ "heap st"])
next
  case (Cons c bs)
  let ?h = "(heap st)[c := (heap st ! c)\<lparr>tl_prev := Some b\<rparr>]"
  have f: "forward ?h (c # bs) None"
  proof -
    have "forward (heap st) bs None" "c \<notin> set bs" using Cons.prems(1,2) by auto
    then have "forward ?h bs None" by (elim forward_cong) (metis nth_list_update_neq)
    then show ?thesis using Cons.prems by auto
  qed
  obtain h where h: "fix_prev_loop (Some c) (st\<lparr>heap := ?h\<rparr>) = Some (Inr ((), st\<lparr>heap := h\<rparr>))" "length h = length ?h" "keeps ?h h"
      "segment h (tl_prev (?h ! c)) (c # bs) None" "\<forall>d. d \<notin> set bs \<longrightarrow> h ! d = ?h ! d"
    using Cons.IH [of "st\<lparr>heap := ?h\<rparr>" c] f Cons.prems(2,3) by auto
  have "fix_prev_loop (Some b) st = fix_prev_loop (Some c) (st\<lparr>heap := ?h\<rparr>)"
    using Cons.prems(1) by (subst fix_prev_unfold) simp
  moreover have "keeps (heap st) h"
    using keeps_trans [OF keeps_links h(3)] by (simp add: content_def)
  moreover have "segment h (tl_prev (heap st ! b)) (b # c # bs) None"
  proof -
    have "h ! b = heap st ! b" "b < length h" "tl_prev (?h ! c) = Some b" using h(2,5) Cons.prems by simp_all
    then show ?thesis using h(4) Cons.prems(1) by simp
  qed
  moreover have "\<forall>d. d \<notin> set (c # bs) \<longrightarrow> h ! d = heap st ! d" using h(5) by simp
  ultimately show ?case using h(1,2) by (intro exI [of _ h]) simp
qed

lemma forward_next: "forward h bs q \<Longrightarrow> (\<And>b. b \<in> set bs \<Longrightarrow> tl_next (h' ! b) = tl_next (h ! b)) \<Longrightarrow> forward h' bs q"
  by (induction bs) auto

lemma inv_for_env [simp]: "inv_for env (st\<lparr>macro_env := e\<rparr>) = inv_for env st"
  by (simp add: inv_for_def fun_eq_iff)

text \<open>The end of \<open>replacement_list\<close>: the nodes that were eaten become a doubly linked list of their own.\<close>

lemma close_replacement:
  assumes "forward (heap st) cs q" "distinct cs" "\<forall>c \<in> set cs. c < length (heap st)" "cs = b # bs"
  shows "\<exists>h. bindP (set_node (Some b) (\<lambda>n. n\<lparr>tl_prev := None\<rparr>)) (\<lambda>_.
        bindP (set_node (Some (last cs)) (\<lambda>n. n\<lparr>tl_next := None\<rparr>)) (\<lambda>_. fix_prev_loop (Some b))) st =
      Some (Inr ((), st\<lparr>heap := h\<rparr>)) \<and> length h = length (heap st) \<and> keeps (heap st) h \<and> segment h None cs None \<and>
      (\<forall>c. c \<notin> set cs \<longrightarrow> h ! c = heap st ! c)"
proof -
  let ?h1 = "(heap st)[b := (heap st ! b)\<lparr>tl_prev := None\<rparr>]"
  let ?h2 = "?h1[last cs := (?h1 ! last cs)\<lparr>tl_next := None\<rparr>]"
  have bl: "b < length (heap st)" "b \<in> set cs" "last cs \<in> set cs" using assms(3,4) by auto
  have "tl_next (?h1 ! c) = tl_next (heap st ! c)" for c
    using bl(1) by (cases "c = b") auto
  then have "forward ?h1 cs q" using assms(1) by (elim forward_next) simp
  moreover have "cs = butlast cs @ [last cs]" using assms(4) by simp
  moreover have "last cs < length ?h1" using bl assms(3) by simp
  ultimately have f: "forward ?h2 cs None"
    using forward_cut [of ?h1 "butlast cs" "last cs" q] assms(2) by (metis (no_types))
  have p: "tl_prev (?h2 ! b) = None" using bl assms(3) by (cases "last cs = b") auto
  obtain h where h: "fix_prev_loop (Some b) (st\<lparr>heap := ?h2\<rparr>) = Some (Inr ((), st\<lparr>heap := h\<rparr>))" "length h = length (heap st)"
      "keeps ?h2 h" "segment h None cs None" "\<forall>c. c \<notin> set bs \<longrightarrow> h ! c = ?h2 ! c"
    using fix_prev_run [of "st\<lparr>heap := ?h2\<rparr>" b bs] f p assms(2,3) unfolding assms(4) by auto
  have "keeps (heap st) ?h1" "keeps ?h1 ?h2" by (rule keeps_links; simp add: content_def)+
  then have "keeps (heap st) h" using h(3) keeps_trans by blast
  moreover have "\<forall>c. c \<notin> set cs \<longrightarrow> h ! c = heap st ! c"
  proof (intro allI impI)
    fix c assume "c \<notin> set cs"
    then have "c \<notin> set bs" "c \<noteq> b" "c \<noteq> last cs" using bl(3) assms(4) by auto
    then show "h ! c = heap st ! c" using h(5) by simp
  qed
  ultimately show ?thesis using h(1,2,4) by (intro exI [of _ h]) simp
qed

lemma replacement_list_run:
  assumes i: "inv_for env st mss ks ((b # bs) @ x # xs)" and m: "macro_env st = m # env" "mac_arguments m = None"
    and b: "\<forall>c \<in> set (b # bs). chr_at (tl_s (heap st ! c)) 0 \<noteq> LF" and x: "chr_at (tl_s (heap st ! x)) 0 = LF"
  defines "st' \<equiv> \<lambda>h. st\<lparr>heap := h, macro_token := Some x, global_token := first_or (ks @ x # xs) None,
      macro_env := m\<lparr>mac_expansion := Some b\<rparr> # env\<rparr>"
  shows "\<exists>h. replacement_list st = Some (Inr ((), st' h)) \<and> wf_pp (st' h) ((b # bs) # mss) ks (x # xs) \<and>
      length h = length (heap st) \<and> keeps (heap st) h"
proof -
  let ?st = "st\<lparr>macro_env := m\<lparr>mac_expansion := Some b\<rparr> # env\<rparr>"
  have bd: "\<forall>c \<in> set (b # bs). c < length (heap st)" using inv_bounds [OF i] by auto
  obtain h1 where h1: "replacement_loop None ?st = Some (Inr (last_or None (b # bs),
        ?st\<lparr>heap := h1, macro_token := Some x, global_token := first_or (ks @ x # xs) None\<rparr>))"
      "inv_for env (?st\<lparr>heap := h1, macro_token := Some x, global_token := first_or (ks @ x # xs) None\<rparr>) mss ks (x # xs)"
      "length h1 = length (heap st)" "keeps (heap st) h1" "forward h1 (b # bs) (Some x)"
      "\<forall>c. c \<notin> set (ks @ (b # bs) @ x # xs) \<longrightarrow> h1 ! c = heap st ! c"
    using replacement_loop_run [of env ?st mss ks "b # bs" x xs None] i b x by auto
  let ?st1 = "?st\<lparr>heap := h1, macro_token := Some x, global_token := first_or (ks @ x # xs) None\<rparr>"
  have d: "distinct (b # bs)" "set (b # bs) \<inter> set (concat mss @ ks @ x # xs) = {}" using inv_distinct [OF i] by auto
  obtain h where h: "bindP (set_node (Some b) (\<lambda>n. n\<lparr>tl_prev := None\<rparr>)) (\<lambda>_.
        bindP (set_node (Some (last (b # bs))) (\<lambda>n. n\<lparr>tl_next := None\<rparr>)) (\<lambda>_. fix_prev_loop (Some b))) ?st1 =
      Some (Inr ((), ?st1\<lparr>heap := h\<rparr>))" "length h = length h1" "keeps h1 h" "segment h None (b # bs) None"
      "\<forall>c. c \<notin> set (b # bs) \<longrightarrow> h ! c = h1 ! c"
    using close_replacement [of ?st1 "b # bs" "Some x" b bs] h1(3,5) d(1) bd by auto
  have run: "replacement_list st = Some (Inr ((), st' h))"
  proof -
    have "replacement_list st = bindP (replacement_loop None) (\<lambda>e. bindP (set_node (Some b) (\<lambda>n. n\<lparr>tl_prev := None\<rparr>)) (\<lambda>_.
        bindP (set_node e (\<lambda>n. n\<lparr>tl_next := None\<rparr>)) (\<lambda>_. fix_prev_loop (Some b)))) ?st"
      using i m(1) by (simp add: replacement_list_def set_macro_def inv_for_def)
    also have "\<dots> = Some (Inr ((), ?st1\<lparr>heap := h\<rparr>))"
      using h(1) unfolding bindP_def [of "replacement_loop _"] h1(1) by (simp add: last_or_def)
    finally show ?thesis by (simp add: st'_def)
  qed
  have same: "h ! c = h1 ! c" if "c \<in> set (concat mss @ ks @ x # xs)" for c
    using h(5) d(2) that by (metis disjoint_iff)
  have s1: "segment h1 None (ks @ x # xs) None" and b1: "list_all2 (body_ok h1) env mss"
    using h1(2) by (simp_all add: inv_for_def)
  have "segment h None (ks @ x # xs) None"
    by (rule segment_cong [OF s1]) (simp add: h(2), rule same, auto)
  moreover have "list_all2 (body_ok h) env mss"
    by (rule bodies_cong [OF b1]) (simp add: h(2), rule same, auto)
  moreover have "chr_at (tl_s (h ! c)) 0 \<noteq> LF" if "c \<in> set (b # bs)" for c
  proof -
    have "keeps (heap st) h" using h1(4) h(3) by (rule keeps_trans)
    then show ?thesis using b bd that keeps_text [of "heap st" h c] by (metis (no_types))
  qed
  then have "body_ok h (m\<lparr>mac_expansion := Some b\<rparr>) (b # bs)"
    using m(2) h(4) by (simp add: body_ok_def)
  ultimately have "wf_pp (st' h) ((b # bs) # mss) ks (x # xs)"
    using inv_distinct [OF i] by (auto simp: inv_for_def st'_def)
  then show ?thesis using run h(2,3) h1(3,4) keeps_trans by (intro exI [of _ h]) auto
qed

text \<open>What \<open>eat_current_token\<close> leaves alone.\<close>

definition same_rest :: "pp \<Rightarrow> pp \<Rightarrow> bool" where
  "same_rest st st' \<longleftrightarrow> keeps (heap st) (heap st') \<and> macro_env st' = macro_env st \<and>
     conditional_inclusion_top st' = conditional_inclusion_top st \<and> FOLLOW_INCLUDES st' = FOLLOW_INCLUDES st \<and>
     expand_depth st' = expand_depth st"

lemma eat_exact:
  assumes "wf_pp st mss ks xs" "\<And>a ys st'. xs = a # ys \<Longrightarrow> wf_pp st' mss ks ys \<Longrightarrow> same_rest st st' \<Longrightarrow> Q () st'"
  shows "wp eat_current_token Q st"
proof (cases xs)
  case Nil
  then show ?thesis using assms(1) eat_current_Nil [of "macro_env st"] by (simp add: wp_def)
next
  case (Cons a ys)
  obtain h where "eat_current_token st = Some (Inr ((), st\<lparr>heap := h, macro_token := first_or ys None, global_token := first_or (ks @ ys) None\<rparr>))"
      "wf_pp (st\<lparr>heap := h, macro_token := first_or ys None, global_token := first_or (ks @ ys) None\<rparr>) mss ks ys"
      "keeps (heap st) h"
    using eat_current_run [OF assms(1) [unfolded Cons]] by auto
  then show ?thesis using assms(2) [OF Cons] by (simp add: wp_run same_rest_def)
qed

definition same_frame :: "pp \<Rightarrow> pp \<Rightarrow> bool" where
  "same_frame st st' \<longleftrightarrow> keeps (heap st) (heap st') \<and> FOLLOW_INCLUDES st' = FOLLOW_INCLUDES st \<and> expand_depth st' = expand_depth st"

lemma same_frame_trans: "same_frame a b \<Longrightarrow> same_frame b c \<Longrightarrow> same_frame a c"
  by (auto simp: same_frame_def intro: keeps_trans)

lemma same_rest_frame: "same_rest st st' \<Longrightarrow> same_frame st st'"
  by (simp add: same_rest_def same_frame_def)

lemma ate_exact: "wf_pp st' mss ks ys \<Longrightarrow> same_frame st st' \<Longrightarrow> suffix ys xs \<Longrightarrow> length ys + n \<le> length xs \<Longrightarrow> ate n st ks xs st'"
  by (auto simp: ate_def same_frame_def)

lemma ate_from:
  assumes "same_frame st st1" "suffix ys xs" "length ys + n \<le> length xs" "ate 0 st1 ks ys st2"
  shows "ate n st ks xs st2"
proof -
  obtain mss zs where z: "suffix zs ys" "length zs + 0 \<le> length ys" "wf_pp st2 mss ks zs" "keeps (heap st1) (heap st2)"
    "FOLLOW_INCLUDES st2 = FOLLOW_INCLUDES st1" "expand_depth st2 = expand_depth st1"
    using assms(4) by (rule ateE)
  have "same_frame st st2" using assms(1) z(4-6) by (auto simp: same_frame_def intro: keeps_trans)
  then show ?thesis using z assms(2,3) suffix_order.trans by (intro ate_exact [OF z(3)]) auto
qed

definition no_parameters :: "pp \<Rightarrow> nat list \<Rightarrow> bool" where
  "no_parameters st xs \<longleftrightarrow> (\<forall>d n p ys. xs = d # n # p # ys \<longrightarrow> chr_at (tl_s (heap st ! p)) 0 \<noteq> CHR ''('')"

lemma replacement_list_wp:
  assumes i: "inv_for env st mss ks xs" and m: "macro_env st = m # env" "mac_arguments m = None" "mac_expansion m = None"
  shows "wp (bindP cur (\<lambda>c. if chr_at c 0 = LF then ret () else replacement_list)) (\<lambda>_. ate 0 st ks xs) st"
proof (cases rule: up_to_newline [of xs "\<lambda>a. tl_s (heap st ! a)"])
  case (newline bs x ys)
  show ?thesis
  proof (cases bs)
    case Nil
    have "wf_pp st ([] # mss) ks xs" using i m by (simp add: inv_for_def body_ok_def)
    then show ?thesis using newline Nil ate_refl by (auto simp: wp_bindP cur_wp wp_simps)
  next
    case (Cons b bs')
    obtain h where h: "replacement_list st = Some (Inr ((), st\<lparr>heap := h, macro_token := Some x, global_token := first_or (ks @ x # ys) None,
        macro_env := m\<lparr>mac_expansion := Some b\<rparr> # env\<rparr>))"
      "wf_pp (st\<lparr>heap := h, macro_token := Some x, global_token := first_or (ks @ x # ys) None,
        macro_env := m\<lparr>mac_expansion := Some b\<rparr> # env\<rparr>) ((b # bs') # mss) ks (x # ys)"
      "length h = length (heap st)" "keeps (heap st) h"
      using replacement_list_run [of env st mss ks b bs' x ys m] i m newline Cons by auto
    let ?st = "st\<lparr>heap := h, macro_token := Some x, global_token := first_or (ks @ x # ys) None, macro_env := m\<lparr>mac_expansion := Some b\<rparr> # env\<rparr>"
    have "ate 0 st ks xs ?st" unfolding ate_def
      using h newline(1) by (intro exI [of _ "(b # bs') # mss"] exI [of _ "x # ys"]) (auto intro: suffixI)
    moreover have "xs = b # bs' @ x # ys" using newline(1) Cons by simp
    ultimately show ?thesis using newline(2) Cons cur_Cons [of env st mss ks b "bs' @ x # ys"] i h(1)
      by (simp add: wp_bindP wp_run [where m = cur] wp_run [where m = replacement_list, OF h(1)])
  qed
next
  case none
  show ?thesis
  proof (cases xs)
    case Nil
    then show ?thesis using cur_Nil i by (simp add: wp_def bindP_def)
  next
    case (Cons b bs)
    have "replacement_loop None (st\<lparr>macro_env := m\<lparr>mac_expansion := Some b\<rparr> # env\<rparr>) = Some (Inl Null_Dereference)"
      using i none by (intro replacement_loop_eof [of env _ mss ks xs]) simp_all
    moreover have "macro_token st = Some b" using i Cons inv_current(1) by blast
    ultimately have "replacement_list st = Some (Inl Null_Dereference)"
      by (simp add: replacement_list_def set_macro_def m(1)) (simp add: bindP_def)
    then show ?thesis using none Cons cur_Cons [of env st mss ks b bs] i
      by (simp add: wp_bindP wp_run [where m = cur]) (simp add: wp_def)
  qed
qed

lemma define_body_wp:
  assumes i: "wf_pp st ([] # mss) ks xs" and m: "macro_env st = m # env" "mac_arguments m = None" "mac_expansion m = None"
    and p: "\<And>a ys. xs = a # ys \<Longrightarrow> chr_at (tl_s (heap st ! a)) 0 \<noteq> CHR ''(''"
  shows "wp define_body (\<lambda>_. ate 0 st ks xs) st"
  unfolding define_body_def wp_bindP [of cur] cur_wp [OF i]
proof (intro allI impI)
  fix a ys
  assume xs: "xs = a # ys"
  have i2: "inv_for env st mss ks xs" using i m(1) by (simp add: inv_for_def)
  let ?rest = "bindP cur (\<lambda>c. if chr_at c 0 = LF then ret () else replacement_list)"
  have "wp (if chr_at (tl_s (heap st ! a)) 0 = CHR '' '' then eat_current_token else ret ())
    (\<lambda>_ st'. ate 0 st ks xs st' \<and> macro_env st' = m # env) st"
    using ate_refl [OF i] m(1)
    by (auto simp: wp_simps xs same_rest_def [THEN iffD1] intro!: eat_exact [OF i] ate_exact [OF _ same_rest_frame] suffix_ConsI)
  then have "wp (bindP (if chr_at (tl_s (heap st ! a)) 0 = CHR '' '' then eat_current_token else ret ()) (\<lambda>_. ?rest)) (\<lambda>_. ate 0 st ks xs) st"
  proof (rule wp_seq [where k = 0])
    fix x st1 mss1 zs
    assume i1: "wf_pp st1 mss1 ks zs" and m1: "macro_env st1 = m # env"
    then obtain ms mss2 where "mss1 = ms # mss2" "list_all2 (body_ok (heap st1)) env mss2"
      by (auto simp: inv_for_def list_all2_Cons1)
    then have "inv_for env st1 mss2 ks zs" using i1 by (auto simp: inv_for_def)
    then show "wp ?rest (\<lambda>_. ate 0 st1 ks zs) st1" by (rule replacement_list_wp [OF _ m1 m(2,3)])
  qed simp
  then show "wp (bindP (if chr_at (tl_s (heap st ! a)) 0 = CHR '' '' then eat_current_token
           else if chr_at (tl_s (heap st ! a)) 0 = CHR ''('' then handle_function_like_macro
           else ret ()) (\<lambda>_. ?rest)) (\<lambda>_. ate 0 st ks xs) st"
    using p [OF xs] by (cases "chr_at (tl_s (heap st ! a)) 0 = CHR '' ''") simp_all
qed

lemma handle_define_wp:
  assumes i: "wf_pp st mss ks xs" and p: "no_parameters st xs"
  shows "wp handle_define (\<lambda>_. ate 1 st ks xs) st"
  unfolding handle_define_def wp_bindP [of eat_current_token]
proof (rule eat_exact [OF i])
  fix d ys st1
  assume xs: "xs = d # ys" and i1: "wf_pp st1 mss ks ys" and s1: "same_rest st st1"
  let ?hold = "\<lambda>s. \<lparr>mac_symbol = s, mac_expansion = None, mac_arguments = None\<rparr>"
  show "wp (bindP (not_null Eof_In_Define) (\<lambda>_. bindP cur (\<lambda>s. bindP (require (chr_at s 0 \<noteq> LF) Newline_After_Define) (\<lambda>_.
    bindP (put (\<lambda>st. st\<lparr>macro_env := ?hold s # macro_env st\<rparr>)) (\<lambda>_. bindP eat_current_token (\<lambda>_. define_body))))))
    (\<lambda>_. ate 1 st ks xs) st1"
    unfolding wp_bindP [of "not_null _"] not_null_Cons [OF i1] wp_bindP [of cur] cur_wp [OF i1] wp_bindP [of "require _ _"]
      wp_bindP [of "put _"] wp_bindP [of eat_current_token] wp_basic
  proof (intro impI allI)
    fix n zs
    assume ys: "ys = n # zs"
    let ?h = "?hold (tl_s (heap st1 ! n))"
    let ?st = "st1\<lparr>macro_env := ?h # macro_env st1\<rparr>"
    have "wf_pp ?st ([] # mss) ks ys" using i1 by (simp add: inv_for_def body_ok_def)
    then show "wp eat_current_token (\<lambda>_. wp define_body (\<lambda>_. ate 1 st ks xs)) ?st"
    proof (rule eat_exact)
      fix a zs' st2
      assume a: "ys = a # zs'" and i2: "wf_pp st2 ([] # mss) ks zs'" and s2: "same_rest ?st st2"
      have k: "keeps (heap st) (heap st2)" using s1 s2 by (auto simp: same_rest_def intro: keeps_trans)
      have "chr_at (tl_s (heap st2 ! b)) 0 \<noteq> CHR ''(''" if "zs' = b # bs" for b bs
        using p inv_bounds [OF i, of b] that a xs keeps_text [OF k, of b] by (auto simp: no_parameters_def)
      then have "wp define_body (\<lambda>_. ate 0 st2 ks zs') st2"
        using s2 by (intro define_body_wp [OF i2, where m = ?h and env = "macro_env st1"]) (auto simp: same_rest_def)
      moreover have "same_frame st st2" using s1 s2 k by (simp add: same_rest_def same_frame_def)
      then have "ate 0 st2 ks zs' st3 \<Longrightarrow> ate 1 st ks xs st3" for st3
        using a xs by (elim ate_from) (auto intro: suffix_ConsI)
      ultimately show "wp define_body (\<lambda>_. ate 1 st ks xs) st2" by (rule wp_mono)
    qed
  qed
qed

section \<open>A directive\<close>

definition left_directive :: "pp \<Rightarrow> nat list \<Rightarrow> nat list \<Rightarrow> pp \<Rightarrow> bool" where
  "left_directive st ks xs st' \<longleftrightarrow> advanced 1 st ks xs st' \<or> rewound 1 st ks xs st'"

lemma left_ended: "wp m (\<lambda>_. ended 1 st ks xs) s \<Longrightarrow> wp m (\<lambda>_. left_directive st ks xs) s"
  by (erule wp_mono) (auto simp: ended_def left_directive_def advanced_ate)

lemma left_ate: "wp m (\<lambda>_. ate 1 st ks xs) s \<Longrightarrow> wp m (\<lambda>_. left_directive st ks xs) s"
  by (erule wp_mono) (auto simp: left_directive_def advanced_ate)

lemma left_advanced: "wp m (\<lambda>_. advanced 1 st ks xs) s \<Longrightarrow> wp m (\<lambda>_. left_directive st ks xs) s"
  by (erule wp_mono) (auto simp: left_directive_def)

lemma directive_other_wp:
  assumes i: "wf_pp st mss ks (a # xs)" and a: "chr_at (tl_s (heap st ! a)) 0 \<noteq> LF" and f: "\<not> FOLLOW_INCLUDES st"
  shows "wp (directive_other s) (\<lambda>_. ate 1 st ks (a # xs)) st"
proof -
  have "wp (bindP eat_current_token (\<lambda>_. eat_line_loop)) (\<lambda>_. ate 1 st ks (a # xs)) st"
    by (rule wp_then [OF eat_current_wp [OF i], where k = 0]) (auto intro: eat_line_loop_wp)
  moreover have "eat_line_loop st = bindP eat_current_token (\<lambda>_. eat_line_loop) st"
    using a inv_current(1) [OF i] cur_Cons [OF i] by (simp add: eat_line_loop_unfold [of st]) (simp add: bindP_def)
  ultimately have "wp eat_line_loop (\<lambda>_. ate 1 st ks (a # xs)) st" by (simp only: wp_def)
  then show ?thesis using f by (simp add: directive_other_def wp_simps)
qed

lemma wp_ifI: "(b \<Longrightarrow> wp m Q st) \<Longrightarrow> (\<not> b \<Longrightarrow> wp m' Q st) \<Longrightarrow> wp (if b then m else m') Q st"
  by simp

lemma macro_directive_wp:
  assumes i: "wf_pp st mss ks (a # xs)" and a: "chr_at (tl_s (heap st ! a)) 0 = CHR ''#''" and f: "\<not> FOLLOW_INCLUDES st"
    and p: "tl_s (heap st ! a) = ''#define'' \<Longrightarrow> no_parameters st (a # xs)"
  shows "wp macro_directive (\<lambda>_. left_directive st ks (a # xs)) st"
proof -
  have n: "chr_at (tl_s (heap st ! a)) 0 \<noteq> LF" using a by simp
  show ?thesis
    unfolding macro_directive_def wp_bindP [of cur] wp_run [where m = cur, OF cur_Cons [OF i]]
    using left_ended [OF directive_if_wp [OF i]] left_ended [OF directive_ifdef_wp [OF i]] left_ended [OF directive_ifndef_wp [OF i]]
      left_ended [OF directive_elif_wp [OF i]] left_ended [OF directive_else_wp [OF i]] left_ate [OF directive_endif_wp [OF i]]
      left_ate [OF handle_undef_wp [OF i]] left_advanced [OF handle_error_wp [OF i]] left_ate [OF directive_other_wp [OF i n f]]
      left_ate [OF handle_define_wp [OF i p]]
    by (intro wp_ifI) (assumption | blast)+
qed

end
