(* ===== verification/CcMacroToken.thy ===== *)
theory CcMacroToken
  imports CcMacroLines
begin

text \<open>
  The expansion of one token returns and keeps the invariant: pasting and painting change only the
  replacement list, and copies of it go into the token list.
\<close>

section \<open>Pasting\<close>

definition no_newlines :: "pp_token list \<Rightarrow> nat list \<Rightarrow> bool" where
  "no_newlines h ms \<longleftrightarrow> (\<forall>a \<in> set ms. chr_at (tl_s (h ! a)) 0 \<noteq> LF)"

text \<open>Only the nodes \<open>ms\<close> differ.\<close>

definition only :: "nat list \<Rightarrow> pp_token list \<Rightarrow> pp_token list \<Rightarrow> bool" where
  "only ms h h' \<longleftrightarrow> length h' = length h \<and> (\<forall>c. c \<notin> set ms \<longrightarrow> h' ! c = h ! c)"

lemma only_refl [simp]: "only ms h h"
  by (simp add: only_def)

lemma only_trans: "only ms h h' \<Longrightarrow> only ms' h' h'' \<Longrightarrow> set ms' \<subseteq> set ms \<Longrightarrow> only ms h h''"
  by (auto simp: only_def)

lemma only_update: "a \<in> set ms \<Longrightarrow> only ms h h' \<Longrightarrow> only ms h (h'[a := n])"
  by (auto simp: only_def) (metis nth_list_update_neq)

lemma concat_first: "concat_strings2 m a b = Some s \<Longrightarrow> chr_at a 0 \<noteq> LF \<Longrightarrow> chr_at b 0 \<noteq> LF \<Longrightarrow> chr_at s 0 \<noteq> LF"
  by (cases a; cases b) (auto simp: concat_strings2_def copy_string_def in_buffer_def Let_def split: if_splits)

lemma paste_unfold:
  "paste_loop p = (\<lambda>st. (if p = None then ret () st
     else bindP (node_at p) (\<lambda>n. bindP (paste_operand n) (\<lambda>r.
         case r of None \<Rightarrow> paste_loop (tl_next n)
         | Some r \<Rightarrow> bindP (paste_right p n r) (\<lambda>_. paste_loop p))) st))"
  by (rule ext) (rule paste_loop.simps)

lemma paste_operand_run:
  assumes "segment (heap st) p (m # ms) None"
  shows "paste_operand (heap st ! m) st = Some (Inr (case ms of
      x # y # ys \<Rightarrow> if tl_s (heap st ! x) = ''##'' then Some (heap st ! y) else None | _ \<Rightarrow> None, st))"
  using assms by (auto simp: paste_operand_def exec split: list.splits)

definition pasted :: "pp \<Rightarrow> nat option \<Rightarrow> nat list \<Rightarrow> pp \<Rightarrow> bool" where
  "pasted st p ms st' \<longleftrightarrow> (\<exists>h ms'. st' = st\<lparr>heap := h\<rparr> \<and> only ms (heap st) h \<and> segment h p ms' None \<and>
     set ms' \<subseteq> set ms \<and> distinct ms' \<and> no_newlines h ms' \<and> first_or ms' None = first_or ms None)"

lemma paste_loop_wp:
  "segment (heap st) p ms None \<Longrightarrow> distinct ms \<Longrightarrow> no_newlines (heap st) ms \<Longrightarrow>
   wp (paste_loop (first_or ms None)) (\<lambda>_. pasted st p ms) st"
proof (induction "length ms" arbitrary: st p ms rule: less_induct)
  case less
  show ?case
  proof (cases ms)
    case Nil
    then have "pasted st p ms st"
      unfolding pasted_def by (intro exI [of _ "heap st"] exI [of _ "[]"]) (simp add: no_newlines_def)
    then show ?thesis by (subst paste_unfold) (simp add: Nil wp_def exec)
  next
    case (Cons m ns)
    note s = less.prems(1) [unfolded Cons]
    note o = paste_operand_run [OF s]
    show ?thesis
    proof (cases "\<exists>x y ys. ns = x # y # ys \<and> tl_s (heap st ! x) = ''##''")
      case False
      have "wp (paste_loop (first_or ns None)) (\<lambda>_. pasted st (Some m) ns) st"
        using less.hyps [of ns st "Some m"] less.prems Cons by (simp add: no_newlines_def)
      then have "wp (paste_loop (first_or ns None)) (\<lambda>_. pasted st p ms) st"
      proof (rule wp_mono)
        fix x st'
        assume "pasted st (Some m) ns st'"
        then obtain h ms' where h: "st' = st\<lparr>heap := h\<rparr>" "only ns (heap st) h" "segment h (Some m) ms' None"
          "set ms' \<subseteq> set ns" "distinct ms'" "no_newlines h ms'" "first_or ms' None = first_or ns None"
          unfolding pasted_def by blast
        have "h ! m = heap st ! m" "length h = length (heap st)" using h(2) less.prems(2) Cons by (auto simp: only_def)
        then show "pasted st p ms st'" unfolding pasted_def
          using h s less.prems(2,3) Cons
          by (intro exI [of _ h] exI [of _ "m # ms'"]) (auto simp: no_newlines_def only_def)
      qed
      moreover have "paste_loop (first_or ms None) st = paste_loop (first_or ns None) st"
        using False s by (subst paste_unfold) (auto simp: Cons bindP_def [where m = "paste_operand _"] o split: list.splits)
      ultimately show ?thesis by (simp only: wp_def)
    next
      case True
      then obtain x y ys where ns: "ns = x # y # ys" "tl_s (heap st ! x) = ''##''" by blast
      have d: "m \<notin> set ys" "x \<noteq> m" "y \<noteq> m" "distinct ys" "m \<noteq> x" "y \<notin> set ys" using less.prems(2) Cons ns by auto
      have b: "m < length (heap st)" using s by simp
      show ?thesis
      proof (cases "concat_strings2 (int (pp_max_string st)) (tl_s (heap st ! m)) (tl_s (heap st ! y))")
        case None
        then have "paste_loop (first_or ms None) st = Some (Inl Outside_Buffer)"
          using s o ns(2) by (subst paste_unfold) (simp add: Cons ns(1) bindP_def [where m = "paste_operand _"] bindP_assoc paste_right_def exec)
        then show ?thesis by (simp add: wp_def)
      next
        case (Some t)
        let ?h1 = "(heap st)[m := (heap st ! m)\<lparr>tl_s := t, tl_next := first_or ys None\<rparr>]"
        define h2 where "h2 = (case ys of [] \<Rightarrow> ?h1 | z # zs \<Rightarrow> ?h1[z := (?h1 ! z)\<lparr>tl_prev := Some m\<rparr>])"
        have run: "paste_loop (first_or ms None) st = paste_loop (Some m) (st\<lparr>heap := h2\<rparr>)"
          using s o ns(2) Some
          by (subst paste_unfold)
            (cases ys; simp add: Cons ns(1) bindP_def [where m = "paste_operand _"] bindP_assoc paste_right_def exec set_if_def h2_def)
        have yseg: "segment (heap st) (Some y) ys None" using s ns by simp
        have "segment h2 (Some m) ys None"
        proof (cases ys)
          case (Cons z zs)
          have "segment (?h1[z := (?h1 ! z)\<lparr>tl_prev := Some m\<rparr>]) (Some m) (z # zs) None"
            using yseg d Cons by (intro segment_set_prev [of _ "Some y"]) auto
          moreover have "h2 = ?h1[z := (?h1 ! z)\<lparr>tl_prev := Some m\<rparr>]" by (simp add: h2_def Cons)
          ultimately show ?thesis by (simp only: Cons)
        qed simp
        moreover have hm: "h2 ! m = (heap st ! m)\<lparr>tl_s := t, tl_next := first_or ys None\<rparr>" "length h2 = length (heap st)"
          using d b by (auto simp: h2_def split: list.splits)
        ultimately have seg: "segment h2 p (m # ys) None" using s b by simp
        have tl: "tl_s (h2 ! c) = tl_s (heap st ! c)" if "c \<noteq> m" for c
          using that yseg by (cases ys; cases "c = hd ys") (auto simp: h2_def)
        have not_eq: "c \<noteq> m" if "c \<in> set ys" for c using that d by blast
        have "chr_at t 0 \<noteq> LF" using concat_first [OF Some] less.prems(3) Cons ns by (auto simp: no_newlines_def)
        then have nn: "no_newlines h2 (m # ys)"
          using less.prems(3) Cons ns hm tl [OF not_eq] by (auto simp: no_newlines_def)
        have "only ms (heap st) ?h1" using Cons by (simp add: only_update)
        then have ol: "only ms (heap st) h2"
          using Cons ns by (cases ys) (auto simp: h2_def intro: only_update)
        have "wp (paste_loop (first_or (m # ys) None)) (\<lambda>_. pasted (st\<lparr>heap := h2\<rparr>) p (m # ys)) (st\<lparr>heap := h2\<rparr>)"
          using less.hyps [of "m # ys" "st\<lparr>heap := h2\<rparr>" p] seg nn d Cons ns by simp
        then have "wp (paste_loop (Some m)) (\<lambda>_. pasted st p ms) (st\<lparr>heap := h2\<rparr>)"
        proof (simp, elim wp_mono)
          fix st'
          assume "pasted (st\<lparr>heap := h2\<rparr>) p (m # ys) st'"
          then obtain h ms' where h: "st' = st\<lparr>heap := h\<rparr>" "only (m # ys) h2 h" "segment h p ms' None"
            "set ms' \<subseteq> set (m # ys)" "distinct ms'" "no_newlines h ms'" "first_or ms' None = Some m"
            unfolding pasted_def by auto
          have "only ms (heap st) h" by (rule only_trans [OF ol h(2)]) (auto simp: Cons ns)
          then show "pasted st p ms st'" unfolding pasted_def
            using h Cons ns by (intro exI [of _ h] exI [of _ ms']) auto
        qed
        then show ?thesis unfolding wp_def run by simp
      qed
    qed
  qed
qed

section \<open>Painting\<close>

lemma paint_unfold:
  "paint_loop symb p = (\<lambda>st. (if p = None then ret () st
     else bindP (node_at p) (\<lambda>n.
       bindP (if symb = tl_s n then set_node p (\<lambda>m. m\<lparr>no_expand := True\<rparr>) else ret ()) (\<lambda>_.
       paint_loop symb (tl_next n))) st))"
  by (rule ext) (rule paint_loop.simps)

definition paint :: "string \<Rightarrow> pp_token \<Rightarrow> pp_token" where
  "paint symb n = (if symb = tl_s n then n\<lparr>no_expand := True\<rparr> else n)"

lemma paint_fields [simp]: "tl_next (paint s n) = tl_next n" "tl_prev (paint s n) = tl_prev n" "tl_s (paint s n) = tl_s n"
  by (simp_all add: paint_def)

lemma paint_loop_run:
  "segment (heap st) p ms None \<Longrightarrow> distinct ms \<Longrightarrow> \<exists>h. paint_loop symb (first_or ms None) st = Some (Inr ((), st\<lparr>heap := h\<rparr>)) \<and>
     only ms (heap st) h \<and> (\<forall>c \<in> set ms. h ! c = paint symb (heap st ! c))"
proof (induction ms arbitrary: st p)
  case Nil
  then show ?case by (subst paint_unfold) (auto simp: exec intro!: exI [of _ "heap st"])
next
  case (Cons m ms)
  let ?h = "(heap st)[m := paint symb (heap st ! m)]"
  have "segment ?h (Some m) ms None" using Cons.prems by simp
  then obtain h where h: "paint_loop symb (first_or ms None) (st\<lparr>heap := ?h\<rparr>) = Some (Inr ((), st\<lparr>heap := h\<rparr>))"
      "only ms ?h h" "\<forall>c \<in> set ms. h ! c = paint symb (?h ! c)"
    using Cons.IH [of "st\<lparr>heap := ?h\<rparr>" "Some m"] Cons.prems(2) by auto
  have u: "heap st = (heap st)[m := heap st ! m]" by simp
  have "paint_loop symb (first_or (m # ms) None) st = paint_loop symb (first_or ms None) (st\<lparr>heap := ?h\<rparr>)"
    using Cons.prems(1) by (subst paint_unfold) (simp add: paint_def)
  moreover have "only (m # ms) (heap st) h"
    using only_trans [of "m # ms" "heap st" ?h ms h] h(2) by (auto simp: only_update)
  moreover have "\<forall>c \<in> set (m # ms). h ! c = paint symb (heap st ! c)"
    using h(2,3) Cons.prems by (auto simp: only_def) (metis nth_list_update_neq)
  ultimately show ?case using h(1) by (intro exI [of _ h]) simp
qed

section \<open>Copies in the token list\<close>

lemma first_or_snoc: "first_or (as @ [a]) q = first_or as (Some a)"
  by (cases as) simp_all

lemma insert_copy_run:
  assumes s: "segment (heap st) None (as @ x # xs) None" and d: "distinct (as @ x # xs)"
  shows "\<exists>h. insert_copy (Some x) n f l st = Some (Inr (length (heap st), st\<lparr>heap := h\<rparr>)) \<and>
    segment h None (as @ length (heap st) # x # xs) None \<and> length h = Suc (length (heap st)) \<and> keeps (heap st) h \<and>
    tl_s (h ! length (heap st)) = tl_s n \<and> (\<forall>c. c < length (heap st) \<longrightarrow> c \<notin> set (as @ x # xs) \<longrightarrow> h ! c = heap st ! c)"
proof -
  let ?L = "length (heap st)"
  define new where "new = no_token\<lparr>tl_s := tl_s n, tl_filename := f, tl_linenumber := l, no_expand := no_expand n,
    tl_next := Some x, tl_prev := last_or None as\<rparr>"
  have x: "x < ?L" "tl_prev (heap st ! x) = last_or None as" "tl_next (heap st ! x) = first_or xs None" using s by auto
  have b: "\<forall>c \<in> set (as @ x # xs). c < ?L" using segment_bounds [OF s] by blast
  show ?thesis
  proof (cases as rule: rev_cases)
    case Nil
    let ?h = "(heap st @ [new])[x := (heap st ! x)\<lparr>tl_prev := Some ?L\<rparr>]"
    have "insert_copy (Some x) n f l st = Some (Inr (?L, st\<lparr>heap := ?h\<rparr>))"
      using x by (simp add: insert_copy_def bindP_assoc set_if_def exec nth_append new_def Nil)
    moreover have "segment ?h (Some x) xs None"
    proof (rule segment_cong [of "heap st"])
      show "segment (heap st) (Some x) xs None" using s Nil by simp
      show "?h ! a = heap st ! a" if "a \<in> set xs" for a
        using that d Nil b by (auto simp: nth_list_update nth_append)
    qed simp
    then have "segment ?h None (as @ ?L # x # xs) None"
      using x Nil by (simp add: nth_append new_def)
    moreover have "keeps (heap st) ?h" "tl_s (?h ! ?L) = tl_s n"
      using x by (auto simp: keeps_def nth_list_update nth_append content_def new_def)
    ultimately show ?thesis using x by (intro exI [of _ ?h]) (auto simp: nth_list_update nth_append)
  next
    case (snoc as' k)
    have k: "k < ?L" "k \<noteq> x" "k \<notin> set xs" "k \<notin> set as'" "x \<notin> set as'" using b d snoc by auto
    let ?h = "(heap st @ [new])[k := (heap st ! k)\<lparr>tl_next := Some ?L\<rparr>, x := (heap st ! x)\<lparr>tl_prev := Some ?L\<rparr>]"
    have "insert_copy (Some x) n f l st = Some (Inr (?L, st\<lparr>heap := ?h\<rparr>))"
      using x k by (simp add: insert_copy_def bindP_assoc set_if_def exec nth_append new_def snoc)
    moreover have "segment ?h (Some x) xs None"
    proof (rule segment_cong [of "heap st"])
      show "segment (heap st) (Some x) xs None" using s by simp
      show "?h ! a = heap st ! a" if "a \<in> set xs" for a
        using that d b k by (auto simp: nth_list_update nth_append)
    qed simp
    moreover have "segment ?h None as' (Some k)"
    proof (rule segment_cong [of "heap st"])
      show "segment (heap st) None as' (Some k)" using s snoc by simp
      show "?h ! a = heap st ! a" if "a \<in> set as'" for a
        using that d b k snoc by (auto simp: nth_list_update nth_append)
    qed simp
    moreover have "tl_prev (heap st ! k) = last_or None as'" using s snoc by simp
    ultimately have "insert_copy (Some x) n f l st = Some (Inr (?L, st\<lparr>heap := ?h\<rparr>))" "segment ?h None (as @ ?L # x # xs) None"
      using x k snoc by (simp_all add: nth_append new_def)
    moreover have "keeps (heap st) ?h" "tl_s (?h ! ?L) = tl_s n"
      using x k by (auto simp: keeps_def nth_list_update nth_append content_def new_def)
    ultimately show ?thesis using x k snoc by (intro exI [of _ ?h]) (auto simp: nth_list_update nth_append)
  qed
qed

lemma insert_unfold:
  "insert_loop p t f l r = (\<lambda>st. (if t = None then ret r st
     else bindP (node_at t) (\<lambda>n. bindP (insert_copy p n f l) (\<lambda>copy. bindP (node_at t) (\<lambda>n.
          insert_loop p (tl_next n) f l (if r = None then Some copy else r)))) st))"
  by (rule ext) (rule insert_loop.simps)

lemma insert_loop_run:
  assumes "segment (heap st) None (as @ x # xs) None" "distinct (as @ x # xs)" "segment (heap st) p ms None"
    "set ms \<inter> set (as @ x # xs) = {}"
  shows "\<exists>h. insert_loop (Some x) (first_or ms None) f l r st =
      Some (Inr (if r = None then first_or [length (heap st)..<length (heap st) + length ms] None else r, st\<lparr>heap := h\<rparr>)) \<and>
    segment h None (as @ [length (heap st)..<length (heap st) + length ms] @ x # xs) None \<and> keeps (heap st) h \<and>
    length h = length (heap st) + length ms \<and>
    (\<forall>i < length ms. tl_s (h ! (length (heap st) + i)) = tl_s (heap st ! (ms ! i))) \<and>
    (\<forall>c. c < length (heap st) \<longrightarrow> c \<notin> set (as @ x # xs) \<longrightarrow> h ! c = heap st ! c)"
  using assms
proof (induction ms arbitrary: st as p r)
  case Nil
  then show ?case by (subst insert_unfold) (auto simp: exec intro!: exI [of _ "heap st"])
next
  case (Cons m ms)
  let ?L = "length (heap st)"
  have m: "m < ?L" "tl_next (heap st ! m) = first_or ms None" using Cons.prems(3) by auto
  obtain h1 where h1: "insert_copy (Some x) (heap st ! m) f l st = Some (Inr (?L, st\<lparr>heap := h1\<rparr>))"
      "segment h1 None (as @ ?L # x # xs) None" "length h1 = Suc ?L" "keeps (heap st) h1" "tl_s (h1 ! ?L) = tl_s (heap st ! m)"
      "\<forall>c. c < ?L \<longrightarrow> c \<notin> set (as @ x # xs) \<longrightarrow> h1 ! c = heap st ! c"
    using insert_copy_run [OF Cons.prems(1,2)] by blast
  have mb: "\<forall>c \<in> set ms. c < ?L" using segment_bounds [OF Cons.prems(3)] by auto
  have ms: "segment h1 (Some m) ms None"
  proof (rule segment_cong [of "heap st"])
    show "h1 ! a = heap st ! a" if "a \<in> set ms" for a using h1(6) mb Cons.prems(4) that by auto
  qed (use Cons.prems(3) h1(3) in simp_all)
  have L: "?L \<notin> set (as @ x # xs)" using segment_bounds [OF Cons.prems(1)] by blast
  let ?r = "if r = None then Some ?L else r"
  let ?st = "st\<lparr>heap := h1\<rparr>"
  have pre: "segment (heap ?st) None ((as @ [?L]) @ x # xs) None" "distinct ((as @ [?L]) @ x # xs)"
      "segment (heap ?st) (Some m) ms None" "set ms \<inter> set ((as @ [?L]) @ x # xs) = {}"
    using h1(2) Cons.prems(2,4) L ms mb by auto
  from Cons.IH [OF pre, of ?r, simplified]
  obtain h where h: "insert_loop (Some x) (first_or ms None) f l ?r (st\<lparr>heap := h1\<rparr>) = Some (Inr (?r, st\<lparr>heap := h\<rparr>))"
    "segment h None (as @ (?L # [Suc ?L..<Suc ?L + length ms]) @ x # xs) None" "keeps h1 h" "length h = Suc ?L + length ms"
    "\<forall>i < length ms. tl_s (h ! (Suc ?L + i)) = tl_s (h1 ! (ms ! i))"
    "\<forall>c. c < Suc ?L \<longrightarrow> c \<notin> set (as @ ?L # x # xs) \<longrightarrow> h ! c = h1 ! c"
    unfolding h1(3) by (auto split: if_splits)
  have up: "[?L..<?L + length (m # ms)] = ?L # [Suc ?L..<Suc ?L + length ms]"
    by (subst upt_conv_Cons) (simp_all del: upt_Suc)
  have "h1 ! m = heap st ! m" using h1(6) m Cons.prems(4) by auto
  then have "insert_loop (Some x) (first_or (m # ms) None) f l r st = Some (Inr (?r, st\<lparr>heap := h\<rparr>))"
    using h(1) by (subst insert_unfold) (simp add: bindP_def [where m = "insert_copy _ _ _ _"] h1(1) m)
  moreover have "tl_s (h ! (?L + i)) = tl_s (heap st ! ((m # ms) ! i))" if "i < length (m # ms)" for i
  proof (cases i)
    case 0
    then show ?thesis using keeps_text [OF h(3), of ?L] h1(3,5) by simp
  next
    case (Suc j)
    then show ?thesis using h(5) keeps_text [OF h1(4), of "ms ! j"] mb that by auto
  qed
  moreover have "h ! c = heap st ! c" if "c < ?L" "c \<notin> set (as @ x # xs)" for c
    using h(6) h1(6) that by auto
  ultimately show ?case
    using h(2,4) keeps_trans [OF h1(4) h(3)] unfolding up by (intro exI [of _ h]) auto
qed

end
