(* ===== verification/CcMacroReturns.thy ===== *)
theory CcMacroReturns
  imports CcMacroToken
begin

text \<open>
  The expansion of one token, and the main loop: \<open>preprocess\<close> returns.
\<close>

section \<open>Looking a name up\<close>

lemma create_exact:
  assumes "wf_pp st mss ks xs" "chr_at s 0 \<noteq> LF"
  shows "wp (create_replacement_token symb tk s) (\<lambda>r st'. (\<exists>mss'. wf_pp st' mss' ks xs) \<and> same_frame st st' \<and>
    snd r \<in> set (macro_env st')) st"
proof -
  let ?n = "no_token\<lparr>tl_s := s, tl_linenumber := tl_linenumber tk\<rparr>"
  let ?m = "\<lparr>mac_symbol = symb, mac_expansion = Some (length (heap st)), mac_arguments = None\<rparr>"
  have i: "wf_pp (st\<lparr>heap := heap st @ [?n]\<rparr>) mss ks xs" using inv_new_node [OF assms(1)] by simp
  have "length (heap st) \<notin> set (concat mss @ ks @ xs)"
    using inv_bounds [OF assms(1)] inv_body_bounds [OF assms(1)] by (auto simp del: set_concat)
  then have "wf_pp (st\<lparr>heap := heap st @ [?n], macro_env := ?m # macro_env st\<rparr>) ([length (heap st)] # mss) ks xs"
    using i assms(2) by (simp add: inv_for_def body_ok_def)
  then show ?thesis
    by (auto simp: wp_def create_replacement_token_def same_frame_def Let_def exec)
qed

lemma lookup_exact:
  assumes "wf_pp st mss ks xs"
  shows "wp (lookup_macro (Some a)) (\<lambda>r st'. (\<exists>mss'. wf_pp st' mss' ks xs) \<and> same_frame st st' \<and>
    (\<forall>n m. r = Some (n, m) \<longrightarrow> m \<in> set (macro_env st'))) st"
  unfolding lookup_macro_def
  using assms
  by (auto simp: wp_simps find_macro_set same_frame_def split: option.splits sum.splits
      intro!: wp_mono [OF create_exact [OF assms]] dest: int2str_not_LF concat_not_LF)

section \<open>Inserting a replacement list\<close>

text \<open>The replacement list of one macro changes.\<close>

lemma inv_body_update:
  assumes i: "inv_for (e1 @ m # e2) st (m1 @ ms # m2) ks xs" and l: "length e1 = length m1"
    and o: "only ms (heap st) h" "segment h None ms' None" "set ms' \<subseteq> set ms" "distinct ms'" "no_newlines h ms'"
      "first_or ms' None = first_or ms None"
  shows "inv_for (e1 @ m # e2) (st\<lparr>heap := h\<rparr>) (m1 @ ms' # m2) ks xs" "\<forall>c \<in> set (ks @ xs). h ! c = heap st ! c"
proof -
  have d: "distinct (concat m1 @ ms @ concat m2 @ ks @ xs)" using inv_distinct [OF i] by simp
  have b: "list_all2 (body_ok (heap st)) e1 m1" "body_ok (heap st) m ms" "list_all2 (body_ok (heap st)) e2 m2"
    using i l by (auto simp: inv_for_def list_all2_append)
  have keep: "h ! c = heap st ! c" if "c \<notin> set ms" for c using o(1) that by (simp add: only_def)
  have len: "length h = length (heap st)" using o(1) by (simp add: only_def)
  have apart: "c \<notin> set ms" if "c \<in> set (ks @ xs) \<or> c \<in> set (concat m1) \<or> c \<in> set (concat m2)" for c
    using d that unfolding distinct_append set_append by blast
  show m: "\<forall>c \<in> set (ks @ xs). h ! c = heap st ! c" using keep apart by blast
  have "segment h None (ks @ xs) None"
    by (rule segment_cong [of "heap st"]) (use i m len in \<open>simp_all add: inv_for_def\<close>)
  moreover have "list_all2 (body_ok h) e1 m1"
    by (rule bodies_cong [OF b(1)]) (use keep apart len in \<open>simp_all del: set_concat\<close>)
  moreover have "list_all2 (body_ok h) e2 m2"
    by (rule bodies_cong [OF b(3)]) (use keep apart len in \<open>simp_all del: set_concat\<close>)
  moreover have "body_ok h m ms'" using b(2) o by (simp add: body_ok_def no_newlines_def)
  moreover have "distinct (concat (m1 @ ms' # m2) @ ks @ xs)"
    using d o(3,4) unfolding concat_append concat.simps append_assoc distinct_append set_append by blast
  ultimately show "inv_for (e1 @ m # e2) (st\<lparr>heap := h\<rparr>) (m1 @ ms' # m2) ks xs"
    using i l by (simp add: inv_for_def list_all2_append)
qed

lemma bodies_split:
  assumes "list_all2 P env mss" "m \<in> set env"
  obtains e1 e2 m1 ms m2 where "env = e1 @ m # e2" "mss = m1 @ ms # m2" "length e1 = length m1" "P m ms"
proof -
  obtain e1 e2 where e: "env = e1 @ m # e2" using split_list [OF assms(2)] by blast
  obtain m1 r where m: "mss = m1 @ r" "list_all2 P e1 m1" "list_all2 P (m # e2) r"
    using assms(1) unfolding e list_all2_append1 by blast
  obtain ms m2 where r: "r = ms # m2" "P m ms" using m(3) unfolding list_all2_Cons1 by blast
  show ?thesis using that [OF e _ list_all2_lengthD [OF m(2)] r(2)] m(1) r(1) by blast
qed

lemma segment_links:
  assumes "segment h p as q" "length h \<le> length h'" "\<And>a. a \<in> set as \<Longrightarrow> tl_next (h' ! a) = tl_next (h ! a) \<and> tl_prev (h' ! a) = tl_prev (h ! a)"
  shows "segment h' p as q"
  using assms by (induction as arbitrary: p) auto

text \<open>New nodes go into the token list.\<close>

lemma inv_insert:
  assumes i: "inv_for env st mss ks xs" and ks: "ks \<noteq> []"
    and h: "segment h None (ks @ cs @ xs) None" "length (heap st) \<le> length h" "set cs \<inter> {0..<length (heap st)} = {}" "distinct cs"
      "\<And>c. c < length (heap st) \<Longrightarrow> c \<notin> set (ks @ xs) \<Longrightarrow> h ! c = heap st ! c"
  shows "inv_for env (st\<lparr>heap := h, macro_token := first_or (cs @ xs) None\<rparr>) mss ks (cs @ xs)"
proof -
  have b: "c < length (heap st)" if "c \<in> set (concat mss) \<or> c \<in> set (ks @ xs)" for c
    using inv_bounds [OF i] inv_body_bounds [OF i] that by blast
  have "list_all2 (body_ok h) env mss"
  proof (rule bodies_cong [of "heap st"])
    show "list_all2 (body_ok (heap st)) env mss" using i by (simp add: inv_for_def)
    show "h ! c = heap st ! c" if "c \<in> set (concat mss)" for c
      using h(5) [OF _ inv_apart [OF i that]] b that by blast
  qed (rule h(2))
  moreover have "c \<notin> set (concat mss @ ks @ xs)" if "c \<in> set cs" for c
    using b [of c] h(3) that by (auto simp del: set_concat)
  then have "distinct (concat mss @ ks @ cs @ xs)"
    using inv_distinct [OF i] h(4) unfolding distinct_append set_append by blast
  moreover have "global_token st = first_or (ks @ cs @ xs) None" using i ks by (cases ks) (auto simp: inv_for_def)
  ultimately show ?thesis using h(1) by (simp add: inv_for_def)
qed

text \<open>What the expansion of a token with \<open>xs\<close> behind it leaves: \<open>cs\<close> are the copies.\<close>

definition expanded :: "pp \<Rightarrow> nat list \<Rightarrow> nat option \<Rightarrow> pp \<Rightarrow> bool" where
  "expanded st xs q st' \<longleftrightarrow> (\<exists>mss ks cs. wf_pp (st'\<lparr>macro_token := q\<rparr>) mss ks (cs @ xs) \<and> ks \<noteq> [] \<and>
     no_newlines (heap st') cs \<and> texts (heap st') xs = texts (heap st) xs \<and> FOLLOW_INCLUDES st' = FOLLOW_INCLUDES st \<and>
     (cs = [] \<and> expand_depth st' = expand_depth st \<or>
      expand_depth st' = expand_depth st + 1 \<and> expand_depth st' \<le> MAX_EXPANSIONS))"

lemma splice_expansion_wp:
  assumes i: "wf_pp (st\<lparr>macro_token := Some x\<rparr>) mss ks (x # xs)" and ks: "ks \<noteq> []"
    and m: "m \<in> set (macro_env st)" "mac_expansion m \<noteq> None"
  shows "wp (splice_expansion (Some x) m (mac_expansion m) n) (expanded st (x # xs)) st"
proof -
  have i: "inv_for (macro_env st) (st\<lparr>macro_token := Some x\<rparr>) mss ks (x # xs)" using i by simp
  then have "list_all2 (body_ok (heap st)) (macro_env st) mss" by (simp add: inv_for_def)
  then obtain e1 e2 m1 ms m2 where e: "macro_env st = e1 @ m # e2" "mss = m1 @ ms # m2" "length e1 = length m1"
      "body_ok (heap st) m ms"
    using m(1) by (rule bodies_split)
  have b: "mac_expansion m = first_or ms None" "segment (heap st) None ms None" "no_newlines (heap st) ms"
    using e(4) by (auto simp: body_ok_def no_newlines_def)
  have d: "distinct ms" using inv_distinct [OF i] e(2) by simp
  show ?thesis unfolding splice_expansion_def wp_bindP [of "paste_loop _"] b(1)
  proof (rule wp_mono [OF paste_loop_wp [OF b(2) d b(3)]])
    fix u st1
    assume "pasted st None ms st1"
    then obtain h1 ms1 where p: "st1 = st\<lparr>heap := h1\<rparr>" "only ms (heap st) h1" "segment h1 None ms1 None"
        "set ms1 \<subseteq> set ms" "distinct ms1" "no_newlines h1 ms1" "first_or ms1 None = first_or ms None"
      unfolding pasted_def by blast
    have i1: "inv_for (macro_env st) (st\<lparr>macro_token := Some x, heap := h1\<rparr>) (m1 @ ms1 # m2) ks (x # xs)"
        "\<forall>c \<in> set (ks @ x # xs). h1 ! c = heap st ! c"
      using inv_body_update [OF i [unfolded e(1,2)] e(3) _ p(3-7)] p(2) e(1) by simp_all
    obtain h2 where h2: "paint_loop (mac_symbol m) (first_or ms1 None) st1 = Some (Inr ((), st1\<lparr>heap := h2\<rparr>))"
        "only ms1 h1 h2" "\<forall>c \<in> set ms1. h2 ! c = paint (mac_symbol m) (h1 ! c)"
      using paint_loop_run [of st1 None ms1 "mac_symbol m"] p(1,3,5) by auto
    have s2: "segment h2 None ms1 None"
      by (rule segment_links [OF p(3)]) (use h2(2,3) in \<open>auto simp: only_def\<close>)
    have n2: "no_newlines h2 ms1" using p(6) h2(3) by (simp add: no_newlines_def)
    have i2: "inv_for (macro_env st) (st\<lparr>macro_token := Some x, heap := h2\<rparr>) (m1 @ ms1 # m2) ks (x # xs)"
        "\<forall>c \<in> set (ks @ x # xs). h2 ! c = heap st ! c"
      using inv_body_update [OF i1(1) [unfolded e(1)] e(3) _ s2 _ p(5) n2] h2(2) i1(2) e(1) by simp_all
    have sg: "segment h2 None (ks @ x # xs) None" using i2(1) by (simp add: inv_for_def)
    have dj: "distinct (concat (m1 @ ms1 # m2) @ ks @ x # xs)" using inv_distinct [OF i2(1)] .
    define st2 where "st2 = st\<lparr>heap := h2, expand_depth := expand_depth st + 1\<rparr>"
    have hs: "heap st2 = h2" by (simp add: st2_def)
    have dd: "distinct (ks @ x # xs)" "set ms1 \<inter> set (ks @ x # xs) = {}" using dj by auto
    obtain h3 where h3: "insert_loop (Some x) (first_or ms1 None) (tl_filename n) (tl_linenumber n) None st2 =
          Some (Inr (if (None :: nat option) = None then first_or [length h2..<length h2 + length ms1] None else None, st2\<lparr>heap := h3\<rparr>))"
        "segment h3 None (ks @ [length h2..<length h2 + length ms1] @ x # xs) None" "keeps h2 h3"
        "length h3 = length h2 + length ms1" "\<forall>i < length ms1. tl_s (h3 ! (length h2 + i)) = tl_s (h2 ! (ms1 ! i))"
        "\<forall>c. c < length h2 \<longrightarrow> c \<notin> set (ks @ x # xs) \<longrightarrow> h3 ! c = h2 ! c"
      using insert_loop_run [of st2 ks x xs None ms1 "tl_filename n" "tl_linenumber n" None, unfolded hs, OF sg dd(1) s2 dd(2)]
      by (elim exE conjE) (rule that)
    let ?cs = "[length h2..<length h2 + length ms1]"
    have "wf_pp (st\<lparr>heap := h3, expand_depth := expand_depth st + 1, macro_token := first_or ?cs None\<rparr>)
        (m1 @ ms1 # m2) ks (?cs @ x # xs)"
    proof -
      have "ms1 \<noteq> []" using p(7) b(1) m(2) by auto
      then have f: "first_or ?cs None = first_or (?cs @ x # xs) None" by (cases ?cs) auto
      have "inv_for (macro_env st) (st\<lparr>macro_token := Some x, heap := h2, heap := h3, macro_token := first_or (?cs @ x # xs) None\<rparr>)
          (m1 @ ms1 # m2) ks (?cs @ x # xs)"
        by (rule inv_insert [OF i2(1) ks]) (use h3(2,4,6) in auto)
      then show ?thesis unfolding f by (simp add: inv_for_def)
    qed
    moreover have "no_newlines h3 ?cs"
      unfolding no_newlines_def
    proof
      fix a
      assume "a \<in> set ?cs"
      then obtain j where "j < length ms1" "a = length h2 + j" by (auto simp: nat_le_iff_add)
      then show "chr_at (tl_s (h3 ! a)) 0 \<noteq> LF" using h3(5) n2 by (simp add: no_newlines_def)
    qed
    moreover have "texts h3 (x # xs) = texts (heap st) (x # xs)"
    proof -
      have "texts h3 (x # xs) = texts h2 (x # xs)"
        by (rule keeps_texts [OF h3(3)]) (use segment_bounds [OF sg] in auto)
      then show ?thesis using i2(2) by (simp add: texts_def)
    qed
    ultimately have "expand_depth st + 1 \<le> MAX_EXPANSIONS \<Longrightarrow>
        expanded st (x # xs) (first_or ?cs None) (st2\<lparr>heap := h3\<rparr>)"
      unfolding expanded_def st2_def using ks
      by - (rule exI [of _ "m1 @ ms1 # m2"], rule exI [of _ ks], rule exI [of _ ?cs], simp add: inv_for_def)
    then show "wp (bindP (paint_loop (mac_symbol m) (first_or ms None)) (\<lambda>_.
        bindP (put (\<lambda>st. st\<lparr>expand_depth := expand_depth st + 1\<rparr>)) (\<lambda>_.
        bindP (get (\<lambda>st. expand_depth st \<le> MAX_EXPANSIONS)) (\<lambda>b. bindP (require b Expansion_Too_Deep) (\<lambda>_.
        insert_tokens (Some x) (first_or ms None) (tl_filename n) (tl_linenumber n)))))) (expanded st (x # xs)) st1"
      using h2(1) h3(1) p(1,7) by (simp add: wp_bindP wp_run [where m = "paint_loop _ _", OF h2(1) [unfolded p(7) p(1)]] wp_simps insert_tokens_def st2_def)
        (simp add: wp_def)
  qed
qed

text \<open>The invariant gives each macro no arguments, and \<open>tok\<close> is taken out with its neighbours.\<close>

lemma take_out_run_in:
  assumes i: "wf_pp st mss ks (a # xs)" and ks: "ks \<noteq> []"
  shows "\<exists>h. take_out (Some a) st = Some (Inr (first_or xs None, st\<lparr>heap := h\<rparr>)) \<and>
    wf_pp (st\<lparr>heap := h, macro_token := first_or xs None\<rparr>) mss ks xs \<and> keeps (heap st) h"
proof -
  obtain h where h: "wf_pp (st\<lparr>heap := h, macro_token := first_or xs None, global_token := first_or (ks @ xs) None\<rparr>) mss ks xs"
      "keeps (heap st) h" "eat_current_token st =
        Some (Inr ((), st\<lparr>heap := h, macro_token := first_or xs None, global_token := first_or (ks @ xs) None\<rparr>))"
    using eat_current_run [OF i] by auto
  obtain h' q where e: "eat_token (heap st) a = (h', q)" by fastforce
  have m: "macro_token st = Some a" using inv_current(1) [OF i] .
  have "global_token st = first_or (ks @ xs) None" using i ks by (cases ks) (auto simp: inv_for_def)
  moreover have "h' = h \<and> q = first_or xs None"
    using h(3) by (auto simp: eat_current_token_def m bindP_def [where m = "take_out _"] take_out_run [OF e] exec split: if_splits
        dest: arg_cong [where f = heap] arg_cong [where f = macro_token])
  ultimately show ?thesis
    using h(1,2) take_out_run [OF e] by (intro exI [of _ h]) (simp add: inv_for_def)
qed

lemma same_frame_refl [simp]: "same_frame st st"
  by (simp add: same_frame_def)

lemma inv_ahead_texts:
  assumes "inv_for env st mss ks xs" "keeps (heap st) h" "suffix ys xs"
  shows "texts h ys = texts (heap st) ys"
  using assms(2)
proof (rule keeps_texts)
  show "\<forall>a \<in> set ys. a < length (heap st)" using inv_bounds [OF assms(1)] set_mono_suffix [OF assms(3)] by auto
qed

lemma expanded_from:
  assumes "expanded st1 xs q st2" "same_frame st st1" "texts (heap st1) xs = texts (heap st) xs"
  shows "expanded st xs q st2"
proof -
  have "FOLLOW_INCLUDES st1 = FOLLOW_INCLUDES st" "expand_depth st1 = expand_depth st"
    using assms(2) by (simp_all add: same_frame_def)
  then show ?thesis using assms(1,3) unfolding expanded_def by simp
qed

lemma expanded_next:
  assumes i: "wf_pp st mss ks (a # xs)"
  shows "expanded st xs (first_or xs None) st"
  unfolding expanded_def
  by (rule exI [of _ mss], rule exI [of _ "ks @ [a]"], rule exI [of _ "[]"])
    (use next_token_run(2) [OF i] in \<open>simp add: no_newlines_def\<close>)

lemma inv_arguments: "wf_pp st mss ks xs \<Longrightarrow> m \<in> set (macro_env st) \<Longrightarrow> mac_arguments m = None"
  by (auto simp: inv_for_def body_ok_def list_all2_conv_all_nth in_set_conv_nth)

lemma expand_macro_wp:
  assumes i: "wf_pp st mss ks (a # x # xs)" and ks: "ks \<noteq> []" and m: "m \<in> set (macro_env st)"
  shows "wp (expand_macro (Some a) n m) (expanded st (x # xs)) st"
proof -
  have no_args: "mac_arguments m = None" using inv_arguments [OF i m] .
  obtain h where h: "take_out (Some a) st = Some (Inr (Some x, st\<lparr>heap := h\<rparr>))"
      "wf_pp (st\<lparr>heap := h, macro_token := Some x\<rparr>) mss ks (x # xs)" "keeps (heap st) h"
    using take_out_run_in [OF i ks] by auto
  have t: "texts h (x # xs) = texts (heap st) (x # xs)"
    by (rule inv_ahead_texts [OF i h(3)]) (simp add: suffix_ConsI)
  have s: "same_frame st (st\<lparr>heap := h\<rparr>)" using h(3) by (simp add: same_frame_def)
  have "wp (if mac_expansion m = None then ret (Some x) else splice_expansion (Some x) m (mac_expansion m) n)
      (expanded (st\<lparr>heap := h\<rparr>) (x # xs)) (st\<lparr>heap := h\<rparr>)"
  proof (cases "mac_expansion m = None")
    case True
    have "expanded (st\<lparr>heap := h\<rparr>) (x # xs) (Some x) (st\<lparr>heap := h\<rparr>)"
      unfolding expanded_def
      by (rule exI [of _ mss], rule exI [of _ ks], rule exI [of _ "[]"]) (use h(2) ks in \<open>simp add: no_newlines_def\<close>)
    then show ?thesis using True by (simp add: wp_simps)
  next
    case False
    then show ?thesis unfolding if_not_P [OF False]
      by (intro splice_expansion_wp) (use h(2) ks m in simp_all)
  qed
  then have "wp (if mac_expansion m = None then ret (Some x) else splice_expansion (Some x) m (mac_expansion m) n)
      (expanded st (x # xs)) (st\<lparr>heap := h\<rparr>)"
    by (rule wp_mono) (rule expanded_from [OF _ s], use t in simp_all)
  then show ?thesis by (simp add: expand_macro_def no_args wp_bindP [of "take_out _"] wp_run [where m = "take_out _", OF h(1)])
qed

lemma maybe_expand_wp:
  assumes i: "wf_pp st mss ks (a # xs)" and ks: "ks \<noteq> []"
  shows "wp (maybe_expand (Some a)) (expanded st xs) st"
proof -
  have nx: "tl_next (heap st ! a) = first_or xs None" using inv_current(2) [OF i] .
  have "wp (bindP (lookup_macro (Some a)) (\<lambda>hold. bindP (require (tl_next (heap st ! a) \<noteq> None) Expand_Last_Token) (\<lambda>_.
      case hold of
        None \<Rightarrow> ret (tl_next (heap st ! a))
      | Some (_, hold) \<Rightarrow> bindP (node_at (tl_next (heap st ! a))) (\<lambda>m.
          if mac_arguments hold \<noteq> None \<and> chr_at (tl_s m) 0 \<noteq> CHR ''('' then ret (tl_next (heap st ! a))
          else expand_macro (Some a) (heap st ! a) hold)))) (expanded st xs) st"
    unfolding wp_bindP [of "lookup_macro _"]
  proof (rule wp_mono [OF lookup_exact [OF i]], elim conjE exE)
    fix r st1 mss1
    assume i1: "wf_pp st1 mss1 ks (a # xs)" and s: "same_frame st st1"
      and r: "\<forall>n m. r = Some (n, m) \<longrightarrow> m \<in> set (macro_env st1)"
    have t: "texts (heap st1) xs = texts (heap st) xs"
      using s by (intro inv_ahead_texts [OF i]) (simp_all add: same_frame_def suffix_ConsI)
    note lift_back = expanded_from [OF _ s t]
    show "wp (bindP (require (tl_next (heap st ! a) \<noteq> None) Expand_Last_Token) (\<lambda>_.
      case r of
        None \<Rightarrow> ret (tl_next (heap st ! a))
      | Some (_, hold) \<Rightarrow> bindP (node_at (tl_next (heap st ! a))) (\<lambda>m.
          if mac_arguments hold \<noteq> None \<and> chr_at (tl_s m) 0 \<noteq> CHR ''('' then ret (tl_next (heap st ! a))
          else expand_macro (Some a) (heap st ! a) hold))) (expanded st xs) st1"
    proof (cases xs)
      case Nil
      then show ?thesis using nx by (simp add: wp_simps)
    next
      case (Cons x ys)
      show ?thesis
      proof (cases r)
        case None
        then show ?thesis using lift_back [OF expanded_next [OF i1]] nx by (simp add: wp_simps)
      next
        case (Some p)
        then obtain k m where p: "r = Some (k, m)" "m \<in> set (macro_env st1)" using r by (cases p) auto
        have "wp (expand_macro (Some a) (heap st ! a) m) (expanded st xs) st1"
          using expand_macro_wp [OF i1 [unfolded Cons] ks p(2)] lift_back unfolding Cons by (blast intro: wp_mono)
        then show ?thesis using inv_arguments [OF i1 p(2)] nx Cons by (simp add: p(1) wp_simps)
      qed
    qed
  qed
  then show ?thesis using expanded_next [OF i] nx by (simp add: maybe_expand_def wp_simps)
qed

lemma token_step_wp:
  assumes i: "wf_pp st mss ks (a # xs)" and ks: "ks \<noteq> []"
  shows "wp token_step (\<lambda>_ st'. expanded st xs (macro_token st') st') st"
proof -
  have "wp (bindP (maybe_expand (Some a)) (\<lambda>q. put (\<lambda>st. st\<lparr>macro_token := q\<rparr>))) (\<lambda>_ st'. expanded st xs (macro_token st') st') st"
    unfolding wp_bindP wp_basic
    by (rule wp_mono [OF maybe_expand_wp [OF i ks]]) (simp add: expanded_def)
  then show ?thesis by (simp add: token_step_def wp_simps inv_current(1) [OF i])
qed

section \<open>The main loop\<close>

text \<open>No \<open>#define\<close> at the start of a line has a parenthesis behind the name.\<close>

fun plain_defines :: "bool \<Rightarrow> string list \<Rightarrow> bool" where
  "plain_defines sol [] = True"
| "plain_defines sol (t # ts) =
    ((sol \<and> t = ''#define'' \<longrightarrow> (case ts of _ # p # _ \<Rightarrow> chr_at p 0 \<noteq> CHR ''('' | _ \<Rightarrow> True)) \<and>
     plain_defines (chr_at t 0 = LF) ts)"

text \<open>How many lines and directives may still come.\<close>

fun remaining :: "bool \<Rightarrow> string list \<Rightarrow> nat" where
  "remaining sol [] = 0"
| "remaining sol (t # ts) =
    (if chr_at t 0 = LF then Suc (remaining True ts)
     else if sol \<and> chr_at t 0 = CHR ''#'' then Suc (remaining sol ts)
     else remaining sol ts)"

lemma plain_defines_suffix:
  "plain_defines b (ts @ us) \<Longrightarrow> us = [] \<or> hd us \<noteq> ''#define'' \<Longrightarrow> plain_defines b' us"
proof (induction ts arbitrary: b)
  case Nil
  then show ?case by (cases us) auto
qed auto

lemma plain_defines_append:
  "plain_defines False us \<Longrightarrow> \<forall>t \<in> set ts. chr_at t 0 \<noteq> LF \<Longrightarrow> plain_defines False (ts @ us)"
  by (induction ts) auto

lemma remaining_False: "remaining False ts \<le> remaining True ts"
  by (induction ts) auto

lemma remaining_True: "remaining b ts \<le> remaining True ts"
  by (cases b) (simp_all add: remaining_False)

lemma remaining_suffix: "remaining True us \<le> remaining True (ts @ us)"
  by (induction ts) auto

lemma remaining_no_newlines: "\<forall>t \<in> set ts. chr_at t 0 \<noteq> LF \<Longrightarrow> remaining False (ts @ us) = remaining False us"
  by (induction ts) auto

lemma preprocess_unfold:
  "preprocess_loop sol = (\<lambda>st. (if macro_token st = None then ret () st
     else bindP cur (\<lambda>s.
       if sol \<and> chr_at s 0 = CHR ''#'' then bindP directive_line (\<lambda>_. preprocess_loop sol)
       else if chr_at s 0 = LF then bindP newline_step (\<lambda>_. preprocess_loop True)
       else bindP token_step (\<lambda>_. preprocess_loop False)) st))"
  by (rule ext) (rule preprocess_loop.simps)

lemma preprocess_at:
  "macro_token st = Some a \<Longrightarrow> preprocess_loop sol st = (let s = tl_s (heap st ! a) in
      (if sol \<and> chr_at s 0 = CHR ''#'' then bindP directive_line (\<lambda>_. preprocess_loop sol)
       else if chr_at s 0 = LF then bindP newline_step (\<lambda>_. preprocess_loop True)
       else bindP token_step (\<lambda>_. preprocess_loop False)) st)"
  by (subst preprocess_unfold) (simp add: cur_def bindP_assoc Let_def)

lemma newline_step_run:
  "macro_token st = Some a \<Longrightarrow>
   newline_step st = Some (Inr ((), st\<lparr>expand_depth := 0, macro_token := tl_next (heap st ! a)\<rparr>))"
  by (simp add: newline_step_def next_token_def exec)

definition startable :: "pp \<Rightarrow> bool \<Rightarrow> nat list \<Rightarrow> nat list \<Rightarrow> bool" where
  "startable st sol ks xs \<longleftrightarrow> \<not> FOLLOW_INCLUDES st \<and> plain_defines sol (texts (heap st) xs) \<and>
     (ks = [] \<longrightarrow> sol \<and> (\<forall>a ys. xs = a # ys \<longrightarrow> chr_at (tl_s (heap st ! a)) 0 \<in> {LF, CHR ''#''}))"

text \<open>After a directive, at the newline behind it or at the end, or rewound to the newline before \<open>y\<close>.\<close>

lemma directive_line_wp:
  assumes i: "wf_pp st mss ks (a # xs)" and s: "startable st True ks (a # xs)" and a: "chr_at (tl_s (heap st ! a)) 0 = CHR ''#''"
  shows "wp directive_line (\<lambda>_ st'.
     (\<exists>mss' ks' ys. wf_pp st' mss' ks' ys \<and> startable st' True ks' ys \<and> suffix ys xs \<and> keeps (heap st) (heap st')) \<or>
     (\<exists>mss' b ys. macro_token st' = Some b \<and> tl_s (heap st' ! b) = [LF] \<and>
        (let st'' = st'\<lparr>expand_depth := 0, macro_token := tl_next (heap st' ! b)\<rparr> in
          wf_pp st'' mss' ks ys \<and> startable st'' True ks ys \<and> suffix ys xs \<and> keeps (heap st) (heap st'')))) st"
    (is "wp _ (\<lambda>_. ?Q) st")
proof -
  have f: "\<not> FOLLOW_INCLUDES st" and pd: "plain_defines True (texts (heap st) (a # xs))"
    using s by (simp_all add: startable_def)
  have p: "no_parameters st (a # xs)" if "tl_s (heap st ! a) = ''#define''"
    using pd that by (auto simp: no_parameters_def)
  have short: "suffix ys xs" if "suffix ys (a # xs)" "length ys + 1 \<le> length (a # xs)" for ys
    using that by (auto simp: suffix_Cons)
  have pds: "plain_defines True (texts h ys)"
    if "suffix ys xs" "keeps (heap st) h" "\<And>y zs. ys = y # zs \<Longrightarrow> tl_s (h ! y) \<noteq> ''#define''" for ys h
  proof -
    have t: "texts h ys = texts (heap st) ys"
      by (rule inv_ahead_texts [OF i that(2)]) (use that(1) in \<open>simp add: suffix_ConsI\<close>)
    note sx = that(1)
    obtain zs where z: "xs = zs @ ys" using sx by (auto simp: suffix_def)
    have "plain_defines True (texts (heap st) (a # zs) @ texts h ys)" using pd unfolding z t by (simp add: texts_def)
    then show ?thesis by (rule plain_defines_suffix) (use that(3) in \<open>cases ys; simp\<close>)
  qed
  show ?thesis unfolding directive_line_def wp_bindP [of macro_directive]
  proof (rule wp_mono [OF macro_directive_wp [OF i a f p]])
    fix u st'
    assume "left_directive st ks (a # xs) st'"
    then consider (advanced) "advanced 1 st ks (a # xs) st'" | (rewound) "rewound 1 st ks (a # xs) st'"
      by (auto simp: left_directive_def)
    then show "wp (bindP (get macro_token) (\<lambda>p. if p = None then ret ()
        else bindP cur (\<lambda>s. require (chr_at s 0 = LF) Newline_Expected))) (\<lambda>_. ?Q) st'"
    proof cases
      case advanced
      then obtain mss' ks' ys where y: "suffix ys (a # xs)" "length ys + 1 \<le> length (a # xs)" "wf_pp st' mss' (ks @ ks') ys"
          "keeps (heap st) (heap st')" "FOLLOW_INCLUDES st' = FOLLOW_INCLUDES st"
        unfolding advanced_def by blast
      have Q: "?Q st'" if "\<And>b zs. ys = b # zs \<Longrightarrow> chr_at (tl_s (heap st' ! b)) 0 = LF"
      proof -
        have "plain_defines True (texts (heap st') ys)" using short [OF y(1,2)] y(4) by (rule pds) (use that in auto)
        then have "startable st' True (ks @ ks') ys" using f y(5) that by (simp add: startable_def)
        then show ?thesis using y(3,4) short [OF y(1,2)] by blast
      qed
      show ?thesis
      proof (cases ys)
        case Nil
        then have "macro_token st' = None" using y(3) by (simp add: inv_for_def)
        then show ?thesis using Q Nil by (simp add: wp_simps)
      next
        case (Cons b zs)
        then show ?thesis using Q inv_current(1) [of "macro_env st'" st' mss' "ks @ ks'" b zs] y(3)
          by (simp add: wp_simps cur_wp [OF y(3)])
      qed
    next
      case rewound
      then obtain mss' b y ys where y: "suffix (y # ys) (a # xs)" "length (y # ys) + 1 \<le> length (a # xs)"
          "ends_block (tl_s (heap st' ! y))" "macro_token st' = Some b" "tl_s (heap st' ! b) = [LF]" "tl_next (heap st' ! b) = Some y"
          "wf_pp (st'\<lparr>macro_token := Some y\<rparr>) mss' ks (y # ys)" "keeps (heap st) (heap st')"
          "FOLLOW_INCLUDES st' = FOLLOW_INCLUDES st"
        by (rule rewoundE)
      have e: "tl_s (heap st' ! y) \<noteq> ''#define''" "chr_at (tl_s (heap st' ! y)) 0 = CHR ''#''"
        using y(3) by auto
      have "plain_defines True (texts (heap st') (y # ys))" using short [OF y(1,2)] y(8) by (rule pds) (use e in auto)
      then have "startable (st'\<lparr>expand_depth := 0, macro_token := Some y\<rparr>) True ks (y # ys)"
        using f y(9) e by (simp add: startable_def)
      moreover have "wf_pp (st'\<lparr>expand_depth := 0, macro_token := Some y\<rparr>) mss' ks (y # ys)"
        using y(7) by (simp add: inv_for_def)
      ultimately have "?Q st'" using short [OF y(1,2)] y(4,5,6,8) by (auto simp: Let_def)
      then show ?thesis by (simp add: wp_simps y(4,5) cur_def)
    qed
  qed
qed

lemma wp_cong: "m st = m' st \<Longrightarrow> wp m' Q st \<Longrightarrow> wp m Q st"
  by (simp add: wp_def)

lemma wf_steps: "wf (less_than <*lex*> less_than <*lex*> less_than)"
  by auto

lemma preprocess_loop_wp:
  assumes "wf_pp st mss ks xs" "startable st sol ks xs"
  shows "wp (preprocess_loop sol) (\<lambda>_ st'. \<exists>mss' ks'. wf_pp st' mss' ks' []) st"
  using assms
proof (induction "(remaining sol (texts (heap st) xs), nat (MAX_EXPANSIONS + 1 - expand_depth st), length xs)"
    arbitrary: sol st mss ks xs rule: wf_induct_rule [OF wf_steps])
  case 1
  note i = 1(2) and s = 1(3)
  have IH: "wp (preprocess_loop sol') (\<lambda>_ st'. \<exists>mss' ks'. wf_pp st' mss' ks' []) st'"
    if "wf_pp st' mss' ks' ys" "startable st' sol' ks' ys"
      "remaining sol' (texts (heap st') ys) < remaining sol (texts (heap st) xs) \<or>
       remaining sol' (texts (heap st') ys) \<le> remaining sol (texts (heap st) xs) \<and>
       (expand_depth st' = expand_depth st + 1 \<and> expand_depth st' \<le> MAX_EXPANSIONS \<or>
        expand_depth st' = expand_depth st \<and> length ys < length xs)" for sol' st' mss' ks' ys
    by (rule 1(1) [OF _ that(1,2)]) (use that(3) in auto)
  show ?case
  proof (cases xs)
    case Nil
    then have "macro_token st = None" using i by (simp add: inv_for_def)
    then have "preprocess_loop sol st = Some (Inr ((), st))" by (subst preprocess_unfold) (simp add: exec)
    then show ?thesis using i Nil by (auto simp: wp_run)
  next
    case (Cons a ys)
    note i = i [unfolded Cons] and s = s [unfolded Cons]
    note c = inv_current(1) [OF i]
    let ?s = "tl_s (heap st ! a)"
    let ?run = "if sol \<and> chr_at ?s 0 = CHR ''#'' then bindP directive_line (\<lambda>_. preprocess_loop sol)
       else if chr_at ?s 0 = LF then bindP newline_step (\<lambda>_. preprocess_loop True)
       else bindP token_step (\<lambda>_. preprocess_loop False)"
    have at: "preprocess_loop sol st = ?run st"
      using preprocess_at [OF c] by (simp only: Let_def)
    have ahead: "texts h zs = texts (heap st) zs" if "keeps (heap st) h" "suffix zs ys" for h zs
      by (rule inv_ahead_texts [OF i that(1)]) (use that(2) in \<open>simp add: suffix_ConsI\<close>)
    have w: "remaining True (texts h zs) \<le> remaining True (texts (heap st) ys)" if "keeps (heap st) h" "suffix zs ys" for h zs
    proof -
      note same = ahead [OF that] and sx = that(2)
      obtain us where "ys = us @ zs" using sx by (rule suffixE)
      then have "texts (heap st) ys = texts (heap st) us @ texts h zs" using same by (simp add: texts_def)
      then show ?thesis by (simp only: remaining_suffix)
    qed
    show ?thesis
    proof (rule wp_cong [where m = "preprocess_loop sol" and m' = ?run, OF at], intro wp_ifI)
      assume d: "sol \<and> chr_at ?s 0 = CHR ''#''"
      have less_weight: "remaining True (texts (heap st) ys) < remaining sol (texts (heap st) xs)" using d by (simp add: Cons)
      show "wp (bindP directive_line (\<lambda>_. preprocess_loop sol)) (\<lambda>_ st'. \<exists>mss' ks'. wf_pp st' mss' ks' []) st"
        unfolding wp_bindP
      proof (rule wp_mono [OF directive_line_wp [OF i]], goal_cases)
        case (3 u st')
        from 3 show ?case
        proof (elim disjE exE conjE)
          fix mss' ks' zs
          assume z: "wf_pp st' mss' ks' zs" "startable st' True ks' zs" "suffix zs ys" "keeps (heap st) (heap st')"
          then have "wp (preprocess_loop True) (\<lambda>_ st'. \<exists>mss' ks'. wf_pp st' mss' ks' []) st'"
            using less_weight w [OF z(4,3)] by (intro IH) auto
          then show ?thesis using d by simp
        next
          fix mss' b zs
          let ?st = "st'\<lparr>expand_depth := 0, macro_token := tl_next (heap st' ! b)\<rparr>"
          assume b: "macro_token st' = Some b" "tl_s (heap st' ! b) = [LF]" and z: "let st'' = ?st in wf_pp st'' mss' ks zs \<and>
            startable st'' True ks zs \<and> suffix zs ys \<and> keeps (heap st) (heap st'')"
          then have z: "wf_pp ?st mss' ks zs" "startable ?st True ks zs" "suffix zs ys" "keeps (heap st) (heap ?st)"
            by (simp_all only: Let_def)
          have "wp (preprocess_loop True) (\<lambda>_ st'. \<exists>mss' ks'. wf_pp st' mss' ks' []) ?st"
            using less_weight w [OF z(4,3)] by (intro IH [OF z(1,2)]) auto
          moreover have "preprocess_loop sol st' = preprocess_loop True ?st"
            using d b(2) preprocess_at [OF b(1)] bindP_run [where m = newline_step, OF newline_step_run [OF b(1)]] by simp
          ultimately show ?thesis by (simp only: wp_def)
        qed
      qed (use s d in auto)
    next
      assume n: "\<not> (sol \<and> chr_at ?s 0 = CHR ''#'')" "chr_at ?s 0 = LF"
      show "wp (bindP newline_step (\<lambda>_. preprocess_loop True)) (\<lambda>_ st'. \<exists>mss' ks'. wf_pp st' mss' ks' []) st"
        unfolding wp_bindP wp_run [where m = newline_step, OF newline_step_run [OF c]]
      proof (rule IH)
        let ?st = "st\<lparr>expand_depth := 0, macro_token := tl_next (heap st ! a)\<rparr>"
        show "wf_pp ?st mss (ks @ [a]) ys" using next_token_run(2) [OF i] inv_current(2) [OF i] by (simp add: inv_for_def)
        show "startable ?st True (ks @ [a]) ys" using s n by (simp add: startable_def)
      qed (use n in \<open>simp add: Cons\<close>)
    next
      assume n: "\<not> (sol \<and> chr_at ?s 0 = CHR ''#'')" "chr_at ?s 0 \<noteq> LF"
      show "wp (bindP token_step (\<lambda>_. preprocess_loop False)) (\<lambda>_ st'. \<exists>mss' ks'. wf_pp st' mss' ks' []) st"
        unfolding wp_bindP
      proof (rule wp_mono [OF token_step_wp [OF i]], goal_cases)
        case 1
        then show ?case using s n by (auto simp: startable_def)
      next
        case (2 u st')
        then obtain mss' ks' cs where e: "wf_pp st' mss' ks' (cs @ ys)" "ks' \<noteq> []" "no_newlines (heap st') cs"
            "texts (heap st') ys = texts (heap st) ys" "FOLLOW_INCLUDES st' = FOLLOW_INCLUDES st"
            "cs = [] \<and> expand_depth st' = expand_depth st \<or>
             expand_depth st' = expand_depth st + 1 \<and> expand_depth st' \<le> MAX_EXPANSIONS"
          unfolding expanded_def by auto
        have t: "texts (heap st') (cs @ ys) = texts (heap st') cs @ texts (heap st) ys" using e(4) by (simp add: texts_def)
        have l: "\<forall>x \<in> set (texts (heap st') cs). chr_at x 0 \<noteq> LF" using e(3) by (simp add: no_newlines_def texts_def)
        have w: "remaining False (texts (heap st') (cs @ ys)) \<le> remaining sol (texts (heap st) xs)"
          unfolding t remaining_no_newlines [OF l] Cons using n by (cases sol) (simp_all add: remaining_False)
        have "plain_defines False (texts (heap st) ys)" using s n by (simp add: startable_def)
        then have "plain_defines False (texts (heap st') (cs @ ys))" unfolding t using l by (rule plain_defines_append)
        then have "startable st' False ks' (cs @ ys)" using s e(2,5) by (simp add: startable_def)
        then show ?case using e(1,6) w by (intro IH [OF e(1)]) (auto simp: Cons)
      qed
    qed
  qed
qed

end
