(* ===== verification/CcMacroValue.thy ===== *)
theory CcMacroValue
  imports CcMacroTotal
begin

text \<open>
  What the evaluator of \<open>#if\<close> computes. The tokens of an expression are the leaves of a tree, and the
  result is the value of the tree. All operators of a level have the same precedence and associate
  to the right: the levels are + - * / % << >>, the comparisons, and & && | || ^. With every operation in parentheses
  that is the value C gives. A name that is a macro stands for the word that its replacement begins
  with, again and again, 65 times at most.
\<close>

section \<open>Tokens that are eaten\<close>

text \<open>
  The tokens \<open>ts\<close> are ahead; \<open>ks\<close> are behind. The nodes \<open>F\<close> are in neither of them, and nothing
  that is eaten changes them.
\<close>

definition ahead_of :: "nat set \<Rightarrow> pp \<Rightarrow> nat list \<Rightarrow> string list \<Rightarrow> bool" where
  "ahead_of F st ks ts \<longleftrightarrow> (\<exists>xs. inv_for [] st [] ks xs \<and> texts (heap st) xs = ts \<and> F \<inter> set (ks @ xs) = {})"

definition kept :: "nat set \<Rightarrow> pp \<Rightarrow> pp \<Rightarrow> bool" where
  "kept F st st' \<longleftrightarrow> macro_env st' = macro_env st \<and> (\<forall>b \<in> F. heap st' ! b = heap st ! b)"

definition gives_of :: "nat set \<Rightarrow> 'a run \<Rightarrow> pp \<Rightarrow> nat list \<Rightarrow> pp_error + 'a \<Rightarrow> string list \<Rightarrow> bool" where
  "gives_of F m st ks r us \<longleftrightarrow>
     (case r of
        Inl e \<Rightarrow> m st = Some (Inl e)
      | Inr v \<Rightarrow> \<exists>st'. m st = Some (Inr (v, st')) \<and> ahead_of F st' ks us \<and> kept F st st')"

abbreviation ahead :: "pp \<Rightarrow> nat list \<Rightarrow> string list \<Rightarrow> bool" where
  "ahead \<equiv> ahead_of {}"

abbreviation gives :: "'a run \<Rightarrow> pp \<Rightarrow> nat list \<Rightarrow> pp_error + 'a \<Rightarrow> string list \<Rightarrow> bool" where
  "gives \<equiv> gives_of {}"

lemma kept_refl [simp]: "kept F st st"
  by (simp add: kept_def)

lemma kept_empty [simp]: "kept {} st st' \<longleftrightarrow> macro_env st' = macro_env st"
  by (simp add: kept_def)

lemma kept_trans: "kept F a b \<Longrightarrow> kept F b c \<Longrightarrow> kept F a c"
  by (simp add: kept_def)

lemma ahead_def: "ahead st ks ts \<longleftrightarrow> (\<exists>xs. inv_for [] st [] ks xs \<and> texts (heap st) xs = ts)"
  by (simp add: ahead_of_def)

lemma gives_def:
  "gives m st ks r us \<longleftrightarrow>
     (case r of
        Inl e \<Rightarrow> m st = Some (Inl e)
      | Inr v \<Rightarrow> \<exists>st'. m st = Some (Inr (v, st')) \<and> ahead st' ks us \<and> macro_env st' = macro_env st)"
  by (simp add: gives_of_def split: sum.split)

lemma gives_ret: "ahead_of F st ks us \<Longrightarrow> gives_of F (ret v) st ks (Inr v) us"
  by (simp add: gives_of_def exec)

lemma gives_bindP:
  assumes "gives_of F m st ks r ts"
    and "\<And>v st'. r = Inr v \<Longrightarrow> ahead_of F st' ks ts \<Longrightarrow> kept F st st' \<Longrightarrow> gives_of F (f v) st' ks (g v) us"
  shows "gives_of F (bindP m f) st ks (bindE r g) us"
proof (cases r)
  case (Inl e)
  then show ?thesis using assms(1) by (simp add: gives_of_def bindP_def)
next
  case (Inr v)
  then obtain st' where s: "m st = Some (Inr (v, st'))" "ahead_of F st' ks ts" "kept F st st'"
    using assms(1) by (auto simp: gives_of_def)
  then have "gives_of F (f v) st' ks (g v) us" using assms(2) Inr by blast
  then show ?thesis using s Inr by (auto simp: gives_of_def bindP_def split: sum.splits intro: kept_trans)
qed

lemma ahead_cur: "ahead_of F st ks (t # ts) \<Longrightarrow> cur st = Some (Inr (t, st))"
  by (auto simp: ahead_of_def texts_def cur_Cons)

lemma ahead_token: "ahead_of F st ks (t # ts) \<Longrightarrow> \<exists>a. macro_token st = Some a \<and> tl_s (heap st ! a) = t"
  by (auto simp: ahead_of_def texts_def dest!: inv_current(1))

lemma gives_cur: "ahead_of F st ks (t # ts) \<Longrightarrow> gives_of F (bindP cur f) st ks r us = gives_of F (f t) st ks r us"
  by (simp add: gives_of_def bindP_def ahead_cur split: sum.splits)

lemma gives_not_eof: "ahead_of F st ks (t # ts) \<Longrightarrow> gives_of F (bindP not_eof f) st ks r us = gives_of F (f ()) st ks r us"
  using ahead_token [of F st ks t ts] by (auto simp: gives_of_def not_eof_def bindP_def get_def exec split: sum.splits)

lemma gives_eat:
  assumes "ahead_of F st ks (t # ts)" "\<And>st'. ahead_of F st' ks ts \<Longrightarrow> kept F st st' \<Longrightarrow> gives_of F (f ()) st' ks r us"
  shows "gives_of F (bindP eat_current_token f) st ks r us"
proof -
  obtain a xs where i: "inv_for [] st [] ks (a # xs)" and t: "texts (heap st) xs = ts" and d: "F \<inter> set (ks @ a # xs) = {}"
    using assms(1) by (auto simp: ahead_of_def texts_def)
  obtain st' where s: "eat_current_token st = Some (Inr ((), st'))" "inv_for [] st' [] ks xs" "keeps (heap st) (heap st')"
      "macro_env st' = macro_env st" "\<forall>b. b \<notin> set (ks @ xs) \<longrightarrow> heap st' ! b = heap st ! b"
    using eat_current_run [OF i] by auto
  have k: "kept F st st'" using s(4,5) d by (auto simp: kept_def)
  have "texts (heap st') xs = ts" using t inv_bounds [OF i] keeps_texts [OF s(3), of xs] by auto
  then have "gives_of F (f ()) st' ks r us" using s(2) k d by (intro assms(2)) (auto simp: ahead_of_def)
  then show ?thesis using k
    by (auto simp: gives_of_def bindP_def [where m = eat_current_token] s(1) split: sum.splits intro: kept_trans)
qed

section \<open>The words that macros stand for\<close>

text \<open>
  What the evaluator sees of the table: for a name that is a macro, the first word of its replacement,
  if there is one, and whether it is the only word.
\<close>

type_synonym replacements = "string \<Rightarrow> (string \<times> bool) option option"

definition table :: "pp \<Rightarrow> replacements" where
  "table st s = map_option (\<lambda>(i, m). map_option (\<lambda>a. (tl_s (heap st ! a), tl_next (heap st ! a) = None)) (mac_expansion m))
     (find_macro s (macro_env st))"

text \<open>The nodes in which the replacements begin.\<close>

definition heads :: "pp \<Rightarrow> nat set" where
  "heads st = {a. \<exists>m \<in> set (macro_env st). mac_expansion m = Some a}"

definition no_special :: "pp \<Rightarrow> bool" where
  "no_special st \<longleftrightarrow> (\<forall>a \<in> heads st. tl_s (heap st ! a) \<notin> {''__LINE__'', ''__FILE__''})"

text \<open>The word at the head of the replacement; a word that has none is its own.\<close>

definition next_word :: "replacements \<Rightarrow> string \<Rightarrow> string" where
  "next_word D s = (case D s of Some (Some (t, _)) \<Rightarrow> t | _ \<Rightarrow> s)"

text \<open>The value of a name, and the error when there is no word left on the way.\<close>

definition name_value :: "replacements \<Rightarrow> string \<Rightarrow> pp_error + u32" where
  "name_value D s =
    (if D s = None then Inr 0
     else if D ((next_word D ^^ 64) s) = Some None then Inl Null_Expansion
     else Inr (strtoint ((next_word D ^^ 65) s)))"

lemma table_None: "table st s = None \<longleftrightarrow> find_macro s (macro_env st) = None"
  by (simp add: table_def)

lemma find_macro_head: "find_macro s env = Some (i, m) \<Longrightarrow> m \<in> set env \<and> mac_symbol m = s"
  by (induction env) (auto split: if_splits)

lemma find_macro_index:
  "find_macro s env = Some (i, m) \<Longrightarrow> find_macro t env = Some (i, m') \<Longrightarrow> s = t"
proof (induction env)
  case (Cons h env)
  have "i < length env" if "find_macro u env = Some (i, w)" for u w
    using that by (induction env) (auto split: if_splits)
  then show ?case using Cons by (auto split: if_splits)
qed simp

lemma table_kept: "kept F st st' \<Longrightarrow> heads st \<subseteq> F \<Longrightarrow> table st' = table st \<and> heads st' = heads st"
  by (rule conjI, rule ext)
    (auto simp: kept_def table_def heads_def subset_iff dest!: find_macro_head split: option.splits intro!: map_option_cong)

lemma no_special_kept: "kept F st st' \<Longrightarrow> heads st \<subseteq> F \<Longrightarrow> no_special st' = no_special st"
  by (auto simp: kept_def no_special_def heads_def subset_iff)

text \<open>The walk of \<open>macro_variable\<close>.\<close>

lemma next_word_fix: "next_word D s = s \<Longrightarrow> (next_word D ^^ n) s = s"
  by (induction n) simp_all

lemma funpow_next: "(f ^^ Suc n) x = (f ^^ n) (f x)"
  by (simp only: funpow_Suc_right comp_apply)

abbreviation walk_end :: "nat \<Rightarrow> nat \<times> macro \<Rightarrow> u32 run" where
  "walk_end n hold \<equiv> bindP (variable_loop n hold) (\<lambda>hold. bindP (node_at (mac_expansion hold)) (\<lambda>tok. ret (strtoint (tl_s tok))))"

abbreviation walk_value :: "nat \<Rightarrow> pp \<Rightarrow> string \<Rightarrow> (pp_error + u32 \<times> pp) option" where
  "walk_value n st s \<equiv>
    (if table st ((next_word (table st) ^^ n) s) = Some None then Some (Inl Null_Expansion)
     else Some (Inr (strtoint ((next_word (table st) ^^ Suc n) s), st)))"

lemma lookup_plain:
  assumes "no_special st" "find_macro s (macro_env st) = Some (i, m)" "mac_expansion m = Some a"
  shows "lookup_macro (Some a) st = Some (Inr (find_macro (tl_s (heap st ! a)) (macro_env st), st))"
proof -
  have "a \<in> heads st" using find_macro_head [OF assms(2)] assms(3) by (auto simp: heads_def)
  then show ?thesis using assms(1) by (auto simp: no_special_def lookup_macro_def get_def)
qed

lemma variable_step:
  assumes "no_special st" "find_macro s (macro_env st) = Some (i, m)"
    and "n = 0 \<or> (\<exists>k. n = Suc k \<and> (\<forall>t j m'. find_macro t (macro_env st) = Some (j, m') \<longrightarrow> walk_end k (j, m') st = walk_value k st t))"
  shows "walk_end n (i, m) st = walk_value n st s"
proof (cases "mac_expansion m")
  case None
  then have "table st s = Some None" using assms(2) by (simp add: table_def)
  then show ?thesis using None
    by (simp add: variable_loop.simps next_word_fix next_word_def bindP_def fail_def)
next
  case (Some a)
  let ?t = "tl_s (heap st ! a)" and ?D = "table st"
  note l = lookup_plain [OF assms(1,2) Some]
  have D: "?D s = Some (Some (?t, tl_next (heap st ! a) = None))" using assms(2) Some by (simp add: table_def)
  then have nx: "next_word ?D s = ?t" by (simp add: next_word_def)
  have run: "walk_end n (i, m) st =
     (case find_macro ?t (macro_env st) of
        None \<Rightarrow> Some (Inr (strtoint ?t, st))
      | Some nxt \<Rightarrow> if fst nxt = i then Some (Inr (strtoint ?t, st))
          else (case n of 0 \<Rightarrow> Some (Inr (strtoint ?t, st)) | Suc n \<Rightarrow> walk_end n nxt st))"
    using Some l by (subst variable_loop.simps) (auto simp: bindP_assoc bindP_run [where m = "lookup_macro _", OF l]
      exec split: option.split nat.split)
  show ?thesis
  proof (cases "find_macro ?t (macro_env st)")
    case None
    then have "next_word ?D ?t = ?t" "?D ?t = None" by (simp_all add: next_word_def table_def)
    then show ?thesis using run None D nx next_word_fix [of ?D ?t] by (cases n) (simp_all add: funpow_next del: funpow.simps(2))
  next
    case F: (Some nxt)
    obtain j m' where n: "nxt = (j, m')" by fastforce
    show ?thesis
    proof (cases "j = i")
      case True
      then have "s = ?t" using find_macro_index [OF assms(2)] F n by blast
      then show ?thesis using run F n True D nx next_word_fix [of ?D s] by (simp add: funpow_next del: funpow.simps(2))
    next
      case False
      then show ?thesis
      proof (cases n)
        case 0
        then show ?thesis using run F n False D nx by simp
      next
        case (Suc k)
        then have "walk_end k (j, m') st = walk_value k st ?t" using assms(3) F n by auto
        then show ?thesis using run F n False Suc nx by (simp add: funpow_next del: funpow.simps(2))
      qed
    qed
  qed
qed

lemma variable_loop_run:
  assumes "no_special st" "find_macro s (macro_env st) = Some (i, m)"
  shows "walk_end n (i, m) st = walk_value n st s"
  using assms(2)
proof (induction n arbitrary: s i m)
  case (0 s i m)
  show ?case by (rule variable_step [OF assms(1) 0]) simp_all
next
  case (Suc n s i m)
  show ?case by (rule variable_step [OF assms(1) Suc.prems]) (use Suc.IH in simp_all)
qed

section \<open>Trees\<close>

datatype tree =
    Number string
  | Name string
  | Defined bool string
  | Minus tree
  | Negation tree
  | Parens tree
  | Op string tree tree

fun leaves :: "tree \<Rightarrow> string list" where
  "leaves (Number s) = [s]"
| "leaves (Name s) = [s]"
| "leaves (Defined b s) = (if b then [''defined'', ''('', s, '')''] else [''defined'', s])"
| "leaves (Minus t) = ''-'' # leaves t"
| "leaves (Negation t) = ''!'' # leaves t"
| "leaves (Parens t) = ''('' # leaves t @ ['')'']"
| "leaves (Op s l r) = leaves l @ s # leaves r"

definition op_level :: "string \<Rightarrow> level option" where
  "op_level s =
    (if s \<in> {''+'', ''-'', ''*'', ''/'', ''%'', ''>>'', ''<<''} then Some Additive
     else if s \<in> {''<'', ''<='', ''>='', ''>'', ''=='', ''!=''} then Some Relational
     else if s \<in> {''&'', ''&&'', ''|'', ''||'', ''^''} then Some Bitwise
     else None)"

fun below :: "level \<Rightarrow> level" where
  "below Primary = Primary" | "below Additive = Primary" | "below Relational = Additive" | "below Bitwise = Relational"

definition plain_name :: "string \<Rightarrow> bool" where
  "plain_name s \<longleftrightarrow> in_set (chr_at s 0) letters \<and> s \<notin> {''defined'', ''__LINE__'', ''__FILE__''}"

text \<open>The trees the recursive descent builds at a level.\<close>

fun tree_at :: "replacements \<Rightarrow> level \<Rightarrow> tree \<Rightarrow> bool" where
  "tree_at D lev (Number s) \<longleftrightarrow> in_set (chr_at s 0) ''0123456789''"
| "tree_at D lev (Name s) \<longleftrightarrow> plain_name s"
| "tree_at D lev (Defined b s) \<longleftrightarrow> plain_name s"
| "tree_at D lev (Minus t) \<longleftrightarrow> tree_at D Primary t"
| "tree_at D lev (Negation t) \<longleftrightarrow> tree_at D Primary t"
| "tree_at D lev (Parens t) \<longleftrightarrow> tree_at D Bitwise t"
| "tree_at D lev (Op s l r) \<longleftrightarrow>
    (case op_level s of
       None \<Rightarrow> False
     | Some k \<Rightarrow> rank k \<le> rank lev \<and> tree_at D (below k) l \<and> tree_at D k r)"

text \<open>The operators on 32-bit integers in two's complement.\<close>

definition apply_op :: "string \<Rightarrow> u32 \<Rightarrow> u32 \<Rightarrow> pp_error + u32" where
  "apply_op s l r =
    (if s = ''+'' then Inr (l + r) else if s = ''-'' then Inr (l - r) else if s = ''*'' then Inr (l * r)
     else if s = ''/'' \<or> s = ''%'' then
       if r = 0 then Inl Divide_By_Zero
       else if sint l = - (2 ^ 31) \<and> sint r = -1 then Inl Undefined_In_C
       else Inr (word_of_int (if s = ''/'' then sint l sdiv sint r else sint l smod sint r))
     else if s = ''>>'' \<or> s = ''<<'' then
       if sint r < 0 \<or> 31 < sint r then Inl Undefined_In_C
       else Inr (if s = ''>>'' then signed_drop_bit (nat (sint r)) l else push_bit (nat (sint r)) l)
     else if s = ''<'' then Inr (of_bool (sint l < sint r)) else if s = ''<='' then Inr (of_bool (sint l \<le> sint r))
     else if s = ''>='' then Inr (of_bool (sint r \<le> sint l)) else if s = ''>'' then Inr (of_bool (sint r < sint l))
     else if s = ''=='' then Inr (of_bool (l = r)) else if s = ''!='' then Inr (of_bool (l \<noteq> r))
     else if s = ''&'' then Inr (l AND r) else if s = ''&&'' then Inr (of_bool (l \<noteq> 0 \<and> r \<noteq> 0))
     else if s = ''|'' then Inr (l OR r) else if s = ''||'' then Inr (of_bool (l \<noteq> 0 \<or> r \<noteq> 0))
     else Inr (l XOR r))"

fun tree_value :: "replacements \<Rightarrow> tree \<Rightarrow> pp_error + u32" where
  "tree_value D (Number s) = Inr (strtoint s)"
| "tree_value D (Name s) = name_value D s"
| "tree_value D (Defined b s) = Inr (of_bool (D s \<noteq> None))"
| "tree_value D (Minus t) = bindE (tree_value D t) (\<lambda>v. Inr (- v))"
| "tree_value D (Negation t) = bindE (tree_value D t) (\<lambda>v. Inr (of_bool (v = 0)))"
| "tree_value D (Parens t) = tree_value D t"
| "tree_value D (Op s l r) = bindE (tree_value D l) (\<lambda>v. bindE (tree_value D r) (apply_op s v))"

text \<open>A token that ends an expression of a level.\<close>

definition stops :: "level \<Rightarrow> string \<Rightarrow> bool" where
  "stops lev u \<longleftrightarrow> (\<forall>k. op_level u = Some k \<longrightarrow> rank lev < rank k)"

section \<open>The evaluator\<close>

lemma level_op:
  "additive_op s = (if op_level s = Some Additive then Some (\<lambda>l r. lift (apply_op s l r)) else None)"
  "relational_op s = (if op_level s = Some Relational then Some (\<lambda>l r. lift (apply_op s l r)) else None)"
  "bitwise_op s = (if op_level s = Some Bitwise then Some (\<lambda>l r. lift (apply_op s l r)) else None)"
  by (auto simp: additive_op.simps relational_op.simps bitwise_op.simps op_level_def apply_op_def divide_by_def shift_by_def
      fun_eq_iff)

lemma gives_lift: "ahead_of F st ks us \<Longrightarrow> gives_of F (lift r) st ks r us"
  by (cases r) (simp_all add: gives_of_def exec)

lemma gives_lookup:
  assumes "ahead_of F st ks (t # ts)" "plain_name t"
  shows "gives_of F (bindP (get macro_token) (\<lambda>p. bindP (lookup_macro p) f)) st ks r us =
    gives_of F (f (find_macro t (macro_env st))) st ks r us"
proof -
  obtain a where a: "macro_token st = Some a" "tl_s (heap st ! a) = t" using ahead_token [OF assms(1)] by blast
  have "lookup_macro (Some a) st = Some (Inr (find_macro t (macro_env st), st))"
    using assms(2) a(2) by (simp add: lookup_macro_def plain_name_def get_def)
  then show ?thesis using a(1) by (simp add: gives_of_def bindP_def [where m = "lookup_macro _"] split: sum.splits)
qed

lemma gives_defined:
  assumes "ahead_of F st ks (leaves (Defined b s) @ u # us)" "plain_name s" and v: "v = of_bool (find_macro s (macro_env st) \<noteq> None)"
  shows "gives_of F macro_defined st ks (Inr v) (u # us)"
proof (cases b)
  case True
  show ?thesis unfolding macro_defined_def
  proof (rule gives_eat, use assms(1) True in simp)
    fix st1
    assume 1: "ahead_of F st1 ks (''('' # s # '')'' # u # us)" "kept F st st1"
    have "gives_of F (bindP (get macro_token) (\<lambda>p. bindP (lookup_macro p) (\<lambda>r. bindP eat_current_token (\<lambda>_.
        bindP (bindP not_eof (\<lambda>_. bindP cur (\<lambda>s. bindP (require (chr_at s 0 = CHR '')'') Missing_Paren) (\<lambda>_. eat_current_token))))
          (\<lambda>_. ret (of_bool (r \<noteq> None))))))) st2 ks (Inr v) (u # us)"
      if 2: "ahead_of F st2 ks (s # '')'' # u # us)" "kept F st1 st2" for st2
      unfolding gives_lookup [OF 2(1) assms(2)]
    proof (rule gives_eat [OF 2(1)])
      fix st3
      assume 3: "ahead_of F st3 ks ('')'' # u # us)"
      show "gives_of F (bindP (bindP not_eof (\<lambda>_. bindP cur (\<lambda>s. bindP (require (chr_at s 0 = CHR '')'') Missing_Paren) (\<lambda>_. eat_current_token))))
          (\<lambda>_. ret (of_bool (find_macro s (macro_env st2) \<noteq> None)))) st3 ks (Inr v) (u # us)"
        using 1(2) 2(2) 3 v [symmetric] unfolding kept_def
        by (auto simp: bindP_assoc gives_not_eof [OF 3] gives_cur [OF 3] intro!: gives_eat [OF 3] gives_ret)
    qed
    then show "gives_of F (bindP not_eof (\<lambda>_. bindP cur (\<lambda>s.
      let defined_has_paren = (chr_at s 0 = CHR ''('') in
      bindP (if defined_has_paren then eat_current_token else ret ()) (\<lambda>_.
      bindP (get macro_token) (\<lambda>p. bindP (lookup_macro p) (\<lambda>r. bindP eat_current_token (\<lambda>_.
      bindP (if defined_has_paren
           then bindP not_eof (\<lambda>_. bindP cur (\<lambda>s. bindP (require (chr_at s 0 = CHR '')'') Missing_Paren) (\<lambda>_. eat_current_token)))
           else ret ()) (\<lambda>_. ret (of_bool (r \<noteq> None)))))))))) st1 ks (Inr v) (u # us)"
      by (simp add: gives_not_eof [OF 1(1)] gives_cur [OF 1(1)]) (rule gives_eat [OF 1(1)], simp)
  qed
next
  case False
  show ?thesis unfolding macro_defined_def
  proof (rule gives_eat, use assms(1) False in simp)
    fix st1
    assume 1: "ahead_of F st1 ks (s # u # us)" "kept F st st1"
    have "chr_at s 0 \<noteq> CHR ''(''" using assms(2) by (auto simp: plain_name_def in_set_iff)
    then show "gives_of F (bindP not_eof (\<lambda>_. bindP cur (\<lambda>s.
      let defined_has_paren = (chr_at s 0 = CHR ''('') in
      bindP (if defined_has_paren then eat_current_token else ret ()) (\<lambda>_.
      bindP (get macro_token) (\<lambda>p. bindP (lookup_macro p) (\<lambda>r. bindP eat_current_token (\<lambda>_.
      bindP (if defined_has_paren
           then bindP not_eof (\<lambda>_. bindP cur (\<lambda>s. bindP (require (chr_at s 0 = CHR '')'') Missing_Paren) (\<lambda>_. eat_current_token)))
           else ret ()) (\<lambda>_. ret (of_bool (r \<noteq> None)))))))))) st1 ks (Inr v) (u # us)"
      using 1(2) v [symmetric] unfolding kept_def by (auto simp: gives_not_eof [OF 1(1)] gives_cur [OF 1(1)] gives_lookup [OF 1(1) assms(2)]
          simp del: exec_bind intro!: gives_eat [OF 1(1)] gives_ret)
  qed
qed

lemma gives_variable:
  assumes "ahead_of F st ks (s # u # us)" "plain_name s" "no_special st"
  shows "gives_of F macro_variable st ks (name_value (table st) s) (u # us)"
  unfolding macro_variable_def gives_lookup [OF assms(1,2)]
proof (cases "find_macro s (macro_env st)")
  case None
  then show "gives_of F (bindP (case find_macro s (macro_env st) of None \<Rightarrow> ret 0
      | Some hold \<Rightarrow> walk_end 64 hold) (\<lambda>val. bindP eat_current_token (\<lambda>_. ret val)))
      st ks (name_value (table st) s) (u # us)"
    by (auto simp: name_value_def table_None intro!: gives_eat [OF assms(1)] gives_ret)
next
  case (Some hold)
  obtain i m where h: "hold = (i, m)" by fastforce
  note w = variable_loop_run [OF assms(3) Some [unfolded h], of 64]
  have n: "table st s \<noteq> None" using Some by (simp add: table_None)
  show "gives_of F (bindP (case find_macro s (macro_env st) of None \<Rightarrow> ret 0
      | Some hold \<Rightarrow> walk_end 64 hold) (\<lambda>val. bindP eat_current_token (\<lambda>_. ret val)))
      st ks (name_value (table st) s) (u # us)"
  proof (cases "table st ((next_word (table st) ^^ 64) s) = Some None")
    case True
    then have "walk_end 64 hold st = Some (Inl Null_Expansion)" using w h by simp
    then show ?thesis using True n Some by (simp add: name_value_def gives_of_def bindP_def [where m = "bindP _ _"])
  next
    case False
    let ?v = "strtoint ((next_word (table st) ^^ 65) s)"
    have "walk_end 64 hold st = Some (Inr (?v, st))" using w h False by (simp del: funpow.simps)
    moreover have "gives_of F (bindP eat_current_token (\<lambda>_. ret ?v)) st ks (Inr ?v) (u # us)"
      by (rule gives_eat [OF assms(1)]) (rule gives_ret)
    moreover have "name_value (table st) s = Inr ?v" using False n by (auto simp: name_value_def)
    ultimately show ?thesis using Some
      by (simp add: gives_of_def bindP_run [where m = "bindP _ _"] split: sum.splits del: funpow.simps)
  qed
qed

lemma gives_number: "ahead_of F st ks (s # u # us) \<Longrightarrow> gives_of F macro_number st ks (Inr (strtoint s)) (u # us)"
  by (auto simp: macro_number_def gives_cur intro!: gives_eat gives_ret)

lemma gives_rest:
  assumes "ahead_of F st ks (s # ts)" "opr s = Some (\<lambda>l r. lift (apply_op s l r))"
    and "\<And>st'. ahead_of F st' ks ts \<Longrightarrow> kept F st st' \<Longrightarrow> gives_of F again st' ks r us"
  shows "gives_of F (binary_rest opr again v) st ks (bindE r (apply_op s v)) us"
  unfolding binary_rest_def gives_cur [OF assms(1)] assms(2) option.case
  by (rule gives_eat [OF assms(1)], rule gives_bindP) (auto intro: assms(3) gives_lift)

lemma gives_no_rest: "ahead_of F st ks (s # ts) \<Longrightarrow> opr s = None \<Longrightarrow> gives_of F (binary_rest opr again v) st ks (Inr v) (s # ts)"
  by (simp add: binary_rest_def gives_cur gives_ret)

text \<open>An operand of a level below, with nothing behind it.\<close>

lemma bindE_ret: "bindE r Inr = r"
  by (cases r) simp_all

lemma gives_up:
  assumes "gives_of F (macro_eval (below lev)) st ks r (u # us)" "stops lev u"
  shows "gives_of F (macro_eval lev) st ks r (u # us)"
proof (cases lev)
  case Primary
  then show ?thesis using assms by simp
next
  case Additive
  have "additive_op u = None" using assms(2) Additive by (auto simp: level_op stops_def)
  then have "gives_of F (macro_additive_expr macro_eval) st ks (bindE r Inr) (u # us)"
    unfolding macro_additive_expr_def
    using assms(1) Additive by (auto intro!: gives_bindP gives_no_rest simp: gives_not_eof)
  then show ?thesis by (simp add: Additive macro_eval_unfold bindE_ret)
next
  case Relational
  have "relational_op u = None" using assms(2) Relational by (auto simp: level_op stops_def)
  then have "gives_of F (macro_relational_expr macro_eval) st ks (bindE r Inr) (u # us)"
    unfolding macro_relational_expr_def
    using assms(1) Relational by (auto intro!: gives_bindP gives_no_rest)
  then show ?thesis by (simp add: Relational macro_eval_unfold bindE_ret)
next
  case Bitwise
  have "bitwise_op u = None" using assms(2) Bitwise by (auto simp: level_op stops_def)
  then have "gives_of F (macro_bitwise_expr macro_eval) st ks (bindE r Inr) (u # us)"
    unfolding macro_bitwise_expr_def
    using assms(1) Bitwise by (auto intro!: gives_bindP gives_no_rest)
  then show ?thesis by (simp add: Bitwise macro_eval_unfold bindE_ret)
qed

lemma op_level_not_Primary: "op_level s = Some k \<Longrightarrow> k \<noteq> Primary"
  by (auto simp: op_level_def split: if_splits)

lemma stops_below: "op_level s = Some k \<Longrightarrow> stops (below k) s"
  using op_level_not_Primary [of s k] by (cases k) (auto simp: stops_def)

lemma stops_less: "stops lev u \<Longrightarrow> rank k \<le> rank lev \<Longrightarrow> stops k u"
  unfolding stops_def by (meson le_less_trans)

lemma gives_higher:
  "gives_of F (macro_eval k) st ks r (u # us) \<Longrightarrow> rank k \<le> rank lev \<Longrightarrow> stops lev u \<Longrightarrow> gives_of F (macro_eval lev) st ks r (u # us)"
proof (induction "rank lev - rank k" arbitrary: lev)
  case 0
  then have "lev = k" by (cases lev; cases k) auto
  then show ?case using 0 by simp
next
  case (Suc n)
  have b: "rank (below lev) = rank lev - 1" by (cases lev) auto
  have "gives_of F (macro_eval (below lev)) st ks r (u # us)"
    by (rule Suc(1)) (use Suc(2-5) b in \<open>auto intro: stops_less\<close>)
  then show ?case using Suc.prems(3) by (rule gives_up)
qed

text \<open>Each leaf begins a branch of \<open>macro_primary_expr\<close>.\<close>

lemma gives_primary:
  assumes "ahead_of F st ks (s # ts)"
  shows "gives_of F (macro_eval Primary) st ks r us \<longleftrightarrow> gives_of F
     (if chr_at s 0 = CHR ''-'' then bindP eat_current_token (\<lambda>_. bindP (macro_eval Primary) (\<lambda>v. ret (- v)))
      else if chr_at s 0 = CHR ''!'' then bindP eat_current_token (\<lambda>_. bindP (macro_eval Primary) (\<lambda>v. ret (of_bool (v = 0))))
      else if chr_at s 0 = CHR ''('' then
        bindP eat_current_token (\<lambda>_. bindP (macro_eval Bitwise) (\<lambda>hold. bindP cur (\<lambda>s.
        bindP (require (chr_at s 0 = CHR '')'') Missing_Paren) (\<lambda>_. bindP eat_current_token (\<lambda>_. ret hold)))))
      else if s = ''defined'' then macro_defined
      else if in_set (chr_at s 0) letters then macro_variable
      else if in_set (chr_at s 0) ''0123456789'' then macro_number
      else ret 0) st ks r us"
  by (simp add: macro_eval_unfold macro_primary_expr_def gives_not_eof [OF assms] gives_cur [OF assms])

lemma digit_branch:
  assumes "in_set (chr_at s 0) ''0123456789''"
  shows "chr_at s 0 \<noteq> CHR ''-'' \<and> chr_at s 0 \<noteq> CHR ''!'' \<and> chr_at s 0 \<noteq> CHR ''('' \<and> s \<noteq> ''defined'' \<and>
    \<not> in_set (chr_at s 0) letters"
proof -
  have "chr_at s 0 \<in> set ''0123456789''" using assms by (simp only: in_set_iff)
  moreover have "\<forall>c \<in> set ''0123456789''. c \<noteq> CHR ''-'' \<and> c \<noteq> CHR ''!'' \<and> c \<noteq> CHR ''('' \<and> c \<noteq> CHR ''d'' \<and> \<not> in_set c letters"
    by code_simp
  moreover have "chr_at ''defined'' 0 = CHR ''d''" by simp
  ultimately show ?thesis by metis
qed

lemma letter_branch:
  assumes "plain_name s"
  shows "chr_at s 0 \<noteq> CHR ''-'' \<and> chr_at s 0 \<noteq> CHR ''!'' \<and> chr_at s 0 \<noteq> CHR ''('' \<and> s \<noteq> ''defined'' \<and>
    in_set (chr_at s 0) letters"
proof -
  have "chr_at s 0 \<in> set letters" using assms by (simp only: plain_name_def in_set_iff)
  moreover have "\<forall>c \<in> set letters. c \<noteq> CHR ''-'' \<and> c \<noteq> CHR ''!'' \<and> c \<noteq> CHR ''(''" by code_simp
  ultimately show ?thesis using assms by (auto simp: plain_name_def)
qed

lemma tree_gives:
  "tree_at (table st) lev t \<Longrightarrow> heads st \<subseteq> F \<Longrightarrow> no_special st \<Longrightarrow> ahead_of F st ks (leaves t @ u # us) \<Longrightarrow> stops lev u \<Longrightarrow>
   gives_of F (macro_eval lev) st ks (tree_value (table st) t) (u # us)"
proof (induction t arbitrary: st lev u us)
  case (Number s)
  have "gives_of F (macro_eval Primary) st ks (Inr (strtoint s)) (u # us)"
  proof -
    have a: "ahead_of F st ks (s # u # us)" and d: "in_set (chr_at s 0) ''0123456789''" using Number by simp_all
    show ?thesis unfolding gives_primary [OF a] using digit_branch [OF d] d gives_number [OF a] by (simp only: if_False if_True simp_thms)
  qed
  from gives_higher [OF this _ Number.prems(5)] show ?case by simp
next
  case (Name s)
  then have "gives_of F macro_variable st ks (name_value (table st) s) (u # us)" by (auto intro: gives_variable)
  moreover have a: "ahead_of F st ks (s # u # us)" and n: "plain_name s" using Name by simp_all
  ultimately have "gives_of F (macro_eval Primary) st ks (name_value (table st) s) (u # us)"
    unfolding gives_primary [OF a] using letter_branch [OF n] by (simp only: if_False if_True simp_thms)
  from gives_higher [OF this _ Name.prems(5)] show ?case by simp
next
  case (Defined b s)
  let ?v = "of_bool (table st s \<noteq> None)"
  have "gives_of F macro_defined st ks (Inr ?v) (u # us)"
    using Defined by (intro gives_defined [where b = b and s = s]) (simp_all add: table_def)
  moreover obtain ts where a: "ahead_of F st ks (''defined'' # ts)" using Defined.prems(4) by (cases b) auto
  moreover have "chr_at ''defined'' 0 \<noteq> CHR ''-''" "chr_at ''defined'' 0 \<noteq> CHR ''!''" "chr_at ''defined'' 0 \<noteq> CHR ''(''" by simp_all
  ultimately have "gives_of F (macro_eval Primary) st ks (Inr ?v) (u # us)"
    unfolding gives_primary [OF a] by (simp only: if_False if_True simp_thms)
  from gives_higher [OF this _ Defined.prems(5)] show ?case by (simp only: tree_value.simps rank.simps le0 simp_thms)
next
  case (Minus t)
  note a = Minus.prems(4) [simplified]
  have "gives_of F (bindP eat_current_token (\<lambda>_. bindP (macro_eval Primary) (\<lambda>v. ret (- v)))) st ks
      (bindE (tree_value (table st) t) (\<lambda>v. Inr (- v))) (u # us)"
  proof (rule gives_eat [OF a], rule gives_bindP)
    fix st'
    assume s: "ahead_of F st' ks (leaves t @ u # us)" "kept F st st'"
    show "gives_of F (macro_eval Primary) st' ks (tree_value (table st) t) (u # us)"
      using Minus.IH [of st' Primary u us] s Minus.prems(1-3) stops_less [OF Minus.prems(5), of Primary]
        table_kept [OF s(2)] no_special_kept [OF s(2)] by simp
  qed (rule gives_ret)
  then have "gives_of F (macro_eval Primary) st ks (tree_value (table st) (Minus t)) (u # us)"
    unfolding gives_primary [OF a] by simp
  from gives_higher [OF this _ Minus.prems(5)] show ?case by simp
next
  case (Negation t)
  note a = Negation.prems(4) [simplified]
  have "gives_of F (bindP eat_current_token (\<lambda>_. bindP (macro_eval Primary) (\<lambda>v. ret (of_bool (v = 0))))) st ks
      (bindE (tree_value (table st) t) (\<lambda>v. Inr (of_bool (v = 0)))) (u # us)"
  proof (rule gives_eat [OF a], rule gives_bindP)
    fix st'
    assume s: "ahead_of F st' ks (leaves t @ u # us)" "kept F st st'"
    show "gives_of F (macro_eval Primary) st' ks (tree_value (table st) t) (u # us)"
      using Negation.IH [of st' Primary u us] s Negation.prems(1-3) stops_less [OF Negation.prems(5), of Primary]
        table_kept [OF s(2)] no_special_kept [OF s(2)] by simp
  qed (rule gives_ret)
  then have "gives_of F (macro_eval Primary) st ks (tree_value (table st) (Negation t)) (u # us)"
    unfolding gives_primary [OF a] by simp
  from gives_higher [OF this _ Negation.prems(5)] show ?case by simp
next
  case (Parens t)
  note a = Parens.prems(4) [simplified]
  have "gives_of F (bindP eat_current_token (\<lambda>_. bindP (macro_eval Bitwise) (\<lambda>hold. bindP cur (\<lambda>s.
        bindP (require (chr_at s 0 = CHR '')'') Missing_Paren) (\<lambda>_. bindP eat_current_token (\<lambda>_. ret hold)))))) st ks
      (bindE (tree_value (table st) t) Inr) (u # us)"
  proof (rule gives_eat [OF a], rule gives_bindP)
    fix st'
    assume s: "ahead_of F st' ks (leaves t @ '')'' # u # us)" "kept F st st'"
    show "gives_of F (macro_eval Bitwise) st' ks (tree_value (table st) t) ('')'' # u # us)"
      using Parens.IH [of st' Bitwise "'')''" "u # us"] s Parens.prems(1-3) table_kept [OF s(2)] no_special_kept [OF s(2)] by (simp add: stops_def op_level_def)
  next
    fix v st'
    assume s: "ahead_of F st' ks ('')'' # u # us)"
    show "gives_of F (bindP cur (\<lambda>s. bindP (require (chr_at s 0 = CHR '')'') Missing_Paren) (\<lambda>_. bindP eat_current_token (\<lambda>_. ret v))))
        st' ks (Inr v) (u # us)"
      by (simp add: gives_cur [OF s]) (auto intro: gives_eat [OF s] gives_ret)
  qed
  then have "gives_of F (macro_eval Primary) st ks (tree_value (table st) (Parens t)) (u # us)"
    unfolding gives_primary [OF a] by (simp add: bindE_ret)
  from gives_higher [OF this _ Parens.prems(5)] show ?case by simp
next
  case (Op s l r)
  obtain k where k: "op_level s = Some k" "rank k \<le> rank lev" "tree_at (table st) (below k) l" "tree_at (table st) k r"
    using Op.prems(1) by (auto split: option.splits)
  have L: "gives_of F (macro_eval (below k)) st ks (tree_value (table st) l) (s # leaves r @ u # us)"
    using Op.IH(1) [OF k(3) Op.prems(2,3), of s "leaves r @ u # us"] Op.prems(4) stops_below [OF k(1)] by simp
  have R: "gives_of F (macro_eval k) st' ks (tree_value (table st) r) (u # us)"
    if "ahead_of F st' ks (leaves r @ u # us)" "kept F st st'" for st'
    using Op.IH(2) [of st' k u us] that k(2,4) stops_less [OF Op.prems(5)] Op.prems(2,3)
      table_kept [OF that(2)] no_special_kept [OF that(2)] by simp
  have rest: "gives_of F (binary_rest opr (macro_eval k) v) st' ks (bindE (tree_value (table st) r) (apply_op s v)) (u # us)"
    if "ahead_of F st' ks (s # leaves r @ u # us)" "kept F st st'" "opr s = Some (\<lambda>l r. lift (apply_op s l r))" for st' v opr
    using R that by (intro gives_rest) (auto intro: kept_trans)
  have "gives_of F (macro_eval k) st ks (tree_value (table st) (Op s l r)) (u # us)"
  proof (cases k)
    case Primary
    then show ?thesis using op_level_not_Primary k(1) by blast
  next
    case Additive
    note L = L [unfolded Additive below.simps] and rest = rest [unfolded Additive]
    show ?thesis unfolding Additive macro_eval_unfold tree_value.simps unfolding macro_additive_expr_def
    proof (rule gives_bindP [OF L])
      fix v st'
      assume a: "ahead_of F st' ks (s # leaves r @ u # us)" "kept F st st'"
      show "gives_of F (bindP not_eof (\<lambda>_. binary_rest additive_op (macro_eval Additive) v)) st' ks
          (bindE (tree_value (table st) r) (apply_op s v)) (u # us)"
        unfolding gives_not_eof [OF a(1)] by (rule rest [OF a]) (use k(1) Additive in \<open>simp add: level_op\<close>)
    qed
  next
    case Relational
    note L = L [unfolded Relational below.simps] and rest = rest [unfolded Relational]
    show ?thesis unfolding Relational macro_eval_unfold tree_value.simps unfolding macro_relational_expr_def
      by (rule gives_bindP [OF L], rule rest) (use k(1) Relational in \<open>simp_all add: level_op\<close>)
  next
    case Bitwise
    note L = L [unfolded Bitwise below.simps] and rest = rest [unfolded Bitwise]
    show ?thesis unfolding Bitwise macro_eval_unfold tree_value.simps unfolding macro_bitwise_expr_def
      by (rule gives_bindP [OF L], rule rest) (use k(1) Bitwise in \<open>simp_all add: level_op\<close>)
  qed
  from gives_higher [OF this k(2) Op.prems(5)] show ?case .
qed

end
