(* ===== verification/CcMain.thy ===== *)
theory CcMain
  imports CcMacroReturns CcMacroC
begin

text \<open>
  What \<open>main\<close> of \<^verbatim>\<open>stages/3-micro-c/micro-c/cc.c\<close> does with the tokens of its files before it compiles
  them: the list is reversed, preprocessed (or, with \<^verbatim>\<open>--bootstrap-mode\<close>, freed from its directives),
  attributes are removed, and newlines unless the tokens are only printed (\<^verbatim>\<open>-E\<close>).
\<close>

section \<open>Preparing the token list\<close>

text \<open>An operation of \<open>CcTokenList\<close> on the list at \<open>global_token\<close>.\<close>

definition on_list :: "(pp_token list \<Rightarrow> nat option \<Rightarrow> (pp_token list \<times> nat option) option) \<Rightarrow> unit run" where
  "on_list f st = Option.bind (f (heap st) (global_token st)) (\<lambda>(h, p). ret () (st\<lparr>heap := h, global_token := p\<rparr>))"

definition prepare_tokens :: "bool \<Rightarrow> bool \<Rightarrow> unit run" where
  "prepare_tokens BOOTSTRAP_MODE PREPROCESSOR_MODE =
    bindP (get global_token) (\<lambda>p.
    bindP (require (p \<noteq> None) No_Input) (\<lambda>_.
    bindP (on_list reverse_list) (\<lambda>_.
    bindP (if BOOTSTRAP_MODE then on_list remove_preprocessor_directives else preprocess) (\<lambda>_.
    bindP strip_attributes (\<lambda>_.
    if PREPROCESSOR_MODE then ret () else eat_newline_tokens)))))"

section \<open>The token list on its own\<close>

text \<open>The list \<open>as\<close> begins at \<open>global_token\<close>.\<close>

definition listed :: "pp \<Rightarrow> nat list \<Rightarrow> bool" where
  "listed st as \<longleftrightarrow> linked (heap st) as \<and> global_token st = first_or as None"

lemma listed_inv: "listed st (ks @ xs) \<longleftrightarrow> inv_for [] (st\<lparr>macro_token := first_or xs None\<rparr>) [] ks xs"
  by (auto simp: listed_def linked_def inv_for_def)

section \<open>Newlines\<close>

lemma eat_newline_unfold:
  "eat_newline_loop = (\<lambda>st. (if macro_token st = None then ret () st
     else bindP cur (\<lambda>s. bindP (if s = [LF] then eat_current_token else next_token) (\<lambda>_. eat_newline_loop)) st))"
  by (rule ext) (rule eat_newline_loop.simps)

lemma eat_newline_loop_run:
  "inv_for [] st [] ks xs \<Longrightarrow> \<exists>st' ys. eat_newline_loop st = Some (Inr ((), st')) \<and> listed st' (ks @ ys) \<and>
     texts (heap st') (ks @ ys) = texts (heap st) ks @ filter (\<lambda>t. t \<noteq> [LF]) (texts (heap st) xs)"
proof (induction xs arbitrary: st ks)
  case Nil
  then have "macro_token st = None" "listed st ks" by (auto simp: inv_for_def listed_def linked_def)
  then show ?case by (subst eat_newline_unfold) (auto simp: exec intro!: exI [of _ "[]"])
next
  case (Cons a xs)
  note c = inv_current [OF Cons.prems] and cur = cur_Cons [OF Cons.prems]
  have bounds: "\<forall>b \<in> set (ks @ a # xs). b < length (heap st)" using inv_bounds [OF Cons.prems] by blast
  show ?case
  proof (cases "tl_s (heap st ! a) = [LF]")
    case True
    obtain h where h: "eat_current_token st =
        Some (Inr ((), st\<lparr>heap := h, macro_token := first_or xs None, global_token := first_or (ks @ xs) None\<rparr>))"
      "inv_for [] (st\<lparr>heap := h, macro_token := first_or xs None, global_token := first_or (ks @ xs) None\<rparr>) [] ks xs"
      "keeps (heap st) h"
      using eat_current_run [OF Cons.prems] by blast
    have run: "eat_newline_loop st =
        eat_newline_loop (st\<lparr>heap := h, macro_token := first_or xs None, global_token := first_or (ks @ xs) None\<rparr>)"
      using c(1) True
      by (subst eat_newline_unfold) (simp add: bindP_run [where m = cur, OF cur] bindP_run [where m = eat_current_token, OF h(1)])
    have t: "texts h ks = texts (heap st) ks" "texts h xs = texts (heap st) xs"
      using bounds by (auto intro!: keeps_texts [OF h(3)])
    show ?thesis unfolding run using Cons.IH [OF h(2)] t True by simp
  next
    case False
    have run: "eat_newline_loop st = eat_newline_loop (st\<lparr>macro_token := first_or xs None\<rparr>)"
      using c(1) False
      by (subst eat_newline_unfold)
        (simp add: bindP_run [where m = cur, OF cur] bindP_run [where m = next_token, OF next_token_run(1) [OF Cons.prems]])
    obtain st' ys where s: "eat_newline_loop st = Some (Inr ((), st'))" "listed st' ((ks @ [a]) @ ys)"
      "texts (heap st') ((ks @ [a]) @ ys) = texts (heap st) (ks @ [a]) @ filter (\<lambda>t. t \<noteq> [LF]) (texts (heap st) xs)"
      using Cons.IH [OF next_token_run(2) [OF Cons.prems]] unfolding run by auto
    then show ?thesis using False by (intro exI [of _ st'] exI [of _ "a # ys"]) (simp add: texts_def)
  qed
qed

lemma eat_newline_tokens_run:
  assumes "listed st as"
  shows "\<exists>st' bs. eat_newline_tokens st = Some (Inr ((), st')) \<and> listed st' bs \<and>
    texts (heap st') bs = filter (\<lambda>t. t \<noteq> [LF]) (texts (heap st) as)"
proof -
  have "inv_for [] (st\<lparr>macro_token := global_token st\<rparr>) [] [] as"
    using assms by (auto simp: listed_def linked_def inv_for_def)
  from eat_newline_loop_run [OF this] show ?thesis by (auto simp: eat_newline_tokens_def)
qed

section \<open>Attributes\<close>

text \<open>What is left of the tokens behind \<^verbatim>\<open>__attribute__\<close>.\<close>

fun attribute_rest :: "int \<Rightarrow> string list \<Rightarrow> string list" where
  "attribute_rest d [] = []"
| "attribute_rest d (t # ts) =
    (if chr_at t 0 = CHR ''('' then attribute_rest (d + 1) ts
     else if chr_at t 0 = CHR '')'' then if d - 1 = 0 then ts else attribute_rest (d - 1) ts
     else if d = 0 then t # ts
     else attribute_rest d ts)"

lemma attribute_rest_length: "length (attribute_rest d ts) \<le> length ts"
  by (induction ts arbitrary: d) (auto intro: le_SucI)

function without_attributes :: "string list \<Rightarrow> string list" where
  "without_attributes [] = []"
| "without_attributes (t # ts) =
    (if t = ''__attribute__'' then without_attributes (attribute_rest 0 ts) else t # without_attributes ts)"
  by pat_completeness auto
termination
  by (relation "measure length") (auto simp: attribute_rest_length le_imp_less_Suc)

lemma no_attributes: "''__attribute__'' \<notin> set (without_attributes ts)"
  by (induction ts rule: without_attributes.induct) auto

lemma attribute_end_unfold:
  "attribute_end p d = (\<lambda>st. (if p = None then ret None st
     else bindP (node_at p) (\<lambda>n.
       if chr_at (tl_s n) 0 = CHR ''('' then attribute_end (tl_next n) (d + 1)
       else if chr_at (tl_s n) 0 = CHR '')''
       then if d - 1 = 0 then ret (tl_next n) else attribute_end (tl_next n) (d - 1)
       else if d = 0 then ret p
       else attribute_end (tl_next n) d) st))"
  by (rule ext) (rule attribute_end.simps)

lemma attribute_end_run:
  "segment (heap st) p ys None \<Longrightarrow> \<exists>us zs. ys = us @ zs \<and> attribute_end (first_or ys None) d st = Some (Inr (first_or zs None, st)) \<and>
     texts (heap st) zs = attribute_rest d (texts (heap st) ys)"
proof (induction ys arbitrary: p d)
  case Nil
  then show ?case by (subst attribute_end_unfold) (simp add: exec)
next
  case (Cons y ys)
  have n: "tl_next (heap st ! y) = first_or ys None" and s: "segment (heap st) (Some y) ys None" using Cons.prems by auto
  have more: "\<exists>us zs. y # ys = us @ zs \<and> attribute_end (first_or ys None) k st = Some (Inr (first_or zs None, st)) \<and>
     texts (heap st) zs = attribute_rest k (texts (heap st) ys)" for k
    using Cons.IH [OF s, of k] by (metis append_Cons)
  let ?c = "chr_at (tl_s (heap st ! y)) 0"
  show ?case
  proof (cases "?c = CHR ''(''")
    case True
    then show ?thesis using more [of "d + 1"] n by (subst attribute_end_unfold) simp
  next
    case o: False
    show ?thesis
    proof (cases "?c = CHR '')''")
      case True
      show ?thesis
      proof (cases "d - 1 = 0")
        case True
        then show ?thesis using \<open>?c = CHR '')''\<close> n o
          by (subst attribute_end_unfold) (simp add: exec exI [of _ "[y]"])
      next
        case False
        then show ?thesis using more [of "d - 1"] \<open>?c = CHR '')''\<close> n o by (subst attribute_end_unfold) simp
      qed
    next
      case False
      show ?thesis
      proof (cases "d = 0")
        case True
        then show ?thesis using \<open>?c \<noteq> CHR '')''\<close> n o
          by (subst attribute_end_unfold) (simp add: exec exI [of _ "[]"])
      next
        case False
        then show ?thesis using more [of d] \<open>?c \<noteq> CHR '')''\<close> n o by (subst attribute_end_unfold) simp
      qed
    qed
  qed
qed

lemma unlink_attribute_run:
  assumes l: "listed st (ks @ a # us @ zs)"
  shows "\<exists>st'. unlink_attribute (heap st ! a) (first_or zs None) st = Some (Inr ((), st')) \<and> listed st' (ks @ zs) \<and>
    keeps (heap st) (heap st')"
proof -
  have s: "segment (heap st) None (ks @ a # us @ zs) None" and d: "distinct (ks @ a # us @ zs)"
      and g: "global_token st = first_or (ks @ a # us @ zs) None"
    using l by (auto simp: listed_def linked_def)
  have p: "tl_prev (heap st ! a) = last_or None ks" using s by simp
  define h1 where "h1 = (case last_or None ks of None \<Rightarrow> heap st
      | Some k \<Rightarrow> (heap st)[k := (heap st ! k)\<lparr>tl_next := first_or zs None\<rparr>])"
  define h2 where "h2 = (case zs of [] \<Rightarrow> h1 | z # _ \<Rightarrow> h1[z := (h1 ! z)\<lparr>tl_prev := last_or None ks\<rparr>])"
  have zs: "segment (heap st) (last_or (Some a) us) zs None" using s by simp
  have run: "unlink_attribute (heap st ! a) (first_or zs None) st =
      Some (Inr ((), st\<lparr>heap := h2, global_token := (if ks = [] then first_or zs None else global_token st)\<rparr>))"
    by (cases zs; cases ks rule: rev_cases) (simp_all add: unlink_attribute_def set_if_def p h2_def h1_def exec)
  have s1: "segment h1 None ks (first_or zs None)" "segment h1 (last_or (Some a) us) zs None"
    using s d zs by (cases ks rule: rev_cases; simp add: h1_def)+
  have s2: "segment h2 None ks (first_or zs None)" "segment h2 (last_or None ks) zs None"
    using s1 d by (cases zs; auto simp: h2_def)+
  have k: "keeps (heap st) h1" "keeps h1 h2"
    by (auto simp: h1_def h2_def content_def intro!: keeps_links split: option.splits list.splits)
  have "segment h2 None (ks @ zs) None" using s2 by simp
  then have "listed (st\<lparr>heap := h2, global_token := (if ks = [] then first_or zs None else global_token st)\<rparr>) (ks @ zs)"
    using d g by (cases ks) (auto simp: listed_def linked_def simp del: segment_append)
  then show ?thesis using run keeps_trans [OF k] by auto
qed

lemma strip_unfold:
  "strip_loop t = (\<lambda>st. (if t = None then ret () st
     else bindP (node_at t) (\<lambda>n.
       if tl_s n = ''__attribute__''
       then bindP (attribute_end (tl_next n) 0) (\<lambda>scan. bindP (unlink_attribute n scan) (\<lambda>_. strip_loop scan))
       else strip_loop (tl_next n)) st))"
  by (rule ext) (rule strip_loop.simps)

lemma strip_loop_run:
  "listed st (ks @ xs) \<Longrightarrow> \<exists>st' ys. strip_loop (first_or xs None) st = Some (Inr ((), st')) \<and> listed st' (ks @ ys) \<and>
     texts (heap st') (ks @ ys) = texts (heap st) ks @ without_attributes (texts (heap st) xs)"
proof (induction "length xs" arbitrary: st ks xs rule: less_induct)
  case less
  have s: "segment (heap st) None (ks @ xs) None" using less.prems by (simp add: listed_def linked_def)
  show ?case
  proof (cases xs)
    case Nil
    then show ?thesis using less.prems by (subst strip_unfold) (auto simp: exec intro!: exI [of _ "[]"])
  next
    case (Cons a ys)
    have n: "tl_next (heap st ! a) = first_or ys None" "segment (heap st) (Some a) ys None" using s Cons by auto
    show ?thesis
    proof (cases "tl_s (heap st ! a) = ''__attribute__''")
      case False
      have run: "strip_loop (first_or xs None) st = strip_loop (first_or ys None) st"
        using False n by (subst strip_unfold) (simp add: Cons)
      obtain st' zs where "strip_loop (first_or ys None) st = Some (Inr ((), st'))" "listed st' ((ks @ [a]) @ zs)"
        "texts (heap st') ((ks @ [a]) @ zs) = texts (heap st) (ks @ [a]) @ without_attributes (texts (heap st) ys)"
        using less.hyps [of ys st "ks @ [a]"] less.prems Cons by auto
      then show ?thesis unfolding run using False Cons by (intro exI [of _ st'] exI [of _ "a # zs"]) (simp add: texts_def)
    next
      case True
      obtain us zs where z: "ys = us @ zs" "attribute_end (first_or ys None) 0 st = Some (Inr (first_or zs None, st))"
        "texts (heap st) zs = attribute_rest 0 (texts (heap st) ys)"
        using attribute_end_run [OF n(2)] by blast
      obtain st1 where u: "unlink_attribute (heap st ! a) (first_or zs None) st = Some (Inr ((), st1))" "listed st1 (ks @ zs)"
        "keeps (heap st) (heap st1)"
        using unlink_attribute_run [of st ks a us zs] less.prems Cons z(1) by auto
      have run: "strip_loop (first_or xs None) st = strip_loop (first_or zs None) st1"
        using True n(1) z(2) by (subst strip_unfold)
          (simp add: Cons bindP_run [where m = "attribute_end _ _", OF z(2)] bindP_run [where m = "unlink_attribute _ _", OF u(1)])
      have "\<forall>b \<in> set (ks @ zs). b < length (heap st)" using segment_bounds [OF s] Cons z(1) by auto
      then have t: "texts (heap st1) ks = texts (heap st) ks" "texts (heap st1) zs = texts (heap st) zs"
        by (auto intro!: keeps_texts [OF u(3)])
      show ?thesis unfolding run using less.hyps [of zs st1 ks] u(2) t z True Cons by simp
    qed
  qed
qed

lemma strip_attributes_run:
  assumes "listed st as"
  shows "\<exists>st' bs. strip_attributes st = Some (Inr ((), st')) \<and> listed st' bs \<and>
    texts (heap st') bs = without_attributes (texts (heap st) as)"
  using strip_loop_run [of st "[]" as] assms by (simp add: strip_attributes_def listed_def)

section \<open>Preprocessing a list\<close>

text \<open>The table holds macros without parameters, each with a replacement list of its own.\<close>

definition tabled :: "pp \<Rightarrow> nat list \<Rightarrow> bool" where
  "tabled st as \<longleftrightarrow> (\<exists>mss. list_all2 (body_ok (heap st)) (macro_env st) mss \<and> distinct (concat mss @ as))"

text \<open>
  The first token is no macro (a newline and the \<^verbatim>\<open>#\<close> of a directive are none). When it is one
  the code loses the beginning of the list.
\<close>

definition begins_plain :: "pp \<Rightarrow> string list \<Rightarrow> bool" where
  "begins_plain st ts \<longleftrightarrow> (\<forall>t us. ts = t # us \<longrightarrow> chr_at t 0 \<in> {LF, CHR ''#''} \<or>
     t \<notin> {''__LINE__'', ''__FILE__''} \<and> find_macro t (macro_env st) = None)"

lemma first_token_wp:
  assumes "wf_pp st mss [] (a # ys)" "tl_s (heap st ! a) \<notin> {''__LINE__'', ''__FILE__''}"
    "find_macro (tl_s (heap st ! a)) (macro_env st) = None"
  shows "wp token_step (\<lambda>_ st'. st' = st\<lparr>macro_token := first_or ys None\<rparr>) st"
proof -
  note c = inv_current [OF assms(1)]
  have l: "lookup_macro (Some a) st = Some (Inr (None, st))" using assms(2,3) by (simp add: lookup_macro_def get_def)
  show ?thesis
    by (simp add: token_step_def wp_simps c(1) maybe_expand_def node_at_def wp_run [where m = "lookup_macro _", OF l] c(2))
qed

lemma preprocess_wp:
  assumes "listed st as" "tabled st as" "\<not> FOLLOW_INCLUDES st" "plain_defines True (texts (heap st) as)"
    "begins_plain st (texts (heap st) as)"
  shows "wp preprocess (\<lambda>_ st'. \<exists>bs. macro_token st' = None \<and> listed st' bs \<and> tabled st' bs) st"
proof -
  let ?st = "st\<lparr>macro_token := global_token st\<rparr>"
  obtain mss where m: "list_all2 (body_ok (heap st)) (macro_env st) mss" "distinct (concat mss @ as)"
    using assms(2) by (auto simp: tabled_def)
  then have i: "wf_pp ?st mss [] as" using assms(1) by (simp add: inv_for_def listed_def linked_def)
  have "wp (preprocess_loop True) (\<lambda>_ st'. \<exists>mss' ks'. wf_pp st' mss' ks' []) ?st"
  proof (cases "\<forall>a ys. as = a # ys \<longrightarrow> chr_at (tl_s (heap st ! a)) 0 \<in> {LF, CHR ''#''}")
    case True
    then have "startable ?st True [] as" using assms(3,4) by (auto simp: startable_def)
    then show ?thesis by (rule preprocess_loop_wp [OF i])
  next
    case False
    then obtain a ys where a: "as = a # ys" "chr_at (tl_s (heap st ! a)) 0 \<notin> {LF, CHR ''#''}" by blast
    then have n: "tl_s (heap ?st ! a) \<notin> {''__LINE__'', ''__FILE__''}" "find_macro (tl_s (heap ?st ! a)) (macro_env ?st) = None"
      using assms(5) by (auto simp: begins_plain_def)
    note i = i [unfolded a(1)]
    have s: "startable (?st\<lparr>macro_token := first_or ys None\<rparr>) False [a] ys"
      using assms(3,4) a by (simp add: startable_def)
    have "wp (bindP token_step (\<lambda>_. preprocess_loop False)) (\<lambda>_ st'. \<exists>mss' ks'. wf_pp st' mss' ks' []) ?st"
      unfolding wp_bindP
      by (rule wp_mono [OF first_token_wp [OF i n]])
        (use preprocess_loop_wp [OF _ s] next_token_run(2) [OF i] in simp)
    then show ?thesis
      by (rule wp_cong [rotated]) (use preprocess_at [OF inv_current(1) [OF i], of True] a(2) in \<open>simp add: Let_def\<close>)
  qed
  then have "wp (preprocess_loop True) (\<lambda>_ st'. \<exists>bs. macro_token st' = None \<and> listed st' bs \<and> tabled st' bs) ?st"
    by (rule wp_mono) (auto simp: inv_for_def listed_def linked_def tabled_def simp del: set_concat)
  then show ?thesis by (simp add: preprocess_def wp_simps)
qed

text \<open>
  C36. When includes are not followed, no macro has parameters and the first token of the list is no macro,
  the preprocessor returns, with an error or with a doubly linked list and a table whose
  replacement lists are lists of their own, for every doubly linked list of tokens: recursive macros,
  nested conditionals, expressions, pasting and all errors included. (When the first token is a macro
  the list is broken, and macros with parameters may run for ever.)
\<close>

theorem preprocess_returns:
  assumes "listed st as" "tabled st as" "\<not> FOLLOW_INCLUDES st" "plain_defines True (texts (heap st) as)"
    "begins_plain st (texts (heap st) as)"
  shows "\<exists>r. preprocess st = Some r \<and>
    (\<forall>u st'. r = Inr (u, st') \<longrightarrow> macro_token st' = None \<and> (\<exists>bs. listed st' bs \<and> tabled st' bs))"
  using preprocess_wp [OF assms] unfolding wp_def by blast

lemma pp_of_listed: "listed (pp_of ts) [0..<length ts]" "texts (heap (pp_of ts)) [0..<length ts] = ts"
  using segment_chain [of 0 ts] texts_chain [of ts] by (simp_all add: listed_def linked_def pp_of_def)

lemma pp_of_tabled: "distinct as \<Longrightarrow> tabled (pp_of ts) as"
  unfolding tabled_def pp_of_env by (rule exI [of _ "[]"]) simp

text \<open>A word, and a macro that names itself twice.\<close>

lemma preprocess_returns_witness:
  "\<exists>r. preprocess (pp_of [''x'', [LF], ''#define'', ''f'', '' '', ''f'', ''+'', ''f'', [LF], ''f'', [LF]]) = Some r \<and>
    (\<forall>u st'. r = Inr (u, st') \<longrightarrow> macro_token st' = None \<and> (\<exists>bs. listed st' bs \<and> tabled st' bs))"
  by (rule preprocess_returns [OF pp_of_listed(1)])
    (simp_all only: pp_of_listed(2) pp_of_tabled distinct_upt, simp_all add: pp_of_def begins_plain_def)

section \<open>The whole front end\<close>

lemma reverse_loop_frame:
  "reverse_loop h q (first_or as None) = Some (h', p) \<Longrightarrow> read_list h as \<Longrightarrow> distinct as \<Longrightarrow> b \<notin> set as \<Longrightarrow> h' ! b = h ! b"
proof (induction as arbitrary: h q)
  case Nil
  then show ?case by (simp add: reverse_loop.simps)
next
  case (Cons a as)
  have "reverse_loop (h[a := (h ! a)\<lparr>tl_next := q\<rparr>]) (Some a) (first_or as None) = Some (h', p)"
    using Cons.prems(1,2) by (simp add: reverse_loop.simps [of h])
  then show ?case using Cons.IH [of "h[a := (h ! a)\<lparr>tl_next := q\<rparr>]" "Some a"] Cons.prems by simp
qed

lemma reverse_tokens_wp:
  assumes "read_list (heap st) as" "distinct as" "global_token st = first_or as None" "tabled st as"
  shows "wp (on_list reverse_list) (\<lambda>_ st'. listed st' (rev as) \<and> tabled st' (rev as) \<and>
    FOLLOW_INCLUDES st' = FOLLOW_INCLUDES st \<and> macro_env st' = macro_env st \<and> texts (heap st') (rev as) = texts (heap st) (rev as)) st"
proof -
  obtain h where h: "reverse_list (heap st) (first_or as None) = Some (h, first_or (rev as) None)" "linked h (rev as)"
      "same_texts (heap st) h"
    using reverse_list_linked [OF assms(1,2)] by blast
  obtain mss where m: "list_all2 (body_ok (heap st)) (macro_env st) mss" "distinct (concat mss @ as)"
    using assms(4) by (auto simp: tabled_def)
  have "list_all2 (body_ok h) (macro_env st) mss"
  proof (rule bodies_cong [OF m(1)])
    show "length (heap st) \<le> length h" using same_texts_length [OF h(3)] by simp
    show "h ! b = heap st ! b" if "b \<in> set (concat mss)" for b
      using reverse_loop_frame [OF h(1) [unfolded reverse_list_def] assms(1,2)] m(2) that by (auto simp del: set_concat)
  qed
  moreover have "distinct (concat mss @ rev as)" using m(2) by (simp del: set_concat)
  moreover have "texts h (rev as) = texts (heap st) (rev as)"
    using read_list_bounds [OF assms(1)] by (intro texts_same [OF h(3)]) auto
  ultimately show ?thesis
    using h by (auto simp: wp_def on_list_def assms(3) exec listed_def tabled_def simp del: set_concat distinct_append)
qed

lemma remove_directives_wp:
  assumes "listed st as"
  shows "wp (on_list remove_preprocessor_directives) (\<lambda>_ st'. \<exists>bs. listed st' bs) st"
  using remove_loop_linked [of "heap st" "[]" as] assms
  by (auto simp: wp_def on_list_def listed_def remove_preprocessor_directives_def exec)

text \<open>
  C37. In bootstrap mode for all tokens, and otherwise when includes are not followed, no macro has
  parameters and the first token is no macro: what the compiler does with the tokens of its files
  before it compiles them returns, with an error or with a doubly linked list without attributes
  and, unless only the preprocessor was asked for, without newlines.
\<close>

theorem prepare_tokens_returns:
  assumes "read_list (heap st) as" "distinct as" "global_token st = first_or as None" "tabled st as"
    and "BOOTSTRAP_MODE \<or> \<not> FOLLOW_INCLUDES st \<and> plain_defines True (texts (heap st) (rev as)) \<and>
      begins_plain st (texts (heap st) (rev as))"
  shows "\<exists>r. prepare_tokens BOOTSTRAP_MODE PREPROCESSOR_MODE st = Some r \<and>
    (\<forall>u st'. r = Inr (u, st') \<longrightarrow> (\<exists>bs. listed st' bs \<and> ''__attribute__'' \<notin> set (texts (heap st') bs) \<and>
      (\<not> PREPROCESSOR_MODE \<longrightarrow> [LF] \<notin> set (texts (heap st') bs))))"
proof -
  have finish: "wp (bindP strip_attributes (\<lambda>_. if PREPROCESSOR_MODE then ret () else eat_newline_tokens))
      (\<lambda>_ st'. \<exists>bs. listed st' bs \<and> ''__attribute__'' \<notin> set (texts (heap st') bs) \<and>
        (\<not> PREPROCESSOR_MODE \<longrightarrow> [LF] \<notin> set (texts (heap st') bs))) st1" if l: "listed st1 bs" for st1 bs
  proof -
    obtain st2 cs where 2: "strip_attributes st1 = Some (Inr ((), st2))" "listed st2 cs"
        "texts (heap st2) cs = without_attributes (texts (heap st1) bs)"
      using strip_attributes_run [OF l] by blast
    obtain st3 ds where 3: "eat_newline_tokens st2 = Some (Inr ((), st3))" "listed st3 ds"
        "texts (heap st3) ds = filter (\<lambda>t. t \<noteq> [LF]) (texts (heap st2) cs)"
      using eat_newline_tokens_run [OF 2(2)] by blast
    show ?thesis unfolding wp_bindP wp_run [where m = strip_attributes, OF 2(1)]
    proof (cases PREPROCESSOR_MODE)
      case True
      then show "wp (if PREPROCESSOR_MODE then ret () else eat_newline_tokens)
        (\<lambda>_ st'. \<exists>bs. listed st' bs \<and> ''__attribute__'' \<notin> set (texts (heap st') bs) \<and>
          (\<not> PREPROCESSOR_MODE \<longrightarrow> [LF] \<notin> set (texts (heap st') bs))) st2"
        using 2(2,3) no_attributes by (auto simp: wp_simps)
    next
      case False
      then show "wp (if PREPROCESSOR_MODE then ret () else eat_newline_tokens)
        (\<lambda>_ st'. \<exists>bs. listed st' bs \<and> ''__attribute__'' \<notin> set (texts (heap st') bs) \<and>
          (\<not> PREPROCESSOR_MODE \<longrightarrow> [LF] \<notin> set (texts (heap st') bs))) st2"
        using 2(3) 3(2,3) no_attributes by (auto simp: wp_run [where m = eat_newline_tokens, OF 3(1)])
    qed
  qed
  have "wp (prepare_tokens BOOTSTRAP_MODE PREPROCESSOR_MODE)
      (\<lambda>_ st'. \<exists>bs. listed st' bs \<and> ''__attribute__'' \<notin> set (texts (heap st') bs) \<and>
        (\<not> PREPROCESSOR_MODE \<longrightarrow> [LF] \<notin> set (texts (heap st') bs))) st"
    unfolding prepare_tokens_def wp_bindP [of "get _"] wp_bindP [of "require _ _"] wp_bindP [of "on_list reverse_list"] wp_basic
  proof (intro impI wp_mono [OF reverse_tokens_wp [OF assms(1-4)]], elim conjE)
    fix st1
    assume 1: "listed st1 (rev as)" "tabled st1 (rev as)" "FOLLOW_INCLUDES st1 = FOLLOW_INCLUDES st" "macro_env st1 = macro_env st"
      "texts (heap st1) (rev as) = texts (heap st) (rev as)"
    have "wp (if BOOTSTRAP_MODE then on_list remove_preprocessor_directives else preprocess) (\<lambda>_ st'. \<exists>bs. listed st' bs) st1"
    proof (intro wp_ifI remove_directives_wp [OF 1(1)])
      assume "\<not> BOOTSTRAP_MODE"
      then show "wp preprocess (\<lambda>_ st'. \<exists>bs. listed st' bs) st1"
        using assms(5) by (intro wp_mono [OF preprocess_wp [OF 1(1,2)]]) (auto simp: 1(3-5) begins_plain_def)
    qed
    then show "wp (bindP (if BOOTSTRAP_MODE then on_list remove_preprocessor_directives else preprocess)
        (\<lambda>_. bindP strip_attributes (\<lambda>_. if PREPROCESSOR_MODE then ret () else eat_newline_tokens)))
      (\<lambda>_ st'. \<exists>bs. listed st' bs \<and> ''__attribute__'' \<notin> set (texts (heap st') bs) \<and>
        (\<not> PREPROCESSOR_MODE \<longrightarrow> [LF] \<notin> set (texts (heap st') bs))) st1"
      unfolding wp_bindP by (rule wp_mono) (use finish in \<open>auto simp: wp_bindP\<close>)
  qed
  then show ?thesis unfolding wp_def by blast
qed

text \<open>Two lines as the tokenizer leaves them, the last token first.\<close>

lemma prepare_tokens_returns_witness:
  "let node = \<lambda>p s. \<lparr>tl_next = p, tl_prev = p, tl_s = s, tl_filename = ''f.c'', tl_linenumber = 1, no_expand = False\<rparr>;
       h = [node None [LF], node (Some 0) ''x'', node (Some 1) [LF]]
   in \<exists>r. prepare_tokens False False ((pp_of [])\<lparr>heap := h, global_token := Some 2\<rparr>) = Some r \<and>
    (\<forall>u st'. r = Inr (u, st') \<longrightarrow> (\<exists>bs. listed st' bs \<and> ''__attribute__'' \<notin> set (texts (heap st') bs) \<and>
      (\<not> False \<longrightarrow> [LF] \<notin> set (texts (heap st') bs))))"
proof -
  define node where "node = (\<lambda>p s. \<lparr>tl_next = p, tl_prev = p, tl_s = s, tl_filename = ''f.c'', tl_linenumber = 1, no_expand = False\<rparr>)"
  define h where "h = [node None [LF], node (Some 0) ''x'', node (Some 1) [LF]]"
  let ?st = "(pp_of [])\<lparr>heap := h, global_token := Some 2\<rparr>"
  have "tabled ?st [2, 1, 0]" unfolding tabled_def by (rule exI [of _ "[]"]) simp
  moreover have "read_list (heap ?st) [2, 1, 0]" by (simp add: h_def node_def eval_nat_numeral)
  moreover have "texts (heap ?st) (rev [2, 1, 0]) = [[LF], ''x'', [LF]]" by (simp add: h_def node_def eval_nat_numeral)
  ultimately show ?thesis
    using prepare_tokens_returns [of ?st "[2, 1, 0]" False False]
    by (simp add: Let_def node_def h_def begins_plain_def) (simp add: pp_of_def)
qed

end
