(* ===== verification/CcMacroSkip.thy ===== *)
theory CcMacroSkip
  imports CcMacroLines CcMacroC
begin

text \<open>
  Which tokens a conditional that fails leaves out, with other conditionals inside.
\<close>

section \<open>The end of a block\<close>

text \<open>
  Counting: \<open>d\<close> conditionals inside are open. A block ends at the first \<^verbatim>\<open>#elif\<close>, \<^verbatim>\<open>#else\<close> or
  \<^verbatim>\<open>#endif\<close> outside of them, a whole conditional at its \<^verbatim>\<open>#endif\<close>.
\<close>

fun to_end :: "(string \<Rightarrow> bool) \<Rightarrow> nat \<Rightarrow> string list \<Rightarrow> string list option" where
  "to_end stop d [] = None"
| "to_end stop d (t # ts) =
    (if d = 0 \<and> stop t then Some (t # ts)
     else to_end stop (if opens_if t then Suc d else if t = ''#endif'' then d - 1 else d) ts)"

text \<open>What follows an opening directive is something to test, not its end.\<close>

fun tested :: "string list \<Rightarrow> bool" where
  "tested [] = True"
| "tested (t # ts) \<longleftrightarrow> (opens_if t \<longrightarrow> (\<forall>u us. ts = u # us \<longrightarrow> u \<noteq> ''#endif'')) \<and> tested ts"

abbreviation found :: "(string \<Rightarrow> bool) \<Rightarrow> nat \<Rightarrow> string list \<Rightarrow> pp_error + unit" where
  "found stop d ts \<equiv> (if to_end stop d ts = None then Inl Unterminated_If else Inr ())"

lemma tested_to_end: "to_end stop d ts = Some us \<Longrightarrow> tested ts \<Longrightarrow> tested us"
  by (induction ts arbitrary: d) (auto split: if_splits)

lemma to_end_stop: "to_end stop d ts = Some us \<Longrightarrow> \<exists>v vs. us = v # vs \<and> stop v"
  by (induction ts arbitrary: d) (auto split: if_splits)

lemma to_end_length: "to_end stop d ts = Some us \<Longrightarrow> length us \<le> length ts"
  by (induction ts arbitrary: d) (auto split: if_splits intro: le_SucI)

text \<open>An inner conditional first.\<close>

abbreviation endif :: "string \<Rightarrow> bool" where
  "endif t \<equiv> t = ''#endif''"

lemma to_end_inner:
  "to_end stop (Suc d) ts = (case to_end endif d ts of Some (v # vs) \<Rightarrow> to_end stop 0 vs | _ \<Rightarrow> None)"
proof (induction ts arbitrary: d)
  case (Cons t ts)
  show ?case
  proof (cases "d = 0 \<and> endif t")
    case False
    then show ?thesis using Cons.IH [of "Suc d"] Cons.IH [of d] Cons.IH [of "d - 1"] by (cases d) auto
  qed simp
qed simp

section \<open>The loops\<close>

lemma not_null_gives: "ahead st ks ts \<Longrightarrow>
  gives (bindP (not_null e) f) st ks r us \<longleftrightarrow> (if ts = [] then gives (fail e :: 'a run) st ks r us else gives (f ()) st ks r us)"
proof (cases ts)
  case Nil
  assume "ahead st ks ts"
  then have "macro_token st = None" using Nil by (auto simp: ahead_def texts_def inv_for_def)
  then show ?thesis using Nil by (simp add: gives_def not_null_def bindP_assoc exec require_def split: sum.splits)
next
  case (Cons t ts')
  assume "ahead st ks ts"
  then show ?thesis using Cons ahead_token [of "{}" st ks t ts'] by (auto simp: gives_def not_null_def bindP_assoc require_def split: sum.splits)
qed

text \<open>What the two loops have in common: the token is eaten, and the next one is tested.\<close>

lemma gives_step:
  assumes a: "ahead st ks (v # vs)"
    and loop: "\<And>st' w ws. vs = w # ws \<Longrightarrow> \<not> stop w \<Longrightarrow> ahead st' ks vs \<Longrightarrow>
      gives loop st' ks (found stop 0 vs) (the (to_end stop 0 vs))"
  shows "gives (bindP eat_current_token (\<lambda>_. bindP (not_null Unterminated_If) (\<lambda>_.
      bindP cur (\<lambda>s. if stop s then ret () else loop)))) st ks (found stop 0 vs) (the (to_end stop 0 vs))"
proof (rule gives_eat [OF a])
  fix st'
  assume a: "ahead st' ks vs"
  show "gives (bindP (not_null Unterminated_If) (\<lambda>_. bindP cur (\<lambda>s. if stop s then ret () else loop)))
      st' ks (found stop 0 vs) (the (to_end stop 0 vs))"
  proof (cases vs)
    case Nil
    then show ?thesis unfolding not_null_gives [OF a] by (simp add: gives_def exec)
  next
    case (Cons w ws)
    note a' = a [unfolded Cons]
    show ?thesis
    proof (cases "stop w")
      case True
      then show ?thesis using a' by (simp add: not_null_gives [OF a] gives_cur [OF a'] Cons gives_ret)
    next
      case False
      then show ?thesis using loop [OF Cons False a] by (simp add: not_null_gives [OF a] gives_cur [OF a'] Cons)
    qed
  qed
qed

lemma gives_weaken: "gives m st ks r us \<Longrightarrow> r = r' \<Longrightarrow> (\<And>x. r = Inr x \<Longrightarrow> us = us') \<Longrightarrow> gives m st ks r' us'"
  by (auto simp: gives_def split: sum.splits)

text \<open>An inner conditional, then the rest.\<close>

lemma gives_inner:
  assumes inner: "gives m st ks (found endif 0 ts) (the (to_end endif 0 ts))"
    and rest: "\<And>st' v vs. to_end endif 0 ts = Some (v # vs) \<Longrightarrow> ahead st' ks (v # vs) \<Longrightarrow>
      gives (f ()) st' ks (found stop 0 vs) (the (to_end stop 0 vs))"
  shows "gives (bindP m f) st ks (found stop (Suc 0) ts) (the (to_end stop (Suc 0) ts))"
proof (cases "to_end endif 0 ts")
  case None
  then show ?thesis using inner to_end_inner [of stop 0 ts] by (simp add: gives_def bindP_def)
next
  case (Some us)
  then obtain v vs where v: "us = v # vs" using to_end_stop by blast
  have "gives (bindP m f) st ks (bindE (Inr ()) (\<lambda>_. found stop 0 vs)) (the (to_end stop 0 vs))"
    by (rule gives_bindP) (use inner rest Some v in auto)
  then show ?thesis using to_end_inner [of stop 0 ts] Some v by simp
qed

lemma eat_until_endif_gives:
  "ahead st ks ts \<Longrightarrow> tested ts \<Longrightarrow> (\<And>u us. ts = u # us \<Longrightarrow> \<not> endif u) \<Longrightarrow>
   gives eat_until_endif st ks (found endif 0 ts) (the (to_end endif 0 ts))"
proof (induction "length ts" arbitrary: st ts rule: less_induct)
  case less
  note a = less.prems(1)
  show ?case
  proof (cases ts)
    case Nil
    have "gives (fail Unterminated_If) st ks (Inl Unterminated_If) us" for us by (simp add: gives_def exec)
    then show ?thesis using Nil by (subst eat_until_endif_unfold) (simp add: not_null_gives [OF a])
  next
    case (Cons t us)
    note a = a [unfolded Cons]
    have loop: "gives (bindP eat_current_token (\<lambda>_. bindP (not_null Unterminated_If) (\<lambda>_.
        bindP cur (\<lambda>s. if s \<noteq> ''#endif'' then eat_until_endif else ret ())))) st' ks (found endif 0 vs) (the (to_end endif 0 vs))"
      if "ahead st' ks (v # vs)" "tested vs" "length vs < length ts" for st' v vs
    proof -
      have "gives (bindP eat_current_token (\<lambda>_. bindP (not_null Unterminated_If) (\<lambda>_.
        bindP cur (\<lambda>s. if endif s then ret () else eat_until_endif)))) st' ks (found endif 0 vs) (the (to_end endif 0 vs))"
        using that less.hyps [of vs] by (intro gives_step [OF that(1)]) auto
      moreover have "(\<lambda>s. if s \<noteq> ''#endif'' then eat_until_endif else ret ()) = (\<lambda>s. if endif s then ret () else eat_until_endif)"
        by auto
      ultimately show ?thesis by simp
    qed
    show ?thesis
    proof (cases "opens_if t")
      case False
      have "to_end endif 0 ts = to_end endif 0 us" using False less.prems(3) by (simp add: Cons)
      then show ?thesis using False loop [OF a] less.prems(2)
        by (subst eat_until_endif_unfold) (simp add: not_null_gives [OF a] gives_cur [OF a] Cons)
    next
      case True
      have in1: "gives (bindP eat_current_token (\<lambda>_. eat_until_endif)) st ks (found endif 0 us) (the (to_end endif 0 us))"
        by (rule gives_eat [OF a]) (use less.hyps [of us] less.prems(2) True in \<open>simp add: Cons\<close>)
      have "gives (bindP (bindP eat_current_token (\<lambda>_. eat_until_endif)) (\<lambda>_. bindP eat_current_token (\<lambda>_. bindP (not_null Unterminated_If) (\<lambda>_.
        bindP cur (\<lambda>s. if s \<noteq> ''#endif'' then eat_until_endif else ret ())))))
        st ks (found endif (Suc 0) us) (the (to_end endif (Suc 0) us))"
      proof (rule gives_inner [OF in1])
        fix st' v vs
        assume e: "to_end endif 0 us = Some (v # vs)" "ahead st' ks (v # vs)"
        have "tested us" using less.prems(2) unfolding Cons tested.simps by (rule conjunct2)
        with e(1) have "tested (v # vs)" by (rule tested_to_end)
        then have "tested vs" unfolding tested.simps by (rule conjunct2)
        moreover have "length vs < length ts" using to_end_length [OF e(1)] unfolding Cons by simp
        ultimately show "gives (bindP eat_current_token (\<lambda>_. bindP (not_null Unterminated_If) (\<lambda>_.
          bindP cur (\<lambda>s. if s \<noteq> ''#endif'' then eat_until_endif else ret ())))) st' ks (found endif 0 vs) (the (to_end endif 0 vs))"
          by (rule loop [OF e(2)])
      qed
      moreover have "to_end endif 0 ts = to_end endif (Suc 0) us" using True by (auto simp: Cons)
      ultimately have g: "gives (bindP (bindP eat_current_token (\<lambda>_. eat_until_endif)) (\<lambda>_. bindP eat_current_token (\<lambda>_. bindP (not_null Unterminated_If) (\<lambda>_.
        bindP cur (\<lambda>s. if s \<noteq> ''#endif'' then eat_until_endif else ret ())))))
        st ks (found endif 0 ts) (the (to_end endif 0 ts))" by (simp only:)
      show ?thesis using g True
        by (subst eat_until_endif_unfold, subst not_null_gives [OF a], subst gives_cur [OF a])
          (simp only: list.distinct if_False if_True simp_thms)
    qed
  qed
qed

lemma eat_block_loop_gives:
  "ahead st ks (t # ts) \<Longrightarrow> tested (t # ts) \<Longrightarrow> \<not> ends_block t \<Longrightarrow>
   gives eat_block_loop st ks (found ends_block 0 (t # ts)) (the (to_end ends_block 0 (t # ts)))"
proof (induction "length ts" arbitrary: st t ts rule: less_induct)
  case less
  note a = less.prems(1)
  have loop: "gives (bindP eat_current_token (\<lambda>_. bindP (not_null Unterminated_If) (\<lambda>_.
      bindP cur (\<lambda>s. if ends_block s then ret () else eat_block_loop)))) st' ks (found ends_block 0 vs) (the (to_end ends_block 0 vs))"
    if "ahead st' ks (v # vs)" "tested vs" "length vs \<le> length ts" for st' v vs
    by (rule gives_step [OF that(1)]) (use that less.hyps in auto)
  show ?case
  proof (cases "opens_if t")
    case False
    then have "to_end ends_block 0 (t # ts) = to_end ends_block 0 ts" using less.prems(3) by simp
    then show ?thesis using False loop [OF a] less.prems(2)
      by (subst eat_block_loop_unfold) (simp add: gives_cur [OF a])
  next
    case True
    have in1: "gives (bindP eat_current_token (\<lambda>_. eat_until_endif)) st ks (found endif 0 ts) (the (to_end endif 0 ts))"
      by (rule gives_eat [OF a]) (use eat_until_endif_gives less.prems(2) True in auto)
    have "gives (bindP (bindP eat_current_token (\<lambda>_. eat_until_endif)) (\<lambda>_. bindP eat_current_token (\<lambda>_. bindP (not_null Unterminated_If) (\<lambda>_.
      bindP cur (\<lambda>s. if ends_block s then ret () else eat_block_loop)))))
      st ks (found ends_block (Suc 0) ts) (the (to_end ends_block (Suc 0) ts))"
    proof (rule gives_inner [OF in1])
      fix st' v vs
      assume e: "to_end endif 0 ts = Some (v # vs)" "ahead st' ks (v # vs)"
      have "tested ts" using less.prems(2) unfolding tested.simps by (rule conjunct2)
      with e(1) have "tested (v # vs)" by (rule tested_to_end)
      then have "tested vs" unfolding tested.simps by (rule conjunct2)
      moreover have "length vs \<le> length ts" using to_end_length [OF e(1)] by simp
      ultimately show "gives (bindP eat_current_token (\<lambda>_. bindP (not_null Unterminated_If) (\<lambda>_.
        bindP cur (\<lambda>s. if ends_block s then ret () else eat_block_loop)))) st' ks (found ends_block 0 vs) (the (to_end ends_block 0 vs))"
        by (rule loop [OF e(2)])
    qed
    moreover have "to_end ends_block 0 (t # ts) = to_end ends_block (Suc 0) ts" using True by auto
    ultimately show ?thesis
      by (subst eat_block_loop_unfold) (simp only: gives_cur [OF a] if_P [OF True])
  qed
qed

section \<open>A conditional that fails\<close>

lemma inv_ahead: "inv_for env st mss ks xs \<Longrightarrow> ahead st ks (texts (heap st) xs)"
  by (auto simp: ahead_def inv_for_def)

text \<open>
  C40. When a condition fails, the tokens up to the \<^verbatim>\<open>#elif\<close>, \<^verbatim>\<open>#else\<close> or \<^verbatim>\<open>#endif\<close> that
  belongs to it are eaten, however conditionals are nested in between, and the current token is the newline before
  it; without such a directive that is the error. Nothing is defined. (The table holds macros without
  parameters.)
\<close>

theorem failed_conditional:
  assumes "wf_pp st mss (ks @ [k]) xs" "tl_s (heap st ! k) = [LF]"
    and "texts (heap st) xs = t # ts" "tested (t # ts)" "\<not> ends_block t"
  shows "case to_end ends_block 0 (t # ts) of
      None \<Rightarrow> eat_block st = Some (Inl Unterminated_If)
    | Some us \<Rightarrow> \<exists>st'. eat_block st = Some (Inr ((), st')) \<and> ahead st' ks ([LF] # us) \<and> macro_env st' = macro_env st"
proof -
  have a: "ahead st (ks @ [k]) (t # ts)" using inv_ahead [OF assms(1)] assms(3) by simp
  note g = eat_block_loop_gives [OF a assms(4,5)]
  show ?thesis
  proof (cases "to_end ends_block 0 (t # ts)")
    case None
    then have "eat_block_loop st = Some (Inl Unterminated_If)" using g by (simp add: gives_def)
    then show ?thesis using None by (simp add: eat_block_def bindP_def)
  next
    case (Some us)
    then obtain st1 where 1: "eat_block_loop st = Some (Inr ((), st1))" "ahead st1 (ks @ [k]) us" "macro_env st1 = macro_env st"
      using g by (auto simp: gives_def simp del: to_end.simps)
    have k: "tl_s (heap st1 ! k) = [LF]" "k < length (heap st)"
    proof -
      have "ate 1 st (ks @ [k]) xs st1" using eat_block_loop_wp [OF assms(1)] 1(1) by (simp add: wp_def)
      then have "keeps (heap st) (heap st1)" by (auto simp: ate_def)
      moreover show "k < length (heap st)" using inv_bounds [OF assms(1)] by simp
      ultimately show "tl_s (heap st1 ! k) = [LF]" using keeps_text assms(2) by metis
    qed
    obtain v vs where v: "us = v # vs" using to_end_stop [OF Some] by blast
    obtain y ys where y: "inv_for [] st1 [] (ks @ [k]) (y # ys)" "texts (heap st1) (y # ys) = us"
      using 1(2) v by (auto simp: ahead_def texts_def)
    note c = inv_current [OF y(1)]
    have "rewind_newline st1 = Some (Inr ((), st1\<lparr>macro_token := Some k\<rparr>))"
      by (simp add: rewind_newline_def c k(1) exec)
    moreover have "inv_for [] (st1\<lparr>macro_token := Some k\<rparr>) [] ks (k # y # ys)" using y(1) by (simp add: inv_for_def)
    then have "ahead (st1\<lparr>macro_token := Some k\<rparr>) ks ([LF] # us)" using inv_ahead y(2) k(1) by fastforce
    ultimately show ?thesis using 1(1,3) Some by (simp add: eat_block_def bindP_def)
  qed
qed

lemma failed_conditional_witness:
  "\<exists>st'. eat_block ((pp_of [[LF], ''x'', ''#if'', ''y'', ''#else'', ''z'', ''#endif'', [LF], ''#else'', ''w'']) \<lparr>macro_token := Some 1\<rparr>) =
      Some (Inr ((), st')) \<and> ahead st' [] [[LF], ''#else'', ''w'']"
proof -
  let ?ts = "[[LF], ''x'', ''#if'', ''y'', ''#else'', ''z'', ''#endif'', [LF], ''#else'', ''w'']"
  let ?st = "(pp_of ?ts)\<lparr>macro_token := Some 1\<rparr>"
  have l: "length ?ts = 10" by simp
  have up: "[0..<10::nat] = [0] @ [1..<10]" by (simp add: upt_rec)
  have "segment (chain ?ts) None ([0] @ [1..<10]) None" using segment_chain [of 0 ?ts] unfolding l up by simp
  then have i: "wf_pp ?st [] ([] @ [0]) [1..<10]"
    unfolding inv_for_def by (simp add: pp_of_def first_upt) 
  have t: "texts (heap ?st) [1..<10] = tl ?ts"
    using texts_chain [of ?ts] unfolding l up by (simp add: texts_def pp_of_def)
  have "case to_end ends_block 0 (''x'' # tl (tl ?ts)) of
      None \<Rightarrow> eat_block ?st = Some (Inl Unterminated_If)
    | Some us \<Rightarrow> \<exists>st'. eat_block ?st = Some (Inr ((), st')) \<and> ahead st' [] ([LF] # us) \<and> macro_env st' = macro_env ?st"
    by (rule failed_conditional [OF i]) (use t in \<open>simp_all add: pp_of_def chain_def\<close>)
  then show ?thesis by auto
qed

end
