(* ===== verification/Spec2Isabelle.thy ===== *)
theory Spec2Isabelle
  imports SoftFloatProps StrtodProps Qsort MallocProps Hex2Riscv CcReaderOps CcNumbers StringPipeline
    CcMain CcMacroSkip
begin

text \<open>
  The verification of the programs that Veron is bootstrapped with. All of them are in
  \<^verbatim>\<open>src/stages/3-micro-c\<close>; paths below are relative to it.

  \<^bold>\<open>The programs.\<close> \<^verbatim>\<open>micro-c\<close> is a C compiler: \<^verbatim>\<open>cc_reader.c\<close> cuts a file into a doubly linked
  list of tokens, \<^verbatim>\<open>cc_macro.c\<close> preprocesses that list, \<^verbatim>\<open>cc_core.c\<close>, \<^verbatim>\<open>cc_types.c\<close> and \<^verbatim>\<open>cc_emit.c\<close>
  parse it and write assembly text, with \<^verbatim>\<open>cc_strings.c\<close> for the literals and \<^verbatim>\<open>bootstrappable.c\<close>
  for what every tool needs. The text is the input of the macro assembler
  \<^verbatim>\<open>linker-tools/M1-macro.c\<close>, which replaces the names of macros, writes strings and immediates in
  hexadecimal and hands labels and pointers through. Its output is the input of the linker
  \<^verbatim>\<open>linker-tools/hex2\<close>, which finds the address of every label in a first pass and writes the
  bytes in a second. \<^verbatim>\<open>micro-c-libc/impl\<close> is the run time library of the compiled programs, with the
  floating-point arithmetic that the compiler does not have.

  The programs share no memory: they are composed by files. So the model has one step from
  each to the next, \<^theory_text>\<open>StringPipeline\<close> and \<^theory_text>\<open>M1Bytes\<close>, where what one writes is proved to be read by
  the other as it is meant.

  \<^bold>\<open>How the code is written in HOL.\<close> Machine integers are words of their width (\<open>u8\<close>, \<open>u32\<close>, \<open>u64\<close> of
  \<^theory_text>\<open>Prelude\<close>), with the signed reading written out where the code compares or shifts signed values.
  \<open>char\<close> is signed and \<open>int\<close> has 32 bits, as on the machines the tools are built for. A C string is
  the list of its characters without the closing zero, and \<open>chr_at\<close> reads the zero behind its end.
  The globals of a program are a record that the operations take and return. What ends the
  program (\<open>exit\<close>, \<open>require\<close>, a null pointer, an access outside an array) is a value of an
  error datatype on the left of a sum, and \<open>bindE\<close> goes on with the right. Loops over lists are
  structural; a loop that may run for ever is a \<open>partial_function\<close> with the value \<open>None\<close> for
  not returning, and termination is then proved or refuted as a property. Linked lists
  that the code walks in both directions are maps from addresses to nodes (\<^theory_text>\<open>CcReader\<close>); where only
  the order matters they are lists. No fuel is used in a loop of the
  code: where a function of the model takes a number of steps, it is the length of what is walked.

  \<^bold>\<open>Shared theories.\<close> \<^theory_text>\<open>Prelude\<close> holds the names of the types, the sum monad and the lemmas on words,
  lists and strings. \<^theory_text>\<open>Rounding\<close> is the abstract specification of binary floating point: \<open>mag\<close>
  is the value of a pattern, \<open>rne\<close> says that a pattern is the one nearest to a real
  number, ties to even, and it has one solution. \<^theory_text>\<open>Bootstrappable\<close> models \<^verbatim>\<open>micro-c/bootstrappable.c\<close>
  (\<open>match\<close>, \<open>in_set\<close>, \<open>strtoint\<close>, \<open>int2str\<close>); printing and reading numbers are inverse.

  \<^bold>\<open>Soft floats\<close> (\<^verbatim>\<open>micro-c-libc/impl/libtcc1-softfloat.c\<close>). \<^theory_text>\<open>SoftFloat\<close> has one definition per
  function, over \<open>u64\<close>. \<^theory_text>\<open>SoftFloatCorrect\<close>, \<^theory_text>\<open>SoftFloatOps\<close> and \<^theory_text>\<open>SoftFloatConv\<close> carry the invariant
  of the guard and sticky bits (\<open>sided\<close>) through alignment, addition, the 128-bit product and the
  division, and \<^theory_text>\<open>SoftFloatProps\<close> states the contract: each operation returns the correctly
  rounded exact result, or NaN exactly where IEEE 754 says so.

  \<^bold>\<open>strtod\<close> (\<^verbatim>\<open>micro-c-libc/impl/runtime.c\<close>). \<^theory_text>\<open>Strtod\<close> is the model, with the big numbers as arrays of
  limbs. \<^theory_text>\<open>StrtodBig\<close> and \<^theory_text>\<open>StrtodDiv\<close>: their operations are those of the natural numbers and stay in
  bounds. \<^theory_text>\<open>StrtodRound\<close>: \<open>assemble\<close> rounds what was cut off (\<open>rounds_down\<close>) correctly. \<^theory_text>\<open>StrtodDecimal\<close> and
  \<^theory_text>\<open>StrtodValue\<close>: quotients have bits enough, and the digits beyond the 800 that are kept cannot
  matter. \<^theory_text>\<open>StrtodText\<close>: the grammar of the literals. \<^theory_text>\<open>StrtodProps\<close>: each literal gives the
  nearest double, and no text makes the code write outside its arrays.

  \<^bold>\<open>qsort\<close> (\<^verbatim>\<open>micro-c-libc/impl/runtime.c\<close>). \<^theory_text>\<open>Qsort\<close>: on bytes, with the comparison function as a parameter;
  where that agrees with an order (\<open>agrees\<close>) the elements come out as those of the stable sort of the
  library.

  \<^bold>\<open>Allocator\<close> (\<^verbatim>\<open>m2libc/stdlib.c\<close>). \<^theory_text>\<open>Malloc\<close>: the two lists of nodes, with the system call \<open>brk\<close> as a
  parameter that obeys \<open>kernel_ok\<close>. \<^theory_text>\<open>MallocProps\<close>: blocks never overlap (\<open>heap_ok\<close>), and the heap refines
  a finite map from the addresses in use to sizes, whose bytes only their owner changes; the size that
  \<open>calloc\<close> promises is the product of its arguments where that fits 32 bits, and the product
  modulo \<open>2 ^ 32\<close>, which is a bug, where it does not.

  \<^bold>\<open>Linker\<close> (\<^verbatim>\<open>linker-tools/hex2_linker.c\<close>, \<^verbatim>\<open>hex2_word.c\<close>, \<^verbatim>\<open>hex2.c\<close>). \<^theory_text>\<open>Hex2\<close> and \<^theory_text>\<open>Hex2Word\<close> model
  both modes, byte and word, with the record \<open>hex2\<close> for the globals. \<^theory_text>\<open>Hex2Correct\<close>: the hash
  table of labels is a finite map, and a pointer is written so that reading it gives the
  displacement. \<^theory_text>\<open>Hex2Layout\<close> is a locale, the contract of a step of both passes: what
  the second pass writes is as long as the first pass counted. \<^theory_text>\<open>Hex2Passes\<close> interprets it on
  the steps of both modes and concludes that every label has the address of the byte behind
  it. \<^theory_text>\<open>Hex2Riscv\<close>: immediates decode to the displacement; alignment; the loop that does not end.

  \<^bold>\<open>Tokenizer\<close> (\<^verbatim>\<open>micro-c/cc_reader.c\<close>). \<^theory_text>\<open>CcReader\<close> models the buffered reading and every token class,
  \<^theory_text>\<open>CcTokenList\<close> the list operations on the doubly linked list, \<^theory_text>\<open>CcReaderText\<close> shows that each read
  consumes what it spells, \<^theory_text>\<open>CcReaderEnd\<close> that the byte 255 is the end of a file, by a simulation of two runs,
  \<^theory_text>\<open>CcReaderProps\<close> that a file is spelt by its list of tokens in order, and \<^theory_text>\<open>CcReaderOps\<close> compares operators and numbers with those of C.

  \<^bold>\<open>Preprocessor\<close> (\<^verbatim>\<open>micro-c/cc_macro.c\<close>). \<^theory_text>\<open>CcMacroState\<close> has the state (the store of nodes with
  \<open>no_expand\<close>, the table \<open>macro_env\<close>, the stack of conditionals), the sequencing \<open>bindP\<close> of
  operations that may fail or not return, and the operations on tokens. \<^theory_text>\<open>CcMacroExpr\<close>: the table and the
  evaluator of \<^verbatim>\<open>#if\<close>. \<^theory_text>\<open>CcMacroExpand\<close>: \<open>maybe_expand\<close> with arguments, \<^verbatim>\<open>#\<close> and \<^verbatim>\<open>##\<close>, and
  \<open>strip_attributes\<close>. \<^theory_text>\<open>CcMacro\<close>: the directives, with \<^verbatim>\<open>#include\<close> over a parameter \<open>pp_files\<close> for
  \<open>fopen\<close>, and the main loop. \<^theory_text>\<open>CcMain\<close>: what \<^verbatim>\<open>main\<close> of \<^verbatim>\<open>cc.c\<close> does with the list of tokens. The invariant
  (\<open>wf_pp\<close> in \<^theory_text>\<open>CcMacroView\<close>): the token list and every replacement list are doubly linked and
  share no node. \<open>wp\<close> is total correctness: the operation returns, and its result satisfies the postcondition or is an error.
  \<^theory_text>\<open>CcMacroTotal\<close>, \<^theory_text>\<open>CcMacroLines\<close>, \<^theory_text>\<open>CcMacroToken\<close> and \<^theory_text>\<open>CcMacroReturns\<close> show it for the
  evaluator, the directives, the expansion of a token and the main loop. What decreases there is first the number
  of lines and directives to come, then the expansions left of the 10000 that a line may have, then the
  number of tokens. This is for macros without parameters, with includes not followed and a first token that is no macro: with
  them the program does run for ever on some inputs, or breaks the list. \<^theory_text>\<open>CcMacroValue\<close> and \<^theory_text>\<open>CcMacroC\<close>: an expression gives the value of its tree, in which
  a macro stands for the word its replacements lead to (\<open>next_word\<close>, at most 65 of them), and with all
  parentheses written, decimal constants and macros of one word that of C. \<^theory_text>\<open>CcMacroSkip\<close>: a conditional that fails leaves out what belongs to it.

  \<^bold>\<open>Literals\<close> (\<^verbatim>\<open>micro-c/cc_strings.c\<close>). \<^theory_text>\<open>CcStrings\<close> is the model, \<^theory_text>\<open>CcNumbers\<close> has the round trips of
  the 64-bit numbers, \<^theory_text>\<open>CcLiterals\<close> the meaning of string literals with their escapes.

  \<^bold>\<open>Macro assembler\<close> (\<^verbatim>\<open>linker-tools/M1-macro.c\<close>, \<^verbatim>\<open>stringify.c\<close>). \<^theory_text>\<open>Stringify\<close> and \<^theory_text>\<open>M1\<close> are the
  model. \<^theory_text>\<open>M1Blobs\<close>: the invariant of the table of texts. \<^theory_text>\<open>M1Lex\<close>: the tokens spell the words of the
  files. \<^theory_text>\<open>M1Output\<close>: printing stays inside the list. \<^theory_text>\<open>M1Spec\<close>: the whole program refines one
  function from words to output. \<^theory_text>\<open>M1Bytes\<close>: the linker reads what it writes as the bytes of the
  number. \<^theory_text>\<open>StringPipeline\<close>: a C string literal reaches the program as its characters, on
  every machine and in both modes of the linker; for the Knight with zeros up to a whole word.

  \<^bold>\<open>Assumptions.\<close> \<open>calloc\<close> and \<open>fread\<close> succeed; \<open>fopen\<close> and the contents of files are a parameter, a
  function from names to contents; the text of messages on the error output is left out, the
  error itself is not. \<open>calloc\<close> is taken to give memory that is zero, as its documentation says.

  \<^bold>\<open>Not modelled.\<close> The types \<^verbatim>\<open>cc_types.c\<close>, the emitter \<^verbatim>\<open>cc_emit.c\<close> and the parser and code
  generator \<^verbatim>\<open>cc_core.c\<close>, and the options of the command line in \<^verbatim>\<open>cc.c\<close>. The
  streams of \<^verbatim>\<open>m2libc\<close> are wrappers of system calls, taken as reading and writing lists. The assembly in startup files and UEFI
  services has no C semantics; the packages of the later stages (authentication, browser, boot) call
  libraries that are not in the repository; \<^verbatim>\<open>spikes/reference\<close> is third-party code.
\<close>

end
